(* ===== verification/Prelude.thy ===== *)
theory Prelude
  imports Main "HOL-Library.Word" "HOL-Library.Monad_Syntax" "HOL-Library.Signed_Division"
begin

unbundle bit_operations_syntax

text \<open>
  Shared vocabulary of the development: the C integer types of the amalgamation
  (\<^verbatim>\<open>u8\<close>, \<^verbatim>\<open>u16\<close>, \<^verbatim>\<open>u32\<close>, \<^verbatim>\<open>u64\<close> as words that wrap, \<^verbatim>\<open>int\<close> and \<^verbatim>\<open>i64\<close> as
  integers whose arithmetic is undefined outside their range), bounds-checked reads of
  byte buffers, the result codes the components return, and the generic lemmas their
  proofs share.
\<close>

section \<open>Machine integers\<close>

type_synonym u8 = "8 word"
type_synonym u16 = "16 word"
type_synonym u32 = "32 word"
type_synonym u64 = "64 word"
type_synonym bytes = "u8 list"

definition LARGEST_INT64 :: int where
  "LARGEST_INT64 = 9223372036854775807"

definition SMALLEST_INT64 :: int where
  "SMALLEST_INT64 = - 9223372036854775808"

definition in_i64 :: "int \<Rightarrow> bool" where
  "in_i64 x \<longleftrightarrow> SMALLEST_INT64 \<le> x \<and> x \<le> LARGEST_INT64"

definition in_i32 :: "int \<Rightarrow> bool" where
  "in_i32 x \<longleftrightarrow> - 2147483648 \<le> x \<and> x \<le> 2147483647"

text \<open>
  Signed arithmetic that leaves its range is undefined behaviour in C. Each operation
  below returns \<^const>\<open>None\<close> there, so a model that returns \<^const>\<open>Some\<close> is one whose
  every intermediate value was representable.
\<close>

definition i64_of :: "int \<Rightarrow> int option" where
  "i64_of x = (if in_i64 x then Some x else None)"

definition c_add64 :: "int \<Rightarrow> int \<Rightarrow> int option" where
  "c_add64 a b = i64_of (a + b)"

definition c_sub64 :: "int \<Rightarrow> int \<Rightarrow> int option" where
  "c_sub64 a b = i64_of (a - b)"

definition c_neg64 :: "int \<Rightarrow> int option" where
  "c_neg64 a = i64_of (- a)"

definition c_mul64 :: "int \<Rightarrow> int \<Rightarrow> int option" where
  "c_mul64 a b = i64_of (a * b)"

text \<open>C division truncates towards zero; division by zero and the one overflowing
  quotient are undefined.\<close>

definition c_div64 :: "int \<Rightarrow> int \<Rightarrow> int option" where
  "c_div64 a b = (if b = 0 then None else i64_of (a sdiv b))"

named_theorems c_arith "definitions of the checked signed operations"
named_theorems c_const "numeric values of the C constants"

declare c_add64_def [c_arith] c_sub64_def [c_arith] c_neg64_def [c_arith]
  c_mul64_def [c_arith] c_div64_def [c_arith] i64_of_def [c_arith] in_i64_def [c_arith]
declare LARGEST_INT64_def [c_const] SMALLEST_INT64_def [c_const]

lemma i64_of_Some [simp]: "in_i64 x \<Longrightarrow> i64_of x = Some x"
  by (simp add: i64_of_def)

lemma i64_of_None [simp]: "\<not> in_i64 x \<Longrightarrow> i64_of x = None"
  by (simp add: i64_of_def)

section \<open>Memory\<close>

text \<open>Memory allocation: a list of the outcomes of the coming allocations, all successful when it is used up.\<close>

type_synonym outcomes = "bool list"

definition malloc :: "outcomes \<Rightarrow> bool \<times> outcomes" where
  "malloc m = (case m of [] \<Rightarrow> (True, []) | b # m \<Rightarrow> (b, m))"

section \<open>Byte buffers\<close>

text \<open>A read outside the buffer is undefined in C and \<^const>\<open>None\<close> here.\<close>

definition rd :: "'a list \<Rightarrow> nat \<Rightarrow> 'a option" where
  "rd p i = (if i < length p then Some (p ! i) else None)"

lemma rd_Nil [simp]: "rd [] i = None"
  by (simp add: rd_def)

lemma rd_Cons_0 [simp]: "rd (x # xs) 0 = Some x"
  by (simp add: rd_def)

lemma rd_Cons_Suc [simp]: "rd (x # xs) (Suc i) = rd xs i"
  by (simp add: rd_def)

lemma rd_Cons_numeral [simp]: "rd (x # xs) (numeral n) = rd xs (pred_numeral n)"
  by (simp add: numeral_eq_Suc)

lemma rd_Cons_1 [simp]: "rd (x # xs) 1 = rd xs 0"
  by (simp add: rd_def)

lemma rd_eq_Some: "rd p i = Some x \<longleftrightarrow> i < length p \<and> p ! i = x"
  by (auto simp: rd_def)

lemma length_numeral_conv:
  "length xs = numeral n \<longleftrightarrow> (\<exists>y ys. xs = y # ys \<and> length ys = pred_numeral n)"
  by (simp add: numeral_eq_Suc length_Suc_conv)

lemma length_one_conv: "length xs = Suc 0 \<longleftrightarrow> (\<exists>y. xs = [y])"
  by (simp add: length_Suc_conv)

section \<open>Association lists\<close>

lemma map_of_filter_key:
  "map_of (filter (\<lambda>e. fst e \<noteq> k) xs) x = (if x = k then None else map_of xs x)"
  by (induction xs) auto

lemma distinct_map_filter: "distinct (map f xs) \<Longrightarrow> distinct (map f (filter P xs))"
  by (induction xs) auto

section \<open>Result codes\<close>

abbreviation (input) SQLITE_OK :: int where "SQLITE_OK \<equiv> 0"
abbreviation (input) SQLITE_BUSY :: int where "SQLITE_BUSY \<equiv> 5"
abbreviation (input) SQLITE_NOMEM :: int where "SQLITE_NOMEM \<equiv> 7"

section \<open>Bits of words\<close>

lemma sint_u8_nonneg [simp]: "0 \<le> sint (b :: u8) \<longleftrightarrow> \<not> bit b 7"
proof -
  have "bit b 7 \<longleftrightarrow> sint b < 0"
    using bit_last_iff [of b] by simp
  then show ?thesis by auto
qed

text \<open>
  Word identities are proved bit by bit: \<open>word_eq_by_bits\<close> reduces an equation to its bit
  positions and the \<open>bitwise\<close> collection evaluates them.
\<close>

named_theorems bitwise "evaluation of an equation at each bit position"

lemma word_eq_by_bits:
  "list_all (\<lambda>n. bit x n = bit y n) [0..<LENGTH('a)] \<Longrightarrow> x = y" for x y :: "'a::len word"
  by (rule bit_word_eqI) (simp add: list_all_iff)

lemma upt_0_numeral [bitwise]:
  "[0..<numeral n] = 0 # (if n = num.One then [] else 1 # [2..<numeral n])"
  by (cases n) (simp_all add: upt_conv_Cons numeral_2_eq_2)

lemma bit_u8_high [simp]: "8 \<le> n \<Longrightarrow> \<not> bit (b :: u8) n"
  using bit_imp_le_length [of b n] by auto

lemma bit_u16_high [simp]: "16 \<le> n \<Longrightarrow> \<not> bit (b :: u16) n"
  using bit_imp_le_length [of b n] by auto

lemma bit_u32_high [simp]: "32 \<le> n \<Longrightarrow> \<not> bit (b :: u32) n"
  using bit_imp_le_length [of b n] by auto

lemma bit_u64_high [simp]: "64 \<le> n \<Longrightarrow> \<not> bit (b :: u64) n"
  using bit_imp_le_length [of b n] by auto

lemma unat_u64_less: "unat (v :: u64) < 18446744073709551616"
  using unsigned_less [where 'a = nat, of v] by simp

lemma unat_u32_less: "unat (v :: u32) < 4294967296"
  using unsigned_less [where 'a = nat, of v] by simp

lemma unat_u16_less: "unat (v :: u16) < 65536"
  using unsigned_less [where 'a = nat, of v] by simp

lemma unat_u8_less: "unat (v :: u8) < 256"
  using unsigned_less [where 'a = nat, of v] by simp

lemma u8_lt_0x80: "b < 0x80 \<longleftrightarrow> \<not> bit (b :: u8) 7"
proof -
  have "bit b 7 \<longleftrightarrow> bit (unat b) 7" by (simp add: bit_unsigned_iff)
  also have "\<dots> \<longleftrightarrow> odd (unat b div 128)" by (simp add: bit_iff_odd)
  also have "\<dots> \<longleftrightarrow> unat b div 128 \<noteq> 0"
  proof -
    have "unat b div 128 < 2" using unat_u8_less [of b] by simp
    then show ?thesis by (auto simp: less_2_cases_iff)
  qed
  also have "\<dots> \<longleftrightarrow> \<not> unat b < 128" by (simp add: div_eq_0_iff)
  finally show ?thesis by (simp add: word_less_nat_alt)
qed

lemma and_0x80: "(x :: 'a::len word) AND 0x80 = 0 \<longleftrightarrow> \<not> bit x 7"
  using and_exp_eq_0_iff_not_bit [of x 7] by simp

declare upt_rec_numeral [bitwise] bit_simps [bitwise]

end
