(* ===== verification/Util_Int.thy ===== *)
theory Util_Int
  imports Prelude Complex_Main "HOL-Library.While_Combinator"
begin

text \<open>
  Overflow-checked 64-bit arithmetic and the logarithmic cost estimates of
  \<^verbatim>\<open>util.c\<close>. The build compiles with clang, which reports itself as GCC 4.2.1, so the
  portable branches of the \<^verbatim>\<open>#if GCC_VERSION\<close> conditionals are the ones modelled.
  Each checked operation returns the new value of \<^verbatim>\<open>*pA\<close> and the return code; the
  outer option is \<^const>\<open>None\<close> exactly when evaluation would run into undefined
  behaviour.
\<close>

section \<open>Checked 64-bit arithmetic\<close>

definition sqlite3AddInt64 :: "int \<Rightarrow> int \<Rightarrow> (int \<times> int) option" where
  "sqlite3AddInt64 iA iB =
     (let done = do { s \<leftarrow> c_add64 iA iB; Some (s, 0) } in
      if 0 \<le> iB then
        (if 0 < iA then
           do { t \<leftarrow> c_sub64 LARGEST_INT64 iA;
                if t < iB then Some (iA, 1) else done }
         else done)
      else
        (if iA < 0 then
           do { t \<leftarrow> c_add64 iA LARGEST_INT64;
                n \<leftarrow> c_neg64 t;
                u \<leftarrow> c_add64 iB 1;
                if n > u then Some (iA, 1) else done }
         else done))"

definition sqlite3SubInt64 :: "int \<Rightarrow> int \<Rightarrow> (int \<times> int) option" where
  "sqlite3SubInt64 iA iB =
     (if iB = SMALLEST_INT64 then
        (if 0 \<le> iA then Some (iA, 1)
         else do { s \<leftarrow> c_sub64 iA iB; Some (s, 0) })
      else do { n \<leftarrow> c_neg64 iB; sqlite3AddInt64 iA n })"

definition sqlite3MulInt64 :: "int \<Rightarrow> int \<Rightarrow> (int \<times> int) option" where
  "sqlite3MulInt64 iA iB =
     (let done = do { m \<leftarrow> c_mul64 iA iB; Some (m, 0) } in
      if 0 < iB then
        do { hi \<leftarrow> c_div64 LARGEST_INT64 iB;
             if iA > hi then Some (iA, 1) else do {
             lo \<leftarrow> c_div64 SMALLEST_INT64 iB;
             if iA < lo then Some (iA, 1) else done } }
      else if iB < 0 then
        (if 0 < iA then
           do { lo \<leftarrow> c_div64 SMALLEST_INT64 iA;
                if iB < lo then Some (iA, 1) else done }
         else if iA < 0 then
           (if iB = SMALLEST_INT64 then Some (iA, 1)
            else if iA = SMALLEST_INT64 then Some (iA, 1)
            else do { nA \<leftarrow> c_neg64 iA;
                      nB \<leftarrow> c_neg64 iB;
                      hi \<leftarrow> c_div64 LARGEST_INT64 nB;
                      if nA > hi then Some (iA, 1) else done })
         else done)
      else done)"

definition sqlite3AbsInt32 :: "int \<Rightarrow> int" where
  "sqlite3AbsInt32 x =
     (if 0 \<le> x then x else if x = - 2147483648 then 2147483647 else - x)"

lemma add_int64_exact:
  assumes "in_i64 a" and "in_i64 b"
  shows "sqlite3AddInt64 a b = Some (if in_i64 (a + b) then (a + b, 0) else (a, 1))"
  using assms by (simp add: sqlite3AddInt64_def Let_def c_arith c_const)

lemma sub_int64_exact:
  assumes "in_i64 a" and "in_i64 b"
  shows "sqlite3SubInt64 a b = Some (if in_i64 (a - b) then (a - b, 0) else (a, 1))"
proof (cases "b = SMALLEST_INT64")
  case True
  with assms show ?thesis by (simp add: sqlite3SubInt64_def c_arith c_const)
next
  case False
  with assms have "in_i64 (- b)" by (simp add: c_arith c_const)
  with False assms show ?thesis
    by (simp add: sqlite3SubInt64_def c_neg64_def add_int64_exact)
qed

lemma sdiv_pos_pos: "0 \<le> (a::int) \<Longrightarrow> 0 < b \<Longrightarrow> a sdiv b = a div b"
  by (cases "a = 0") (simp_all add: signed_divide_int_def)

lemma sdiv_neg_pos: "(a::int) < 0 \<Longrightarrow> 0 < b \<Longrightarrow> a sdiv b = - ((- a) div b)"
  by (simp add: signed_divide_int_def)

lemma le_div_iff_int: "a \<le> c div b \<longleftrightarrow> a * b \<le> c" if b: "0 < b" for a b c :: int
proof
  assume "a \<le> c div b"
  then have "a * b \<le> (c div b) * b" using b by (simp add: mult_right_mono)
  also have "\<dots> \<le> c" using b by (metis mult.commute mult_div_mod_eq le_add_same_cancel1 pos_mod_sign)
  finally show "a * b \<le> c" .
next
  assume "a * b \<le> c"
  then have "(a * b) div b \<le> c div b" using b by (rule zdiv_mono1)
  then show "a \<le> c div b" using b by simp
qed

lemma c_div64_largest:
  assumes "0 < b"
  shows "c_div64 LARGEST_INT64 b = Some (LARGEST_INT64 div b)"
proof -
  have "LARGEST_INT64 div b \<le> LARGEST_INT64" and "0 \<le> LARGEST_INT64 div b"
    using assms by (simp_all add: int_div_le_self pos_imp_zdiv_nonneg_iff c_const)
  then have "in_i64 (LARGEST_INT64 div b)" by (simp add: in_i64_def c_const)
  with assms show ?thesis by (simp add: c_div64_def sdiv_pos_pos c_const)
qed

lemma c_div64_smallest:
  assumes "0 < b"
  shows "c_div64 SMALLEST_INT64 b = Some (- ((LARGEST_INT64 + 1) div b))"
proof -
  have "(LARGEST_INT64 + 1) div b \<le> LARGEST_INT64 + 1" and "0 \<le> (LARGEST_INT64 + 1) div b"
    using assms by (simp_all add: int_div_le_self pos_imp_zdiv_nonneg_iff c_const)
  then have "in_i64 (- ((LARGEST_INT64 + 1) div b))" by (simp add: in_i64_def c_const)
  with assms show ?thesis by (simp add: c_div64_def sdiv_neg_pos sdiv_pos_pos c_const)
qed

text \<open>The quotients the code compares with are the exact bounds of the product.\<close>

lemma in_i64_mul_pos:
  assumes "0 < b"
  shows "in_i64 (a * b) \<longleftrightarrow>
    a \<le> LARGEST_INT64 div b \<and> - ((LARGEST_INT64 + 1) div b) \<le> a"
proof -
  have "- ((LARGEST_INT64 + 1) div b) \<le> a \<longleftrightarrow> - a \<le> (LARGEST_INT64 + 1) div b" by auto
  also have "\<dots> \<longleftrightarrow> (- a) * b \<le> LARGEST_INT64 + 1" using assms by (rule le_div_iff_int)
  finally show ?thesis
    using le_div_iff_int [OF assms, of a LARGEST_INT64] by (auto simp: in_i64_def c_const)
qed

lemma mul_int64_exact:
  assumes a: "in_i64 a" and b: "in_i64 b"
  shows "sqlite3MulInt64 a b = Some (if in_i64 (a * b) then (a * b, 0) else (a, 1))"
proof -
  consider (pos) "0 < b" | (zero) "b = 0 \<or> b < 0 \<and> a = 0" | (negpos) "b < 0" "0 < a" | (negneg) "b < 0" "a < 0"
    by linarith
  then show ?thesis
  proof cases
    case pos
    then show ?thesis
      using in_i64_mul_pos [OF pos, of a]
      by (simp add: sqlite3MulInt64_def c_div64_largest c_div64_smallest c_mul64_def)
  next
    case zero
    then show ?thesis by (auto simp: sqlite3MulInt64_def c_mul64_def in_i64_def c_const)
  next
    case negpos
    have "a * b \<le> LARGEST_INT64"
      using mult_pos_neg [OF negpos(2,1)] by (simp add: c_const)
    moreover have "b \<le> LARGEST_INT64 div a"
      using negpos mult_neg_pos [OF negpos] by (simp add: le_div_iff_int c_const)
    ultimately show ?thesis
      using negpos in_i64_mul_pos [OF negpos(2), of b]
      by (simp add: sqlite3MulInt64_def c_div64_smallest c_mul64_def mult.commute)
  next
    case negneg
    show ?thesis
    proof (cases "a = SMALLEST_INT64 \<or> b = SMALLEST_INT64")
      case True
      then have "\<not> in_i64 (a * b)"
        using negneg by (auto simp: in_i64_def c_const)
      with True negneg show ?thesis by (auto simp: sqlite3MulInt64_def)
    next
      case False
      then have n: "in_i64 (- a)" "in_i64 (- b)" using a b by (auto simp: in_i64_def c_const)
      have "- ((LARGEST_INT64 + 1) div - b) \<le> - a"
        using negneg pos_imp_zdiv_nonneg_iff [of "- b" "LARGEST_INT64 + 1"] by (simp add: c_const)
      then show ?thesis
        using False negneg n in_i64_mul_pos [of "- b" "- a"]
        by (simp add: sqlite3MulInt64_def c_neg64_def c_div64_largest c_mul64_def)
    qed
  qed
qed

lemma abs_int32_exact:
  assumes "in_i32 x"
  shows "sqlite3AbsInt32 x = min \<bar>x\<bar> 2147483647 \<and> in_i32 (sqlite3AbsInt32 x)"
  using assms by (auto simp: sqlite3AbsInt32_def in_i32_def)

section \<open>Logarithmic estimates\<close>

text \<open>
  A \<^verbatim>\<open>LogEst\<close> is ten times the base-two logarithm of a positive quantity, rounded.
  The unsigned 64-bit argument is a \<^typ>\<open>nat\<close>; the left shift is reduced modulo
  $2^{64}$.
\<close>

definition logest_add_x :: "int list" where
  "logest_add_x = [10, 10, 9, 9, 8, 8, 7, 7, 7, 6, 6, 6, 5, 5, 5, 4, 4, 4, 4,
     3, 3, 3, 3, 3, 3, 2, 2, 2, 2, 2, 2, 2]"

definition sqlite3LogEstAdd :: "int \<Rightarrow> int \<Rightarrow> int" where
  "sqlite3LogEstAdd a b =
     (if b \<le> a then
        (if a > b + 49 then a else if a > b + 31 then a + 1 else a + logest_add_x ! nat (a - b))
      else
        (if b > a + 49 then b else if b > a + 31 then b + 1 else b + logest_add_x ! nat (b - a)))"

fun logest_shr4 :: "int \<Rightarrow> nat \<Rightarrow> int \<times> nat" where
  "logest_shr4 y x = (if x > 255 then logest_shr4 (y + 40) (x div 16) else (y, x))"

fun logest_shr1 :: "int \<Rightarrow> nat \<Rightarrow> int \<times> nat" where
  "logest_shr1 y x = (if x > 15 then logest_shr1 (y + 10) (x div 2) else (y, x))"

declare logest_shr4.simps [simp del] logest_shr1.simps [simp del]

definition sqlite3LogEst :: "nat \<Rightarrow> int" where
  "sqlite3LogEst x =
     (if x < 2 then 0 else
      let (y, x) =
        (if x < 8 then while (\<lambda>(y, x). x < 8) (\<lambda>(y, x). (y - 10, (2 * x) mod 2 ^ 64)) (40, x)
         else case logest_shr4 40 x of (y, x) \<Rightarrow> logest_shr1 y x)
      in [0, 2, 3, 5, 6, 7, 8, 9] ! (x mod 8) + y - 10)"

definition sqlite3LogEstToInt :: "nat \<Rightarrow> nat" where
  "sqlite3LogEstToInt x =
     (let n = x mod 10; x = x div 10;
          n = (if n \<ge> 5 then n - 2 else if n \<ge> 1 then n - 1 else n) in
      if x > 60 then 9223372036854775807
      else if x \<ge> 3 then ((n + 8) * 2 ^ (x - 3)) mod 2 ^ 64 else (n + 8) div 2 ^ (3 - x))"

lemma logest_shr4_spec:
  "8 \<le> x \<Longrightarrow> \<exists>s. logest_shr4 y x = (y + 10 * int s, x div 2 ^ s) \<and> 8 \<le> x div 2 ^ s"
proof (induction y x rule: logest_shr4.induct)
  case (1 y x)
  show ?case
  proof (cases "x > 255")
    case True
    then have "8 \<le> x div 16" by arith
    with True obtain s where "logest_shr4 (y + 40) (x div 16) = (y + 40 + 10 * int s, x div 16 div 2 ^ s)"
        "8 \<le> x div 16 div 2 ^ s"
      using "1.IH" by auto
    then show ?thesis
      using True by (intro exI [of _ "s + 4"])
        (simp add: logest_shr4.simps [of y x] div_mult2_eq [symmetric] power_add mult.commute)
  next
    case False
    then show ?thesis using "1.prems" by (intro exI [of _ 0]) (simp add: logest_shr4.simps [of y x])
  qed
qed

lemma logest_shr1_spec:
  "8 \<le> x \<Longrightarrow> \<exists>s. logest_shr1 y x = (y + 10 * int s, x div 2 ^ s) \<and> x div 2 ^ s \<in> {8..15}"
proof (induction y x rule: logest_shr1.induct)
  case (1 y x)
  show ?case
  proof (cases "x > 15")
    case True
    then have "8 \<le> x div 2" by arith
    with True obtain s where "logest_shr1 (y + 10) (x div 2) = (y + 10 + 10 * int s, x div 2 div 2 ^ s)"
        "x div 2 div 2 ^ s \<in> {8..15}"
      using "1.IH" by auto
    then show ?thesis
      using True by (intro exI [of _ "Suc s"])
        (simp add: logest_shr1.simps [of y x] div_mult2_eq [symmetric])
  next
    case False
    then show ?thesis using "1.prems" by (intro exI [of _ 0]) (simp add: logest_shr1.simps [of y x])
  qed
qed

abbreviation logest_frac :: "nat \<Rightarrow> int" where
  "logest_frac m \<equiv> [0, 2, 3, 5, 6, 7, 8, 9] ! (m mod 8)"

text \<open>Above 8 the estimate is read off the four leading bits and their position.\<close>

lemma sqlite3LogEst_ge8:
  assumes "8 \<le> x"
  obtains s where "x div 2 ^ s \<in> {8..15}"
    "sqlite3LogEst x = logest_frac (x div 2 ^ s) + 30 + 10 * int s"
proof -
  obtain s where s: "logest_shr4 40 x = (40 + 10 * int s, x div 2 ^ s)" "8 \<le> x div 2 ^ s"
    using logest_shr4_spec [OF assms] by blast
  obtain t where t: "logest_shr1 (40 + 10 * int s) (x div 2 ^ s)
      = (40 + 10 * int s + 10 * int t, x div 2 ^ s div 2 ^ t)" "x div 2 ^ s div 2 ^ t \<in> {8..15}"
    using logest_shr1_spec [OF s(2)] by blast
  show ?thesis
    by (rule that [of "s + t"])
      (use assms s t in \<open>simp_all add: sqlite3LogEst_def div_mult2_eq [symmetric] power_add\<close>)
qed

lemma sqlite3LogEst_small:
  "sqlite3LogEst 0 = 0" "sqlite3LogEst 1 = 0" "sqlite3LogEst 2 = 10" "sqlite3LogEst 3 = 16"
  "sqlite3LogEst 4 = 20" "sqlite3LogEst 5 = 23" "sqlite3LogEst 6 = 26" "sqlite3LogEst 7 = 28"
  by (simp_all add: sqlite3LogEst_def while_unfold)

text \<open>Rational bounds of base-two logarithms, decided by comparing integer powers.\<close>

lemma log2_pow_le:
  assumes "n ^ m \<le> 2 ^ q" and "0 < n"
  shows "real m * log 2 (real n) \<le> real q"
proof -
  have "real (n ^ m) \<le> real (2 ^ q)" using assms(1) by (simp only: of_nat_le_iff)
  then have "log 2 (real n ^ m) \<le> log 2 (2 ^ q)" using assms(2) by (intro log_mono) simp_all
  then show ?thesis using assms(2) by (simp add: log_nat_power)
qed

lemma log2_pow_ge:
  assumes "2 ^ q \<le> n ^ m" and "0 < n"
  shows "real q \<le> real m * log 2 (real n)"
proof -
  have "real (2 ^ q) \<le> real (n ^ m)" using assms(1) by (simp only: of_nat_le_iff)
  then have "log 2 (2 ^ q) \<le> log 2 (real n ^ m)" by (intro log_mono) simp_all
  then show ?thesis using assms(2) by (simp add: log_nat_power)
qed

lemma logest_frac_bounds:
  assumes "m \<in> {8..15}"
  shows "2 ^ nat (2 * logest_frac m + 59) \<le> m ^ 20" and "(m + 1) ^ 100 \<le> 2 ^ nat (10 * logest_frac m + 317)"
    and "0 \<le> logest_frac m"
proof -
  from assms have "m = 8 \<or> m = 9 \<or> m = 10 \<or> m = 11 \<or> m = 12 \<or> m = 13 \<or> m = 14 \<or> m = 15"
    by auto
  then show "2 ^ nat (2 * logest_frac m + 59) \<le> m ^ 20" and "(m + 1) ^ 100 \<le> 2 ^ nat (10 * logest_frac m + 317)"
    and "0 \<le> logest_frac m"
    by auto
qed

lemma log2_mantissa:
  assumes "m \<in> {8..15}"
  shows "real_of_int (logest_frac m) + 30 \<le> 10 * log 2 (real m) + 1 / 2"
    and "10 * log 2 (real (m + 1)) \<le> real_of_int (logest_frac m) + 30 + 17 / 10"
  using log2_pow_ge [OF logest_frac_bounds(1) [OF assms]] log2_pow_le [OF logest_frac_bounds(2) [OF assms]]
    logest_frac_bounds(3) [OF assms] assms
  by auto

lemma logest_accuracy_ge8:
  assumes "8 \<le> x"
  shows "\<bar>real_of_int (sqlite3LogEst x) - 10 * log 2 (real x)\<bar> \<le> 17 / 10"
proof -
  obtain s where m: "x div 2 ^ s \<in> {8..15}"
    and e: "sqlite3LogEst x = logest_frac (x div 2 ^ s) + 30 + 10 * int s"
    using sqlite3LogEst_ge8 [OF assms] .
  let ?m = "x div 2 ^ s"
  have "?m * 2 ^ s \<le> x" and "x \<le> (?m + 1) * 2 ^ s"
    using dividend_less_div_times [of "2 ^ s" x] by (simp_all add: div_times_less_eq_dividend)
  then have "real (?m * 2 ^ s) \<le> real x" and "real x \<le> real ((?m + 1) * 2 ^ s)"
    by (simp_all only: of_nat_le_iff)
  then have "log 2 (real (?m * 2 ^ s)) \<le> log 2 (real x)"
    and "log 2 (real x) \<le> log 2 (real ((?m + 1) * 2 ^ s))"
    using m assms by (auto intro!: log_mono simp del: of_nat_mult)
  moreover have "log 2 (real (k * 2 ^ s)) = log 2 (real k) + s" if "0 < k" for k
    using that by (simp add: log_mult log_nat_power)
  from this [of ?m] this [of "?m + 1"] m
  have "log 2 (real (?m * 2 ^ s)) = log 2 (real ?m) + s"
    and "log 2 (real ((?m + 1) * 2 ^ s)) = log 2 (real (?m + 1)) + s"
    by (simp_all del: of_nat_mult of_nat_add)
  ultimately have "log 2 (real ?m) + s \<le> log 2 (real x)" and "log 2 (real x) \<le> log 2 (real (?m + 1)) + s"
    by linarith+
  moreover have "real_of_int (sqlite3LogEst x) = real_of_int (logest_frac ?m) + 30 + 10 * real s"
    by (simp add: e)
  ultimately show ?thesis using log2_mantissa [OF m] by linarith
qed

lemma logest_accuracy_small:
  assumes "x \<in> {1..7}"
  shows "\<bar>real_of_int (sqlite3LogEst x) - 10 * log 2 (real x)\<bar> \<le> 17 / 10"
proof -
  have "x = 1 \<or> x = 2 \<or> x = 3 \<or> x = 4 \<or> x = 5 \<or> x = 6 \<or> x = 7" using assms by auto
  then show ?thesis
    using log2_pow_ge [of 31 3 20] log2_pow_le [of 3 20 32] log2_pow_ge [of 2 4 1] log2_pow_le [of 4 1 2]
      log2_pow_ge [of 46 5 20] log2_pow_le [of 5 20 47] log2_pow_ge [of 51 6 20] log2_pow_le [of 6 20 52]
      log2_pow_ge [of 56 7 20] log2_pow_le [of 7 20 57]
    by (auto simp: sqlite3LogEst_small sqlite3LogEst_small(2) [unfolded One_nat_def])
qed

lemma logest_add_commute: "sqlite3LogEstAdd a b = sqlite3LogEstAdd b a"
  by (simp add: sqlite3LogEstAdd_def)

lemma logest_add_x_range: "n < 32 \<Longrightarrow> 2 \<le> logest_add_x ! n \<and> logest_add_x ! n \<le> 10"
  by (auto simp: logest_add_x_def less_Suc_eq numeral_eq_Suc)

lemma logest_add_bounds:
  "max a b \<le> sqlite3LogEstAdd a b \<and> sqlite3LogEstAdd a b \<le> max a b + 10"
proof -
  have "a \<le> b + 31 \<Longrightarrow> b \<le> a \<Longrightarrow> logest_add_x ! nat (a - b) \<in> {2..10}"
    and "b \<le> a + 31 \<Longrightarrow> a \<le> b \<Longrightarrow> logest_add_x ! nat (b - a) \<in> {2..10}"
    using logest_add_x_range [of "nat (a - b)"] logest_add_x_range [of "nat (b - a)"] by auto
  then show ?thesis by (auto simp: sqlite3LogEstAdd_def)
qed

text \<open>The mantissa digits that \<^const>\<open>sqlite3LogEstToInt\<close> rebuilds.\<close>

lemma sqlite3LogEst_shifted:
  assumes "m \<in> {8..15}"
  shows "sqlite3LogEst (m * 2 ^ k) = logest_frac m + 30 + 10 * int k"
proof -
  have "8 \<le> m * 2 ^ k" using assms by (simp add: order_trans [of 8 m])
  then obtain s where s: "m * 2 ^ k div 2 ^ s \<in> {8..15}"
      "sqlite3LogEst (m * 2 ^ k) = logest_frac (m * 2 ^ k div 2 ^ s) + 30 + 10 * int s"
    by (rule sqlite3LogEst_ge8)
  have "s = k"
  proof (rule ccontr)
    assume "s \<noteq> k"
    then consider "s < k" | "k < s" by linarith
    then show False
    proof cases
      case 1
      then have "2 ^ k = 2 ^ s * (2 * 2 ^ (k - s - 1) :: nat)"
        by (simp flip: power_Suc power_add)
      then have "m * 2 ^ k div 2 ^ s = m * (2 * 2 ^ (k - s - 1))" by simp
      moreover have "8 * 2 \<le> m * (2 * 2 ^ (k - s - 1))"
        using assms by (intro mult_le_mono) simp_all
      ultimately show False using s(1) by simp
    next
      case 2
      then have "2 ^ s = 2 ^ k * (2 * 2 ^ (s - k - 1) :: nat)"
        by (simp flip: power_Suc power_add)
      then have "m * 2 ^ k div 2 ^ s = m div 2 div 2 ^ (s - k - 1)"
        by (simp add: div_mult2_eq)
      also have "\<dots> \<le> m div 2" by simp
      finally show False using s(1) assms by auto
    qed
  qed
  with s(2) show ?thesis by simp
qed

lemma sqlite3LogEstToInt_mantissa:
  assumes "30 \<le> x" and "x < 610"
  obtains m where "m \<in> {8..15}" "sqlite3LogEstToInt x = m * 2 ^ (x div 10 - 3)"
    "\<bar>logest_frac m - int (x mod 10)\<bar> \<le> 1"
proof -
  let ?d = "x mod 10" and ?q = "x div 10"
  define n where "n = (if ?d \<ge> 5 then ?d - 2 else if ?d \<ge> 1 then ?d - 1 else ?d)"
  have d: "?d = 0 \<or> ?d = 1 \<or> ?d = 2 \<or> ?d = 3 \<or> ?d = 4 \<or> ?d = 5 \<or> ?d = 6 \<or> ?d = 7 \<or> ?d = 8 \<or> ?d = 9"
    by arith
  have m: "n + 8 \<in> {8..15}" "\<bar>logest_frac (n + 8) - int ?d\<bar> \<le> 1"
    using d by (auto simp: n_def)
  have q: "3 \<le> ?q" "?q \<le> 60" using assms by simp_all
  have "(n + 8) * 2 ^ (?q - 3) \<le> 15 * 2 ^ 57"
    using m(1) q by (intro mult_le_mono power_increasing) auto
  then have "(n + 8) * 2 ^ (?q - 3) mod 2 ^ 64 = (n + 8) * 2 ^ (?q - 3)" by simp
  then have "sqlite3LogEstToInt x = (n + 8) * 2 ^ (?q - 3)"
    using q by (simp add: sqlite3LogEstToInt_def n_def Let_def)
  with m show ?thesis by (intro that)
qed

lemma logest_to_int_roundtrip:
  assumes "30 \<le> x" and "x < 610"
  shows "\<bar>sqlite3LogEst (sqlite3LogEstToInt x) - int x\<bar> \<le> 1"
proof -
  obtain m where m: "m \<in> {8..15}" "sqlite3LogEstToInt x = m * 2 ^ (x div 10 - 3)"
      "\<bar>logest_frac m - int (x mod 10)\<bar> \<le> 1"
    using sqlite3LogEstToInt_mantissa [OF assms] .
  have "int (x div 10 - 3) = int (x div 10) - 3" using assms by simp
  then have "sqlite3LogEst (sqlite3LogEstToInt x) = logest_frac m + 10 * int (x div 10)"
    using m(1,2) by (simp add: sqlite3LogEst_shifted)
  moreover have "x = 10 * (x div 10) + x mod 10" by simp
  then have "int x = 10 * int (x div 10) + int (x mod 10)"
    by (metis of_nat_add of_nat_mult of_nat_numeral)
  ultimately show ?thesis using m(3) by linarith
qed

section \<open>Properties\<close>

text \<open>C32: The checked 64-bit operations never execute an overflowing C operation. Each returns 0 and
  stores the exact result whenever that is representable, and otherwise returns 1 and leaves
  the destination as it was.\<close>

theorem checked_arithmetic_exact:
  assumes "in_i64 a" and "in_i64 b"
  shows "sqlite3AddInt64 a b = Some (if in_i64 (a + b) then (a + b, 0) else (a, 1)) \<and>
    sqlite3SubInt64 a b = Some (if in_i64 (a - b) then (a - b, 0) else (a, 1)) \<and>
    sqlite3MulInt64 a b = Some (if in_i64 (a * b) then (a * b, 0) else (a, 1))"
  using add_int64_exact [OF assms] sub_int64_exact [OF assms] mul_int64_exact [OF assms] by blast

theorem checked_arithmetic_exact_witness:
  "sqlite3MulInt64 SMALLEST_INT64 (- 1) = Some (SMALLEST_INT64, 1) \<and>
   sqlite3SubInt64 (- 1) SMALLEST_INT64 = Some (LARGEST_INT64, 0)"
  using checked_arithmetic_exact [of SMALLEST_INT64 "- 1"] checked_arithmetic_exact [of "- 1" SMALLEST_INT64]
  by (simp add: c_arith c_const)

text \<open>The integer loops of sqlite3LogEst compute ten times the base-two logarithm of every
  positive argument with an error of at most 1.7 units.\<close>

theorem logest_accuracy:
  assumes "0 < x"
  shows "\<bar>real_of_int (sqlite3LogEst x) - 10 * log 2 (real x)\<bar> \<le> 17 / 10"
  using logest_accuracy_small [of x] logest_accuracy_ge8 [of x] assms by force

theorem logest_accuracy_witness: "\<bar>real_of_int 99 - 10 * log 2 (1000 :: real)\<bar> \<le> 17 / 10"
proof -
  have "sqlite3LogEst 1000 = 99" by code_simp
  then show ?thesis using logest_accuracy [of 1000] by simp
qed

text \<open>Converting a LogEst to an integer and back changes it by at most one unit over the
  whole range in which the conversion does not saturate.\<close>

theorem logest_roundtrip:
  assumes "30 \<le> x" and "x < 610"
  shows "\<bar>sqlite3LogEst (sqlite3LogEstToInt x) - int x\<bar> \<le> 1"
  by (rule logest_to_int_roundtrip [OF assms])

theorem logest_roundtrip_witness:
  "sqlite3LogEstToInt 99 = 960 \<and> \<bar>sqlite3LogEst (sqlite3LogEstToInt 99) - 99\<bar> \<le> 1"
  using logest_roundtrip [of 99] by (simp add: sqlite3LogEstToInt_def push_bit_eq_mult)

end
