(* ===== verification/Varint.thy ===== *)
theory Varint
  imports Prelude
begin

text \<open>
  The variable-length integer codec of \<^verbatim>\<open>util.c\<close> and the four-byte big-endian
  accessors. A read returns the decoded value and the number of bytes consumed, and is
  \<^const>\<open>None\<close> when it would run off the end of the buffer; a write returns the bytes
  stored at \<^verbatim>\<open>p[0..n-1]\<close> and \<^verbatim>\<open>n\<close>.
\<close>

unbundle bit_operations_syntax

section \<open>Writing\<close>

lemma drop7_less: "drop_bit 7 v \<noteq> 0 \<Longrightarrow> unat (drop_bit 7 v) < unat (v :: u64)"
proof -
  assume "drop_bit 7 v \<noteq> 0"
  then have "unat (drop_bit 7 v) \<noteq> 0" by (simp only: unat_eq_zero not_False_eq_True)
  moreover have "unat (drop_bit 7 v) = unat v div 128"
    by (simp add: drop_bit_eq_div unat_div)
  ultimately show ?thesis by simp
qed

text \<open>The body of the \<^verbatim>\<open>do ... while( v!=0 )\<close> loop that fills \<^verbatim>\<open>buf\<close>.\<close>

function putVarint_buf :: "u64 \<Rightarrow> bytes" where
  "putVarint_buf v =
     (let b = ucast ((v AND 0x7f) OR 0x80); v = drop_bit 7 v in
      if v \<noteq> 0 then b # putVarint_buf v else [b])"
  by pat_completeness auto
termination
  by (relation "measure unat") (auto simp: drop7_less)

text \<open>The body of the loop that fills \<^verbatim>\<open>p[7]\<close> down to \<^verbatim>\<open>p[0]\<close>.\<close>

fun putVarint_down :: "nat \<Rightarrow> u64 \<Rightarrow> bytes \<Rightarrow> bytes" where
  "putVarint_down 0 v p = p"
| "putVarint_down (Suc i) v p =
     putVarint_down i (drop_bit 7 v) (ucast ((v AND 0x7f) OR 0x80) # p)"

definition putVarint64 :: "u64 \<Rightarrow> bytes \<times> nat" where
  "putVarint64 v =
     (if v AND push_bit 32 0xff000000 \<noteq> 0 then
        (putVarint_down 8 (drop_bit 8 v) [ucast v], 9)
      else
        (let buf = putVarint_buf v; n = length buf;
             buf = buf[0 := buf ! 0 AND 0x7f] in (rev buf, n)))"

definition sqlite3PutVarint :: "u64 \<Rightarrow> bytes \<times> nat" where
  "sqlite3PutVarint v =
     (if v \<le> 0x7f then ([ucast (v AND 0x7f)], 1)
      else if v \<le> 0x3fff then
        ([ucast ((drop_bit 7 v AND 0x7f) OR 0x80), ucast (v AND 0x7f)], 2)
      else putVarint64 v)"

text \<open>\<^verbatim>\<open>for(i=1; (v >>= 7)!=0; i++)\<close>\<close>

function varintLen_loop :: "u64 \<Rightarrow> nat \<Rightarrow> nat" where
  "varintLen_loop v i =
     (let v = drop_bit 7 v in if v \<noteq> 0 then varintLen_loop v (i + 1) else i)"
  by pat_completeness auto
termination
  by (relation "measure (unat \<circ> fst)") (auto simp: drop7_less)

definition sqlite3VarintLen :: "u64 \<Rightarrow> nat" where
  "sqlite3VarintLen v = varintLen_loop v 1"

declare putVarint_buf.simps [simp del] varintLen_loop.simps [simp del]

section \<open>Reading\<close>

abbreviation SLOT_2_0 :: u32 where "SLOT_2_0 \<equiv> 0x001fc07f"
abbreviation SLOT_4_2_0 :: u32 where "SLOT_4_2_0 \<equiv> 0xf01fc07f"

definition sqlite3GetVarint :: "bytes \<Rightarrow> (u64 \<times> nat) option" where
  "sqlite3GetVarint p = do {
     p0 \<leftarrow> rd p 0;
     if 0 \<le> sint p0 then Some (ucast p0, 1) else do {
     p1 \<leftarrow> rd p 1;
     if 0 \<le> sint p1 then Some (ucast (push_bit 7 (ucast (p0 AND 0x7f) :: u32) OR ucast p1), 2) else do {
     let a = push_bit 14 (ucast p0 :: u32);
     let b = (ucast p1 :: u32);
     p2 \<leftarrow> rd p 2;
     let a = a OR ucast p2;
     if a AND 0x80 = 0 then
       (let a = a AND SLOT_2_0; b = b AND 0x7f; b = push_bit 7 b; a = a OR b in Some (ucast a, 3))
     else do {
     let a = a AND SLOT_2_0;
     p3 \<leftarrow> rd p 3;
     let b = push_bit 14 b;
     let b = b OR ucast p3;
     if b AND 0x80 = 0 then
       (let b = b AND SLOT_2_0; a = push_bit 7 a; a = a OR b in Some (ucast a, 4))
     else do {
     let b = b AND SLOT_2_0;
     let s = a;
     p4 \<leftarrow> rd p 4;
     let a = push_bit 14 a;
     let a = a OR ucast p4;
     if a AND 0x80 = 0 then
       (let b = push_bit 7 b; a = a OR b; s = drop_bit 18 s in
        Some (push_bit 32 (ucast s) OR ucast a, 5))
     else do {
     let s = push_bit 7 s;
     let s = s OR b;
     p5 \<leftarrow> rd p 5;
     let b = push_bit 14 b;
     let b = b OR ucast p5;
     if b AND 0x80 = 0 then
       (let a = a AND SLOT_2_0; a = push_bit 7 a; a = a OR b; s = drop_bit 18 s in
        Some (push_bit 32 (ucast s) OR ucast a, 6))
     else do {
     p6 \<leftarrow> rd p 6;
     let a = push_bit 14 a;
     let a = a OR ucast p6;
     if a AND 0x80 = 0 then
       (let a = a AND SLOT_4_2_0; b = b AND SLOT_2_0; b = push_bit 7 b; a = a OR b; s = drop_bit 11 s in
        Some (push_bit 32 (ucast s) OR ucast a, 7))
     else do {
     let a = a AND SLOT_2_0;
     p7 \<leftarrow> rd p 7;
     let b = push_bit 14 b;
     let b = b OR ucast p7;
     if b AND 0x80 = 0 then
       (let b = b AND SLOT_4_2_0; a = push_bit 7 a; a = a OR b; s = drop_bit 4 s in
        Some (push_bit 32 (ucast s) OR ucast a, 8))
     else do {
     p8 \<leftarrow> rd p 8;
     let a = push_bit 15 a;
     let a = a OR ucast p8;
     let b = b AND SLOT_2_0;
     let b = push_bit 8 b;
     let a = a OR b;
     let s = push_bit 4 s;
     let b = (ucast p4 :: u32);
     let b = b AND 0x7f;
     let b = drop_bit 3 b;
     let s = s OR b;
     Some (push_bit 32 (ucast s) OR ucast a, 9) } } } } } } } } }"

definition sqlite3GetVarint32 :: "bytes \<Rightarrow> (u32 \<times> nat) option" where
  "sqlite3GetVarint32 p = do {
     p0 \<leftarrow> rd p 0;
     p1 \<leftarrow> rd p 1;
     if p1 AND 0x80 = 0 then Some (push_bit 7 (ucast (p0 AND 0x7f)) OR ucast p1, 2) else do {
     p2 \<leftarrow> rd p 2;
     if p2 AND 0x80 = 0 then
       Some (push_bit 14 (ucast (p0 AND 0x7f)) OR push_bit 7 (ucast (p1 AND 0x7f)) OR ucast p2, 3)
     else do {
     (v64, n) \<leftarrow> sqlite3GetVarint p;
     Some (if v64 AND 0xffffffff \<noteq> v64 then 0xffffffff else ucast v64, n) } } }"

text \<open>The macro \<^verbatim>\<open>getVarint32\<close>, through which every caller reads: it inlines the
  one-byte case.\<close>

definition getVarint32 :: "bytes \<Rightarrow> (u32 \<times> nat) option" where
  "getVarint32 p = do {
     p0 \<leftarrow> rd p 0;
     if p0 < 0x80 then Some (ucast p0, 1) else sqlite3GetVarint32 p }"

section \<open>Four-byte big-endian integers\<close>

definition sqlite3Get4byte :: "bytes \<Rightarrow> u32 option" where
  "sqlite3Get4byte p = do {
     p0 \<leftarrow> rd p 0; p1 \<leftarrow> rd p 1; p2 \<leftarrow> rd p 2; p3 \<leftarrow> rd p 3;
     Some (push_bit 24 (ucast p0) OR push_bit 16 (ucast p1) OR push_bit 8 (ucast p2) OR ucast p3) }"

definition sqlite3Put4byte :: "u32 \<Rightarrow> bytes" where
  "sqlite3Put4byte v =
     [ucast (drop_bit 24 v), ucast (drop_bit 16 v), ucast (drop_bit 8 v), ucast v]"

section \<open>The reference decoder\<close>

text \<open>
  The encoding as the comment above \<^verbatim>\<open>putVarint64\<close> describes it: big-endian groups of
  seven bits, the high bit of each byte set on all but the last, and all eight bits of a
  ninth byte.
\<close>

fun varint_ref :: "nat \<Rightarrow> u64 \<Rightarrow> bytes \<Rightarrow> (u64 \<times> nat) option" where
  "varint_ref k acc [] = None"
| "varint_ref k acc (b # bs) =
     (if k = 8 then Some (push_bit 8 acc OR ucast b, 9)
      else if bit b 7 then varint_ref (Suc k) (push_bit 7 acc OR ucast (b AND 0x7f)) bs
      else Some (push_bit 7 acc OR ucast b, Suc k))"

text \<open>Every buffer is a run of continuation bytes followed by what ends the scan.\<close>

lemma varint_run:
  fixes p :: bytes
  obtains q r where "p = q @ r" "\<forall>b \<in> set q. bit b 7"
    "length q \<le> 8 \<and> r = [] \<or> length q = 8 \<or> length q < 8 \<and> r \<noteq> [] \<and> \<not> bit (hd r) 7"
proof -
  let ?c = "\<lambda>b :: u8. bit b 7"
  define q where "q = take 8 (takeWhile ?c p)"
  define n where "n = length (takeWhile ?c p)"
  have "takeWhile ?c p = take n p" unfolding n_def by (rule takeWhile_eq_take)
  moreover have "n \<le> length p" unfolding n_def by (rule length_takeWhile_le)
  ultimately have "q = take (min 8 n) p" and "length q = min 8 n" by (simp_all add: q_def)
  then have q: "q @ drop (length q) p = p" by simp
  have c: "\<forall>b \<in> set q. bit b 7"
    unfolding q_def by (meson in_set_takeD set_takeWhileD)
  have e: "\<not> bit (hd (drop (length q) p)) 7" if "length q < 8" "drop (length q) p \<noteq> []"
  proof -
    have "drop (length q) p = dropWhile ?c p" using that(1) by (simp add: q_def dropWhile_eq_drop)
    then show ?thesis using that(2) hd_dropWhile [of ?c p] by auto
  qed
  have "length q \<le> 8" by (simp add: q_def)
  then show ?thesis
    using c e by (intro that [OF q [symmetric]]) (auto simp: order_le_less)
qed

text \<open>One equation per length of the run: the code's mask-and-shift value is the reference's.\<close>

lemmas varint_unfold = sqlite3GetVarint_def and_0x80 Let_def bit_or_iff bit_push_bit_iff bit_ucast_iff

lemma get_run0:
  "\<lbrakk>\<not> bit b 7\<rbrakk> \<Longrightarrow> sqlite3GetVarint (b # r) = varint_ref 0 0 (b # r)"
  by (simp add: varint_unfold)

lemma get_run1:
  "\<lbrakk>bit a0 7; \<not> bit b 7\<rbrakk> \<Longrightarrow> sqlite3GetVarint (a0 # b # r) = varint_ref 0 0 (a0 # b # r)"
  by (simp add: varint_unfold bit_and_iff) (rule word_eq_by_bits, simp add: bitwise)

lemma get_run2:
  "\<lbrakk>bit a0 7; bit a1 7; \<not> bit b 7\<rbrakk> \<Longrightarrow> sqlite3GetVarint (a0 # a1 # b # r) = varint_ref 0 0 (a0 # a1 # b # r)"
  by (simp add: varint_unfold bit_and_iff) (rule word_eq_by_bits, simp add: bitwise)

lemma get_run3:
  "\<lbrakk>bit a0 7; bit a1 7; bit a2 7; \<not> bit b 7\<rbrakk> \<Longrightarrow> sqlite3GetVarint (a0 # a1 # a2 # b # r) = varint_ref 0 0 (a0 # a1 # a2 # b # r)"
  by (simp add: varint_unfold bit_and_iff) (rule word_eq_by_bits, simp add: bitwise)

lemma get_run4:
  "\<lbrakk>bit a0 7; bit a1 7; bit a2 7; bit a3 7; \<not> bit b 7\<rbrakk> \<Longrightarrow> sqlite3GetVarint (a0 # a1 # a2 # a3 # b # r) = varint_ref 0 0 (a0 # a1 # a2 # a3 # b # r)"
  by (simp add: varint_unfold bit_and_iff) (rule word_eq_by_bits, simp add: bitwise)

lemma get_run5:
  "\<lbrakk>bit a0 7; bit a1 7; bit a2 7; bit a3 7; bit a4 7; \<not> bit b 7\<rbrakk> \<Longrightarrow> sqlite3GetVarint (a0 # a1 # a2 # a3 # a4 # b # r) = varint_ref 0 0 (a0 # a1 # a2 # a3 # a4 # b # r)"
  by (simp add: varint_unfold bit_and_iff) (rule word_eq_by_bits, simp add: bitwise)

lemma get_run6:
  "\<lbrakk>bit a0 7; bit a1 7; bit a2 7; bit a3 7; bit a4 7; bit a5 7; \<not> bit b 7\<rbrakk> \<Longrightarrow> sqlite3GetVarint (a0 # a1 # a2 # a3 # a4 # a5 # b # r) = varint_ref 0 0 (a0 # a1 # a2 # a3 # a4 # a5 # b # r)"
  by (simp add: varint_unfold bit_and_iff) (rule word_eq_by_bits, simp add: bitwise)

lemma get_run7:
  "\<lbrakk>bit a0 7; bit a1 7; bit a2 7; bit a3 7; bit a4 7; bit a5 7; bit a6 7; \<not> bit b 7\<rbrakk> \<Longrightarrow> sqlite3GetVarint (a0 # a1 # a2 # a3 # a4 # a5 # a6 # b # r) = varint_ref 0 0 (a0 # a1 # a2 # a3 # a4 # a5 # a6 # b # r)"
  by (simp add: varint_unfold bit_and_iff) (rule word_eq_by_bits, simp add: bitwise)

lemma get_run8:
  "\<lbrakk>bit a0 7; bit a1 7; bit a2 7; bit a3 7; bit a4 7; bit a5 7; bit a6 7; bit a7 7\<rbrakk> \<Longrightarrow> sqlite3GetVarint (a0 # a1 # a2 # a3 # a4 # a5 # a6 # a7 # b # r) = varint_ref 0 0 (a0 # a1 # a2 # a3 # a4 # a5 # a6 # a7 # b # r)"
  by (simp add: varint_unfold bit_and_iff) (rule word_eq_by_bits, simp add: bitwise)

lemmas get_runs = get_run0 get_run1 get_run2 get_run3 get_run4 get_run5 get_run6 get_run7 get_run8

lemma run_cases:
  assumes "length q \<le> 8"
  obtains "q = []"
  | a0 where "q = [a0]"
  | a0 a1 where "q = [a0, a1]"
  | a0 a1 a2 where "q = [a0, a1, a2]"
  | a0 a1 a2 a3 where "q = [a0, a1, a2, a3]"
  | a0 a1 a2 a3 a4 where "q = [a0, a1, a2, a3, a4]"
  | a0 a1 a2 a3 a4 a5 where "q = [a0, a1, a2, a3, a4, a5]"
  | a0 a1 a2 a3 a4 a5 a6 where "q = [a0, a1, a2, a3, a4, a5, a6]"
  | a0 a1 a2 a3 a4 a5 a6 a7 where "q = [a0, a1, a2, a3, a4, a5, a6, a7]"
proof -
  have "length q = 0 \<or> length q = Suc 0 \<or> length q = 2 \<or> length q = 3 \<or> length q = 4 \<or>
      length q = 5 \<or> length q = 6 \<or> length q = 7 \<or> length q = 8"
    using assms by arith
  then show ?thesis
    by (elim disjE) (auto simp: length_numeral_conv length_one_conv intro: that)
qed

lemma get_short:
  assumes "\<forall>b \<in> set q. bit b 7" and "length q \<le> 8"
  shows "sqlite3GetVarint q = None"
  using assms(2,1) by (cases q rule: run_cases) (simp_all add: varint_unfold bit_and_iff)

lemma ref_short: "\<forall>b \<in> set q. bit b 7 \<Longrightarrow> k + length q \<le> 8 \<Longrightarrow> varint_ref k acc q = None"
  by (induction k acc q rule: varint_ref.induct) auto

lemma getVarint_eq_ref: "sqlite3GetVarint p = varint_ref 0 0 p"
proof -
  obtain q r where p: "p = q @ r" and q: "\<forall>b \<in> set q. bit b 7"
    and c: "length q \<le> 8 \<and> r = [] \<or> length q = 8 \<or> length q < 8 \<and> r \<noteq> [] \<and> \<not> bit (hd r) 7"
    by (rule varint_run)
  show ?thesis
  proof (cases r)
    case Nil
    then show ?thesis using p q c get_short ref_short by auto
  next
    case (Cons b r')
    have "length q \<le> 8" using c by auto
    then show ?thesis
      using c q unfolding p Cons
      by (cases q rule: run_cases) (simp_all add: get_runs del: varint_ref.simps)
  qed
qed

section \<open>Writing is inverted by reading\<close>

lemma join7: "push_bit 7 (drop_bit 7 v) OR (v AND 0x7f) = v" for v :: u64
  by (rule word_eq_by_bits, simp add: bitwise)

lemma group_byte:
  "bit (ucast ((v AND 0x7f) OR 0x80 :: u64) :: u8) 7"
  "ucast (ucast ((v AND 0x7f) OR 0x80 :: u64) AND 0x7f :: u8) = v AND (0x7f :: u64)"
  by (simp add: bit_simps) (rule word_eq_by_bits, simp add: bitwise)

lemma last_byte:
  "\<not> bit (ucast ((v AND 0x7f) OR 0x80 :: u64) AND 0x7f :: u8) 7"
  "ucast (ucast ((v AND 0x7f) OR 0x80 :: u64) AND 0x7f :: u8) = v AND (0x7f :: u64)"
  by (simp add: bit_simps) (rule group_byte)

lemma ref_buf:
  "k + length (putVarint_buf v) \<le> 8 \<Longrightarrow>
   varint_ref k acc (rev (putVarint_buf v) @ s) =
   varint_ref (k + length (putVarint_buf v)) (push_bit (7 * length (putVarint_buf v)) acc OR v) s"
proof (induction v arbitrary: s rule: putVarint_buf.induct)
  case (1 v)
  show ?case
  proof (cases "drop_bit 7 v = 0")
    case True
    then have "v AND 0x7f = v" using join7 [of v] by simp
    moreover have "putVarint_buf v = [ucast ((v AND 0x7f) OR 0x80)]"
      using True by (simp add: putVarint_buf.simps [of v])
    ultimately show ?thesis
      using "1.prems" group_byte [of v] by simp
  next
    case False
    let ?w = "drop_bit 7 v"
    have buf: "putVarint_buf v = ucast ((v AND 0x7f) OR 0x80) # putVarint_buf ?w"
      using False by (simp add: putVarint_buf.simps [of v] Let_def)
    have "varint_ref k acc (rev (putVarint_buf v) @ s) = varint_ref (k + length (putVarint_buf ?w))
        (push_bit (7 * length (putVarint_buf ?w)) acc OR ?w) (ucast ((v AND 0x7f) OR 0x80) # s)"
      using "1.IH" [OF refl refl False] "1.prems" by (simp add: buf)
    also have "\<dots> = varint_ref (k + length (putVarint_buf v))
        (push_bit 7 (push_bit (7 * length (putVarint_buf ?w)) acc OR ?w) OR (v AND 0x7f)) s"
      using "1.prems" by (simp add: buf group_byte)
    also have "push_bit 7 (push_bit (7 * length (putVarint_buf ?w)) acc OR ?w) OR (v AND 0x7f)
        = push_bit (7 * length (putVarint_buf v)) acc OR v"
      by (simp add: buf push_bit_or or.assoc join7 add.commute)
    finally show ?thesis .
  qed
qed

lemma join_take7: "push_bit 7 (take_bit n (drop_bit 7 v)) OR (v AND 0x7f) = take_bit (n + 7) v" for v :: u64
proof -
  have "v AND 0x7f = take_bit 7 v" by (rule word_eq_by_bits, simp add: bitwise)
  then show ?thesis by (auto intro!: bit_word_eqI simp: bit_simps)
qed

lemma ref_down:
  "k + i \<le> 8 \<Longrightarrow> varint_ref k acc (putVarint_down i v p) =
   varint_ref (k + i) (push_bit (7 * i) acc OR take_bit (7 * i) v) p"
proof (induction i arbitrary: v p)
  case 0
  then show ?case by simp
next
  case (Suc i)
  have "varint_ref k acc (putVarint_down (Suc i) v p) = varint_ref (k + Suc i)
      (push_bit 7 (push_bit (7 * i) acc OR take_bit (7 * i) (drop_bit 7 v)) OR (v AND 0x7f)) p"
    using Suc by (simp add: group_byte)
  also have "push_bit 7 (push_bit (7 * i) acc OR take_bit (7 * i) (drop_bit 7 v)) OR (v AND 0x7f)
      = push_bit (7 * Suc i) acc OR take_bit (7 * Suc i) v"
    using join_take7 [of "7 * i" v] by (simp add: push_bit_or or.assoc add.commute)
  finally show ?case .
qed

lemma length_putVarint_buf:
  "1 \<le> n \<Longrightarrow> drop_bit (7 * n) v = 0 \<Longrightarrow> length (putVarint_buf v) \<le> n"
proof (induction v arbitrary: n rule: putVarint_buf.induct)
  case (1 v)
  show ?case
  proof (cases "drop_bit 7 v = 0")
    case True
    then show ?thesis using "1.prems" by (simp add: putVarint_buf.simps [of v])
  next
    case False
    then have "n \<noteq> 1" using "1.prems" by auto
    then obtain m where m: "n = Suc m" "1 \<le> m"
      using "1.prems"(1) by (intro that [of "n - 1"]) auto
    then have "drop_bit (7 * m) (drop_bit 7 v) = 0"
      using "1.prems"(2) by (simp add: drop_bit_drop_bit add.commute)
    then have "length (putVarint_buf (drop_bit 7 v)) \<le> m"
      using "1.IH" [OF refl refl False m(2)] by simp
    then show ?thesis using False m by (simp add: putVarint_buf.simps [of v] Let_def)
  qed
qed

lemma high_bits_zero: "v AND 0xff00000000000000 = 0 \<longleftrightarrow> drop_bit 56 v = 0" for v :: u64
proof -
  have "v AND 0xff00000000000000 = push_bit 56 (drop_bit 56 v)"
    by (rule word_eq_by_bits, simp add: bitwise)
  moreover have "drop_bit 56 (push_bit 56 (drop_bit 56 v)) = drop_bit 56 v"
    by (rule word_eq_by_bits, simp add: bitwise)
  ultimately show ?thesis by (metis drop_bit_of_0 push_bit_of_0)
qed

lemma putVarint_down_append: "putVarint_down i v p @ s = putVarint_down i v (p @ s)"
  by (induction i arbitrary: v p) simp_all

lemma putVarint64_roundtrip:
  "sqlite3GetVarint (fst (putVarint64 v) @ s) = Some (v, snd (putVarint64 v))"
proof (cases "drop_bit 56 v = 0")
  case False
  have "push_bit 8 (take_bit 56 (drop_bit 8 v)) OR ucast (ucast v :: u8) = v"
    by (rule word_eq_by_bits, simp add: bitwise)
  then have "varint_ref 0 0 (putVarint_down 8 (drop_bit 8 v) [ucast v] @ s) = Some (v, 9)"
    using ref_down [of 0 8 0 "drop_bit 8 v" "ucast v # s"] by (simp add: putVarint_down_append)
  then show ?thesis using False by (simp add: getVarint_eq_ref putVarint64_def high_bits_zero)
next
  case True
  define w where "w = drop_bit 7 v"
  define t where "t = (if w = 0 then [] else putVarint_buf w)"
  have buf: "putVarint_buf v = ucast ((v AND 0x7f) OR 0x80) # t"
    by (simp add: putVarint_buf.simps [of v] Let_def t_def w_def)
  have len: "length t \<le> 7"
    using length_putVarint_buf [of 8 v] True by (simp add: buf)
  have "varint_ref 0 0 (rev t @ r) = varint_ref (length t) w r" for r
    using ref_buf [of 0 w 0 r] len by (auto simp: t_def split: if_splits)
  then have "varint_ref 0 0 (rev t @ (ucast ((v AND 0x7f) OR 0x80) AND 0x7f) # s) = Some (v, Suc (length t))"
    using len last_byte [of v] join7 [of v] by (simp add: w_def)
  then show ?thesis
    using True by (simp add: getVarint_eq_ref putVarint64_def high_bits_zero buf Let_def)
qed

lemma unat_drop_bit_div: "unat (drop_bit n v) = unat v div 2 ^ n" for v :: u64
  by (subst unat_drop_bit_eq) (rule drop_bit_eq_div)

lemma drop_bit_0_iff: "drop_bit n v = 0 \<longleftrightarrow> unat v < 2 ^ n" for v :: u64
proof -
  have "drop_bit n v = 0 \<longleftrightarrow> unat v div 2 ^ n = 0"
    by (metis unat_drop_bit_div unat_eq_zero)
  then show ?thesis by (simp add: div_eq_0_iff)
qed

lemma putVarint_fast_path: "sqlite3PutVarint v = putVarint64 v"
proof -
  consider (one) "v \<le> 0x7f" | (two) "\<not> v \<le> 0x7f" "v \<le> 0x3fff" | (more) "\<not> v \<le> 0x7f" "\<not> v \<le> 0x3fff"
    by blast
  then show ?thesis
  proof cases
    case one
    then have "drop_bit 7 v = 0" "drop_bit 56 v = 0"
      by (simp_all add: drop_bit_0_iff word_le_nat_alt)
    moreover have "ucast ((v AND 0x7f) OR 0x80) AND 0x7f = (ucast (v AND 0x7f) :: u8)"
      by (rule word_eq_by_bits, simp add: bitwise)
    ultimately show ?thesis
      using one by (simp add: sqlite3PutVarint_def putVarint64_def high_bits_zero putVarint_buf.simps [of v])
  next
    case two
    then have "drop_bit 7 (drop_bit 7 v) = 0" "drop_bit 56 v = 0" "drop_bit 7 v \<noteq> 0"
      by (simp_all add: drop_bit_0_iff word_le_nat_alt drop_bit_drop_bit)
    moreover have "ucast ((v AND 0x7f) OR 0x80) AND 0x7f = (ucast (v AND 0x7f) :: u8)"
      by (rule word_eq_by_bits, simp add: bitwise)
    ultimately show ?thesis
      using two by (simp add: sqlite3PutVarint_def putVarint64_def high_bits_zero
          putVarint_buf.simps [of v] putVarint_buf.simps [of "drop_bit 7 v"] Let_def)
  next
    case more
    then show ?thesis by (simp add: sqlite3PutVarint_def)
  qed
qed

lemma length_putVarint_down: "length (putVarint_down i v p) = i + length p"
  by (induction i arbitrary: v p) simp_all

lemma putVarint_buf_nonempty: "putVarint_buf v \<noteq> []"
  by (simp add: putVarint_buf.simps [of v] Let_def)

lemma putVarint64_length:
  "length (fst (putVarint64 v)) = snd (putVarint64 v)" "1 \<le> snd (putVarint64 v)" "snd (putVarint64 v) \<le> 9"
  using length_putVarint_buf [of 8 v] putVarint_buf_nonempty [of v]
  by (auto simp: putVarint64_def high_bits_zero length_putVarint_down Let_def Suc_le_eq)

lemma varintLen_buf: "varintLen_loop v i = i + length (putVarint_buf v) - 1"
proof (induction v i rule: varintLen_loop.induct)
  case (1 v i)
  then show ?case
    using putVarint_buf_nonempty [of "drop_bit 7 v"]
    by (simp add: varintLen_loop.simps [of v i] putVarint_buf.simps [of v] Let_def)
qed

lemma length_putVarint_buf_gt: "drop_bit (7 * m) v \<noteq> 0 \<Longrightarrow> m < length (putVarint_buf v)"
proof (induction v arbitrary: m rule: putVarint_buf.induct)
  case (1 v)
  show ?case
  proof (cases m)
    case 0
    then show ?thesis using putVarint_buf_nonempty [of v] by simp
  next
    case (Suc k)
    then have d: "drop_bit (7 * k) (drop_bit 7 v) \<noteq> 0"
      using "1.prems" by (simp add: drop_bit_drop_bit add.commute)
    then have "drop_bit 7 v \<noteq> 0" by (metis drop_bit_of_0)
    then show ?thesis using "1.IH" [OF refl refl _ d] Suc
      by (simp add: putVarint_buf.simps [of v] Let_def)
  qed
qed

lemma varintLen_cases:
  "sqlite3VarintLen v = (if v < 0x8000000000000000 then snd (putVarint64 v) else 10)"
proof -
  have len: "sqlite3VarintLen v = length (putVarint_buf v)"
    by (simp add: sqlite3VarintLen_def varintLen_buf)
  have lt: "v < 0x8000000000000000 \<longleftrightarrow> unat v < 2 ^ 63" by (simp add: word_less_nat_alt)
  have up: "unat v < 2 ^ (7 * n) \<Longrightarrow> 1 \<le> n \<Longrightarrow> length (putVarint_buf v) \<le> n" for n
    using length_putVarint_buf [of n v] by (simp add: drop_bit_0_iff)
  have lo: "\<not> unat v < 2 ^ (7 * n) \<Longrightarrow> n < length (putVarint_buf v)" for n
    using length_putVarint_buf_gt [of n v] by (simp add: drop_bit_0_iff)
  have "unat v < 2 ^ 70" using unat_u64_less [of v] by simp
  then show ?thesis
    using up [of 9] up [of 10] lo [of 8] lo [of 9]
    by (auto simp: len lt putVarint64_def high_bits_zero drop_bit_0_iff Let_def)
qed

lemma fits_u32: "v \<le> 0xffffffff \<longleftrightarrow> v AND 0xffffffff = v" for v :: u64
proof -
  have "v AND 0xffffffff = take_bit 32 v" by (simp add: take_bit_eq_mask mask_eq_exp_minus_1)
  then have "v AND 0xffffffff = v \<longleftrightarrow> unat v < 2 ^ 32"
    by (simp add: take_bit_eq_self_iff_drop_bit_eq_0 drop_bit_0_iff)
  then show ?thesis by (simp add: word_le_nat_alt) linarith
qed

text \<open>Reads of one to three bytes fit in 32 bits, so computing them at that width loses nothing.\<close>

lemma small_reads:
  "(ucast a :: u64) AND 0xffffffff = ucast (a :: u8)"
  "(ucast (ucast a :: u64) :: u32) = ucast a"
  "(push_bit 7 (ucast (a AND 0x7f)) OR ucast b :: u64) AND 0xffffffff = push_bit 7 (ucast (a AND 0x7f)) OR ucast (b :: u8)"
  "(ucast (push_bit 7 (ucast (a AND 0x7f)) OR ucast b :: u64) :: u32) = push_bit 7 (ucast (a AND 0x7f)) OR ucast b"
  "(push_bit 14 (ucast (a AND 0x7f)) OR push_bit 7 (ucast (b AND 0x7f)) OR ucast c :: u64) AND 0xffffffff
     = push_bit 14 (ucast (a AND 0x7f)) OR push_bit 7 (ucast (b AND 0x7f)) OR ucast (c :: u8)"
  "(ucast (push_bit 14 (ucast (a AND 0x7f)) OR push_bit 7 (ucast (b AND 0x7f)) OR ucast c :: u64) :: u32)
     = push_bit 14 (ucast (a AND 0x7f)) OR push_bit 7 (ucast (b AND 0x7f)) OR ucast c"
  by (rule word_eq_by_bits, simp add: bitwise)+

lemma getVarint32_saturates:
  "getVarint32 p =
     map_option (\<lambda>(v, n). (if v \<le> 0xffffffff then ucast v else 0xffffffff, n)) (sqlite3GetVarint p)"
proof -
  consider "p = []" | a where "p = [a]" | a b where "p = [a, b]" | a b c r where "p = a # b # c # r"
    by (metis list.exhaust)
  then show ?thesis
    by cases (auto simp: getVarint32_def u8_lt_0x80 sqlite3GetVarint32_def and_0x80 getVarint_eq_ref fits_u32
        small_reads or.assoc map_option_case split: option.splits)
qed

lemma get4_put4: "sqlite3Get4byte (sqlite3Put4byte v @ s) = Some v"
  by (simp add: sqlite3Get4byte_def sqlite3Put4byte_def) (rule word_eq_by_bits, simp add: bitwise)

lemma put4_get4: "sqlite3Get4byte [a, b, c, d] = Some v \<Longrightarrow> sqlite3Put4byte v = [a, b, c, d]"
  by (auto simp: sqlite3Get4byte_def sqlite3Put4byte_def) (rule word_eq_by_bits, simp add: bitwise)+

section \<open>Properties\<close>

text \<open>C21: Whatever follows it in the buffer, a varint written by sqlite3PutVarint is read back by
  sqlite3GetVarint with the same value, and both report the number of bytes written, which is
  between one and nine.\<close>

theorem varint_roundtrip:
  "sqlite3GetVarint (fst (sqlite3PutVarint v) @ s) = Some (v, snd (sqlite3PutVarint v)) \<and>
   length (fst (sqlite3PutVarint v)) = snd (sqlite3PutVarint v) \<and> snd (sqlite3PutVarint v) \<in> {1..9}"
  using putVarint64_roundtrip [of v s] putVarint64_length [of v] by (simp add: putVarint_fast_path)

text \<open>The unrolled decoder with its masks and carries is the byte-at-a-time reference decoder
  on every buffer, also on one that ends inside the varint.\<close>

theorem getVarint_reference: "sqlite3GetVarint p = varint_ref 0 0 p"
  by (rule getVarint_eq_ref)

text \<open>The 32-bit decoder consumes exactly the bytes the 64-bit one does, and returns its value
  clipped to 0xffffffff.\<close>

theorem getVarint32_clips:
  "getVarint32 p =
     map_option (\<lambda>(v, n). (if v \<le> 0xffffffff then ucast v else 0xffffffff, n)) (sqlite3GetVarint p)"
  by (rule getVarint32_saturates)

text \<open>sqlite3VarintLen is the number of bytes sqlite3PutVarint writes for values below 2 to
  the 63, and 10, one more than is written, for all others.\<close>

theorem varintLen_written:
  "sqlite3VarintLen v = (if v < 0x8000000000000000 then snd (sqlite3PutVarint v) else 10)"
  by (simp add: putVarint_fast_path varintLen_cases)

end
