(* ===== verification/Jvm_Locks.thy ===== *)
theory Jvm_Locks
  imports Prelude
begin

text \<open>
  The in-memory lock tables behind the custom VFS: the host functions \<^verbatim>\<open>vfs.lock\<close>,
  \<^verbatim>\<open>vfs.unlock\<close>, \<^verbatim>\<open>vfs.check_reserved\<close>, \<^verbatim>\<open>vfs.shm_lock\<close> and \<^verbatim>\<open>vfs.shm_unmap\<close> that
  \<^verbatim>\<open>os_jvm.c\<close> imports, as \<^verbatim>\<open>JvmVfsLocks.kt\<close> implements them. Every method runs under the
  table's \<^verbatim>\<open>ReentrantLock\<close>, so each is one atomic step on the state. A hash map is an
  association list with distinct keys, a hash set a set; an index outside a slot array is
  the exception the JVM raises.
\<close>

section \<open>State\<close>

datatype jvm_error = ArrayIndexOutOfBounds

record file_state =
  levels :: "(int \<times> int) list"

record shm_state =
  shared :: "int set list"
  excl :: "int list"

record jvm_locks =
  files :: "string \<Rightarrow> file_state option"
  shms :: "string \<Rightarrow> shm_state option"

abbreviation (input) LEVEL_NONE :: int where "LEVEL_NONE \<equiv> 0"
abbreviation (input) LEVEL_SHARED :: int where "LEVEL_SHARED \<equiv> 1"
abbreviation (input) LEVEL_RESERVED :: int where "LEVEL_RESERVED \<equiv> 2"
abbreviation (input) LEVEL_PENDING :: int where "LEVEL_PENDING \<equiv> 3"
abbreviation (input) LEVEL_EXCLUSIVE :: int where "LEVEL_EXCLUSIVE \<equiv> 4"

abbreviation (input) SHM_NLOCK :: nat where "SHM_NLOCK \<equiv> 8"

definition new_file_state :: file_state where
  "new_file_state = \<lparr>levels = []\<rparr>"

definition new_shm_state :: shm_state where
  "new_shm_state = \<lparr>shared = replicate SHM_NLOCK {}, excl = replicate SHM_NLOCK (-1)\<rparr>"

definition new_jvm_locks :: jvm_locks where
  "new_jvm_locks = \<lparr>files = (\<lambda>_. None), shms = (\<lambda>_. None)\<rparr>"

text \<open>\<^verbatim>\<open>getOrPut\<close>: the entry for a name, created empty on first use.\<close>

definition fileState :: "jvm_locks \<Rightarrow> string \<Rightarrow> file_state" where
  "fileState J name = (case files J name of Some st \<Rightarrow> st | None \<Rightarrow> new_file_state)"

definition shmState :: "jvm_locks \<Rightarrow> string \<Rightarrow> shm_state" where
  "shmState J name = (case shms J name of Some st \<Rightarrow> st | None \<Rightarrow> new_shm_state)"

section \<open>File locks\<close>

definition level_of :: "file_state \<Rightarrow> int \<Rightarrow> int" where
  "level_of st conn = (case map_of (levels st) conn of Some l \<Rightarrow> l | None \<Rightarrow> LEVEL_NONE)"

definition othersAtLeast :: "file_state \<Rightarrow> int \<Rightarrow> int \<Rightarrow> bool" where
  "othersAtLeast st conn level \<longleftrightarrow> list_ex (\<lambda>(c, l). c \<noteq> conn \<and> l \<ge> level) (levels st)"

definition put_level :: "file_state \<Rightarrow> int \<Rightarrow> int \<Rightarrow> file_state" where
  "put_level st conn l = st\<lparr>levels := (conn, l) # filter (\<lambda>e. fst e \<noteq> conn) (levels st)\<rparr>"

definition remove_level :: "file_state \<Rightarrow> int \<Rightarrow> file_state" where
  "remove_level st conn = st\<lparr>levels := filter (\<lambda>e. fst e \<noteq> conn) (levels st)\<rparr>"

definition file_lock :: "file_state \<Rightarrow> int \<Rightarrow> int \<Rightarrow> file_state \<times> int" where
  "file_lock st conn target =
     (if level_of st conn \<ge> target then (st, SQLITE_OK)
      else let blocked =
        (if target = LEVEL_SHARED then othersAtLeast st conn LEVEL_PENDING
         else if target = LEVEL_RESERVED then othersAtLeast st conn LEVEL_RESERVED
         else if target = LEVEL_PENDING then othersAtLeast st conn LEVEL_PENDING
         else if target = LEVEL_EXCLUSIVE then othersAtLeast st conn LEVEL_SHARED
         else False)
      in if blocked then (st, SQLITE_BUSY) else (put_level st conn target, SQLITE_OK))"

definition file_unlock :: "file_state \<Rightarrow> int \<Rightarrow> int \<Rightarrow> file_state \<times> int" where
  "file_unlock st conn target =
     (if target \<le> LEVEL_NONE then remove_level st conn else put_level st conn target, SQLITE_OK)"

definition jvm_lock :: "jvm_locks \<Rightarrow> int \<Rightarrow> string \<Rightarrow> int \<Rightarrow> jvm_locks \<times> int" where
  "jvm_lock J conn name target =
     (case file_lock (fileState J name) conn target of
        (st, rc) \<Rightarrow> (J\<lparr>files := (files J)(name \<mapsto> st)\<rparr>, rc))"

definition jvm_unlock :: "jvm_locks \<Rightarrow> int \<Rightarrow> string \<Rightarrow> int \<Rightarrow> jvm_locks \<times> int" where
  "jvm_unlock J conn name target =
     (case file_unlock (fileState J name) conn target of
        (st, rc) \<Rightarrow> (J\<lparr>files := (files J)(name \<mapsto> st)\<rparr>, rc))"

definition jvm_check_reserved :: "jvm_locks \<Rightarrow> int \<Rightarrow> string \<Rightarrow> jvm_locks \<times> int" where
  "jvm_check_reserved J conn name =
     (let st = fileState J name in
      (J\<lparr>files := (files J)(name \<mapsto> st)\<rparr>, if othersAtLeast st conn LEVEL_RESERVED then 1 else 0))"

section \<open>Shared-memory slot locks\<close>

text \<open>The four loops over the slots of a request; each raises on a slot outside the array.\<close>

definition slot_ok :: "int \<Rightarrow> bool" where
  "slot_ok s \<longleftrightarrow> 0 \<le> s \<and> s < int SHM_NLOCK"

definition drop_slot :: "int \<Rightarrow> nat \<Rightarrow> shm_state \<Rightarrow> shm_state" where
  "drop_slot conn s st = st\<lparr>shared := (shared st)[s := shared st ! s - {conn}],
     excl := (if excl st ! s = conn then (excl st)[s := -1] else excl st)\<rparr>"

fun unlock_slots :: "int \<Rightarrow> int list \<Rightarrow> shm_state \<Rightarrow> jvm_error + shm_state" where
  "unlock_slots conn [] st = Inr st"
| "unlock_slots conn (s # ss) st =
     (if slot_ok s then unlock_slots conn ss (drop_slot conn (nat s) st) else Inl ArrayIndexOutOfBounds)"

definition excl_busy :: "shm_state \<Rightarrow> int \<Rightarrow> nat \<Rightarrow> bool" where
  "excl_busy st conn s \<longleftrightarrow> excl st ! s \<noteq> -1 \<and> excl st ! s \<noteq> conn"

fun check_excl :: "shm_state \<Rightarrow> int \<Rightarrow> int list \<Rightarrow> jvm_error + bool" where
  "check_excl st conn [] = Inr False"
| "check_excl st conn (s # ss) =
     (if \<not> slot_ok s then Inl ArrayIndexOutOfBounds
      else if excl_busy st conn (nat s) then Inr True
      else if \<exists>c \<in> shared st ! nat s. c \<noteq> conn then Inr True
      else check_excl st conn ss)"

fun take_excl :: "int \<Rightarrow> int list \<Rightarrow> shm_state \<Rightarrow> shm_state" where
  "take_excl conn [] st = st"
| "take_excl conn (s # ss) st =
     take_excl conn ss (st\<lparr>excl := (excl st)[nat s := conn],
       shared := (shared st)[nat s := shared st ! nat s - {conn}]\<rparr>)"

fun check_shared :: "shm_state \<Rightarrow> int \<Rightarrow> int list \<Rightarrow> jvm_error + bool" where
  "check_shared st conn [] = Inr False"
| "check_shared st conn (s # ss) =
     (if \<not> slot_ok s then Inl ArrayIndexOutOfBounds
      else if excl_busy st conn (nat s) then Inr True
      else check_shared st conn ss)"

fun take_shared :: "int \<Rightarrow> int list \<Rightarrow> shm_state \<Rightarrow> shm_state" where
  "take_shared conn [] st = st"
| "take_shared conn (s # ss) st =
     take_shared conn ss (st\<lparr>shared := (shared st)[nat s := insert conn (shared st ! nat s)]\<rparr>)"

definition shm_lock :: "shm_state \<Rightarrow> int \<Rightarrow> int \<Rightarrow> int \<Rightarrow> int \<Rightarrow> jvm_error + shm_state \<times> int" where
  "shm_lock st conn offset n flags =
     (let slots = [offset..offset + n - 1] in
      if flags AND 1 \<noteq> 0 then
        (case unlock_slots conn slots st of Inl e \<Rightarrow> Inl e | Inr st \<Rightarrow> Inr (st, SQLITE_OK))
      else if flags AND 8 \<noteq> 0 then
        (case check_excl st conn slots of
           Inl e \<Rightarrow> Inl e
         | Inr True \<Rightarrow> Inr (st, SQLITE_BUSY)
         | Inr False \<Rightarrow> Inr (take_excl conn slots st, SQLITE_OK))
      else
        (case check_shared st conn slots of
           Inl e \<Rightarrow> Inl e
         | Inr True \<Rightarrow> Inr (st, SQLITE_BUSY)
         | Inr False \<Rightarrow> Inr (take_shared conn slots st, SQLITE_OK)))"

definition jvm_shm_lock :: "jvm_locks \<Rightarrow> int \<Rightarrow> string \<Rightarrow> int \<Rightarrow> int \<Rightarrow> int \<Rightarrow> jvm_error + jvm_locks \<times> int" where
  "jvm_shm_lock J conn name offset n flags =
     (case shm_lock (shmState J name) conn offset n flags of
        Inl e \<Rightarrow> Inl e
      | Inr (st, rc) \<Rightarrow> Inr (J\<lparr>shms := (shms J)(name \<mapsto> st)\<rparr>, rc))"

definition shmUnmap :: "jvm_locks \<Rightarrow> int \<Rightarrow> string \<Rightarrow> jvm_locks" where
  "shmUnmap J conn name =
     J\<lparr>shms := (shms J)(name \<mapsto> fold (drop_slot conn) [0..<SHM_NLOCK] (shmState J name))\<rparr>"

section \<open>What the slot loops do\<close>

definition shm_wf :: "shm_state \<Rightarrow> bool" where
  "shm_wf st \<longleftrightarrow> length (shared st) = SHM_NLOCK \<and> length (excl st) = SHM_NLOCK"

text \<open>The exclusion invariant: a slot held exclusively is shared with nobody else.\<close>

definition shm_ok :: "shm_state \<Rightarrow> bool" where
  "shm_ok st \<longleftrightarrow> shm_wf st \<and>
     (\<forall>s < SHM_NLOCK. excl st ! s \<noteq> -1 \<longrightarrow> shared st ! s \<subseteq> {excl st ! s})"

definition holds_shared :: "shm_state \<Rightarrow> nat \<Rightarrow> int \<Rightarrow> bool" where
  "holds_shared st s c \<longleftrightarrow> s < SHM_NLOCK \<and> c \<in> shared st ! s"

definition holds_excl :: "shm_state \<Rightarrow> nat \<Rightarrow> int \<Rightarrow> bool" where
  "holds_excl st s c \<longleftrightarrow> s < SHM_NLOCK \<and> c \<noteq> -1 \<and> excl st ! s = c"

lemma shm_ok_new: "shm_ok new_shm_state"
  by (simp add: shm_ok_def shm_wf_def new_shm_state_def)

lemma shm_ok_wf: "shm_ok st \<Longrightarrow> shm_wf st"
  by (simp add: shm_ok_def)

lemma drop_slot_wf: "shm_wf (drop_slot conn s st) = shm_wf st"
  by (simp add: shm_wf_def drop_slot_def)

lemma drop_slot_nth:
  assumes "shm_wf st" and "s < SHM_NLOCK" and "t < SHM_NLOCK"
  shows "shared (drop_slot conn s st) ! t = (if t = s then shared st ! t - {conn} else shared st ! t)"
    and "excl (drop_slot conn s st) ! t = (if t = s \<and> excl st ! t = conn then -1 else excl st ! t)"
  using assms by (auto simp: drop_slot_def shm_wf_def nth_list_update)

text \<open>Releasing a set of slots: the connection's holds there disappear, all others stay.\<close>

definition released :: "int \<Rightarrow> int set \<Rightarrow> shm_state \<Rightarrow> shm_state \<Rightarrow> bool" where
  "released conn S st st' \<longleftrightarrow> shm_wf st' \<and> (\<forall>t < SHM_NLOCK.
     shared st' ! t = (if int t \<in> S then shared st ! t - {conn} else shared st ! t) \<and>
     excl st' ! t = (if int t \<in> S \<and> excl st ! t = conn then -1 else excl st ! t))"

lemma unlock_slots_spec:
  "shm_wf st \<Longrightarrow> (\<forall>s \<in> set ss. slot_ok s) \<Longrightarrow>
   \<exists>st'. unlock_slots conn ss st = Inr st' \<and> released conn (set ss) st st'"
proof (induction ss arbitrary: st)
  case Nil
  then show ?case by (simp add: released_def)
next
  case (Cons s ss)
  then have s: "nat s < SHM_NLOCK" "int (nat s) = s" by (auto simp: slot_ok_def)
  obtain st' where st': "unlock_slots conn ss (drop_slot conn (nat s) st) = Inr st'"
      "released conn (set ss) (drop_slot conn (nat s) st) st'"
    using Cons.IH [of "drop_slot conn (nat s) st"] Cons.prems by (auto simp: drop_slot_wf)
  have "released conn (set (s # ss)) st st'"
    using st'(2) Cons.prems(1) s by (auto simp: released_def drop_slot_nth)
  with st'(1) Cons.prems(2) show ?case by simp
qed

lemma fold_drop_slot_released:
  "shm_wf st \<Longrightarrow> (\<forall>s \<in> set ss. s < SHM_NLOCK) \<Longrightarrow>
   released conn (int ` set ss) st (fold (drop_slot conn) ss st)"
proof (induction ss arbitrary: st)
  case Nil
  then show ?case by (simp add: released_def)
next
  case (Cons s ss)
  then have "released conn (int ` set ss) (drop_slot conn s st) (fold (drop_slot conn) ss (drop_slot conn s st))"
    by (simp add: drop_slot_wf)
  then show ?case using Cons.prems by (auto simp: released_def drop_slot_nth)
qed

lemma released_ok: "shm_ok st \<Longrightarrow> released conn S st st' \<Longrightarrow> shm_ok st'"
  by (fastforce simp: shm_ok_def released_def)

lemma check_excl_spec:
  "(\<forall>s \<in> set ss. slot_ok s) \<Longrightarrow> check_excl st conn ss =
     Inr (\<exists>s \<in> set ss. excl_busy st conn (nat s) \<or> (\<exists>c \<in> shared st ! nat s. c \<noteq> conn))"
  by (induction ss) auto

lemma check_shared_spec:
  "(\<forall>s \<in> set ss. slot_ok s) \<Longrightarrow> check_shared st conn ss = Inr (\<exists>s \<in> set ss. excl_busy st conn (nat s))"
  by (induction ss) auto

lemma take_excl_spec:
  assumes "shm_wf st" and "\<forall>s \<in> set ss. slot_ok s"
  shows "shm_wf (take_excl conn ss st) \<and> (\<forall>t < SHM_NLOCK.
     shared (take_excl conn ss st) ! t = (if int t \<in> set ss then shared st ! t - {conn} else shared st ! t) \<and>
     excl (take_excl conn ss st) ! t = (if int t \<in> set ss then conn else excl st ! t))"
  using assms
proof (induction ss arbitrary: st)
  case (Cons s ss)
  have s: "nat s < SHM_NLOCK" "int (nat s) = s" using Cons.prems(2) by (auto simp: slot_ok_def)
  let ?st = "st\<lparr>excl := (excl st)[nat s := conn], shared := (shared st)[nat s := shared st ! nat s - {conn}]\<rparr>"
  have "shm_wf ?st" using Cons.prems(1) by (simp add: shm_wf_def)
  from Cons.IH [OF this] Cons.prems s show ?case
    by (auto simp: shm_wf_def nth_list_update)
qed simp

lemma take_shared_spec:
  assumes "shm_wf st" and "\<forall>s \<in> set ss. slot_ok s"
  shows "shm_wf (take_shared conn ss st) \<and> (\<forall>t < SHM_NLOCK.
     shared (take_shared conn ss st) ! t = (if int t \<in> set ss then insert conn (shared st ! t) else shared st ! t) \<and>
     excl (take_shared conn ss st) ! t = excl st ! t)"
  using assms
proof (induction ss arbitrary: st)
  case (Cons s ss)
  have s: "nat s < SHM_NLOCK" "int (nat s) = s" using Cons.prems(2) by (auto simp: slot_ok_def)
  let ?st = "st\<lparr>shared := (shared st)[nat s := insert conn (shared st ! nat s)]\<rparr>"
  have "shm_wf ?st" using Cons.prems(1) by (simp add: shm_wf_def)
  from Cons.IH [OF this] Cons.prems s show ?case
    by (auto simp: shm_wf_def nth_list_update)
qed simp

section \<open>Contract of the slot locks\<close>

text \<open>A request names slots \<^verbatim>\<open>offset .. offset+n-1\<close>; it is in range when they all exist.\<close>

definition in_range :: "int \<Rightarrow> int \<Rightarrow> bool" where
  "in_range offset n \<longleftrightarrow> 0 \<le> offset \<and> offset + n \<le> int SHM_NLOCK"

lemma in_range_slots: "in_range offset n \<Longrightarrow> \<forall>s \<in> set [offset..offset + n - 1]. slot_ok s"
  by (auto simp: in_range_def slot_ok_def)

definition requested :: "int \<Rightarrow> int \<Rightarrow> nat \<Rightarrow> bool" where
  "requested offset n s \<longleftrightarrow> offset \<le> int s \<and> int s < offset + n"

lemma requested_iff: "int s \<in> set [offset..offset + n - 1] \<longleftrightarrow> requested offset n s"
  by (auto simp: requested_def)

lemma ex_requested:
  "in_range offset n \<Longrightarrow> (\<exists>s \<in> set [offset..offset + n - 1]. P (nat s)) \<longleftrightarrow>
     (\<exists>s < SHM_NLOCK. requested offset n s \<and> P s)"
proof
  assume r: "in_range offset n" and "\<exists>s \<in> set [offset..offset + n - 1]. P (nat s)"
  then obtain s where s: "offset \<le> s" "s \<le> offset + n - 1" "P (nat s)" by auto
  with r have "nat s < SHM_NLOCK" "requested offset n (nat s)"
    by (auto simp: in_range_def requested_def)
  with s show "\<exists>s < SHM_NLOCK. requested offset n s \<and> P s" by blast
next
  assume "\<exists>s < SHM_NLOCK. requested offset n s \<and> P s"
  then obtain s where s: "requested offset n s" "P s" by blast
  then show "\<exists>s \<in> set [offset..offset + n - 1]. P (nat s)"
    by (intro bexI [of _ "int s"]) (auto simp: requested_def)
qed

text \<open>Somebody else's hold that conflicts with an exclusive, or a shared, request.\<close>

definition conflicts_excl :: "shm_state \<Rightarrow> int \<Rightarrow> nat \<Rightarrow> bool" where
  "conflicts_excl st conn s \<longleftrightarrow> (\<exists>d. d \<noteq> conn \<and> (holds_excl st s d \<or> holds_shared st s d))"

definition conflicts_shared :: "shm_state \<Rightarrow> int \<Rightarrow> nat \<Rightarrow> bool" where
  "conflicts_shared st conn s \<longleftrightarrow> (\<exists>d. d \<noteq> conn \<and> holds_excl st s d)"

lemma conflicts_shared_iff: "s < SHM_NLOCK \<Longrightarrow> conflicts_shared st conn s \<longleftrightarrow> excl_busy st conn s"
  by (auto simp: conflicts_shared_def holds_excl_def excl_busy_def)

lemma conflicts_excl_iff:
  "s < SHM_NLOCK \<Longrightarrow> conflicts_excl st conn s \<longleftrightarrow> excl_busy st conn s \<or> (\<exists>c \<in> shared st ! s. c \<noteq> conn)"
  by (auto simp: conflicts_excl_def holds_excl_def holds_shared_def excl_busy_def)

lemma shm_lock_unlock:
  assumes "shm_wf st" and "in_range offset n" and "flags AND 1 \<noteq> 0"
  shows "\<exists>st'. shm_lock st conn offset n flags = Inr (st', SQLITE_OK) \<and>
    released conn (set [offset..offset + n - 1]) st st'"
proof -
  obtain st' where "unlock_slots conn [offset..offset + n - 1] st = Inr st'"
      "released conn (set [offset..offset + n - 1]) st st'"
    using unlock_slots_spec [OF assms(1) in_range_slots [OF assms(2)]] by blast
  with assms(3) show ?thesis by (simp add: shm_lock_def)
qed

lemma shm_lock_excl:
  assumes "shm_wf st" and r: "in_range offset n" and "flags AND 1 = 0" and "flags AND 8 \<noteq> 0"
  shows "shm_lock st conn offset n flags =
    (if \<exists>s < SHM_NLOCK. requested offset n s \<and> conflicts_excl st conn s then Inr (st, SQLITE_BUSY)
     else Inr (take_excl conn [offset..offset + n - 1] st, SQLITE_OK))"
proof -
  have "(\<exists>s < SHM_NLOCK. requested offset n s \<and> conflicts_excl st conn s) \<longleftrightarrow>
      (\<exists>s \<in> set [offset..offset + n - 1]. excl_busy st conn (nat s) \<or> (\<exists>c \<in> shared st ! nat s. c \<noteq> conn))"
    unfolding ex_requested [OF r, of "\<lambda>s. excl_busy st conn s \<or> (\<exists>c \<in> shared st ! s. c \<noteq> conn)"]
    by (simp add: conflicts_excl_iff cong: conj_cong)
  then show ?thesis
    using assms by (simp add: shm_lock_def check_excl_spec [OF in_range_slots [OF r]] split: bool.split)
qed

lemma shm_lock_shared:
  assumes "shm_wf st" and r: "in_range offset n" and "flags AND 1 = 0" and "flags AND 8 = 0"
  shows "shm_lock st conn offset n flags =
    (if \<exists>s < SHM_NLOCK. requested offset n s \<and> conflicts_shared st conn s then Inr (st, SQLITE_BUSY)
     else Inr (take_shared conn [offset..offset + n - 1] st, SQLITE_OK))"
proof -
  have "(\<exists>s < SHM_NLOCK. requested offset n s \<and> conflicts_shared st conn s) \<longleftrightarrow>
      (\<exists>s \<in> set [offset..offset + n - 1]. excl_busy st conn (nat s))"
    unfolding ex_requested [OF r, of "excl_busy st conn"]
    by (simp add: conflicts_shared_iff cong: conj_cong)
  then show ?thesis
    using assms by (simp add: shm_lock_def check_shared_spec [OF in_range_slots [OF r]] split: bool.split)
qed

lemma take_excl_ok:
  assumes "shm_ok st" and r: "in_range offset n"
    and "\<not> (\<exists>s < SHM_NLOCK. requested offset n s \<and> conflicts_excl st conn s)"
  shows "shm_ok (take_excl conn [offset..offset + n - 1] st)"
proof -
  note spec = take_excl_spec [OF shm_ok_wf [OF assms(1)] in_range_slots [OF r], of conn, unfolded requested_iff]
  have "shared st ! s \<subseteq> {conn}" if "s < SHM_NLOCK" "requested offset n s" for s
    using assms(3) that by (auto simp: conflicts_excl_iff)
  with spec assms(1) show ?thesis by (auto simp: shm_ok_def)
qed

lemma take_shared_ok:
  assumes "shm_ok st" and r: "in_range offset n"
    and "\<not> (\<exists>s < SHM_NLOCK. requested offset n s \<and> conflicts_shared st conn s)"
  shows "shm_ok (take_shared conn [offset..offset + n - 1] st)"
proof -
  note spec = take_shared_spec [OF shm_ok_wf [OF assms(1)] in_range_slots [OF r], of conn, unfolded requested_iff]
  have "excl st ! s = -1 \<or> excl st ! s = conn" if "s < SHM_NLOCK" "requested offset n s" for s
    using assms(3) that by (auto simp: conflicts_shared_iff excl_busy_def)
  with spec assms(1) show ?thesis by (auto simp: shm_ok_def)
qed

lemma shm_lock_ok:
  assumes "shm_ok st" and "in_range offset n" and "shm_lock st conn offset n flags = Inr (st', rc)"
  shows "shm_ok st'"
proof -
  note wf = shm_ok_wf [OF assms(1)]
  consider "flags AND 1 \<noteq> 0" | "flags AND 1 = 0" "flags AND 8 \<noteq> 0" | "flags AND 1 = 0" "flags AND 8 = 0"
    by blast
  then show ?thesis
  proof cases
    case 1
    then obtain st'' where "shm_lock st conn offset n flags = Inr (st'', SQLITE_OK)"
        "released conn (set [offset..offset + n - 1]) st st''"
      using shm_lock_unlock [OF wf assms(2)] by blast
    with assms(3) released_ok [OF assms(1)] show ?thesis by auto
  next
    case 2
    then show ?thesis
      using assms shm_lock_excl [OF wf assms(2) 2] take_excl_ok [OF assms(1,2)] by (auto split: if_splits)
  next
    case 3
    then show ?thesis
      using assms shm_lock_shared [OF wf assms(2) 3] take_shared_ok [OF assms(1,2)] by (auto split: if_splits)
  qed
qed

lemma shm_ok_exclusion:
  "shm_ok st \<Longrightarrow> holds_excl st s c \<Longrightarrow> holds_excl st s d \<or> holds_shared st s d \<Longrightarrow> d = c"
  by (fastforce simp: shm_ok_def holds_excl_def holds_shared_def)

section \<open>Contract of the file locks\<close>

text \<open>
  What the five-level protocol promises once requests are confined to \<^verbatim>\<open>SHARED\<close>,
  \<^verbatim>\<open>RESERVED\<close> and \<^verbatim>\<open>EXCLUSIVE\<close>: one connection at most above \<^verbatim>\<open>SHARED\<close>, and an exclusive
  holder alone with the file.
\<close>

definition file_ok :: "file_state \<Rightarrow> bool" where
  "file_ok st \<longleftrightarrow> distinct (map fst (levels st)) \<and>
     (\<forall>c. level_of st c \<in> {0, 1, 2, 4}) \<and>
     (\<forall>c d. c \<noteq> d \<longrightarrow> level_of st c = LEVEL_EXCLUSIVE \<longrightarrow> level_of st d = LEVEL_NONE) \<and>
     (\<forall>c d. c \<noteq> d \<longrightarrow> level_of st c \<ge> LEVEL_RESERVED \<longrightarrow> level_of st d < LEVEL_RESERVED)"

lemma level_of_new: "level_of new_file_state c = LEVEL_NONE"
  by (simp add: level_of_def new_file_state_def)

lemma file_ok_new: "file_ok new_file_state"
  by (simp add: file_ok_def level_of_new) (simp add: new_file_state_def)

lemma level_of_put: "level_of (put_level st conn l) c = (if c = conn then l else level_of st c)"
  by (simp add: level_of_def put_level_def map_of_filter_key)

lemma level_of_remove: "level_of (remove_level st conn) c = (if c = conn then LEVEL_NONE else level_of st c)"
  by (simp add: level_of_def remove_level_def map_of_filter_key)

lemma distinct_put: "distinct (map fst (levels st)) \<Longrightarrow> distinct (map fst (levels (put_level st conn l)))"
  by (auto simp: put_level_def distinct_map_filter)

lemma distinct_remove: "distinct (map fst (levels st)) \<Longrightarrow> distinct (map fst (levels (remove_level st conn)))"
  by (auto simp: remove_level_def distinct_map_filter)

lemma othersAtLeast_iff:
  assumes "distinct (map fst (levels st))" and "0 < level"
  shows "othersAtLeast st conn level \<longleftrightarrow> (\<exists>c. c \<noteq> conn \<and> level_of st c \<ge> level)"
proof
  assume "othersAtLeast st conn level"
  then obtain c l where "(c, l) \<in> set (levels st)" "c \<noteq> conn" "l \<ge> level"
    by (auto simp: othersAtLeast_def list_ex_iff)
  with assms(1) show "\<exists>c. c \<noteq> conn \<and> level_of st c \<ge> level"
    by (auto simp: level_of_def)
next
  assume "\<exists>c. c \<noteq> conn \<and> level_of st c \<ge> level"
  with assms(2) obtain c l where "c \<noteq> conn" "map_of (levels st) c = Some l" "l \<ge> level"
    by (auto simp: level_of_def split: option.splits)
  then show "othersAtLeast st conn level"
    by (force simp: othersAtLeast_def list_ex_iff dest: map_of_SomeD)
qed

text \<open>The level of another connection that blocks a request for \<open>target\<close>.\<close>

definition barrier :: "int \<Rightarrow> int" where
  "barrier target = (if target = LEVEL_SHARED then LEVEL_PENDING
     else if target = LEVEL_RESERVED then LEVEL_RESERVED else LEVEL_SHARED)"

lemma file_lock_eq:
  assumes "file_ok st" and "target \<in> {1, 2, 4}"
  shows "file_lock st conn target =
    (if level_of st conn \<ge> target then (st, SQLITE_OK)
     else if \<exists>d. d \<noteq> conn \<and> level_of st d \<ge> barrier target then (st, SQLITE_BUSY)
     else (put_level st conn target, SQLITE_OK))"
  using assms othersAtLeast_iff [of st "barrier target" conn]
  by (auto simp: file_lock_def file_ok_def barrier_def split: if_splits)

lemma put_level_ok:
  assumes ok: "file_ok st" and t: "target \<in> {1, 2, 4}"
    and free: "\<forall>d. d \<noteq> conn \<longrightarrow> level_of st d < barrier target"
  shows "file_ok (put_level st conn target)"
proof -
  have "level_of st d = 0" if "level_of st d < 1" for d
  proof -
    have "level_of st d \<in> {0, 1, 2, 4}" using ok by (simp add: file_ok_def)
    with that show ?thesis by auto
  qed
  then have "target = 4 \<Longrightarrow> \<forall>d. d \<noteq> conn \<longrightarrow> level_of st d = 0"
    using free by (simp add: barrier_def)
  with assms show ?thesis
    by (auto simp: file_ok_def level_of_put distinct_put barrier_def)
qed

lemma lower_level_ok:
  assumes ok: "file_ok st" and "level_of st conn \<ge> 1"
  shows "file_ok (put_level st conn 1)"
  using assms by (auto simp: file_ok_def level_of_put distinct_put)

lemma remove_level_ok: "file_ok st \<Longrightarrow> file_ok (remove_level st conn)"
  by (auto simp: file_ok_def level_of_remove distinct_remove)

lemma file_lock_ok: "file_ok st \<Longrightarrow> target \<in> {1, 2, 4} \<Longrightarrow> file_ok (fst (file_lock st conn target))"
  by (auto simp: file_lock_eq not_le intro!: put_level_ok)

end
