(* ===== verification/Os_Jvm.thy ===== *)
theory Os_Jvm
  imports Jvm_Locks
begin

text \<open>
  The custom VFS of \<^verbatim>\<open>wasm-lib/os_jvm.c\<close>: file handles that delegate their I/O to the
  wrapped VFS and route locks and shared memory to the host, and the host's shared-memory
  arena (\<^verbatim>\<open>ShmArena.kt\<close>). The wrapped VFS is reached through function pointers and stays a
  parameter (\<open>xOpen\<close>, \<open>xClose\<close>); a handle's address is the connection identity that
  \<^verbatim>\<open>CONN(f)\<close> passes to the host.
\<close>

section \<open>The shared-memory arena\<close>

record arena =
  abase :: int
  cursor :: int
  regions :: "(string \<times> int) list"
  amem :: "int \<Rightarrow> u8"

fun show_nat :: "nat \<Rightarrow> string" where
  "show_nat n = (if n < 10 then [char_of (n + 48)] else show_nat (n div 10) @ [char_of (n mod 10 + 48)])"

declare show_nat.simps [simp del]

definition show_int :: "int \<Rightarrow> string" where
  "show_int i = (if i < 0 then CHR ''-'' # show_nat (nat (- i)) else show_nat (nat i))"

definition region_key :: "string \<Rightarrow> int \<Rightarrow> string" where
  "region_key name iRegion = name @ ''#'' @ show_int iRegion"

definition wrap32 :: "int \<Rightarrow> int" where
  "wrap32 x = (x + 2 ^ 31) mod 2 ^ 32 - 2 ^ 31"

definition fill0 :: "int \<Rightarrow> int \<Rightarrow> (int \<Rightarrow> u8) \<Rightarrow> int \<Rightarrow> u8" where
  "fill0 from to m a = (if from \<le> a \<and> a < to then 0 else m a)"

definition jvm_shm_map :: "arena \<Rightarrow> string \<Rightarrow> int \<Rightarrow> int \<Rightarrow> int \<Rightarrow> arena \<times> int" where
  "jvm_shm_map A name iRegion szRegion bExtend =
     (let key = region_key name iRegion in
      case map_of (regions A) key of
        Some ptr \<Rightarrow> (A, ptr)
      | None \<Rightarrow>
         if bExtend = 0 then (A, 0)
         else let ptr = wrap32 (abase A + cursor A) in
           (A\<lparr>cursor := wrap32 (cursor A + (wrap32 (szRegion + 15) AND NOT 15)),
              amem := fill0 ptr (ptr + szRegion) (amem A),
              regions := (key, ptr) # regions A\<rparr>, ptr))"

fun is_prefix_of :: "string \<Rightarrow> string \<Rightarrow> bool" where
  "is_prefix_of [] ys = True"
| "is_prefix_of (x # xs) [] = False"
| "is_prefix_of (x # xs) (y # ys) = (x = y \<and> is_prefix_of xs ys)"

definition dropFile :: "arena \<Rightarrow> string \<Rightarrow> arena" where
  "dropFile A name = A\<lparr>regions := filter (\<lambda>e. \<not> is_prefix_of (name @ ''#'') (fst e)) (regions A)\<rparr>"

section \<open>File handles\<close>

text \<open>
  A \<^verbatim>\<open>JvmFile\<close>: the delegate handle, the name buffer (the C string in \<^verbatim>\<open>zName[1024]\<close>) and
  whether \<^verbatim>\<open>base.pMethods\<close> points to \<^verbatim>\<open>JVM_IO\<close>.
\<close>

record 'h jvmFile =
  real_file :: "'h option"
  zName :: string
  pMethods :: bool

record 'h jvmvfs =
  handles :: "int \<Rightarrow> 'h jvmFile option"
  locks :: jvm_locks
  shm :: arena

definition NAME :: "'h jvmvfs \<Rightarrow> int \<Rightarrow> string" where
  "NAME V f = (case handles V f of Some p \<Rightarrow> zName p | None \<Rightarrow> [])"

text \<open>
  \<^verbatim>\<open>jOpen\<close>: \<open>real\<close> is the result of \<^verbatim>\<open>sqlite3_malloc\<close> (\<^const>\<open>None\<close> for a null pointer),
  \<open>xOpen\<close> the wrapped method with its result code and the handle it initialised. The name is
  copied by \<^verbatim>\<open>strncpy\<close> into 1023 bytes of a zeroed buffer.
\<close>

definition jOpen ::
  "(string option \<Rightarrow> 'h \<Rightarrow> int \<Rightarrow> int \<times> 'h) \<Rightarrow> 'h jvmvfs \<Rightarrow> string option \<Rightarrow> int \<Rightarrow> 'h option \<Rightarrow> int
   \<Rightarrow> 'h jvmvfs \<times> int" where
  "jOpen xOpen V zn pFile real flags =
     (let p = \<lparr>real_file = real, zName = [], pMethods = False\<rparr> in
      case real of
        None \<Rightarrow> (V\<lparr>handles := (handles V)(pFile \<mapsto> p)\<rparr>, SQLITE_NOMEM)
      | Some h \<Rightarrow>
         (case xOpen zn h flags of (rc, h) \<Rightarrow>
            if rc \<noteq> SQLITE_OK then (V\<lparr>handles := (handles V)(pFile \<mapsto> p)\<rparr>, rc)
            else let p = p\<lparr>real_file := Some h\<rparr>;
                     p = (case zn of Some z \<Rightarrow> p\<lparr>zName := take 1023 z\<rparr> | None \<Rightarrow> p);
                     p = p\<lparr>pMethods := True\<rparr>
                 in (V\<lparr>handles := (handles V)(pFile \<mapsto> p)\<rparr>, SQLITE_OK)))"

definition jClose :: "('h \<Rightarrow> int) \<Rightarrow> 'h jvmvfs \<Rightarrow> int \<Rightarrow> 'h jvmvfs \<times> int" where
  "jClose xClose V f =
     (case handles V f of
        Some p \<Rightarrow> (case real_file p of
            Some h \<Rightarrow> (V\<lparr>handles := (handles V)(f \<mapsto> p\<lparr>real_file := None\<rparr>)\<rparr>, xClose h)
          | None \<Rightarrow> (V, SQLITE_OK))
      | None \<Rightarrow> (V, SQLITE_OK))"

text \<open>The optional methods: absent ones get a default.\<close>

definition jFileControl :: "('h \<Rightarrow> int \<Rightarrow> int) option \<Rightarrow> 'h \<Rightarrow> int \<Rightarrow> int" where
  "jFileControl xFileControl h op = (case xFileControl of Some m \<Rightarrow> m h op | None \<Rightarrow> 12)"

definition jSectorSize :: "('h \<Rightarrow> int) option \<Rightarrow> 'h \<Rightarrow> int" where
  "jSectorSize xSectorSize h = (case xSectorSize of Some m \<Rightarrow> m h | None \<Rightarrow> 4096)"

definition jDeviceChar :: "('h \<Rightarrow> int) option \<Rightarrow> 'h \<Rightarrow> int" where
  "jDeviceChar xDeviceCharacteristics h = (case xDeviceCharacteristics of Some m \<Rightarrow> m h | None \<Rightarrow> 0)"

section \<open>Locks and shared memory\<close>

definition jLock :: "'h jvmvfs \<Rightarrow> int \<Rightarrow> int \<Rightarrow> 'h jvmvfs \<times> int" where
  "jLock V f level = (case jvm_lock (locks V) f (NAME V f) level of (J, rc) \<Rightarrow> (V\<lparr>locks := J\<rparr>, rc))"

definition jUnlock :: "'h jvmvfs \<Rightarrow> int \<Rightarrow> int \<Rightarrow> 'h jvmvfs \<times> int" where
  "jUnlock V f level = (case jvm_unlock (locks V) f (NAME V f) level of (J, rc) \<Rightarrow> (V\<lparr>locks := J\<rparr>, rc))"

text \<open>The second component is what is stored through \<^verbatim>\<open>pOut\<close>, the third the result code.\<close>

definition jCheckReserved :: "'h jvmvfs \<Rightarrow> int \<Rightarrow> 'h jvmvfs \<times> int \<times> int" where
  "jCheckReserved V f =
     (case jvm_check_reserved (locks V) f (NAME V f) of (J, out) \<Rightarrow> (V\<lparr>locks := J\<rparr>, out, SQLITE_OK))"

definition jShmMap :: "'h jvmvfs \<Rightarrow> int \<Rightarrow> int \<Rightarrow> int \<Rightarrow> int \<Rightarrow> 'h jvmvfs \<times> int \<times> int" where
  "jShmMap V f iRegion szRegion bExtend =
     (case jvm_shm_map (shm V) (NAME V f) iRegion szRegion bExtend of (A, ptr) \<Rightarrow>
        (V\<lparr>shm := A\<rparr>, ptr, if ptr \<noteq> 0 then SQLITE_OK else if bExtend \<noteq> 0 then 5386 else SQLITE_OK))"

definition jShmLock :: "'h jvmvfs \<Rightarrow> int \<Rightarrow> int \<Rightarrow> int \<Rightarrow> int \<Rightarrow> jvm_error + 'h jvmvfs \<times> int" where
  "jShmLock V f offset n flags =
     (case jvm_shm_lock (locks V) f (NAME V f) offset n flags of
        Inl e \<Rightarrow> Inl e
      | Inr (J, rc) \<Rightarrow> Inr (V\<lparr>locks := J\<rparr>, rc))"

definition jShmUnmap :: "'h jvmvfs \<Rightarrow> int \<Rightarrow> int \<Rightarrow> 'h jvmvfs \<times> int" where
  "jShmUnmap V f deleteFlag =
     (let V = V\<lparr>locks := shmUnmap (locks V) f (NAME V f)\<rparr> in
      (if deleteFlag \<noteq> 0 then V\<lparr>shm := dropFile (shm V) (NAME V f)\<rparr> else V, SQLITE_OK))"

section \<open>Registration\<close>

text \<open>
  \<^verbatim>\<open>install_jvm_vfs\<close>: the registered VFS is a copy of the default one with its name, handle
  size and \<^verbatim>\<open>xOpen\<close> replaced. \<open>vfs_find\<close> is the default VFS, \<open>register\<close> the result of
  \<^verbatim>\<open>sqlite3_vfs_register\<close>.
\<close>

record vfs_obj =
  vfs_zName :: string
  vfs_szOsFile :: int
  vfs_pNext :: int
  vfs_xOpen :: string
  vfs_rest :: "string list"

definition install_jvm_vfs :: "vfs_obj option \<Rightarrow> (vfs_obj \<Rightarrow> int) \<Rightarrow> vfs_obj option \<times> int" where
  "install_jvm_vfs vfs_find register =
     (case vfs_find of
        None \<Rightarrow> (None, 1)
      | Some g \<Rightarrow>
         let v = g\<lparr>vfs_zName := ''jvmvfs'', vfs_szOsFile := 1032, vfs_pNext := 0, vfs_xOpen := ''jOpen''\<rparr>
         in (Some v, register v))"

section \<open>Reachable lock states\<close>

abbreviation shm_of :: "'h jvmvfs \<Rightarrow> string \<Rightarrow> shm_state" where
  "shm_of V n \<equiv> shmState (locks V) n"

text \<open>
  Any interleaving of the VFS methods on any handles. Shared-memory requests name slots
  that exist, which \<^verbatim>\<open>wal.c\<close> respects by construction of its lock constants.
\<close>

inductive vfs_reach :: "'h jvmvfs \<Rightarrow> bool" where
  vfs_start: "locks V = new_jvm_locks \<Longrightarrow> vfs_reach V"
| vfs_open: "vfs_reach V \<Longrightarrow> jOpen xOpen V zn f real flags = (V', rc) \<Longrightarrow> vfs_reach V'"
| vfs_close: "vfs_reach V \<Longrightarrow> jClose xClose V f = (V', rc) \<Longrightarrow> vfs_reach V'"
| vfs_lock: "vfs_reach V \<Longrightarrow> jLock V f level = (V', rc) \<Longrightarrow> vfs_reach V'"
| vfs_unlock: "vfs_reach V \<Longrightarrow> jUnlock V f level = (V', rc) \<Longrightarrow> vfs_reach V'"
| vfs_check: "vfs_reach V \<Longrightarrow> jCheckReserved V f = (V', out, rc) \<Longrightarrow> vfs_reach V'"
| vfs_shm_map: "vfs_reach V \<Longrightarrow> jShmMap V f iRegion sz ext = (V', ptr, rc) \<Longrightarrow> vfs_reach V'"
| vfs_shm_lock: "vfs_reach V \<Longrightarrow> in_range offset n \<Longrightarrow> jShmLock V f offset n flags = Inr (V', rc) \<Longrightarrow> vfs_reach V'"
| vfs_shm_unmap: "vfs_reach V \<Longrightarrow> jShmUnmap V f del = (V', rc) \<Longrightarrow> vfs_reach V'"

lemma shmState_files [simp]: "shmState (J\<lparr>files := x\<rparr>) n = shmState J n"
  by (simp add: shmState_def)

lemma shmState_upd [simp]:
  "shmState (J\<lparr>shms := (shms J)(m \<mapsto> st)\<rparr>) n = (if n = m then st else shmState J n)"
  by (simp add: shmState_def)

lemma jOpen_locks: "jOpen xOpen V zn f real flags = (V', rc) \<Longrightarrow> locks V' = locks V"
  by (auto simp: jOpen_def Let_def split: option.splits prod.splits if_splits)

lemma jClose_locks: "jClose xClose V f = (V', rc) \<Longrightarrow> locks V' = locks V"
  by (auto simp: jClose_def split: option.splits)

lemma jLock_shm: "jLock V f level = (V', rc) \<Longrightarrow> shm_of V' n = shm_of V n"
  by (auto simp: jLock_def jvm_lock_def split: prod.splits)

lemma jUnlock_shm: "jUnlock V f level = (V', rc) \<Longrightarrow> shm_of V' n = shm_of V n"
  by (auto simp: jUnlock_def jvm_unlock_def split: prod.splits)

lemma jCheckReserved_shm: "jCheckReserved V f = (V', out, rc) \<Longrightarrow> shm_of V' n = shm_of V n"
  by (auto simp: jCheckReserved_def jvm_check_reserved_def Let_def split: prod.splits)

lemma jShmMap_locks: "jShmMap V f i sz e = (V', ptr, rc) \<Longrightarrow> locks V' = locks V"
  by (auto simp: jShmMap_def split: prod.splits)

lemma jShmLock_shm:
  "jShmLock V f offset n flags = Inr (V', rc) \<longleftrightarrow>
   (\<exists>st. shm_lock (shm_of V (NAME V f)) f offset n flags = Inr (st, rc) \<and>
      V' = V\<lparr>locks := (locks V)\<lparr>shms := (shms (locks V))(NAME V f \<mapsto> st)\<rparr>\<rparr>)"
  by (auto simp: jShmLock_def jvm_shm_lock_def split: sum.splits prod.splits)

lemma jShmUnmap_released:
  assumes "jShmUnmap V f del = (V', rc)" and "shm_wf (shm_of V (NAME V f))"
  shows "released f (int ` {0..<8}) (shm_of V (NAME V f)) (shm_of V' (NAME V f))"
    and "n \<noteq> NAME V f \<Longrightarrow> shm_of V' n = shm_of V n"
proof -
  have e: "shm_of V' n = shmState (shmUnmap (locks V) f (NAME V f)) n" for n
    using assms(1) by (auto simp: jShmUnmap_def Let_def split: if_splits)
  show "released f (int ` {0..<8}) (shm_of V (NAME V f)) (shm_of V' (NAME V f))"
    using fold_drop_slot_released [OF assms(2), of "[0..<8]" f]
    by (simp only: e) (simp add: shmUnmap_def)
  show "n \<noteq> NAME V f \<Longrightarrow> shm_of V' n = shm_of V n"
    by (simp only: e) (simp add: shmUnmap_def)
qed

lemma vfs_reach_ok: "vfs_reach V \<Longrightarrow> shm_ok (shm_of V n)"
proof (induction arbitrary: n rule: vfs_reach.induct)
  case (vfs_start V)
  then show ?case by (simp add: shmState_def new_jvm_locks_def shm_ok_new)
next
  case (vfs_shm_lock V offset k f flags V' rc)
  then obtain st where st: "shm_lock (shm_of V (NAME V f)) f offset k flags = Inr (st, rc)"
      "V' = V\<lparr>locks := (locks V)\<lparr>shms := (shms (locks V))(NAME V f \<mapsto> st)\<rparr>\<rparr>"
    by (auto simp: jShmLock_shm)
  have "shm_ok st" by (rule shm_lock_ok [OF vfs_shm_lock.IH vfs_shm_lock.hyps(2) st(1)])
  then show ?case using vfs_shm_lock.IH st(2) by simp
next
  case (vfs_shm_unmap V f del V' rc)
  note r = jShmUnmap_released [OF vfs_shm_unmap.hyps(2) shm_ok_wf [OF vfs_shm_unmap.IH]]
  show ?case
  proof (cases "n = NAME V f")
    case True
    then show ?thesis using released_ok [OF vfs_shm_unmap.IH r(1)] by simp
  next
    case False
    then show ?thesis using r(2) vfs_shm_unmap.IH by simp
  qed
qed (simp_all add: jOpen_locks jClose_locks jLock_shm jUnlock_shm jCheckReserved_shm jShmMap_locks)

lemma excl_grant_state:
  assumes "shm_wf st" and "in_range offset n" and "c \<noteq> -1"
  shows "s < 8 \<Longrightarrow> requested offset n s \<Longrightarrow> holds_excl (take_excl c [offset..offset + n - 1] st) s c"
    and "d \<noteq> c \<Longrightarrow> holds_shared (take_excl c [offset..offset + n - 1] st) s d = holds_shared st s d"
    and "d \<noteq> c \<Longrightarrow> \<not> requested offset n s \<Longrightarrow>
      holds_excl (take_excl c [offset..offset + n - 1] st) s d = holds_excl st s d"
  using take_excl_spec [OF assms(1) in_range_slots [OF assms(2)], of c, unfolded requested_iff] assms(3)
  by (auto simp: holds_excl_def holds_shared_def split: if_splits)

section \<open>Arena invariant\<close>

text \<open>
  Every region \<^verbatim>\<open>wal.c\<close> maps has the size \<^verbatim>\<open>WALINDEX_PGSZ\<close>, 32768 bytes, a multiple of the
  16-byte rounding.
\<close>

abbreviation (input) WALINDEX_PGSZ :: int where "WALINDEX_PGSZ \<equiv> 32768"
abbreviation (input) ARENA_BYTES :: int where "ARENA_BYTES \<equiv> 8388608"

definition arena_ok :: "arena \<Rightarrow> bool" where
  "arena_ok A \<longleftrightarrow> 0 < abase A \<and> 0 \<le> cursor A \<and> distinct (map fst (regions A)) \<and>
     (\<forall>(k, p) \<in> set (regions A). abase A \<le> p \<and> p + WALINDEX_PGSZ \<le> abase A + cursor A) \<and>
     (\<forall>(k, p) \<in> set (regions A). \<forall>(k', p') \<in> set (regions A).
        k \<noteq> k' \<longrightarrow> p + WALINDEX_PGSZ \<le> p' \<or> p' + WALINDEX_PGSZ \<le> p)"

lemma wrap32_id: "in_i32 x \<Longrightarrow> wrap32 x = x"
  by (simp add: wrap32_def in_i32_def)

lemma round_pgsz: "wrap32 32783 AND - 16 = WALINDEX_PGSZ"
  by (simp add: wrap32_id in_i32_def)

lemma shm_map_new:
  assumes "map_of (regions A) (region_key name i) = None" and "ext \<noteq> 0"
    and "in_i32 (abase A + cursor A)" and "in_i32 (cursor A + WALINDEX_PGSZ)"
  shows "jvm_shm_map A name i WALINDEX_PGSZ ext =
    (A\<lparr>cursor := cursor A + WALINDEX_PGSZ,
       amem := fill0 (abase A + cursor A) (abase A + cursor A + WALINDEX_PGSZ) (amem A),
       regions := (region_key name i, abase A + cursor A) # regions A\<rparr>, abase A + cursor A)"
  using assms by (simp add: jvm_shm_map_def wrap32_id round_pgsz Let_def)

lemma shm_map_ok:
  assumes "arena_ok A" and "in_i32 (abase A + cursor A + WALINDEX_PGSZ)"
  shows "arena_ok (fst (jvm_shm_map A name i WALINDEX_PGSZ ext))"
proof (cases "map_of (regions A) (region_key name i) = None \<and> ext \<noteq> 0")
  case True
  have "in_i32 (abase A + cursor A)" "in_i32 (cursor A + WALINDEX_PGSZ)"
    using assms by (auto simp: arena_ok_def in_i32_def)
  moreover have "region_key name i \<notin> fst ` set (regions A)"
    using True by (simp add: map_of_eq_None_iff)
  ultimately show ?thesis
    using True assms(1) by (auto simp: shm_map_new arena_ok_def split: prod.splits)
next
  case False
  then show ?thesis using assms(1) by (auto simp: jvm_shm_map_def Let_def split: option.splits)
qed

lemma dropFile_ok: "arena_ok A \<Longrightarrow> arena_ok (dropFile A name)"
  by (auto simp: arena_ok_def dropFile_def distinct_map_filter)

definition fresh_arena :: "int \<Rightarrow> (int \<Rightarrow> u8) \<Rightarrow> arena" where
  "fresh_arena b m = \<lparr>abase = b, cursor = 0, regions = [], amem = m\<rparr>"

inductive arena_reach :: "arena \<Rightarrow> bool" where
  arena_start: "0 < b \<Longrightarrow> arena_reach (fresh_arena b m)"
| arena_map: "arena_reach A \<Longrightarrow> in_i32 (abase A + cursor A + WALINDEX_PGSZ) \<Longrightarrow>
    jvm_shm_map A name i WALINDEX_PGSZ ext = (A', p) \<Longrightarrow> arena_reach A'"
| arena_drop: "arena_reach A \<Longrightarrow> arena_reach (dropFile A name)"

lemma arena_reach_ok: "arena_reach A \<Longrightarrow> arena_ok A"
proof (induction rule: arena_reach.induct)
  case (arena_start b m)
  then show ?case by (simp add: fresh_arena_def arena_ok_def)
next
  case (arena_map A name i ext A' p)
  then show ?case using shm_map_ok [of A name i ext] by simp
next
  case (arena_drop A name)
  then show ?case by (simp add: dropFile_ok)
qed

lemma show_nat_read: "foldl (\<lambda>a c. 10 * a + (of_char c - 48)) 0 (show_nat n) = (n :: nat)"
  by (induction n rule: show_nat.induct) (simp add: show_nat.simps)

lemma show_nat_inject: "show_nat m = show_nat n \<Longrightarrow> m = n"
  by (metis show_nat_read)

lemma region_key_inject: "region_key name (int i) = region_key name (int j) \<Longrightarrow> i = j"
  by (auto simp: region_key_def show_int_def dest: show_nat_inject)

text \<open>Mapping the first \<open>k\<close> regions of one file, as a growing wal-index does.\<close>

definition map_regions :: "string \<Rightarrow> nat \<Rightarrow> arena \<Rightarrow> arena" where
  "map_regions name k A = fold (\<lambda>i A. fst (jvm_shm_map A name (int i) WALINDEX_PGSZ 1)) [0..<k] A"

lemma map_regions_state:
  assumes "0 < b" and "in_i32 (b + WALINDEX_PGSZ * int k)"
  shows "cursor (map_regions name k (fresh_arena b m)) = WALINDEX_PGSZ * int k \<and>
    abase (map_regions name k (fresh_arena b m)) = b \<and>
    fst ` set (regions (map_regions name k (fresh_arena b m))) = (\<lambda>i. region_key name (int i)) ` {0..<k}"
  using assms(2)
proof (induction k)
  case 0
  then show ?case by (simp add: map_regions_def fresh_arena_def)
next
  case (Suc k)
  let ?A = "map_regions name k (fresh_arena b m)"
  have IH: "cursor ?A = WALINDEX_PGSZ * int k" "abase ?A = b"
      "fst ` set (regions ?A) = (\<lambda>i. region_key name (int i)) ` {0..<k}"
    using Suc assms(1) by (auto simp: in_i32_def)
  have new: "map_of (regions ?A) (region_key name (int k)) = None"
    by (auto simp: map_of_eq_None_iff IH(3) dest: region_key_inject)
  have "in_i32 (abase ?A + cursor ?A)" "in_i32 (cursor ?A + WALINDEX_PGSZ)"
    using Suc.prems assms(1) by (auto simp: IH(1,2) in_i32_def)
  from shm_map_new [OF new _ this, of 1] show ?case
    by (simp add: map_regions_def IH(1,2) [unfolded map_regions_def]
        IH(3) [unfolded map_regions_def] atLeast0_lessThan_Suc algebra_simps)
qed

lemma is_prefix_of_append: "is_prefix_of xs (xs @ ys)"
  by (induction xs) simp_all

section \<open>Properties\<close>

text \<open>Two states the witnesses below use: nothing held, and connection 7 alone in slot 0.\<close>

definition vfs_idle :: "unit jvmvfs" where
  "vfs_idle = \<lparr>handles = (\<lambda>_. None), locks = new_jvm_locks, shm = fresh_arena 16 (\<lambda>_. 0)\<rparr>"

definition vfs_held :: "unit jvmvfs" where
  "vfs_held = vfs_idle\<lparr>locks := new_jvm_locks\<lparr>shms := (\<lambda>_. None)([] \<mapsto> take_excl 7 [0] new_shm_state)\<rparr>\<rparr>"

lemma shm_of_idle: "shm_of vfs_idle n = new_shm_state" "NAME vfs_idle f = []"
  by (simp_all add: vfs_idle_def shmState_def new_jvm_locks_def NAME_def)

lemma shm_of_held: "shm_of vfs_held [] = take_excl 7 [0] new_shm_state"
  by (simp add: vfs_held_def shmState_def)

lemma vfs_held_step: "jShmLock vfs_idle 7 0 1 10 = Inr (vfs_held, SQLITE_OK)"
  by (simp add: jShmLock_shm shm_of_idle shm_lock_def slot_ok_def excl_busy_def new_shm_state_def)
    (simp add: vfs_held_def vfs_idle_def new_jvm_locks_def new_shm_state_def)

lemma vfs_held_reach: "vfs_reach vfs_held"
  by (rule vfs_shm_lock [OF vfs_start _ vfs_held_step]) (simp_all add: vfs_idle_def in_range_def)

text \<open>C8: In every state the VFS methods can reach, a shared-memory slot that one connection holds
  exclusively is held by no other connection in any mode.\<close>

theorem shm_slot_exclusion:
  assumes "vfs_reach V" and "holds_excl (shm_of V n) s c"
    and "holds_excl (shm_of V n) s d \<or> holds_shared (shm_of V n) s d"
  shows "d = c"
  using vfs_reach_ok [OF assms(1)] assms(2,3) by (rule shm_ok_exclusion)

theorem shm_slot_exclusion_witness:
  "holds_excl (shm_of vfs_held []) 0 7 \<and> (\<forall>d. holds_excl (shm_of vfs_held []) 0 d = (d = 7))"
proof -
  have h: "holds_excl (shm_of vfs_held []) 0 7"
    by (simp add: shm_of_held holds_excl_def new_shm_state_def)
  then show ?thesis using shm_slot_exclusion [OF vfs_held_reach h] by auto
qed

text \<open>\<^verbatim>\<open>xShmLock\<close> with \<^verbatim>\<open>LOCK|EXCLUSIVE\<close> succeeds exactly when no other connection holds a
  requested slot, then holds them all; when it is busy the lock table is unchanged, and it
  never touches what other connections hold.\<close>

theorem shm_lock_exclusive_exact:
  fixes V :: "'h jvmvfs"
  assumes "shm_ok (shm_of V (NAME V f))" and "in_range offset n" and "f \<noteq> -1"
  shows "\<exists>V' rc. jShmLock V f offset n 10 = Inr (V', rc) \<and>
    (rc = SQLITE_OK \<longleftrightarrow> (\<forall>s < 8. requested offset n s \<longrightarrow> \<not> conflicts_excl (shm_of V (NAME V f)) f s)) \<and>
    (rc = SQLITE_OK \<longrightarrow> (\<forall>s < 8. requested offset n s \<longrightarrow> holds_excl (shm_of V' (NAME V f)) s f)) \<and>
    (rc \<noteq> SQLITE_OK \<longrightarrow> rc = SQLITE_BUSY \<and> (\<forall>m. shm_of V' m = shm_of V m)) \<and>
    (\<forall>g s. g \<noteq> f \<longrightarrow> holds_shared (shm_of V' (NAME V f)) s g = holds_shared (shm_of V (NAME V f)) s g)"
proof -
  let ?st = "shm_of V (NAME V f)"
  note wf = shm_ok_wf [OF assms(1)]
  have eq: "shm_lock ?st f offset n 10 =
    (if \<exists>s < 8. requested offset n s \<and> conflicts_excl ?st f s then Inr (?st, SQLITE_BUSY)
     else Inr (take_excl f [offset..offset + n - 1] ?st, SQLITE_OK))"
    by (rule shm_lock_excl [OF wf assms(2)]) simp_all
  note g = excl_grant_state [OF wf assms(2,3)]
  show ?thesis
  proof (cases "\<exists>s < 8. requested offset n s \<and> conflicts_excl ?st f s")
    case True
    then show ?thesis using eq
      by (intro exI [of _ "V\<lparr>locks := (locks V)\<lparr>shms := (shms (locks V))(NAME V f \<mapsto> ?st)\<rparr>\<rparr>"] exI [of _ 5])
        (auto simp: jShmLock_shm)
  next
    case False
    let ?st' = "take_excl f [offset..offset + n - 1] ?st"
    from False show ?thesis using eq g
      by (intro exI [of _ "V\<lparr>locks := (locks V)\<lparr>shms := (shms (locks V))(NAME V f \<mapsto> ?st')\<rparr>\<rparr>"] exI [of _ 0])
        (auto simp: jShmLock_shm)
  qed
qed

theorem shm_lock_exclusive_exact_witness:
  "\<exists>V'. jShmLock vfs_idle 7 0 1 10 = Inr (V', SQLITE_OK) \<and> holds_excl (shm_of V' []) 0 7"
proof -
  have h: "shm_ok (shm_of vfs_idle (NAME vfs_idle 7))" "in_range 0 1"
    by (simp_all add: shm_of_idle shm_ok_new in_range_def)
  have "requested 0 1 0" by (simp add: requested_def)
  then show ?thesis
    using shm_lock_exclusive_exact [OF h] vfs_held_step by (auto simp: shm_of_idle)
qed

text \<open>C30: Mapped wal-index regions never overlap, and mapping a region again returns the pointer
  it was given the first time and changes nothing.\<close>

theorem arena_regions_disjoint:
  assumes "arena_reach A" and "map_of (regions A) (region_key n i) = Some p"
    and "map_of (regions A) (region_key n' i') = Some q" and "region_key n i \<noteq> region_key n' i'"
  shows "(p + WALINDEX_PGSZ \<le> q \<or> q + WALINDEX_PGSZ \<le> p) \<and>
    jvm_shm_map A n i WALINDEX_PGSZ ext = (A, p)"
  using arena_reach_ok [OF assms(1)] assms(2-4)
  by (fastforce simp: arena_ok_def jvm_shm_map_def dest!: map_of_SomeD)

theorem arena_regions_disjoint_witness:
  "let A = map_regions ''f'' 2 (fresh_arena 16 (\<lambda>_. 0)) in
     map_of (regions A) (region_key ''f'' 0) = Some 16 \<and>
     map_of (regions A) (region_key ''f'' 1) = Some 32784 \<and>
     jvm_shm_map A ''f'' 0 WALINDEX_PGSZ 1 = (A, 16)"
proof -
  define B where "B = fst (jvm_shm_map (fresh_arena 16 (\<lambda>_. 0)) ''f'' 0 WALINDEX_PGSZ 1)"
  define A where "A = fst (jvm_shm_map B ''f'' 1 WALINDEX_PGSZ 1)"
  have k: "region_key ''f'' 0 \<noteq> region_key ''f'' 1" using region_key_inject [of "''f''" 0 1] by auto
  have B: "B = (fresh_arena 16 (\<lambda>_. 0))\<lparr>cursor := 32768, amem := fill0 16 32784 (\<lambda>_. 0),
      regions := [(region_key ''f'' 0, 16)]\<rparr>"
    by (simp add: B_def shm_map_new fresh_arena_def in_i32_def)
  have r: "regions A = [(region_key ''f'' 1, 32784), (region_key ''f'' 0, 16)]"
    using k by (simp add: A_def B shm_map_new fresh_arena_def in_i32_def)
  have "arena_reach B" unfolding B_def
    by (rule arena_map [OF arena_start _ surjective_pairing]) (simp_all add: fresh_arena_def in_i32_def)
  then have a: "arena_reach A" unfolding A_def
    by (rule arena_map [OF _ _ surjective_pairing]) (simp add: B fresh_arena_def in_i32_def)
  have m: "map_regions ''f'' 2 (fresh_arena 16 (\<lambda>_. 0)) = A"
    by (simp add: map_regions_def A_def B_def upt_0_numeral)
  show ?thesis
    unfolding m using arena_regions_disjoint [OF a, of "''f''" 0 16 "''f''" 1 32784 1] k r by (simp add: Let_def)
qed

text \<open>The arena has no capacity check: once 256 regions have been handed out, the next one
  starts at the arena's end and lies wholly outside the memory reserved for it.\<close>

theorem arena_overrun:
  assumes "0 < b" and "in_i32 (b + ARENA_BYTES + WALINDEX_PGSZ)"
  shows "snd (jvm_shm_map (map_regions name 256 (fresh_arena b m)) name 256 WALINDEX_PGSZ 1) = b + ARENA_BYTES"
proof -
  let ?A = "map_regions name 256 (fresh_arena b m)"
  have st: "cursor ?A = ARENA_BYTES" "abase ?A = b"
      "fst ` set (regions ?A) = (\<lambda>i. region_key name (int i)) ` {0..<256}"
    using map_regions_state [of b 256 name m] assms by (auto simp: in_i32_def)
  have "map_of (regions ?A) (region_key name (int 256)) = None"
    unfolding map_of_eq_None_iff st(3)
    by (auto dest!: region_key_inject [of name 256, unfolded of_nat_numeral])
  moreover have "in_i32 (abase ?A + cursor ?A)" "in_i32 (cursor ?A + WALINDEX_PGSZ)"
    using assms by (auto simp: st in_i32_def)
  ultimately show ?thesis
    using shm_map_new [of ?A name 256 1] by (simp add: st)
qed

theorem arena_overrun_witness:
  "snd (jvm_shm_map (map_regions ''f'' 256 (fresh_arena 16 (\<lambda>_. 0))) ''f'' 256 WALINDEX_PGSZ 1) = 8388624"
  using arena_overrun [of 16 "''f''" "\<lambda>_. 0"] by (simp add: in_i32_def)

text \<open>Dropping a file's regions also drops those of every other file whose name extends it by
  a \<^verbatim>\<open>#\<close>, because keys are matched by prefix.\<close>

theorem dropFile_drops_other_file:
  "map_of (regions (dropFile A name)) (region_key (name @ ''#'' @ rest) i) = None"
proof -
  have "is_prefix_of (name @ ''#'') (region_key (name @ ''#'' @ rest) i)"
    using is_prefix_of_append [of "name @ ''#''" "rest @ ''#'' @ show_int i"] by (simp add: region_key_def)
  then show ?thesis by (auto simp: dropFile_def map_of_eq_None_iff)
qed

end
