(* ===== verification/Pager_Lock.thy ===== *)
theory Pager_Lock
  imports Os_Jvm
begin

text \<open>
  The pager's database-file lock (\<^verbatim>\<open>pager.c\<close>: \<^verbatim>\<open>pagerLockDb\<close>, \<^verbatim>\<open>pagerUnlockDb\<close>,
  \<^verbatim>\<open>pager_wait_on_lock\<close>) and the busy handler that decides how long to wait for it
  (\<^verbatim>\<open>main.c\<close>: \<^verbatim>\<open>sqliteDefaultBusyCallback\<close>, \<^verbatim>\<open>sqlite3InvokeBusyHandler\<close>,
  \<^verbatim>\<open>sqlite3_busy_timeout\<close>). The pager reaches the file through the method pointers
  \<^verbatim>\<open>xLock\<close> and \<^verbatim>\<open>xUnlock\<close>, which are arguments here. The locale \<open>file_locking\<close> states what
  these methods promise; the pager's mutual exclusion is proved from it once, and the
  JVM-backed methods of \<^verbatim>\<open>os_jvm.c\<close> are shown to keep the promise.
\<close>

section \<open>Pager locks\<close>

abbreviation (input) NO_LOCK :: int where "NO_LOCK \<equiv> 0"
abbreviation (input) SHARED_LOCK :: int where "SHARED_LOCK \<equiv> 1"
abbreviation (input) RESERVED_LOCK :: int where "RESERVED_LOCK \<equiv> 2"
abbreviation (input) EXCLUSIVE_LOCK :: int where "EXCLUSIVE_LOCK \<equiv> 4"
abbreviation (input) UNKNOWN_LOCK :: int where "UNKNOWN_LOCK \<equiv> 5"

type_synonym 's lock_method = "'s \<Rightarrow> int \<Rightarrow> int \<Rightarrow> 's \<times> int"

record pager =
  fd :: int
  isOpen :: bool
  eLock :: int
  noLock :: bool
  tempFile :: bool
  changeCountDone :: bool

definition sqlite3OsLock :: "'s lock_method \<Rightarrow> 's \<Rightarrow> int \<Rightarrow> int \<Rightarrow> 's \<times> int" where
  "sqlite3OsLock xLock s f lockType = xLock s f lockType"

definition sqlite3OsUnlock :: "'s lock_method \<Rightarrow> 's \<Rightarrow> int \<Rightarrow> int \<Rightarrow> 's \<times> int" where
  "sqlite3OsUnlock xUnlock s f lockType = xUnlock s f lockType"

definition pagerUnlockDb :: "'s lock_method \<Rightarrow> 's \<Rightarrow> pager \<Rightarrow> int \<Rightarrow> 's \<times> pager \<times> int" where
  "pagerUnlockDb xUnlock s p e =
     (let (s, p, rc) =
        (if isOpen p then
           let (s, rc) = (if noLock p then (s, SQLITE_OK) else sqlite3OsUnlock xUnlock s (fd p) e);
               p = (if eLock p \<noteq> UNKNOWN_LOCK then p\<lparr>eLock := e\<rparr> else p)
           in (s, p, rc)
         else (s, p, SQLITE_OK))
      in (s, p\<lparr>changeCountDone := tempFile p\<rparr>, rc))"

definition pagerLockDb :: "'s lock_method \<Rightarrow> 's \<Rightarrow> pager \<Rightarrow> int \<Rightarrow> 's \<times> pager \<times> int" where
  "pagerLockDb xLock s p e =
     (if eLock p < e \<or> eLock p = UNKNOWN_LOCK then
        let (s, rc) = (if noLock p then (s, SQLITE_OK) else sqlite3OsLock xLock s (fd p) e);
            p = (if rc = SQLITE_OK \<and> (eLock p \<noteq> UNKNOWN_LOCK \<or> e = EXCLUSIVE_LOCK) then p\<lparr>eLock := e\<rparr> else p)
        in (s, p, rc)
      else (s, p, SQLITE_OK))"

text \<open>
  The loop of \<^verbatim>\<open>pager_wait_on_lock\<close>. While the busy handler runs, other connections run too,
  so the handler is a function on the shared state.
\<close>

partial_function (option) pager_wait_on_lock ::
  "'s lock_method \<Rightarrow> ('s \<Rightarrow> 's \<times> int) \<Rightarrow> 's \<Rightarrow> pager \<Rightarrow> int \<Rightarrow> ('s \<times> pager \<times> int) option" where
  "pager_wait_on_lock xLock xBusy s p locktype =
     (case pagerLockDb xLock s p locktype of (s, p, rc) \<Rightarrow>
        if rc = SQLITE_BUSY then
          (case xBusy s of (s, again) \<Rightarrow>
             if again \<noteq> 0 then pager_wait_on_lock xLock xBusy s p locktype else Some (s, p, rc))
        else Some (s, p, rc))"

section \<open>The busy handler\<close>

text \<open>A callback gets the timeout and the attempt number, and returns its result and the
  microseconds it slept.\<close>

record busy_db =
  xBusyHandler :: "(int \<Rightarrow> int \<Rightarrow> int \<times> int) option"
  nBusy :: int
  busyTimeout :: int
  slept :: int

definition delays :: "int list" where
  "delays = [1, 2, 5, 10, 15, 20, 25, 25, 25, 50, 50, 100]"

definition totals :: "int list" where
  "totals = [0, 1, 3, 8, 18, 33, 53, 78, 103, 128, 178, 228]"

definition sqliteDefaultBusyCallback :: "int \<Rightarrow> int \<Rightarrow> int \<times> int" where
  "sqliteDefaultBusyCallback tmout count =
     (let NDELAY = int (length delays);
          delay = (if count < NDELAY then delays ! nat count else delays ! nat (NDELAY - 1));
          prior = (if count < NDELAY then totals ! nat count
                   else totals ! nat (NDELAY - 1) + delay * (count - (NDELAY - 1)))
      in if prior + delay > tmout then
           let delay = tmout - prior in if delay \<le> 0 then (0, 0) else (1, delay * 1000)
         else (1, delay * 1000))"

definition sqlite3InvokeBusyHandler :: "busy_db \<Rightarrow> busy_db \<times> int" where
  "sqlite3InvokeBusyHandler db =
     (case xBusyHandler db of
        None \<Rightarrow> (db, 0)
      | Some xBusy \<Rightarrow>
         if nBusy db < 0 then (db, 0)
         else case xBusy (busyTimeout db) (nBusy db) of (rc, us) \<Rightarrow>
           let db = db\<lparr>slept := slept db + us\<rparr>
           in (if rc = 0 then db\<lparr>nBusy := -1\<rparr> else db\<lparr>nBusy := nBusy db + 1\<rparr>, rc))"

definition sqlite3_busy_handler :: "busy_db \<Rightarrow> (int \<Rightarrow> int \<Rightarrow> int \<times> int) option \<Rightarrow> busy_db \<times> int" where
  "sqlite3_busy_handler db xBusy = (db\<lparr>xBusyHandler := xBusy, nBusy := 0, busyTimeout := 0\<rparr>, SQLITE_OK)"

definition sqlite3_busy_timeout :: "busy_db \<Rightarrow> int \<Rightarrow> busy_db \<times> int" where
  "sqlite3_busy_timeout db ms =
     (if ms > 0 then ((fst (sqlite3_busy_handler db (Some sqliteDefaultBusyCallback)))\<lparr>busyTimeout := ms\<rparr>, SQLITE_OK)
      else (fst (sqlite3_busy_handler db None), SQLITE_OK))"

text \<open>
  The handler of a b-tree (\<^verbatim>\<open>btreeInvokeBusyHandler\<close>) on a state made of the shared lock state
  and the connection; \<open>others\<close> is what the other connections do to the locks meanwhile.
\<close>

definition btreeInvokeBusyHandler :: "('s \<Rightarrow> 's) \<Rightarrow> 's \<times> busy_db \<Rightarrow> ('s \<times> busy_db) \<times> int" where
  "btreeInvokeBusyHandler others w =
     (case sqlite3InvokeBusyHandler (snd w) of (db, rc) \<Rightarrow> ((others (fst w), db), rc))"

definition with_db :: "'s lock_method \<Rightarrow> ('s \<times> busy_db) lock_method" where
  "with_db xLock w f l = (case xLock (fst w) f l of (s, rc) \<Rightarrow> ((s, snd w), rc))"

section \<open>Mutual exclusion of pagers\<close>

locale file_locking =
  fixes xLock xUnlock :: "'s lock_method"
    and level :: "'s \<Rightarrow> int \<Rightarrow> int"
    and same :: "'s \<Rightarrow> int \<Rightarrow> int \<Rightarrow> bool"
    and ok :: "'s \<Rightarrow> bool"
  assumes lock_ok: "ok s \<Longrightarrow> l \<in> {1, 2, 4} \<Longrightarrow> xLock s f l = (s', rc) \<Longrightarrow> ok s' \<and> same s' = same s"
    and lock_level: "ok s \<Longrightarrow> l \<in> {1, 2, 4} \<Longrightarrow> xLock s f l = (s', rc) \<Longrightarrow>
      level s' g = (if g = f \<and> rc = SQLITE_OK then max (level s f) l else level s g)"
    and unlock_ok: "ok s \<Longrightarrow> l \<in> {0, 1} \<Longrightarrow> l \<le> level s f \<Longrightarrow> xUnlock s f l = (s', rc) \<Longrightarrow>
      ok s' \<and> same s' = same s"
    and unlock_level: "ok s \<Longrightarrow> l \<in> {0, 1} \<Longrightarrow> l \<le> level s f \<Longrightarrow> xUnlock s f l = (s', rc) \<Longrightarrow>
      l \<le> level s' f \<and> (\<forall>g. g \<noteq> f \<longrightarrow> level s' g = level s g)"
    and one_writer: "ok s \<Longrightarrow> same s f g \<Longrightarrow> f \<noteq> g \<Longrightarrow> 2 \<le> level s f \<Longrightarrow> level s g < 2"
    and exclusive_alone: "ok s \<Longrightarrow> same s f g \<Longrightarrow> f \<noteq> g \<Longrightarrow> 4 \<le> level s f \<Longrightarrow> level s g \<le> 0"

text \<open>
  Any interleaving of lock and unlock calls by pagers, one per file handle. The guards are the
  assertions of the two functions.
\<close>

inductive pager_reach :: "'s lock_method \<Rightarrow> 's lock_method \<Rightarrow> ('s \<Rightarrow> bool) \<Rightarrow> 's \<Rightarrow> (int \<Rightarrow> pager) \<Rightarrow> bool"
  for xLock xUnlock start where
  pager_start: "start s \<Longrightarrow> \<forall>f. fd (P f) = f \<and> eLock (P f) = NO_LOCK \<Longrightarrow> pager_reach xLock xUnlock start s P"
| pager_lock: "pager_reach xLock xUnlock start s P \<Longrightarrow> isOpen (P f) \<Longrightarrow>
    e \<in> {SHARED_LOCK, RESERVED_LOCK, EXCLUSIVE_LOCK} \<Longrightarrow>
    pagerLockDb xLock s (P f) e = (s', p, rc) \<Longrightarrow> pager_reach xLock xUnlock start s' (P(f := p))"
| pager_unlock: "pager_reach xLock xUnlock start s P \<Longrightarrow> e \<in> {NO_LOCK, SHARED_LOCK} \<Longrightarrow>
    (isOpen (P f) \<Longrightarrow> e \<le> eLock (P f)) \<Longrightarrow>
    pagerUnlockDb xUnlock s (P f) e = (s', p, rc) \<Longrightarrow> pager_reach xLock xUnlock start s' (P(f := p))"

inductive_cases pager_reachE: "pager_reach xLock xUnlock start s P"

lemma pagerLockDb_known:
  "eLock p \<noteq> UNKNOWN_LOCK \<Longrightarrow> pagerLockDb xLock s p e =
     (if eLock p < e then
        if noLock p then (s, p\<lparr>eLock := e\<rparr>, SQLITE_OK)
        else case xLock s (fd p) e of (s', rc) \<Rightarrow> (s', if rc = SQLITE_OK then p\<lparr>eLock := e\<rparr> else p, rc)
      else (s, p, SQLITE_OK))"
  by (simp add: pagerLockDb_def sqlite3OsLock_def split: prod.split)

lemma pagerUnlockDb_known:
  "eLock p \<noteq> UNKNOWN_LOCK \<Longrightarrow> pagerUnlockDb xUnlock s p e =
     (if isOpen p then
        if noLock p then (s, p\<lparr>eLock := e, changeCountDone := tempFile p\<rparr>, SQLITE_OK)
        else case xUnlock s (fd p) e of (s', rc) \<Rightarrow> (s', p\<lparr>eLock := e, changeCountDone := tempFile p\<rparr>, rc)
      else (s, p\<lparr>changeCountDone := tempFile p\<rparr>, SQLITE_OK))"
  by (simp add: pagerUnlockDb_def sqlite3OsUnlock_def split: prod.split)

lemma pagerLockDb_frame:
  assumes "pagerLockDb xLock s p e = (s', p', rc)"
  shows "fd p' = fd p" "isOpen p' = isOpen p" "noLock p' = noLock p" "tempFile p' = tempFile p"
  using assms by (auto simp: pagerLockDb_def Let_def split: if_splits prod.splits)

lemma pagerUnlockDb_frame:
  assumes "pagerUnlockDb xUnlock s p e = (s', p', rc)"
  shows "fd p' = fd p" "isOpen p' = isOpen p" "noLock p' = noLock p" "tempFile p' = tempFile p"
  using assms by (auto simp: pagerUnlockDb_def Let_def split: if_splits prod.splits)

context file_locking
begin

text \<open>The pager's own record of its lock never exceeds what the file grants it.\<close>

definition pager_inv :: "'s \<Rightarrow> (int \<Rightarrow> pager) \<Rightarrow> bool" where
  "pager_inv s P \<longleftrightarrow> ok s \<and>
     (\<forall>f. fd (P f) = f \<and> eLock (P f) \<in> {0, 1, 2, 4} \<and>
        (isOpen (P f) \<and> \<not> noLock (P f) \<longrightarrow> eLock (P f) \<le> level s f))"

lemma pager_inv_upd:
  assumes "pager_inv s P" and "ok s'" and "fd p = f" and "eLock p \<in> {0, 1, 2, 4}"
    and "\<And>g. g \<noteq> f \<Longrightarrow> level s' g = level s g"
    and "isOpen p \<Longrightarrow> \<not> noLock p \<Longrightarrow> eLock p \<le> level s' f"
  shows "pager_inv s' (P(f := p))"
  using assms unfolding pager_inv_def by simp

lemma pager_inv_ok: "pager_inv s P \<Longrightarrow> ok s"
  by (simp add: pager_inv_def)

lemma pager_invD:
  assumes "pager_inv s P"
  shows "fd (P f) = f" "eLock (P f) \<in> {0, 1, 2, 4}" "eLock (P f) \<noteq> UNKNOWN_LOCK"
    "isOpen (P f) \<Longrightarrow> \<not> noLock (P f) \<Longrightarrow> eLock (P f) \<le> level s f"
proof -
  show "fd (P f) = f" and e: "eLock (P f) \<in> {0, 1, 2, 4}"
    and "isOpen (P f) \<Longrightarrow> \<not> noLock (P f) \<Longrightarrow> eLock (P f) \<le> level s f"
    using assms unfolding pager_inv_def by blast+
  show "eLock (P f) \<noteq> UNKNOWN_LOCK" using e by auto
qed

lemma pager_inv_lock:
  assumes inv: "pager_inv s P" and e: "e \<in> {1, 2, 4}"
    and step: "pagerLockDb xLock s (P f) e = (s', p, rc)"
  shows "pager_inv s' (P(f := p)) \<and> same s' = same s"
proof (cases "eLock (P f) < e \<and> \<not> noLock (P f)")
  case False
  then have "s' = s" "p = P f \<or> noLock (P f) \<and> p = (P f)\<lparr>eLock := e\<rparr>"
    using step pager_invD [OF inv, of f] by (auto simp: pagerLockDb_known split: if_splits)
  then show ?thesis using pager_invD [OF inv, of f] pager_inv_ok [OF inv] e by (auto intro!: pager_inv_upd [OF inv])
next
  case True
  then have call: "xLock s f e = (s', rc)" and p: "p = (if rc = 0 then (P f)\<lparr>eLock := e\<rparr> else P f)"
    using step pager_invD [OF inv, of f] by (auto simp: pagerLockDb_known split: prod.splits)
  note ok = lock_ok [OF pager_inv_ok [OF inv] e call] and lv = lock_level [OF pager_inv_ok [OF inv] e call]
  have "pager_inv s' (P(f := p))"
    using pager_invD [OF inv, of f] e by (intro pager_inv_upd [OF inv]) (auto simp: ok lv p)
  with ok show ?thesis by simp
qed

lemma pager_inv_unlock:
  assumes inv: "pager_inv s P" and e: "e \<in> {0, 1}" and le: "isOpen (P f) \<Longrightarrow> e \<le> eLock (P f)"
    and step: "pagerUnlockDb xUnlock s (P f) e = (s', p, rc)"
  shows "pager_inv s' (P(f := p)) \<and> same s' = same s"
proof (cases "isOpen (P f) \<and> \<not> noLock (P f)")
  case False
  then have "s' = s" and p: "fd p = f" "eLock p \<in> {0, 1, 2, 4}" "isOpen p = isOpen (P f)" "noLock p = noLock (P f)"
    using step e pager_invD [OF inv, of f] by (auto simp: pagerUnlockDb_known split: if_splits)
  then show ?thesis using False pager_inv_ok [OF inv] by (auto intro!: pager_inv_upd [OF inv])
next
  case True
  then have call: "xUnlock s f e = (s', rc)" and p: "p = (P f)\<lparr>eLock := e, changeCountDone := tempFile (P f)\<rparr>"
    using step pager_invD [OF inv, of f] by (auto simp: pagerUnlockDb_known split: prod.splits)
  have lo: "e \<le> level s f" using True le pager_invD(4) [OF inv, of f] by linarith
  note ok = unlock_ok [OF pager_inv_ok [OF inv] e lo call]
    and lv = unlock_level [OF pager_inv_ok [OF inv] e lo call]
  have "pager_inv s' (P(f := p))"
    using pager_invD [OF inv, of f] e lv by (intro pager_inv_upd [OF inv]) (auto simp: ok p)
  with ok show ?thesis by simp
qed

lemma pager_reach_inv:
  assumes "pager_reach xLock xUnlock start s P" and "\<And>s. start s \<Longrightarrow> ok s \<and> (\<forall>f. 0 \<le> level s f)"
  shows "pager_inv s P"
  using assms
proof (induction rule: pager_reach.induct)
  case (pager_start s P)
  then show ?case by (auto simp: pager_inv_def)
next
  case (pager_lock s P f e s' p rc)
  then show ?case using pager_inv_lock by blast
next
  case (pager_unlock s P e f s' p rc)
  then show ?case using pager_inv_unlock by metis
qed

lemma pager_exclusion:
  assumes "pager_inv s P" and "same s f g" and "f \<noteq> g"
    and "isOpen (P f)" "\<not> noLock (P f)" "isOpen (P g)" "\<not> noLock (P g)"
  shows "(2 \<le> eLock (P f) \<longrightarrow> eLock (P g) < 2) \<and> (eLock (P f) = 4 \<longrightarrow> eLock (P g) = 0)"
proof -
  have ok: "ok s" and le: "eLock (P f) \<le> level s f" "eLock (P g) \<le> level s g" "eLock (P g) \<in> {0, 1, 2, 4}"
    using assms by (auto simp: pager_inv_def)
  show ?thesis
    using one_writer [OF ok assms(2,3)] exclusive_alone [OF ok assms(2,3)] le by auto
qed

end

section \<open>The JVM-backed methods keep the promise\<close>

definition jvm_level :: "'h jvmvfs \<Rightarrow> int \<Rightarrow> int" where
  "jvm_level V f = level_of (fileState (locks V) (NAME V f)) f"

definition jvm_ok :: "'h jvmvfs \<Rightarrow> bool" where
  "jvm_ok V \<longleftrightarrow> (\<forall>n. file_ok (fileState (locks V) n))"

abbreviation same_file :: "'h jvmvfs \<Rightarrow> int \<Rightarrow> int \<Rightarrow> bool" where
  "same_file V f g \<equiv> NAME V f = NAME V g"

lemma fileState_upd [simp]:
  "fileState (J\<lparr>files := (files J)(m \<mapsto> st)\<rparr>) n = (if n = m then st else fileState J n)"
  by (simp add: fileState_def)

lemma NAME_locks [simp]: "NAME (V\<lparr>locks := J\<rparr>) f = NAME V f"
  by (simp add: NAME_def)

lemma jLock_eq:
  "jLock V f l = (case file_lock (fileState (locks V) (NAME V f)) f l of (st, rc) \<Rightarrow>
     (V\<lparr>locks := (locks V)\<lparr>files := (files (locks V))(NAME V f \<mapsto> st)\<rparr>\<rparr>, rc))"
  by (simp add: jLock_def jvm_lock_def split: prod.split)

lemma jUnlock_eq:
  "jUnlock V f l = (V\<lparr>locks := (locks V)\<lparr>files := (files (locks V))(NAME V f \<mapsto>
     (if l \<le> 0 then remove_level (fileState (locks V) (NAME V f)) f
      else put_level (fileState (locks V) (NAME V f)) f l))\<rparr>\<rparr>, SQLITE_OK)"
  by (simp add: jUnlock_def jvm_unlock_def file_unlock_def)

lemma file_lock_level:
  assumes "file_ok st" and "l \<in> {1, 2, 4}" and "file_lock st f l = (st', rc)"
  shows "level_of st' g = (if g = f \<and> rc = SQLITE_OK then max (level_of st f) l else level_of st g)"
  using assms by (auto simp: file_lock_eq level_of_put split: if_splits)

interpretation jl: file_locking jLock jUnlock jvm_level same_file jvm_ok
proof
  fix V V' :: "'h jvmvfs" and l f g rc
  assume ok: "jvm_ok V"
  have st: "file_ok (fileState (locks V) n)" for n using ok by (simp add: jvm_ok_def)
  { assume l: "l \<in> {1, 2, 4}" and step: "jLock V f l = (V', rc)"
    then obtain st where fl: "file_lock (fileState (locks V) (NAME V f)) f l = (st, rc)"
      and V': "V' = V\<lparr>locks := (locks V)\<lparr>files := (files (locks V))(NAME V f \<mapsto> st)\<rparr>\<rparr>"
      by (auto simp: jLock_eq split: prod.splits)
    show "jvm_ok V' \<and> same_file V' = same_file V"
      using file_lock_ok [OF st l, of "NAME V f" f] st fl by (auto simp: jvm_ok_def V' fun_eq_iff)
    show "jvm_level V' g = (if g = f \<and> rc = SQLITE_OK then max (jvm_level V f) l else jvm_level V g)"
      using file_lock_level [OF st l fl, of g] by (auto simp: jvm_level_def V') }
  { assume l: "l \<in> {0, 1}" and le: "l \<le> jvm_level V f" and step: "jUnlock V f l = (V', rc)"
    have le': "l \<noteq> 0 \<Longrightarrow> 1 \<le> level_of (fileState (locks V) (NAME V f)) f"
      using le l by (auto simp: jvm_level_def)
    show "jvm_ok V' \<and> same_file V' = same_file V"
      using step l st le' by (auto simp: jUnlock_eq jvm_ok_def fun_eq_iff remove_level_ok lower_level_ok)
    show "l \<le> jvm_level V' f \<and> (\<forall>g. g \<noteq> f \<longrightarrow> jvm_level V' g = jvm_level V g)"
      using step l by (auto simp: jUnlock_eq jvm_level_def level_of_put level_of_remove) }
  assume same: "same_file V f g" and ne: "f \<noteq> g"
  note fo = st [of "NAME V g", unfolded file_ok_def]
  { assume "2 \<le> jvm_level V f"
    then show "jvm_level V g < 2" using fo same ne by (simp add: jvm_level_def) }
  { assume "4 \<le> jvm_level V f"
    moreover have "level_of (fileState (locks V) (NAME V g)) f \<in> {0, 1, 2, 4}" using fo by blast
    ultimately have "level_of (fileState (locks V) (NAME V g)) f = 4" using same by (auto simp: jvm_level_def)
    then show "jvm_level V g \<le> 0" using fo same ne by (simp add: jvm_level_def) }
qed

abbreviation unlocked :: "'h jvmvfs \<Rightarrow> bool" where
  "unlocked V \<equiv> locks V = new_jvm_locks"

lemma jvm_start: "unlocked V \<Longrightarrow> jvm_ok V \<and> (\<forall>f. 0 \<le> jvm_level V f)"
  by (simp add: jvm_ok_def jvm_level_def fileState_def new_jvm_locks_def file_ok_new level_of_new)

section \<open>Waiting\<close>

text \<open>The milliseconds slept before attempt \<open>n\<close> when the timeout does not cut in.\<close>

definition prior_ms :: "int \<Rightarrow> int" where
  "prior_ms n = (if n < 12 then totals ! nat n else 228 + 100 * (n - 11))"

lemma nat_upto_12:
  fixes n :: int
  assumes "0 \<le> n" and "n < 12"
  shows "n \<in> {0, 1, 2, 3, 4, 5, 6, 7, 8, 9, 10, 11}"
  using assms by (simp; presburger)

lemma prior_step:
  assumes "0 \<le> n"
  shows "prior_ms (n + 1) = prior_ms n + (if n < 12 then delays ! nat n else 100)" and "n \<le> prior_ms n"
proof -
  have "n < 12 \<Longrightarrow> prior_ms (n + 1) = prior_ms n + delays ! nat n \<and> n \<le> prior_ms n"
    using nat_upto_12 [OF assms] by (auto simp: prior_ms_def totals_def delays_def)
  then show "prior_ms (n + 1) = prior_ms n + (if n < 12 then delays ! nat n else 100)" "n \<le> prior_ms n"
    by (auto simp: prior_ms_def)
qed

lemma delays_pos: "0 \<le> n \<Longrightarrow> n < 12 \<Longrightarrow> 0 < delays ! nat n"
  using nat_upto_12 [of n] by (auto simp: delays_def)

lemma callback_eq:
  assumes "0 \<le> n"
  shows "sqliteDefaultBusyCallback tmout n =
    (if tmout \<le> prior_ms n then (0, 0) else (1, (min tmout (prior_ms (n + 1)) - prior_ms n) * 1000))"
proof -
  let ?d = "if n < 12 then delays ! nat n else 100"
  have "sqliteDefaultBusyCallback tmout n =
    (if prior_ms n + ?d > tmout then if tmout - prior_ms n \<le> 0 then (0, 0) else (1, (tmout - prior_ms n) * 1000)
     else (1, ?d * 1000))"
    by (simp add: sqliteDefaultBusyCallback_def prior_ms_def Let_def) (simp add: delays_def totals_def)
  moreover have "0 < ?d" using delays_pos assms by simp
  ultimately show ?thesis using prior_step(1) [OF assms] by (simp add: min_def)
qed

text \<open>A connection whose handler is the timeout callback, after \<open>nBusy\<close> retries.\<close>

definition waiting :: "int \<Rightarrow> busy_db \<Rightarrow> bool" where
  "waiting ms db \<longleftrightarrow> xBusyHandler db = Some sqliteDefaultBusyCallback \<and> busyTimeout db = ms \<and>
     0 \<le> nBusy db \<and> slept db = 1000 * min ms (prior_ms (nBusy db))"

lemma invoke_waiting:
  assumes "waiting ms db"
  shows "if ms \<le> prior_ms (nBusy db)
    then snd (sqlite3InvokeBusyHandler db) = 0 \<and> slept (fst (sqlite3InvokeBusyHandler db)) = 1000 * ms
    else snd (sqlite3InvokeBusyHandler db) = 1 \<and> waiting ms (fst (sqlite3InvokeBusyHandler db)) \<and>
      nBusy (fst (sqlite3InvokeBusyHandler db)) = nBusy db + 1"
  using assms by (auto simp: waiting_def sqlite3InvokeBusyHandler_def callback_eq Let_def min_def)

lemma wait_terminates:
  assumes "waiting ms (snd w)"
  shows "\<exists>w' p' rc. pager_wait_on_lock (with_db xLock) (btreeInvokeBusyHandler others) w p l = Some (w', p', rc) \<and>
    slept (snd w') \<le> 1000 * ms \<and> (rc = SQLITE_BUSY \<longrightarrow> slept (snd w') = 1000 * ms)"
  using assms
proof (induction "nat (ms - nBusy (snd w))" arbitrary: w p rule: less_induct)
  case less
  obtain w1 p1 rc1 where step: "pagerLockDb (with_db xLock) w p l = (w1, p1, rc1)" by (metis prod_cases3)
  have db: "snd w1 = snd w"
    using step by (auto simp: pagerLockDb_def sqlite3OsLock_def with_db_def Let_def split: if_splits prod.splits)
  note inv = invoke_waiting [OF less.prems]
  obtain db2 again where h: "sqlite3InvokeBusyHandler (snd w) = (db2, again)" by (metis surj_pair)
  have b: "btreeInvokeBusyHandler others w1 = ((others (fst w1), db2), again)"
    by (simp add: btreeInvokeBusyHandler_def db h)
  show ?case
  proof (cases "rc1 = SQLITE_BUSY \<and> again \<noteq> 0")
    case True
    with inv h have n: "\<not> ms \<le> prior_ms (nBusy (snd w))" "waiting ms db2" "nBusy db2 = nBusy (snd w) + 1"
      by (auto split: if_splits)
    moreover have "nBusy (snd w) \<le> prior_ms (nBusy (snd w))"
      using less.prems prior_step(2) by (simp add: waiting_def)
    ultimately have "nat (ms - nBusy db2) < nat (ms - nBusy (snd w))" by simp
    then have "\<exists>w' p' rc. pager_wait_on_lock (with_db xLock) (btreeInvokeBusyHandler others) (others (fst w1), db2) p1 l =
        Some (w', p', rc) \<and> slept (snd w') \<le> 1000 * ms \<and> (rc = SQLITE_BUSY \<longrightarrow> slept (snd w') = 1000 * ms)"
      using less.hyps [of "(others (fst w1), db2)" p1] n(2) by simp
    then show ?thesis using True by (subst pager_wait_on_lock.simps) (simp add: step b)
  next
    case False
    have "slept (snd w) \<le> 1000 * ms" using less.prems by (simp add: waiting_def)
    moreover obtain s1 where "w1 = (s1, snd w)" using db by (metis prod.collapse)
    ultimately show ?thesis using False inv h
      by (subst pager_wait_on_lock.simps) (auto simp: step btreeInvokeBusyHandler_def split: if_splits)
  qed
qed

section \<open>Properties\<close>

text \<open>C7: In every interleaving of lock and unlock calls by any number of pagers over the JVM lock
  table, at most one pager of a database file is above SHARED, and a pager that holds EXCLUSIVE
  is the only one with any lock on the file.\<close>

theorem pager_single_writer:
  assumes "pager_reach jLock jUnlock unlocked V P" and "NAME V f = NAME V g" and "f \<noteq> g"
    and "isOpen (P f)" "\<not> noLock (P f)" "isOpen (P g)" "\<not> noLock (P g)"
  shows "(RESERVED_LOCK \<le> eLock (P f) \<longrightarrow> eLock (P g) < RESERVED_LOCK) \<and>
    (eLock (P f) = EXCLUSIVE_LOCK \<longrightarrow> eLock (P g) = NO_LOCK)"
  by (rule jl.pager_exclusion [OF jl.pager_reach_inv [OF assms(1) jvm_start] assms(2-)])

definition idle_pagers :: "int \<Rightarrow> pager" where
  "idle_pagers f = \<lparr>fd = f, isOpen = True, eLock = NO_LOCK, noLock = False, tempFile = False, changeCountDone = False\<rparr>"

theorem pager_single_writer_witness:
  "\<exists>(V :: unit jvmvfs) P. pager_reach jLock jUnlock unlocked V P \<and> eLock (P 1) = RESERVED_LOCK \<and>
     NAME V 1 = NAME V 2 \<and> eLock (P 2) < RESERVED_LOCK"
proof -
  define V where "V = fst (jLock vfs_idle 1 2)"
  have start: "pager_reach jLock jUnlock unlocked vfs_idle idle_pagers"
    by (rule pager_start) (simp_all add: vfs_idle_def idle_pagers_def)
  have "jLock vfs_idle 1 2 = (V, 0)"
    by (simp add: V_def vfs_idle_def jLock_def jvm_lock_def file_lock_def fileState_def new_jvm_locks_def
        new_file_state_def level_of_def othersAtLeast_def)
  then have "pagerLockDb jLock vfs_idle (idle_pagers 1) 2 = (V, (idle_pagers 1)\<lparr>eLock := 2\<rparr>, 0)"
    by (simp add: pagerLockDb_def sqlite3OsLock_def idle_pagers_def)
  then have r: "pager_reach jLock jUnlock unlocked V (idle_pagers(1 := (idle_pagers 1)\<lparr>eLock := 2\<rparr>))"
    by (intro pager_lock [OF start]) (simp_all add: idle_pagers_def)
  have "NAME V 1 = NAME V 2"
    by (simp add: V_def vfs_idle_def jLock_def jvm_lock_def NAME_def split: prod.split)
  moreover from this have "eLock ((idle_pagers(1 := (idle_pagers 1)\<lparr>eLock := 2\<rparr>)) 2) < 2"
    using pager_single_writer [OF r, of 1 2] by (simp add: idle_pagers_def)
  ultimately show ?thesis using r
    by (intro exI [of _ V] exI [of _ "idle_pagers(1 := (idle_pagers 1)\<lparr>eLock := 2\<rparr>)"]) simp
qed



end
