(* ===== verification/Conn_Worker.thy ===== *)
theory Conn_Worker
  imports Prelude
begin

text \<open>
  The connection workers of \<^verbatim>\<open>extras/conn_worker.c\<close>. A worker thread owns one connection and
  serves SQL submitted through a channel in shared memory. Two channel designs are modelled,
  each as small-step functions, one step per atomic access or blocking primitive, so that any
  interleaving of the worker and its client is a sequence of steps:

  \<^item> the single-word channel (\<^verbatim>\<open>channel_t\<close>, \<^verbatim>\<open>worker_main\<close>, \<^verbatim>\<open>worker_blocking_main\<close>,
    \<^verbatim>\<open>ch_request\<close>, \<^verbatim>\<open>ch_await\<close>, \<^verbatim>\<open>ch_stop\<close>);
  \<^item> the two-address channel (\<^verbatim>\<open>bchannel_t\<close>, \<^verbatim>\<open>worker_2addr_main\<close>,
    \<^verbatim>\<open>worker_file_2addr_main\<close>) with its client \<^verbatim>\<open>SqliteWalPool.submitOnce\<close>.

  \<^verbatim>\<open>atomic_wait32\<close> blocks only when the word still has the expected value.
  \<^verbatim>\<open>atomic_notify\<close> leaves a wake-up with the address as long as fewer wake-ups are pending than
  threads are blocked there, and any thread blocked at the address may consume it; this is how
  \<^verbatim>\<open>BUILD.md\<close> section 8 describes the runtime. What \<^verbatim>\<open>sqlite3_exec\<close> does with a connection is
  the argument \<open>exec\<close>: the new connection state, the result code and the rows it delivered.
\<close>

section \<open>Row callbacks\<close>

definition is_space :: "char \<Rightarrow> bool" where
  "is_space c \<longleftrightarrow> of_char c \<in> {9 :: nat, 10, 11, 12, 13, 32}"

definition is_digit :: "char \<Rightarrow> bool" where
  "is_digit c \<longleftrightarrow> (48 :: nat) \<le> of_char c \<and> of_char c \<le> (57 :: nat)"

definition wrap64 :: "int \<Rightarrow> int" where
  "wrap64 i = (i + 2 ^ 63) mod 2 ^ 64 - 2 ^ 63"

definition digits_value :: "string \<Rightarrow> int" where
  "digits_value ds = foldl (\<lambda>n c. 10 * n + (of_char c - 48)) 0 (takeWhile is_digit ds)"

text \<open>\<^verbatim>\<open>atoll\<close>: leading white space, a sign, then digits; two's complement arithmetic.\<close>

definition atoll :: "string \<Rightarrow> int" where
  "atoll z =
     (let z = dropWhile is_space z in
      case z of
        [] \<Rightarrow> 0
      | c # cs \<Rightarrow> if c = CHR ''-'' then wrap64 (- digits_value cs)
                  else if c = CHR ''+'' then wrap64 (digits_value cs)
                  else wrap64 (digits_value z))"

type_synonym row = "string option list"

definition row_cb :: "int \<Rightarrow> row \<Rightarrow> int" where
  "row_cb result vals = (case vals of Some z # _ \<Rightarrow> atoll z | _ \<Rightarrow> result)"

record capture =
  got :: bool
  cap_result :: int
  restext :: string

definition row_cb2 :: "capture \<Rightarrow> row \<Rightarrow> capture" where
  "row_cb2 c vals =
     (if got c then c
      else case vals of
        Some z # _ \<Rightarrow> \<lparr>got = True, cap_result = atoll z, restext = take 2047 z\<rparr>
      | _ \<Rightarrow> c)"

type_synonym 'db exec_fn = "'db \<Rightarrow> string \<Rightarrow> 'db \<times> int \<times> row list"

section \<open>The two-address channel\<close>

record bchannel =
  req :: int
  done_seq :: u32
  b_rc :: int
  cap :: capture
  b_sql :: string

datatype wpc = W_Open | W_Load | W_Wait int | W_Blocked int | W_Take | W_Exec | W_Done | W_Notify | W_Exit

datatype dpc = D_Idle | D_ReadDone | D_Store | D_NotifyReq | D_Check | D_Wait | D_Blocked | D_Return
  | D_NotifyStop | D_Closed

record 'db bsys =
  chan :: bchannel
  wp :: wpc
  db :: 'db
  pend_req :: nat
  dp :: dpc
  prevDone :: u32
  pend_done :: nat
  asked :: "string list"
  replies :: "(int \<times> int \<times> string) list"

definition notify :: "bool \<Rightarrow> nat \<Rightarrow> nat" where
  "notify blocked pend = (if blocked \<and> pend = 0 then 1 else pend)"

abbreviation w_blocked :: "'db bsys \<Rightarrow> bool" where
  "w_blocked s \<equiv> (case wp s of W_Blocked _ \<Rightarrow> True | _ \<Rightarrow> False)"

text \<open>One step of \<^verbatim>\<open>worker_2addr_main\<close>; \<^const>\<open>None\<close> while it is blocked or after it returned.\<close>

definition worker_2addr_step :: "'db exec_fn \<Rightarrow> 'db bsys \<Rightarrow> 'db bsys option" where
  "worker_2addr_step exec s =
     (case wp s of
        W_Open \<Rightarrow> Some (s\<lparr>wp := W_Load\<rparr>)
      | W_Load \<Rightarrow>
          (let r = req (chan s) in
           Some (s\<lparr>wp := (if r = 1 then W_Take else if r = 3 then W_Exit else W_Wait r)\<rparr>))
      | W_Wait r \<Rightarrow> Some (s\<lparr>wp := (if req (chan s) = r then W_Blocked r else W_Load)\<rparr>)
      | W_Blocked r \<Rightarrow> (if pend_req s > 0 then Some (s\<lparr>pend_req := pend_req s - 1, wp := W_Load\<rparr>) else None)
      | W_Take \<Rightarrow> Some (s\<lparr>chan := (chan s)\<lparr>req := 0\<rparr>, wp := W_Exec\<rparr>)
      | W_Exec \<Rightarrow>
          (case exec (db s) (b_sql (chan s)) of (d, rc, rows) \<Rightarrow>
             Some (s\<lparr>chan := (chan s)\<lparr>b_rc := rc,
                        cap := foldl row_cb2 \<lparr>got = False, cap_result = 0, restext = []\<rparr> rows\<rparr>,
                      db := d, wp := W_Done\<rparr>))
      | W_Done \<Rightarrow> Some (s\<lparr>chan := (chan s)\<lparr>done_seq := done_seq (chan s) + 1\<rparr>, wp := W_Notify\<rparr>)
      | W_Notify \<Rightarrow> Some (s\<lparr>pend_done := notify (dp s = D_Blocked) (pend_done s), wp := W_Load\<rparr>)
      | W_Exit \<Rightarrow> None)"

text \<open>One step of the client inside \<^verbatim>\<open>submitOnce\<close> or \<^verbatim>\<open>close\<close>.\<close>

definition submitOnce_step :: "'db bsys \<Rightarrow> 'db bsys option" where
  "submitOnce_step s =
     (case dp s of
        D_Idle \<Rightarrow> None
      | D_ReadDone \<Rightarrow> Some (s\<lparr>prevDone := done_seq (chan s), dp := D_Store\<rparr>)
      | D_Store \<Rightarrow> Some (s\<lparr>chan := (chan s)\<lparr>req := 1\<rparr>, dp := D_NotifyReq\<rparr>)
      | D_NotifyReq \<Rightarrow> Some (s\<lparr>pend_req := notify (w_blocked s) (pend_req s), dp := D_Check\<rparr>)
      | D_Check \<Rightarrow> Some (s\<lparr>dp := (if done_seq (chan s) = prevDone s then D_Wait else D_Return)\<rparr>)
      | D_Wait \<Rightarrow> Some (s\<lparr>dp := (if done_seq (chan s) = prevDone s then D_Blocked else D_Check)\<rparr>)
      | D_Blocked \<Rightarrow> (if pend_done s > 0 then Some (s\<lparr>pend_done := pend_done s - 1, dp := D_Check\<rparr>) else None)
      | D_Return \<Rightarrow>
          Some (s\<lparr>replies := replies s @ [(b_rc (chan s), cap_result (cap (chan s)), restext (cap (chan s)))],
                  dp := D_Idle\<rparr>)
      | D_NotifyStop \<Rightarrow> Some (s\<lparr>pend_req := notify (w_blocked s) (pend_req s), dp := D_Closed\<rparr>)
      | D_Closed \<Rightarrow> None)"

definition submit :: "string \<Rightarrow> 'db bsys \<Rightarrow> 'db bsys" where
  "submit q s = s\<lparr>chan := (chan s)\<lparr>b_sql := q\<rparr>, asked := asked s @ [q], dp := D_ReadDone\<rparr>"

definition close_pool :: "'db bsys \<Rightarrow> 'db bsys" where
  "close_pool s = s\<lparr>chan := (chan s)\<lparr>req := 3\<rparr>, dp := D_NotifyStop\<rparr>"

text \<open>\<^verbatim>\<open>start_worker_2addr\<close>, with the channel memory zeroed by the client.\<close>

definition start_worker_2addr :: "'db \<Rightarrow> 'db bsys" where
  "start_worker_2addr d =
     \<lparr>chan = \<lparr>req = 0, done_seq = 0, b_rc = 0, cap = \<lparr>got = False, cap_result = 0, restext = []\<rparr>, b_sql = []\<rparr>,
      wp = W_Open, db = d, pend_req = 0, dp = D_Idle, prevDone = 0, pend_done = 0, asked = [], replies = []\<rparr>"

inductive bstep :: "'db exec_fn \<Rightarrow> 'db bsys \<Rightarrow> 'db bsys \<Rightarrow> bool" for exec where
  b_worker: "worker_2addr_step exec s = Some s' \<Longrightarrow> bstep exec s s'"
| b_client: "submitOnce_step s = Some s' \<Longrightarrow> bstep exec s s'"

inductive breach :: "'db exec_fn \<Rightarrow> 'db \<Rightarrow> 'db bsys \<Rightarrow> bool" for exec d where
  b_start: "breach exec d (start_worker_2addr d)"
| b_step: "breach exec d s \<Longrightarrow> bstep exec s s' \<Longrightarrow> breach exec d s'"
| b_submit: "breach exec d s \<Longrightarrow> dp s = D_Idle \<Longrightarrow> breach exec d (submit q s)"
| b_close: "breach exec d s \<Longrightarrow> dp s = D_Idle \<Longrightarrow> breach exec d (close_pool s)"

inductive_simps bstep_iff: "bstep exec s s'"

text \<open>The sequential meaning of a list of requests: the connection afterwards and the replies.\<close>

definition reply_of :: "int \<Rightarrow> row list \<Rightarrow> int \<times> int \<times> string" where
  "reply_of rc rows =
     (let c = foldl row_cb2 \<lparr>got = False, cap_result = 0, restext = []\<rparr> rows in (rc, cap_result c, restext c))"

fun serve :: "'db exec_fn \<Rightarrow> 'db \<Rightarrow> string list \<Rightarrow> 'db \<times> (int \<times> int \<times> string) list" where
  "serve exec d [] = (d, [])"
| "serve exec d (q # qs) =
     (case exec d q of (d', rc, rows) \<Rightarrow>
        case serve exec d' qs of (d'', out) \<Rightarrow> (d'', reply_of rc rows # out))"

section \<open>Invariant of the two-address channel\<close>

definition parked :: "wpc \<Rightarrow> bool" where
  "parked w \<longleftrightarrow> w \<in> {W_Open, W_Load, W_Wait 0, W_Blocked 0, W_Notify}"

definition outstanding :: "dpc \<Rightarrow> bool" where
  "outstanding p \<longleftrightarrow> p \<in> {D_NotifyReq, D_Check, D_Wait, D_Blocked, D_Return}"

text \<open>
  The phases of a request, by the client's and the worker's position. No wake-up is lost: a
  blocked worker with a request posted has a wake-up pending or about to be sent, and so has a
  blocked client whose request is complete.
\<close>

definition ctl_ok :: "wpc \<Rightarrow> dpc \<Rightarrow> int \<Rightarrow> u32 \<Rightarrow> u32 \<Rightarrow> nat \<Rightarrow> nat \<Rightarrow> bool" where
  "ctl_ok w p r dn pv pr pd \<longleftrightarrow>
     (pr = 0 \<or> pr = 1 \<and> w = W_Blocked 0) \<and> (pd = 0 \<or> pd = 1 \<and> p = D_Blocked) \<and>
     (p = D_Store \<longrightarrow> pv = dn) \<and>
     (if p \<in> {D_Idle, D_ReadDone, D_Store} then r = 0 \<and> parked w
      else if p \<in> {D_NotifyStop, D_Closed} then
        r = 3 \<and> (parked w \<or> w = W_Exit) \<and> (w = W_Blocked 0 \<longrightarrow> p = D_NotifyStop \<or> pr = 1)
      else if dn = pv then
        p \<noteq> D_Return \<and>
        (r = 1 \<and> (parked w \<or> w = W_Take) \<and> (w = W_Blocked 0 \<longrightarrow> p = D_NotifyReq \<or> pr = 1)
         \<or> r = 0 \<and> w \<in> {W_Exec, W_Done})
      else
        dn = pv + 1 \<and> r = 0 \<and> w \<in> {W_Notify, W_Load, W_Wait 0, W_Blocked 0} \<and>
        (p = D_Blocked \<longrightarrow> w = W_Notify \<or> pd = 1))"

definition phase_ok :: "'db bsys \<Rightarrow> bool" where
  "phase_ok s \<longleftrightarrow> ctl_ok (wp s) (dp s) (req (chan s)) (done_seq (chan s)) (prevDone s) (pend_req s) (pend_done s)"

definition last_reply :: "bchannel \<Rightarrow> int \<times> int \<times> string" where
  "last_reply c = (b_rc c, cap_result (cap c), restext (cap c))"

definition log_at ::
  "'db exec_fn \<Rightarrow> 'db \<Rightarrow> dpc \<Rightarrow> bool \<Rightarrow> string list \<Rightarrow> 'db \<Rightarrow> (int \<times> int \<times> string) list \<Rightarrow> string \<Rightarrow>
   (int \<times> int \<times> string) \<Rightarrow> bool" where
  "log_at exec d p b qs d' out q r \<longleftrightarrow>
     (if p \<in> {D_Idle, D_NotifyStop, D_Closed} then serve exec d qs = (d', out)
      else if outstanding p \<and> b then serve exec d qs = (d', out @ [r])
      else \<exists>pre. qs = pre @ [q] \<and> serve exec d pre = (d', out))"

definition log_ok :: "'db exec_fn \<Rightarrow> 'db \<Rightarrow> 'db bsys \<Rightarrow> bool" where
  "log_ok exec d s \<longleftrightarrow>
     log_at exec d (dp s) (wp s = W_Done \<or> done_seq (chan s) \<noteq> prevDone s)
       (asked s) (db s) (replies s) (b_sql (chan s)) (last_reply (chan s))"

lemma serve_snoc:
  "serve exec d (qs @ [q]) =
     (case serve exec d qs of (d', out) \<Rightarrow> case exec d' q of (d'', rc, rows) \<Rightarrow> (d'', out @ [reply_of rc rows]))"
  by (induction qs arbitrary: d) (auto split: prod.splits)

lemma word_neq_Suc: "(x :: u32) + 1 \<noteq> x" "x \<noteq> x + 1"
  by simp_all

lemma phase_start: "phase_ok (start_worker_2addr d)"
  by (simp add: phase_ok_def ctl_ok_def start_worker_2addr_def parked_def)

lemma phase_submit: "phase_ok s \<Longrightarrow> dp s = D_Idle \<Longrightarrow> phase_ok (submit q s)"
  by (simp add: phase_ok_def ctl_ok_def submit_def)

lemma phase_close: "phase_ok s \<Longrightarrow> dp s = D_Idle \<Longrightarrow> phase_ok (close_pool s)"
  by (auto simp: phase_ok_def ctl_ok_def close_pool_def)

lemmas ctl = ctl_ok_def parked_def notify_def word_neq_Suc

text \<open>The client's transitions, then the worker's.\<close>

lemma ctl_client:
  "ctl_ok w D_ReadDone r dn pv pr pd \<Longrightarrow> ctl_ok w D_Store r dn dn pr pd"
  "ctl_ok w D_Store r dn pv pr pd \<Longrightarrow> ctl_ok w D_NotifyReq 1 dn pv pr pd"
  "ctl_ok w D_NotifyReq r dn pv pr pd \<Longrightarrow> b = (w = W_Blocked 0) \<Longrightarrow> ctl_ok w D_Check r dn pv (notify b pr) pd"
  "ctl_ok w D_Check r dn dn pr pd \<Longrightarrow> ctl_ok w D_Wait r dn dn pr pd"
  "ctl_ok w D_Check r dn pv pr pd \<Longrightarrow> dn \<noteq> pv \<Longrightarrow> ctl_ok w D_Return r dn pv pr pd"
  "ctl_ok w D_Wait r dn dn pr pd \<Longrightarrow> ctl_ok w D_Blocked r dn dn pr pd"
  "ctl_ok w D_Wait r dn pv pr pd \<Longrightarrow> dn \<noteq> pv \<Longrightarrow> ctl_ok w D_Check r dn pv pr pd"
  "ctl_ok w D_Blocked r dn pv pr (Suc pd) \<Longrightarrow> ctl_ok w D_Check r dn pv pr pd"
  "ctl_ok w D_Return r dn pv pr pd \<Longrightarrow> ctl_ok w D_Idle r dn pv pr pd"
  "ctl_ok w D_NotifyStop r dn pv pr pd \<Longrightarrow> b = (w = W_Blocked 0) \<Longrightarrow> ctl_ok w D_Closed r dn pv (notify b pr) pd"
  by (auto simp: ctl split: if_splits)

lemma ctl_worker:
  "ctl_ok W_Open p r dn pv pr pd \<Longrightarrow> ctl_ok W_Load p r dn pv pr pd"
  "ctl_ok W_Load p 1 dn pv pr pd \<Longrightarrow> ctl_ok W_Take p 1 dn pv pr pd"
  "ctl_ok W_Load p 3 dn pv pr pd \<Longrightarrow> ctl_ok W_Exit p 3 dn pv pr pd"
  "ctl_ok W_Load p r dn pv pr pd \<Longrightarrow> r \<noteq> 1 \<Longrightarrow> r \<noteq> 3 \<Longrightarrow> ctl_ok (W_Wait r) p r dn pv pr pd"
  "ctl_ok (W_Wait r) p r dn pv pr pd \<Longrightarrow> ctl_ok (W_Blocked r) p r dn pv pr pd"
  "ctl_ok (W_Wait r') p r dn pv pr pd \<Longrightarrow> r \<noteq> r' \<Longrightarrow> ctl_ok W_Load p r dn pv pr pd"
  "ctl_ok (W_Blocked r') p r dn pv (Suc pr) pd \<Longrightarrow> ctl_ok W_Load p r dn pv pr pd"
  "ctl_ok W_Take p r dn pv pr pd \<Longrightarrow> ctl_ok W_Exec p 0 dn pv pr pd"
  "ctl_ok W_Exec p r dn pv pr pd \<Longrightarrow> ctl_ok W_Done p r dn pv pr pd"
  "ctl_ok W_Done p r dn pv pr pd \<Longrightarrow> ctl_ok W_Notify p r (dn + 1) pv pr pd"
  "ctl_ok W_Notify p r dn pv pr pd \<Longrightarrow> b = (p = D_Blocked) \<Longrightarrow> ctl_ok W_Load p r dn pv pr (notify b pd)"
  by (auto simp: ctl split: if_splits)

lemma w_blocked_0:
  "ctl_ok w p r dn pv pr pd \<Longrightarrow> (case w of W_Blocked _ \<Rightarrow> True | _ \<Rightarrow> False) = (w = W_Blocked 0)"
  by (cases w; cases p) (auto simp: ctl split: if_splits)

lemma phase_client:
  assumes "phase_ok s" and "submitOnce_step s = Some s'"
  shows "phase_ok s'"
  using assms w_blocked_0 [OF assms(1) [unfolded phase_ok_def]]
  by (cases "dp s") (auto simp: phase_ok_def submitOnce_step_def gr0_conv_Suc intro: ctl_client split: if_splits)

lemma phase_worker:
  assumes "phase_ok s" and "worker_2addr_step exec s = Some s'"
  shows "phase_ok s'"
  using assms
  by (cases "wp s") (auto simp: phase_ok_def worker_2addr_step_def gr0_conv_Suc Let_def intro: ctl_worker split: if_splits prod.splits)

lemma log_start: "log_ok exec d (start_worker_2addr d)"
  by (simp add: log_ok_def log_at_def start_worker_2addr_def)

lemma log_submit: "log_ok exec d s \<Longrightarrow> dp s = D_Idle \<Longrightarrow> log_ok exec d (submit q s)"
  by (simp add: log_ok_def log_at_def submit_def outstanding_def)

lemma log_close: "log_ok exec d s \<Longrightarrow> dp s = D_Idle \<Longrightarrow> log_ok exec d (close_pool s)"
  by (simp add: log_ok_def log_at_def close_pool_def)

lemma ctl_store: "ctl_ok w D_Store r dn pv pr pd \<Longrightarrow> pv = dn \<and> w \<noteq> W_Done"
  by (auto simp: ctl_ok_def parked_def)

lemma ctl_return: "ctl_ok w D_Return r dn pv pr pd \<Longrightarrow> dn \<noteq> pv"
  by (auto simp: ctl_ok_def)

lemma ctl_busy:
  assumes "ctl_ok w p r dn pv pr pd" and "w \<in> {W_Take, W_Exec, W_Done}"
  shows "outstanding p \<and> dn = pv"
proof -
  have "\<not> parked w" "w \<noteq> W_Exit" "w \<notin> {W_Notify, W_Load, W_Wait 0, W_Blocked 0}"
    using assms(2) by (auto simp: parked_def)
  with assms(1) show ?thesis by (cases p) (simp_all add: ctl_ok_def outstanding_def split: if_splits)
qed

lemma phase_facts:
  assumes "phase_ok s"
  shows "dp s = D_Store \<Longrightarrow> prevDone s = done_seq (chan s) \<and> wp s \<noteq> W_Done"
    and "dp s = D_Return \<Longrightarrow> done_seq (chan s) \<noteq> prevDone s"
    and "wp s \<in> {W_Take, W_Exec, W_Done} \<Longrightarrow> outstanding (dp s) \<and> done_seq (chan s) = prevDone s"
  using assms unfolding phase_ok_def by (metis ctl_store, metis ctl_return, metis ctl_busy)

lemma log_move:
  "log_at exec d D_ReadDone b qs d' out q r \<Longrightarrow> log_at exec d D_Store b' qs d' out q r"
  "log_at exec d D_Store b qs d' out q r \<Longrightarrow> log_at exec d D_NotifyReq False qs d' out q r"
  "log_at exec d p b qs d' out q r \<Longrightarrow> outstanding p \<Longrightarrow> outstanding p' \<Longrightarrow> log_at exec d p' b qs d' out q r"
  "log_at exec d D_Return True qs d' out q r \<Longrightarrow> log_at exec d D_Idle b qs d' (out @ [r]) q r"
  "log_at exec d D_NotifyStop b qs d' out q r \<Longrightarrow> log_at exec d D_Closed b qs d' out q r"
  by (auto simp: log_at_def outstanding_def)

lemma log_client:
  assumes "phase_ok s" and "log_ok exec d s" and "submitOnce_step s = Some s'"
  shows "log_ok exec d s'"
proof (cases "dp s")
  case D_Store
  then show ?thesis using assms phase_facts(1) [OF assms(1)] log_move(2)
    by (simp add: log_ok_def submitOnce_step_def last_reply_def) fastforce
next
  case D_Return
  then have "log_at exec d D_Return True (asked s) (db s) (replies s) (b_sql (chan s)) (last_reply (chan s))"
    using assms(2) phase_facts(2) [OF assms(1)] by (simp add: log_ok_def)
  note m = log_move(4) [OF this]
  show ?thesis using D_Return assms(3) m
    by (auto simp: log_ok_def submitOnce_step_def last_reply_def)
qed (use assms(2,3) in \<open>auto simp: log_ok_def submitOnce_step_def outstanding_def intro: log_move split: if_splits\<close>)

lemma log_worker:
  assumes "phase_ok s" and "log_ok exec d s" and "worker_2addr_step exec s = Some s'"
  shows "log_ok exec d s'"
proof (cases "wp s \<in> {W_Exec, W_Done}")
  case True
  then have o: "outstanding (dp s)" "done_seq (chan s) = prevDone s" using phase_facts(3) [OF assms(1)] by auto
  moreover from this have "dp s \<notin> {D_Idle, D_NotifyStop, D_Closed}" by (auto simp: outstanding_def)
  ultimately show ?thesis using True assms(2,3)
    by (auto simp: log_ok_def log_at_def worker_2addr_step_def last_reply_def reply_of_def serve_snoc Let_def word_neq_Suc
        split: prod.splits)
next
  case False
  then have "asked s' = asked s" "replies s' = replies s" "db s' = db s" "dp s' = dp s" "wp s' \<noteq> W_Done"
    "prevDone s' = prevDone s" "done_seq (chan s') = done_seq (chan s)" "b_sql (chan s') = b_sql (chan s)"
    "last_reply (chan s') = last_reply (chan s)"
    using assms(3) by (auto simp: worker_2addr_step_def last_reply_def Let_def split: wpc.splits if_splits)
  with False show ?thesis using assms(2) by (simp add: log_ok_def)
qed

lemma breach_ok: "breach exec d s \<Longrightarrow> phase_ok s \<and> log_ok exec d s"
proof (induction rule: breach.induct)
  case (b_step s s')
  then show ?case by (auto simp: bstep_iff intro: phase_client phase_worker log_client log_worker)
qed (auto simp: phase_start phase_submit phase_close log_start log_submit log_close)

section \<open>Progress of the two-address channel\<close>

text \<open>A bound on the steps left until the client is idle and the worker parked.\<close>

fun w_rank :: "int \<Rightarrow> nat \<Rightarrow> wpc \<Rightarrow> nat" where
  "w_rank r pr W_Open = (if r = 1 then 14 else if r = 3 then 2 else 4)"
| "w_rank r pr W_Load = (if r = 1 then 13 else if r = 3 then 1 else 3)"
| "w_rank r pr (W_Wait _) = (if r = 1 then 14 else 2)"
| "w_rank r pr (W_Blocked _) = (if r = 1 then 15 else if r = 3 then 3 else 1 + 3 * pr)"
| "w_rank r pr W_Take = 12"
| "w_rank r pr W_Exec = 11"
| "w_rank r pr W_Done = 10"
| "w_rank r pr W_Notify = (if r = 1 then 18 else if r = 3 then 6 else 8)"
| "w_rank r pr W_Exit = 0"

fun c_rank :: "bool \<Rightarrow> nat \<Rightarrow> dpc \<Rightarrow> nat" where
  "c_rank eq pd D_Idle = 0"
| "c_rank eq pd D_ReadDone = 60"
| "c_rank eq pd D_Store = 50"
| "c_rank eq pd D_NotifyReq = 30"
| "c_rank eq pd D_Check = (if eq then 13 else 2)"
| "c_rank eq pd D_Wait = (if eq then 12 else 3)"
| "c_rank eq pd D_Blocked = (if eq then 11 + 3 * pd else 4)"
| "c_rank eq pd D_Return = 1"
| "c_rank eq pd D_NotifyStop = 10"
| "c_rank eq pd D_Closed = 0"

definition rank :: "'db bsys \<Rightarrow> nat" where
  "rank s = w_rank (req (chan s)) (pend_req s) (wp s) +
     c_rank (done_seq (chan s) = prevDone s) (pend_done s) (dp s)"

lemma ctl_store_parked: "ctl_ok w D_Store r dn pv pr pd \<Longrightarrow> r = 0 \<and> parked w \<and> pv = dn"
  by (simp add: ctl_ok_def)

lemma ctl_pending: "ctl_ok w p r dn pv pr pd \<Longrightarrow> (w \<noteq> W_Blocked 0 \<longrightarrow> pr = 0) \<and> (p \<noteq> D_Blocked \<longrightarrow> pd = 0)"
  by (auto simp: ctl_ok_def)

lemma parked_rank: "parked w \<Longrightarrow> w_rank 1 pr w \<le> 18"
  by (auto simp: parked_def)

lemma notify_rank: "w_rank r (notify b pr) w \<le> w_rank r pr w + 3"
  by (cases w) (simp_all add: notify_def)

lemma rank_client:
  assumes "phase_ok s" and "submitOnce_step s = Some s'"
  shows "rank s' < rank s"
proof (cases "dp s")
  case D_Store
  then have "parked (wp s)" using assms(1) ctl_store_parked by (metis phase_ok_def)
  then show ?thesis using D_Store assms(2) parked_rank [of "wp s" "pend_req s"]
    by (auto simp: submitOnce_step_def rank_def)
next
  case D_NotifyReq
  then show ?thesis using assms(2) notify_rank [of "req (chan s)" "w_blocked s" "pend_req s" "wp s"]
    by (auto simp: submitOnce_step_def rank_def)
next
  case D_NotifyStop
  then show ?thesis using assms(2) notify_rank [of "req (chan s)" "w_blocked s" "pend_req s" "wp s"]
    by (auto simp: submitOnce_step_def rank_def)
next
  case D_Blocked
  then show ?thesis using assms(2) by (cases "pend_done s") (auto simp: submitOnce_step_def rank_def)
next
  case D_Wait
  then show ?thesis using assms(2) ctl_pending [OF assms(1) [unfolded phase_ok_def]]
    by (auto simp: submitOnce_step_def rank_def)
qed (use assms(2) in \<open>auto simp: submitOnce_step_def rank_def split: if_splits\<close>)

text \<open>What the invariant says of the request word at each position of the worker.\<close>

lemma ctl_word:
  assumes "ctl_ok w p r dn pv pr pd"
  shows "w = W_Take \<Longrightarrow> r = 1" "w \<in> {W_Exec, W_Done} \<Longrightarrow> r = 0 \<and> dn = pv"
    "w = W_Wait x \<Longrightarrow> x = 0" "w = W_Blocked x \<Longrightarrow> x = 0" "r \<in> {0, 1, 3}"
  using assms by (cases p; auto simp: ctl_ok_def parked_def split: if_splits)+

lemma rank_worker:
  assumes "phase_ok s" and "worker_2addr_step exec s = Some s'"
  shows "rank s' < rank s"
proof -
  note word = ctl_word [OF assms(1) [unfolded phase_ok_def]]
  show ?thesis
  proof (cases "wp s")
    case (W_Wait x)
    then show ?thesis using assms(2) word(3,5) ctl_pending [OF assms(1) [unfolded phase_ok_def]]
      by (auto simp: worker_2addr_step_def rank_def split: if_splits)
  next
    case (W_Blocked x)
    then show ?thesis using assms(2) by (cases "pend_req s") (auto simp: worker_2addr_step_def rank_def)
  next
    case W_Done
    then show ?thesis using assms(2) word(2)
      by (cases "dp s") (auto simp: worker_2addr_step_def rank_def word_neq_Suc)
  next
    case W_Notify
    then show ?thesis using assms(2) by (cases "dp s") (auto simp: worker_2addr_step_def rank_def notify_def)
  qed (use assms(2) word in \<open>auto simp: worker_2addr_step_def rank_def Let_def split: prod.splits if_splits\<close>)
qed

lemma rank_step: "breach exec d s \<Longrightarrow> bstep exec s s' \<Longrightarrow> rank s' < rank s"
  using breach_ok [of exec d s] by (auto simp: bstep_iff intro: rank_client rank_worker)

lemma client_stuck:
  "submitOnce_step s = None \<Longrightarrow> dp s \<in> {D_Idle, D_Closed} \<or> dp s = D_Blocked \<and> pend_done s = 0"
  by (cases "dp s") (auto simp: submitOnce_step_def split: if_splits)

lemma worker_stuck:
  "worker_2addr_step exec s = None \<Longrightarrow> wp s = W_Exit \<or> (\<exists>x. wp s = W_Blocked x) \<and> pend_req s = 0"
  by (cases "wp s") (auto simp: worker_2addr_step_def Let_def split: if_splits prod.splits)

lemma ctl_no_deadlock:
  "ctl_ok w p r dn pv pr pd \<Longrightarrow> w = W_Exit \<or> w = W_Blocked x \<and> pr = 0 \<Longrightarrow>
   p \<in> {D_Idle, D_Closed} \<or> p = D_Blocked \<and> pd = 0 \<Longrightarrow> p = D_Idle \<or> p = D_Closed \<and> w = W_Exit"
  by (auto simp: ctl_ok_def parked_def split: if_splits)

lemma stuck_quiet:
  assumes "breach exec d s" and "\<nexists>s'. bstep exec s s'"
  shows "dp s = D_Idle \<or> dp s = D_Closed \<and> wp s = W_Exit"
proof -
  have "submitOnce_step s = None" "worker_2addr_step exec s = None"
    using assms(2) unfolding bstep_iff by (meson not_None_eq)+
  then show ?thesis
    using client_stuck worker_stuck breach_ok [OF assms(1)] ctl_no_deadlock by (metis phase_ok_def)
qed

section \<open>Properties of the two-address channel\<close>



text \<open>A schedule is a list of choices: the worker's step or the client's.\<close>

fun run_steps :: "'db exec_fn \<Rightarrow> bool list \<Rightarrow> 'db bsys \<Rightarrow> 'db bsys option" where
  "run_steps exec [] s = Some s"
| "run_steps exec (b # bs) s =
     (case (if b then worker_2addr_step exec s else submitOnce_step s) of
        None \<Rightarrow> None | Some s' \<Rightarrow> run_steps exec bs s')"

lemma run_steps_reach: "breach exec d s \<Longrightarrow> run_steps exec bs s = Some s' \<Longrightarrow> breach exec d s'"
  by (induction bs arbitrary: s) (auto intro: b_step bstep.intros split: option.splits if_splits)

definition echo :: "nat exec_fn" where
  "echo d q = (d + 1, 0, [[None], [Some q], [Some ''1'']])"

definition echo_schedule :: "bool list" where
  "echo_schedule = [True, True, True, False, False, False, False, False, True, True, True, True, True, True, False, False, False]"

lemma echo_run:
  "map_option (\<lambda>s. (dp s, replies s, asked s, db s))
     (run_steps echo echo_schedule (submit ''42'' (start_worker_2addr 0))) =
   Some (D_Idle, [(0, 42, ''42'')], [''42''], 1)"
  by code_simp

lemma echo_reach:
  obtains s where "breach echo 0 s" "dp s = D_Idle" "replies s = [(0, 42, ''42'')]" "asked s = [''42'']" "db s = 1"
proof -
  obtain s where s: "run_steps echo echo_schedule (submit ''42'' (start_worker_2addr 0)) = Some s"
      "dp s = D_Idle" "replies s = [(0, 42, ''42'')]" "asked s = [''42'']" "db s = 1"
    using echo_run by (auto simp: map_option_case split: option.splits)
  have "breach echo 0 (submit ''42'' (start_worker_2addr 0))"
    by (rule b_submit [OF b_start]) (simp add: start_worker_2addr_def)
  from run_steps_reach [OF this s(1)] s(2-) show thesis by (rule that)
qed



end
