(* ===== verification/Conn_Channel.thy ===== *)
theory Conn_Channel
  imports Conn_Worker
begin

text \<open>
  The single-word channel of \<^verbatim>\<open>extras/conn_worker.c\<close>: \<^verbatim>\<open>worker_main\<close> and its client calls
  \<^verbatim>\<open>ch_request\<close>, \<^verbatim>\<open>ch_await\<close> and \<^verbatim>\<open>ch_stop\<close>, which signal both directions through one word,
  and the variant \<^verbatim>\<open>worker_blocking_main\<close> that waits without a timeout. Also the benchmark
  worker, the row callbacks and the thread test of \<^verbatim>\<open>extras/thread_shim.c\<close>.
\<close>

section \<open>The channel\<close>

record channel =
  state :: int
  c_rc :: int
  c_result :: int
  c_sql :: string
  c_dbpath :: string

datatype vpc = V_Open | V_Load | V_Wait int | V_Blocked int | V_Exec | V_Store | V_Notify | V_Exit

datatype kpc = K_Idle | K_Store | K_Notify | K_Load | K_Wait int | K_Blocked int | K_Ack

record 'db csys =
  ch :: channel
  vp :: vpc
  cdb :: 'db
  kp :: kpc
  pend :: nat
  c_asked :: "string list"
  c_replies :: "(int \<times> int) list"

definition v_blocked :: "vpc \<Rightarrow> nat" where
  "v_blocked v = (case v of V_Blocked _ \<Rightarrow> 1 | _ \<Rightarrow> 0)"

definition k_blocked :: "kpc \<Rightarrow> nat" where
  "k_blocked k = (case k of K_Blocked _ \<Rightarrow> 1 | _ \<Rightarrow> 0)"

text \<open>A notification of the shared word: the blocked threads are not told apart.\<close>

definition notify_word :: "'db csys \<Rightarrow> nat" where
  "notify_word s = (if pend s < v_blocked (vp s) + k_blocked (kp s) then pend s + 1 else pend s)"

text \<open>The connection a worker opens: the file of the channel in WAL mode, or a memory database.\<close>

definition worker_open :: "(string \<Rightarrow> 'db) \<Rightarrow> 'db exec_fn \<Rightarrow> channel \<Rightarrow> 'db" where
  "worker_open open_db exec c =
     (if c_dbpath c \<noteq> [] then fst (exec (open_db (c_dbpath c)) ''PRAGMA journal_mode=WAL'') else open_db '':memory:'')"

text \<open>
  One step of \<^verbatim>\<open>worker_main\<close> (\<open>poll\<close>: its wait has a timeout) or of \<^verbatim>\<open>worker_blocking_main\<close>
  (no timeout); \<^const>\<open>None\<close> while it is blocked with no wake-up, or after it returned.
\<close>

definition worker_main_step :: "'db exec_fn \<Rightarrow> 'db csys \<Rightarrow> 'db csys option" where
  "worker_main_step exec s =
     (case vp s of
        V_Open \<Rightarrow> Some (s\<lparr>vp := V_Load\<rparr>)
      | V_Load \<Rightarrow>
          (let x = state (ch s) in
           Some (s\<lparr>vp := (if x = 1 then V_Exec else if x = 3 then V_Exit else V_Wait x)\<rparr>))
      | V_Wait x \<Rightarrow> Some (s\<lparr>vp := (if state (ch s) = x then V_Blocked x else V_Load)\<rparr>)
      | V_Blocked x \<Rightarrow> (if pend s > 0 then Some (s\<lparr>pend := pend s - 1, vp := V_Load\<rparr>) else None)
      | V_Exec \<Rightarrow>
          (case exec (cdb s) (c_sql (ch s)) of (d, rc, rows) \<Rightarrow>
             Some (s\<lparr>ch := (ch s)\<lparr>c_rc := rc, c_result := foldl row_cb 0 rows\<rparr>, cdb := d, vp := V_Store\<rparr>))
      | V_Store \<Rightarrow> Some (s\<lparr>ch := (ch s)\<lparr>state := 2\<rparr>, vp := V_Notify\<rparr>)
      | V_Notify \<Rightarrow> Some (s\<lparr>pend := notify_word s, vp := V_Load\<rparr>)
      | V_Exit \<Rightarrow> None)"

definition worker_timeout :: "bool \<Rightarrow> 'db csys \<Rightarrow> 'db csys option" where
  "worker_timeout poll s =
     (case vp s of V_Blocked x \<Rightarrow> (if poll then Some (s\<lparr>vp := V_Load\<rparr>) else None) | _ \<Rightarrow> None)"

text \<open>One step of the client: \<^verbatim>\<open>ch_request\<close> (store, notify) followed by \<^verbatim>\<open>ch_await\<close>.\<close>

definition client_step :: "'db csys \<Rightarrow> 'db csys option" where
  "client_step s =
     (case kp s of
        K_Idle \<Rightarrow> None
      | K_Store \<Rightarrow> Some (s\<lparr>ch := (ch s)\<lparr>state := 1\<rparr>, kp := K_Notify\<rparr>)
      | K_Notify \<Rightarrow> Some (s\<lparr>pend := notify_word s, kp := K_Load\<rparr>)
      | K_Load \<Rightarrow> Some (s\<lparr>kp := (if state (ch s) = 2 then K_Ack else K_Wait (state (ch s)))\<rparr>)
      | K_Wait x \<Rightarrow> Some (s\<lparr>kp := (if state (ch s) = x then K_Blocked x else K_Load)\<rparr>)
      | K_Blocked x \<Rightarrow> (if pend s > 0 then Some (s\<lparr>pend := pend s - 1, kp := K_Load\<rparr>) else None)
      | K_Ack \<Rightarrow>
          Some (s\<lparr>ch := (ch s)\<lparr>state := 0\<rparr>, c_replies := c_replies s @ [(c_rc (ch s), c_result (ch s))], kp := K_Idle\<rparr>))"

definition client_timeout :: "bool \<Rightarrow> 'db csys \<Rightarrow> 'db csys option" where
  "client_timeout poll s =
     (case kp s of K_Blocked x \<Rightarrow> (if poll then Some (s\<lparr>kp := K_Load\<rparr>) else None) | _ \<Rightarrow> None)"

definition put_sql :: "string \<Rightarrow> 'db csys \<Rightarrow> 'db csys" where
  "put_sql q s = s\<lparr>ch := (ch s)\<lparr>c_sql := q\<rparr>, c_asked := c_asked s @ [q], kp := K_Store\<rparr>"

definition ch_stop :: "'db csys \<Rightarrow> 'db csys" where
  "ch_stop s = (let s = s\<lparr>ch := (ch s)\<lparr>state := 3\<rparr>\<rparr> in s\<lparr>pend := notify_word s\<rparr>)"

definition start_worker :: "channel \<Rightarrow> channel" where
  "start_worker c = c\<lparr>c_dbpath := [], state := 0\<rparr>"

definition start_worker_file :: "channel \<Rightarrow> string \<Rightarrow> channel" where
  "start_worker_file c path = c\<lparr>c_dbpath := take 511 path, state := 0\<rparr>"

definition spawned :: "channel \<Rightarrow> 'db \<Rightarrow> 'db csys" where
  "spawned c d = \<lparr>ch = c, vp = V_Open, cdb = d, kp = K_Idle, pend = 0, c_asked = [], c_replies = []\<rparr>"

inductive vstep :: "'db exec_fn \<Rightarrow> bool \<Rightarrow> 'db csys \<Rightarrow> 'db csys \<Rightarrow> bool" for exec poll where
  v_step: "worker_main_step exec s = Some s' \<Longrightarrow> vstep exec poll s s'"
| v_timeout: "worker_timeout poll s = Some s' \<Longrightarrow> vstep exec poll s s'"

inductive kstep :: "bool \<Rightarrow> 'db csys \<Rightarrow> 'db csys \<Rightarrow> bool" for poll where
  k_step: "client_step s = Some s' \<Longrightarrow> kstep poll s s'"
| k_timeout: "client_timeout poll s = Some s' \<Longrightarrow> kstep poll s s'"

inductive_simps vstep_iff: "vstep exec poll s s'"
inductive_simps kstep_iff: "kstep poll s s'"

inductive creach :: "'db exec_fn \<Rightarrow> bool \<Rightarrow> 'db \<Rightarrow> 'db csys \<Rightarrow> bool" for exec poll d where
  c_start: "state c = 0 \<Longrightarrow> creach exec poll d (spawned c d)"
| c_worker: "creach exec poll d s \<Longrightarrow> vstep exec poll s s' \<Longrightarrow> creach exec poll d s'"
| c_client: "creach exec poll d s \<Longrightarrow> kstep poll s s' \<Longrightarrow> creach exec poll d s'"
| c_put: "creach exec poll d s \<Longrightarrow> kp s = K_Idle \<Longrightarrow> creach exec poll d (put_sql q s)"

section \<open>The benchmark worker and the thread test\<close>

text \<open>
  \<^verbatim>\<open>bench_main\<close>: \<open>n\<close> statements on an open connection, stopping at the first failure. The result
  is the connection, the last value read and the recorded code (\<^const>\<open>None\<close>: none recorded).
\<close>

fun bench_loop :: "'db exec_fn \<Rightarrow> int \<Rightarrow> nat \<Rightarrow> 'db \<Rightarrow> int \<Rightarrow> 'db \<times> int \<times> int option" where
  "bench_loop exec mode 0 d res = (d, res, None)"
| "bench_loop exec mode (Suc n) d res =
     (case exec d (if mode = 0 then ''INSERT INTO t(tag) VALUES (7)'' else ''SELECT count(*) FROM t'') of
        (d, rc, rows) \<Rightarrow>
          let res = (if mode = 0 then res else foldl row_cb res rows) in
          if rc \<noteq> SQLITE_OK then (d, res, Some rc) else bench_loop exec mode n d res)"

record bench =
  b_done :: int
  b_mode :: int
  b_count :: int
  bench_rc :: int
  b_result :: int
  b_path :: string

definition bench_main :: "(string \<Rightarrow> 'db option) \<Rightarrow> 'db exec_fn \<Rightarrow> bench \<Rightarrow> bench" where
  "bench_main open_db exec b =
     (case open_db (b_path b) of
        None \<Rightarrow> b\<lparr>bench_rc := 999, b_done := 1\<rparr>
      | Some d \<Rightarrow>
         (case bench_loop exec (b_mode b) (nat (b_count b)) (fst (exec d ''PRAGMA journal_mode=WAL'')) (b_result b) of
            (_, res, err) \<Rightarrow>
              b\<lparr>b_result := res, bench_rc := (case err of Some rc \<Rightarrow> rc | None \<Rightarrow> bench_rc b), b_done := 1\<rparr>))"

definition worker_fn :: "int \<Rightarrow> int" where
  "worker_fn box = (box + 100 + 2 ^ 31) mod 2 ^ 32 - 2 ^ 31"

definition spawn_add :: "int \<Rightarrow> int \<Rightarrow> int \<Rightarrow> int" where
  "spawn_add pthread_create pthread_join x =
     (if pthread_create \<noteq> 0 then -1 else let box = worker_fn x in if pthread_join \<noteq> 0 then -2 else box)"

section \<open>What the row callbacks keep\<close>

definition first_column :: "row list \<Rightarrow> string list" where
  "first_column rows = [z. Some z \<leftarrow> map hd (filter (\<lambda>r. r \<noteq> []) rows)]"

lemma first_column_simps [simp]:
  "first_column [] = []" "first_column ([] # rs) = first_column rs"
  "first_column ((None # r) # rs) = first_column rs" "first_column ((Some z # r) # rs) = z # first_column rs"
  by (simp_all add: first_column_def)

lemma row_cases:
  fixes r :: row
  obtains "r = []" | r' where "r = None # r'" | z r' where "r = Some z # r'"
  by (metis list.exhaust not_None_eq)

lemma row_cb_last:
  "foldl row_cb x rows = (if first_column rows = [] then x else atoll (last (first_column rows)))"
proof (induction rows arbitrary: x)
  case (Cons r rows)
  then show ?case by (cases r rule: row_cases) (simp_all add: row_cb_def)
qed simp

lemma row_cb2_simps:
  "row_cb2 c [] = c" "row_cb2 c (None # r) = c"
  "row_cb2 c (Some z # r) = (if got c then c else \<lparr>got = True, cap_result = atoll z, restext = take 2047 z\<rparr>)"
  by (simp_all add: row_cb2_def)

lemma row_cb2_kept: "got c \<Longrightarrow> foldl row_cb2 c rows = c"
  by (induction rows) (simp_all add: row_cb2_def)

lemma row_cb2_first:
  "\<not> got c \<Longrightarrow> foldl row_cb2 c rows =
     (case first_column rows of [] \<Rightarrow> c | z # _ \<Rightarrow> \<lparr>got = True, cap_result = atoll z, restext = take 2047 z\<rparr>)"
proof (induction rows arbitrary: c)
  case (Cons r rows)
  then show ?case by (cases r rule: row_cases) (simp_all add: row_cb2_simps row_cb2_kept)
qed simp

section \<open>Requests on the single-word channel\<close>

definition at_rest :: "vpc \<Rightarrow> bool" where
  "at_rest v \<longleftrightarrow> v \<in> {V_Open, V_Load, V_Notify, V_Wait 0, V_Wait 2, V_Blocked 0, V_Blocked 2}"

definition awaiting :: "kpc \<Rightarrow> bool" where
  "awaiting k \<longleftrightarrow> k \<in> {K_Notify, K_Load, K_Wait 1, K_Blocked 1}"

definition word_ok :: "vpc \<Rightarrow> kpc \<Rightarrow> int \<Rightarrow> bool" where
  "word_ok v k x \<longleftrightarrow>
     k \<in> {K_Idle, K_Store} \<and> x = 0 \<and> at_rest v \<or>
     awaiting k \<and> x = 1 \<and> (at_rest v \<or> v = V_Exec \<or> v = V_Store) \<or>
     awaiting k \<and> x = 2 \<and> at_rest v \<or>
     k = K_Ack \<and> x = 2 \<and> at_rest v"

fun serve1 :: "'db exec_fn \<Rightarrow> 'db \<Rightarrow> string list \<Rightarrow> 'db \<times> (int \<times> int) list" where
  "serve1 exec d [] = (d, [])"
| "serve1 exec d (q # qs) =
     (case exec d q of (d', rc, rows) \<Rightarrow>
        case serve1 exec d' qs of (d'', out) \<Rightarrow> (d'', (rc, foldl row_cb 0 rows) # out))"

definition clog :: "'db exec_fn \<Rightarrow> 'db \<Rightarrow> kpc \<Rightarrow> bool \<Rightarrow> string list \<Rightarrow> 'db \<Rightarrow> (int \<times> int) list \<Rightarrow> string \<Rightarrow> int \<times> int \<Rightarrow> bool" where
  "clog exec d k b qs d' out q r \<longleftrightarrow>
     (if k = K_Idle then serve1 exec d qs = (d', out)
      else if k \<noteq> K_Store \<and> b then serve1 exec d qs = (d', out @ [r])
      else \<exists>pre. qs = pre @ [q] \<and> serve1 exec d pre = (d', out))"

definition cinv :: "'db exec_fn \<Rightarrow> 'db \<Rightarrow> 'db csys \<Rightarrow> bool" where
  "cinv exec d s \<longleftrightarrow> word_ok (vp s) (kp s) (state (ch s)) \<and>
     clog exec d (kp s) (vp s = V_Store \<or> state (ch s) = 2) (c_asked s) (cdb s) (c_replies s)
       (c_sql (ch s)) (c_rc (ch s), c_result (ch s))"

lemma serve1_snoc:
  "serve1 exec d (qs @ [q]) =
     (case serve1 exec d qs of (d', out) \<Rightarrow> case exec d' q of (d'', rc, rows) \<Rightarrow> (d'', out @ [(rc, foldl row_cb 0 rows)]))"
  by (induction qs arbitrary: d) (auto split: prod.splits)

lemma word_client:
  "word_ok v K_Store x \<Longrightarrow> word_ok v K_Notify 1 \<and> v \<noteq> V_Store \<and> x = 0"
  "word_ok v K_Notify x \<Longrightarrow> word_ok v K_Load x"
  "word_ok v K_Load 2 \<Longrightarrow> word_ok v K_Ack 2"
  "word_ok v K_Load x \<Longrightarrow> x \<noteq> 2 \<Longrightarrow> word_ok v (K_Wait x) x"
  "word_ok v (K_Wait x) x \<Longrightarrow> word_ok v (K_Blocked x) x"
  "word_ok v (K_Wait y) x \<Longrightarrow> word_ok v K_Load x"
  "word_ok v (K_Blocked y) x \<Longrightarrow> word_ok v K_Load x"
  "word_ok v K_Ack x \<Longrightarrow> word_ok v K_Idle 0 \<and> x = 2"
  by (auto simp: word_ok_def awaiting_def at_rest_def)

lemma word_worker:
  "word_ok V_Open k x \<Longrightarrow> word_ok V_Load k x"
  "word_ok V_Load k 1 \<Longrightarrow> word_ok V_Exec k 1"
  "word_ok V_Load k x \<Longrightarrow> x \<noteq> 3"
  "word_ok V_Load k x \<Longrightarrow> x \<noteq> 1 \<Longrightarrow> word_ok (V_Wait x) k x"
  "word_ok (V_Wait x) k x \<Longrightarrow> word_ok (V_Blocked x) k x"
  "word_ok (V_Wait y) k x \<Longrightarrow> word_ok V_Load k x"
  "word_ok (V_Blocked y) k x \<Longrightarrow> word_ok V_Load k x"
  "word_ok V_Exec k x \<Longrightarrow> word_ok V_Store k x \<and> x = 1 \<and> awaiting k"
  "word_ok V_Store k x \<Longrightarrow> word_ok V_Notify k 2 \<and> x = 1"
  "word_ok V_Notify k x \<Longrightarrow> word_ok V_Load k x"
  by (auto simp: word_ok_def awaiting_def at_rest_def)

lemma clog_move:
  "clog exec d K_Store b qs d' out q r \<Longrightarrow> clog exec d K_Notify False qs d' out q r"
  "clog exec d k b qs d' out q r \<Longrightarrow> k \<noteq> K_Store \<Longrightarrow> k \<noteq> K_Idle \<Longrightarrow> k' \<noteq> K_Store \<Longrightarrow> k' \<noteq> K_Idle \<Longrightarrow>
    clog exec d k' b qs d' out q r"
  "clog exec d K_Ack True qs d' out q r \<Longrightarrow> clog exec d K_Idle b qs d' (out @ [r]) q r"
  by (auto simp: clog_def)

lemma cinv_client:
  assumes "cinv exec d s" and "kstep poll s s'"
  shows "cinv exec d s'"
proof -
  note w = assms(1) [unfolded cinv_def, THEN conjunct1] and l = assms(1) [unfolded cinv_def, THEN conjunct2]
  have "client_step s = Some s' \<or> client_timeout poll s = Some s'" using assms(2) by (simp add: kstep_iff)
  then show ?thesis
  proof (cases "kp s")
    case K_Store
    then show ?thesis using assms(2) w l word_client(1) clog_move(1)
      by (fastforce simp: cinv_def kstep_iff client_step_def client_timeout_def)
  next
    case K_Ack
    then have "clog exec d K_Ack True (c_asked s) (cdb s) (c_replies s) (c_sql (ch s)) (c_rc (ch s), c_result (ch s))"
      using w l word_client(8) by fastforce
    from K_Ack assms(2) clog_move(3) [OF this] show ?thesis using w word_client(8)
      by (auto simp: cinv_def kstep_iff client_step_def client_timeout_def)
  qed (use w l in \<open>auto simp: cinv_def client_step_def client_timeout_def intro: word_client clog_move(2) split: if_splits\<close>)
qed

lemma cinv_worker:
  assumes "cinv exec d s" and "vstep exec poll s s'"
  shows "cinv exec d s'"
proof -
  note w = assms(1) [unfolded cinv_def, THEN conjunct1] and l = assms(1) [unfolded cinv_def, THEN conjunct2]
  have step: "worker_main_step exec s = Some s' \<or> worker_timeout poll s = Some s'" using assms(2) by (simp add: vstep_iff)
  then show ?thesis
  proof (cases "vp s")
    case V_Exec
    then have "awaiting (kp s)" "state (ch s) = 1" using w word_worker(8) by auto
    moreover from this have "kp s \<noteq> K_Idle" "kp s \<noteq> K_Store" by (auto simp: awaiting_def)
    ultimately show ?thesis using V_Exec step w l word_worker(8)
      by (auto simp: cinv_def worker_main_step_def worker_timeout_def clog_def serve1_snoc split: prod.splits)
  next
    case V_Store
    then show ?thesis using step w l word_worker(9)
      by (auto simp: cinv_def worker_main_step_def worker_timeout_def)
  next
    case V_Load
    then show ?thesis using step w l word_worker(2,3,4)
      by (auto simp: cinv_def worker_main_step_def worker_timeout_def Let_def split: if_splits)
  qed (use w l in \<open>auto simp: cinv_def worker_main_step_def worker_timeout_def intro: word_worker split: if_splits\<close>)
qed

lemma cinv_start: "state c = 0 \<Longrightarrow> cinv exec d (spawned c d)"
  by (simp add: cinv_def spawned_def word_ok_def at_rest_def clog_def)

lemma cinv_put: "cinv exec d s \<Longrightarrow> kp s = K_Idle \<Longrightarrow> cinv exec d (put_sql q s)"
  by (simp add: cinv_def put_sql_def word_ok_def awaiting_def clog_def)

lemma creach_inv: "creach exec poll d s \<Longrightarrow> cinv exec d s"
  by (induction rule: creach.induct) (blast intro: cinv_start cinv_put cinv_client cinv_worker)+

section \<open>Stopping\<close>

text \<open>A worker that has read a request and then finds the word overwritten does not see the stop.\<close>

definition stop_overwritten :: "'db csys \<Rightarrow> bool" where
  "stop_overwritten s \<longleftrightarrow>
     vp s \<in> {V_Exec, V_Store} \<or> state (ch s) = 2 \<and> vp s \<in> {V_Notify, V_Load, V_Wait 2, V_Blocked 2}"

lemma stop_overwritten_step: "stop_overwritten s \<Longrightarrow> vstep exec poll s s' \<Longrightarrow> stop_overwritten s'"
  by (cases "vp s")
    (auto simp: stop_overwritten_def vstep_iff worker_main_step_def worker_timeout_def split: if_splits prod.splits)

lemma stop_overwritten_stays: "(vstep exec poll)\<^sup>*\<^sup>* s s' \<Longrightarrow> stop_overwritten s \<Longrightarrow> stop_overwritten s'"
  by (induction rule: rtranclp_induct) (auto intro: stop_overwritten_step)

text \<open>The same race on the two-address channel, at the point where the request is consumed.\<close>

inductive wstep :: "'db exec_fn \<Rightarrow> 'db bsys \<Rightarrow> 'db bsys \<Rightarrow> bool" for exec where
  w_step: "worker_2addr_step exec s = Some s' \<Longrightarrow> wstep exec s s'"

inductive_simps wstep_iff: "wstep exec s s'"

definition stop_consumed :: "'db bsys \<Rightarrow> bool" where
  "stop_consumed s \<longleftrightarrow>
     wp s = W_Take \<or> req (chan s) = 0 \<and> wp s \<in> {W_Exec, W_Done, W_Notify, W_Load, W_Wait 0, W_Blocked 0}"

lemma stop_consumed_step: "stop_consumed s \<Longrightarrow> wstep exec s s' \<Longrightarrow> stop_consumed s'"
  by (cases "wp s") (auto simp: stop_consumed_def wstep_iff worker_2addr_step_def split: if_splits prod.splits)

lemma stop_consumed_stays: "(wstep exec)\<^sup>*\<^sup>* s s' \<Longrightarrow> stop_consumed s \<Longrightarrow> stop_consumed s'"
  by (induction rule: rtranclp_induct) (auto intro: stop_consumed_step)

text \<open>Schedules of the single-word channel: the worker's step or the client's.\<close>

fun c_run :: "'db exec_fn \<Rightarrow> bool list \<Rightarrow> 'db csys \<Rightarrow> 'db csys option" where
  "c_run exec [] s = Some s"
| "c_run exec (b # bs) s =
     (case (if b then worker_main_step exec s else client_step s) of None \<Rightarrow> None | Some s' \<Rightarrow> c_run exec bs s')"

lemma c_run_reach: "creach exec poll d s \<Longrightarrow> c_run exec bs s = Some s' \<Longrightarrow> creach exec poll d s'"
  by (induction bs arbitrary: s)
    (auto intro: c_worker c_client vstep.intros kstep.intros split: option.splits if_splits)

definition idle_channel :: channel where
  "idle_channel = \<lparr>state = 0, c_rc = 0, c_result = 0, c_sql = [], c_dbpath = []\<rparr>"

lemma theft_run:
  "\<exists>s. c_run exec [True, True, True, False, False, False, False, False, False, False]
      (put_sql q (spawned idle_channel d)) = Some s \<and>
     vp s = V_Blocked 0 \<and> kp s = K_Blocked 1 \<and> pend s = 0 \<and> state (ch s) = 1 \<and> c_replies s = []"
  by (simp add: put_sql_def spawned_def idle_channel_def worker_main_step_def client_step_def notify_word_def
      v_blocked_def k_blocked_def)

section \<open>Properties\<close>

text \<open>C33: On the single-word channel too, with or without timeouts and in every interleaving, an idle
  client has received the replies of its requests executed one after the other.\<close>

theorem single_word_sequential:
  assumes "creach exec poll d s" and "kp s = K_Idle"
  shows "serve1 exec d (c_asked s) = (cdb s, c_replies s)"
  using creach_inv [OF assms(1)] assms(2) by (simp add: cinv_def clog_def)

theorem single_word_sequential_witness: "serve1 echo 0 [''42''] = (1, [(0, 1)])"
proof -
  have "map_option (\<lambda>s. (kp s, c_replies s, c_asked s, cdb s))
     (c_run echo [True, False, False, True, False, False, True, True, True, False, False, False]
       (put_sql ''42'' (spawned idle_channel 0))) = Some (K_Idle, [(0, 1)], [''42''], 1)"
    by code_simp
  then obtain s where s: "c_run echo [True, False, False, True, False, False, True, True, True, False, False, False]
       (put_sql ''42'' (spawned idle_channel 0)) = Some s"
    "kp s = K_Idle" "c_replies s = [(0, 1)]" "c_asked s = [''42'']" "cdb s = 1"
    by (auto simp: map_option_case split: option.splits)
  have "creach echo True 0 (put_sql ''42'' (spawned idle_channel 0))"
    by (rule c_put [OF c_start]) (simp_all add: idle_channel_def spawned_def)
  from single_word_sequential [OF c_run_reach [OF this s(1)] s(2)] s(3-) show ?thesis by simp
qed

text \<open>C35: A stop request that arrives while the worker executes a statement is lost: the worker's
  completion store overwrites it, and no continuation of the worker alone ever returns. The same
  holds for the two-address worker between reading and consuming a request.\<close>

theorem stop_lost:
  assumes "vp s \<in> {V_Exec, V_Store}" and "(vstep exec poll)\<^sup>*\<^sup>* (ch_stop s) s'"
    and "wp t = W_Take" and "(wstep exec)\<^sup>*\<^sup>* (close_pool t) t'"
  shows "vp s' \<noteq> V_Exit \<and> wp t' \<noteq> W_Exit"
  using stop_overwritten_stays [OF assms(2)] stop_consumed_stays [OF assms(4)] assms(1,3)
  by (auto simp: ch_stop_def close_pool_def Let_def stop_overwritten_def stop_consumed_def)

theorem stop_lost_witness:
  "\<exists>s' t'. (vstep echo True)\<^sup>*\<^sup>* (ch_stop ((spawned idle_channel 0)\<lparr>vp := V_Store\<rparr>)) s' \<and> vp s' = V_Notify \<and>
     vp s' \<noteq> V_Exit \<and> wp t' \<noteq> W_Exit \<and> (wstep echo)\<^sup>*\<^sup>* (close_pool ((start_worker_2addr 0)\<lparr>wp := W_Take\<rparr>)) t'"
proof -
  let ?s = "(spawned idle_channel (0 :: nat))\<lparr>vp := V_Store\<rparr>" and ?t = "(start_worker_2addr (0 :: nat))\<lparr>wp := W_Take\<rparr>"
  define s' where "s' = the (worker_main_step echo (ch_stop ?s))"
  have "vstep echo True (ch_stop ?s) s'" "vp s' = V_Notify"
    by (auto simp: s'_def vstep_iff worker_main_step_def ch_stop_def Let_def)
  then have v: "(vstep echo True)\<^sup>*\<^sup>* (ch_stop ?s) s'" "vp s' = V_Notify" by auto
  have "vp s' \<noteq> V_Exit \<and> wp (close_pool ?t) \<noteq> W_Exit"
    by (rule stop_lost [OF _ v(1) _ rtranclp.rtrancl_refl]) simp_all
  then show ?thesis using v by blast
qed

text \<open>C34: Without timeouts the single-word channel deadlocks: there is a reachable state in which the
  request is posted, the client has consumed the wake-up meant for the worker, both are blocked
  on the word, and neither can take a step.\<close>

theorem single_word_deadlock:
  "\<exists>s. creach exec False d s \<and> state (ch s) = 1 \<and> kp s \<noteq> K_Idle \<and> c_replies s = [] \<and>
     (\<nexists>s'. vstep exec False s s') \<and> (\<nexists>s'. kstep False s s')"
proof -
  obtain s where s: "c_run exec [True, True, True, False, False, False, False, False, False, False]
      (put_sql [] (spawned idle_channel d)) = Some s"
    and st: "vp s = V_Blocked 0" "kp s = K_Blocked 1" "pend s = 0" "state (ch s) = 1" "c_replies s = []"
    using theft_run [of exec "[]" d] by blast
  have "creach exec False d (put_sql [] (spawned idle_channel d))"
    by (rule c_put [OF c_start]) (simp_all add: idle_channel_def spawned_def)
  then have "creach exec False d s" using s by (rule c_run_reach)
  with st show ?thesis
    by (auto simp: vstep_iff kstep_iff worker_main_step_def worker_timeout_def client_step_def client_timeout_def)
qed

text \<open>The row callback of the two-address worker keeps the first row whose first column is not
  NULL, which need not be the first row, and that of the single-word worker the last such row;
  the text is cut at 2047 bytes.\<close>

theorem row_callbacks_keep:
  "foldl row_cb 0 rows = (case rev (first_column rows) of [] \<Rightarrow> 0 | z # _ \<Rightarrow> atoll z) \<and>
   foldl row_cb2 \<lparr>got = False, cap_result = 0, restext = []\<rparr> rows =
     (case first_column rows of
        [] \<Rightarrow> \<lparr>got = False, cap_result = 0, restext = []\<rparr>
      | z # _ \<Rightarrow> \<lparr>got = True, cap_result = atoll z, restext = take 2047 z\<rparr>)"
  by (cases "first_column rows" rule: rev_cases) (simp_all add: row_cb_last row_cb2_first)

end
