(* ===== verification/Wal_Frame.thy ===== *)
theory Wal_Frame
  imports Varint
begin

text \<open>
  The write-ahead log as bytes (\<^verbatim>\<open>wal.c\<close>): the checksum, frame headers, the log header, and the
  scan of a log file during recovery. The target is little endian, so \<^verbatim>\<open>SQLITE_BIGENDIAN\<close> is 0
  and 32-bit words are loaded little endian. A log file is its list of bytes.
\<close>

section \<open>Checksums\<close>

definition BYTESWAP32 :: "u32 \<Rightarrow> u32" where
  "BYTESWAP32 x = push_bit 24 (x AND 0x000000FF) + push_bit 8 (x AND 0x0000FF00)
     + drop_bit 8 (x AND 0x00FF0000) + drop_bit 24 (x AND 0xFF000000)"

definition load32 :: "u8 \<Rightarrow> u8 \<Rightarrow> u8 \<Rightarrow> u8 \<Rightarrow> u32" where
  "load32 a b c d = ucast a OR push_bit 8 (ucast b) OR push_bit 16 (ucast c) OR push_bit 24 (ucast d)"

fun words_of :: "bytes \<Rightarrow> u32 list" where
  "words_of (a # b # c # d # r) = load32 a b c d # words_of r"
| "words_of _ = []"

text \<open>The three loops; the caller passes a positive multiple of eight bytes.\<close>

fun cksum_swapped :: "u32 list \<Rightarrow> u32 \<times> u32 \<Rightarrow> u32 \<times> u32" where
  "cksum_swapped (x # y # r) (s1, s2) =
     (let s1 = s1 + (BYTESWAP32 x + s2); s2 = s2 + (BYTESWAP32 y + s1) in cksum_swapped r (s1, s2))"
| "cksum_swapped _ s = s"

fun cksum_pairs :: "u32 list \<Rightarrow> u32 \<times> u32 \<Rightarrow> u32 \<times> u32" where
  "cksum_pairs (x # y # r) (s1, s2) =
     (let s1 = s1 + (x + s2); s2 = s2 + (y + s1) in cksum_pairs r (s1, s2))"
| "cksum_pairs _ s = s"

fun cksum_unrolled :: "u32 list \<Rightarrow> u32 \<times> u32 \<Rightarrow> u32 \<times> u32" where
  "cksum_unrolled (x0 # x1 # x2 # x3 # x4 # x5 # x6 # x7 # x8 # x9 # x10 # x11 # x12 # x13 # x14 # x15 # r) (s1, s2) =
     (let s1 = s1 + (x0 + s2); s2 = s2 + (x1 + s1);
          s1 = s1 + (x2 + s2); s2 = s2 + (x3 + s1);
          s1 = s1 + (x4 + s2); s2 = s2 + (x5 + s1);
          s1 = s1 + (x6 + s2); s2 = s2 + (x7 + s1);
          s1 = s1 + (x8 + s2); s2 = s2 + (x9 + s1);
          s1 = s1 + (x10 + s2); s2 = s2 + (x11 + s1);
          s1 = s1 + (x12 + s2); s2 = s2 + (x13 + s1);
          s1 = s1 + (x14 + s2); s2 = s2 + (x15 + s1)
      in cksum_unrolled r (s1, s2))"
| "cksum_unrolled _ s = s"

definition walChecksumBytes :: "bool \<Rightarrow> bytes \<Rightarrow> (u32 \<times> u32) option \<Rightarrow> u32 \<times> u32" where
  "walChecksumBytes nativeCksum a aIn =
     (let s = (case aIn of Some s \<Rightarrow> s | None \<Rightarrow> (0, 0)) in
      if \<not> nativeCksum then cksum_swapped (words_of a) s
      else if length a mod 64 = 0 then cksum_unrolled (words_of a) s
      else cksum_pairs (words_of a) s)"

section \<open>Frames\<close>

record wal =
  szPage :: nat
  bigEndCksum :: bool
  aFrameCksum :: "u32 \<times> u32"
  aSalt :: bytes
  mxFrame :: nat
  nPage :: u32
  iReCksum :: nat
  nCkpt :: u32

abbreviation (input) WAL_FRAME_HDRSIZE :: nat where "WAL_FRAME_HDRSIZE \<equiv> 24"
abbreviation (input) WAL_HDRSIZE :: nat where "WAL_HDRSIZE \<equiv> 32"
abbreviation (input) WAL_MAGIC :: u32 where "WAL_MAGIC \<equiv> 0x377f0682"
abbreviation (input) WAL_MAX_VERSION :: u32 where "WAL_MAX_VERSION \<equiv> 3007000"
abbreviation (input) SQLITE_CANTOPEN :: int where "SQLITE_CANTOPEN \<equiv> 14"

definition walFrameOffset :: "nat \<Rightarrow> nat \<Rightarrow> nat" where
  "walFrameOffset iFrame sz = WAL_HDRSIZE + (iFrame - 1) * (sz + WAL_FRAME_HDRSIZE)"

definition walEncodeFrame :: "wal \<Rightarrow> u32 \<Rightarrow> u32 \<Rightarrow> bytes \<Rightarrow> wal \<times> bytes" where
  "walEncodeFrame w iPage nTruncate aData =
     (let h = sqlite3Put4byte iPage @ sqlite3Put4byte nTruncate in
      if iReCksum w = 0 then
        let nativeCksum = (bigEndCksum w = False);
            ck = walChecksumBytes nativeCksum h (Some (aFrameCksum w));
            ck = walChecksumBytes nativeCksum aData (Some ck)
        in (w\<lparr>aFrameCksum := ck\<rparr>, h @ aSalt w @ sqlite3Put4byte (fst ck) @ sqlite3Put4byte (snd ck))
      else (w, h @ replicate 16 0))"

text \<open>
  Validation of a frame: \<^const>\<open>None\<close> with the state for a frame that is not valid. As in the code,
  the running checksum is overwritten before it is compared.
\<close>

definition walDecodeFrame :: "wal \<Rightarrow> bytes \<Rightarrow> bytes \<Rightarrow> wal \<times> (u32 \<times> u32) option" where
  "walDecodeFrame w aData aFrame =
     (if aSalt w \<noteq> take 8 (drop 8 aFrame) then (w, None)
      else case sqlite3Get4byte aFrame of
        None \<Rightarrow> (w, None)
      | Some pgno \<Rightarrow>
         if pgno = 0 then (w, None)
         else
           let nativeCksum = (bigEndCksum w = False);
               ck = walChecksumBytes nativeCksum (take 8 aFrame) (Some (aFrameCksum w));
               ck = walChecksumBytes nativeCksum aData (Some ck);
               w = w\<lparr>aFrameCksum := ck\<rparr>
           in if Some (fst ck) \<noteq> sqlite3Get4byte (drop 16 aFrame) \<or> Some (snd ck) \<noteq> sqlite3Get4byte (drop 20 aFrame)
              then (w, None)
              else (w, case sqlite3Get4byte (drop 4 aFrame) of Some t \<Rightarrow> Some (pgno, t) | None \<Rightarrow> None))"

section \<open>Writing a log\<close>

text \<open>A log that was never checkpointed gets a random salt, an argument here.\<close>

definition walFrames_salt :: "wal \<Rightarrow> bytes \<Rightarrow> wal" where
  "walFrames_salt w rnd = (if nCkpt w = 0 then w\<lparr>aSalt := rnd\<rparr> else w)"

text \<open>The log header written by \<^verbatim>\<open>walFrames\<close> before the first frame.\<close>

definition walFrames_header :: "wal \<Rightarrow> nat \<Rightarrow> wal \<times> bytes" where
  "walFrames_header w sz =
     (let h = sqlite3Put4byte WAL_MAGIC @ sqlite3Put4byte WAL_MAX_VERSION @ sqlite3Put4byte (of_nat sz) @
              sqlite3Put4byte (nCkpt w) @ aSalt w;
          ck = walChecksumBytes True h None
      in (w\<lparr>szPage := sz, bigEndCksum := False, aFrameCksum := ck\<rparr>,
          h @ sqlite3Put4byte (fst ck) @ sqlite3Put4byte (snd ck)))"

type_synonym frame = "u32 \<times> u32 \<times> bytes"

definition walWriteOneFrame :: "wal \<Rightarrow> frame \<Rightarrow> wal \<times> bytes" where
  "walWriteOneFrame w f =
     (case f of (pgno, nTruncate, pData) \<Rightarrow>
        case walEncodeFrame w pgno nTruncate pData of (w, aFrame) \<Rightarrow> (w, aFrame @ pData))"

text \<open>The loop of \<^verbatim>\<open>walFrames\<close> over the pages to append.\<close>

fun walFrames_loop :: "wal \<Rightarrow> frame list \<Rightarrow> wal \<times> bytes" where
  "walFrames_loop w [] = (w, [])"
| "walFrames_loop w (f # fs) =
     (case walWriteOneFrame w f of (w, b) \<Rightarrow> case walFrames_loop w fs of (w, bs) \<Rightarrow> (w, b @ bs))"

section \<open>Recovery\<close>

text \<open>
  The loop of \<^verbatim>\<open>walIndexRecover\<close> over frames \<open>iFrame\<close> to \<open>iLast\<close> (the code cuts it at the borders
  of wal-index pages). \<open>ck\<close> is the checksum after the last commit frame; the page numbers handed to
  \<^verbatim>\<open>walIndexAppend\<close> are collected. A short read ends the scan like an invalid frame.
\<close>

function recover_scan :: "bytes \<Rightarrow> nat \<Rightarrow> nat \<Rightarrow> wal \<Rightarrow> u32 \<times> u32 \<Rightarrow> u32 list \<Rightarrow> wal \<times> (u32 \<times> u32) \<times> u32 list" where
  "recover_scan file iFrame iLast w ck ps =
     (if iFrame > iLast then (w, ck, ps)
      else
        let aFrame = take (szPage w + WAL_FRAME_HDRSIZE) (drop (walFrameOffset iFrame (szPage w)) file) in
        if length aFrame < szPage w + WAL_FRAME_HDRSIZE then (w, ck, ps)
        else case walDecodeFrame w (drop WAL_FRAME_HDRSIZE aFrame) aFrame of
          (w, None) \<Rightarrow> (w, ck, ps)
        | (w, Some (pgno, nTruncate)) \<Rightarrow>
            if nTruncate \<noteq> 0
            then recover_scan file (iFrame + 1) iLast (w\<lparr>mxFrame := iFrame, nPage := nTruncate\<rparr>) (aFrameCksum w) (ps @ [pgno])
            else recover_scan file (iFrame + 1) iLast w ck (ps @ [pgno]))"
  by pat_completeness auto
termination by (relation "measure (\<lambda>(file, iFrame, iLast, w, ck, ps). iLast + 1 - iFrame)") auto

declare recover_scan.simps [simp del]

definition walIndexRecover :: "bytes \<Rightarrow> wal \<Rightarrow> wal \<times> u32 list \<times> int" where
  "walIndexRecover file w =
     (let w = w\<lparr>bigEndCksum := False, aFrameCksum := (0, 0), aSalt := replicate 8 0, mxFrame := 0, nPage := 0\<rparr> in
      if length file \<le> WAL_HDRSIZE then (w, [], SQLITE_OK)
      else case (sqlite3Get4byte file, sqlite3Get4byte (drop 4 file), sqlite3Get4byte (drop 8 file),
                 sqlite3Get4byte (drop 12 file), sqlite3Get4byte (drop 24 file), sqlite3Get4byte (drop 28 file)) of
        (Some magic, Some version, Some sz, Some ckpt, Some c1, Some c2) \<Rightarrow>
          if magic AND 0xFFFFFFFE \<noteq> WAL_MAGIC \<or> sz AND (sz - 1) \<noteq> 0 \<or> sz > 65536 \<or> sz < 512
          then (w, [], SQLITE_OK)
          else
            let w = w\<lparr>bigEndCksum := (magic AND 1 \<noteq> 0), szPage := unat sz, nCkpt := ckpt, aSalt := take 8 (drop 16 file)\<rparr>;
                ck = walChecksumBytes (bigEndCksum w = False) (take 24 file) None;
                w = w\<lparr>aFrameCksum := ck\<rparr>
            in if fst ck \<noteq> c1 \<or> snd ck \<noteq> c2 then (w\<lparr>aFrameCksum := (0, 0)\<rparr>, [], SQLITE_OK)
               else if version \<noteq> WAL_MAX_VERSION then (w, [], SQLITE_CANTOPEN)
               else
                 let iLastFrame = (length file - WAL_HDRSIZE) div (szPage w + WAL_FRAME_HDRSIZE) in
                 case recover_scan file 1 iLastFrame w (0, 0) [] of
                   (w, ck, ps) \<Rightarrow> (w\<lparr>aFrameCksum := ck\<rparr>, ps, SQLITE_OK)
      | _ \<Rightarrow> (w, [], SQLITE_OK))"

section \<open>Lemmas on checksums\<close>

lemma cksum_pairs_append: "even (length xs) \<Longrightarrow> cksum_pairs (xs @ ys) s = cksum_pairs ys (cksum_pairs xs s)"
  by (induction xs s rule: cksum_pairs.induct) (auto simp: Let_def)

lemma cksum_unrolled_eq: "length ws = 16 * k \<Longrightarrow> cksum_unrolled ws s = cksum_pairs ws s"
proof (induction k arbitrary: ws s)
  case (Suc k)
  from Suc.prems obtain x0 x1 x2 x3 x4 x5 x6 x7 x8 x9 x10 x11 x12 x13 x14 x15 r where
    ws: "ws = x0 # x1 # x2 # x3 # x4 # x5 # x6 # x7 # x8 # x9 # x10 # x11 # x12 # x13 # x14 # x15 # r"
    by (auto simp: numeral_eq_Suc length_Suc_conv)
  with Suc.prems have "length r = 16 * k" by simp
  from Suc.IH [OF this] show ?case
    by (cases s) (simp only: ws cksum_unrolled.simps cksum_pairs.simps Let_def)
qed simp

lemma length_words_of: "length (words_of a) = length a div 4"
  by (induction a rule: words_of.induct) auto

lemma words_of_append: "length a = 4 * k \<Longrightarrow> words_of (a @ b) = words_of a @ words_of b"
proof (induction k arbitrary: a)
  case (Suc k)
  then obtain p q r s a' where a: "a = p # q # r # s # a'"
    by (auto simp: numeral_eq_Suc length_Suc_conv)
  with Suc show ?case by simp
qed simp

text \<open>The unrolled branch is an optimisation only.\<close>

lemma walChecksumBytes_native:
  "walChecksumBytes True a (Some s) = cksum_pairs (words_of a) s"
proof -
  have "length a mod 64 = 0 \<Longrightarrow> length (words_of a) = 16 * (length a div 64)"
    by (auto simp: length_words_of)
  then show ?thesis by (auto simp: walChecksumBytes_def cksum_unrolled_eq)
qed

lemma BYTESWAP32_or:
  "BYTESWAP32 z = push_bit 24 (z AND 0xFF) OR push_bit 8 (z AND 0xFF00) OR drop_bit 8 (z AND 0xFF0000)
     OR drop_bit 24 (z AND 0xFF000000)"
proof -
  let ?a = "push_bit 24 (z AND 0xFF)" and ?b = "push_bit 8 (z AND 0xFF00)" and ?c = "drop_bit 8 (z AND 0xFF0000)"
    and ?d = "drop_bit 24 (z AND 0xFF000000)"
  have "?a AND ?b = 0" "(?a OR ?b) AND ?c = 0" "(?a OR ?b OR ?c) AND ?d = 0"
    by (rule word_eq_by_bits, simp add: bitwise)+
  then show ?thesis
    by (simp add: BYTESWAP32_def disjunctive_add_eq_or or.assoc)
qed

lemma BYTESWAP32_inj: "BYTESWAP32 x = BYTESWAP32 y \<longleftrightarrow> x = y"
proof -
  have "BYTESWAP32 (BYTESWAP32 z) = z" for z
    unfolding BYTESWAP32_or by (rule word_eq_by_bits, simp add: bitwise)
  then show ?thesis by metis
qed

lemma cksum_swapped_eq: "cksum_swapped ws s = cksum_pairs (map BYTESWAP32 ws) s"
  by (induction ws s rule: cksum_swapped.induct) (auto simp: Let_def)

definition cksum_order :: "bool \<Rightarrow> u32 \<Rightarrow> u32" where
  "cksum_order native x = (if native then x else BYTESWAP32 x)"

lemma walChecksumBytes_eq:
  "walChecksumBytes native a (Some s) = cksum_pairs (map (cksum_order native) (words_of a)) s"
proof (cases native)
  case True
  moreover have "map (cksum_order True) ws = ws" for ws by (simp add: cksum_order_def map_idI)
  ultimately show ?thesis by (simp add: walChecksumBytes_native)
next
  case False
  moreover have "cksum_order False = BYTESWAP32" by (rule ext) (simp add: cksum_order_def)
  ultimately show ?thesis by (simp add: walChecksumBytes_def cksum_swapped_eq)
qed

lemma cksum_pairs_inj: "cksum_pairs ws s = cksum_pairs ws t \<longleftrightarrow> s = t"
proof (induction ws s arbitrary: t rule: cksum_pairs.induct)
  case (1 x y r s1 s2)
  obtain t1 t2 where t: "t = (t1, t2)" by (cases t)
  have "s1 + (x + s2) = t1 + (x + t2) \<Longrightarrow> s2 + (y + (s1 + (x + s2))) = t2 + (y + (t1 + (x + t2))) \<Longrightarrow> s1 = t1 \<and> s2 = t2"
    by (metis add.left_commute add_left_cancel add_right_cancel)
  with 1 show ?case by (auto simp: t Let_def)
qed auto

lemma load32_inj: "load32 a b c d = load32 a' b' c' d' \<longleftrightarrow> a = a' \<and> b = b' \<and> c = c' \<and> d = d'"
proof -
  have x: "(ucast (load32 a b c d) :: u8) = a" "(ucast (drop_bit 8 (load32 a b c d)) :: u8) = b"
    "(ucast (drop_bit 16 (load32 a b c d)) :: u8) = c" "(ucast (drop_bit 24 (load32 a b c d)) :: u8) = d" for a b c d
    unfolding load32_def by (rule word_eq_by_bits, simp add: bitwise)+
  show ?thesis by (metis x)
qed

lemma words_of_8:
  assumes "length b = 8"
  obtains b0 b1 b2 b3 b4 b5 b6 b7 where "b = [b0, b1, b2, b3, b4, b5, b6, b7]"
    "words_of b = [load32 b0 b1 b2 b3, load32 b4 b5 b6 b7]"
  using assms by (auto simp: numeral_eq_Suc length_Suc_conv)

text \<open>Two buffers that differ inside one aligned block of eight bytes have different checksums.\<close>

lemma cksum_block_differs:
  assumes p: "length p = 8 * k" and b: "length b = 8" "length b' = 8" "b \<noteq> b'"
  shows "walChecksumBytes native (p @ b @ q) (Some s) \<noteq> walChecksumBytes native (p @ b' @ q) (Some s)"
proof -
  let ?o = "map (cksum_order native)"
  have w: "words_of (p @ z @ q) = words_of p @ words_of z @ words_of q" if "length z = 8" for z
    using words_of_append [of p "2 * k"] words_of_append [of z 2] p that by simp
  obtain x y x' y' where xy: "words_of b = [x, y]" "words_of b' = [x', y']" and "(x, y) \<noteq> (x', y')"
    using words_of_8 [OF b(1)] words_of_8 [OF b(2)] b(3) load32_inj by (metis prod.inject)
  then have ne: "(cksum_order native x, cksum_order native y) \<noteq> (cksum_order native x', cksum_order native y')"
    by (auto simp: cksum_order_def BYTESWAP32_inj)
  have "even (length (?o (words_of p)))" using p by (simp add: length_words_of)
  then have "walChecksumBytes native (p @ z @ q) (Some s) =
      cksum_pairs (?o (words_of q)) (cksum_pairs (?o (words_of z)) (cksum_pairs (?o (words_of p)) s))" if "length z = 8" for z
    using that by (simp add: walChecksumBytes_eq w cksum_pairs_append length_words_of)
  moreover obtain s1 s2 where "cksum_pairs (?o (words_of p)) s = (s1, s2)" by (metis surj_pair)
  ultimately show ?thesis using b ne by (auto simp: xy cksum_pairs_inj)
qed

section \<open>Frames read back\<close>

lemma length_put4 [simp]: "length (sqlite3Put4byte v) = 4"
  by (simp add: sqlite3Put4byte_def)

lemma get4_put4_end [simp]: "sqlite3Get4byte (sqlite3Put4byte v) = Some v"
  using get4_put4 [of v "[]"] by simp

lemmas get4_put4_simp [simp] = get4_put4

definition frame_cksum :: "wal \<Rightarrow> u32 \<Rightarrow> u32 \<Rightarrow> bytes \<Rightarrow> u32 \<times> u32" where
  "frame_cksum w pgno t d = walChecksumBytes (\<not> bigEndCksum w) d
     (Some (walChecksumBytes (\<not> bigEndCksum w) (sqlite3Put4byte pgno @ sqlite3Put4byte t) (Some (aFrameCksum w))))"

lemma walEncodeFrame_eq:
  "iReCksum w = 0 \<Longrightarrow> walEncodeFrame w pgno t d =
     (w\<lparr>aFrameCksum := frame_cksum w pgno t d\<rparr>,
      sqlite3Put4byte pgno @ sqlite3Put4byte t @ aSalt w @
      sqlite3Put4byte (fst (frame_cksum w pgno t d)) @ sqlite3Put4byte (snd (frame_cksum w pgno t d)))"
  by (simp add: walEncodeFrame_def Let_def frame_cksum_def)

lemma decode_encode:
  assumes "iReCksum w = 0" and "length (aSalt w) = 8" and "pgno \<noteq> 0" and "walEncodeFrame w pgno t d = (w', h)"
  shows "walDecodeFrame w d (h @ x) = (w', Some (pgno, t))" and "length h = 24"
proof -
  define ck where "ck = frame_cksum w pgno t d"
  have e: "w' = w\<lparr>aFrameCksum := ck\<rparr>"
      "h = sqlite3Put4byte pgno @ sqlite3Put4byte t @ aSalt w @ sqlite3Put4byte (fst ck) @ sqlite3Put4byte (snd ck)"
    using walEncodeFrame_eq [OF assms(1), of pgno t d] assms(4) by (simp_all add: ck_def)
  show "length h = 24" using assms(2) by (simp add: e)
  have h: "aSalt w = take 8 (drop 8 (h @ x))" "sqlite3Get4byte (h @ x) = Some pgno" "sqlite3Get4byte (drop 4 (h @ x)) = Some t"
      "take 8 (h @ x) = sqlite3Put4byte pgno @ sqlite3Put4byte t" "sqlite3Get4byte (drop 16 (h @ x)) = Some (fst ck)"
      "sqlite3Get4byte (drop 20 (h @ x)) = Some (snd ck)"
    using assms(2) by (simp_all add: e)
  show "walDecodeFrame w d (h @ x) = (w', Some (pgno, t))"
    using assms(3) unfolding walDecodeFrame_def Let_def h(2-6) h(1) [symmetric]
    by (simp add: e(1) ck_def frame_cksum_def)
qed

section \<open>Recovery of a written log\<close>

definition frame_ok :: "nat \<Rightarrow> frame \<Rightarrow> bool" where
  "frame_ok sz f \<longleftrightarrow> (case f of (pgno, t, d) \<Rightarrow> pgno \<noteq> 0 \<and> length d = sz)"

definition writable :: "wal \<Rightarrow> bool" where
  "writable w \<longleftrightarrow> iReCksum w = 0 \<and> length (aSalt w) = 8"

text \<open>The number of frames up to and including the last commit frame, 0 if there is none.\<close>

fun last_commit :: "frame list \<Rightarrow> nat" where
  "last_commit [] = 0"
| "last_commit ((pgno, t, d) # fs) =
     (if last_commit fs > 0 then Suc (last_commit fs) else if t \<noteq> 0 then 1 else 0)"

lemma last_commit_le: "last_commit fs \<le> length fs"
  by (induction fs rule: last_commit.induct) auto

abbreviation log_cksum :: "wal \<Rightarrow> frame list \<Rightarrow> u32 \<times> u32" where
  "log_cksum w fs \<equiv> aFrameCksum (fst (walFrames_loop w fs))"

lemma frame_cksum_frame [simp]:
  "frame_cksum (w\<lparr>mxFrame := a\<rparr>) = frame_cksum w" "frame_cksum (w\<lparr>nPage := b\<rparr>) = frame_cksum w"
  by (simp_all add: frame_cksum_def fun_eq_iff)

lemma walWriteOneFrame_eq:
  assumes "writable w" and "f = (pgno, t, d)"
  shows "walWriteOneFrame w f = (w\<lparr>aFrameCksum := frame_cksum w pgno t d\<rparr>, snd (walEncodeFrame w pgno t d) @ d)"
  using assms walEncodeFrame_eq [of w pgno t d] by (simp add: walWriteOneFrame_def writable_def split: prod.split)

lemma walFrames_loop_Cons:
  assumes "writable w" and "f = (pgno, t, d)"
  shows "walFrames_loop w (f # fs) =
    (fst (walFrames_loop (w\<lparr>aFrameCksum := frame_cksum w pgno t d\<rparr>) fs),
     snd (walWriteOneFrame w f) @ snd (walFrames_loop (w\<lparr>aFrameCksum := frame_cksum w pgno t d\<rparr>) fs))"
  by (simp add: walWriteOneFrame_eq [OF assms] split: prod.split)

lemma writable_upd [simp]:
  "writable (w\<lparr>aFrameCksum := c\<rparr>) = writable w" "writable (w\<lparr>mxFrame := a\<rparr>) = writable w"
  "writable (w\<lparr>nPage := b\<rparr>) = writable w"
  by (simp_all add: writable_def)

lemma walFrames_loop_state:
  "writable w \<Longrightarrow> fst (walFrames_loop w fs) = w\<lparr>aFrameCksum := log_cksum w fs\<rparr>"
proof (induction fs arbitrary: w)
  case (Cons f fs)
  obtain pgno t d where f: "f = (pgno, t, d)" by (cases f)
  show ?case using Cons.IH [of "w\<lparr>aFrameCksum := frame_cksum w pgno t d\<rparr>"] Cons.prems
    by (simp only: walFrames_loop_Cons [OF Cons.prems f] fst_conv) simp
qed simp

lemma encode_frame [simp]:
  "writable w \<Longrightarrow> snd (walWriteOneFrame (w\<lparr>mxFrame := a, nPage := b\<rparr>) f) = snd (walWriteOneFrame w f)"
  by (cases f) (simp add: walWriteOneFrame_eq walEncodeFrame_eq writable_def)

lemma walFrames_loop_frame:
  "writable w \<Longrightarrow> log_cksum (w\<lparr>mxFrame := a, nPage := b\<rparr>) fs = log_cksum w fs \<and>
     snd (walFrames_loop (w\<lparr>mxFrame := a, nPage := b\<rparr>) fs) = snd (walFrames_loop w fs)"
proof (induction fs arbitrary: w)
  case (Cons f fs)
  obtain pgno t d where f: "f = (pgno, t, d)" by (cases f)
  let ?w = "w\<lparr>aFrameCksum := frame_cksum w pgno t d\<rparr>" and ?v = "w\<lparr>mxFrame := a, nPage := b\<rparr>"
  have v: "writable ?v" and c: "?w\<lparr>mxFrame := a, nPage := b\<rparr> = ?v\<lparr>aFrameCksum := frame_cksum ?v pgno t d\<rparr>"
    using Cons.prems by simp_all
  show ?case using Cons.IH [of ?w] Cons.prems unfolding c
    by (simp only: walFrames_loop_Cons [OF Cons.prems f] walFrames_loop_Cons [OF v f] fst_conv snd_conv) simp
qed simp

lemma length_loop:
  "writable w \<Longrightarrow> \<forall>f \<in> set fs. frame_ok sz f \<Longrightarrow> length (snd (walFrames_loop w fs)) = length fs * (sz + 24)"
proof (induction fs arbitrary: w)
  case (Cons f fs)
  obtain pgno t d where f: "f = (pgno, t, d)" by (cases f)
  have "length (snd (walWriteOneFrame w f)) = sz + 24"
    using Cons.prems walWriteOneFrame_eq [OF Cons.prems(1) f]
    by (simp add: f walEncodeFrame_eq writable_def frame_ok_def)
  then show ?case
    using Cons.IH [of "w\<lparr>aFrameCksum := frame_cksum w pgno t d\<rparr>"] Cons.prems
    by (simp only: walFrames_loop_Cons [OF Cons.prems(1) f] snd_conv) simp
qed simp

text \<open>One iteration of the scan over a frame that was written with the same state.\<close>

lemma recover_scan_frame:
  assumes "writable w" and "frame_ok (szPage w) f" and f: "f = (pgno, t, d)" and "i \<le> iLast"
    and fl: "length pre = walFrameOffset i (szPage w)" "file = pre @ snd (walWriteOneFrame w f) @ rest"
  shows "recover_scan file i iLast w ck ps =
    (let v = w\<lparr>aFrameCksum := frame_cksum w pgno t d\<rparr> in
     if t \<noteq> 0 then recover_scan file (i + 1) iLast (v\<lparr>mxFrame := i, nPage := t\<rparr>) (aFrameCksum v) (ps @ [pgno])
     else recover_scan file (i + 1) iLast v ck (ps @ [pgno]))"
proof -
  obtain h where enc: "walEncodeFrame w pgno t d = (w\<lparr>aFrameCksum := frame_cksum w pgno t d\<rparr>, h)"
    using assms(1) walEncodeFrame_eq [of w pgno t d] by (simp add: writable_def)
  have len: "length h = 24" "length d = szPage w" and dec: "walDecodeFrame w d (h @ d) = (w\<lparr>aFrameCksum := frame_cksum w pgno t d\<rparr>, Some (pgno, t))"
    using decode_encode [OF _ _ _ enc] assms(1,2) by (simp_all add: writable_def frame_ok_def f)
  have "snd (walWriteOneFrame w f) = h @ d" using walWriteOneFrame_eq [OF assms(1) f] enc by simp
  then have "take (szPage w + 24) (drop (walFrameOffset i (szPage w)) file) = h @ d"
    using len by (simp add: fl(2) flip: fl(1))
  with assms(4) len dec show ?thesis
    by (subst recover_scan.simps) (simp add: Let_def)
qed

text \<open>What the scan has learnt after the frames \<open>fs\<close>, the first of them number \<open>i\<close>.\<close>

definition scanned :: "wal \<Rightarrow> nat \<Rightarrow> frame list \<Rightarrow> wal" where
  "scanned w i fs = (let n = last_commit fs in
     if n = 0 then w\<lparr>aFrameCksum := log_cksum w fs\<rparr>
     else w\<lparr>aFrameCksum := log_cksum w fs, mxFrame := i + n - 1, nPage := fst (snd (fs ! (n - 1)))\<rparr>)"

definition scanned_cksum :: "wal \<Rightarrow> frame list \<Rightarrow> u32 \<times> u32 \<Rightarrow> u32 \<times> u32" where
  "scanned_cksum w fs ck = (let n = last_commit fs in if n = 0 then ck else log_cksum w (take n fs))"

lemma scanned_Cons:
  fixes i :: nat
  assumes "writable w" and f: "f = (pgno, t, d)"
  defines "v \<equiv> w\<lparr>aFrameCksum := frame_cksum w pgno t d\<rparr>"
  defines "u \<equiv> (if t \<noteq> 0 then v\<lparr>mxFrame := i, nPage := t\<rparr> else v)"
  shows "scanned u (i + 1) fs = scanned w i (f # fs)"
    and "scanned_cksum u fs (if t \<noteq> 0 then aFrameCksum v else ck) = scanned_cksum w (f # fs) ck"
proof -
  have v: "writable v" using assms(1) by (simp add: v_def)
  have c: "log_cksum w (f # gs) = log_cksum v gs" for gs
    by (simp only: walFrames_loop_Cons [OF assms(1) f] fst_conv v_def)
  have u: "log_cksum u gs = log_cksum v gs" for gs
    using walFrames_loop_frame [OF v] by (simp add: u_def)
  have uw: "u = (if t \<noteq> 0 then w\<lparr>aFrameCksum := frame_cksum w pgno t d, mxFrame := i, nPage := t\<rparr>
      else w\<lparr>aFrameCksum := frame_cksum w pgno t d\<rparr>)"
    by (simp add: u_def v_def)
  have lc: "last_commit (f # fs) = (if last_commit fs > 0 then Suc (last_commit fs) else if t \<noteq> 0 then 1 else 0)"
    by (simp add: f)
  show "scanned u (i + 1) fs = scanned w i (f # fs)"
    unfolding scanned_def Let_def c u lc by (cases "last_commit fs") (simp_all add: uw, simp add: f)
  show "scanned_cksum u fs (if t \<noteq> 0 then aFrameCksum v else ck) = scanned_cksum w (f # fs) ck"
    unfolding scanned_cksum_def Let_def u lc
    using c [of "[]"] by (cases "last_commit fs") (simp_all add: c del: walFrames_loop.simps(2))
qed

lemma recover_scan_frames:
  assumes "writable w" and "\<forall>f \<in> set fs. frame_ok (szPage w) f" and "1 \<le> i" and "i + length fs \<le> iLast + 1"
    and "length pre = walFrameOffset i (szPage w)" and "bytes = pre @ snd (walFrames_loop w fs) @ tail"
  shows "recover_scan bytes i iLast w ck ps =
    recover_scan bytes (i + length fs) iLast (scanned w i fs) (scanned_cksum w fs ck) (ps @ map fst fs)"
  using assms
proof (induction fs arbitrary: w i pre ck ps)
  case Nil
  then show ?case by (simp add: scanned_def scanned_cksum_def)
next
  case (Cons f fs)
  obtain pgno t d where f: "f = (pgno, t, d)" by (cases f)
  define v where "v = w\<lparr>aFrameCksum := frame_cksum w pgno t d\<rparr>"
  define u where "u = (if t \<noteq> 0 then v\<lparr>mxFrame := i, nPage := t\<rparr> else v)"
  have u: "writable u" "szPage u = szPage w" using Cons.prems(1) by (simp_all add: u_def v_def)
  have loop: "snd (walFrames_loop w (f # fs)) = snd (walWriteOneFrame w f) @ snd (walFrames_loop v fs)"
    by (simp only: walFrames_loop_Cons [OF Cons.prems(1) f] snd_conv v_def)
  have wb: "snd (walFrames_loop u fs) = snd (walFrames_loop v fs)"
    using walFrames_loop_frame [where w = v and a = i and b = t and fs = fs] Cons.prems(1) by (simp add: u_def v_def)
  have one: "length (snd (walWriteOneFrame w f)) = szPage w + 24"
    using length_loop [of w "[f]" "szPage w"] Cons.prems(1,2) by (simp split: prod.splits)
  have b: "bytes = pre @ snd (walWriteOneFrame w f) @ (snd (walFrames_loop v fs) @ tail)"
    using Cons.prems(6) by (simp only: loop append_assoc)
  have sc: "scanned u (i + 1) fs = scanned w i (f # fs)"
      "scanned_cksum u fs (if t \<noteq> 0 then aFrameCksum v else ck) = scanned_cksum w (f # fs) ck"
    unfolding u_def v_def by (rule scanned_Cons [OF Cons.prems(1) f])+
  have ok: "frame_ok (szPage w) f" "i \<le> iLast" using Cons.prems(2,4) by simp_all
  have "recover_scan bytes i iLast w ck ps =
      recover_scan bytes (i + 1) iLast u (if t \<noteq> 0 then aFrameCksum v else ck) (ps @ [pgno])"
    using recover_scan_frame [OF Cons.prems(1) ok(1) f ok(2) Cons.prems(5) b, of ck ps, folded v_def]
    by (simp add: u_def Let_def)
  also have "\<dots> = recover_scan bytes (i + 1 + length fs) iLast (scanned u (i + 1) fs)
      (scanned_cksum u fs (if t \<noteq> 0 then aFrameCksum v else ck)) ((ps @ [pgno]) @ map fst fs)"
  proof (rule Cons.IH [OF u(1)])
    show "length (pre @ snd (walWriteOneFrame w f)) = walFrameOffset (i + 1) (szPage u)"
      using Cons.prems(3,5) one u(2) by (cases i) (simp_all add: walFrameOffset_def)
    show "bytes = (pre @ snd (walWriteOneFrame w f)) @ snd (walFrames_loop u fs) @ tail"
      using b by (simp add: wb)
  qed (use Cons.prems(2-4) u(2) in auto)
  also have "\<dots> = recover_scan bytes (i + length (f # fs)) iLast (scanned w i (f # fs)) (scanned_cksum w (f # fs) ck) (ps @ map fst (f # fs))"
    unfolding sc by (simp add: f)
  finally show ?case .
qed

text \<open>The scan stops at a torn or an invalid frame.\<close>

definition rejected :: "wal \<Rightarrow> bytes \<Rightarrow> bool" where
  "rejected w tail \<longleftrightarrow> length tail < szPage w + 24 \<or>
     snd (walDecodeFrame w (drop 24 (take (szPage w + 24) tail)) (take (szPage w + 24) tail)) = None"

lemma walDecodeFrame_state: "(fst (walDecodeFrame w d h))\<lparr>aFrameCksum := c\<rparr> = w\<lparr>aFrameCksum := c\<rparr>"
  by (simp add: walDecodeFrame_def Let_def split: option.split)

lemma recover_scan_rejected:
  assumes "rejected w tail" and "length pre = walFrameOffset i (szPage w)"
  obtains w' where "recover_scan (pre @ tail) i iLast w ck ps = (w', ck, ps)" "\<And>c. w'\<lparr>aFrameCksum := c\<rparr> = w\<lparr>aFrameCksum := c\<rparr>"
proof -
  let ?f = "take (szPage w + 24) tail"
  have t: "take (szPage w + 24) (drop (walFrameOffset i (szPage w)) (pre @ tail)) = ?f" using assms(2) by simp
  show thesis
  proof (cases "i > iLast \<or> length ?f < szPage w + 24")
    case True
    then have "recover_scan (pre @ tail) i iLast w ck ps = (w, ck, ps)"
      unfolding recover_scan.simps [of "pre @ tail" i iLast w ck ps] Let_def t by auto
    then show thesis by (rule that) simp
  next
    case False
    then have "snd (walDecodeFrame w (drop 24 ?f) ?f) = None" using assms(1) by (auto simp: rejected_def)
    then have d: "walDecodeFrame w (drop 24 ?f) ?f = (fst (walDecodeFrame w (drop 24 ?f) ?f), None)" by (metis prod.collapse)
    have "recover_scan (pre @ tail) i iLast w ck ps = (fst (walDecodeFrame w (drop 24 ?f) ?f), ck, ps)"
      using False unfolding recover_scan.simps [of "pre @ tail" i iLast w ck ps] Let_def t by (subst d) auto
    then show thesis by (rule that) (rule walDecodeFrame_state)
  qed
qed

definition recovered :: "frame list \<Rightarrow> nat \<times> u32" where
  "recovered fs = (let n = last_commit fs in (n, if n = 0 then 0 else fst (snd (fs ! (n - 1)))))"

lemma length_walFrames_header: "length (aSalt w) = 8 \<Longrightarrow> length (snd (walFrames_header w sz)) = 32"
  by (simp add: walFrames_header_def Let_def)

lemma header_accepted:
  fixes w0 :: wal
  assumes "length (aSalt w) = 8" and "walFrames_header w sz = (w1, hb)" and "rest \<noteq> []"
    and sz: "512 \<le> sz" "sz \<le> 65536" "(of_nat sz :: u32) AND (of_nat sz - 1) = 0"
  defines "v \<equiv> w0\<lparr>mxFrame := 0, nPage := 0, bigEndCksum := False, szPage := sz, nCkpt := nCkpt w, aSalt := aSalt w,
    aFrameCksum := aFrameCksum w1\<rparr>"
  shows "walIndexRecover (hb @ rest) w0 =
    (case recover_scan (hb @ rest) 1 (length rest div (sz + 24)) v (0, 0) [] of (w', ck, ps) \<Rightarrow>
       (w'\<lparr>aFrameCksum := ck\<rparr>, ps, SQLITE_OK))"
proof -
  define ck where "ck = aFrameCksum w1"
  define h where "h = sqlite3Put4byte WAL_MAGIC @ sqlite3Put4byte WAL_MAX_VERSION @ sqlite3Put4byte (of_nat sz) @
              sqlite3Put4byte (nCkpt w) @ aSalt w"
  have hb: "hb = h @ sqlite3Put4byte (fst ck) @ sqlite3Put4byte (snd ck)" and ck: "ck = walChecksumBytes True h None"
    using assms(2) by (auto simp: walFrames_header_def Let_def h_def ck_def)
  have len: "length h = 24" using assms(1) by (simp add: h_def)
  have g: "sqlite3Get4byte (hb @ rest) = Some WAL_MAGIC" "sqlite3Get4byte (drop 4 (hb @ rest)) = Some WAL_MAX_VERSION"
    "sqlite3Get4byte (drop 8 (hb @ rest)) = Some (of_nat sz)" "sqlite3Get4byte (drop 12 (hb @ rest)) = Some (nCkpt w)"
    "take 8 (drop 16 (hb @ rest)) = aSalt w"
    using assms(1) by (simp_all add: hb h_def)
  have g2: "sqlite3Get4byte (drop 24 (hb @ rest)) = Some (fst ck)" "sqlite3Get4byte (drop 28 (hb @ rest)) = Some (snd ck)"
    "take 24 (hb @ rest) = h" "length (hb @ rest) - 32 = length rest" "\<not> length (hb @ rest) \<le> 32"
    using len assms(3) by (simp_all add: hb)
  have n: "unat (of_nat sz :: u32) = sz" using sz by (simp add: unsigned_of_nat take_bit_nat_eq_self)
  have s: "\<not> (of_nat sz :: u32) > 65536" "\<not> (of_nat sz :: u32) < 512"
    using sz by (simp_all add: word_less_nat_alt n not_less)
  show ?thesis
    unfolding walIndexRecover_def Let_def g g2 using sz(3) s g2(5)
    by (simp add: n ck [symmetric] v_def ck_def)
qed

text \<open>What a frame is encoded to depends on three fields of the handle only.\<close>

definition same_log :: "wal \<Rightarrow> wal \<Rightarrow> bool" where
  "same_log a b \<longleftrightarrow> bigEndCksum a = bigEndCksum b \<and> aFrameCksum a = aFrameCksum b \<and> aSalt a = aSalt b"

lemma same_log_write:
  assumes "writable a" "writable b" "same_log a b" "f = (pgno, t, d)"
  shows "frame_cksum a pgno t d = frame_cksum b pgno t d" "snd (walWriteOneFrame a f) = snd (walWriteOneFrame b f)"
proof -
  show c: "frame_cksum a pgno t d = frame_cksum b pgno t d" using assms(3) by (simp add: frame_cksum_def same_log_def)
  show "snd (walWriteOneFrame a f) = snd (walWriteOneFrame b f)"
    using assms walWriteOneFrame_eq [OF assms(1,4)] walWriteOneFrame_eq [OF assms(2,4)]
    by (simp add: walEncodeFrame_eq writable_def same_log_def c)
qed

lemma same_log_loop:
  "writable a \<Longrightarrow> writable b \<Longrightarrow> same_log a b \<Longrightarrow>
     log_cksum a fs = log_cksum b fs \<and> snd (walFrames_loop a fs) = snd (walFrames_loop b fs)"
proof (induction fs arbitrary: a b)
  case (Cons f fs)
  obtain pgno t d where f: "f = (pgno, t, d)" by (cases f)
  note sw = same_log_write [OF Cons.prems f]
  let ?a = "a\<lparr>aFrameCksum := frame_cksum a pgno t d\<rparr>" and ?b = "b\<lparr>aFrameCksum := frame_cksum b pgno t d\<rparr>"
  have "writable ?a" "writable ?b" "same_log ?a ?b" using Cons.prems sw(1) by (simp_all add: same_log_def)
  from Cons.IH [OF this] show ?case
    by (simp only: walFrames_loop_Cons [OF Cons.prems(1) f] walFrames_loop_Cons [OF Cons.prems(2) f] fst_conv snd_conv sw(2))
qed (simp add: same_log_def)

lemma rejected_cong:
  assumes "same_log a b" and "szPage a = szPage b"
  shows "rejected a tail = rejected b tail"
proof -
  have "snd (walDecodeFrame a d h) = snd (walDecodeFrame b d h)" for d h
    using assms(1) by (simp add: walDecodeFrame_def same_log_def Let_def split: option.split)
  with assms(2) show ?thesis by (simp add: rejected_def)
qed

lemma recovery:
  assumes w: "writable w" and "walFrames_header w sz = (w1, hb)" and "walFrames_loop w1 fs = (w2, bs)"
    and sz: "512 \<le> sz" "sz \<le> 65536" "(of_nat sz :: u32) AND (of_nat sz - 1) = 0"
    and fs: "fs \<noteq> []" "\<forall>f \<in> set fs. frame_ok sz f" and tail: "rejected w2 tail" and w0: "iReCksum w0 = 0"
  obtains w' where "walIndexRecover (hb @ bs @ tail) w0 = (w', map fst fs, SQLITE_OK)"
    "(mxFrame w', nPage w') = recovered fs" "aSalt w' = aSalt w" "szPage w' = sz"
    "aFrameCksum w' = (if last_commit fs = 0 then (0, 0) else log_cksum w1 (take (last_commit fs) fs))"
proof -
  define v where "v = w0\<lparr>mxFrame := 0, nPage := 0, bigEndCksum := False, szPage := sz, nCkpt := nCkpt w, aSalt := aSalt w,
    aFrameCksum := aFrameCksum w1\<rparr>"
  have w1: "writable w1" "bigEndCksum w1 = False" "aSalt w1 = aSalt w" "szPage w1 = sz" "length hb = 32"
    using assms(2) w length_walFrames_header [of w sz] by (auto simp: walFrames_header_def Let_def writable_def)
  have v: "writable v" "szPage v = sz" "same_log v w1" using w w0 w1 by (auto simp: v_def writable_def same_log_def)
  note sl = same_log_loop [OF v(1) w1(1) v(3)]
  have bs: "bs = snd (walFrames_loop v fs)" using assms(3) sl [of fs] by simp
  have w2: "w2 = w1\<lparr>aFrameCksum := log_cksum w1 fs\<rparr>" using walFrames_loop_state [OF w1(1), of fs] assms(3) by simp
  let ?u = "scanned v 1 fs" and ?n = "last_commit fs" and ?L = "length (bs @ tail) div (sz + 24)"
  have len: "length bs = length fs * (sz + 24)" using length_loop [OF v(1), of fs sz] fs(2) by (simp add: bs)
  have u: "szPage ?u = sz" "same_log ?u w2" using v sl [of fs] by (simp_all add: scanned_def w2 same_log_def Let_def)
  have rej: "rejected ?u tail" using tail rejected_cong [OF u(2)] w2 u(1) w1(4) by simp
  have pre: "length (hb @ bs) = walFrameOffset (1 + length fs) (szPage ?u)" using w1(5) len u(1) by (simp add: walFrameOffset_def)
  obtain w' where scan: "recover_scan ((hb @ bs) @ tail) (1 + length fs) ?L ?u (scanned_cksum v fs (0, 0)) (map fst fs) =
      (w', scanned_cksum v fs (0, 0), map fst fs)" "\<And>c. w'\<lparr>aFrameCksum := c\<rparr> = ?u\<lparr>aFrameCksum := c\<rparr>"
    using recover_scan_rejected [OF rej pre, of ?L "scanned_cksum v fs (0, 0)" "map fst fs"] by blast
  have "recover_scan (hb @ bs @ tail) 1 ?L v (0, 0) [] =
      recover_scan (hb @ bs @ tail) (1 + length fs) ?L ?u (scanned_cksum v fs (0, 0)) ([] @ map fst fs)"
  proof (rule recover_scan_frames [OF v(1), of fs 1 ?L hb "hb @ bs @ tail" tail "(0, 0)" "[]"])
    show "1 + length fs \<le> ?L + 1" using len by (simp add: div_add1_eq)
    show "length hb = walFrameOffset 1 (szPage v)" using w1(5) by (simp add: walFrameOffset_def)
  qed (use fs(2) v(2) bs in auto)
  with scan(1) have s: "recover_scan (hb @ bs @ tail) 1 ?L v (0, 0) [] = (w', scanned_cksum v fs (0, 0), map fst fs)" by simp
  have "bs @ tail \<noteq> []" using len fs(1) by auto
  have len8: "length (aSalt w) = 8" using w by (simp add: writable_def)
  have "walIndexRecover (hb @ bs @ tail) w0 = (w'\<lparr>aFrameCksum := scanned_cksum v fs (0, 0)\<rparr>, map fst fs, SQLITE_OK)"
    using header_accepted [OF len8 assms(2) \<open>bs @ tail \<noteq> []\<close> sz, of w0] s by (simp add: v_def)
  then show thesis
    by (rule that) (use sl in \<open>auto simp: scan(2) scanned_def scanned_cksum_def recovered_def v_def Let_def\<close>)
qed

section \<open>Properties\<close>

text \<open>C22: Recovery after a crash. Let a log consist of the header and any frames written by walFrames,
  followed by a torn or otherwise invalid frame and anything after it. Then walIndexRecover
  indexes exactly the written frames, and restores as valid content everything up to the last
  commit frame: its number, the database size it recorded, and the checksum to continue from.\<close>

theorem wal_recovery:
  assumes "writable w" and "length rnd = 8" and "walFrames_header (walFrames_salt w rnd) sz = (w1, hb)" and "walFrames_loop w1 fs = (w2, bs)"
    and "512 \<le> sz" "sz \<le> 65536" "(of_nat sz :: u32) AND (of_nat sz - 1) = 0"
    and "fs \<noteq> []" "\<forall>f \<in> set fs. frame_ok sz f" and "rejected w2 tail" and "iReCksum w0 = 0"
  shows "\<exists>w'. walIndexRecover (hb @ bs @ tail) w0 = (w', map fst fs, SQLITE_OK) \<and>
    (mxFrame w', nPage w') = recovered fs \<and> aSalt w' = (if nCkpt w = 0 then rnd else aSalt w) \<and> szPage w' = sz \<and>
    aFrameCksum w' = (if last_commit fs = 0 then (0, 0) else log_cksum w1 (take (last_commit fs) fs))"
proof -
  have w: "writable (walFrames_salt w rnd)" "aSalt (walFrames_salt w rnd) = (if nCkpt w = 0 then rnd else aSalt w)"
    using assms(1,2) by (simp_all add: walFrames_salt_def writable_def)
  show ?thesis unfolding w(2) [symmetric] by (rule recovery [OF w(1) assms(3-)]) blast
qed

theorem wal_recovery_witness:
  "let w = \<lparr>szPage = 0, bigEndCksum = False, aFrameCksum = (0, 0), aSalt = replicate 8 7, mxFrame = 0, nPage = 0, iReCksum = 0, nCkpt = 0\<rparr>;
       fs = [(2, 0, replicate 512 1), (3, 9, replicate 512 2), (4, 0, replicate 512 3)];
       (w1, hb) = walFrames_header (walFrames_salt w [1, 2, 3, 4, 5, 6, 7, 8]) 512; (w2, bs) = walFrames_loop w1 fs
   in \<exists>w'. walIndexRecover (hb @ bs @ [1, 2, 3]) w = (w', [2, 3, 4], SQLITE_OK) \<and> mxFrame w' = 2 \<and> nPage w' = 9"
proof -
  let ?w = "\<lparr>szPage = 0, bigEndCksum = False, aFrameCksum = (0, 0), aSalt = replicate 8 7, mxFrame = 0, nPage = 0, iReCksum = 0, nCkpt = 0\<rparr>"
  let ?fs = "[(2, 0, replicate 512 1), (3, 9, replicate 512 2), (4, 0, replicate 512 3)] :: frame list"
  obtain w1 hb where h: "walFrames_header (walFrames_salt ?w [1, 2, 3, 4, 5, 6, 7, 8]) 512 = (w1, hb)" by (metis surj_pair)
  obtain w2 bs where b: "walFrames_loop w1 ?fs = (w2, bs)" by (metis surj_pair)
  have "\<exists>w'. walIndexRecover (hb @ bs @ [1, 2, 3]) ?w = (w', map fst ?fs, SQLITE_OK) \<and>
    (mxFrame w', nPage w') = recovered ?fs \<and> aSalt w' = (if nCkpt ?w = 0 then [1, 2, 3, 4, 5, 6, 7, 8] else aSalt ?w) \<and> szPage w' = 512 \<and>
    aFrameCksum w' = (if last_commit ?fs = 0 then (0, 0) else log_cksum w1 (take (last_commit ?fs) ?fs))"
    by (rule wal_recovery [OF _ _ h b]) (simp_all add: writable_def frame_ok_def rejected_def)
  then show ?thesis using h b by (auto simp: recovered_def simp del: walFrames_loop.simps)
qed

text \<open>A frame written by walEncodeFrame is accepted by walDecodeFrame in the same state with the
  same page number and commit mark, and leaves the same running checksum; and if its page content
  is changed in any way inside one aligned block of eight bytes, it is rejected.\<close>

theorem frame_validation:
  assumes "writable w" and "pgno \<noteq> 0" and "length p = 8 * k" and "length b = 8" and "length b' = 8"
    and "walEncodeFrame w pgno t (p @ b @ q) = (w', h)"
  shows "walDecodeFrame w (p @ b @ q) h = (w', Some (pgno, t)) \<and>
    (b' \<noteq> b \<longrightarrow> snd (walDecodeFrame w (p @ b' @ q) h) = None)"
proof
  have w: "iReCksum w = 0" "length (aSalt w) = 8" using assms(1) by (simp_all add: writable_def)
  show "walDecodeFrame w (p @ b @ q) h = (w', Some (pgno, t))"
    using decode_encode(1) [OF w assms(2,6), of "[]"] by simp
  define ck where "ck = frame_cksum w pgno t (p @ b @ q)"
  have h: "h = sqlite3Put4byte pgno @ sqlite3Put4byte t @ aSalt w @ sqlite3Put4byte (fst ck) @ sqlite3Put4byte (snd ck)"
    using walEncodeFrame_eq [OF w(1), of pgno t "p @ b @ q"] assms(6) by (simp add: ck_def)
  have t8: "take 8 h = sqlite3Put4byte pgno @ sqlite3Put4byte t" and g: "sqlite3Get4byte (drop 16 h) = Some (fst ck)"
    "sqlite3Get4byte (drop 20 h) = Some (snd ck)" using w(2) by (simp_all add: h)
  show "b' \<noteq> b \<longrightarrow> snd (walDecodeFrame w (p @ b' @ q) h) = None"
  proof
    assume "b' \<noteq> b"
    then have "frame_cksum w pgno t (p @ b' @ q) \<noteq> ck"
      unfolding ck_def frame_cksum_def by (rule cksum_block_differs [OF assms(3,5,4)])
    then show "snd (walDecodeFrame w (p @ b' @ q) h) = None"
      unfolding walDecodeFrame_def Let_def g t8 by (auto simp: frame_cksum_def prod_eq_iff split: option.split)
  qed
qed

theorem frame_validation_witness:
  "let w = \<lparr>szPage = 8, bigEndCksum = True, aFrameCksum = (1, 2), aSalt = replicate 8 7, mxFrame = 0, nPage = 0, iReCksum = 0, nCkpt = 0\<rparr>;
       (w', h) = walEncodeFrame w 5 0 (replicate 8 1)
   in walDecodeFrame w (replicate 8 1) h = (w', Some (5, 0)) \<and> snd (walDecodeFrame w (replicate 8 2) h) = None"
proof -
  let ?w = "\<lparr>szPage = 8, bigEndCksum = True, aFrameCksum = (1, 2), aSalt = replicate 8 7, mxFrame = 0, nPage = 0, iReCksum = 0, nCkpt = 0\<rparr>"
  obtain w' h where e: "walEncodeFrame ?w 5 0 ([] @ replicate 8 1 @ []) = (w', h)" by (metis surj_pair)
  have "walDecodeFrame ?w ([] @ replicate 8 1 @ []) h = (w', Some (5, 0)) \<and>
    (replicate 8 (2 :: u8) \<noteq> replicate 8 1 \<longrightarrow> snd (walDecodeFrame ?w ([] @ replicate 8 2 @ []) h) = None)"
    by (rule frame_validation [OF _ _ _ _ _ e, where k = 0]) (simp_all add: writable_def)
  with e show ?thesis by simp
qed

end
