(* ===== verification/Wal_Index.thy ===== *)
theory Wal_Index
  imports Prelude
begin

text \<open>
  The wal-index of \<^verbatim>\<open>wal.c\<close>: the shared-memory hash tables that map a database page to the last
  log frame holding it. A segment is one 32 KB region: the page numbers of its frames and an
  open-addressing table of frame indices. The arrays have 4096 (4062 in the first segment) and
  8192 entries; every access of the code stays inside by construction of its masks, so they are
  functions here. A segment that cannot be mapped is \<^const>\<open>None\<close>.
\<close>

abbreviation (input) HASHTABLE_NPAGE :: nat where "HASHTABLE_NPAGE \<equiv> 4096"
abbreviation (input) HASHTABLE_NSLOT :: nat where "HASHTABLE_NSLOT \<equiv> 8192"
abbreviation (input) HASHTABLE_NPAGE_ONE :: nat where "HASHTABLE_NPAGE_ONE \<equiv> 4062"
abbreviation (input) SQLITE_CORRUPT :: int where "SQLITE_CORRUPT \<equiv> 11"
abbreviation (input) SQLITE_IOERR_SHMMAP :: int where "SQLITE_IOERR_SHMMAP \<equiv> 5386"

record wal_seg =
  aPgno :: "nat \<Rightarrow> u32"
  aHash :: "nat \<Rightarrow> nat"

type_synonym wal_index = "nat \<Rightarrow> wal_seg option"

definition walHash :: "u32 \<Rightarrow> nat" where
  "walHash iPage = unat ((iPage * 383) AND 8191)"

definition walNextHash :: "nat \<Rightarrow> nat" where
  "walNextHash iPriorHash = (iPriorHash + 1) mod HASHTABLE_NSLOT"

definition walFramePage :: "nat \<Rightarrow> nat" where
  "walFramePage iFrame = (iFrame + HASHTABLE_NPAGE - HASHTABLE_NPAGE_ONE - 1) div HASHTABLE_NPAGE"

definition hash_iZero :: "nat \<Rightarrow> nat" where
  "hash_iZero iHash = (if iHash = 0 then 0 else HASHTABLE_NPAGE_ONE + (iHash - 1) * HASHTABLE_NPAGE)"

definition walHashGet :: "wal_index \<Rightarrow> nat \<Rightarrow> (wal_seg \<times> nat) option" where
  "walHashGet ix iHash = (case ix iHash of Some sg \<Rightarrow> Some (sg, hash_iZero iHash) | None \<Rightarrow> None)"

definition walFramePgno :: "wal_index \<Rightarrow> nat \<Rightarrow> u32 option" where
  "walFramePgno ix iFrame =
     (let iHash = walFramePage iFrame in
      case ix iHash of
        None \<Rightarrow> None
      | Some sg \<Rightarrow>
         Some (if iHash = 0 then aPgno sg (iFrame - 1)
               else aPgno sg ((iFrame - 1 - HASHTABLE_NPAGE_ONE) mod HASHTABLE_NPAGE)))"

definition walCleanupHash :: "wal_index \<Rightarrow> nat \<Rightarrow> wal_index" where
  "walCleanupHash ix mxFrame =
     (if mxFrame = 0 then ix
      else case walHashGet ix (walFramePage mxFrame) of
        None \<Rightarrow> ix
      | Some (sg, iZero) \<Rightarrow>
         let iLimit = mxFrame - iZero in
         ix(walFramePage mxFrame \<mapsto>
            sg\<lparr>aHash := (\<lambda>i. if aHash sg i > iLimit then 0 else aHash sg i),
               aPgno := (\<lambda>i. if i \<ge> iLimit then 0 else aPgno sg i)\<rparr>))"

text \<open>The probe of \<^verbatim>\<open>walIndexAppend\<close>; the counter is the code's \<^verbatim>\<open>nCollide\<close>.\<close>

fun append_probe :: "(nat \<Rightarrow> nat) \<Rightarrow> nat \<Rightarrow> nat \<Rightarrow> nat option" where
  "append_probe h iKey 0 = (if h iKey = 0 then Some iKey else None)"
| "append_probe h iKey (Suc n) = (if h iKey = 0 then Some iKey else append_probe h (walNextHash iKey) n)"

definition walIndexAppend :: "wal_index \<Rightarrow> nat \<Rightarrow> nat \<Rightarrow> u32 \<Rightarrow> wal_index \<times> int" where
  "walIndexAppend ix mxFrame iFrame iPage =
     (let k = walFramePage iFrame in
      case walHashGet ix k of
        None \<Rightarrow> (ix, SQLITE_IOERR_SHMMAP)
      | Some (sg, iZero) \<Rightarrow>
         let idx = iFrame - iZero;
             ix = (if idx = 1 then ix(k \<mapsto> \<lparr>aPgno = (\<lambda>_. 0), aHash = (\<lambda>_. 0)\<rparr>) else ix);
             sg = (if idx = 1 then \<lparr>aPgno = (\<lambda>_. 0), aHash = (\<lambda>_. 0)\<rparr> else sg);
             ix = (if aPgno sg (idx - 1) \<noteq> 0 then walCleanupHash ix mxFrame else ix)
         in case ix k of
              None \<Rightarrow> (ix, SQLITE_IOERR_SHMMAP)
            | Some sg \<Rightarrow>
               (case append_probe (aHash sg) (walHash iPage) idx of
                  None \<Rightarrow> (ix, SQLITE_CORRUPT)
                | Some iKey \<Rightarrow>
                   (ix(k \<mapsto> \<lparr>aPgno = (aPgno sg)((idx - 1) mod HASHTABLE_NPAGE := iPage),
                              aHash = (aHash sg)(iKey := idx)\<rparr>), SQLITE_OK)))"

text \<open>One hash table searched by \<^verbatim>\<open>walFindFrame\<close>; \<^const>\<open>None\<close> is the corruption exit.\<close>

definition frame_matches :: "wal_seg \<Rightarrow> nat \<Rightarrow> nat \<Rightarrow> nat \<Rightarrow> u32 \<Rightarrow> nat \<Rightarrow> bool" where
  "frame_matches sg iZero iLast minFrame pgno iH \<longleftrightarrow>
     iH + iZero \<le> iLast \<and> iH + iZero \<ge> minFrame \<and> aPgno sg ((iH - 1) mod HASHTABLE_NPAGE) = pgno"

fun find_probe :: "wal_seg \<Rightarrow> nat \<Rightarrow> nat \<Rightarrow> nat \<Rightarrow> u32 \<Rightarrow> nat \<Rightarrow> nat \<Rightarrow> nat \<Rightarrow> nat option" where
  "find_probe sg iZero iLast minFrame pgno iKey 0 iRead =
     (if aHash sg iKey = 0 then Some iRead else None)"
| "find_probe sg iZero iLast minFrame pgno iKey (Suc n) iRead =
     (let iH = aHash sg iKey in
      if iH = 0 then Some iRead
      else find_probe sg iZero iLast minFrame pgno (walNextHash iKey) n
        (if frame_matches sg iZero iLast minFrame pgno iH then iH + iZero else iRead))"

text \<open>
  The loop of \<^verbatim>\<open>walFindFrame\<close> over the tables, from the newest down to \<open>iMinHash\<close>; \<open>j\<close> counts the
  tables left.
\<close>

fun find_tables :: "wal_index \<Rightarrow> nat \<Rightarrow> nat \<Rightarrow> u32 \<Rightarrow> nat \<Rightarrow> nat \<Rightarrow> nat \<times> int" where
  "find_tables ix iLast minFrame pgno iMinHash 0 = (0, SQLITE_OK)"
| "find_tables ix iLast minFrame pgno iMinHash (Suc j) =
     (case walHashGet ix (iMinHash + j) of
        None \<Rightarrow> (0, SQLITE_IOERR_SHMMAP)
      | Some (sg, iZero) \<Rightarrow>
         (case find_probe sg iZero iLast minFrame pgno (walHash pgno) HASHTABLE_NSLOT 0 of
            None \<Rightarrow> (0, SQLITE_CORRUPT)
          | Some iRead \<Rightarrow> if iRead \<noteq> 0 then (iRead, SQLITE_OK) else find_tables ix iLast minFrame pgno iMinHash j))"

definition walFindFrame :: "wal_index \<Rightarrow> nat \<Rightarrow> nat \<Rightarrow> int \<Rightarrow> bool \<Rightarrow> u32 \<Rightarrow> nat \<times> int" where
  "walFindFrame ix iLast minFrame readLock bShmUnreliable pgno =
     (if iLast = 0 \<or> readLock = 0 \<and> \<not> bShmUnreliable then (0, SQLITE_OK)
      else let iMinHash = walFramePage minFrame in
           find_tables ix iLast minFrame pgno iMinHash (walFramePage iLast + 1 - iMinHash))"

text \<open>The loop of \<^verbatim>\<open>walFrames\<close> that enters the frames of a transaction into the index.\<close>

fun index_append_pages :: "wal_index \<Rightarrow> nat \<Rightarrow> nat \<Rightarrow> u32 list \<Rightarrow> wal_index \<times> int" where
  "index_append_pages ix mxFrame iFrame [] = (ix, SQLITE_OK)"
| "index_append_pages ix mxFrame iFrame (p # ps) =
     (case walIndexAppend ix mxFrame (iFrame + 1) p of
        (ix, rc) \<Rightarrow> if rc = SQLITE_OK then index_append_pages ix mxFrame (iFrame + 1) ps else (ix, rc))"

section \<open>One table\<close>

text \<open>The slot probed after \<open>d\<close> collisions.\<close>

definition slot :: "u32 \<Rightarrow> nat \<Rightarrow> nat" where
  "slot p d = (walHash p + d) mod HASHTABLE_NSLOT"

text \<open>
  A table with \<open>m\<close> entries: the page numbers of the entries are set and no others, every slot is
  free or holds an entry, no entry is in two slots, and entry \<open>v\<close> is found by probing from its
  hash over entries older than itself.
\<close>

definition placed :: "wal_seg \<Rightarrow> u32 \<Rightarrow> nat \<Rightarrow> nat \<Rightarrow> bool" where
  "placed sg p v d \<longleftrightarrow> d < HASHTABLE_NSLOT \<and> aHash sg (slot p d) = v \<and>
     (\<forall>e < d. 0 < aHash sg (slot p e) \<and> aHash sg (slot p e) < v)"

definition seg_ok :: "wal_seg \<Rightarrow> nat \<Rightarrow> bool" where
  "seg_ok sg m \<longleftrightarrow> m \<le> HASHTABLE_NPAGE \<and>
     (\<forall>i. aPgno sg i = 0 \<longleftrightarrow> m \<le> i) \<and>
     (\<forall>j < HASHTABLE_NSLOT. aHash sg j \<le> m) \<and>
     (\<forall>j < HASHTABLE_NSLOT. \<forall>k < HASHTABLE_NSLOT. aHash sg j \<noteq> 0 \<longrightarrow> aHash sg j = aHash sg k \<longrightarrow> j = k) \<and>
     (\<forall>v \<in> {1..m}. \<exists>d. placed sg (aPgno sg (v - 1)) v d)"

lemma seg_okD:
  assumes "seg_ok sg m"
  shows "m \<le> HASHTABLE_NPAGE" "aPgno sg i = 0 \<longleftrightarrow> m \<le> i" "j < HASHTABLE_NSLOT \<Longrightarrow> aHash sg j \<le> m"
    "j < HASHTABLE_NSLOT \<Longrightarrow> k < HASHTABLE_NSLOT \<Longrightarrow> aHash sg j \<noteq> 0 \<Longrightarrow> aHash sg j = aHash sg k \<Longrightarrow> j = k"
    "1 \<le> v \<Longrightarrow> v \<le> m \<Longrightarrow> \<exists>d. placed sg (aPgno sg (v - 1)) v d"
  using assms by (auto simp: seg_ok_def)

lemma seg_okI:
  assumes "m \<le> HASHTABLE_NPAGE" "\<And>i. aPgno sg i = 0 \<longleftrightarrow> m \<le> i" "\<And>j. j < HASHTABLE_NSLOT \<Longrightarrow> aHash sg j \<le> m"
    "\<And>j k. j < HASHTABLE_NSLOT \<Longrightarrow> k < HASHTABLE_NSLOT \<Longrightarrow> aHash sg j \<noteq> 0 \<Longrightarrow> aHash sg j = aHash sg k \<Longrightarrow> j = k"
    "\<And>v. 1 \<le> v \<Longrightarrow> v \<le> m \<Longrightarrow> \<exists>d. placed sg (aPgno sg (v - 1)) v d"
  shows "seg_ok sg m"
  using assms by (auto simp: seg_ok_def)

lemma walHash_less: "walHash p < HASHTABLE_NSLOT"
proof -
  have "(p * 383) AND 8191 \<le> 8191" by (rule word_and_le1)
  then have "unat ((p * 383) AND 8191) \<le> unat (8191 :: u32)" by (simp only: word_le_nat_alt)
  then show ?thesis by (simp add: walHash_def)
qed

lemma slot_less [simp]: "slot p d < HASHTABLE_NSLOT"
  by (simp add: slot_def)

lemma slot_0: "slot p 0 = walHash p"
  using walHash_less [of p] by (simp add: slot_def)

lemma slot_Suc: "walNextHash (slot p d) = slot p (Suc d)"
  by (simp add: walNextHash_def slot_def mod_Suc_eq)

lemma slot_inj:
  assumes "d < HASHTABLE_NSLOT" and "e < HASHTABLE_NSLOT"
  shows "slot p d = slot p e \<longleftrightarrow> d = e"
proof -
  have "slot p x = (if walHash p + x < 8192 then walHash p + x else walHash p + x - 8192)" if "x < 8192" for x
    using that walHash_less [of p] by (simp add: slot_def mod_if)
  with assms show ?thesis by auto
qed

text \<open>Some slot among the first \<open>m + 1\<close> of every probe sequence is free.\<close>

lemma free_slot:
  assumes "seg_ok sg m"
  obtains d where "d \<le> m" "aHash sg (slot p d) = 0" "\<And>e. e < d \<Longrightarrow> aHash sg (slot p e) \<noteq> 0"
proof -
  note m = seg_okD(1) [OF assms] and le = seg_okD(3) [OF assms] and inj = seg_okD(4) [OF assms]
  have "\<exists>d \<le> m. aHash sg (slot p d) = 0"
  proof (rule ccontr)
    assume "\<not> (\<exists>d \<le> m. aHash sg (slot p d) = 0)"
    then have nz: "\<And>d. d \<le> m \<Longrightarrow> aHash sg (slot p d) \<noteq> 0" by simp
    have "inj_on (\<lambda>d. aHash sg (slot p d)) {0..m}"
    proof (rule inj_onI)
      fix d e assume "d \<in> {0..m}" "e \<in> {0..m}" "aHash sg (slot p d) = aHash sg (slot p e)"
      then show "d = e" using inj [OF slot_less slot_less] nz [of d] slot_inj [of d e p] m by auto
    qed
    moreover have "(\<lambda>d. aHash sg (slot p d)) ` {0..m} \<subseteq> {1..m}" using nz le [OF slot_less] by (force simp: Suc_le_eq)
    ultimately have "card {0..m} \<le> card {1..m}" by (rule card_inj_on_le) simp
    then show False by simp
  qed
  then show thesis using that [of "LEAST d. aHash sg (slot p d) = 0"]
    by (metis (mono_tags, lifting) LeastI Least_le dual_order.trans linorder_not_le not_less_Least)
qed

lemma append_probe_finds:
  assumes "h (slot p d) = 0" and "\<And>e. e < d \<Longrightarrow> h (slot p e) \<noteq> 0" and "c \<le> d" and "d - c \<le> n"
  shows "append_probe h (slot p c) n = Some (slot p d)"
  using assms(3,4)
proof (induction n arbitrary: c)
  case 0
  then have "c = d" by simp
  with assms(1) show ?case by simp
next
  case (Suc n)
  show ?case
  proof (cases "c = d")
    case True
    with assms(1) show ?thesis by simp
  next
    case False
    with Suc.prems assms(2) have "h (slot p c) \<noteq> 0" by simp
    moreover have "append_probe h (slot p (Suc c)) n = Some (slot p d)"
      using Suc.IH [of "Suc c"] Suc.prems False by simp
    ultimately show ?thesis by (simp add: slot_Suc del: add_Suc_right)
  qed
qed

lemma seg_ok_empty: "seg_ok \<lparr>aPgno = (\<lambda>_. 0), aHash = (\<lambda>_. 0)\<rparr> 0"
  by (simp add: seg_ok_def)

lemma seg_ok_cleanup:
  assumes "seg_ok sg m" and "l \<le> m"
  shows "seg_ok (sg\<lparr>aHash := (\<lambda>i. if aHash sg i > l then 0 else aHash sg i), aPgno := (\<lambda>i. if i \<ge> l then 0 else aPgno sg i)\<rparr>) l"
    (is "seg_ok ?c l")
proof (rule seg_okI)
  fix v assume v: "1 \<le> v" "v \<le> l"
  then obtain d where "placed sg (aPgno sg (v - 1)) v d" using seg_okD(5) [OF assms(1), of v] assms(2) by auto
  moreover have "aPgno ?c (v - 1) = aPgno sg (v - 1)" using v by auto
  ultimately show "\<exists>d. placed ?c (aPgno ?c (v - 1)) v d"
    using v by (intro exI [of _ d]) (auto simp: placed_def)
qed (use seg_okD [OF assms(1)] assms(2) in \<open>auto split: if_splits\<close>)

lemma placed_unique:
  assumes "seg_ok sg m" and "placed sg p v d" and "placed sg p v e" and "v \<noteq> 0"
  shows "d = e"
  using assms seg_okD(4) [OF assms(1) slot_less slot_less, of p d p e] slot_inj [of d e p] by (auto simp: placed_def)

lemma seg_ok_insert:
  assumes ok: "seg_ok sg m" and "m < HASHTABLE_NPAGE" and "p \<noteq> 0"
    and free: "d \<le> m" "aHash sg (slot p d) = 0" "\<And>e. e < d \<Longrightarrow> aHash sg (slot p e) \<noteq> 0"
  shows "seg_ok \<lparr>aPgno = (aPgno sg)(m := p), aHash = (aHash sg)(slot p d := Suc m)\<rparr> (Suc m)" (is "seg_ok ?s _")
proof (rule seg_okI)
  fix v assume v: "1 \<le> v" "v \<le> Suc m"
  show "\<exists>d. placed ?s (aPgno ?s (v - 1)) v d"
  proof (cases "v = Suc m")
    case True
    have "aHash sg (slot p e) < Suc m \<and> slot p e \<noteq> slot p d" if "e < d" for e
      using that free assms(2) seg_okD(3) [OF ok slot_less] slot_inj [of e d p] by (simp add: less_Suc_eq_le)
    with True free assms(2) show ?thesis by (intro exI [of _ d]) (auto simp: placed_def)
  next
    case False
    then have v': "v \<le> m" "v - 1 \<noteq> m" using v by auto
    let ?q = "aPgno sg (v - 1)"
    obtain e where e: "placed sg ?q v e" using seg_okD(5) [OF ok v(1) v'(1)] by blast
    have "slot ?q x \<noteq> slot p d" if "x \<le> e" for x
    proof -
      have "aHash sg (slot ?q x) \<noteq> 0" using that e v(1) by (cases "x = e") (auto simp: placed_def)
      then show ?thesis using free(2) by auto
    qed
    with e v' show ?thesis by (intro exI [of _ e]) (auto simp: placed_def)
  qed
next
  fix j k
  have new: "aHash sg i \<noteq> Suc m" if "i < 8192" for i using seg_okD(3) [OF ok that] by simp
  assume "j < 8192" "k < 8192" "aHash ?s j \<noteq> 0" "aHash ?s j = aHash ?s k"
  then show "j = k" using seg_okD(4) [OF ok, of j k] new [of j] new [of k] by (auto split: if_splits)
qed (use seg_okD [OF ok] assms(2,3) in \<open>auto simp: le_Suc_eq not_le split: if_splits\<close>)

section \<open>Searching one table\<close>

definition path_frame :: "wal_seg \<Rightarrow> nat \<Rightarrow> nat \<Rightarrow> nat \<Rightarrow> u32 \<Rightarrow> nat \<Rightarrow> nat \<Rightarrow> nat" where
  "path_frame sg iZero iLast minFrame pgno d r =
     (if frame_matches sg iZero iLast minFrame pgno (aHash sg (slot pgno d)) then aHash sg (slot pgno d) + iZero else r)"

lemma find_probe_path:
  assumes "aHash sg (slot p d) = 0" and "\<And>e. e < d \<Longrightarrow> aHash sg (slot p e) \<noteq> 0" and "c \<le> d" and "d - c \<le> n"
  shows "find_probe sg z iL mn p (slot p c) n r = Some (fold (path_frame sg z iL mn p) [c..<d] r)"
  using assms(3,4)
proof (induction n arbitrary: c r)
  case 0
  then show ?case using assms(1) by simp
next
  case (Suc n)
  show ?case
  proof (cases "c = d")
    case True
    with assms(1) show ?thesis by simp
  next
    case False
    then have "c < d" "aHash sg (slot p c) \<noteq> 0" using Suc.prems assms(2) by simp_all
    moreover have "find_probe sg z iL mn p (slot p (Suc c)) n r' = Some (fold (path_frame sg z iL mn p) [Suc c..<d] r')" for r'
      using Suc.IH [of "Suc c"] Suc.prems False by simp
    ultimately show ?thesis
      by (simp add: slot_Suc Let_def upt_conv_Cons) (simp add: path_frame_def [of sg z iL mn p c])
  qed
qed

lemma fold_path_none:
  "\<forall>x \<in> set ds. \<not> frame_matches sg z iL mn p (aHash sg (slot p x)) \<Longrightarrow> fold (path_frame sg z iL mn p) ds r = r"
  by (induction ds arbitrary: r) (auto simp: path_frame_def)

lemma fold_path_last:
  assumes "d < D" and "frame_matches sg z iL mn p (aHash sg (slot p d))"
    and "\<forall>x. d < x \<and> x < D \<longrightarrow> \<not> frame_matches sg z iL mn p (aHash sg (slot p x))"
  shows "fold (path_frame sg z iL mn p) [0..<D] r = aHash sg (slot p d) + z"
proof -
  have "[0..<D] = [0..<d] @ d # [Suc d..<D]" using assms(1) upt_add_eq_append [of 0 d "D - d"]
    by (simp add: upt_conv_Cons)
  moreover have "fold (path_frame sg z iL mn p) [Suc d..<D] r' = r'" for r'
    using assms(3) by (intro fold_path_none) auto
  ultimately show ?thesis using assms(2) by (simp add: path_frame_def)
qed

text \<open>The entries of the table for page \<open>p\<close> that a reader may use.\<close>

definition candidates :: "wal_seg \<Rightarrow> nat \<Rightarrow> nat \<Rightarrow> nat \<Rightarrow> nat \<Rightarrow> u32 \<Rightarrow> nat set" where
  "candidates sg m z iL mn p = {v. 1 \<le> v \<and> v \<le> m \<and> v + z \<le> iL \<and> mn \<le> v + z \<and> aPgno sg (v - 1) = p}"

lemma frame_matches_iff:
  "m \<le> HASHTABLE_NPAGE \<Longrightarrow> 1 \<le> v \<Longrightarrow> v \<le> m \<Longrightarrow> frame_matches sg z iL mn p v \<longleftrightarrow> v \<in> candidates sg m z iL mn p"
  by (simp add: frame_matches_def candidates_def)

lemma find_probe_max:
  assumes ok: "seg_ok sg m" 
  shows "find_probe sg z iL mn p (walHash p) HASHTABLE_NSLOT 0 =
    Some (let C = candidates sg m z iL mn p in if C = {} then 0 else Max C + z)"
proof -
  obtain D where D: "D \<le> m" "aHash sg (slot p D) = 0" "\<And>e. e < D \<Longrightarrow> aHash sg (slot p e) \<noteq> 0"
    using free_slot [OF ok] by blast
  note m = seg_okD(1) [OF ok]
  let ?C = "candidates sg m z iL mn p"
  have val: "1 \<le> aHash sg (slot p d) \<and> aHash sg (slot p d) \<le> m" if "d < D" for d
    using D(3) [OF that] seg_okD(3) [OF ok slot_less] by (simp add: Suc_le_eq)
  have match: "frame_matches sg z iL mn p (aHash sg (slot p d)) \<longleftrightarrow> aHash sg (slot p d) \<in> ?C" if "d < D" for d
    using frame_matches_iff [OF m] val [OF that] by blast
  have run: "find_probe sg z iL mn p (walHash p) 8192 0 = Some (fold (path_frame sg z iL mn p) [0..<D] 0)"
    using find_probe_path [OF D(2,3), of 0 8192] D(1) m by (simp add: slot_0)
  show ?thesis
  proof (cases "?C = {}")
    case True
    then show ?thesis using run match by (simp add: fold_path_none)
  next
    case False
    define v where "v = Max ?C"
    have fin: "finite ?C" by (rule finite_subset [of _ "{..m}"]) (auto simp: candidates_def)
    have v: "v \<in> ?C" "\<And>w. w \<in> ?C \<Longrightarrow> w \<le> v" using fin False by (auto simp: v_def)
    then have vp: "1 \<le> v" "v \<le> m" "aPgno sg (v - 1) = p" by (auto simp: candidates_def)
    obtain d where d: "placed sg p v d" using seg_okD(5) [OF ok vp(1,2)] vp(3) by auto
    have dD: "d < D"
    proof (rule ccontr)
      assume "\<not> d < D"
      then have "aHash sg (slot p D) \<noteq> 0" using d vp(1) by (cases "D = d") (auto simp: placed_def)
      with D(2) show False by simp
    qed
    have later: "aHash sg (slot p x) \<notin> ?C" if x: "d < x" "x < D" for x
    proof
      assume c: "aHash sg (slot p x) \<in> ?C"
      let ?w = "aHash sg (slot p x)"
      have w: "1 \<le> ?w" "?w \<le> m" "aPgno sg (?w - 1) = p" using c by (auto simp: candidates_def)
      obtain e where e: "placed sg p ?w e" using seg_okD(5) [OF ok w(1,2)] w(3) by auto
      have lt: "x < 8192" "d < 8192" using x(2) D(1) m d by (auto simp: placed_def)
      have "slot p e = slot p x"
        using seg_okD(4) [OF ok slot_less slot_less, of p e p x] e w(1) by (auto simp: placed_def)
      then have "e = x" using slot_inj [of e x p] e lt by (auto simp: placed_def)
      with e x(1) have "aHash sg (slot p d) < ?w" by (auto simp: placed_def)
      with d v(2) [OF c] show False by (simp add: placed_def)
    qed
    have "fold (path_frame sg z iL mn p) [0..<D] 0 = aHash sg (slot p d) + z"
      using dD match later v(1) d by (intro fold_path_last) (auto simp: placed_def)
    with run False d show ?thesis by (simp add: v_def placed_def Let_def)
  qed
qed

section \<open>The whole index\<close>

definition seg_size :: "nat \<Rightarrow> nat" where
  "seg_size k = (if k = 0 then HASHTABLE_NPAGE_ONE else HASHTABLE_NPAGE)"

definition seg_count :: "u32 list \<Rightarrow> nat \<Rightarrow> nat" where
  "seg_count log k = min (seg_size k) (length log - hash_iZero k)"

text \<open>
  The index represents the page numbers of the frames in the log. The table of the last segment
  may hold further entries left by a transaction that was rolled back or never finished, unless
  it is clean.
\<close>

definition seg_rep :: "wal_index \<Rightarrow> u32 list \<Rightarrow> bool \<Rightarrow> nat \<Rightarrow> wal_seg \<Rightarrow> nat \<Rightarrow> bool" where
  "seg_rep ix log clean k sg m \<longleftrightarrow> ix k = Some sg \<and> seg_ok sg m \<and> seg_count log k \<le> m \<and> m \<le> seg_size k \<and>
     (clean \<longrightarrow> m = seg_count log k) \<and> (\<forall>i < seg_count log k. aPgno sg i = log ! (hash_iZero k + i))"

definition index_ok :: "wal_index \<Rightarrow> u32 list \<Rightarrow> bool \<Rightarrow> bool" where
  "index_ok ix log clean \<longleftrightarrow> (\<forall>k. ix k \<noteq> None) \<and>
     (\<forall>k. hash_iZero k < length log \<longrightarrow> (\<exists>sg m. seg_rep ix log clean k sg m))"

lemma hash_iZero_Suc: "hash_iZero (Suc k) = hash_iZero k + seg_size k"
  by (cases k) (simp_all add: hash_iZero_def seg_size_def)

lemma hash_iZero_mono: "j \<le> k \<Longrightarrow> hash_iZero j \<le> hash_iZero k"
  by (auto simp: hash_iZero_def diff_le_mono)

lemma walFramePage_bounds:
  assumes "1 \<le> f"
  shows "hash_iZero (walFramePage f) < f" "f \<le> hash_iZero (Suc (walFramePage f))"
proof -
  have "4096 * ((f + 33) div 4096) + (f + 33) mod 4096 = f + 33" "(f + 33) mod 4096 < 4096" by simp_all
  moreover have w: "walFramePage f = (f + 33) div 4096" by (simp add: walFramePage_def)
  ultimately show "hash_iZero (walFramePage f) < f" "f \<le> hash_iZero (Suc (walFramePage f))"
    using assms unfolding w by (cases "(f + 33) div 4096"; simp add: hash_iZero_def)+
qed

lemma walFramePage_unique:
  assumes "hash_iZero k < f" and "f \<le> hash_iZero (Suc k)"
  shows "walFramePage f = k"
proof (rule linorder_cases [of "walFramePage f" k])
  note b = walFramePage_bounds [of f]
  assume "walFramePage f < k"
  then show ?thesis using hash_iZero_mono [of "Suc (walFramePage f)" k] b assms by simp
next
  note b = walFramePage_bounds [of f]
  assume "k < walFramePage f"
  then show ?thesis using hash_iZero_mono [of "Suc k" "walFramePage f"] b assms by simp
qed

lemma walCleanupHash_eq:
  assumes "hash_iZero k < n" and "n \<le> hash_iZero (Suc k)" and "ix k = Some sg"
  shows "walCleanupHash ix n = ix(k \<mapsto> sg\<lparr>aHash := (\<lambda>i. if aHash sg i > n - hash_iZero k then 0 else aHash sg i),
    aPgno := (\<lambda>i. if i \<ge> n - hash_iZero k then 0 else aPgno sg i)\<rparr>)"
  using assms walFramePage_unique [OF assms(1,2)] by (simp add: walCleanupHash_def walHashGet_def Let_def)

lemma walIndexAppend_eq:
  assumes "walFramePage iFrame = k" and "iFrame - hash_iZero k = idx" and "ix k = Some s0"
    and "e = \<lparr>aPgno = (\<lambda>_. 0), aHash = (\<lambda>_. 0)\<rparr>" and "s1 = (if idx = 1 then e else s0)"
    and "ix1 = (if idx = 1 then ix(k \<mapsto> e) else ix)"
    and "ix2 = (if aPgno s1 (idx - 1) \<noteq> 0 then walCleanupHash ix1 mxFrame else ix1)" and "ix2 k = Some sg"
  shows "walIndexAppend ix mxFrame iFrame p =
    (case append_probe (aHash sg) (walHash p) idx of
       None \<Rightarrow> (ix2, SQLITE_CORRUPT)
     | Some iKey \<Rightarrow> (ix2(k \<mapsto> \<lparr>aPgno = (aPgno sg)((idx - 1) mod HASHTABLE_NPAGE := p), aHash = (aHash sg)(iKey := idx)\<rparr>), SQLITE_OK))"
  unfolding walIndexAppend_def walHashGet_def Let_def assms(1,3) option.case prod.case assms(2)
    assms(4) [symmetric] assms(5) [symmetric] assms(6) [symmetric] assms(7) [symmetric] assms(8) by (rule refl)

text \<open>
  Before the new entry is written, the table of its segment holds exactly the earlier frames of
  the log: it was zeroed, or cleaned of leftovers, or it was clean.
\<close>

lemma append_prepared:
  assumes ok: "index_ok ix log clean" and mx: "\<not> clean \<Longrightarrow> mxFrame = length log"
    and k_def: "k = walFramePage (length log + 1)" and idx_def: "idx = length log + 1 - hash_iZero k"
  obtains ix' sg where "ix' k = Some sg" "seg_ok sg (idx - 1)" "\<forall>i < idx - 1. aPgno sg i = log ! (hash_iZero k + i)"
    "\<forall>j. j \<noteq> k \<longrightarrow> ix' j = ix j"
    "walIndexAppend ix mxFrame (length log + 1) p =
       (case append_probe (aHash sg) (walHash p) idx of
          None \<Rightarrow> (ix', SQLITE_CORRUPT)
        | Some iKey \<Rightarrow> (ix'(k \<mapsto> \<lparr>aPgno = (aPgno sg)((idx - 1) mod HASHTABLE_NPAGE := p), aHash = (aHash sg)(iKey := idx)\<rparr>), SQLITE_OK))"
proof -
  note kb = walFramePage_bounds [of "length log + 1", folded k_def]
  obtain s0 where s0: "ix k = Some s0" using ok by (auto simp: index_ok_def)
  define e where "e = \<lparr>aPgno = (\<lambda>_. 0 :: u32), aHash = (\<lambda>_. 0 :: nat)\<rparr>"
  have kd: "walFramePage (length log + 1) = k" "length log + 1 - hash_iZero k = idx" by (simp_all add: k_def idx_def)
  note app = walIndexAppend_eq [where p = p and mxFrame = mxFrame and ix = ix, OF kd s0 e_def refl]
  show thesis
  proof (cases "idx = 1")
    case True
    show thesis
    proof (rule that [of "ix(k \<mapsto> e)" e])
      show "seg_ok e (idx - 1)" using seg_ok_empty True by (simp add: e_def)
    qed (use True app [of "ix(k \<mapsto> e)" "ix(k \<mapsto> e)" e] in \<open>simp_all add: e_def\<close>)
  next
    case False
    then have lt: "hash_iZero k < length log" using kb by (simp add: idx_def)
    then obtain sg m where "seg_rep ix log clean k sg m" using ok by (auto simp: index_ok_def)
    with s0 have m: "seg_rep ix log clean k s0 m" by (simp add: seg_rep_def)
    have cnt: "seg_count log k = idx - 1" using kb lt by (simp add: seg_count_def hash_iZero_Suc idx_def)
    show thesis
    proof (cases "aPgno s0 (idx - 1) = 0")
      case True
      then have "m = idx - 1" using m cnt seg_okD(2) [of s0 m "idx - 1"] by (auto simp: seg_rep_def)
      then show thesis
        by (intro that [of ix s0]) (use m cnt True False s0 app [of ix ix s0] in \<open>simp_all add: seg_rep_def\<close>)
    next
      case stale: False
      let ?c = "s0\<lparr>aHash := (\<lambda>i. if aHash s0 i > idx - 1 then 0 else aHash s0 i), aPgno := (\<lambda>i. if i \<ge> idx - 1 then 0 else aPgno s0 i)\<rparr>"
      have im: "idx - 1 < m" using m stale seg_okD(2) [of s0 m "idx - 1"] by (auto simp: seg_rep_def)
      then have "\<not> clean" using m cnt by (auto simp: seg_rep_def)
      then have mxF: "mxFrame = length log" by (rule mx)
      have "length log - hash_iZero k = idx - 1" by (simp add: idx_def)
      then have cl: "walCleanupHash ix mxFrame = ix(k \<mapsto> ?c)"
        using walCleanupHash_eq [where ix = ix, OF lt _ s0] kb by (simp add: mxF)
      have ok': "seg_ok ?c (idx - 1)" using seg_ok_cleanup [of s0 m "idx - 1"] m im by (simp add: seg_rep_def)
      show thesis
        by (rule that [of "ix(k \<mapsto> ?c)" ?c, OF _ ok'])
          (use m cnt False stale app [of ix "ix(k \<mapsto> ?c)" ?c] in \<open>simp_all add: seg_rep_def cl\<close>)
    qed
  qed
qed

lemma append_step:
  assumes ok: "index_ok ix log clean" and mx: "\<not> clean \<Longrightarrow> mxFrame = length log" and p: "p \<noteq> 0"
  shows "snd (walIndexAppend ix mxFrame (length log + 1) p) = SQLITE_OK \<and>
    index_ok (fst (walIndexAppend ix mxFrame (length log + 1) p)) (log @ [p]) True"
proof -
  define k where "k = walFramePage (length log + 1)"
  define idx where "idx = length log + 1 - hash_iZero k"
  obtain ix' sg where a: "ix' k = Some sg" "seg_ok sg (idx - 1)" "\<forall>i < idx - 1. aPgno sg i = log ! (hash_iZero k + i)"
    "\<forall>j. j \<noteq> k \<longrightarrow> ix' j = ix j"
    and app: "walIndexAppend ix mxFrame (length log + 1) p =
       (case append_probe (aHash sg) (walHash p) idx of
          None \<Rightarrow> (ix', SQLITE_CORRUPT)
        | Some iKey \<Rightarrow> (ix'(k \<mapsto> \<lparr>aPgno = (aPgno sg)((idx - 1) mod 4096 := p), aHash = (aHash sg)(iKey := idx)\<rparr>), SQLITE_OK))"
    using append_prepared [OF ok mx k_def idx_def, where p = p] by blast
  note kb = walFramePage_bounds [of "length log + 1", folded k_def]
  have idx: "1 \<le> idx" "idx \<le> seg_size k" "hash_iZero k + (idx - 1) = length log"
    using kb by (simp_all add: idx_def hash_iZero_Suc)
  have small: "seg_size k \<le> 4096" by (simp add: seg_size_def)
  obtain d where d: "d \<le> idx - 1" "aHash sg (slot p d) = 0" "\<And>e. e < d \<Longrightarrow> aHash sg (slot p e) \<noteq> 0"
    using free_slot [OF a(2)] by blast
  have probe: "append_probe (aHash sg) (walHash p) idx = Some (slot p d)"
    using append_probe_finds [where h = "aHash sg" and c = 0 and n = idx, OF d(2,3)] d(1) by (simp add: slot_0)
  let ?s = "\<lparr>aPgno = (aPgno sg)(idx - 1 := p), aHash = (aHash sg)(slot p d := idx)\<rparr>"
  have app': "walIndexAppend ix mxFrame (length log + 1) p = (ix'(k \<mapsto> ?s), SQLITE_OK)"
    using app probe idx small by simp
  have new: "seg_ok ?s idx" using seg_ok_insert [OF a(2) _ p d] idx small by simp
  have "index_ok (ix'(k \<mapsto> ?s)) (log @ [p]) True"
    unfolding index_ok_def
  proof (intro conjI allI impI)
    fix j show "(ix'(k \<mapsto> ?s)) j \<noteq> None" using ok a(4) by (cases "j = k") (auto simp: index_ok_def)
  next
    fix j assume j: "hash_iZero j < length (log @ [p])"
    show "\<exists>sg m. seg_rep (ix'(k \<mapsto> ?s)) (log @ [p]) True j sg m"
    proof (cases "j = k")
      case True
      have c: "seg_count (log @ [p]) k = idx" using idx by (simp add: seg_count_def idx_def)
      have "\<forall>i < idx. aPgno ?s i = (log @ [p]) ! (hash_iZero k + i)"
        using a(3) idx by (auto simp: nth_append less_Suc_eq)
      with True c new idx show ?thesis
        by (intro exI [of _ ?s] exI [of _ idx]) (simp add: seg_rep_def)
    next
      case False
      have "\<not> hash_iZero (Suc k) \<le> hash_iZero j" using j kb by simp
      then have "\<not> Suc k \<le> j" using hash_iZero_mono by blast
      then have "Suc j \<le> k" using False by simp
      then have le: "hash_iZero (Suc j) \<le> length log" using hash_iZero_mono [of "Suc j" k] kb by simp
      have sz: "0 < seg_size j" by (simp add: seg_size_def)
      with le have lt: "hash_iZero j < length log" by (simp add: hash_iZero_Suc)
      then obtain sg' m where r: "seg_rep ix log clean j sg' m" using ok by (auto simp: index_ok_def)
      have c: "seg_count (log @ [p]) j = seg_size j" "seg_count log j = seg_size j"
        using le by (simp_all add: seg_count_def hash_iZero_Suc)
      have "(ix'(k \<mapsto> ?s)) j = ix j" using a(4) False by simp
      moreover have "(log @ [p]) ! (hash_iZero j + i) = log ! (hash_iZero j + i)" if "i < seg_size j" for i
        using le that by (simp add: nth_append hash_iZero_Suc)
      ultimately show ?thesis using r by (intro exI [of _ sg'] exI [of _ m]) (simp add: seg_rep_def c)
    qed
  qed
  with app' show ?thesis by simp
qed

section \<open>The newest frame of a page\<close>

text \<open>The linear search the code uses to check itself under \<^verbatim>\<open>SQLITE_ENABLE_EXPENSIVE_ASSERT\<close>.\<close>

fun find_linear :: "wal_index \<Rightarrow> nat \<Rightarrow> u32 \<Rightarrow> nat \<Rightarrow> nat" where
  "find_linear ix minFrame pgno 0 = 0"
| "find_linear ix minFrame pgno (Suc f) =
     (if Suc f < minFrame then 0
      else if walFramePgno ix (Suc f) = Some pgno then Suc f else find_linear ix minFrame pgno f)"

definition frames_of :: "u32 list \<Rightarrow> nat \<Rightarrow> nat \<Rightarrow> nat \<Rightarrow> u32 \<Rightarrow> nat set" where
  "frames_of log lo hi mn p = {f. lo < f \<and> f \<le> hi \<and> mn \<le> f \<and> log ! (f - 1) = p}"

lemma finite_frames_of [simp]: "finite (frames_of log lo hi mn p)"
  by (rule finite_subset [of _ "{..hi}"]) (auto simp: frames_of_def)

definition newest :: "u32 list \<Rightarrow> nat \<Rightarrow> nat \<Rightarrow> u32 \<Rightarrow> nat" where
  "newest log mn hi p = (let F = frames_of log 0 hi mn p in if F = {} then 0 else Max F)"

lemma newest_split:
  assumes "lo \<le> hi"
  shows "newest log mn hi p = (if frames_of log lo hi mn p = {} then newest log mn lo p else Max (frames_of log lo hi mn p))"
proof -
  have u: "frames_of log 0 hi mn p = frames_of log 0 lo mn p \<union> frames_of log lo hi mn p"
    using assms by (auto simp: frames_of_def)
  show ?thesis
  proof (cases "frames_of log lo hi mn p = {}")
    case True
    with u show ?thesis by (simp add: newest_def)
  next
    case False
    have "Max (frames_of log 0 lo mn p \<union> frames_of log lo hi mn p) = Max (frames_of log lo hi mn p)"
    proof (rule Max_eqI)
      fix y assume "y \<in> frames_of log 0 lo mn p \<union> frames_of log lo hi mn p"
      moreover have "lo < Max (frames_of log lo hi mn p)" using Max_in [OF _ False] by (auto simp: frames_of_def)
      ultimately show "y \<le> Max (frames_of log lo hi mn p)" by (auto simp: frames_of_def [of log 0])
    qed (use False in auto)
    with False u show ?thesis by (simp add: newest_def)
  qed
qed

lemma index_segD:
  assumes "index_ok ix log clean" and "hash_iZero k < length log"
  obtains sg m where "ix k = Some sg" "seg_ok sg m" "seg_count log k \<le> m" "m \<le> seg_size k"
    "\<And>i. i < seg_count log k \<Longrightarrow> aPgno sg i = log ! (hash_iZero k + i)"
  using assms unfolding index_ok_def seg_rep_def by blast

text \<open>The candidates of one table are the frames of the log that lie in its segment.\<close>

lemma candidates_frames:
  assumes "seg_count log k \<le> m" "m \<le> seg_size k" "\<And>i. i < seg_count log k \<Longrightarrow> aPgno sg i = log ! (hash_iZero k + i)"
    and "iL \<le> length log" and "hash_iZero k < iL"
  shows "(\<lambda>v. v + hash_iZero k) ` candidates sg m (hash_iZero k) iL mn p =
    frames_of log (hash_iZero k) (min iL (hash_iZero (Suc k))) mn p"
proof (intro set_eqI iffI)
  let ?z = "hash_iZero k"
  fix f assume "f \<in> (\<lambda>v. v + ?z) ` candidates sg m ?z iL mn p"
  then obtain v where f: "f = v + ?z" and v: "1 \<le> v" "v \<le> m" "v + ?z \<le> iL" "mn \<le> v + ?z" "aPgno sg (v - 1) = p"
    by (auto simp: candidates_def)
  have "v - 1 < seg_count log k" using v assms(2,4) by (auto simp: seg_count_def)
  from assms(3) [OF this] v show "f \<in> frames_of log ?z (min iL (hash_iZero (Suc k))) mn p"
    using assms(2) by (auto simp: f frames_of_def hash_iZero_Suc add.commute)
next
  let ?z = "hash_iZero k"
  fix f assume "f \<in> frames_of log ?z (min iL (hash_iZero (Suc k))) mn p"
  then have f: "?z < f" "f \<le> iL" "f \<le> ?z + seg_size k" "mn \<le> f" "log ! (f - 1) = p"
    by (auto simp: frames_of_def hash_iZero_Suc)
  have "f - ?z - 1 < seg_count log k" using f assms(4) by (auto simp: seg_count_def)
  from assms(3) [OF this] f this assms(1) show "f \<in> (\<lambda>v. v + ?z) ` candidates sg m ?z iL mn p"
    by (intro image_eqI [of _ _ "f - ?z"]) (auto simp: candidates_def)
qed

lemma Max_shift:
  fixes A :: "nat set"
  assumes "finite A" and "A \<noteq> {}"
  shows "Max ((\<lambda>v. v + z) ` A) = Max A + z"
  using mono_Max_commute [of "\<lambda>v. v + z" A] assms by (simp add: mono_def)

lemma find_tables_newest:
  assumes ok: "index_ok ix log clean" and iL: "iL \<le> length log" "1 \<le> iL" and mn: "1 \<le> mn"
  shows "walFramePage mn + j \<le> walFramePage iL + 1 \<Longrightarrow>
    find_tables ix iL mn p (walFramePage mn) j = (newest log mn (min iL (hash_iZero (walFramePage mn + j))) p, SQLITE_OK)"
proof (induction j)
  case 0
  have "hash_iZero (walFramePage mn) < mn" using walFramePage_bounds [OF mn] by simp
  then have "frames_of log 0 (min iL (hash_iZero (walFramePage mn))) mn p = {}" by (auto simp: frames_of_def)
  then show ?case by (simp add: newest_def)
next
  case (Suc j)
  define k where "k = walFramePage mn + j"
  let ?z = "hash_iZero k"
  have "k \<le> walFramePage iL" using Suc.prems by (simp add: k_def)
  then have z: "?z < iL" using hash_iZero_mono [of k "walFramePage iL"] walFramePage_bounds [OF iL(2)] by simp
  obtain sg m where sg: "ix k = Some sg" "seg_ok sg m" "seg_count log k \<le> m" "m \<le> seg_size k"
    "\<And>i. i < seg_count log k \<Longrightarrow> aPgno sg i = log ! (?z + i)"
    using index_segD [OF ok, of k] z iL by auto
  let ?C = "candidates sg m ?z iL mn p" and ?F = "frames_of log ?z (min iL (hash_iZero (Suc k))) mn p"
  have F: "(\<lambda>v. v + ?z) ` ?C = ?F" by (rule candidates_frames [OF sg(3-5) iL(1) z])
  have fin: "finite ?C" by (rule finite_subset [of _ "{..m}"]) (auto simp: candidates_def)
  have probe: "find_probe sg ?z iL mn p (walHash p) 8192 0 = Some (if ?F = {} then 0 else Max ?F)"
    using find_probe_max [OF sg(2), of ?z iL mn p] Max_shift [OF fin, of ?z] F by (auto simp: Let_def)
  have le: "?z \<le> min iL (hash_iZero (Suc k))" using z by (simp add: hash_iZero_Suc)
  have mz: "min iL ?z = ?z" using z by simp
  have "?F \<noteq> {} \<Longrightarrow> Max ?F \<noteq> 0" using Max_in [of ?F] by (auto simp: frames_of_def)
  moreover have "find_tables ix iL mn p (walFramePage mn) j = (newest log mn ?z p, SQLITE_OK)"
    using Suc.IH Suc.prems mz by (simp add: k_def)
  moreover have "walHashGet ix (walFramePage mn + j) = Some (sg, ?z)"
    using sg(1) by (simp add: walHashGet_def flip: k_def)
  ultimately show ?case
    using newest_split [OF le, of log mn p] probe by (cases "?F = {}") (simp_all flip: k_def)
qed

lemma walFindFrame_newest:
  assumes ok: "index_ok ix log clean" and iL: "iL \<le> length log" "1 \<le> iL" and mn: "1 \<le> mn" "mn \<le> iL + 1"
    and "readLock \<noteq> 0"
  shows "walFindFrame ix iL mn readLock u p = (newest log mn iL p, SQLITE_OK)"
proof -
  have "walFramePage mn \<le> walFramePage iL + 1"
  proof (rule ccontr)
    assume "\<not> walFramePage mn \<le> walFramePage iL + 1"
    then have "hash_iZero (Suc (Suc (walFramePage iL))) \<le> hash_iZero (walFramePage mn)" by (intro hash_iZero_mono) simp
    then have "hash_iZero (Suc (walFramePage iL)) + 4096 \<le> hash_iZero (walFramePage mn)"
      by (simp add: hash_iZero_Suc [of "Suc (walFramePage iL)"] seg_size_def)
    then show False using walFramePage_bounds [OF iL(2)] walFramePage_bounds [OF mn(1)] mn(2) by simp
  qed
  then have j: "walFramePage mn + (walFramePage iL + 1 - walFramePage mn) = Suc (walFramePage iL)" by simp
  have "min iL (hash_iZero (Suc (walFramePage iL))) = iL" using walFramePage_bounds [OF iL(2)] by simp
  with find_tables_newest [OF ok iL mn(1), of "walFramePage iL + 1 - walFramePage mn" p] j iL(2) assms(6)
  show ?thesis by (simp add: walFindFrame_def Let_def)
qed

lemma walFramePgno_log:
  assumes ok: "index_ok ix log clean" and "1 \<le> f" and "f \<le> length log"
  shows "walFramePgno ix f = Some (log ! (f - 1))"
proof -
  define k where "k = walFramePage f"
  note b = walFramePage_bounds [OF assms(2), folded k_def]
  obtain sg m where sg: "ix k = Some sg" "seg_ok sg m" "seg_count log k \<le> m" "m \<le> seg_size k"
    "\<And>i. i < seg_count log k \<Longrightarrow> aPgno sg i = log ! (hash_iZero k + i)"
    using index_segD [OF ok, of k] b(1) assms(3) by auto
  have i: "f - 1 - hash_iZero k < seg_count log k" using b assms(2,3) by (auto simp: seg_count_def hash_iZero_Suc)
  have "k \<noteq> 0 \<Longrightarrow> (f - 1 - 4062) mod 4096 = f - 1 - hash_iZero k"
  proof -
    assume "k \<noteq> 0"
    then obtain j where j: "k = Suc j" by (cases k) auto
    then have "f - 1 - 4062 = (f - 1 - hash_iZero k) + j * 4096" "f - 1 - hash_iZero k < 4096"
      using b by (simp_all add: hash_iZero_def)
    then show ?thesis by (metis mod_less mod_mult_self1)
  qed
  then have "walFramePgno ix f = Some (aPgno sg (f - 1 - hash_iZero k))"
    using sg(1) by (auto simp: walFramePgno_def Let_def hash_iZero_def simp flip: k_def)
  with sg(5) [OF i] b show ?thesis by simp
qed

lemma find_linear_newest:
  assumes "index_ok ix log clean" and "f \<le> length log"
  shows "find_linear ix mn p f = newest log mn f p"
  using assms(2)
proof (induction f)
  case 0
  then show ?case by (simp add: newest_def frames_of_def)
next
  case (Suc f)
  have pg: "walFramePgno ix (Suc f) = Some (log ! f)" using walFramePgno_log [OF assms(1), of "Suc f"] Suc.prems by simp
  have F: "frames_of log f (Suc f) mn p = (if mn \<le> Suc f \<and> log ! f = p then {Suc f} else {})"
    by (auto simp: frames_of_def le_Suc_eq)
  have "Suc f < mn \<Longrightarrow> newest log mn f p = 0" by (auto simp: newest_def frames_of_def Let_def)
  with Suc newest_split [of f "Suc f" log mn p] show ?case by (auto simp: pg F)
qed

lemma append_pages_ok:
  "index_ok ix log clean \<Longrightarrow> (\<not> clean \<Longrightarrow> mxFrame = length log) \<Longrightarrow> \<forall>p \<in> set ps. p \<noteq> 0 \<Longrightarrow>
   snd (index_append_pages ix mxFrame (length log) ps) = SQLITE_OK \<and>
   index_ok (fst (index_append_pages ix mxFrame (length log) ps)) (log @ ps) (clean \<or> ps \<noteq> [])"
proof (induction ps arbitrary: ix log clean)
  case Nil
  then show ?case by simp
next
  case (Cons p ps)
  obtain ix' rc where a: "walIndexAppend ix mxFrame (length log + 1) p = (ix', rc)" by (metis surj_pair)
  have "rc = SQLITE_OK" "index_ok ix' (log @ [p]) True"
    using append_step [OF Cons.prems(1,2), of p] Cons.prems(3) a by auto
  with Cons.IH [of ix' "log @ [p]" True] Cons.prems(3) a show ?case by simp
qed

section \<open>Properties\<close>

text \<open>C23: The wal-index is correct. Entering the frames of a transaction never fails, also when the
  table still holds entries of an abandoned transaction, and afterwards a reader with any snapshot
  of the log (frames from mn up to iL) finds for every page the newest of those frames that
  holds it, or none if there is none.\<close>

theorem wal_index_lookup:
  assumes "index_ok ix log clean" and "clean \<or> mxFrame = length log" and "\<forall>p \<in> set ps. p \<noteq> 0"
    and "1 \<le> iL" "iL \<le> length (log @ ps)" "1 \<le> mn" "mn \<le> iL + 1" "readLock \<noteq> 0"
  shows "snd (index_append_pages ix mxFrame (length log) ps) = SQLITE_OK \<and>
    walFindFrame (fst (index_append_pages ix mxFrame (length log) ps)) iL mn readLock u p = (newest (log @ ps) mn iL p, SQLITE_OK)"
proof -
  have "snd (index_append_pages ix mxFrame (length log) ps) = SQLITE_OK \<and>
     index_ok (fst (index_append_pages ix mxFrame (length log) ps)) (log @ ps) (clean \<or> ps \<noteq> [])"
    using assms(2) by (intro append_pages_ok [OF assms(1) _ assms(3)]) blast
  then show ?thesis using walFindFrame_newest assms(4-) by blast
qed

definition garbage_index :: wal_index where
  "garbage_index = (\<lambda>_. Some \<lparr>aPgno = (\<lambda>_. 9), aHash = (\<lambda>_. 1)\<rparr>)"

theorem wal_index_lookup_witness:
  "walFindFrame (fst (index_append_pages garbage_index 0 0 [5, 7, 5])) 3 1 1 False 5 = (3, SQLITE_OK) \<and>
   walFindFrame (fst (index_append_pages garbage_index 0 0 [5, 7, 5])) 2 1 1 False 5 = (1, SQLITE_OK)"
proof -
  have "index_ok garbage_index [] False" by (simp add: index_ok_def garbage_index_def)
  note t = wal_index_lookup [OF this, of 0 "[5, 7, 5]" _ 1 1 False 5]
  have "frames_of [5, 7, 5] 0 3 1 5 = {1, 3}" "frames_of [5, 7, 5] 0 2 1 5 = {1}"
    by (auto simp: frames_of_def numeral_eq_Suc le_Suc_eq)
  then have "newest [5, 7, 5] 1 3 5 = 3" "newest [5, 7, 5] 1 2 5 = 1" by (simp_all add: newest_def)
  then show ?thesis using t [of 3] t [of 2] by (simp del: index_append_pages.simps)
qed

text \<open>The hash lookup of walFindFrame agrees with the linear search over walFramePgno that the
  code keeps as an assertion.\<close>

theorem wal_find_linear:
  assumes "index_ok ix log clean" and "1 \<le> iL" "iL \<le> length log" "1 \<le> mn" "mn \<le> iL + 1" "readLock \<noteq> 0"
  shows "walFindFrame ix iL mn readLock u p = (find_linear ix mn p iL, SQLITE_OK)"
  using walFindFrame_newest [OF assms(1,3,2,4-6)] find_linear_newest [OF assms(1,3)] by simp

theorem wal_find_linear_witness:
  "let ix = fst (index_append_pages garbage_index 0 0 [5, 7, 5]) in
   walFindFrame ix 3 1 1 False 7 = (find_linear ix 1 7 3, SQLITE_OK)"
proof -
  have "index_ok garbage_index [] False" by (simp add: index_ok_def garbage_index_def)
  then have "index_ok (fst (index_append_pages garbage_index 0 0 [5, 7, 5])) [5, 7, 5] True"
    using append_pages_ok [of garbage_index "[]" False 0 "[5, 7, 5]"] by (simp del: index_append_pages.simps)
  from wal_find_linear [OF this] show ?thesis by (simp add: Let_def del: index_append_pages.simps)
qed

end
