(* ===== verification/Wal_Iterator.thy ===== *)
theory Wal_Iterator
  imports Wal_Index
begin

text \<open>
  The order in which a checkpoint copies pages (\<^verbatim>\<open>wal.c\<close>): \<^verbatim>\<open>walMergesort\<close> sorts the entries of a
  wal-index segment by page number and drops all but the newest entry of a page, and
  \<^verbatim>\<open>walIteratorNext\<close> merges the segments. The sub-lists that the code keeps as pointers into one
  array are lists here.
\<close>

section \<open>Merge sort\<close>

function walMerge :: "(nat \<Rightarrow> u32) \<Rightarrow> nat list \<Rightarrow> nat list \<Rightarrow> nat list" where
  "walMerge aContent aLeft aRight =
     (if aRight = [] \<and> aLeft = [] then []
      else
        let fromLeft = (aLeft \<noteq> [] \<and> (aRight = [] \<or> aContent (hd aLeft) < aContent (hd aRight)));
            logpage = (if fromLeft then hd aLeft else hd aRight);
            aRight' = (if fromLeft then aRight else tl aRight);
            aLeft' = (if fromLeft then tl aLeft else aLeft);
            dbpage = aContent logpage;
            aLeft'' = (if aLeft' \<noteq> [] \<and> aContent (hd aLeft') = dbpage then tl aLeft' else aLeft')
        in logpage # walMerge aContent aLeft'' aRight')"
  by pat_completeness auto
termination
  by (relation "measure (\<lambda>(c, l, r). length l + length r)") (auto simp: Let_def neq_Nil_conv)

declare walMerge.simps [simp del]

text \<open>
  The inner loop for element \<open>iList\<close>: merge with the sub-lists of its trailing one bits. The last
  argument bounds the loop by the size of \<^verbatim>\<open>aSub\<close>.
\<close>

fun sub_carry :: "(nat \<Rightarrow> u32) \<Rightarrow> (nat \<Rightarrow> nat list) \<Rightarrow> nat \<Rightarrow> nat \<Rightarrow> nat list \<Rightarrow> nat \<Rightarrow> nat \<times> nat list" where
  "sub_carry aContent aSub iList iSub aMerge 0 = (iSub, aMerge)"
| "sub_carry aContent aSub iList iSub aMerge (Suc n) =
     (if bit iList iSub then sub_carry aContent aSub iList (Suc iSub) (walMerge aContent (aSub iSub) aMerge) n
      else (iSub, aMerge))"

abbreviation (input) NSUB :: nat where "NSUB \<equiv> 13"

fun sort_loop :: "(nat \<Rightarrow> u32) \<Rightarrow> nat list \<Rightarrow> nat \<Rightarrow> (nat \<Rightarrow> nat list) \<times> nat \<times> nat list" where
  "sort_loop aContent aList 0 = (\<lambda>_. [], 0, [])"
| "sort_loop aContent aList (Suc iList) =
     (case sort_loop aContent aList iList of (aSub, _, _) \<Rightarrow>
        case sub_carry aContent aSub iList 0 [aList ! iList] NSUB of (iSub, aMerge) \<Rightarrow>
          (aSub(iSub := aMerge), iSub, aMerge))"

definition walMergesort :: "(nat \<Rightarrow> u32) \<Rightarrow> nat list \<Rightarrow> nat list" where
  "walMergesort aContent aList =
     (case sort_loop aContent aList (length aList) of (aSub, iSub, aMerge) \<Rightarrow>
        fold (\<lambda>i m. if bit (length aList) i then walMerge aContent (aSub i) m else m) [Suc iSub..<NSUB] aMerge)"

section \<open>The iterator\<close>

record wal_segment =
  iNext :: nat
  aIndex :: "nat list"
  seg_aPgno :: "nat \<Rightarrow> u32"
  seg_iZero :: nat

record wal_iterator =
  iPrior :: u32
  aSegment :: "wal_segment list"

text \<open>The \<^verbatim>\<open>while\<close> loop of \<^verbatim>\<open>walIteratorNext\<close>: skip the entries already returned.\<close>

function seg_skip :: "u32 \<Rightarrow> wal_segment \<Rightarrow> wal_segment" where
  "seg_skip iMin s =
     (if iNext s < length (aIndex s) \<and> \<not> seg_aPgno s (aIndex s ! iNext s) > iMin
      then seg_skip iMin (s\<lparr>iNext := iNext s + 1\<rparr>) else s)"
  by pat_completeness auto
termination by (relation "measure (\<lambda>(m, s). length (aIndex s) - iNext s)") auto

declare seg_skip.simps [simp del]

definition seg_pick :: "wal_segment \<Rightarrow> u32 \<times> nat \<Rightarrow> u32 \<times> nat" where
  "seg_pick s r =
     (if iNext s < length (aIndex s) then
        let iPg = seg_aPgno s (aIndex s ! iNext s) in
        if iPg < fst r then (iPg, seg_iZero s + aIndex s ! iNext s) else r
      else r)"

definition walIteratorNext :: "wal_iterator \<Rightarrow> wal_iterator \<times> (u32 \<times> nat) option" where
  "walIteratorNext p =
     (let segs = map (seg_skip (iPrior p)) (aSegment p);
          r = fold seg_pick (rev segs) (0xFFFFFFFF, 0)
      in (\<lparr>iPrior = fst r, aSegment = segs\<rparr>, if fst r = 0xFFFFFFFF then None else Some r))"

text \<open>\<^verbatim>\<open>walIteratorInit\<close>: the segments from that of frame \<open>nBackfill + 1\<close> on; the ones before stay empty.\<close>

definition init_segment :: "wal_index \<Rightarrow> nat \<Rightarrow> nat \<Rightarrow> nat \<Rightarrow> wal_segment option" where
  "init_segment ix iLast nSegment i =
     (case walHashGet ix i of
        None \<Rightarrow> None
      | Some (sg, iZero) \<Rightarrow>
         let nEntry = (if i + 1 = nSegment then iLast - iZero else seg_size i) in
         Some \<lparr>iNext = 0, aIndex = walMergesort (aPgno sg) [0..<nEntry], seg_aPgno = aPgno sg, seg_iZero = iZero + 1\<rparr>)"

definition empty_segment :: wal_segment where
  "empty_segment = \<lparr>iNext = 0, aIndex = [], seg_aPgno = (\<lambda>_. 0), seg_iZero = 0\<rparr>"

definition walIteratorInit :: "wal_index \<Rightarrow> nat \<Rightarrow> nat \<Rightarrow> wal_iterator option" where
  "walIteratorInit ix iLast nBackfill =
     (let nSegment = walFramePage iLast + 1;
          first = walFramePage (nBackfill + 1);
          segs = map (\<lambda>i. if i < first then Some empty_segment else init_segment ix iLast nSegment i) [0..<nSegment]
      in if None \<in> set segs then None else Some \<lparr>iPrior = 0, aSegment = map the segs\<rparr>)"

section \<open>Merging\<close>

definition key_sorted :: "(nat \<Rightarrow> u32) \<Rightarrow> nat list \<Rightarrow> bool" where
  "key_sorted c xs \<longleftrightarrow> sorted_wrt (\<lambda>i j. c i < c j) xs"

lemma walMerge_simps:
  "walMerge c [] [] = []"
  "walMerge c (x # l) [] = x # walMerge c (if l \<noteq> [] \<and> c (hd l) = c x then tl l else l) []"
  "walMerge c [] (y # r) = y # walMerge c [] r"
  "walMerge c (x # l) (y # r) =
     (if c x < c y then x # walMerge c (if l \<noteq> [] \<and> c (hd l) = c x then tl l else l) (y # r)
      else y # walMerge c (if c x = c y then l else x # l) r)"
  by (subst walMerge.simps; simp add: Let_def)+

text \<open>Merging strictly sorted lists: all of the right list, and from the left what has a key of its own.\<close>

lemma walMerge_set:
  assumes "key_sorted c l" and "key_sorted c r"
  shows "set (walMerge c l r) = set r \<union> {x \<in> set l. c x \<notin> c ` set r} \<and> key_sorted c (walMerge c l r)"
  using assms
proof (induction "length l + length r" arbitrary: l r rule: less_induct)
  case less
  note ih = less.hyps
  have s: "key_sorted c (z # zs) \<longleftrightarrow> (\<forall>i \<in> set zs. c z < c i) \<and> key_sorted c zs" for z zs
    by (simp add: key_sorted_def)
  have nodup: "(if l' \<noteq> [] \<and> c (hd l') = c x then tl l' else l') = l'" if "key_sorted c (x # l')" for x l'
    using that by (cases l') (auto simp: s)
  show ?case
  proof (cases l)
    case Nil
    show ?thesis
    proof (cases r)
      case (Cons y r')
      with Nil ih [of "[]" r'] less.prems show ?thesis by (auto simp: walMerge_simps s)
    qed (simp add: Nil walMerge_simps key_sorted_def)
  next
    case l: (Cons x l')
    show ?thesis
    proof (cases r)
      case Nil
      with l ih [of l' "[]"] less.prems nodup [of x l'] show ?thesis by (auto simp: walMerge_simps s)
    next
      case r: (Cons y r')
      consider "c x < c y" | "c x = c y" | "c y < c x" by fastforce
      then show ?thesis
      proof cases
        case 1
        with l r ih [of l' r] less.prems nodup [of x l'] show ?thesis by (auto simp: walMerge_simps s)
      next
        case 2
        with l r ih [of l' r'] less.prems show ?thesis by (auto simp: walMerge_simps s)
      next
        case 3
        with l r ih [of l r'] less.prems show ?thesis by (auto simp: walMerge_simps s)
      qed
    qed
  qed
qed

text \<open>A run over an index range: sorted, and for every page the largest index of the range.\<close>

definition run :: "(nat \<Rightarrow> u32) \<Rightarrow> nat \<Rightarrow> nat \<Rightarrow> nat list \<Rightarrow> bool" where
  "run c a b xs \<longleftrightarrow> key_sorted c xs \<and> set xs = {i. a \<le> i \<and> i < b \<and> (\<forall>j. a \<le> j \<and> j < b \<and> c j = c i \<longrightarrow> j \<le> i)}"

lemma run_single: "run c n (Suc n) [n]"
  by (auto simp: run_def key_sorted_def)

lemma run_covers:
  assumes "run c a b xs" and "a \<le> j" and "j < b"
  shows "c j \<in> c ` set xs"
proof -
  let ?J = "{i. a \<le> i \<and> i < b \<and> c i = c j}"
  have fin: "finite ?J" "?J \<noteq> {}" using assms by auto
  then have "Max ?J \<in> ?J" by (rule Max_in)
  moreover have "\<forall>i \<in> ?J. i \<le> Max ?J" using fin by simp
  ultimately have "Max ?J \<in> set xs" using assms(1) by (auto simp: run_def)
  with \<open>Max ?J \<in> ?J\<close> show ?thesis by (metis (mono_tags, lifting) image_eqI mem_Collect_eq)
qed

lemma run_merge:
  assumes l: "run c a m l" and r: "run c m b r" and "a \<le> m" and "m \<le> b"
  shows "run c a b (walMerge c l r)"
proof -
  have ms: "set (walMerge c l r) = set r \<union> {x \<in> set l. c x \<notin> c ` set r}" "key_sorted c (walMerge c l r)"
    using walMerge_set [of c l r] l r by (auto simp: run_def)
  have ml: "i \<in> set l \<longleftrightarrow> a \<le> i \<and> i < m \<and> (\<forall>j. a \<le> j \<and> j < m \<and> c j = c i \<longrightarrow> j \<le> i)"
    and mr: "i \<in> set r \<longleftrightarrow> m \<le> i \<and> i < b \<and> (\<forall>j. m \<le> j \<and> j < b \<and> c j = c i \<longrightarrow> j \<le> i)" for i
    using l r by (auto simp: run_def)
  have cov: "c x \<in> c ` set r \<longleftrightarrow> (\<exists>j. m \<le> j \<and> j < b \<and> c j = c x)" for x
  proof
    assume "c x \<in> c ` set r"
    then obtain i where "i \<in> set r" "c i = c x" by auto
    then show "\<exists>j. m \<le> j \<and> j < b \<and> c j = c x" using mr by blast
  next
    assume "\<exists>j. m \<le> j \<and> j < b \<and> c j = c x"
    then obtain j where "m \<le> j" "j < b" "c j = c x" by blast
    with run_covers [OF r this(1,2)] show "c x \<in> c ` set r" by simp
  qed
  have "i \<in> set (walMerge c l r) \<longleftrightarrow> a \<le> i \<and> i < b \<and> (\<forall>j. a \<le> j \<and> j < b \<and> c j = c i \<longrightarrow> j \<le> i)" for i
  proof (cases "i < m")
    case True
    then have "i \<in> set (walMerge c l r) \<longleftrightarrow> i \<in> set l \<and> \<not> (\<exists>j. m \<le> j \<and> j < b \<and> c j = c i)"
      using mr by (auto simp: ms(1) cov)
    with True assms(3,4) show ?thesis unfolding ml by (meson leD le_trans less_le_trans not_le_imp_less)
  next
    case False
    then have "i \<in> set (walMerge c l r) \<longleftrightarrow> i \<in> set r" using ml by (auto simp: ms(1))
    with False assms(3,4) show ?thesis unfolding mr by (meson le_trans linorder_not_le nat_le_linear)
  qed
  with ms(2) show ?thesis by (auto simp: run_def)
qed

section \<open>The binary counter of sub-lists\<close>

text \<open>\<^verbatim>\<open>n \& ~((2<<i)-1)\<close>: where sub-list \<open>i\<close> begins.\<close>

definition base :: "nat \<Rightarrow> nat \<Rightarrow> nat" where
  "base n i = n div 2 ^ Suc i * 2 ^ Suc i"

definition subs_ok :: "(nat \<Rightarrow> u32) \<Rightarrow> nat \<Rightarrow> (nat \<Rightarrow> nat list) \<Rightarrow> bool" where
  "subs_ok c n sub \<longleftrightarrow> (\<forall>i. bit n i \<longrightarrow> run c (base n i) (base n i + 2 ^ i) (sub i))"

lemma div_pow_Suc: "(n :: nat) div 2 ^ i div 2 = n div 2 ^ Suc i"
  by (metis div_mult2_eq mult.commute power_Suc)

lemma bit_base:
  assumes "bit n i"
  shows "base n i + 2 ^ i = n div 2 ^ i * 2 ^ i" and "base n i + 2 ^ i \<le> n"
proof -
  have "n div 2 ^ i = 2 * (n div 2 ^ i div 2) + 1" using assms by (simp add: bit_iff_odd)
  moreover have "n div 2 ^ i div 2 = n div 2 ^ Suc i" by (rule div_pow_Suc)
  ultimately have q: "n div 2 ^ i = 2 * (n div 2 ^ Suc i) + 1" by simp
  show "base n i + 2 ^ i = n div 2 ^ i * 2 ^ i" by (simp add: base_def q algebra_simps)
  then show "base n i + 2 ^ i \<le> n" by (simp add: div_times_less_eq_dividend)
qed

text \<open>The number of trailing ones is where the carry stops.\<close>

lemma trailing_ones:
  fixes n :: nat
  assumes "\<forall>j < i. bit n j"
  shows "n div 2 ^ i * 2 ^ i + 2 ^ i = n + 1"
  using assms
proof (induction i)
  case (Suc i)
  have b: "bit n i" using Suc.prems by simp
  have ih: "n div 2 ^ i * 2 ^ i + 2 ^ i = n + 1" using Suc by simp
  have "base n i + 2 ^ i = n div 2 ^ i * 2 ^ i" by (rule bit_base [OF b])
  with ih show ?case by (simp add: base_def)
qed simp

lemma sub_carry_run:
  assumes subs: "subs_ok c n sub" and "run c (n div 2 ^ i * 2 ^ i) (n + 1) m" and "\<forall>j < i. bit n j"
    and "n < 2 ^ (i + k)"
  shows "\<exists>t m'. sub_carry c sub n i m k = (t, m') \<and> run c (n div 2 ^ t * 2 ^ t) (n + 1) m' \<and> (\<forall>j < t. bit n j) \<and> \<not> bit n t"
  using assms(2-)
proof (induction k arbitrary: i m)
  case 0
  then have "n div 2 ^ i = 0" by simp
  then have "\<not> bit n i" by (simp add: bit_iff_odd)
  with 0 show ?case by simp
next
  case (Suc k)
  show ?case
  proof (cases "bit n i")
    case True
    then have r: "run c (base n i) (n div 2 ^ i * 2 ^ i) (sub i)"
      using subs bit_base(1) [OF True] True unfolding subs_ok_def by metis
    have le: "base n i \<le> n div 2 ^ i * 2 ^ i" "n div 2 ^ i * 2 ^ i \<le> n + 1"
      using bit_base(1) [OF True] trailing_ones [OF Suc.prems(2)] by linarith+
    have "run c (n div 2 ^ Suc i * 2 ^ Suc i) (n + 1) (walMerge c (sub i) m)"
      using run_merge [OF r Suc.prems(1) le] by (simp add: base_def)
    moreover have "\<forall>j < Suc i. bit n j" using Suc.prems(2) True by (auto simp: less_Suc_eq)
    ultimately show ?thesis using Suc.IH [of "Suc i"] Suc.prems(3) True by simp
  next
    case False
    with Suc.prems show ?thesis by simp
  qed
qed

lemma Suc_carry:
  assumes "\<forall>j < t. bit n j" and "\<not> bit n t"
  shows "base (Suc n) t + 2 ^ t = Suc n" and "bit (Suc n) i \<longleftrightarrow> i = t \<or> t < i \<and> bit n i"
    and "t < i \<Longrightarrow> base (Suc n) i = base n i" and "base (Suc n) t = n div 2 ^ t * 2 ^ t"
proof -
  define q where "q = n div 2 ^ Suc t"
  have e: "n div 2 ^ t = 2 * q"
  proof -
    have "even (n div 2 ^ t)" using assms(2) by (simp add: bit_iff_odd)
    moreover have "n div 2 ^ t div 2 = q" unfolding q_def by (rule div_pow_Suc)
    ultimately show ?thesis by auto
  qed
  have n: "Suc n = 2 ^ t * (2 * q + 1)" using trailing_ones [OF assms(1)] e by (simp add: algebra_simps)
  have d: "Suc n div 2 ^ Suc t = q"
  proof -
    have "Suc n div 2 ^ t = 2 * q + 1" by (simp add: n)
    then have "Suc n div 2 ^ t div 2 = q" by simp
    then show ?thesis by (simp only: div_pow_Suc)
  qed
  show "base (Suc n) t + 2 ^ t = Suc n" using n by (simp only: base_def d) (simp add: algebra_simps)
  show "base (Suc n) t = n div 2 ^ t * 2 ^ t" by (simp only: base_def d e) simp
  have hi: "Suc n div 2 ^ j = n div 2 ^ j" if lt: "t < j" for j
  proof -
    obtain k where j: "j = Suc t + k" using lt less_iff_Suc_add [of t j] by auto
    show ?thesis unfolding j power_add div_mult2_eq d q_def [symmetric] by simp
  qed
  show "t < i \<Longrightarrow> base (Suc n) i = base n i" using hi [of "Suc i"] by (simp add: base_def)
  show "bit (Suc n) i \<longleftrightarrow> i = t \<or> t < i \<and> bit n i"
  proof (rule linorder_cases [of i t])
    assume "i < t"
    then obtain k where t: "t = Suc i + k" using less_iff_Suc_add [of i t] by auto
    have "Suc n div 2 ^ i = 2 * (2 ^ k * (2 * q + 1))" unfolding n t by (simp add: power_add mult.assoc)
    then show ?thesis using \<open>i < t\<close> by (simp add: bit_iff_odd)
  next
    assume "i = t"
    moreover have "Suc n div 2 ^ t = 2 * q + 1" by (simp add: n)
    ultimately show ?thesis by (simp add: bit_iff_odd)
  next
    assume "t < i"
    then show ?thesis using hi [of i] by (simp add: bit_iff_odd)
  qed
qed

lemma sort_loop_ok:
  assumes "n < 2 ^ NSUB" and "n \<le> N"
  shows "\<exists>sub t m. sort_loop c [0..<N] n = (sub, t, m) \<and> subs_ok c n sub \<and>
    (0 < n \<longrightarrow> bit n t \<and> (\<forall>i. bit n i \<longrightarrow> t \<le> i) \<and> run c (base n t) n m)"
  using assms
proof (induction n)
  case 0
  then show ?case by (simp add: subs_ok_def)
next
  case (Suc n)
  then obtain sub t0 m0 where IH: "sort_loop c [0..<N] n = (sub, t0, m0)" "subs_ok c n sub" by auto
  have "run c (n div 2 ^ 0 * 2 ^ 0) (n + 1) [n]" using run_single by simp
  then obtain t m where t: "sub_carry c sub n 0 [n] 13 = (t, m)" "run c (n div 2 ^ t * 2 ^ t) (n + 1) m"
      "\<forall>j < t. bit n j" "\<not> bit n t"
    using sub_carry_run [OF IH(2), of 0 "[n]" 13] Suc.prems by auto
  note carry = Suc_carry [OF t(3,4)]
  have run: "run c (base (Suc n) t) (Suc n) m" using t(2) carry(4) by simp
  have "subs_ok c (Suc n) (sub(t := m))"
    unfolding subs_ok_def
  proof (intro allI impI)
    fix i assume b: "bit (Suc n) i"
    show "run c (base (Suc n) i) (base (Suc n) i + 2 ^ i) ((sub(t := m)) i)"
    proof (cases "i = t")
      case True
      with run carry(1) show ?thesis by simp
    next
      case False
      with b carry(2) [of i] have "t < i" "bit n i" by auto
      with False IH(2) carry(3) show ?thesis by (simp add: subs_ok_def)
    qed
  qed
  moreover have "sort_loop c [0..<N] (Suc n) = (sub(t := m), t, m)" using IH(1) t(1) Suc.prems by simp
  moreover have "bit (Suc n) t" "\<forall>i. bit (Suc n) i \<longrightarrow> t \<le> i" using carry(2) by auto
  ultimately show ?case using run by blast
qed

lemma final_merge:
  assumes subs: "subs_ok c n sub" and "run c (n div 2 ^ i * 2 ^ i) n m" and "i \<le> k" and "n < 2 ^ k"
  shows "run c 0 n (fold (\<lambda>i m. if bit n i then walMerge c (sub i) m else m) [i..<k] m)"
  using assms(2-)
proof (induction "k - i" arbitrary: i m)
  case 0
  then have "n div 2 ^ i = 0" by simp
  with 0 show ?case by simp
next
  case (Suc d)
  then have lt: "i < k" by simp
  let ?m = "if bit n i then walMerge c (sub i) m else m"
  have "run c (n div 2 ^ Suc i * 2 ^ Suc i) n ?m"
  proof (cases "bit n i")
    case True
    then have r: "run c (base n i) (n div 2 ^ i * 2 ^ i) (sub i)"
      using subs bit_base(1) [OF True] unfolding subs_ok_def by metis
    have le: "base n i \<le> n div 2 ^ i * 2 ^ i" "n div 2 ^ i * 2 ^ i \<le> n"
      using bit_base(1) [OF True] by linarith (simp add: div_times_less_eq_dividend)
    from run_merge [OF r Suc.prems(1) le] True show ?thesis by (simp add: base_def)
  next
    case False
    then have "even (n div 2 ^ i)" by (simp add: bit_iff_odd)
    then have "n div 2 ^ i = 2 * (n div 2 ^ Suc i)" using div_pow_Suc [of n i] by auto
    with False Suc.prems(1) show ?thesis by (simp add: algebra_simps)
  qed
  from Suc.hyps(1) [OF _ this] Suc.hyps(2) Suc.prems(3) lt show ?case by (simp add: upt_conv_Cons)
qed

lemma walMergesort_run:
  assumes "n < 2 ^ NSUB"
  shows "run c 0 n (walMergesort c [0..<n])"
proof (cases "n = 0")
  case True
  have "fold (\<lambda>i m. if bit (0 :: nat) i then walMerge c [] m else m) is [] = []" for "is" :: "nat list"
    by (induction "is") simp_all
  with True show ?thesis by (simp add: walMergesort_def run_def key_sorted_def)
next
  case False
  obtain sub t m where s: "sort_loop c [0..<n] n = (sub, t, m)" "subs_ok c n sub" "bit n t"
      "\<forall>i. bit n i \<longrightarrow> t \<le> i" "run c (base n t) n m"
    using sort_loop_ok [OF assms order_refl, of c] False by auto
  have t: "t < 13"
  proof (rule ccontr)
    assume "\<not> t < 13"
    then have "2 ^ 13 \<le> (2 :: nat) ^ t" by (intro power_increasing) simp_all
    with assms have "n < 2 ^ t" by linarith
    with s(3) show False by (simp add: bit_iff_odd)
  qed
  have "run c (n div 2 ^ Suc t * 2 ^ Suc t) n m" using s(5) by (simp add: base_def)
  from final_merge [OF s(2) this _ assms] t s(1) show ?thesis by (simp add: walMergesort_def)
qed

section \<open>Stepping the iterator\<close>

abbreviation seg_page :: "wal_segment \<Rightarrow> nat \<Rightarrow> u32" where
  "seg_page s j \<equiv> seg_aPgno s (aIndex s ! j)"

abbreviation seg_frame :: "wal_segment \<Rightarrow> nat \<Rightarrow> nat" where
  "seg_frame s j \<equiv> seg_iZero s + aIndex s ! j"

text \<open>What every segment of an iterator satisfies, for the last page returned.\<close>

definition seg_good :: "u32 list \<Rightarrow> u32 \<Rightarrow> wal_segment \<Rightarrow> bool" where
  "seg_good log prior s \<longleftrightarrow> key_sorted (seg_aPgno s) (aIndex s) \<and> iNext s \<le> length (aIndex s) \<and>
     (\<forall>j < iNext s. seg_page s j \<le> prior) \<and>
     (\<forall>j < length (aIndex s). seg_page s j = log ! (seg_frame s j - 1) \<and> seg_page s j < 0xFFFFFFFF)"

lemma seg_sorted:
  assumes "key_sorted (seg_aPgno s) (aIndex s)" and "i < j" and "j < length (aIndex s)"
  shows "seg_page s i < seg_page s j"
  using assms by (simp add: key_sorted_def sorted_wrt_iff_nth_less)

lemma seg_skip_eq:
  "aIndex (seg_skip iMin s) = aIndex s \<and> seg_aPgno (seg_skip iMin s) = seg_aPgno s \<and> seg_iZero (seg_skip iMin s) = seg_iZero s"
proof (induction iMin s rule: seg_skip.induct)
  case (1 iMin s)
  then show ?case by (subst (1 2 3) seg_skip.simps) auto
qed

lemma seg_skip_good:
  "seg_good log prior s \<Longrightarrow> seg_good log prior (seg_skip prior s) \<and>
     (iNext (seg_skip prior s) < length (aIndex s) \<longrightarrow> prior < seg_page s (iNext (seg_skip prior s)))"
proof (induction prior s rule: seg_skip.induct)
  case (1 prior s)
  show ?case
  proof (cases "iNext s < length (aIndex s) \<and> \<not> seg_page s (iNext s) > prior")
    case True
    have "seg_good log prior (s\<lparr>iNext := iNext s + 1\<rparr>)"
      using "1.prems" True by (auto simp: seg_good_def less_Suc_eq)
    from "1.IH" [OF True this] True show ?thesis by (subst (1 2 3) seg_skip.simps) simp
  next
    case False
    with "1.prems" show ?thesis by (subst (1 2 3) seg_skip.simps) auto
  qed
qed

definition seg_head :: "wal_segment \<Rightarrow> (u32 \<times> nat) option" where
  "seg_head s = (if iNext s < length (aIndex s) then Some (seg_page s (iNext s), seg_frame s (iNext s)) else None)"

lemma seg_pick_head: "seg_pick s r = (case seg_head s of Some h \<Rightarrow> if fst h < fst r then h else r | None \<Rightarrow> r)"
  by (simp add: seg_pick_def seg_head_def Let_def)

definition heads_ascend :: "wal_segment list \<Rightarrow> bool" where
  "heads_ascend segs \<longleftrightarrow> sorted_wrt (\<lambda>s t. \<forall>h g. seg_head s = Some h \<longrightarrow> seg_head t = Some g \<longrightarrow> snd h < snd g) segs"

text \<open>The winner has the smallest page, and the largest frame among the heads with that page.\<close>

lemma pick_best:
  assumes "heads_ascend segs" and "\<forall>s \<in> set segs. \<forall>h. seg_head s = Some h \<longrightarrow> fst h < X"
  shows "let r = fold seg_pick (rev segs) (X, 0) in
    if \<forall>s \<in> set segs. seg_head s = None then r = (X, 0)
    else (\<exists>s \<in> set segs. seg_head s = Some r) \<and>
      (\<forall>s \<in> set segs. \<forall>h. seg_head s = Some h \<longrightarrow> fst r \<le> fst h \<and> (fst h = fst r \<longrightarrow> snd h \<le> snd r))"
  using assms
proof (induction segs)
  case (Cons s segs)
  define r where "r = fold seg_pick (rev segs) (X, 0)"
  have IH: "if \<forall>s \<in> set segs. seg_head s = None then r = (X, 0)
    else (\<exists>s \<in> set segs. seg_head s = Some r) \<and>
      (\<forall>s \<in> set segs. \<forall>h. seg_head s = Some h \<longrightarrow> fst r \<le> fst h \<and> (fst h = fst r \<longrightarrow> snd h \<le> snd r))"
  proof -
    have "heads_ascend segs" using Cons.prems(1) by (simp add: heads_ascend_def)
    moreover have "\<forall>s \<in> set segs. \<forall>h. seg_head s = Some h \<longrightarrow> fst h < X" using Cons.prems(2) by simp
    ultimately show ?thesis using Cons.IH unfolding Let_def r_def by blast
  qed
  have later: "snd h < snd g" if "seg_head s = Some h" "t \<in> set segs" "seg_head t = Some g" for h t g
    using Cons.prems(1) that by (cases h; cases g) (auto simp: heads_ascend_def)
  have f: "fold seg_pick (rev (s # segs)) (X, 0) = seg_pick s r" by (simp add: r_def)
  show ?case
  proof (cases "seg_head s")
    case None
    then have p: "seg_pick s r = r" by (simp add: seg_pick_head)
    show ?thesis
    proof (cases "\<forall>s \<in> set segs. seg_head s = None")
      case True
      with IH None show ?thesis unfolding f p Let_def by simp
    next
      case False
      with IH have "(\<exists>s \<in> set segs. seg_head s = Some r)"
        "(\<forall>s \<in> set segs. \<forall>h. seg_head s = Some h \<longrightarrow> fst r \<le> fst h \<and> (fst h = fst r \<longrightarrow> snd h \<le> snd r))" by presburger+
      with None False show ?thesis unfolding f p Let_def by (simp del: split_paired_All split_paired_Ex) auto
    qed
  next
    case (Some h)
    have hX: "fst h < X" using Cons.prems(2) Some by (simp del: split_paired_All split_paired_Ex)
    show ?thesis
    proof (cases "\<forall>s \<in> set segs. seg_head s = None")
      case True
      with IH Some hX have "seg_pick s r = h" by (simp add: seg_pick_head)
      with Some True show ?thesis unfolding f by (auto simp: Let_def)
    next
      case False
      with IH obtain t where t: "t \<in> set segs" "seg_head t = Some r"
        and best: "\<And>u g. u \<in> set segs \<Longrightarrow> seg_head u = Some g \<Longrightarrow> fst r \<le> fst g \<and> (fst g = fst r \<longrightarrow> snd g \<le> snd r)"
        by auto
      show ?thesis
      proof (cases "fst h < fst r")
        case True
        then have p: "seg_pick s r = h" using Some by (simp add: seg_pick_head)
        have "fst h \<le> fst g \<and> (fst g = fst h \<longrightarrow> snd g \<le> snd h)" if "u \<in> set (s # segs)" "seg_head u = Some g" for u g
          using that Some best [of u g] True by (cases "u = s") auto
        with Some show ?thesis unfolding f p Let_def by auto
      next
        case le: False
        then have p: "seg_pick s r = r" using Some by (simp add: seg_pick_head)
        have "snd h < snd r" by (rule later [OF Some t])
        then have "fst r \<le> fst g \<and> (fst g = fst r \<longrightarrow> snd g \<le> snd r)" if "u \<in> set (s # segs)" "seg_head u = Some g" for u g
          using that Some best [of u g] le by (cases "u = s") auto
        with t Some show ?thesis unfolding f p Let_def by auto
      qed
    qed
  qed
qed (simp add: heads_ascend_def)

text \<open>Where the entries of segment \<open>k\<close> lie, and that none of its frames is missing.\<close>

definition seg_in :: "nat \<Rightarrow> nat \<Rightarrow> wal_segment \<Rightarrow> bool" where
  "seg_in hi k s \<longleftrightarrow> (\<forall>j < length (aIndex s). hash_iZero k < seg_frame s j \<and> seg_frame s j \<le> min hi (hash_iZero (Suc k)))"

definition seg_covers :: "u32 list \<Rightarrow> nat \<Rightarrow> nat \<Rightarrow> wal_segment \<Rightarrow> bool" where
  "seg_covers log hi k s \<longleftrightarrow> (\<forall>f. hash_iZero k < f \<and> f \<le> min hi (hash_iZero (Suc k)) \<longrightarrow>
     (\<exists>j < length (aIndex s). seg_page s j = log ! (f - 1) \<and> f \<le> seg_frame s j))"

definition iter_ok :: "u32 list \<Rightarrow> nat \<Rightarrow> nat \<Rightarrow> wal_iterator \<Rightarrow> bool" where
  "iter_ok log first hi p \<longleftrightarrow> length (aSegment p) = walFramePage hi + 1 \<and>
     (\<forall>k < length (aSegment p). let s = aSegment p ! k in
        seg_good log (iPrior p) s \<and> seg_in hi k s \<and> (if first \<le> k then seg_covers log hi k s else aIndex s = []))"

lemma iter_okD:
  assumes "iter_ok log first hi p"
  shows "length (aSegment p) = walFramePage hi + 1"
    and "k < length (aSegment p) \<Longrightarrow> seg_good log (iPrior p) (aSegment p ! k)"
    and "k < length (aSegment p) \<Longrightarrow> seg_in hi k (aSegment p ! k)"
    and "k < length (aSegment p) \<Longrightarrow> first \<le> k \<Longrightarrow> seg_covers log hi k (aSegment p ! k)"
    and "k < length (aSegment p) \<Longrightarrow> k < first \<Longrightarrow> aIndex (aSegment p ! k) = []"
  using assms by (auto simp: iter_ok_def Let_def split: if_splits)

lemma seg_good_mono: "seg_good log a s \<Longrightarrow> a \<le> b \<Longrightarrow> seg_good log b s"
  by (auto simp: seg_good_def)

lemma seg_skip_in: "seg_in hi k (seg_skip m s) = seg_in hi k s" "seg_covers log hi k (seg_skip m s) = seg_covers log hi k s"
  using seg_skip_eq [of m s] by (simp_all add: seg_in_def seg_covers_def)

lemma seg_head_Some:
  assumes "seg_head s = Some h"
  shows "iNext s < length (aIndex s)" "h = (seg_page s (iNext s), seg_frame s (iNext s))"
  using assms by (auto simp: seg_head_def split: if_splits)

lemma seg_in_ascend:
  assumes "\<forall>k < length segs. seg_in hi k (segs ! k)"
  shows "heads_ascend segs"
  unfolding heads_ascend_def sorted_wrt_iff_nth_less
proof (intro allI impI)
  fix i j h g assume ij: "i < j" "j < length segs" and h: "seg_head (segs ! i) = Some h" and g: "seg_head (segs ! j) = Some g"
  have "snd h \<le> hash_iZero (Suc i)" using assms ij seg_head_Some [OF h] by (auto simp: seg_in_def)
  also have "\<dots> \<le> hash_iZero j" using ij by (intro hash_iZero_mono) simp
  also have "\<dots> < snd g" using assms ij seg_head_Some [OF g] by (auto simp: seg_in_def)
  finally show "snd h < snd g" .
qed

text \<open>The pages that a step can return.\<close>

definition pending :: "u32 list \<Rightarrow> nat \<Rightarrow> nat \<Rightarrow> u32 \<Rightarrow> nat set" where
  "pending log first hi prior = {f. hash_iZero first < f \<and> f \<le> hi \<and> prior < log ! (f - 1)}"

lemma pending_head:
  assumes ok: "iter_ok log first hi p" and segs: "segs = map (seg_skip (iPrior p)) (aSegment p)"
    and f: "f \<in> pending log first hi (iPrior p)"
  shows "\<exists>s \<in> set segs. \<exists>h. seg_head s = Some h \<and> fst h \<le> log ! (f - 1) \<and> (fst h = log ! (f - 1) \<longrightarrow> f \<le> snd h)"
proof -
  define k where "k = walFramePage f"
  have f': "hash_iZero first < f" "f \<le> hi" "iPrior p < log ! (f - 1)" using f by (auto simp: pending_def)
  have k: "hash_iZero k < f" "f \<le> hash_iZero (Suc k)" using walFramePage_bounds [of f] f'(1) by (auto simp: k_def)
  have "first \<le> k"
  proof (rule ccontr)
    assume "\<not> first \<le> k"
    then have "hash_iZero (Suc k) \<le> hash_iZero first" by (intro hash_iZero_mono) simp
    with k f' show False by simp
  qed
  have "k \<le> walFramePage hi" unfolding k_def walFramePage_def using f'(2) by (intro div_le_mono) simp
  then have kl: "k < length (aSegment p)" using iter_okD(1) [OF ok] by simp
  let ?s = "aSegment p ! k" and ?t = "seg_skip (iPrior p) (aSegment p ! k)"
  have t: "aIndex ?t = aIndex ?s" "seg_aPgno ?t = seg_aPgno ?s" "seg_iZero ?t = seg_iZero ?s" using seg_skip_eq by auto
  have good: "seg_good log (iPrior p) ?t" using seg_skip_good iter_okD(2) [OF ok kl] by blast
  obtain j where j: "j < length (aIndex ?t)" "seg_page ?t j = log ! (f - 1)" "f \<le> seg_frame ?t j"
    using iter_okD(4) [OF ok kl \<open>first \<le> k\<close>] f' k by (auto simp: seg_covers_def t)
  have nx: "iNext ?t \<le> j" using good j f'(3) by (metis leD linorder_le_less_linear seg_good_def)
  then have h: "seg_head ?t = Some (seg_page ?t (iNext ?t), seg_frame ?t (iNext ?t))" using j by (simp add: seg_head_def)
  have "seg_page ?t (iNext ?t) < seg_page ?t j" if "iNext ?t \<noteq> j"
    using seg_sorted [of ?t "iNext ?t" j] good nx j(1) that by (simp add: seg_good_def)
  with h j have "\<exists>h. seg_head ?t = Some h \<and> fst h \<le> log ! (f - 1) \<and> (fst h = log ! (f - 1) \<longrightarrow> f \<le> snd h)"
    by (cases "iNext ?t = j") auto
  moreover have "?t \<in> set segs" using kl by (simp add: segs)
  ultimately show ?thesis by blast
qed

lemma head_pending:
  assumes ok: "iter_ok log first hi p" and segs: "segs = map (seg_skip (iPrior p)) (aSegment p)"
    and "s \<in> set segs" and h: "seg_head s = Some h"
  shows "snd h \<in> pending log first hi (iPrior p)" "fst h = log ! (snd h - 1)" "fst h < 0xFFFFFFFF"
proof -
  obtain k where k: "k < length (aSegment p)" "s = seg_skip (iPrior p) (aSegment p ! k)"
    using assms(3) by (auto simp: segs in_set_conv_nth)
  have good: "seg_good log (iPrior p) s" and gt: "iNext s < length (aIndex s) \<Longrightarrow> iPrior p < seg_page s (iNext s)"
    using seg_skip_good [OF iter_okD(2) [OF ok k(1)]] seg_skip_eq [of "iPrior p" "aSegment p ! k"] by (auto simp: k(2))
  note hd = seg_head_Some [OF h]
  have "first \<le> k"
  proof (rule ccontr)
    assume "\<not> first \<le> k"
    then have "aIndex s = []" using iter_okD(5) [OF ok k(1)] seg_skip_eq by (simp add: k(2))
    with hd(1) show False by simp
  qed
  then have "hash_iZero first \<le> hash_iZero k" by (rule hash_iZero_mono)
  moreover have "seg_in hi k s" using iter_okD(3) [OF ok k(1)] by (simp add: k(2) seg_skip_in)
  ultimately show "snd h \<in> pending log first hi (iPrior p)" "fst h = log ! (snd h - 1)" "fst h < 0xFFFFFFFF"
    using hd good gt by (auto simp: pending_def seg_in_def seg_good_def)
qed

lemma iterator_step:
  assumes ok: "iter_ok log first hi p" and "iPrior p \<le> 0xFFFFFFFF"
  shows "iter_ok log first hi (fst (walIteratorNext p))"
    and "case snd (walIteratorNext p) of
      None \<Rightarrow> pending log first hi (iPrior p) = {}
    | Some (pg, f) \<Rightarrow> iPrior (fst (walIteratorNext p)) = pg \<and> pg < 0xFFFFFFFF \<and> f \<in> pending log first hi (iPrior p) \<and> pg = log ! (f - 1) \<and>
        (\<forall>g \<in> pending log first hi (iPrior p). pg \<le> log ! (g - 1) \<and> (log ! (g - 1) = pg \<longrightarrow> g \<le> f))"
proof -
  define segs where "segs = map (seg_skip (iPrior p)) (aSegment p)"
  define r where "r = fold seg_pick (rev segs) (0xFFFFFFFF, 0 :: nat)"
  have nx: "walIteratorNext p = (\<lparr>iPrior = fst r, aSegment = segs\<rparr>, if fst r = 0xFFFFFFFF then None else Some r)"
    by (simp add: walIteratorNext_def segs_def r_def Let_def)
  have "heads_ascend segs"
    by (rule seg_in_ascend [of segs hi]) (use iter_okD(3) [OF ok] in \<open>simp add: segs_def seg_skip_in\<close>)
  moreover have "\<forall>s \<in> set segs. \<forall>h. seg_head s = Some h \<longrightarrow> fst h < 0xFFFFFFFF"
    using head_pending(3) [OF ok segs_def] by blast
  ultimately have best: "if \<forall>s \<in> set segs. seg_head s = None then r = (0xFFFFFFFF, 0)
    else (\<exists>s \<in> set segs. seg_head s = Some r) \<and>
      (\<forall>s \<in> set segs. \<forall>h. seg_head s = Some h \<longrightarrow> fst r \<le> fst h \<and> (fst h = fst r \<longrightarrow> snd h \<le> snd r))"
    using pick_best [of segs "0xFFFFFFFF"] unfolding r_def Let_def by blast
  note pend = pending_head [OF ok segs_def]
  have grow: "iPrior p \<le> fst r"
  proof (cases "\<forall>s \<in> set segs. seg_head s = None")
    case True
    with best assms(2) show ?thesis by simp
  next
    case False
    with best obtain s where "s \<in> set segs" "seg_head s = Some r" by auto
    then have "iPrior p < log ! (snd r - 1)" "fst r = log ! (snd r - 1)" using head_pending [OF ok segs_def] by (auto simp: pending_def)
    then show ?thesis by simp
  qed
  show "iter_ok log first hi (fst (walIteratorNext p))"
    unfolding nx iter_ok_def Let_def fst_conv wal_iterator.select_convs
  proof (intro conjI allI impI)
    show "length segs = walFramePage hi + 1" using iter_okD(1) [OF ok] by (simp add: segs_def)
    fix k assume "k < length segs"
    then have k: "k < length (aSegment p)" by (simp add: segs_def)
    have "seg_good log (iPrior p) (segs ! k)" using seg_skip_good [OF iter_okD(2) [OF ok k]] k by (simp add: segs_def)
    then show "seg_good log (fst r) (segs ! k)" using grow by (rule seg_good_mono)
    show "seg_in hi k (segs ! k)" using iter_okD(3) [OF ok k] k by (simp add: segs_def seg_skip_in)
    show "if first \<le> k then seg_covers log hi k (segs ! k) else aIndex (segs ! k) = []"
      using iter_okD(4,5) [OF ok k] k seg_skip_eq by (simp add: segs_def seg_skip_in)
  qed
  show "case snd (walIteratorNext p) of
      None \<Rightarrow> pending log first hi (iPrior p) = {}
    | Some (pg, f) \<Rightarrow> iPrior (fst (walIteratorNext p)) = pg \<and> pg < 0xFFFFFFFF \<and> f \<in> pending log first hi (iPrior p) \<and> pg = log ! (f - 1) \<and>
        (\<forall>g \<in> pending log first hi (iPrior p). pg \<le> log ! (g - 1) \<and> (log ! (g - 1) = pg \<longrightarrow> g \<le> f))"
  proof (cases "\<forall>s \<in> set segs. seg_head s = None")
    case True
    then have "pending log first hi (iPrior p) = {}" using pend by fastforce
    with True best show ?thesis by (simp add: nx)
  next
    case False
    with best obtain s where s: "s \<in> set segs" "seg_head s = Some r"
      and min: "\<forall>s \<in> set segs. \<forall>h. seg_head s = Some h \<longrightarrow> fst r \<le> fst h \<and> (fst h = fst r \<longrightarrow> snd h \<le> snd r)" by auto
    note hp = head_pending [OF ok segs_def s]
    have "fst r \<le> log ! (g - 1) \<and> (log ! (g - 1) = fst r \<longrightarrow> g \<le> snd r)" if gp: "g \<in> pending log first hi (iPrior p)" for g
    proof -
      obtain t h where "t \<in> set segs" "seg_head t = Some h" "fst h \<le> log ! (g - 1)" "fst h = log ! (g - 1) \<longrightarrow> g \<le> snd h"
        using pend [OF gp] by blast
      with min have "fst r \<le> fst h" "fst h = fst r \<longrightarrow> snd h \<le> snd r" by blast+
      with \<open>fst h \<le> log ! (g - 1)\<close> \<open>fst h = log ! (g - 1) \<longrightarrow> g \<le> snd h\<close> show ?thesis by force
    qed
    with hp have "fst r < 0xFFFFFFFF \<and> snd r \<in> pending log first hi (iPrior p) \<and> fst r = log ! (snd r - 1) \<and>
        (\<forall>g \<in> pending log first hi (iPrior p). fst r \<le> log ! (g - 1) \<and> (log ! (g - 1) = fst r \<longrightarrow> g \<le> snd r))" by blast
    then show ?thesis unfolding nx by (auto simp: case_prod_beta)
  qed
qed

text \<open>Repeated steps, as the copying loop of a checkpoint makes them.\<close>

fun iterate :: "nat \<Rightarrow> wal_iterator \<Rightarrow> (u32 \<times> nat) list" where
  "iterate 0 p = []"
| "iterate (Suc n) p =
     (case walIteratorNext p of (p', None) \<Rightarrow> [] | (p', Some r) \<Rightarrow> r # iterate n p')"

lemma pending_finite [simp]: "finite (pending log first hi q)"
  by (rule finite_subset [of _ "{..hi}"]) (auto simp: pending_def)

lemma iterate_ok:
  assumes "iter_ok log first hi p" and "iPrior p \<le> 0xFFFFFFFF" and "card (pending log first hi (iPrior p)) < n"
  shows "sorted_wrt (\<lambda>a b. fst a < fst b) (iterate n p)" (is ?A)
    and "set (iterate n p) = {(log ! (f - 1), f) | f. f \<in> pending log first hi (iPrior p) \<and>
      (\<forall>g \<in> pending log first hi (iPrior p). log ! (g - 1) = log ! (f - 1) \<longrightarrow> g \<le> f)}" (is ?B)
proof -
  have "?A \<and> ?B" using assms
  proof (induction n arbitrary: p)
    case (Suc n)
    let ?P = "pending log first hi (iPrior p)"
    obtain p' o' where nx: "walIteratorNext p = (p', o')" by (cases "walIteratorNext p")
    note st = iterator_step [OF Suc.prems(1,2)]
    show ?case
    proof (cases o')
      case None
      with st(2) nx show ?thesis by auto
    next
      case (Some r)
      obtain pg f where r: "r = (pg, f)" by (cases r)
      have d: "iPrior p' = pg" "f \<in> ?P" "pg = log ! (f - 1)" "pg < 0xFFFFFFFF"
        and min: "\<forall>g \<in> ?P. pg \<le> log ! (g - 1) \<and> (log ! (g - 1) = pg \<longrightarrow> g \<le> f)"
        using st(2) nx Some r by auto
      let ?Q = "pending log first hi (iPrior p')"
      have Q: "?Q = {g \<in> ?P. log ! (g - 1) \<noteq> pg}"
        using min d unfolding pending_def d(1) by (auto simp: order_le_less dest: less_trans)
      have "?Q \<subset> ?P" using d(2,3) Q by auto
      then have "card ?Q < card ?P" by (intro psubset_card_mono) simp_all
      then have "card ?Q < n" using Suc.prems(3) by simp
      then have IH: "sorted_wrt (\<lambda>a b. fst a < fst b) (iterate n p')"
        "set (iterate n p') = {(log ! (f - 1), f) | f. f \<in> ?Q \<and> (\<forall>g \<in> ?Q. log ! (g - 1) = log ! (f - 1) \<longrightarrow> g \<le> f)}"
        using Suc.IH [of p'] st(1) nx d(1,4) by auto
      have it: "iterate (Suc n) p = (pg, f) # iterate n p'" by (simp add: nx Some r)
      have "\<forall>b \<in> set (iterate n p'). pg < fst b" unfolding IH(2) using d(1) by (auto simp: pending_def)
      then have A: "sorted_wrt (\<lambda>a b. fst a < fst b) (iterate (Suc n) p)" unfolding it using IH(1) by simp
      have "set (iterate (Suc n) p) = {(log ! (f - 1), f) | f. f \<in> ?P \<and> (\<forall>g \<in> ?P. log ! (g - 1) = log ! (f - 1) \<longrightarrow> g \<le> f)}" (is "_ = ?R")
      proof (intro set_eqI iffI)
        fix x assume "x \<in> set (iterate (Suc n) p)"
        then show "x \<in> ?R" using d(2,3) min unfolding it list.set IH(2) Q by auto
      next
        fix x assume "x \<in> ?R"
        then obtain g where g: "x = (log ! (g - 1), g)" "g \<in> ?P" "\<forall>h \<in> ?P. log ! (h - 1) = log ! (g - 1) \<longrightarrow> h \<le> g" by blast
        show "x \<in> set (iterate (Suc n) p)"
        proof (cases "log ! (g - 1) = pg")
          case True
          then have "g = f" using g(2,3) min d(2,3) by (metis le_antisym)
          with g(1) d(3) show ?thesis unfolding it by simp
        next
          case False
          with g show ?thesis unfolding it list.set IH(2) Q by auto
        qed
      qed
      with A show ?thesis by simp
    qed
  qed simp
  then show ?A ?B by blast+
qed

section \<open>The iterator a checkpoint starts with\<close>

lemma walMergesort_seg:
  assumes n: "n \<le> HASHTABLE_NPAGE"
  shows "key_sorted c (walMergesort c [0..<n])"
    and "\<And>i. i \<in> set (walMergesort c [0..<n]) \<longleftrightarrow> i < n \<and> (\<forall>j < n. c j = c i \<longrightarrow> j \<le> i)"
    and "\<And>j. j < n \<Longrightarrow> \<exists>i \<in> set (walMergesort c [0..<n]). c i = c j \<and> j \<le> i"
proof -
  have r: "run c 0 n (walMergesort c [0..<n])" using n by (intro walMergesort_run) simp
  then show "key_sorted c (walMergesort c [0..<n])"
    and m: "\<And>i. i \<in> set (walMergesort c [0..<n]) \<longleftrightarrow> i < n \<and> (\<forall>j < n. c j = c i \<longrightarrow> j \<le> i)"
    by (auto simp: run_def)
  show "\<exists>i \<in> set (walMergesort c [0..<n]). c i = c j \<and> j \<le> i" if jn: "j < n" for j
  proof -
    obtain i where i: "i \<in> set (walMergesort c [0..<n])" "c i = c j"
      using run_covers [OF r _ jn] by auto
    moreover have "j \<le> i" using m [of i] i jn by simp
    ultimately show ?thesis by blast
  qed
qed

lemma init_segment_ok:
  assumes ok: "index_ok ix log clean" and hi: "1 \<le> hi" "hi \<le> length log" and k: "k \<le> walFramePage hi"
    and pg: "\<forall>p \<in> set log. p < 0xFFFFFFFF"
  shows "\<exists>s. init_segment ix hi (walFramePage hi + 1) k = Some s \<and> seg_good log 0 s \<and> seg_in hi k s \<and> seg_covers log hi k s"
proof -
  have zk: "hash_iZero k < hi" using hash_iZero_mono [OF k] walFramePage_bounds(1) [OF hi(1)] by simp
  obtain sg m where sg: "ix k = Some sg" "\<And>i. i < seg_count log k \<Longrightarrow> aPgno sg i = log ! (hash_iZero k + i)"
    using index_segD [OF ok, of k] zk hi(2) by auto
  define n where "n = (if k + 1 = walFramePage hi + 1 then hi - hash_iZero k else seg_size k)"
  have hiS: "k < walFramePage hi \<Longrightarrow> hash_iZero (Suc k) < hi"
    using hash_iZero_mono [of "Suc k" "walFramePage hi"] walFramePage_bounds(1) [OF hi(1)] by simp
  have n: "hash_iZero k + n = min hi (hash_iZero (Suc k))"
    using k zk walFramePage_bounds(2) [OF hi(1)] hiS by (auto simp: n_def hash_iZero_Suc)
  then have "n \<le> seg_size k" by (simp add: hash_iZero_Suc)
  then have n4: "n \<le> HASHTABLE_NPAGE" by (auto simp: seg_size_def split: if_splits)
  have cnt: "n \<le> seg_count log k" using n hi(2) by (auto simp: seg_count_def hash_iZero_Suc)
  let ?a = "walMergesort (aPgno sg) [0..<n]"
  define s where "s = \<lparr>iNext = 0, aIndex = ?a, seg_aPgno = aPgno sg, seg_iZero = hash_iZero k + 1\<rparr>"
  have "init_segment ix hi (walFramePage hi + 1) k = Some s"
    by (simp add: init_segment_def walHashGet_def sg(1) n_def s_def Let_def)
  note sort = walMergesort_seg [where c = "aPgno sg", OF n4]
  have el: "?a ! j < n" if "j < length ?a" for j using sort(2) [of "?a ! j"] that by simp
  have page: "aPgno sg i = log ! (hash_iZero k + i)" "log ! (hash_iZero k + i) < 0xFFFFFFFF" if "i < n" for i
    using sg(2) [of i] cnt that pg n hi(2) by (auto simp: nth_mem)
  have "seg_good log 0 s"
    using sort(1) page el by (auto simp: seg_good_def s_def)
  moreover have "seg_in hi k s" using el n by (fastforce simp: seg_in_def s_def)
  moreover have "seg_covers log hi k s"
    unfolding seg_covers_def
  proof (intro allI impI)
    fix f assume f: "hash_iZero k < f \<and> f \<le> min hi (hash_iZero (Suc k))"
    define j where "j = f - hash_iZero k - 1"
    have j: "j < n" "f = hash_iZero k + 1 + j" using f n by (auto simp: j_def)
    obtain i where i: "i \<in> set ?a" "aPgno sg i = aPgno sg j" "j \<le> i" using sort(3) [OF j(1)] by blast
    then obtain q where "q < length ?a" "?a ! q = i" by (auto simp: in_set_conv_nth)
    with i j page(1) [OF j(1)] show "\<exists>j < length (aIndex s). seg_page s j = log ! (f - 1) \<and> f \<le> seg_frame s j"
      by (auto simp: s_def)
  qed
  ultimately show ?thesis using \<open>init_segment _ _ _ _ = Some s\<close> by blast
qed

lemma walIteratorInit_ok:
  assumes ok: "index_ok ix log clean" and hi: "1 \<le> hi" "hi \<le> length log" and pg: "\<forall>p \<in> set log. p < 0xFFFFFFFF"
  shows "\<exists>p. walIteratorInit ix hi nb = Some p \<and> iPrior p = 0 \<and> iter_ok log (walFramePage (nb + 1)) hi p"
proof -
  define first where "first = walFramePage (nb + 1)"
  define N where "N = walFramePage hi + 1"
  define segs where "segs = map (\<lambda>i. if i < first then Some empty_segment else init_segment ix hi N i) [0..<N]"
  have seg: "\<exists>s. segs ! k = Some s \<and> seg_good log 0 s \<and> seg_in hi k s \<and> (if first \<le> k then seg_covers log hi k s else aIndex s = [])"
    if k: "k < N" for k
  proof (cases "k < first")
    case True
    then show ?thesis using k by (auto simp: segs_def empty_segment_def seg_good_def seg_in_def key_sorted_def)
  next
    case False
    have "segs ! k = init_segment ix hi N k" using False k by (simp add: segs_def)
    then show ?thesis using False init_segment_ok [OF ok hi _ pg, of k] k by (auto simp: N_def)
  qed
  have len: "length segs = N" by (simp add: segs_def)
  have "None \<notin> set segs"
  proof
    assume "None \<in> set segs"
    then obtain k where "k < N" "segs ! k = None" by (auto simp: in_set_conv_nth len)
    then show False using seg by force
  qed
  then have init: "walIteratorInit ix hi nb = Some \<lparr>iPrior = 0, aSegment = map the segs\<rparr>"
    unfolding walIteratorInit_def Let_def segs_def [symmetric, unfolded N_def first_def] by (simp only: if_False)
  have "iter_ok log first hi \<lparr>iPrior = 0, aSegment = map the segs\<rparr>"
    unfolding iter_ok_def Let_def wal_iterator.select_convs length_map len
  proof (intro conjI allI impI)
    fix k assume k: "k < N"
    then obtain s where s: "segs ! k = Some s" "seg_good log 0 s" "seg_in hi k s"
      "if first \<le> k then seg_covers log hi k s else aIndex s = []" using seg by blast
    have m: "map the segs ! k = s" using k len s(1) by simp
    show "seg_good log 0 (map the segs ! k)" "seg_in hi k (map the segs ! k)"
      "if first \<le> k then seg_covers log hi k (map the segs ! k) else aIndex (map the segs ! k) = []"
      unfolding m using s(2-4) by auto
  qed (simp add: N_def)
  with init show ?thesis by (auto simp: first_def)
qed

lemma newest_Max_iff:
  assumes "lo < f" and "f \<le> hi"
  shows "newest log (lo + 1) hi (log ! (f - 1)) = f \<longleftrightarrow> (\<forall>g. lo < g \<and> g \<le> hi \<and> log ! (g - 1) = log ! (f - 1) \<longrightarrow> g \<le> f)"
proof -
  let ?F = "frames_of log 0 hi (lo + 1) (log ! (f - 1))"
  have f: "f \<in> ?F" using assms by (simp add: frames_of_def)
  then have "newest log (lo + 1) hi (log ! (f - 1)) = Max ?F" by (auto simp: newest_def Let_def)
  moreover have "Max ?F = f \<longleftrightarrow> (\<forall>g \<in> ?F. g \<le> f)" using f by (metis Max_ge Max_eqI finite_frames_of)
  ultimately show ?thesis by (auto simp: frames_of_def)
qed

section \<open>Properties\<close>

text \<open>C24: A checkpoint visits the right frames in the right order. Starting the iterator over a valid
  wal-index succeeds, and its steps return pages in strictly ascending order, each page of the frames
  after those already copied once, paired with the newest of its frames.\<close>

theorem checkpoint_order:
  assumes ok: "index_ok ix log clean" and hi: "1 \<le> hi" "hi \<le> length log"
    and pg: "\<forall>p \<in> set log. 0 < p \<and> p < 0xFFFFFFFF" and "lo = hash_iZero (walFramePage (nBackfill + 1))"
  shows "lo \<le> nBackfill \<and> (\<exists>p. walIteratorInit ix hi nBackfill = Some p \<and>
    sorted_wrt (\<lambda>a b. fst a < fst b) (iterate (hi + 1) p) \<and>
    set (iterate (hi + 1) p) = {(log ! (f - 1), f) | f. lo < f \<and> f \<le> hi \<and> newest log (lo + 1) hi (log ! (f - 1)) = f})"
proof -
  define first where "first = walFramePage (nBackfill + 1)"
  obtain p where p: "walIteratorInit ix hi nBackfill = Some p" "iPrior p = 0" "iter_ok log first hi p"
    using walIteratorInit_ok [OF ok hi, of nBackfill] pg by (auto simp: first_def)
  have P: "pending log first hi 0 = {f. lo < f \<and> f \<le> hi}"
    using pg hi(2) assms(5) by (auto simp: pending_def first_def nth_mem)
  have "pending log first hi 0 \<subseteq> {1..hi}" by (auto simp: pending_def)
  from card_mono [OF _ this] have "card (pending log first hi 0) < hi + 1" by simp
  then have it: "sorted_wrt (\<lambda>a b. fst a < fst b) (iterate (hi + 1) p)"
    "set (iterate (hi + 1) p) = {(log ! (f - 1), f) | f. f \<in> pending log first hi 0 \<and>
      (\<forall>g \<in> pending log first hi 0. log ! (g - 1) = log ! (f - 1) \<longrightarrow> g \<le> f)}"
    using iterate_ok [OF p(3), of "hi + 1"] p(2) by simp_all
  have "set (iterate (hi + 1) p) = {(log ! (f - 1), f) | f. lo < f \<and> f \<le> hi \<and> newest log (lo + 1) hi (log ! (f - 1)) = f}"
    unfolding it(2) P using newest_Max_iff [of lo _ hi log] by (intro Collect_cong) (auto simp del: One_nat_def)
  moreover have "lo \<le> nBackfill" using walFramePage_bounds(1) [of "nBackfill + 1"] assms(5) by simp
  ultimately show ?thesis using p(1) it(1) by blast
qed

theorem checkpoint_order_witness:
  "\<exists>p. walIteratorInit (fst (index_append_pages garbage_index 0 0 [5, 7, 5])) 3 0 = Some p \<and>
     set (iterate 4 p) = {(5, 3), (7, 2)}"
proof -
  have "index_ok garbage_index [] False" by (simp add: index_ok_def garbage_index_def)
  then have ok: "index_ok (fst (index_append_pages garbage_index 0 0 [5, 7, 5])) [5, 7, 5] True"
    using append_pages_ok [of garbage_index "[]" False 0 "[5, 7, 5]"] by (simp del: index_append_pages.simps)
  have F: "frames_of [5, 7, 5] 0 3 1 5 = {1, 3}" "frames_of [5, 7, 5] 0 3 1 7 = {2}"
    by (auto simp: frames_of_def numeral_eq_Suc le_Suc_eq)
  have z: "hash_iZero (walFramePage (0 + 1)) = 0" by (simp add: walFramePage_def hash_iZero_def)
  have "{([5, 7, 5] ! (f - 1), f) | f. 0 < f \<and> f \<le> 3 \<and> newest [5, 7, 5] (0 + 1) 3 ([5, 7, 5] ! (f - 1)) = f} = {(5 :: u32, 3), (7, 2)}"
    (is "?L = ?R")
  proof -
    have N: "newest [5, 7, 5] (0 + 1) 3 5 = 3" "newest [5, 7, 5] (0 + 1) 3 7 = 2" using F by (simp_all add: newest_def)
    have "(0 < f \<and> f \<le> 3 \<and> newest [5, 7, 5] (0 + 1) 3 ([5, 7, 5] ! (f - 1)) = f) \<longleftrightarrow> f = 2 \<or> f = 3" for f
    proof -
      consider "f = 0" | "f = 1" | "f = 2" | "f = 3" | "3 < f" by linarith
      then show ?thesis using N by cases simp_all
    qed
    then have "?L = {([5, 7, 5] ! (f - 1), f) | f. f = 2 \<or> f = 3}" by presburger
    also have "\<dots> = ?R" by force
    finally show ?thesis .
  qed
  with checkpoint_order [OF ok, of 3 0 0] z show ?thesis by (simp del: index_append_pages.simps iterate.simps) blast
qed

text \<open>walMergesort on the entries of a wal-index segment leaves, in strictly ascending page order,
  exactly the newest entry of every page.\<close>

theorem mergesort_newest:
  assumes "n \<le> HASHTABLE_NPAGE"
  shows "key_sorted c (walMergesort c [0..<n]) \<and>
    set (walMergesort c [0..<n]) = {i. i < n \<and> (\<forall>j < n. c j = c i \<longrightarrow> j \<le> i)}"
  using walMergesort_seg(1,2) [where c = c, OF assms] by auto

theorem mergesort_newest_witness:
  "set (walMergesort (\<lambda>i. if even i then 4 else 3) [0..<5]) = {3, 4}"
proof -
  let ?c = "\<lambda>i :: nat. if even i then 4 else (3 :: u32)"
  have "{i. i < 5 \<and> (\<forall>j < 5. ?c j = ?c i \<longrightarrow> j \<le> i)} = {3, 4}"
  proof (intro set_eqI iffI)
    fix i assume "i \<in> {i. i < 5 \<and> (\<forall>j < 5. ?c j = ?c i \<longrightarrow> j \<le> i)}"
    then have i: "i < 5" "\<forall>j < 5. ?c j = ?c i \<longrightarrow> j \<le> i" by auto
    have "even i \<Longrightarrow> 4 \<le> i" "odd i \<Longrightarrow> 3 \<le> i" using spec [OF i(2), of 4] spec [OF i(2), of 3] by simp_all
    moreover have "i = 0 \<or> i = 1 \<or> i = 2 \<or> i = 3 \<or> i = 4" using i(1) by auto
    ultimately show "i \<in> {3, 4}" by auto
  next
    fix i :: nat assume "i \<in> {3, 4}"
    moreover have "j < 5 \<Longrightarrow> odd j \<Longrightarrow> j \<le> 3" for j :: nat by (cases "j = 4") auto
    ultimately show "i \<in> {i. i < 5 \<and> (\<forall>j < 5. ?c j = ?c i \<longrightarrow> j \<le> i)}" by (auto split: if_splits)
  qed
  with mergesort_newest [of 5 ?c] show ?thesis by simp
qed

end
