(* ===== verification/Ctype.thy ===== *)
theory Ctype
  imports Prelude
begin

text \<open>
  Characters of the amalgamation: the tables \<^verbatim>\<open>sqlite3CtypeMap\<close> and \<^verbatim>\<open>sqlite3UpperToLower\<close>
  (\<^verbatim>\<open>global.c\<close>), the tests built on them, and the comparisons that ignore case (\<^verbatim>\<open>util.c\<close>).
  A text is the list of its byte values; a terminator is implicit, reading past the end gives 0.
\<close>

section \<open>Tables\<close>

type_synonym ztext = "nat list"

definition ch :: "ztext \<Rightarrow> nat \<Rightarrow> nat" where
  "ch z i = (if i < length z then z ! i else 0)"

definition codes :: "string \<Rightarrow> ztext" where
  "codes s = map of_char s"

definition sqlite3UpperToLower :: "nat list" where
  "sqlite3UpperToLower = [
    0, 1, 2, 3, 4, 5, 6, 7, 8, 9, 10, 11, 12, 13, 14, 15, 16, 17, 18, 19, 20, 21, 22, 23, 24, 25, 26, 27, 28, 29, 30, 31,
    32, 33, 34, 35, 36, 37, 38, 39, 40, 41, 42, 43, 44, 45, 46, 47, 48, 49, 50, 51, 52, 53, 54, 55, 56, 57, 58, 59, 60, 61, 62, 63,
    64, 97, 98, 99, 100, 101, 102, 103, 104, 105, 106, 107, 108, 109, 110, 111, 112, 113, 114, 115, 116, 117, 118, 119, 120, 121, 122, 91, 92, 93, 94, 95,
    96, 97, 98, 99, 100, 101, 102, 103, 104, 105, 106, 107, 108, 109, 110, 111, 112, 113, 114, 115, 116, 117, 118, 119, 120, 121, 122, 123, 124, 125, 126, 127,
    128, 129, 130, 131, 132, 133, 134, 135, 136, 137, 138, 139, 140, 141, 142, 143, 144, 145, 146, 147, 148, 149, 150, 151, 152, 153, 154, 155, 156, 157, 158, 159,
    160, 161, 162, 163, 164, 165, 166, 167, 168, 169, 170, 171, 172, 173, 174, 175, 176, 177, 178, 179, 180, 181, 182, 183, 184, 185, 186, 187, 188, 189, 190, 191,
    192, 193, 194, 195, 196, 197, 198, 199, 200, 201, 202, 203, 204, 205, 206, 207, 208, 209, 210, 211, 212, 213, 214, 215, 216, 217, 218, 219, 220, 221, 222, 223,
    224, 225, 226, 227, 228, 229, 230, 231, 232, 233, 234, 235, 236, 237, 238, 239, 240, 241, 242, 243, 244, 245, 246, 247, 248, 249, 250, 251, 252, 253, 254, 255]"

definition sqlite3CtypeMap :: "nat list" where
  "sqlite3CtypeMap = [
    0x00, 0x00, 0x00, 0x00, 0x00, 0x00, 0x00, 0x00, 0x00, 0x01, 0x01, 0x01, 0x01, 0x01, 0x00, 0x00,
    0x00, 0x00, 0x00, 0x00, 0x00, 0x00, 0x00, 0x00, 0x00, 0x00, 0x00, 0x00, 0x00, 0x00, 0x00, 0x00,
    0x01, 0x00, 0x80, 0x00, 0x40, 0x00, 0x00, 0x80, 0x00, 0x00, 0x00, 0x00, 0x00, 0x00, 0x00, 0x00,
    0x0c, 0x0c, 0x0c, 0x0c, 0x0c, 0x0c, 0x0c, 0x0c, 0x0c, 0x0c, 0x00, 0x00, 0x00, 0x00, 0x00, 0x00,
    0x00, 0x0a, 0x0a, 0x0a, 0x0a, 0x0a, 0x0a, 0x02, 0x02, 0x02, 0x02, 0x02, 0x02, 0x02, 0x02, 0x02,
    0x02, 0x02, 0x02, 0x02, 0x02, 0x02, 0x02, 0x02, 0x02, 0x02, 0x02, 0x80, 0x00, 0x00, 0x00, 0x40,
    0x80, 0x2a, 0x2a, 0x2a, 0x2a, 0x2a, 0x2a, 0x22, 0x22, 0x22, 0x22, 0x22, 0x22, 0x22, 0x22, 0x22,
    0x22, 0x22, 0x22, 0x22, 0x22, 0x22, 0x22, 0x22, 0x22, 0x22, 0x22, 0x00, 0x00, 0x00, 0x00, 0x00,
    0x40, 0x40, 0x40, 0x40, 0x40, 0x40, 0x40, 0x40, 0x40, 0x40, 0x40, 0x40, 0x40, 0x40, 0x40, 0x40,
    0x40, 0x40, 0x40, 0x40, 0x40, 0x40, 0x40, 0x40, 0x40, 0x40, 0x40, 0x40, 0x40, 0x40, 0x40, 0x40,
    0x40, 0x40, 0x40, 0x40, 0x40, 0x40, 0x40, 0x40, 0x40, 0x40, 0x40, 0x40, 0x40, 0x40, 0x40, 0x40,
    0x40, 0x40, 0x40, 0x40, 0x40, 0x40, 0x40, 0x40, 0x40, 0x40, 0x40, 0x40, 0x40, 0x40, 0x40, 0x40,
    0x40, 0x40, 0x40, 0x40, 0x40, 0x40, 0x40, 0x40, 0x40, 0x40, 0x40, 0x40, 0x40, 0x40, 0x40, 0x40,
    0x40, 0x40, 0x40, 0x40, 0x40, 0x40, 0x40, 0x40, 0x40, 0x40, 0x40, 0x40, 0x40, 0x40, 0x40, 0x40,
    0x40, 0x40, 0x40, 0x40, 0x40, 0x40, 0x40, 0x40, 0x40, 0x40, 0x40, 0x40, 0x40, 0x40, 0x40, 0x40,
    0x40, 0x40, 0x40, 0x40, 0x40, 0x40, 0x40, 0x40, 0x40, 0x40, 0x40, 0x40, 0x40, 0x40, 0x40, 0x40]"

definition UpperToLower :: "nat \<Rightarrow> nat" where
  "UpperToLower c = sqlite3UpperToLower ! (c mod 256)"

definition ctype :: "nat \<Rightarrow> nat \<Rightarrow> bool" where
  "ctype bits c \<longleftrightarrow> (sqlite3CtypeMap ! (c mod 256) AND bits) \<noteq> 0"

definition sqlite3Isspace :: "nat \<Rightarrow> bool" where "sqlite3Isspace = ctype 0x01"
definition sqlite3Isalnum :: "nat \<Rightarrow> bool" where "sqlite3Isalnum = ctype 0x06"
definition sqlite3Isalpha :: "nat \<Rightarrow> bool" where "sqlite3Isalpha = ctype 0x02"
definition sqlite3Isdigit :: "nat \<Rightarrow> bool" where "sqlite3Isdigit = ctype 0x04"
definition sqlite3Isxdigit :: "nat \<Rightarrow> bool" where "sqlite3Isxdigit = ctype 0x08"
definition sqlite3Isquote :: "nat \<Rightarrow> bool" where "sqlite3Isquote = ctype 0x80"
definition IdChar :: "nat \<Rightarrow> bool" where "IdChar = ctype 0x46"

definition sqlite3Toupper :: "nat \<Rightarrow> nat" where
  "sqlite3Toupper c = c - (c AND sqlite3CtypeMap ! (c mod 256) AND 0x20)"

section \<open>What the tables say\<close>

fun indexed :: "nat \<Rightarrow> 'a list \<Rightarrow> (nat \<times> 'a) list" where
  "indexed n [] = []"
| "indexed n (x # xs) = (n, x) # indexed (n + 1) xs"

lemma indexed_nth: "c < length t \<Longrightarrow> (n + c, t ! c) \<in> set (indexed n t)"
proof (induction t arbitrary: n c)
  case (Cons x t)
  then show ?case using Cons.IH [of "c - 1" "n + 1"] by (cases c) auto
qed simp

lemma table_all: "list_all (\<lambda>(c, m). P c m) (indexed 0 t) \<Longrightarrow> c < length t \<Longrightarrow> P c (t ! c)"
  using indexed_nth [of c t 0] by (auto simp: list_all_iff)

lemma table_lengths: "length sqlite3CtypeMap = 256" "length sqlite3UpperToLower = 256"
  by (simp_all add: sqlite3CtypeMap_def sqlite3UpperToLower_def)

lemmas ctype_all = table_all [where t = sqlite3CtypeMap, unfolded table_lengths]
lemmas lower_all = table_all [where t = sqlite3UpperToLower, unfolded table_lengths]

lemma mod_byte: "c mod 256 < (256 :: nat)"
  by simp

text \<open>The table of every class, decided over the 256 bytes.\<close>

lemma isspace_iff: "sqlite3Isspace c \<longleftrightarrow> 9 \<le> c mod 256 \<and> c mod 256 \<le> 13 \<or> c mod 256 = 32"
proof -
  have "list_all (\<lambda>(c, m). ((m AND 1) \<noteq> 0) = (9 \<le> c \<and> c \<le> 13 \<or> c = 32)) (indexed 0 sqlite3CtypeMap)" by (simp add: sqlite3CtypeMap_def del: One_nat_def)
  from ctype_all [OF this mod_byte [of c]] show ?thesis by (simp add: sqlite3Isspace_def ctype_def)
qed

lemma isdigit_iff: "sqlite3Isdigit c \<longleftrightarrow> 48 \<le> c mod 256 \<and> c mod 256 \<le> 57"
proof -
  have "list_all (\<lambda>(c, m). ((m AND 4) \<noteq> 0) = (48 \<le> c \<and> c \<le> 57)) (indexed 0 sqlite3CtypeMap)" by (simp add: sqlite3CtypeMap_def del: One_nat_def)
  from ctype_all [OF this mod_byte [of c]] show ?thesis by (simp add: sqlite3Isdigit_def ctype_def)
qed

lemma isxdigit_iff:
  "sqlite3Isxdigit c \<longleftrightarrow> 48 \<le> c mod 256 \<and> c mod 256 \<le> 57 \<or> 65 \<le> c mod 256 \<and> c mod 256 \<le> 70 \<or> 97 \<le> c mod 256 \<and> c mod 256 \<le> 102"
proof -
  have "list_all (\<lambda>(c, m). ((m AND 8) \<noteq> 0) = (48 \<le> c \<and> c \<le> 57 \<or> 65 \<le> c \<and> c \<le> 70 \<or> 97 \<le> c \<and> c \<le> 102)) (indexed 0 sqlite3CtypeMap)" by (simp add: sqlite3CtypeMap_def del: One_nat_def)
  from ctype_all [OF this mod_byte [of c]] show ?thesis by (simp add: sqlite3Isxdigit_def ctype_def)
qed

lemma isalpha_iff: "sqlite3Isalpha c \<longleftrightarrow> 65 \<le> c mod 256 \<and> c mod 256 \<le> 90 \<or> 97 \<le> c mod 256 \<and> c mod 256 \<le> 122"
proof -
  have "list_all (\<lambda>(c, m). ((m AND 2) \<noteq> 0) = (65 \<le> c \<and> c \<le> 90 \<or> 97 \<le> c \<and> c \<le> 122)) (indexed 0 sqlite3CtypeMap)" by (simp add: sqlite3CtypeMap_def del: One_nat_def)
  from ctype_all [OF this mod_byte [of c]] show ?thesis by (simp add: sqlite3Isalpha_def ctype_def)
qed

lemma isquote_iff: "sqlite3Isquote c \<longleftrightarrow> c mod 256 \<in> {34, 39, 91, 96}"
proof -
  have "list_all (\<lambda>(c, m). ((m AND 128) \<noteq> 0) = (c = 34 \<or> c = 39 \<or> c = 91 \<or> c = 96)) (indexed 0 sqlite3CtypeMap)" by (simp add: sqlite3CtypeMap_def del: One_nat_def)
  from ctype_all [OF this mod_byte [of c]] show ?thesis by (simp add: sqlite3Isquote_def ctype_def)
qed

lemma IdChar_iff: "IdChar c \<longleftrightarrow> sqlite3Isalpha c \<or> sqlite3Isdigit c \<or> c mod 256 = 36 \<or> c mod 256 = 95 \<or> 128 \<le> c mod 256"
proof -
  have "list_all (\<lambda>(c, m). ((m AND 0x46) \<noteq> 0) = ((m AND 2) \<noteq> 0 \<or> (m AND 4) \<noteq> 0 \<or> c = 36 \<or> c = 95 \<or> 128 \<le> c))
    (indexed 0 sqlite3CtypeMap)" by (simp add: sqlite3CtypeMap_def del: One_nat_def)
  from ctype_all [OF this mod_byte [of c]] show ?thesis
    by (simp add: IdChar_def sqlite3Isalpha_def sqlite3Isdigit_def ctype_def)
qed

lemma UpperToLower_iff: "UpperToLower c = (if 65 \<le> c mod 256 \<and> c mod 256 \<le> 90 then c mod 256 + 32 else c mod 256)"
proof -
  have "list_all (\<lambda>(c, m). m = (if 65 \<le> c \<and> c \<le> 90 then c + 32 else c)) (indexed 0 sqlite3UpperToLower)" by (simp add: sqlite3UpperToLower_def del: One_nat_def)
  from lower_all [OF this mod_byte [of c]] show ?thesis by (simp add: UpperToLower_def)
qed

lemma lower_zero [simp]: "UpperToLower 0 = 0"
  by (simp add: UpperToLower_iff)

lemma lower_idem [simp]: "UpperToLower (UpperToLower c) = UpperToLower c"
  by (auto simp: UpperToLower_iff)

lemma lower_less: "UpperToLower c < 256"
  using mod_byte [of c] by (auto simp: UpperToLower_iff)

lemma lower_eq_0: "c < 256 \<Longrightarrow> UpperToLower c = 0 \<longleftrightarrow> c = 0"
  by (auto simp: UpperToLower_iff)

lemma toupper_iff: "c < 256 \<Longrightarrow> sqlite3Toupper c = (if 97 \<le> c \<and> c \<le> 122 then c - 32 else c)"
proof -
  assume c: "c < 256"
  have "list_all (\<lambda>(c, m). c - (c AND m AND 0x20) = (if 97 \<le> c \<and> c \<le> 122 then c - 32 else c)) (indexed 0 sqlite3CtypeMap)"
    by (simp add: sqlite3CtypeMap_def del: One_nat_def)
  from ctype_all [OF this c] c show ?thesis by (simp add: sqlite3Toupper_def)
qed

lemma toupper_lower: "c < 256 \<Longrightarrow> UpperToLower (sqlite3Toupper c) = UpperToLower c"
  by (auto simp: toupper_iff UpperToLower_iff)

section \<open>Comparison without case\<close>

fun sqlite3StrICmp :: "ztext \<Rightarrow> ztext \<Rightarrow> int" where
  "sqlite3StrICmp [] [] = 0"
| "sqlite3StrICmp [] (x # b) = int (UpperToLower 0) - int (UpperToLower x)"
| "sqlite3StrICmp (c # a) [] = int (UpperToLower c) - int (UpperToLower 0)"
| "sqlite3StrICmp (c # a) (x # b) =
     (if c = x then sqlite3StrICmp a b
      else let d = int (UpperToLower c) - int (UpperToLower x) in
           if d \<noteq> 0 then d else sqlite3StrICmp a b)"

definition sqlite3_stricmp :: "ztext option \<Rightarrow> ztext option \<Rightarrow> int" where
  "sqlite3_stricmp zLeft zRight =
     (case zLeft of
        None \<Rightarrow> if zRight \<noteq> None then -1 else 0
      | Some a \<Rightarrow> (case zRight of None \<Rightarrow> 1 | Some b \<Rightarrow> sqlite3StrICmp a b))"

text \<open>The loop of \<^verbatim>\<open>sqlite3_strnicmp\<close>: at most \<open>N\<close> characters.\<close>

fun strnicmp_loop :: "ztext \<Rightarrow> ztext \<Rightarrow> nat \<Rightarrow> int" where
  "strnicmp_loop a b 0 = 0"
| "strnicmp_loop a b (Suc n) =
     (if ch a 0 \<noteq> 0 \<and> UpperToLower (ch a 0) = UpperToLower (ch b 0) then strnicmp_loop (tl a) (tl b) n
      else int (UpperToLower (ch a 0)) - int (UpperToLower (ch b 0)))"

definition sqlite3_strnicmp :: "ztext option \<Rightarrow> ztext option \<Rightarrow> int \<Rightarrow> int" where
  "sqlite3_strnicmp zLeft zRight n =
     (case zLeft of
        None \<Rightarrow> if zRight \<noteq> None then -1 else 0
      | Some a \<Rightarrow> (case zRight of None \<Rightarrow> 1 | Some b \<Rightarrow> strnicmp_loop a b (nat n)))"

definition sqlite3StrIHash :: "ztext option \<Rightarrow> u8" where
  "sqlite3StrIHash z = (case z of None \<Rightarrow> 0 | Some s \<Rightarrow> fold (\<lambda>c h. h + of_nat (UpperToLower c)) s 0)"

definition sqlite3Strlen30 :: "ztext option \<Rightarrow> nat" where
  "sqlite3Strlen30 z = (case z of None \<Rightarrow> 0 | Some s \<Rightarrow> length s mod 2 ^ 30)"

abbreviation lower :: "ztext \<Rightarrow> ztext" where
  "lower \<equiv> map UpperToLower"

definition cstring :: "ztext \<Rightarrow> bool" where
  "cstring z \<longleftrightarrow> (\<forall>c \<in> set z. 0 < c \<and> c < 256)"

lemma cstring_simps [simp]:
  "cstring []" "cstring (c # z) \<longleftrightarrow> 0 < c \<and> c < 256 \<and> cstring z" "cstring (x @ y) \<longleftrightarrow> cstring x \<and> cstring y"
  by (auto simp: cstring_def)

lemma lower_pos: "0 < c \<Longrightarrow> c < 256 \<Longrightarrow> 0 < UpperToLower c"
  using lower_eq_0 [of c] by simp

lemma StrICmp_eq_0: "cstring a \<Longrightarrow> cstring b \<Longrightarrow> sqlite3StrICmp a b = 0 \<longleftrightarrow> lower a = lower b"
  by (induction a b rule: sqlite3StrICmp.induct) (auto simp: Let_def dest: lower_pos)

fun lex_less :: "nat list \<Rightarrow> nat list \<Rightarrow> bool" where
  "lex_less _ [] = False"
| "lex_less [] (y # ys) = True"
| "lex_less (x # xs) (y # ys) = (x < y \<or> x = y \<and> lex_less xs ys)"

lemma StrICmp_less: "cstring a \<Longrightarrow> cstring b \<Longrightarrow> sqlite3StrICmp a b < 0 \<longleftrightarrow> lex_less (lower a) (lower b)"
  by (induction a b rule: sqlite3StrICmp.induct) (auto simp: Let_def dest: lower_pos)

lemma StrICmp_antisym: "sqlite3StrICmp a b = - sqlite3StrICmp b a"
  by (induction a b rule: sqlite3StrICmp.induct) (auto simp: Let_def)

lemma strnicmp_prefix:
  "cstring a \<Longrightarrow> cstring b \<Longrightarrow> strnicmp_loop a b n = sqlite3StrICmp (take n a) (take n b)"
proof (induction n arbitrary: a b)
  case (Suc n)
  then show ?case by (cases a; cases b) (auto simp: ch_def Let_def dest: lower_pos)
qed simp

lemma StrIHash_lower: "lower a = lower b \<Longrightarrow> sqlite3StrIHash (Some a) = sqlite3StrIHash (Some b)"
proof -
  have "fold (\<lambda>c h. h + of_nat (UpperToLower c)) s g = fold (\<lambda>c h. h + of_nat c) (lower s) g" for s and g :: u8
    by (induction s arbitrary: g) simp_all
  then show "lower a = lower b \<Longrightarrow> sqlite3StrIHash (Some a) = sqlite3StrIHash (Some b)"
    by (simp add: sqlite3StrIHash_def)
qed

section \<open>Properties\<close>

text \<open>The comparison without case compares the lower-case forms byte by byte: it is zero exactly
  for texts that agree in lower case, negative exactly when the first precedes, antisymmetric, and
  the bounded variant compares prefixes. Texts it finds equal have the same sqlite3StrIHash.\<close>

theorem stricmp_compares_lower:
  assumes "cstring a" and "cstring b"
  shows "(sqlite3_stricmp (Some a) (Some b) = 0 \<longleftrightarrow> lower a = lower b) \<and>
    (sqlite3_stricmp (Some a) (Some b) < 0 \<longleftrightarrow> lex_less (lower a) (lower b)) \<and>
    sqlite3_stricmp (Some b) (Some a) = - sqlite3_stricmp (Some a) (Some b) \<and>
    sqlite3_strnicmp (Some a) (Some b) (int n) = sqlite3StrICmp (take n a) (take n b) \<and>
    (sqlite3_stricmp (Some a) (Some b) = 0 \<longrightarrow> sqlite3StrIHash (Some a) = sqlite3StrIHash (Some b))"
proof -
  have e: "sqlite3_stricmp (Some x) (Some y) = sqlite3StrICmp x y" for x y by (simp add: sqlite3_stricmp_def)
  have n: "sqlite3_strnicmp (Some a) (Some b) (int n) = sqlite3StrICmp (take n a) (take n b)"
    using strnicmp_prefix [OF assms] by (simp add: sqlite3_strnicmp_def)
  show ?thesis unfolding e n
    using StrICmp_eq_0 [OF assms] StrICmp_less [OF assms] StrICmp_antisym [of b a] StrIHash_lower [of a b] by blast
qed

theorem stricmp_compares_lower_witness:
  "sqlite3_stricmp (Some (codes ''Main'')) (Some (codes ''mAIN'')) = 0 \<and>
   sqlite3_stricmp (Some (codes ''main'')) (Some (codes ''TEMP'')) < 0"
proof -
  have c: "cstring (codes ''Main'')" "cstring (codes ''mAIN'')" "cstring (codes ''main'')" "cstring (codes ''TEMP'')"
    by code_simp+
  have "lower (codes ''Main'') = lower (codes ''mAIN'')" "lex_less (lower (codes ''main'')) (lower (codes ''TEMP''))" by code_simp+
  with stricmp_compares_lower [OF c(1,2)] stricmp_compares_lower [OF c(3,4)] show ?thesis by blast
qed

end
