(* ===== verification/Num_Text.thy ===== *)
theory Num_Text
  imports Ctype
begin

text \<open>
  Integers as text (\<^verbatim>\<open>util.c\<close>): \<^verbatim>\<open>sqlite3Int64ToText\<close>, \<^verbatim>\<open>sqlite3Atoi64\<close> in the three encodings,
  hexadecimal literals and blobs, and the 32-bit readers. Unsigned arithmetic wraps as in C.
\<close>

section \<open>Printing\<close>

definition sqlite3DigitPairs :: ztext where
  "sqlite3DigitPairs = concat (map (\<lambda>k. [48 + k div 10, 48 + k mod 10]) [0..<100])"

text \<open>The loop of \<^verbatim>\<open>sqlite3Int64ToText\<close>, which fills the buffer from its end.\<close>

function text_loop :: "u64 \<Rightarrow> ztext \<Rightarrow> ztext" where
  "text_loop x a =
     (if x \<ge> 10 then
        let kk = unat (x mod 100) * 2 in
        text_loop (x div 100) (sqlite3DigitPairs ! kk # sqlite3DigitPairs ! (kk + 1) # a)
      else if x \<noteq> 0 then unat (x + 48) # a else a)"
  by pat_completeness auto
termination
proof (relation "measure (\<lambda>(x, a). unat x)")
  fix x :: u64 assume "x \<ge> 10"
  then have "0 < unat x" by (simp add: word_le_nat_alt)
  then show "((x div 100, a), (x, b)) \<in> measure (\<lambda>(x, a). unat x)" for a b :: ztext
    by (simp add: unat_div div_less_dividend)
qed simp

declare text_loop.simps [simp del]

definition sqlite3Int64ToText :: "int \<Rightarrow> ztext" where
  "sqlite3Int64ToText v =
     (if v > 0 then text_loop (of_int v) []
      else if v = 0 then [48]
      else 45 # text_loop (if v = SMALLEST_INT64 then push_bit 63 1 else of_int (- v)) [])"

section \<open>Reading decimal\<close>

fun pow63_loop :: "ztext \<Rightarrow> ztext \<Rightarrow> int" where
  "pow63_loop (z # zs) (p # ps) = (if z = p then pow63_loop zs ps else (int z - int p) * 10)"
| "pow63_loop _ _ = 0"

definition compare2pow63 :: "ztext \<Rightarrow> int" where
  "compare2pow63 zNum =
     (let c = pow63_loop zNum (codes ''922337203685477580'') in
      if c = 0 then int (ch zNum 18) - 56 else c)"

abbreviation (input) SQLITE_UTF8 :: nat where "SQLITE_UTF8 \<equiv> 1"
abbreviation (input) SQLITE_UTF16LE :: nat where "SQLITE_UTF16LE \<equiv> 2"
abbreviation (input) SQLITE_UTF16BE :: nat where "SQLITE_UTF16BE \<equiv> 3"

text \<open>
  The bytes that \<^verbatim>\<open>sqlite3Atoi64\<close> looks at: in UTF-16 every second byte up to the first unit
  whose high byte is not zero, with the flag that there was one.
\<close>

function utf16_high :: "ztext \<Rightarrow> nat \<Rightarrow> nat \<Rightarrow> nat" where
  "utf16_high z len i = (if i < len \<and> ch z i = 0 then utf16_high z len (i + 2) else i)"
  by pat_completeness auto
termination by (relation "measure (\<lambda>(z, len, i). len - i)") auto

declare utf16_high.simps [simp del]

function every_second :: "ztext \<Rightarrow> nat \<Rightarrow> nat \<Rightarrow> ztext" where
  "every_second z i e = (if i < e then ch z i # every_second z (i + 2) e else [])"
  by pat_completeness auto
termination by (relation "measure (\<lambda>(z, i, e). e - i)") auto

declare every_second.simps [simp del]

definition atoi_input :: "ztext \<Rightarrow> nat \<Rightarrow> bool \<times> ztext" where
  "atoi_input z enc =
     (if enc = SQLITE_UTF8 then (False, z)
      else let len = length z - length z mod 2;
               i = utf16_high z len (3 - enc);
               zEnd = (if even i then i + 1 else i - 1)
           in (i < len, every_second z (enc mod 2) zEnd))"

definition decimal_u64 :: "ztext \<Rightarrow> u64" where
  "decimal_u64 ds = fold (\<lambda>c u. u * 10 + of_nat (c - 48)) ds 0"

definition is_digit :: "nat \<Rightarrow> bool" where
  "is_digit c \<longleftrightarrow> 48 \<le> c \<and> c \<le> 57"

definition sqlite3Atoi64 :: "ztext \<Rightarrow> nat \<Rightarrow> int \<times> int" where
  "sqlite3Atoi64 z enc =
     (case atoi_input z enc of (nonNum, s) \<Rightarrow>
        let s = dropWhile sqlite3Isspace s;
            neg = (s \<noteq> [] \<and> hd s = 45);
            s = (if s \<noteq> [] \<and> (hd s = 45 \<or> hd s = 43) then tl s else s);
            zNum = dropWhile (\<lambda>c. c = 48) s;
            digits = takeWhile is_digit zNum;
            rest = dropWhile is_digit zNum;
            i = length digits;
            u = decimal_u64 digits;
            num = (if u > of_int LARGEST_INT64 then (if neg then SMALLEST_INT64 else LARGEST_INT64)
                   else if neg then - uint u else uint u);
            rc = (if i = 0 \<and> s = zNum then -1
                  else if nonNum then 1
                  else if \<exists>c \<in> set rest. \<not> sqlite3Isspace c then 1 else 0)
        in if i < 19 then (num, rc)
           else let j = (if i > 19 then 1 else compare2pow63 digits) in
                if j < 0 then (num, rc)
                else (if neg then SMALLEST_INT64 else LARGEST_INT64,
                      if j > 0 then 2 else if neg then rc else 3))"

section \<open>Hexadecimal\<close>

definition sqlite3HexToInt :: "nat \<Rightarrow> nat" where
  "sqlite3HexToInt h = (h + 9 * (h div 64 mod 2)) mod 16"

text \<open>The loop of \<^verbatim>\<open>sqlite3HexToBlob\<close> over pairs of digits; \<^verbatim>\<open>n\<close> counts them and the closing quote.\<close>

fun hex_pairs :: "ztext \<Rightarrow> nat \<Rightarrow> nat list" where
  "hex_pairs z 0 = []"
| "hex_pairs z (Suc 0) = [(sqlite3HexToInt (ch z 0) * 16 mod 256) OR sqlite3HexToInt (ch z 1)]"
| "hex_pairs z (Suc (Suc n)) =
     ((sqlite3HexToInt (ch z 0) * 16 mod 256) OR sqlite3HexToInt (ch z 1)) # hex_pairs (drop 2 z) n"

definition sqlite3HexToBlob :: "ztext \<Rightarrow> nat \<Rightarrow> nat list" where
  "sqlite3HexToBlob z n = hex_pairs z (n - 1)"

definition hex_u64 :: "ztext \<Rightarrow> u64" where
  "hex_u64 ds = fold (\<lambda>c u. u * 16 + of_nat (sqlite3HexToInt c)) ds 0"

text \<open>The 64 bits are copied into a signed integer.\<close>

definition sqlite3DecOrHexToI64 :: "ztext \<Rightarrow> int \<times> int" where
  "sqlite3DecOrHexToI64 z =
     (if ch z 0 = 48 \<and> (ch z 1 = 120 \<or> ch z 1 = 88) then
        let s = dropWhile (\<lambda>c. c = 48) (drop 2 z);
            digits = takeWhile sqlite3Isxdigit s;
            rest = dropWhile sqlite3Isxdigit s
        in (sint (hex_u64 digits),
            if length digits > 16 then 2 else if rest \<noteq> [] then 1 else 0)
      else
        let n = length (takeWhile (\<lambda>c. c \<in> set (codes ''+- 0123456789'') \<or> c = 10 \<or> c = 9) z) mod 2 ^ 30;
            n = (if ch z n \<noteq> 0 then n + 1 else n)
        in sqlite3Atoi64 (take n z) SQLITE_UTF8)"

fun decimal_int :: "ztext \<Rightarrow> int \<Rightarrow> int" where
  "decimal_int [] v = v"
| "decimal_int (c # ds) v = decimal_int ds (v * 10 + (int c - 48))"

definition hex_u32 :: "ztext \<Rightarrow> u32" where
  "hex_u32 ds = fold (\<lambda>c u. u * 16 + of_nat (sqlite3HexToInt c)) ds 0"

definition getInt32_dec :: "bool \<Rightarrow> ztext \<Rightarrow> int option" where
  "getInt32_dec neg z =
     (if \<not> sqlite3Isdigit (ch z 0) then None
      else
        let s = dropWhile (\<lambda>c. c = 48) z;
            digits = take 11 (takeWhile is_digit s);
            v = decimal_int digits 0
        in if length digits > 10 then None
           else if v - (if neg then 1 else 0) > 2147483647 then None
           else Some (if neg then - v else v))"

definition sqlite3GetInt32 :: "ztext \<Rightarrow> int option" where
  "sqlite3GetInt32 zNum =
     (if ch zNum 0 = 45 then getInt32_dec True (tl zNum)
      else if ch zNum 0 = 43 then getInt32_dec False (tl zNum)
      else if ch zNum 0 = 48 \<and> (ch zNum 1 = 120 \<or> ch zNum 1 = 88) \<and> sqlite3Isxdigit (ch zNum 2) then
        let s = dropWhile (\<lambda>c. c = 48) (drop 2 zNum);
            digits = take 8 (takeWhile sqlite3Isxdigit s);
            u = hex_u32 digits
        in if \<not> bit u 31 \<and> \<not> sqlite3Isxdigit (ch s (length digits)) then Some (sint u) else None
      else getInt32_dec False zNum)"

definition sqlite3Atoi :: "ztext \<Rightarrow> int" where
  "sqlite3Atoi z = (case sqlite3GetInt32 z of Some x \<Rightarrow> x | None \<Rightarrow> 0)"

text \<open>\<^verbatim>\<open>sqlite3GetUInt32\<close>: the result and the value stored.\<close>

fun getUInt32_loop :: "ztext \<Rightarrow> nat \<Rightarrow> u64 \<Rightarrow> bool \<times> u32" where
  "getUInt32_loop [] i v = (if i = 0 then (False, 0) else (True, ucast v))"
| "getUInt32_loop (c # z) i v =
     (if sqlite3Isdigit c then
        let v = v * 10 + of_nat c - 48 in
        if v > 4294967296 then (False, 0) else getUInt32_loop z (Suc i) v
      else (False, 0))"

definition sqlite3GetUInt32 :: "ztext \<Rightarrow> bool \<times> u32" where
  "sqlite3GetUInt32 z = getUInt32_loop z 0 0"

definition hexdigits :: ztext where
  "hexdigits = codes ''0123456789ABCDEF''"

text \<open>The loop of \<^verbatim>\<open>hexFunc\<close> over the bytes of a blob.\<close>

fun hexFunc_loop :: "nat list \<Rightarrow> ztext" where
  "hexFunc_loop [] = []"
| "hexFunc_loop (c # pBlob) = hexdigits ! ((c div 16) mod 16) # hexdigits ! (c mod 16) # hexFunc_loop pBlob"

section \<open>The value of a digit string\<close>

definition dec :: "ztext \<Rightarrow> nat" where
  "dec ds = fold (\<lambda>c n. n * 10 + (c - 48)) ds 0"

definition digits_only :: "ztext \<Rightarrow> bool" where
  "digits_only ds \<longleftrightarrow> (\<forall>c \<in> set ds. is_digit c)"

lemma digits_only_simps [simp]:
  "digits_only []" "digits_only (c # ds) \<longleftrightarrow> is_digit c \<and> digits_only ds"
  "digits_only (xs @ ys) \<longleftrightarrow> digits_only xs \<and> digits_only ys"
  by (auto simp: digits_only_def)

lemma dec_fold: "fold (\<lambda>c n. n * 10 + (c - 48)) ds n = n * 10 ^ length ds + dec ds"
proof (induction ds arbitrary: n)
  case (Cons c ds)
  have "dec (c # ds) = (c - 48) * 10 ^ length ds + dec ds" using Cons [of "c - 48"] by (simp add: dec_def)
  with Cons [of "n * 10 + (c - 48)"] show ?case by (simp add: algebra_simps)
qed (simp add: dec_def)

lemma dec_Nil [simp]: "dec [] = 0"
  by (simp add: dec_def)

lemma dec_Cons [simp]: "dec (c # ds) = (c - 48) * 10 ^ length ds + dec ds"
  using dec_fold [of ds "c - 48"] by (simp add: dec_def)

lemma dec_append: "dec (xs @ ys) = dec xs * 10 ^ length ys + dec ys"
  by (induction xs) (simp_all add: algebra_simps power_add)

lemma dec_less: "digits_only ds \<Longrightarrow> dec ds < 10 ^ length ds"
proof (induction ds)
  case (Cons c ds)
  have a: "(c - 48) * 10 ^ length ds \<le> 9 * 10 ^ length ds" using Cons.prems by (intro mult_right_mono) (auto simp: is_digit_def)
  have b: "dec ds < 10 ^ length ds" using Cons by simp
  show ?case unfolding dec_Cons list.size(4) add_Suc_right add_0_right power_Suc using a b by linarith
qed simp

lemma dec_ge: "is_digit c \<Longrightarrow> c \<noteq> 48 \<Longrightarrow> 10 ^ length ds \<le> dec (c # ds)"
proof -
  assume "is_digit c" "c \<noteq> 48"
  then have "1 * 10 ^ length ds \<le> (c - 48) * 10 ^ length ds" by (intro mult_right_mono) (auto simp: is_digit_def)
  then show ?thesis unfolding dec_Cons by linarith
qed

lemma decimal_u64_dec: "decimal_u64 ds = of_nat (dec ds)"
proof -
  have "fold (\<lambda>c u. u * 10 + of_nat (c - 48)) ds (of_nat n :: u64) = of_nat (fold (\<lambda>c n. n * 10 + (c - 48)) ds n)" for n
  proof (induction ds arbitrary: n)
    case (Cons c ds)
    from Cons [of "n * 10 + (c - 48)"] show ?case by simp
  qed simp
  from this [of 0] show ?thesis by (simp add: decimal_u64_def dec_def)
qed

lemma dec_zeros: "dec (dropWhile (\<lambda>c. c = 48) ds) = dec ds"
  by (induction ds) auto

section \<open>Comparison with two to the 63\<close>

lemma pow63_loop_sign:
  assumes "length zs = length ps" and "digits_only zs" and "digits_only ps"
  shows "(pow63_loop zs ps = 0 \<longleftrightarrow> dec zs = dec ps) \<and> (pow63_loop zs ps < 0 \<longleftrightarrow> dec zs < dec ps)"
  using assms
proof (induction zs ps rule: pow63_loop.induct)
  case (1 z zs p ps)
  show ?case
  proof (cases "z = p")
    case True
    with 1 show ?thesis by simp
  next
    case False
    have b: "dec zs < 10 ^ length zs" "dec ps < 10 ^ length zs" using dec_less [of zs] dec_less [of ps] 1 by simp_all
    have lt: "x < y \<Longrightarrow> x * 10 ^ length zs + a < y * 10 ^ length zs + b" if "a < 10 ^ length zs" for x y a b :: nat
    proof -
      assume "x < y"
      then have "(x + 1) * 10 ^ length zs \<le> y * 10 ^ length zs" by (intro mult_right_mono) simp_all
      with that show ?thesis by simp
    qed
    have d: "48 \<le> z" "48 \<le> p" using 1 by (auto simp: is_digit_def)
    have len: "length ps = length zs" using 1 by simp
    show ?thesis
    proof (cases "z < p")
      case True
      then have "dec (z # zs) < dec (p # ps)" unfolding dec_Cons len using d by (intro lt [OF b(1)]) simp
      with True show ?thesis by (simp del: dec_Cons)
    next
      case False
      with \<open>z \<noteq> p\<close> have "dec (p # ps) < dec (z # zs)" unfolding dec_Cons len using d by (intro lt [OF b(2)]) simp
      with False \<open>z \<noteq> p\<close> show ?thesis by (simp del: dec_Cons)
    qed
  qed
qed auto

lemma compare2pow63_sign:
  assumes "length ds = 19" and "digits_only ds"
  shows "(compare2pow63 ds = 0 \<longleftrightarrow> dec ds = 2 ^ 63) \<and> (compare2pow63 ds < 0 \<longleftrightarrow> dec ds < 2 ^ 63)"
proof -
  define xs where "xs = take 18 ds"
  define d where "d = ds ! 18"
  have ds: "ds = xs @ [d]" using assms(1) take_Suc_conv_app_nth [of 18 ds] by (simp add: xs_def d_def)
  have p: "codes ''922337203685477580'' = [57, 50, 50, 51, 51, 55, 50, 48, 51, 54, 56, 53, 52, 55, 55, 53, 56, 48]"
    by (simp add: codes_def)
  have D: "dec (codes ''922337203685477580'') = 922337203685477580" by (simp add: p)
  have "length xs = length (codes ''922337203685477580'')" using assms(1) by (simp add: xs_def p)
  moreover have "digits_only (codes ''922337203685477580'')" by (simp add: p is_digit_def)
  ultimately have s: "(pow63_loop xs (codes ''922337203685477580'') = 0 \<longleftrightarrow> dec xs = 922337203685477580)"
    "(pow63_loop xs (codes ''922337203685477580'') < 0 \<longleftrightarrow> dec xs < 922337203685477580)"
    using pow63_loop_sign [of xs "codes ''922337203685477580''"] assms(2) D by (auto simp: ds)
  have app: "pow63_loop (xs @ ys) ps = pow63_loop xs ps" if "length xs = length ps" for xs ys ps
    using that by (induction xs ps rule: list_induct2) (cases ys; simp)+
  have l: "pow63_loop ds (codes ''922337203685477580'') = pow63_loop xs (codes ''922337203685477580'')"
    unfolding ds by (rule app) fact
  have d: "is_digit d" using assms(2) by (simp add: ds)
  have "ch ds 18 = d" using assms(1) by (simp add: ch_def d_def)
  with s l d show ?thesis by (auto simp: compare2pow63_def Let_def ds dec_append is_digit_def)
qed

section \<open>Reading back\<close>

lemma isdigit_char: "is_digit c \<Longrightarrow> \<not> sqlite3Isspace c \<and> c \<noteq> 45 \<and> c \<noteq> 43"
  by (auto simp: is_digit_def isspace_iff)

lemma dropWhile_stop: "ds \<noteq> [] \<Longrightarrow> \<not> P (hd ds) \<Longrightarrow> dropWhile P (ds @ r) = ds @ r"
  by (cases ds) auto

lemma dropWhile_prefix: "\<forall>c \<in> set ws. P c \<Longrightarrow> dropWhile P (ws @ r) = dropWhile P r"
  by (induction ws) auto

lemma zeros_split:
  assumes "digits_only ds" and "rest = [] \<or> \<not> is_digit (hd rest)"
  shows "dropWhile (\<lambda>c. c = 48) (ds @ rest) = dropWhile (\<lambda>c. c = 48) ds @ rest"
proof -
  have r: "dropWhile (\<lambda>c. c = 48) rest = rest" using assms(2) by (cases rest) (auto simp: is_digit_def)
  show ?thesis using assms(1) by (induction ds) (auto simp: r)
qed

lemma span_digits:
  assumes "digits_only ds" and "rest = [] \<or> \<not> is_digit (hd rest)"
  shows "takeWhile is_digit (ds @ rest) = ds" "dropWhile is_digit (ds @ rest) = rest"
proof -
  have "\<forall>c \<in> set ds. is_digit c" using assms(1) by (simp add: digits_only_def)
  then show "takeWhile is_digit (ds @ rest) = ds" "dropWhile is_digit (ds @ rest) = rest"
    using assms(2) by (cases rest; simp add: takeWhile_append2 dropWhile_append2)+
qed

definition clamp :: "bool \<Rightarrow> int" where
  "clamp neg = (if neg then SMALLEST_INT64 else LARGEST_INT64)"

text \<open>The outcome for digits without leading zeros.\<close>

lemma atoi_outcome:
  assumes ds: "digits_only ds" "ds = [] \<or> hd ds \<noteq> 48" and "rc = 0 \<or> rc = 1"
    and num: "num = (if decimal_u64 ds > of_int LARGEST_INT64 then clamp neg
       else if neg then - uint (decimal_u64 ds) else uint (decimal_u64 ds))"
  shows "(if length ds < 19 then (num, rc)
     else let j = (if length ds > 19 then 1 else compare2pow63 ds) in
       if j < 0 then (num, rc) else (clamp neg, if j > 0 then 2 else if neg then rc else 3)) =
    (let v = (if neg then - int (dec ds) else int (dec ds)) in
     if in_i64 v then (v, rc) else (clamp neg, if dec ds = 2 ^ 63 then 3 else 2))"
proof -
  have small: "num = (if neg then - int (dec ds) else int (dec ds))" if "dec ds < 2 ^ 63"
  proof -
    have u: "unat (decimal_u64 ds) = dec ds" using that by (simp add: decimal_u64_dec unat_of_nat)
    then have "\<not> decimal_u64 ds > of_int LARGEST_INT64" using that by (simp add: word_less_nat_alt LARGEST_INT64_def)
    moreover have "uint (decimal_u64 ds) = int (dec ds)" using u by (metis uint_nat)
    ultimately show ?thesis by (simp add: num)
  qed
  consider "length ds < 19" | "length ds = 19" | "19 < length ds" by linarith
  then show ?thesis
  proof cases
    case 1
    have "dec ds < 10 ^ length ds" by (rule dec_less [OF ds(1)])
    also have "\<dots> \<le> 10 ^ 18" using 1 by (intro power_increasing) simp_all
    finally have "dec ds < 2 ^ 63" by simp
    with small 1 show ?thesis by (simp add: Let_def in_i64_def c_const)
  next
    case 2
    note c = compare2pow63_sign [OF 2 ds(1)]
    show ?thesis
    proof (cases "dec ds < 2 ^ 63")
      case True
      with small c 2 show ?thesis by (simp add: Let_def in_i64_def c_const)
    next
      case False
      with c 2 show ?thesis by (auto simp: Let_def in_i64_def c_const clamp_def)
    qed
  next
    case 3
    then obtain d r where d: "ds = d # r" "19 \<le> length r" by (cases ds) auto
    have "10 ^ 19 \<le> (10 :: nat) ^ length r" using d by (intro power_increasing) simp_all
    also have "\<dots> \<le> dec ds" using dec_ge [of d r] ds by (simp add: d)
    finally have "2 ^ 63 < dec ds" by simp
    with 3 show ?thesis by (auto simp: Let_def in_i64_def c_const clamp_def)
  qed
qed

lemma atoi64_reads:
  assumes ws: "\<forall>c \<in> set ws. sqlite3Isspace c" and sg: "sg \<in> {[], [43], [45]}"
    and ds: "digits_only ds" "ds \<noteq> []" and rest: "rest = [] \<or> \<not> is_digit (hd rest)"
  shows "sqlite3Atoi64 (ws @ sg @ ds @ rest) SQLITE_UTF8 =
    (let neg = (sg = [45]); v = (if neg then - int (dec ds) else int (dec ds)) in
     if in_i64 v then (v, if \<exists>c \<in> set rest. \<not> sqlite3Isspace c then 1 else 0)
     else (clamp neg, if dec ds = 2 ^ 63 then 3 else 2))"
proof -
  define zs where "zs = dropWhile (\<lambda>c. c = 48) ds"
  let ?rc = "if \<exists>c \<in> set rest. \<not> sqlite3Isspace c then 1 else 0 :: int"
  have hd: "is_digit (hd ds)" using ds by (cases ds) auto
  have z: "digits_only zs" "zs = [] \<or> hd zs \<noteq> 48" "dec zs = dec ds"
    using ds(1) hd_dropWhile [of "\<lambda>c. c = 48" ds] dec_zeros [of ds]
    by (auto simp: zs_def digits_only_def dest: set_dropWhileD)
  have ne: "sg @ ds @ rest \<noteq> []" "\<not> sqlite3Isspace (hd (sg @ ds @ rest))"
    using sg ds(2) isdigit_char [OF hd] by (auto simp: isspace_iff)
  have s1: "dropWhile sqlite3Isspace (ws @ sg @ ds @ rest) = sg @ ds @ rest"
    using dropWhile_prefix [OF ws, of "sg @ ds @ rest"] dropWhile_stop [where P = sqlite3Isspace, OF ne, of "[]"] by simp
  have s2: "(if sg @ ds @ rest \<noteq> [] \<and> (hd (sg @ ds @ rest) = 45 \<or> hd (sg @ ds @ rest) = 43)
      then tl (sg @ ds @ rest) else sg @ ds @ rest) = ds @ rest"
    and n: "(sg @ ds @ rest \<noteq> [] \<and> hd (sg @ ds @ rest) = 45) = (sg = [45])"
    using sg ds(2) isdigit_char [OF hd] by auto
  have s3: "dropWhile (\<lambda>c. c = 48) (ds @ rest) = zs @ rest" unfolding zs_def by (rule zeros_split [OF ds(1) rest])
  note sp = span_digits [OF z(1) rest]
  have i0: "(length zs = 0 \<and> ds @ rest = zs @ rest) = False" using ds(2) by simp
  have inp: "atoi_input z SQLITE_UTF8 = (False, z)" for z by (simp add: atoi_input_def)
  have rc: "?rc = 0 \<or> ?rc = 1" by simp
  show ?thesis
    unfolding sqlite3Atoi64_def inp Let_def prod.case s1 s2 s3 n sp i0 if_False refl
    clamp_def
    by (rule atoi_outcome [OF z(1,2) rc refl, unfolded Let_def clamp_def z(3)])
qed

section \<open>Printing\<close>

lemma nth_pairs:
  assumes "k < n"
  shows "concat (map (\<lambda>k. [f k, g k]) [0..<n]) ! (k * 2) = f k \<and> concat (map (\<lambda>k. [f k, g k]) [0..<n]) ! (k * 2 + 1) = g k"
  using assms
proof (induction n)
  case (Suc n)
  have "length (concat (map (\<lambda>k. [f k, g k]) [0..<n])) = n * 2" by (induction n) simp_all
  with Suc show ?case by (cases "k = n") (simp_all add: nth_append)
qed simp

lemma DigitPairs_nth:
  "k < 100 \<Longrightarrow> sqlite3DigitPairs ! (k * 2) = 48 + k div 10 \<and> sqlite3DigitPairs ! (k * 2 + 1) = 48 + k mod 10"
  using nth_pairs [of k 100 "\<lambda>k. 48 + k div 10" "\<lambda>k. 48 + k mod 10"] by (simp only: sqlite3DigitPairs_def)

lemma text_loop_dec:
  "\<exists>ds. text_loop x a = ds @ a \<and> digits_only ds \<and> dec ds = unat x \<and> (ds \<noteq> [] \<longrightarrow> x \<noteq> 0) \<and> (x \<noteq> 0 \<longrightarrow> ds \<noteq> [])"
proof (induction x a rule: text_loop.induct)
  case (1 x a)
  show ?case
  proof (cases "x \<ge> 10")
    case True
    define k where "k = unat (x mod 100)"
    have k: "k < 100" "k = unat x mod 100" by (simp_all add: k_def unat_mod)
    let ?p = "[48 + k div 10, 48 + k mod 10]"
    have k10: "k div 10 < 10" using k(1) by simp
    obtain ds where ds: "text_loop (x div 100) (?p @ a) = ds @ ?p @ a" "digits_only ds" "dec ds = unat (x div 100)"
      using "1.IH" [OF True refl] DigitPairs_nth [OF k(1)] by (auto simp: k_def [symmetric])
    have l: "text_loop x a = text_loop (x div 100) (?p @ a)"
      using True DigitPairs_nth [OF k(1)] by (subst text_loop.simps) (simp add: Let_def k_def [symmetric])
    have "dec (ds @ ?p) = unat x div 100 * 100 + k" using ds(3) k10 by (simp add: dec_append unat_div)
    then have "dec (ds @ ?p) = unat x" by (simp add: k(2))
    moreover have "digits_only (ds @ ?p)" using ds(2) k10 by (auto simp: is_digit_def)
    moreover have "x \<noteq> 0" using True by auto
    ultimately show ?thesis using l ds(1) by (intro exI [of _ "ds @ ?p"]) simp
  next
    case False
    then have "unat x < 10" by (simp add: word_le_nat_alt not_le)
    moreover from this have "unat (x + 48) = unat x + 48" by (simp add: unat_word_ariths)
    ultimately show ?thesis using False
      by (subst text_loop.simps) (auto simp: is_digit_def unat_eq_zero intro!: exI [of _ "if x = 0 then [] else [unat x + 48]"])
  qed
qed

lemma Int64ToText_form:
  assumes "in_i64 v"
  obtains ds where "sqlite3Int64ToText v = (if v < 0 then [45] else []) @ ds" "digits_only ds" "ds \<noteq> []" "int (dec ds) = \<bar>v\<bar>"
proof (cases "v = 0")
  case True
  then show thesis by (intro that [of "[48]"]) (simp_all add: sqlite3Int64ToText_def is_digit_def)
next
  case False
  define x :: u64 where "x = (if v = SMALLEST_INT64 then push_bit 63 1 else of_int \<bar>v\<bar>)"
  have x: "int (unat x) = \<bar>v\<bar>"
  proof (cases "v = SMALLEST_INT64")
    case True
    then show ?thesis by (simp add: x_def SMALLEST_INT64_def push_bit_eq_mult)
  next
    case F: False
    then have "0 \<le> \<bar>v\<bar>" "\<bar>v\<bar> < 2 ^ 64" using assms by (auto simp: in_i64_def c_const)
    then have "uint (word_of_int \<bar>v\<bar> :: u64) = \<bar>v\<bar>" by (simp add: uint_word_of_int_eq take_bit_int_eq_self)
    with F show ?thesis by (simp add: x_def)
  qed
  then have "x \<noteq> 0" using False by auto
  with text_loop_dec [of x "[]"] obtain ds where ds: "text_loop x [] = ds" "digits_only ds" "dec ds = unat x" "ds \<noteq> []" by auto
  have "sqlite3Int64ToText v = (if v < 0 then [45] else []) @ ds"
    using False ds(1) by (auto simp: sqlite3Int64ToText_def x_def SMALLEST_INT64_def)
  moreover have "int (dec ds) = \<bar>v\<bar>" unfolding ds(3) by (rule x)
  ultimately show thesis using ds(2,4) by (intro that)
qed

section \<open>The 32-bit reader\<close>

lemma decimal_int_dec: "digits_only ds \<Longrightarrow> decimal_int ds v = v * 10 ^ length ds + int (dec ds)"
proof (induction ds arbitrary: v)
  case (Cons c ds)
  then have "48 \<le> c" by (simp add: is_digit_def)
  then have "int (dec (c # ds)) = (int c - 48) * 10 ^ length ds + int (dec ds)" by (simp add: of_nat_diff)
  with Cons show ?case by (simp add: algebra_simps del: dec_Cons)
qed simp

lemma getInt32_dec_reads:
  assumes ds: "digits_only ds" "ds \<noteq> []" and rest: "rest = [] \<or> \<not> is_digit (hd rest)"
  shows "getInt32_dec neg (ds @ rest) =
    (let v = (if neg then - int (dec ds) else int (dec ds)) in if in_i32 v then Some v else None)"
proof -
  define zs where "zs = dropWhile (\<lambda>c. c = 48) ds"
  have z: "digits_only zs" "zs = [] \<or> hd zs \<noteq> 48" "dec zs = dec ds"
    using ds(1) hd_dropWhile [of "\<lambda>c. c = 48" ds] dec_zeros [of ds]
    by (auto simp: zs_def digits_only_def dest: set_dropWhileD)
  have "is_digit (ch (ds @ rest) 0)" using ds by (cases ds) (auto simp: ch_def)
  then have d: "sqlite3Isdigit (ch (ds @ rest) 0)" by (auto simp: is_digit_def isdigit_iff)
  have s: "dropWhile (\<lambda>c. c = 48) (ds @ rest) = zs @ rest" unfolding zs_def by (rule zeros_split [OF ds(1) rest])
  show ?thesis
  proof (cases "length zs \<le> 10")
    case True
    then have "decimal_int (take 11 zs) 0 = int (dec ds)" using decimal_int_dec [OF z(1), of 0] z(3) by simp
    with True d show ?thesis
      by (simp add: getInt32_dec_def s span_digits [OF z(1) rest] Let_def in_i32_def del: not_less)
  next
    case False
    then obtain c r where zs: "zs = c # r" "10 \<le> length r" by (cases zs) auto
    have "10 ^ 10 \<le> (10 :: nat) ^ length r" using zs by (intro power_increasing) simp_all
    also have "\<dots> \<le> dec zs" using dec_ge [of c r] z by (simp add: zs)
    finally have "10 ^ 10 \<le> dec ds" by (simp add: z(3))
    with False d show ?thesis by (simp add: getInt32_dec_def s span_digits [OF z(1) rest] Let_def in_i32_def)
  qed
qed

text \<open>A decimal numeral, which must not look like the start of a hexadecimal one.\<close>

definition not_hex :: "ztext \<Rightarrow> bool" where
  "not_hex z \<longleftrightarrow> \<not> (ch z 0 = 48 \<and> (ch z 1 = 120 \<or> ch z 1 = 88) \<and> sqlite3Isxdigit (ch z 2))"

lemma getInt32_reads:
  assumes "sg \<in> {[], [43], [45]}" and ds: "digits_only ds" "ds \<noteq> []" and rest: "rest = [] \<or> \<not> is_digit (hd rest)"
    and "not_hex (sg @ ds @ rest)"
  shows "sqlite3GetInt32 (sg @ ds @ rest) =
    (let v = (if sg = [45] then - int (dec ds) else int (dec ds)) in if in_i32 v then Some v else None)"
proof -
  have "ch (ds @ rest) 0 = hd ds" "is_digit (hd ds)" using ds by (cases ds; simp add: ch_def)+
  then have c: "ch (ds @ rest) 0 \<noteq> 45" "ch (ds @ rest) 0 \<noteq> 43" by (auto simp: is_digit_def)
  consider "sg = []" | "sg = [43]" | "sg = [45]" using assms(1) by auto
  then show ?thesis
  proof cases
    case 1
    with assms(5) c getInt32_dec_reads [OF ds rest, of False] show ?thesis
      unfolding sqlite3GetInt32_def not_hex_def by auto
  qed (use getInt32_dec_reads [OF ds rest] in \<open>simp_all add: sqlite3GetInt32_def ch_def\<close>)
qed

section \<open>Hexadecimal blobs\<close>

lemma HexToInt_hexdigits: "n < 16 \<Longrightarrow> sqlite3HexToInt (hexdigits ! n) = n"
proof -
  have "list_all (\<lambda>(n, c). sqlite3HexToInt c = n) (indexed 0 hexdigits)"
    by (simp add: hexdigits_def codes_def sqlite3HexToInt_def)
  then show "n < 16 \<Longrightarrow> sqlite3HexToInt (hexdigits ! n) = n"
    using table_all [of "\<lambda>n c. sqlite3HexToInt c = n" hexdigits n] by (simp add: hexdigits_def codes_def)
qed

lemma nibbles: "n < 16 \<Longrightarrow> m < 16 \<Longrightarrow> n * 16 mod 256 OR m = n * 16 + (m :: nat)"
proof -
  assume nm: "n < 16" "m < 16"
  have "push_bit 4 n OR take_bit 4 m = push_bit 4 n + take_bit 4 m"
    by (rule disjunctive_add_eq_or [symmetric]) (simp add: bit_eq_iff bit_simps)
  moreover have "take_bit 4 m = m" using nm by (simp add: take_bit_nat_eq_self)
  ultimately show ?thesis using nm by (simp add: push_bit_eq_mult)
qed

lemma hex_roundtrip:
  "\<forall>c \<in> set bs. c < 256 \<Longrightarrow> hex_pairs (hexFunc_loop bs @ r) (2 * length bs) = bs"
proof (induction bs)
  case (Cons c bs)
  have h: "sqlite3HexToInt (hexdigits ! ((c div 16) mod 16)) = c div 16 mod 16" "sqlite3HexToInt (hexdigits ! (c mod 16)) = c mod 16"
    by (simp_all add: HexToInt_hexdigits)
  have "c div 16 mod 16 * 16 mod 256 OR c mod 16 = c div 16 mod 16 * 16 + c mod 16" by (rule nibbles) simp_all
  also have "\<dots> = c"
  proof -
    have "c div 16 < 16" using Cons.prems by (simp add: less_mult_imp_div_less)
    then show ?thesis by simp
  qed
  finally show ?case using Cons h by (simp add: ch_def)
qed simp

section \<open>Properties\<close>

text \<open>C28: sqlite3Atoi64 is exact. For optional space, an optional sign, digits and anything that does
  not begin with a digit, the value stored is the mathematical one whenever it fits in 64 bits, with
  result 0, or 1 if something other than space follows; otherwise the nearest bound is stored and the
  result is 2, or 3 for the one positive value 9223372036854775808.\<close>

theorem atoi64_exact:
  assumes "\<forall>c \<in> set ws. sqlite3Isspace c" and "sg \<in> {[], [43], [45]}"
    and "digits_only ds" and "ds \<noteq> []" and "rest = [] \<or> \<not> is_digit (hd rest)"
  shows "sqlite3Atoi64 (ws @ sg @ ds @ rest) SQLITE_UTF8 =
    (let v = (if sg = [45] then - int (dec ds) else int (dec ds)) in
     if in_i64 v then (v, if \<exists>c \<in> set rest. \<not> sqlite3Isspace c then 1 else 0)
     else (clamp (sg = [45]), if dec ds = 2 ^ 63 then 3 else 2))"
  using atoi64_reads [OF assms] by (simp only: Let_def)

theorem atoi64_exact_witness:
  "sqlite3Atoi64 (codes '' -9223372036854775808'') SQLITE_UTF8 = (- 9223372036854775808, 0) \<and>
   sqlite3Atoi64 (codes ''9223372036854775808'') SQLITE_UTF8 = (9223372036854775807, 3)"
proof -
  have c: "codes '' -9223372036854775808'' = [32] @ [45] @ codes ''9223372036854775808'' @ []"
    "codes ''9223372036854775808'' = [] @ [] @ codes ''9223372036854775808'' @ []" by (simp_all add: codes_def)
  have d: "digits_only (codes ''9223372036854775808'')" "codes ''9223372036854775808'' \<noteq> []"
    "dec (codes ''9223372036854775808'') = 2 ^ 63" by (simp_all add: codes_def is_digit_def)
  have "sqlite3Isspace 32" by (simp add: isspace_iff)
  with atoi64_exact [of "[32]" "[45]" _ "[]", OF _ _ d(1,2)] atoi64_exact [of "[]" "[]" _ "[]", OF _ _ d(1,2)] show ?thesis
    unfolding c(1) by (simp add: d(3) in_i64_def c_const clamp_def)
qed

text \<open>C29: Printing a 64-bit integer and reading it back is the identity, for every value including
  the smallest one.\<close>

theorem int64_text_roundtrip:
  assumes "in_i64 v"
  shows "sqlite3Atoi64 (sqlite3Int64ToText v) SQLITE_UTF8 = (v, 0)"
proof -
  obtain ds where ds: "sqlite3Int64ToText v = (if v < 0 then [45] else []) @ ds" "digits_only ds" "ds \<noteq> []" "int (dec ds) = \<bar>v\<bar>"
    by (rule Int64ToText_form [OF assms])
  have "(if (if v < 0 then [45] else []) = [45 :: nat] then - int (dec ds) else int (dec ds)) = v" using ds(4) by simp
  with atoi64_reads [of "[]" "if v < 0 then [45] else []" ds "[]"] ds assms show ?thesis by (simp add: Let_def)
qed

theorem int64_text_roundtrip_witness:
  "sqlite3Atoi64 (sqlite3Int64ToText (- 9223372036854775808)) SQLITE_UTF8 = (- 9223372036854775808, 0)"
  by (rule int64_text_roundtrip) (simp add: in_i64_def c_const)

text \<open>sqlite3GetUInt32 accepts 4294967296, which does not fit in 32 bits, and stores 0 for it;
  the next value is rejected.\<close>

theorem getUInt32_off_by_one:
  "sqlite3GetUInt32 (codes ''4294967296'') = (True, 0) \<and> sqlite3GetUInt32 (codes ''4294967297'') = (False, 0)"
  by (simp add: sqlite3GetUInt32_def codes_def isdigit_iff Let_def)

text \<open>On decimal text sqlite3GetInt32 returns the value exactly when it fits in 32 bits, and where
  it returns a value, sqlite3Atoi64 reads the same one.\<close>

theorem getInt32_exact:
  assumes "sg \<in> {[], [43], [45]}" and "digits_only ds" "ds \<noteq> []" and "rest = [] \<or> \<not> is_digit (hd rest)"
    and "not_hex (sg @ ds @ rest)"
  shows "sqlite3GetInt32 (sg @ ds @ rest) =
      (let v = (if sg = [45] then - int (dec ds) else int (dec ds)) in if in_i32 v then Some v else None) \<and>
    (\<forall>v. sqlite3GetInt32 (sg @ ds @ rest) = Some v \<longrightarrow> fst (sqlite3Atoi64 (sg @ ds @ rest) SQLITE_UTF8) = v)"
  using getInt32_reads [OF assms] atoi64_reads [of "[]" sg ds rest] assms(1-4)
  by (auto simp: Let_def in_i32_def in_i64_def c_const)

theorem getInt32_exact_witness:
  "sqlite3GetInt32 (codes ''-2147483648'') = Some (- 2147483648) \<and> sqlite3GetInt32 (codes ''2147483648'') = None"
proof -
  let ?d = "codes ''2147483648''"
  have d: "digits_only ?d" "?d \<noteq> []" "dec ?d = 2147483648" by (simp_all add: codes_def is_digit_def)
  have c: "codes ''-2147483648'' = [45] @ ?d @ []" by (simp add: codes_def)
  have "not_hex ([45] @ ?d @ [])" "not_hex ([] @ ?d @ [])" by (simp_all add: not_hex_def ch_def codes_def)
  with getInt32_exact [of "[45]" ?d "[]"] getInt32_exact [of "[]" ?d "[]"] d show ?thesis
    unfolding c by (simp add: in_i32_def Let_def)
qed

text \<open>A blob rendered by hex() and read as a blob literal is the same blob.\<close>

theorem hex_blob_roundtrip:
  assumes "\<forall>c \<in> set bs. c < 256"
  shows "sqlite3HexToBlob (hexFunc_loop bs @ [39]) (2 * length bs + 1) = bs"
  using hex_roundtrip [OF assms] by (simp add: sqlite3HexToBlob_def)

theorem hex_blob_roundtrip_witness:
  "sqlite3HexToBlob (hexFunc_loop [0, 171, 255] @ [39]) 7 = [0, 171, 255]"
  using hex_blob_roundtrip [of "[0, 171, 255]"] by simp

end
