(* ===== verification/Hash_Table.thy ===== *)
theory Hash_Table
  imports Ctype
begin

text \<open>
  The hash tables of \<^verbatim>\<open>hash.c\<close>, which hold the schema. Elements live in a heap and are linked
  into one doubly linked list; a bucket is a run of that list, given by its first element and its
  length. Data pointers are numbers with 0 for NULL. Memory is an argument: the address of a new
  element, and how many buckets an allocation of some size really gets.
\<close>

section \<open>Tables\<close>

record helem =
  hnext :: "nat option"
  hprev :: "nat option"
  hdata :: nat
  hkey :: ztext
  hhash :: u32

record hash =
  htsize :: nat
  hcount :: nat
  hfirst :: "nat option"
  ht :: "(nat \<times> nat option) list option"
  heap :: "nat \<Rightarrow> helem option"

record memory =
  new_elem :: "nat option"
  new_ht :: "nat \<Rightarrow> nat option"

definition sqlite3HashInit :: hash where
  "sqlite3HashInit = \<lparr>htsize = 0, hcount = 0, hfirst = None, ht = None, heap = (\<lambda>_. None)\<rparr>"

text \<open>\<^verbatim>\<open>sqlite3HashClear\<close> frees every element of the list.\<close>

fun clear_loop :: "(nat \<Rightarrow> helem option) \<Rightarrow> nat option \<Rightarrow> nat \<Rightarrow> nat \<Rightarrow> helem option" where
  "clear_loop s None n = s"
| "clear_loop s (Some a) 0 = s"
| "clear_loop s (Some a) (Suc n) =
     (case s a of None \<Rightarrow> s | Some e \<Rightarrow> clear_loop (s(a := None)) (hnext e) n)"

definition sqlite3HashClear :: "hash \<Rightarrow> hash" where
  "sqlite3HashClear pH =
     pH\<lparr>hfirst := None, ht := None, htsize := 0, heap := clear_loop (heap pH) (hfirst pH) (hcount pH), hcount := 0\<rparr>"

definition strHash :: "ztext \<Rightarrow> u32" where
  "strHash z = fold (\<lambda>c h. (h + of_nat (0xdf AND c)) * 0x9e3779b1) z 0"

definition set_next :: "nat \<Rightarrow> nat option \<Rightarrow> (nat \<Rightarrow> helem option) \<Rightarrow> nat \<Rightarrow> helem option" where
  "set_next a v s = (case s a of None \<Rightarrow> s | Some e \<Rightarrow> s(a \<mapsto> e\<lparr>hnext := v\<rparr>))"

definition set_prev :: "nat \<Rightarrow> nat option \<Rightarrow> (nat \<Rightarrow> helem option) \<Rightarrow> nat \<Rightarrow> helem option" where
  "set_prev a v s = (case s a of None \<Rightarrow> s | Some e \<Rightarrow> s(a \<mapsto> e\<lparr>hprev := v\<rparr>))"

text \<open>Linking element \<open>a\<close> before \<open>pHead\<close>, or at the front of the list.\<close>

definition link_before :: "(nat \<Rightarrow> helem option) \<Rightarrow> nat option \<Rightarrow> nat \<Rightarrow> nat \<Rightarrow> (nat \<Rightarrow> helem option) \<times> nat option" where
  "link_before s first pHead a =
     (case s pHead of
        None \<Rightarrow> (s, first)
      | Some eh \<Rightarrow>
         let s = set_prev a (hprev eh) (set_next a (Some pHead) s);
             s' = (case hprev eh of Some p \<Rightarrow> set_next p (Some a) s | None \<Rightarrow> s);
             first = (if hprev eh = None then Some a else first)
         in (set_prev pHead (Some a) s', first))"

definition link_front :: "(nat \<Rightarrow> helem option) \<Rightarrow> nat option \<Rightarrow> nat \<Rightarrow> (nat \<Rightarrow> helem option) \<times> nat option" where
  "link_front s first a =
     (let s = set_next a first s;
          s = (case first of Some f \<Rightarrow> set_prev f (Some a) s | None \<Rightarrow> s)
      in (set_prev a None s, Some a))"

definition insertElement :: "hash \<Rightarrow> nat option \<Rightarrow> nat \<Rightarrow> hash" where
  "insertElement pH pEntry a =
     (case (ht pH, pEntry) of
        (Some t, Some b) \<Rightarrow>
          let pHead = (if fst (t ! b) \<noteq> 0 then snd (t ! b) else None);
              (s, f) = (case pHead of Some h \<Rightarrow> link_before (heap pH) (hfirst pH) h a
                                    | None \<Rightarrow> link_front (heap pH) (hfirst pH) a)
          in pH\<lparr>ht := Some (t[b := (fst (t ! b) + 1, Some a)]), heap := s, hfirst := f\<rparr>
      | _ \<Rightarrow> (case link_front (heap pH) (hfirst pH) a of (s, f) \<Rightarrow> pH\<lparr>heap := s, hfirst := f\<rparr>))"

fun rehash_loop :: "hash \<Rightarrow> nat option \<Rightarrow> nat \<Rightarrow> hash" where
  "rehash_loop pH None n = pH"
| "rehash_loop pH (Some a) 0 = pH"
| "rehash_loop pH (Some a) (Suc n) =
     (case heap pH a of
        None \<Rightarrow> pH
      | Some e \<Rightarrow> rehash_loop (insertElement pH (Some (unat (hhash e) mod htsize pH)) a) (hnext e) n)"

text \<open>The allocation is limited to \<^verbatim>\<open>SQLITE_MALLOC_SOFT_LIMIT\<close> bytes, 128 buckets of eight bytes.\<close>

definition rehash :: "memory \<Rightarrow> hash \<Rightarrow> nat \<Rightarrow> hash" where
  "rehash mem pH new_size =
     (let new_size = (if new_size * 8 > 1024 then 128 else new_size) in
      if new_size = htsize pH then pH
      else case new_ht mem new_size of
        None \<Rightarrow> pH
      | Some n \<Rightarrow>
         rehash_loop (pH\<lparr>ht := Some (replicate n (0, None)), htsize := n, hfirst := None\<rparr>) (hfirst pH) (hcount pH))"

fun find_loop :: "(nat \<Rightarrow> helem option) \<Rightarrow> u32 \<Rightarrow> ztext \<Rightarrow> nat option \<Rightarrow> nat \<Rightarrow> nat option" where
  "find_loop s h pKey elem 0 = None"
| "find_loop s h pKey None (Suc count) = None"
| "find_loop s h pKey (Some a) (Suc count) =
     (case s a of
        None \<Rightarrow> None
      | Some e \<Rightarrow> if h = hhash e \<and> sqlite3StrICmp (hkey e) pKey = 0 then Some a
                  else find_loop s h pKey (hnext e) count)"

definition findElementWithHash :: "hash \<Rightarrow> ztext \<Rightarrow> nat option \<times> u32" where
  "findElementWithHash pH pKey =
     (let h = strHash pKey in
      (case ht pH of
         Some t \<Rightarrow> let entry = t ! (unat h mod htsize pH) in find_loop (heap pH) h pKey (snd entry) (fst entry)
       | None \<Rightarrow> find_loop (heap pH) h pKey (hfirst pH) (hcount pH),
       h))"

definition unlink :: "(nat \<Rightarrow> helem option) \<Rightarrow> nat option \<Rightarrow> helem \<Rightarrow> (nat \<Rightarrow> helem option) \<times> nat option" where
  "unlink s first e =
     (let s' = (case hprev e of Some p \<Rightarrow> set_next p (hnext e) s | None \<Rightarrow> s);
          first = (if hprev e = None then hnext e else first)
      in (case hnext e of Some n \<Rightarrow> set_prev n (hprev e) s' | None \<Rightarrow> s', first))"

definition removeElement :: "hash \<Rightarrow> nat \<Rightarrow> hash" where
  "removeElement pH a =
     (case heap pH a of
        None \<Rightarrow> pH
      | Some e \<Rightarrow>
         (case unlink (heap pH) (hfirst pH) e of (s, f) \<Rightarrow>
            let t' = (case ht pH of
                        None \<Rightarrow> None
                      | Some t \<Rightarrow>
                         let b = unat (hhash e) mod htsize pH;
                             chain = (if snd (t ! b) = Some a then hnext e else snd (t ! b))
                         in Some (t[b := (fst (t ! b) - 1, chain)]));
                pH = pH\<lparr>hfirst := f, ht := t', heap := s(a := None), hcount := hcount pH - 1\<rparr>
            in if hcount pH = 0 then sqlite3HashClear pH else pH))"

definition elem_data :: "hash \<Rightarrow> nat option \<Rightarrow> nat" where
  "elem_data pH a = (case a of None \<Rightarrow> 0 | Some a \<Rightarrow> (case heap pH a of None \<Rightarrow> 0 | Some e \<Rightarrow> hdata e))"

definition sqlite3HashFind :: "hash \<Rightarrow> ztext \<Rightarrow> nat" where
  "sqlite3HashFind pH pKey = elem_data pH (fst (findElementWithHash pH pKey))"

text \<open>The part of \<^verbatim>\<open>sqlite3HashInsert\<close> after the allocation of the new element.\<close>

definition insert_new :: "memory \<Rightarrow> hash \<Rightarrow> ztext \<Rightarrow> u32 \<Rightarrow> nat \<Rightarrow> nat \<Rightarrow> hash" where
  "insert_new mem pH pKey h data a =
     (let pH = pH\<lparr>heap := (heap pH)(a \<mapsto> \<lparr>hnext = None, hprev = None, hdata = data, hkey = pKey, hhash = h\<rparr>),
                 hcount := hcount pH + 1\<rparr>;
          pH = (if hcount pH \<ge> 5 \<and> hcount pH > 2 * htsize pH then rehash mem pH (hcount pH * 3) else pH)
      in insertElement pH (if ht pH = None then None else Some (unat h mod htsize pH)) a)"

definition sqlite3HashInsert :: "memory \<Rightarrow> hash \<Rightarrow> ztext \<Rightarrow> nat \<Rightarrow> hash \<times> nat" where
  "sqlite3HashInsert mem pH pKey data =
     (case findElementWithHash pH pKey of (elem, h) \<Rightarrow>
        if elem_data pH elem \<noteq> 0 then
          let a = the elem; e = the (heap pH a) in
          (if data = 0 then removeElement pH a
           else pH\<lparr>heap := (heap pH)(a \<mapsto> e\<lparr>hdata := data, hkey := pKey\<rparr>)\<rparr>, hdata e)
        else if data = 0 then (pH, 0)
        else case new_elem mem of
          None \<Rightarrow> (pH, data)
        | Some a \<Rightarrow> (insert_new mem pH pKey h data a, 0))"

section \<open>Linked lists\<close>

definition hd_or :: "nat list \<Rightarrow> nat option \<Rightarrow> nat option" where
  "hd_or xs n = (case xs of [] \<Rightarrow> n | x # _ \<Rightarrow> Some x)"

definition last_or :: "nat list \<Rightarrow> nat option \<Rightarrow> nat option" where
  "last_or xs p = (if xs = [] then p else Some (last xs))"

lemma hd_or_simps [simp]: "hd_or [] n = n" "hd_or (x # xs) n = Some x" "hd_or (xs @ ys) n = hd_or xs (hd_or ys n)"
  by (auto simp: hd_or_def split: list.split)

lemma last_or_simps [simp]: "last_or [] p = p" "last_or (x # xs) p = last_or xs (Some x)" "last_or (xs @ ys) p = last_or ys (last_or xs p)"
  by (auto simp: last_or_def)

fun seg :: "(nat \<Rightarrow> helem option) \<Rightarrow> nat option \<Rightarrow> nat list \<Rightarrow> nat option \<Rightarrow> bool" where
  "seg s p [] n = True"
| "seg s p (a # as) n = ((\<exists>e. s a = Some e \<and> hprev e = p \<and> hnext e = hd_or as n) \<and> seg s (Some a) as n)"

fun next_ok :: "(nat \<Rightarrow> helem option) \<Rightarrow> nat list \<Rightarrow> bool" where
  "next_ok s [] = True"
| "next_ok s (a # as) = ((\<exists>e. s a = Some e \<and> hnext e = hd_or as None) \<and> next_ok s as)"

lemma seg_append [simp]: "seg s p (as @ bs) n \<longleftrightarrow> seg s p as (hd_or bs n) \<and> seg s (last_or as p) bs n"
  by (induction as arbitrary: p) auto

lemma seg_cong: "(\<And>a. a \<in> set xs \<Longrightarrow> s a = t a) \<Longrightarrow> seg s p xs n = seg t p xs n"
  by (induction xs arbitrary: p) auto

lemma next_ok_cong: "(\<And>a. a \<in> set xs \<Longrightarrow> s a = t a) \<Longrightarrow> next_ok s xs = next_ok t xs"
  by (induction xs) auto

lemma seg_next_ok: "seg s p xs None \<Longrightarrow> next_ok s xs"
  by (induction xs arbitrary: p) auto

lemma next_ok_append: "next_ok s (as @ bs) \<Longrightarrow> next_ok s bs"
  by (induction as) auto

definition linked :: "(nat \<Rightarrow> helem option) \<Rightarrow> nat option \<Rightarrow> nat list \<Rightarrow> bool" where
  "linked s f xs \<longleftrightarrow> distinct xs \<and> seg s None xs None \<and> f = hd_or xs None"

definition content :: "(nat \<Rightarrow> helem option) \<Rightarrow> nat \<Rightarrow> (nat \<times> ztext \<times> u32) option" where
  "content s a = map_option (\<lambda>e. (hdata e, hkey e, hhash e)) (s a)"

lemma content_set [simp]: "content (set_next a v s) = content s" "content (set_prev a v s) = content s"
  by (auto simp: content_def set_next_def set_prev_def fun_eq_iff split: option.split)

lemma set_frame [simp]: "x \<noteq> a \<Longrightarrow> set_next a v s x = s x" "x \<noteq> a \<Longrightarrow> set_prev a v s x = s x"
  by (auto simp: set_next_def set_prev_def split: option.split)

lemma set_frame_ends [simp]:
  "xs \<noteq> [] \<Longrightarrow> x \<notin> set xs \<Longrightarrow> set_next (last xs) v s x = s x" "xs \<noteq> [] \<Longrightarrow> x \<notin> set xs \<Longrightarrow> set_prev (hd xs) v s x = s x"
  using last_in_set [of xs] hd_in_set [of xs] by (metis set_frame(1), metis set_frame(2))

lemma set_same [simp]:
  "s a = Some e \<Longrightarrow> set_next a v s a = Some (e\<lparr>hnext := v\<rparr>)" "s a = Some e \<Longrightarrow> set_prev a v s a = Some (e\<lparr>hprev := v\<rparr>)"
  by (simp_all add: set_next_def set_prev_def)

lemma neq_of_notin: "a \<notin> set xs \<Longrightarrow> x \<in> set xs \<Longrightarrow> x \<noteq> a"
  by blast

lemma seg_frame [simp]:
  "a \<notin> set xs \<Longrightarrow> seg (set_next a v s) p xs n = seg s p xs n"
  "a \<notin> set xs \<Longrightarrow> seg (set_prev a v s) p xs n = seg s p xs n"
  "a \<notin> set xs \<Longrightarrow> seg (s(a := u)) p xs n = seg s p xs n"
  by (rule seg_cong, simp add: neq_of_notin)+

lemma next_ok_frame: "a \<notin> set xs \<Longrightarrow> next_ok (s(a := u)) xs = next_ok s xs"
  by (rule next_ok_cong) (simp add: neq_of_notin)

text \<open>Changing what follows or precedes a segment.\<close>

lemma seg_set_next:
  assumes "seg s p as m" and "as \<noteq> []" and "distinct as"
  shows "seg (set_next (last as) n s) p as n"
proof -
  obtain bs l where as: "as = bs @ [l]" using assms(2) by (cases as rule: rev_cases) auto
  then show ?thesis using assms by auto
qed

lemma seg_set_prev:
  assumes "seg s p (h # bs) n" and "h \<notin> set bs"
  shows "seg (set_prev h q s) q (h # bs) n"
  using assms by auto

text \<open>Insertion before an element, at the front, and removal.\<close>

lemma link_before_ok:
  assumes "linked s f (as @ h # bs)" and "a \<notin> set (as @ h # bs)" and "s a = Some e"
    and "link_before s f h a = (s', f')"
  shows "linked s' f' (as @ a # h # bs)" and "content s' = content s" and "x \<notin> set (as @ a # h # bs) \<Longrightarrow> s' x = s x"
proof -
  have d: "distinct (as @ h # bs)" and sg: "seg s None as (Some h)" "seg s (last_or as None) (h # bs) None"
    and f: "f = hd_or (as @ h # bs) None" using assms(1) by (auto simp: linked_def)
  then obtain eh where eh: "s h = Some eh" "hprev eh = last_or as None" by auto
  define s1 where "s1 = set_prev a (last_or as None) (set_next a (Some h) s)"
  define s2 where "s2 = (if as = [] then s1 else set_next (last as) (Some a) s1)"
  have s': "s' = set_prev h (Some a) s2" "f' = (if as = [] then Some a else f)"
    using assms(4) eh by (auto simp: link_before_def Let_def s1_def s2_def last_or_def split: if_splits)
  have a1: "s1 a = Some (e\<lparr>hnext := Some h, hprev := last_or as None\<rparr>)" using assms(3) by (simp add: s1_def)
  have a2: "s' a = s1 a" using assms(2) by (auto simp: s' s2_def)
  have seg1: "seg s1 None as (Some h)" "seg s1 (last_or as None) (h # bs) None" using sg assms(2) unfolding s1_def by (auto simp del: seg.simps)
  have seg2: "seg s2 None as (Some a)" "seg s2 (last_or as None) (h # bs) None"
  proof -
    show "seg s2 None as (Some a)" using seg_set_next [OF seg1(1)] d by (auto simp: s2_def)
    have "last as \<notin> set (h # bs)" if "as \<noteq> []"
      using d last_in_set [OF that] by (metis disjoint_iff distinct_append)
    then show "seg s2 (last_or as None) (h # bs) None" using seg1(2) by (auto simp: s2_def simp del: seg.simps)
  qed
  have "seg s' None as (Some a)" using seg2(1) d by (simp add: s')
  moreover have "seg s' (Some a) (h # bs) None" unfolding s' by (rule seg_set_prev [OF seg2(2)]) (use d in auto)
  ultimately show "linked s' f' (as @ a # h # bs)"
    using d assms(2) f a1 a2 by (cases as) (auto simp: linked_def s'(2))
  show "content s' = content s" by (simp add: s' s2_def s1_def)
  show "x \<notin> set (as @ a # h # bs) \<Longrightarrow> s' x = s x" by (cases "as = []") (auto simp: s' s2_def s1_def)
qed

lemma link_front_ok:
  assumes "linked s f xs" and "a \<notin> set xs" and "s a = Some e" and "link_front s f a = (s', f')"
  shows "linked s' f' (a # xs)" and "content s' = content s" and "x \<notin> set (a # xs) \<Longrightarrow> s' x = s x"
proof -
  have d: "distinct xs" "seg s None xs None" "f = hd_or xs None" using assms(1) by (auto simp: linked_def)
  have l: "(case f of Some x \<Rightarrow> set_prev x (Some a) t | None \<Rightarrow> t) = (if xs = [] then t else set_prev (hd xs) (Some a) t)" for t
    using d(3) by (cases xs) auto
  have s': "s' = set_prev a None (if xs = [] then set_next a f s else set_prev (hd xs) (Some a) (set_next a f s))" "f' = Some a"
    using assms(4) by (auto simp: link_front_def Let_def l)
  show "linked s' f' (a # xs)" using d assms(2,3) by (cases xs) (auto simp: linked_def s')
  show "content s' = content s" "x \<notin> set (a # xs) \<Longrightarrow> s' x = s x" by (cases xs; auto simp: s')+
qed

lemma unlink_ok:
  assumes "linked s f (as @ a # bs)" and "s a = Some e" and "unlink s f e = (s', f')"
  shows "linked s' f' (as @ bs)" and "content s' = content s" and "s' a = s a"
    and "x \<notin> set (as @ bs) \<Longrightarrow> s' x = s x" and "hnext e = hd_or bs None"
proof -
  have d: "distinct (as @ a # bs)" "seg s None as (Some a)" "seg s (Some a) bs None" "f = hd_or (as @ a # bs) None"
    and e: "hprev e = last_or as None" "hnext e = hd_or bs None" using assms(1,2) by (auto simp: linked_def)
  define s1 where "s1 = (if as = [] then s else set_next (last as) (hd_or bs None) s)"
  have s': "s' = (if bs = [] then s1 else set_prev (hd bs) (last_or as None) s1)" "f' = (if as = [] then hd_or bs None else f)"
    using assms(3) e by (auto simp: unlink_def Let_def s1_def last_or_def hd_or_def split: list.splits if_splits)
  have s1: "seg s1 None as (hd_or bs None)" using seg_set_next [OF d(2)] d(1) by (auto simp: s1_def)
  have la: "last as \<notin> set bs" if "as \<noteq> []"
    using d(1) last_in_set [OF that] by (metis disjoint_iff distinct_append list.set_intros(2))
  then have s2: "seg s1 (Some a) bs None" using d(3) by (auto simp: s1_def)
  have "seg s' None as (hd_or bs None)" using s1 d(1) by (cases bs) (auto simp: s')
  moreover have "seg s' (last_or as None) bs None" using s2 d(1) by (cases bs) (auto simp: s')
  ultimately show "linked s' f' (as @ bs)" using d by (cases as) (auto simp: linked_def s'(2))
  show "content s' = content s" by (simp add: s' s1_def)
  show "s' a = s a"
  proof -
    have "a \<noteq> last as" if "as \<noteq> []" using d(1) last_in_set [OF that] by auto
    moreover have "a \<noteq> hd bs" if "bs \<noteq> []" using d(1) that by (cases bs) auto
    ultimately show ?thesis by (auto simp: s' s1_def)
  qed
  show "x \<notin> set (as @ bs) \<Longrightarrow> s' x = s x" by (auto simp: s' s1_def)
  show "hnext e = hd_or bs None" by (rule e)
qed

section \<open>Buckets\<close>

definition bucket :: "(nat \<Rightarrow> nat) \<Rightarrow> nat \<Rightarrow> nat \<Rightarrow> nat list \<Rightarrow> nat \<times> nat option \<Rightarrow> bool" where
  "bucket hs n b xs en \<longleftrightarrow> (\<exists>as bs cs. xs = as @ bs @ cs \<and> (\<forall>a \<in> set bs. hs a mod n = b) \<and>
     (\<forall>a \<in> set as \<union> set cs. hs a mod n \<noteq> b) \<and> fst en = length bs \<and> (bs \<noteq> [] \<longrightarrow> snd en = Some (hd bs)))"

definition tab_ok :: "(nat \<Rightarrow> nat) \<Rightarrow> nat \<Rightarrow> (nat \<times> nat option) list \<Rightarrow> nat list \<Rightarrow> bool" where
  "tab_ok hs n t xs \<longleftrightarrow> length t = n \<and> 0 < n \<and> (\<forall>b < n. bucket hs n b xs (t ! b))"

lemma bucketI:
  "xs = as @ bs @ cs \<Longrightarrow> \<forall>a \<in> set bs. hs a mod n = b \<Longrightarrow> \<forall>a \<in> set as \<union> set cs. hs a mod n \<noteq> b \<Longrightarrow>
   fst en = length bs \<Longrightarrow> (bs \<noteq> [] \<Longrightarrow> snd en = Some (hd bs)) \<Longrightarrow> bucket hs n b xs en"
  unfolding bucket_def by blast

lemma bucket_cong:
  assumes "\<And>a. a \<in> set xs \<Longrightarrow> hs a = hs' a"
  shows "bucket hs n b xs en = bucket hs' n b xs en"
proof -
  have "bucket g' n b xs en" if gg: "\<And>a. a \<in> set xs \<Longrightarrow> g a = g' a" and "bucket g n b xs en" for g g' :: "nat \<Rightarrow> nat"
    using that(2) unfolding bucket_def using gg by (metis (no_types, lifting) UnCI Un_iff set_append)
  then show ?thesis using assms by (metis (no_types, lifting))
qed

lemma tab_ok_cong: "(\<And>a. a \<in> set xs \<Longrightarrow> hs a = hs' a) \<Longrightarrow> tab_ok hs n t xs = tab_ok hs' n t xs"
  using bucket_cong [of xs hs hs'] by (auto simp: tab_ok_def)

text \<open>Two disjoint non-empty runs of a list lie one after the other.\<close>

lemma runs_apart:
  assumes "as @ bs @ cs = as1 @ bs1 @ cs1" and "bs \<noteq> []" "bs1 \<noteq> []" and "set bs \<inter> set bs1 = {}"
  shows "(\<exists>v. as = as1 @ bs1 @ v) \<or> (\<exists>v. cs = v @ bs1 @ cs1 \<and> as1 = as @ bs @ v)"
proof -
  consider us where "as = as1 @ us" "us @ bs @ cs = bs1 @ cs1" | us where "as1 = as @ us" "bs @ cs = us @ bs1 @ cs1"
    using append_eq_append_conv2 [THEN iffD1, OF assms(1)] by metis
  then show ?thesis
  proof cases
    case (1 us)
    consider vs where "us = bs1 @ vs" | vs where "bs1 = us @ vs" "bs @ cs = vs @ cs1"
      using append_eq_append_conv2 [THEN iffD1, OF 1(2)] by metis
    then show ?thesis
    proof cases
      case (2 vs)
      have "vs = []"
      proof (rule ccontr)
        assume "vs \<noteq> []"
        then have "hd bs = hd vs" using 2(2) assms(2) by (metis hd_append2)
        then show False using 2(1) assms(2,4) \<open>vs \<noteq> []\<close> hd_in_set [of bs] hd_in_set [of vs] by auto
      qed
      with 1 2 show ?thesis by auto
    qed (use 1 in auto)
  next
    case (2 us)
    consider vs where "bs = us @ vs" "vs @ cs = bs1 @ cs1" | vs where "us = bs @ vs" "cs = vs @ bs1 @ cs1"
      using append_eq_append_conv2 [THEN iffD1, OF 2(2)] by metis
    then show ?thesis
    proof cases
      case (1 vs)
      have "vs = []"
      proof (rule ccontr)
        assume "vs \<noteq> []"
        then have "hd vs = hd bs1" using 1(2) assms(3) by (metis hd_append2)
        then show False using 1(1) assms(3,4) \<open>vs \<noteq> []\<close> hd_in_set [of bs1] hd_in_set [of vs] by auto
      qed
      with 1 2 show ?thesis by auto
    qed (use 2 in auto)
  qed
qed

text \<open>Inserting before the run of a bucket, or in front of everything.\<close>

lemma bucket_insert_other:
  assumes o: "bucket hs n b' (as @ bs @ cs) en" and "b' \<noteq> b" and "\<forall>a \<in> set bs. hs a mod n = b" and "hs a mod n = b"
    and "bs \<noteq> [] \<or> as = []"
  shows "bucket hs n b' (as @ a # bs @ cs) en"
proof -
  obtain as1 bs1 cs1 where e: "as @ bs @ cs = as1 @ bs1 @ cs1" "\<forall>a \<in> set bs1. hs a mod n = b'"
    "\<forall>a \<in> set as1 \<union> set cs1. hs a mod n \<noteq> b'" "fst en = length bs1" "bs1 \<noteq> [] \<longrightarrow> snd en = Some (hd bs1)"
    using o by (auto simp: bucket_def)
  have st: "set as \<union> set bs \<union> set cs = set as1 \<union> set bs1 \<union> set cs1" using arg_cong [OF e(1), of set] by auto
  show ?thesis
  proof (cases "bs1 = []")
    case True
    show ?thesis by (rule bucketI [of _ "as @ a # bs @ cs" "[]" "[]"]) (use True e st assms in auto)
  next
    case ne: False
    show ?thesis
    proof (cases "bs = []")
      case True
      show ?thesis by (rule bucketI [of _ "a # as1" bs1 cs1]) (use True e assms in auto)
    next
      case False
      have "set bs \<inter> set bs1 = {}" using e(2) assms(2,3) by auto
      from runs_apart [OF e(1) False ne this] show ?thesis
      proof (elim disjE exE conjE)
        fix v assume v: "as = as1 @ bs1 @ v"
        then have "v @ bs @ cs = cs1" using e(1) by simp
        then have "set v \<subseteq> set cs1" "set bs \<subseteq> set cs1" "set cs \<subseteq> set cs1" by auto
        then show ?thesis by (intro bucketI [of _ as1 bs1 "v @ a # bs @ cs"]) (use e assms v in auto)
      next
        fix v assume "cs = v @ bs1 @ cs1" "as1 = as @ bs @ v"
        then show ?thesis by (intro bucketI [of _ "as @ a # bs @ v" bs1 cs1]) (use e assms in auto)
      qed
    qed
  qed
qed

lemma bucket_remove:
  assumes "bucket hs n b xs en" and "hs a mod n \<noteq> b"
  shows "bucket hs n b (remove1 a xs) en"
proof -
  obtain as bs cs where e: "xs = as @ bs @ cs" "\<forall>a \<in> set bs. hs a mod n = b"
    "\<forall>a \<in> set as \<union> set cs. hs a mod n \<noteq> b" "fst en = length bs" "bs \<noteq> [] \<longrightarrow> snd en = Some (hd bs)"
    using assms(1) by (auto simp: bucket_def)
  have "a \<notin> set bs" using assms(2) e(2) by auto
  then have "remove1 a xs = (if a \<in> set as then remove1 a as else as) @ bs @ (if a \<in> set as then cs else remove1 a cs)"
    by (auto simp: e(1) remove1_append)
  then show ?thesis by (rule bucketI) (use e set_remove1_subset [of a as] set_remove1_subset [of a cs] in auto)
qed

section \<open>Insertion and rehashing\<close>

definition hs_of :: "(nat \<Rightarrow> helem option) \<Rightarrow> nat \<Rightarrow> nat" where
  "hs_of s a = (case content s a of None \<Rightarrow> 0 | Some (d, k, h) \<Rightarrow> unat h)"

lemma hs_of_Some: "s a = Some e \<Longrightarrow> hs_of s a = unat (hhash e)"
  by (simp add: hs_of_def content_def)

lemma hs_of_content: "content s = content s' \<Longrightarrow> hs_of s = hs_of s'"
  by (rule ext) (simp add: hs_of_def)

definition table_ok :: "hash \<Rightarrow> nat list \<Rightarrow> bool" where
  "table_ok H xs \<longleftrightarrow> linked (heap H) (hfirst H) xs \<and>
     (case ht H of None \<Rightarrow> htsize H = 0 | Some t \<Rightarrow> tab_ok (hs_of (heap H)) (htsize H) t xs)"

text \<open>What an operation may do to the links: rearrange the list, keep all contents, touch nothing else.\<close>

definition relinked :: "hash \<Rightarrow> hash \<Rightarrow> nat list \<Rightarrow> bool" where
  "relinked H H' ys \<longleftrightarrow> content (heap H') = content (heap H) \<and> (\<forall>x. x \<notin> set ys \<longrightarrow> heap H' x = heap H x) \<and>
     hcount H' = hcount H"

lemma tab_insert:
  assumes t: "tab_ok hs n t xs" and "a \<notin> set xs" and b: "b = hs a mod n"
  shows "if fst (t ! b) = 0 then tab_ok hs n (t[b := (fst (t ! b) + 1, Some a)]) (a # xs)
    else \<exists>as h bs. xs = as @ h # bs \<and> snd (t ! b) = Some h \<and>
      tab_ok hs n (t[b := (fst (t ! b) + 1, Some a)]) (as @ a # h # bs)"
proof -
  have n: "length t = n" "0 < n" "\<And>b. b < n \<Longrightarrow> bucket hs n b xs (t ! b)" using t by (auto simp: tab_ok_def)
  have bn: "b < n" using n(2) b by simp
  obtain as bs cs where e: "xs = as @ bs @ cs" "\<forall>a \<in> set bs. hs a mod n = b"
    "\<forall>a \<in> set as \<union> set cs. hs a mod n \<noteq> b" "fst (t ! b) = length bs" "bs \<noteq> [] \<longrightarrow> snd (t ! b) = Some (hd bs)"
    using n(3) [OF bn] by (auto simp: bucket_def)
  have other: "bucket hs n b' ys (t[b := z] ! b')" if "b' < n" "b' \<noteq> b" "bucket hs n b' ys (t ! b')" for b' ys z
    using that n(1) by simp
  show ?thesis
  proof (cases "bs = []")
    case True
    have "bucket hs n b' ([] @ a # [] @ xs) (t ! b')" if "b' < n" "b' \<noteq> b" for b'
      by (rule bucket_insert_other [OF _ that(2)]) (simp_all add: n(3) [OF that(1)] b [symmetric])
    then have "bucket hs n b' (a # xs) (t ! b')" if "b' < n" "b' \<noteq> b" for b' using that by simp
    moreover have "bucket hs n b (a # xs) (fst (t ! b) + 1, Some a)"
      by (rule bucketI [of _ "[]" "[a]" xs]) (use True e b in auto)
    ultimately have "tab_ok hs n (t[b := (fst (t ! b) + 1, Some a)]) (a # xs)"
      using n(1,2) bn by (auto simp: tab_ok_def nth_list_update)
    then show ?thesis using True e(4) by simp
  next
    case False
    then obtain h bs' where bs: "bs = h # bs'" by (cases bs) auto
    have "bucket hs n b' (as @ a # bs @ cs) (t ! b')" if "b' < n" "b' \<noteq> b" for b'
      by (rule bucket_insert_other [OF _ that(2) e(2)]) (simp_all add: n(3) [OF that(1)] b [symmetric] e(1) [symmetric] False)
    moreover have "bucket hs n b (as @ a # bs @ cs) (fst (t ! b) + 1, Some a)"
      by (rule bucketI [of _ as "a # bs" cs]) (use e b in auto)
    ultimately have "tab_ok hs n (t[b := (fst (t ! b) + 1, Some a)]) (as @ a # h # bs' @ cs)"
      using n(1,2) bn by (auto simp: tab_ok_def nth_list_update bs)
    moreover have "xs = as @ h # bs' @ cs" "snd (t ! b) = Some h" "fst (t ! b) \<noteq> 0" using e(1,4,5) bs by simp_all
    ultimately show ?thesis by auto
  qed
qed

lemma insertElement_ok:
  assumes ok: "table_ok H xs" and a: "a \<notin> set xs" "heap H a = Some e"
    and pe: "pe = (if ht H = None then None else Some (unat (hhash e) mod htsize H))"
  shows "\<exists>ys. table_ok (insertElement H pe a) ys \<and> set ys = insert a (set xs) \<and> length ys = Suc (length xs) \<and>
    relinked H (insertElement H pe a) ys \<and> htsize (insertElement H pe a) = htsize H \<and> (ht (insertElement H pe a) = None \<longleftrightarrow> ht H = None)"
proof -
  have l: "linked (heap H) (hfirst H) xs" using ok by (simp add: table_ok_def)
  obtain s f where fr: "link_front (heap H) (hfirst H) a = (s, f)" by (metis surj_pair)
  note front = link_front_ok [OF l a fr]
  show ?thesis
  proof (cases "ht H")
    case None
    then have "insertElement H pe a = H\<lparr>heap := s, hfirst := f\<rparr>" by (simp add: insertElement_def fr)
    then show ?thesis using front None ok by (intro exI [of _ "a # xs"]) (auto simp: table_ok_def relinked_def)
  next
    case (Some t)
    define b where "b = hs_of (heap H) a mod htsize H"
    have pe': "pe = Some b" using pe Some a(2) by (simp add: b_def hs_of_Some)
    have t: "tab_ok (hs_of (heap H)) (htsize H) t xs" using ok Some by (simp add: table_ok_def)
    note ins = tab_insert [OF t a(1) b_def]
    show ?thesis
    proof (cases "fst (t ! b) = 0")
      case True
      then have "insertElement H pe a = H\<lparr>ht := Some (t[b := (fst (t ! b) + 1, Some a)]), heap := s, hfirst := f\<rparr>"
        by (simp add: insertElement_def Some pe' fr)
      then show ?thesis using front True ins hs_of_content [OF front(2)] Some
        by (intro exI [of _ "a # xs"]) (auto simp: table_ok_def relinked_def)
    next
      case False
      then obtain as h bs where x: "xs = as @ h # bs" "snd (t ! b) = Some h"
        "tab_ok (hs_of (heap H)) (htsize H) (t[b := (fst (t ! b) + 1, Some a)]) (as @ a # h # bs)" using ins by auto
      obtain s f where lb: "link_before (heap H) (hfirst H) h a = (s, f)" by (metis surj_pair)
      note before = link_before_ok [OF l [unfolded x(1)] a(1) [unfolded x(1)] a(2) lb]
      have "insertElement H pe a = H\<lparr>ht := Some (t[b := (fst (t ! b) + 1, Some a)]), heap := s, hfirst := f\<rparr>"
        using False by (simp add: insertElement_def Some pe' x(2) lb)
      then show ?thesis using before x hs_of_content [OF before(2)] Some
        by (intro exI [of _ "as @ a # h # bs"]) (auto simp: table_ok_def relinked_def)
    qed
  qed
qed

lemma rehash_loop_ok:
  assumes "table_ok H ys" and "ht H \<noteq> None" and "next_ok (heap H) zs" and "distinct zs" and "set ys \<inter> set zs = {}" and "length zs \<le> n"
  shows "\<exists>ys'. table_ok (rehash_loop H (hd_or zs None) n) ys' \<and> set ys' = set ys \<union> set zs \<and> length ys' = length ys + length zs \<and>
    relinked H (rehash_loop H (hd_or zs None) n) ys' \<and> htsize (rehash_loop H (hd_or zs None) n) = htsize H \<and>
    ht (rehash_loop H (hd_or zs None) n) \<noteq> None"
  using assms
proof (induction zs arbitrary: H ys n)
  case Nil
  then show ?case by (intro exI [of _ ys]) (simp add: relinked_def)
next
  case (Cons a zs)
  obtain m where n: "n = Suc m" "length zs \<le> m" using Cons.prems(6) by (cases n) auto
  obtain e where e: "heap H a = Some e" "hnext e = hd_or zs None" "next_ok (heap H) zs" using Cons.prems(3) by auto
  define G where "G = insertElement H (Some (unat (hhash e) mod htsize H)) a"
  have a: "a \<notin> set ys" using Cons.prems(5) by auto
  obtain us where us: "table_ok G us" "set us = insert a (set ys)" "length us = Suc (length ys)" "relinked H G us"
    "htsize G = htsize H" "ht G \<noteq> None"
    using insertElement_ok [OF Cons.prems(1) a e(1) refl] Cons.prems(2) unfolding G_def by auto
  have "heap G x = heap H x" if "x \<in> set zs" for x
    using that us(2,4) Cons.prems(4,5) by (auto simp: relinked_def)
  then have "next_ok (heap G) zs" using e(3) next_ok_cong [of zs "heap G" "heap H"] by blast
  moreover have "set us \<inter> set zs = {}" using us(2) Cons.prems(4,5) by auto
  ultimately obtain ws where ws: "table_ok (rehash_loop G (hd_or zs None) m) ws" "set ws = set us \<union> set zs"
    "length ws = length us + length zs" "relinked G (rehash_loop G (hd_or zs None) m) ws"
    "htsize (rehash_loop G (hd_or zs None) m) = htsize G" "ht (rehash_loop G (hd_or zs None) m) \<noteq> None"
    using Cons.IH [OF us(1,6), of m] Cons.prems(4) n(2) by auto
  have r: "rehash_loop H (hd_or (a # zs) None) n = rehash_loop G (hd_or zs None) m" by (simp add: n(1) e G_def)
  have "relinked H (rehash_loop G (hd_or zs None) m) ws" using ws(2,4) us(2,4) by (auto simp: relinked_def)
  then show ?case unfolding r using ws us by (intro exI [of _ ws]) auto
qed

lemma rehash_ok:
  assumes ok: "table_ok H xs" and "length xs \<le> hcount H" and alloc: "\<And>k m. new_ht mem k = Some m \<Longrightarrow> 0 < k \<Longrightarrow> 0 < m" and "0 < sz"
  shows "\<exists>ys. table_ok (rehash mem H sz) ys \<and> set ys = set xs \<and> length ys = length xs \<and> relinked H (rehash mem H sz) ys"
proof -
  define k where "k = (if sz * 8 > 1024 then 128 else sz)"
  have same: "\<exists>ys. table_ok H ys \<and> set ys = set xs \<and> length ys = length xs \<and> relinked H H ys"
    using ok by (intro exI [of _ xs]) (simp add: relinked_def)
  show ?thesis
  proof (cases "k = htsize H \<or> new_ht mem k = None")
    case True
    then have "rehash mem H sz = H" by (auto simp: rehash_def k_def Let_def)
    with same show ?thesis by simp
  next
    case False
    then obtain n where n: "new_ht mem k = Some n" "k \<noteq> htsize H" by auto
    then have "0 < n" using alloc assms(4) by (auto simp: k_def split: if_splits)
    define G where "G = H\<lparr>ht := Some (replicate n (0, None)), htsize := n, hfirst := None\<rparr>"
    have l: "linked (heap H) (hfirst H) xs" using ok by (simp add: table_ok_def)
    have "table_ok G []" using \<open>0 < n\<close> by (auto simp: table_ok_def G_def linked_def tab_ok_def bucket_def)
    moreover have "next_ok (heap G) xs" "distinct xs" "hfirst H = hd_or xs None"
      using l seg_next_ok by (auto simp: linked_def G_def)
    moreover have "rehash mem H sz = rehash_loop G (hfirst H) (hcount H)"
      unfolding rehash_def k_def [symmetric] Let_def G_def using n by simp
    ultimately show ?thesis using rehash_loop_ok [of G "[]" xs "hcount H"] assms(2) by (auto simp: G_def relinked_def)
  qed
qed

section \<open>Keys\<close>

lemma and_0xdf_lower: "c < 256 \<Longrightarrow> 0xdf AND UpperToLower c = 0xdf AND c"
proof -
  have "list_all (\<lambda>(c, m). 0xdf AND m = 0xdf AND c) (indexed 0 sqlite3UpperToLower)"
    by (simp add: sqlite3UpperToLower_def del: One_nat_def)
  then show "c < 256 \<Longrightarrow> 0xdf AND UpperToLower c = 0xdf AND c"
    using lower_all [of "\<lambda>c m. 0xdf AND m = 0xdf AND c" c] by (simp add: UpperToLower_def)
qed

lemma strHash_lower: "cstring a \<Longrightarrow> cstring b \<Longrightarrow> lower a = lower b \<Longrightarrow> strHash a = strHash b"
proof -
  have "fold (\<lambda>c h. (h + of_nat (0xdf AND c)) * 0x9e3779b1) z g = fold (\<lambda>c h. (h + of_nat (0xdf AND c)) * 0x9e3779b1) (lower z) g"
    if "cstring z" for z and g :: u32
    using that by (induction z arbitrary: g) (simp_all add: and_0xdf_lower)
  then show "cstring a \<Longrightarrow> cstring b \<Longrightarrow> lower a = lower b \<Longrightarrow> strHash a = strHash b" by (simp add: strHash_def)
qed

type_synonym contents = "nat \<Rightarrow> (nat \<times> ztext \<times> u32) option"

definition elems_ok :: "contents \<Rightarrow> bool" where
  "elems_ok c \<longleftrightarrow> (\<forall>a d k h. c a = Some (d, k, h) \<longrightarrow> h = strHash k \<and> d \<noteq> 0 \<and> cstring k) \<and>
     (\<forall>a d k h b d' k' h'. c a = Some (d, k, h) \<longrightarrow> c b = Some (d', k', h') \<longrightarrow> lower k = lower k' \<longrightarrow> a = b)"

definition holds :: "contents \<Rightarrow> ztext \<Rightarrow> nat \<Rightarrow> bool" where
  "holds c key d \<longleftrightarrow> (\<exists>a k h. c a = Some (d, k, h) \<and> lower k = key)"

text \<open>The table as a function from lower-case keys to data, 0 where there is none.\<close>

definition dict :: "hash \<Rightarrow> ztext \<Rightarrow> nat" where
  "dict H key = (if \<exists>d. holds (content (heap H)) key d then THE d. holds (content (heap H)) key d else 0)"

definition hash_ok :: "hash \<Rightarrow> bool" where
  "hash_ok H \<longleftrightarrow> (\<exists>xs. table_ok H xs \<and> hcount H = length xs \<and> dom (heap H) = set xs) \<and> elems_ok (content (heap H))"

lemma elems_okD:
  assumes "elems_ok c" and "c a = Some (d, k, h)"
  shows "h = strHash k" "d \<noteq> 0" "cstring k"
  using assms unfolding elems_ok_def by blast+

lemma holds_unique: "elems_ok c \<Longrightarrow> holds c key d \<Longrightarrow> holds c key d' \<Longrightarrow> d = d'"
proof -
  assume ok: "elems_ok c" and "holds c key d" "holds c key d'"
  then obtain a k h b k' h' where e: "c a = Some (d, k, h)" "lower k = key" "c b = Some (d', k', h')" "lower k' = key"
    by (auto simp: holds_def)
  then have "a = b" using ok unfolding elems_ok_def by metis
  with e show ?thesis by simp
qed

lemma dict_eq:
  assumes "elems_ok (content (heap H))"
  shows "holds (content (heap H)) key d \<Longrightarrow> dict H key = d" "\<nexists>d. holds (content (heap H)) key d \<Longrightarrow> dict H key = 0"
  using holds_unique [OF assms] by (auto simp: dict_def intro: the_equality)

lemma content_Some: "content s a = Some (d, k, h) \<longleftrightarrow> (\<exists>e. s a = Some e \<and> d = hdata e \<and> k = hkey e \<and> h = hhash e)"
  by (auto simp: content_def)

section \<open>Lookup\<close>

definition matches :: "(nat \<Rightarrow> helem option) \<Rightarrow> u32 \<Rightarrow> ztext \<Rightarrow> nat \<Rightarrow> bool" where
  "matches s h key a \<longleftrightarrow> (\<exists>e. s a = Some e \<and> h = hhash e \<and> sqlite3StrICmp (hkey e) key = 0)"

lemma find_loop_find: "next_ok s (bs @ cs) \<Longrightarrow> find_loop s h key (hd_or (bs @ cs) None) (length bs) = find (matches s h key) bs"
  by (induction bs) (auto simp: matches_def)

lemma next_ok_suffix: "linked s f (as @ bs) \<Longrightarrow> next_ok s bs"
  unfolding linked_def using seg_next_ok next_ok_append by blast

lemma findElement_ok:
  assumes ok: "hash_ok H" and key: "cstring key"
  shows "snd (findElementWithHash H key) = strHash key"
    and "case fst (findElementWithHash H key) of
      Some a \<Rightarrow> \<exists>e. heap H a = Some e \<and> lower (hkey e) = lower key
    | None \<Rightarrow> \<forall>a e. heap H a = Some e \<longrightarrow> lower (hkey e) \<noteq> lower key"
proof -
  obtain xs where xs: "table_ok H xs" "hcount H = length xs" "dom (heap H) = set xs" and el: "elems_ok (content (heap H))"
    using ok by (auto simp: hash_ok_def)
  have l: "linked (heap H) (hfirst H) xs" using xs(1) by (simp add: table_ok_def)
  define h where "h = strHash key"
  have elem: "hhash e = strHash (hkey e)" "cstring (hkey e)" if "heap H a = Some e" for a e
    using elems_okD [OF el, of a] that by (auto simp: content_Some)
  have match: "matches (heap H) h key a \<longleftrightarrow> (\<exists>e. heap H a = Some e \<and> lower (hkey e) = lower key)" for a
    using elem [of a] StrICmp_eq_0 [OF _ key] strHash_lower [OF _ key] by (auto simp: matches_def h_def)
  obtain bs where bs: "fst (findElementWithHash H key) = find (matches (heap H) h key) bs"
    "\<And>a. a \<in> set xs \<Longrightarrow> matches (heap H) h key a \<Longrightarrow> a \<in> set bs"
  proof (cases "ht H")
    case None
    then have "fst (findElementWithHash H key) = find_loop (heap H) h key (hfirst H) (hcount H)"
      by (simp add: findElementWithHash_def Let_def h_def)
    also have "\<dots> = find (matches (heap H) h key) xs"
      using find_loop_find [of "heap H" xs "[]" h key] next_ok_suffix [of _ _ "[]" xs] l xs(2) by (simp add: linked_def)
    finally show thesis using that by blast
  next
    case (Some t)
    define b where "b = unat h mod htsize H"
    have t: "0 < htsize H" "\<And>b. b < htsize H \<Longrightarrow> bucket (hs_of (heap H)) (htsize H) b xs (t ! b)"
      using xs(1) Some by (auto simp: table_ok_def tab_ok_def)
    then have "b < htsize H" by (simp add: b_def)
    from t(2) [OF this] obtain as ds cs where e: "xs = as @ ds @ cs" "\<forall>a \<in> set as \<union> set cs. hs_of (heap H) a mod htsize H \<noteq> b"
      "fst (t ! b) = length ds" "ds \<noteq> [] \<longrightarrow> snd (t ! b) = Some (hd ds)" by (auto simp: bucket_def)
    have "fst (findElementWithHash H key) = find_loop (heap H) h key (snd (t ! b)) (length ds)"
      by (simp add: findElementWithHash_def Let_def h_def b_def Some e(3) flip: e(3))
    also have "\<dots> = find (matches (heap H) h key) ds"
    proof (cases ds)
      case (Cons x ds')
      have "next_ok (heap H) (ds @ cs)" using next_ok_suffix [of "heap H" "hfirst H" as "ds @ cs"] l e(1) by simp
      from find_loop_find [OF this, of h key] e(4) Cons show ?thesis by simp
    qed simp
    finally show thesis
    proof (rule that)
      fix a assume a: "a \<in> set xs" "matches (heap H) h key a"
      then have "hs_of (heap H) a mod htsize H = b" by (auto simp: matches_def hs_of_Some b_def)
      with a(1) e(1,2) show "a \<in> set ds" by auto
    qed
  qed
  show "snd (findElementWithHash H key) = strHash key" by (simp add: findElementWithHash_def Let_def)
  show "case fst (findElementWithHash H key) of
      Some a \<Rightarrow> \<exists>e. heap H a = Some e \<and> lower (hkey e) = lower key
    | None \<Rightarrow> \<forall>a e. heap H a = Some e \<longrightarrow> lower (hkey e) \<noteq> lower key"
  proof (cases "find (matches (heap H) h key) bs")
    case None
    then have "\<not> matches (heap H) h key a" if "a \<in> set xs" for a using bs(2) that by (auto simp: find_None_iff)
    then show ?thesis using None bs(1) match xs(3) by force
  next
    case (Some a)
    then have "matches (heap H) h key a" by (auto simp: find_Some_iff)
    then show ?thesis using Some bs(1) match by simp
  qed
qed

lemma find_dict:
  assumes ok: "hash_ok H" and key: "cstring key"
  shows "elem_data H (fst (findElementWithHash H key)) = dict H (lower key)"
    and "fst (findElementWithHash H key) = Some a \<Longrightarrow> \<exists>e. heap H a = Some e \<and> lower (hkey e) = lower key \<and> hdata e = dict H (lower key)"
    and "fst (findElementWithHash H key) = None \<longleftrightarrow> dict H (lower key) = 0"
proof -
  have el: "elems_ok (content (heap H))" using ok by (simp add: hash_ok_def)
  note f = findElement_ok(2) [OF ok key]
  have "elem_data H (fst (findElementWithHash H key)) = dict H (lower key) \<and>
    (\<forall>a. fst (findElementWithHash H key) = Some a \<longrightarrow> (\<exists>e. heap H a = Some e \<and> lower (hkey e) = lower key \<and> hdata e = dict H (lower key))) \<and>
    (fst (findElementWithHash H key) = None \<longleftrightarrow> dict H (lower key) = 0)"
  proof (cases "fst (findElementWithHash H key)")
    case None
    then have "\<nexists>d. holds (content (heap H)) (lower key) d" using f by (auto simp: holds_def content_Some)
    with None show ?thesis by (simp add: dict_eq(2) [OF el] elem_data_def)
  next
    case (Some a)
    then obtain e where e: "heap H a = Some e" "lower (hkey e) = lower key" using f by auto
    then have "holds (content (heap H)) (lower key) (hdata e)" by (auto simp: holds_def content_Some)
    then have "dict H (lower key) = hdata e" by (rule dict_eq(1) [OF el])
    moreover have "hdata e \<noteq> 0" using elems_okD(2) [OF el, of a] e(1) by (auto simp: content_Some)
    ultimately show ?thesis using Some e by (simp add: elem_data_def)
  qed
  then show "elem_data H (fst (findElementWithHash H key)) = dict H (lower key)"
    and "fst (findElementWithHash H key) = Some a \<Longrightarrow> \<exists>e. heap H a = Some e \<and> lower (hkey e) = lower key \<and> hdata e = dict H (lower key)"
    and "fst (findElementWithHash H key) = None \<longleftrightarrow> dict H (lower key) = 0" by blast+
qed

text \<open>How contents and the function they represent change together.\<close>

lemma holds_fun_upd:
  assumes "\<And>d' k' h'. c a = Some (d', k', h') \<Longrightarrow> lower k' \<noteq> key" and "\<And>d' k' h'. v = Some (d', k', h') \<Longrightarrow> lower k' \<noteq> key"
  shows "holds (c(a := v)) key x \<longleftrightarrow> holds c key x"
proof -
  have "(c(a := v)) b = Some (x, k, h) \<and> lower k = key \<longleftrightarrow> c b = Some (x, k, h) \<and> lower k = key" for b k h
    using assms by (cases "b = a") auto
  then show ?thesis by (simp add: holds_def)
qed

lemma dict_upd:
  assumes ok: "elems_ok c" and c': "c' = c(a \<mapsto> (d, k, strHash k))" and "d \<noteq> 0" "cstring k"
    and free: "\<And>b d' k' h'. b \<noteq> a \<Longrightarrow> c b = Some (d', k', h') \<Longrightarrow> lower k' \<noteq> lower k"
    and old: "\<And>d' k' h'. c a = Some (d', k', h') \<Longrightarrow> lower k' = lower k"
    and H: "content (heap H) = c" "content (heap H') = c'"
  shows "elems_ok c'" and "dict H' = (dict H)(lower k := d)"
proof -
  show ok': "elems_ok c'" using ok assms(3,4) free unfolding c' elems_ok_def by (auto split: if_splits) metis+
  show "dict H' = (dict H)(lower k := d)"
  proof
    fix key
    show "dict H' key = ((dict H)(lower k := d)) key"
    proof (cases "key = lower k")
      case True
      then have "holds c' key d" by (auto simp: holds_def c')
      then show ?thesis using dict_eq(1) [of H' key d] ok' H(2) True by simp
    next
      case False
      then have "holds c' key x \<longleftrightarrow> holds c key x" for x
        using holds_fun_upd [of c a key "Some (d, k, strHash k)" x] old by (auto simp: c')
      then have "holds c' key = holds c key" by blast
      then show ?thesis using False by (simp add: dict_def H)
    qed
  qed
qed

lemma dict_del:
  assumes ok: "elems_ok c" and c': "c' = c(a := None)" and a: "c a = Some (d, k, h)"
    and H: "content (heap H) = c" "content (heap H') = c'"
  shows "elems_ok c'" and "dict H' = (dict H)(lower k := 0)"
proof -
  show ok': "elems_ok c'" using ok unfolding c' elems_ok_def by (auto split: if_splits)
  have uniq: "b = a" if "c b = Some (d', k', h')" "lower k' = lower k" for b d' k' h'
    using ok a that unfolding elems_ok_def by blast
  show "dict H' = (dict H)(lower k := 0)"
  proof
    fix key
    show "dict H' key = ((dict H)(lower k := 0)) key"
    proof (cases "key = lower k")
      case True
      then have "\<nexists>x. holds c' key x" using uniq by (auto simp: holds_def c' split: if_splits)
      then show ?thesis using dict_eq(2) [of H' key] ok' H(2) True by simp
    next
      case False
      then have "holds c' key x \<longleftrightarrow> holds c key x" for x
        using holds_fun_upd [of c a key None x] a by (auto simp: c')
      then have "holds c' key = holds c key" by blast
      then show ?thesis using False by (simp add: dict_def H)
    qed
  qed
qed

section \<open>Removal\<close>

lemma clear_loop_all: "next_ok s xs \<Longrightarrow> distinct xs \<Longrightarrow> length xs \<le> n \<Longrightarrow> clear_loop s (hd_or xs None) n = (\<lambda>x. if x \<in> set xs then None else s x)"
proof (induction xs arbitrary: s n)
  case (Cons a xs)
  obtain m where n: "n = Suc m" using Cons.prems(3) by (cases n) auto
  obtain e where e: "s a = Some e" "hnext e = hd_or xs None" using Cons.prems(1) by auto
  have "next_ok (s(a := None)) xs" using Cons.prems next_ok_frame [of a xs s None] by auto
  then have "clear_loop (s(a := None)) (hd_or xs None) m = (\<lambda>x. if x \<in> set xs then None else (s(a := None)) x)"
    by (rule Cons.IH) (use Cons.prems n in simp_all)
  then have "clear_loop s (hd_or (a # xs) None) n = (\<lambda>x. if x \<in> set xs then None else (s(a := None)) x)"
    using n e by simp
  then show ?case by (auto simp: fun_eq_iff)
qed simp

lemma remove1_mid: "distinct (as @ a # bs) \<Longrightarrow> remove1 a (as @ a # bs) = as @ bs"
  by (simp add: remove1_append)

lemma tab_remove:
  assumes t: "tab_ok hs n t (as @ a # bs)" and d: "distinct (as @ a # bs)" and b: "b = hs a mod n" and nx: "nx = hd_or bs None"
  shows "tab_ok hs n (t[b := (fst (t ! b) - 1, if snd (t ! b) = Some a then nx else snd (t ! b))]) (as @ bs)"
proof -
  have n: "length t = n" "0 < n" "\<And>b. b < n \<Longrightarrow> bucket hs n b (as @ a # bs) (t ! b)" using t by (auto simp: tab_ok_def)
  have bn: "b < n" using n(2) b by simp
  have "bucket hs n b' (as @ bs) (t ! b')" if "b' < n" "b' \<noteq> b" for b'
    using bucket_remove [OF n(3) [OF that(1)], of a] that(2) remove1_mid [OF d] b by simp
  moreover have "bucket hs n b (as @ bs) (fst (t ! b) - 1, if snd (t ! b) = Some a then nx else snd (t ! b))"
  proof -
    obtain us ds cs where e: "as @ a # bs = us @ ds @ cs" "\<forall>a \<in> set ds. hs a mod n = b"
      "\<forall>a \<in> set us \<union> set cs. hs a mod n \<noteq> b" "fst (t ! b) = length ds" "ds \<noteq> [] \<longrightarrow> snd (t ! b) = Some (hd ds)"
      using n(3) [OF bn] by (auto simp: bucket_def)
    have "a \<in> set (us @ ds @ cs)" unfolding e(1) [symmetric] by simp
    then have "a \<in> set ds" using e(3) b by auto
    then obtain d1 d2 where ds: "ds = d1 @ a # d2" by (meson split_list)
    have dd: "distinct (us @ (d1 @ a # d2) @ cs)" using d unfolding e(1) ds .
    have s: "as @ a # bs = (us @ d1) @ a # (d2 @ cs)" using e(1) ds by simp
    moreover have "a \<notin> set as" "a \<notin> set bs" using d by auto
    ultimately have sp: "as = us @ d1" "bs = d2 @ cs" using append_Cons_eq_iff [of a as bs "us @ d1" "d2 @ cs"] by blast+
    show ?thesis
    proof (rule bucketI [of _ us "d1 @ d2" cs])
      show "d1 @ d2 \<noteq> [] \<Longrightarrow> snd (fst (t ! b) - 1, if snd (t ! b) = Some a then nx else snd (t ! b)) = Some (hd (d1 @ d2))"
        using e(5) ds dd nx sp by (cases d1; cases d2) auto
    qed (use sp e ds in auto)
  qed
  ultimately show ?thesis using n(1,2) bn by (auto simp: tab_ok_def nth_list_update)
qed

lemma removeElement_ok:
  assumes ok: "hash_ok H" and a: "heap H a = Some e"
  shows "hash_ok (removeElement H a)" and "dict (removeElement H a) = (dict H)(lower (hkey e) := 0)"
proof -
  obtain xs where xs: "table_ok H xs" "hcount H = length xs" "dom (heap H) = set xs" and el: "elems_ok (content (heap H))"
    using ok by (auto simp: hash_ok_def)
  obtain as bs where ab: "xs = as @ a # bs" using a xs(3) by (metis domI split_list)
  have l: "linked (heap H) (hfirst H) (as @ a # bs)" using xs(1) by (simp add: table_ok_def ab)
  then have d: "distinct (as @ a # bs)" by (simp add: linked_def)
  obtain s f where u: "unlink (heap H) (hfirst H) e = (s, f)" by (metis surj_pair)
  note un = unlink_ok [OF l a u]
  define t where "t = (case ht H of None \<Rightarrow> None | Some t \<Rightarrow> Some (t[unat (hhash e) mod htsize H :=
    (fst (t ! (unat (hhash e) mod htsize H)) - 1, if snd (t ! (unat (hhash e) mod htsize H)) = Some a then hnext e
      else snd (t ! (unat (hhash e) mod htsize H)))]))"
  define G where "G = H\<lparr>hfirst := f, ht := t, heap := s(a := None), hcount := hcount H - 1\<rparr>"
  have r: "removeElement H a = (if hcount G = 0 then sqlite3HashClear G else G)"
    unfolding removeElement_def a u G_def t_def Let_def option.case prod.case by simp
  have lk: "linked (heap G) (hfirst G) (as @ bs)"
    using un(1) d by (auto simp: linked_def G_def)
  have hs: "hs_of (heap G) x = hs_of (heap H) x" if "x \<noteq> a" for x
    using fun_cong [OF un(2), of x] that by (simp add: hs_of_def content_def G_def)
  have cG: "content (heap G) = (content (heap H))(a := None)" using un(2) by (auto simp: G_def content_def fun_eq_iff)
  have tG: "table_ok G (as @ bs)"
  proof (cases "ht H")
    case None
    with xs(1) lk show ?thesis by (simp add: table_ok_def G_def t_def)
  next
    case (Some t0)
    have "tab_ok (hs_of (heap H)) (htsize H) t0 (as @ a # bs)" using xs(1) Some by (simp add: table_ok_def ab)
    from tab_remove [OF this d refl un(5)]
    have "tab_ok (hs_of (heap H)) (htsize H) (the t) (as @ bs)"
      unfolding t_def Some hs_of_Some [of "heap H", OF a] option.case option.sel by simp
    moreover have "tab_ok (hs_of (heap H)) (htsize H) (the t) (as @ bs) = tab_ok (hs_of (heap G)) (htsize H) (the t) (as @ bs)"
      by (rule tab_ok_cong, rule hs [symmetric]) (use d in auto)
    ultimately show ?thesis using lk Some by (simp add: table_ok_def G_def t_def)
  qed
  have del: "elems_ok (content (heap G))" "dict G = (dict H)(lower (hkey e) := 0)"
    using dict_del [OF el cG _ refl refl, of "hdata e" "hkey e" "hhash e"] a by (auto simp: content_Some)
  have dom: "dom (heap G) = set (as @ bs)"
  proof -
    have "s x = None \<longleftrightarrow> heap H x = None" for x using fun_cong [OF un(2), of x] by (cases "s x"; cases "heap H x") (auto simp: content_def)
    then have "dom s = dom (heap H)" by (simp add: dom_def)
    then show ?thesis using xs(3) ab d by (auto simp: G_def)
  qed
  have cnt: "hcount G = length (as @ bs)" using xs(2) ab by (simp add: G_def)
  show "hash_ok (removeElement H a)" "dict (removeElement H a) = (dict H)(lower (hkey e) := 0)"
  proof -
    have "hash_ok G" using tG dom cnt del(1) by (auto simp: hash_ok_def)
    moreover have "sqlite3HashClear G = G\<lparr>ht := None, htsize := 0\<rparr>" "heap G = (\<lambda>_. None)" if "hcount G = 0"
      using that cnt dom lk by (auto simp: sqlite3HashClear_def linked_def)
    moreover have "hash_ok (G\<lparr>ht := None, htsize := 0\<rparr>)" if "hcount G = 0"
      using that cnt dom lk del(1) by (auto simp: hash_ok_def table_ok_def linked_def)
    moreover have "dict (G\<lparr>ht := None, htsize := 0\<rparr>) = dict G" by (simp add: dict_def fun_eq_iff)
    ultimately show "hash_ok (removeElement H a)" "dict (removeElement H a) = (dict H)(lower (hkey e) := 0)"
      using del(2) r by (cases "hcount G = 0"; simp)+
  qed
qed

section \<open>Insertion\<close>

definition memory_ok :: "memory \<Rightarrow> hash \<Rightarrow> bool" where
  "memory_ok mem H \<longleftrightarrow> (\<forall>a. new_elem mem = Some a \<longrightarrow> heap H a = None) \<and> (\<forall>k m. new_ht mem k = Some m \<longrightarrow> k \<le> m)"

lemma update_ok:
  assumes ok: "hash_ok H" and a: "heap H a = Some e" and "lower key = lower (hkey e)" "cstring key" "d \<noteq> 0"
    and G: "G = H\<lparr>heap := (heap H)(a \<mapsto> e\<lparr>hdata := d, hkey := key\<rparr>)\<rparr>"
  shows "hash_ok G" and "dict G = (dict H)(lower key := d)"
proof -
  obtain xs where xs: "table_ok H xs" "hcount H = length xs" "dom (heap H) = set xs" and el: "elems_ok (content (heap H))"
    using ok by (auto simp: hash_ok_def)
  have e: "hhash e = strHash (hkey e)" "cstring (hkey e)" using elems_okD [OF el, of a] a by (auto simp: content_Some)
  then have h: "hhash e = strHash key" using strHash_lower [OF assms(4)] assms(3) by simp
  have c: "content (heap G) = (content (heap H))(a \<mapsto> (d, key, strHash key))"
    by (auto simp: G content_def h fun_eq_iff)
  have free: "lower k' \<noteq> lower key" if "b \<noteq> a" "content (heap H) b = Some (d', k', h')" for b d' k' h'
    using el that a assms(3) unfolding elems_ok_def by (metis content_Some)
  have old: "lower k' = lower key" if "content (heap H) a = Some (d', k', h')" for d' k' h'
    using that a assms(3) by (auto simp: content_Some)
  note up = dict_upd [OF el c assms(5,4) free old refl refl]
  have seg: "seg (heap G) p ys n = seg (heap H) p ys n" for p ys n
    using a by (induction ys arbitrary: p) (auto simp: G)
  have "hs_of (heap G) = hs_of (heap H)" using a by (auto simp: G hs_of_def content_def fun_eq_iff)
  then have "table_ok G xs" using xs(1) seg by (simp add: table_ok_def linked_def G cong: option.case_cong)
  moreover have "dom (heap G) = set xs" using xs(3) a by (auto simp: G)
  ultimately show "hash_ok G" using xs(2) up(1) by (auto simp: hash_ok_def G)
  show "dict G = (dict H)(lower key := d)" by (rule up(2))
qed

lemma new_ok:
  assumes ok: "hash_ok H" and mem: "memory_ok mem H" "new_elem mem = Some a" and key: "cstring key" "d \<noteq> 0"
    and absent: "\<forall>a e. heap H a = Some e \<longrightarrow> lower (hkey e) \<noteq> lower key"
  shows "hash_ok (insert_new mem H key (strHash key) d a)" and "dict (insert_new mem H key (strHash key) d a) = (dict H)(lower key := d)"
proof -
  define G where "G = insert_new mem H key (strHash key) d a"
  define H1 where H1: "H1 = H\<lparr>heap := (heap H)(a \<mapsto> \<lparr>hnext = None, hprev = None, hdata = d, hkey = key, hhash = strHash key\<rparr>), hcount := hcount H + 1\<rparr>"
  define H2 where H2: "H2 = (if hcount H1 \<ge> 5 \<and> hcount H1 > 2 * htsize H1 then rehash mem H1 (hcount H1 * 3) else H1)"
  have G: "G = insertElement H2 (if ht H2 = None then None else Some (unat (strHash key) mod htsize H2)) a"
    unfolding G_def insert_new_def Let_def H1 [symmetric] H2 [symmetric] ..
  obtain xs where xs: "table_ok H xs" "hcount H = length xs" "dom (heap H) = set xs" and el: "elems_ok (content (heap H))"
    using ok by (auto simp: hash_ok_def)
  have a: "heap H a = None" "a \<notin> set xs" using mem xs(3) by (auto simp: memory_ok_def)
  have t1: "table_ok H1 xs"
  proof -
    have "hs_of (heap H1) x = hs_of (heap H) x" if "x \<noteq> a" for x using that by (simp add: H1 hs_of_def content_def)
    then have "tab_ok (hs_of (heap H1)) n t xs = tab_ok (hs_of (heap H)) n t xs" for n t
      using a(2) by (intro tab_ok_cong) (metis neq_of_notin)
    moreover have "linked (heap H1) f xs = linked (heap H) f xs" for f using a(2) by (simp add: linked_def H1)
    ultimately show ?thesis using xs(1) by (simp add: table_ok_def H1 cong: option.case_cong)
  qed
  have "\<exists>ys. table_ok H2 ys \<and> set ys = set xs \<and> length ys = length xs \<and> relinked H1 H2 ys"
  proof (cases "hcount H1 \<ge> 5 \<and> hcount H1 > 2 * htsize H1")
    case True
    have "0 < m" if "new_ht mem k = Some m" "0 < k" for k m using that mem(1) by (auto simp: memory_ok_def dest!: spec)
    with True rehash_ok [OF t1, of mem "hcount H1 * 3"] xs(2) show ?thesis by (simp add: H2 H1)
  next
    case False
    with t1 have "H2 = H1" "table_ok H1 xs" by (auto simp: H2)
    then show ?thesis by (auto simp: relinked_def)
  qed
  then obtain ys where ys: "table_ok H2 ys" "set ys = set xs" "length ys = length xs" "relinked H1 H2 ys" by blast
  have a2: "heap H2 a = heap H1 a" "a \<notin> set ys" using ys a(2) by (auto simp: relinked_def)
  obtain zs where zs: "table_ok G zs" "set zs = insert a (set ys)" "length zs = Suc (length ys)" "relinked H2 G zs"
    using insertElement_ok [OF ys(1) a2(2), of _ _] a2(1) unfolding G by (fastforce simp: H1)
  have c: "content (heap G) = (content (heap H))(a \<mapsto> (d, key, strHash key))"
    using ys(4) zs(4) by (auto simp: relinked_def H1 content_def fun_eq_iff)
  have free: "lower k' \<noteq> lower key" if "b \<noteq> a" "content (heap H) b = Some (d', k', h')" for b d' k' h'
    using absent that by (auto simp: content_Some)
  have old: "lower k' = lower key" if "content (heap H) a = Some (d', k', h')" for d' k' h'
    using that a by (auto simp: content_Some)
  note up = dict_upd [OF el c key(2,1) free old refl refl]
  have "dom (heap G) = set zs"
  proof -
    have "x \<in> dom (heap G) \<longleftrightarrow> x \<in> dom (content (heap G))" "x \<in> dom (heap H) \<longleftrightarrow> x \<in> dom (content (heap H))" for x
      by (auto simp: content_def dom_def)
    then have "x \<in> dom (heap G) \<longleftrightarrow> x \<in> set zs" for x using xs(3) zs(2) ys(2) by (simp add: c)
    then show ?thesis by blast
  qed
  moreover have "hcount G = length zs" using zs(3,4) ys(3,4) xs(2) by (simp add: relinked_def H1)
  ultimately show "hash_ok (insert_new mem H key (strHash key) d a)"
    unfolding G_def [symmetric] using zs(1) up(1) by (auto simp: hash_ok_def)
  show "dict (insert_new mem H key (strHash key) d a) = (dict H)(lower key := d)" unfolding G_def [symmetric] by (rule up(2))
qed

lemma sqlite3HashInsert_ok:
  assumes ok: "hash_ok H" and key: "cstring key" and mem: "memory_ok mem H" and ins: "sqlite3HashInsert mem H key d = (G, r)"
  shows "hash_ok G"
    and "(if new_elem mem = None \<and> d \<noteq> 0 \<and> dict H (lower key) = 0 then G = H \<and> r = d
      else dict G = (dict H)(lower key := d) \<and> r = dict H (lower key))"
proof -
  obtain f h where fh: "findElementWithHash H key = (f, h)" by (metis surj_pair)
  note fd = find_dict [OF ok key, unfolded fh fst_conv]
  have h: "h = strHash key" using findElement_ok(1) [OF ok key] fh by simp
  have "hash_ok G \<and> ((if new_elem mem = None \<and> d \<noteq> 0 \<and> dict H (lower key) = 0 then G = H \<and> r = d
      else dict G = (dict H)(lower key := d) \<and> r = dict H (lower key)))"
  proof (cases f)
    case (Some a)
    obtain e where e: "heap H a = Some e" "lower (hkey e) = lower key" "hdata e = dict H (lower key)" using fd(2) Some by blast
    have "elem_data H f = hdata e" by (simp add: elem_data_def Some e(1))
    moreover have nz: "dict H (lower key) \<noteq> 0" using fd(3) Some by simp
    ultimately have "G = (if d = 0 then removeElement H a else H\<lparr>heap := (heap H)(a \<mapsto> e\<lparr>hdata := d, hkey := key\<rparr>)\<rparr>)"
      "r = hdata e" using ins e(3) by (auto simp: sqlite3HashInsert_def fh Some e(1) Let_def)
    then show ?thesis
      using removeElement_ok [OF ok e(1)] update_ok [OF ok e(1) e(2) [symmetric] key, of d] e(2,3) nz by (cases "d = 0") auto
  next
    case None
    then have z: "dict H (lower key) = 0" "elem_data H f = 0" using fd(3) by (simp_all add: elem_data_def)
    have absent: "\<forall>a e. heap H a = Some e \<longrightarrow> lower (hkey e) \<noteq> lower key"
      using findElement_ok(2) [OF ok key] None by (simp add: fh)
    consider "d = 0" | "d \<noteq> 0" "new_elem mem = None" | a where "d \<noteq> 0" "new_elem mem = Some a" by auto
    then show ?thesis
    proof cases
      case 1
      with ins z ok show ?thesis by (auto simp: sqlite3HashInsert_def fh fun_eq_iff)
    next
      case 2
      with ins z ok show ?thesis by (auto simp: sqlite3HashInsert_def fh)
    next
      case (3 a)
      from ins z 3 have "G = insert_new mem H key (strHash key) d a" "r = 0" by (simp_all add: sqlite3HashInsert_def fh h)
      with new_ok [OF ok mem 3(2) key 3(1) absent] z 3 show ?thesis by simp
    qed
  qed
  then show "hash_ok G" and "(if new_elem mem = None \<and> d \<noteq> 0 \<and> dict H (lower key) = 0 then G = H \<and> r = d
      else dict G = (dict H)(lower key := d) \<and> r = dict H (lower key))" by blast+
qed

section \<open>The table as a dictionary\<close>

text \<open>
  What the users of a hash table rely on: a state that represents a function, a lookup that
  evaluates it and an insertion that updates it or reports that memory ran out.
\<close>

locale dictionary =
  fixes ok :: "'s \<Rightarrow> bool" and fn :: "'s \<Rightarrow> 'n \<Rightarrow> nat" and norm :: "'k \<Rightarrow> 'n" and valid :: "'k \<Rightarrow> bool"
    and lookup :: "'s \<Rightarrow> 'k \<Rightarrow> nat" and insert :: "'m \<Rightarrow> 's \<Rightarrow> 'k \<Rightarrow> nat \<Rightarrow> 's \<times> nat" and serves :: "'m \<Rightarrow> 's \<Rightarrow> bool"
    and full :: "'m \<Rightarrow> bool"
  assumes lookup: "ok s \<Longrightarrow> valid k \<Longrightarrow> lookup s k = fn s (norm k)"
    and insert_ok: "ok s \<Longrightarrow> valid k \<Longrightarrow> serves m s \<Longrightarrow> ok (fst (insert m s k d))"
    and insert_fn: "ok s \<Longrightarrow> valid k \<Longrightarrow> serves m s \<Longrightarrow> \<not> full m \<Longrightarrow>
      fn (fst (insert m s k d)) = (fn s)(norm k := d) \<and> snd (insert m s k d) = fn s (norm k)"
begin

text \<open>A sequence of insertions, each served by its memory.\<close>

fun served :: "'s \<Rightarrow> ('m \<times> 'k \<times> nat) list \<Rightarrow> bool" where
  "served s [] = True"
| "served s ((m, k, d) # ops) \<longleftrightarrow> valid k \<and> serves m s \<and> \<not> full m \<and> served (fst (insert m s k d)) ops"

fun run_ops :: "'s \<Rightarrow> ('m \<times> 'k \<times> nat) list \<Rightarrow> 's" where
  "run_ops s [] = s"
| "run_ops s ((m, k, d) # ops) = run_ops (fst (insert m s k d)) ops"

lemma run_ops_fn:
  "ok s \<Longrightarrow> served s ops \<Longrightarrow> ok (run_ops s ops) \<and> fn (run_ops s ops) = fold (\<lambda>(m, k, d) f. f(norm k := d)) ops (fn s)"
proof (induction ops arbitrary: s)
  case (Cons op ops)
  obtain m k d where op: "op = (m, k, d)" by (cases op)
  with Cons.prems have p: "valid k" "serves m s" "\<not> full m" "served (fst (insert m s k d)) ops" by auto
  with Cons.IH [OF insert_ok [OF Cons.prems(1) p(1,2)] p(4)] insert_fn [OF Cons.prems(1) p(1-3)] show ?case by (simp add: op)
qed simp

lemma lookup_after:
  assumes "ok s" and "served s ops" and "valid k"
  shows "lookup (run_ops s ops) k = fold (\<lambda>(m, k, d) f. f(norm k := d)) ops (fn s) (norm k)"
  using run_ops_fn [OF assms(1,2)] lookup [of "run_ops s ops" k] assms(3) by simp

end

definition out_of_memory :: "memory \<Rightarrow> bool" where
  "out_of_memory mem \<longleftrightarrow> new_elem mem = None"

interpretation ht: dictionary hash_ok dict "map UpperToLower" cstring sqlite3HashFind sqlite3HashInsert memory_ok out_of_memory
proof
  fix H key
  assume "hash_ok H" "cstring key"
  then show "sqlite3HashFind H key = dict H (lower key)" by (simp add: sqlite3HashFind_def find_dict(1))
next
  fix H key mem d
  assume a: "hash_ok H" "cstring key" "memory_ok mem H"
  obtain G r where g: "sqlite3HashInsert mem H key d = (G, r)" by (metis surj_pair)
  show "hash_ok (fst (sqlite3HashInsert mem H key d))" using sqlite3HashInsert_ok(1) [OF a g] g by simp
  show "dict (fst (sqlite3HashInsert mem H key d)) = (dict H)(lower key := d) \<and> snd (sqlite3HashInsert mem H key d) = dict H (lower key)"
    if "\<not> out_of_memory mem" using sqlite3HashInsert_ok(2) [OF a g] that unfolding out_of_memory_def g fst_conv snd_conv by (simp split: if_splits)
qed

lemma init_ok: "hash_ok sqlite3HashInit" "dict sqlite3HashInit = (\<lambda>_. 0)"
proof -
  have "content (heap sqlite3HashInit) = (\<lambda>_. None)" by (simp add: sqlite3HashInit_def content_def fun_eq_iff)
  then show "hash_ok sqlite3HashInit" "dict sqlite3HashInit = (\<lambda>_. 0)"
    by (auto simp: hash_ok_def table_ok_def linked_def elems_ok_def dict_def holds_def sqlite3HashInit_def fun_eq_iff)
qed

text \<open>A table that has seen a sequence of insertions and removals.\<close>

fun hash_run :: "hash \<Rightarrow> (memory \<times> ztext \<times> nat) list \<Rightarrow> hash" where
  "hash_run H [] = H"
| "hash_run H ((mem, key, d) # ops) = hash_run (fst (sqlite3HashInsert mem H key d)) ops"

fun hash_served :: "hash \<Rightarrow> (memory \<times> ztext \<times> nat) list \<Rightarrow> bool" where
  "hash_served H [] = True"
| "hash_served H ((mem, key, d) # ops) \<longleftrightarrow>
     cstring key \<and> memory_ok mem H \<and> new_elem mem \<noteq> None \<and> hash_served (fst (sqlite3HashInsert mem H key d)) ops"

lemma hash_run_eq: "hash_run H ops = ht.run_ops H ops" "hash_served H ops = ht.served H ops"
  by (induction ops arbitrary: H) (auto simp: out_of_memory_def)

text \<open>The last value given for a key, ignoring case.\<close>

fun last_value :: "(memory \<times> ztext \<times> nat) list \<Rightarrow> ztext \<Rightarrow> nat \<Rightarrow> nat" where
  "last_value [] key d = d"
| "last_value ((mem, k, v) # ops) key d = last_value ops key (if sqlite3StrICmp k key = 0 then v else d)"

lemma last_value_fold:
  "hash_served H ops \<Longrightarrow> cstring key \<Longrightarrow> fold (\<lambda>(m, k, d) f. f(lower k := d)) ops f (lower key) = last_value ops key (f (lower key))"
proof (induction ops arbitrary: H f)
  case (Cons op ops)
  obtain m k v where op: "op = (m, k, v)" by (cases op)
  have p: "cstring k" "hash_served (fst (sqlite3HashInsert m H k v)) ops" using Cons.prems(1) by (simp_all add: op)
  from Cons.IH [OF p(2) Cons.prems(2), of "f(lower k := v)"] StrICmp_eq_0 [OF p(1) Cons.prems(2)] show ?case by (auto simp: op)
qed simp

section \<open>Properties\<close>

text \<open>C25: A hash table refines a dictionary. In a consistent table, inserting under a key (or removing
  it, with data 0) keeps the table consistent, including when it is resized; afterwards a lookup
  of any key that equals the given one without regard to case returns the new data and every other
  lookup is unchanged; the result is the previous data. Only when there is no memory for a new
  element is the table left as it was and the new data returned.\<close>

theorem hash_insert_refines:
  assumes "hash_ok H" and "cstring key" and "memory_ok mem H" and "sqlite3HashInsert mem H key d = (G, r)"
    and "failed \<longleftrightarrow> new_elem mem = None \<and> d \<noteq> 0 \<and> sqlite3HashFind H key = 0" and "cstring k"
  shows "hash_ok G \<and> r = (if failed then d else sqlite3HashFind H key) \<and>
    sqlite3HashFind G k = (if sqlite3StrICmp k key = 0 \<and> \<not> failed then d else sqlite3HashFind H k)"
proof -
  note i = sqlite3HashInsert_ok [OF assms(1-4)]
  have f: "sqlite3HashFind H key = dict H (lower key)" "sqlite3HashFind H k = dict H (lower k)" "sqlite3HashFind G k = dict G (lower k)"
    using ht.lookup assms(1,2,6) i(1) by blast+
  show ?thesis
  proof (cases failed)
    case True
    then have "G = H" "r = d" using i(2) assms(5) unfolding f by (simp_all split: if_splits)
    with True assms(1) show ?thesis by simp
  next
    case False
    then have "dict G = (dict H)(lower key := d)" "r = dict H (lower key)" using i(2) assms(5) unfolding f by (auto split: if_splits)
    with False i(1) StrICmp_eq_0 [OF assms(6,2)] show ?thesis unfolding f by simp
  qed
qed

definition roomy :: "nat \<Rightarrow> memory" where
  "roomy a = \<lparr>new_elem = Some a, new_ht = (\<lambda>n. Some (n + 1))\<rparr>"

theorem hash_insert_refines_witness:
  "let (G, r) = sqlite3HashInsert (roomy 1) sqlite3HashInit (codes ''Main'') 7 in
   hash_ok G \<and> r = 0 \<and> sqlite3HashFind G (codes ''mAIN'') = 7"
proof -
  obtain G r where g: "sqlite3HashInsert (roomy 1) sqlite3HashInit (codes ''Main'') 7 = (G, r)" by (metis surj_pair)
  have "memory_ok (roomy 1) sqlite3HashInit" by (simp add: memory_ok_def roomy_def sqlite3HashInit_def)
  moreover have "cstring (codes ''Main'')" "cstring (codes ''mAIN'')" by (simp_all add: codes_def)
  moreover have "sqlite3StrICmp (codes ''mAIN'') (codes ''Main'') = 0" by (simp add: codes_def UpperToLower_iff)
  moreover have "sqlite3HashFind sqlite3HashInit (codes ''Main'') = 0"
    using ht.lookup [OF init_ok(1) calculation(2)] init_ok(2) by simp
  ultimately show ?thesis
    using hash_insert_refines [OF init_ok(1) _ _ g refl, of "codes ''mAIN''"] g by (simp add: roomy_def)
qed

text \<open>C26: Starting from an empty table, after any sequence of insertions and removals that do not run
  out of memory, a lookup returns the data last given for the key, ignoring case, or 0.\<close>

theorem hash_history:
  assumes "hash_served sqlite3HashInit ops" and "cstring key"
  shows "sqlite3HashFind (hash_run sqlite3HashInit ops) key = last_value ops key 0"
proof -
  have "sqlite3HashFind (hash_run sqlite3HashInit ops) key = fold (\<lambda>(m, k, d) f. f(lower k := d)) ops (dict sqlite3HashInit) (lower key)"
    unfolding hash_run_eq by (rule ht.lookup_after [OF init_ok(1) assms(1) [unfolded hash_run_eq] assms(2)])
  also have "\<dots> = last_value ops key 0" using last_value_fold [OF assms, of "dict sqlite3HashInit"] init_ok(2) by simp
  finally show ?thesis .
qed

theorem hash_history_witness:
  "sqlite3HashFind (hash_run sqlite3HashInit [(roomy 1, codes ''a'', 5), (roomy 2, codes ''A'', 6)]) (codes ''a'') = 6"
proof -
  have m: "memory_ok (roomy 1) sqlite3HashInit" by (simp add: memory_ok_def roomy_def sqlite3HashInit_def)
  have c: "cstring (codes ''a'')" "cstring (codes ''A'')" by (simp_all add: codes_def)
  have s: "fst (sqlite3HashInsert (roomy 1) sqlite3HashInit (codes ''a'') 5) =
      \<lparr>htsize = 0, hcount = 1, hfirst = Some 1, ht = None, heap = [1 \<mapsto> \<lparr>hnext = None, hprev = None, hdata = 5, hkey = codes ''a'', hhash = strHash (codes ''a'')\<rparr>]\<rparr>"
    by (auto simp: sqlite3HashInsert_def findElementWithHash_def sqlite3HashInit_def elem_data_def roomy_def insert_new_def
        insertElement_def link_front_def set_next_def set_prev_def Let_def)
  have "memory_ok (roomy 2) (fst (sqlite3HashInsert (roomy 1) sqlite3HashInit (codes ''a'') 5))"
    unfolding s by (simp add: memory_ok_def roomy_def)
  then have "hash_served sqlite3HashInit [(roomy 1, codes ''a'', 5), (roomy 2, codes ''A'', 6)]"
    using m c by (simp add: roomy_def)
  from hash_history [OF this c(1)] show ?thesis by (simp add: codes_def UpperToLower_iff)
qed

end
