(* ===== verification/Bitvec.thy ===== *)
theory Bitvec
  imports Prelude
begin

text \<open>
  The bitmaps of \<^verbatim>\<open>bitvec.c\<close>, in which the pager records journalled pages. A bitmap is a bit array,
  a hash table of the numbers set, or an array of smaller bitmaps; on the 32-bit target the union has
  500 bytes: 4000 bits, 125 hash slots or 125 pointers. Allocation is a list of outcomes that the
  operations consume; when it is used up every allocation succeeds.
\<close>

section \<open>Bitmaps\<close>

abbreviation (input) BITVEC_NELEM :: nat where "BITVEC_NELEM \<equiv> 500"
abbreviation (input) BITVEC_NBIT :: nat where "BITVEC_NBIT \<equiv> 4000"
abbreviation (input) BITVEC_NINT :: nat where "BITVEC_NINT \<equiv> 125"
abbreviation (input) BITVEC_MXHASH :: nat where "BITVEC_MXHASH \<equiv> 62"
abbreviation (input) BITVEC_NPTR :: nat where "BITVEC_NPTR \<equiv> 125"

datatype bitvec =
    aBitmap nat "u8 list"
  | aHash nat nat "nat list"
  | apSub nat nat "bitvec option list"

fun sqlite3BitvecSize :: "bitvec \<Rightarrow> nat" where
  "sqlite3BitvecSize (aBitmap iSize _) = iSize"
| "sqlite3BitvecSize (aHash iSize _ _) = iSize"
| "sqlite3BitvecSize (apSub iSize _ _) = iSize"

definition sqlite3BitvecCreate :: "nat \<Rightarrow> bitvec" where
  "sqlite3BitvecCreate iSize =
     (if iSize \<le> BITVEC_NBIT then aBitmap iSize (replicate BITVEC_NELEM 0) else aHash iSize 0 (replicate BITVEC_NINT 0))"

definition BITVEC_HASH :: "nat \<Rightarrow> nat" where
  "BITVEC_HASH x = x mod BITVEC_NINT"

text \<open>Probing from slot \<open>h\<close> for value \<open>v\<close> or a free slot.\<close>

fun bv_probe :: "nat list \<Rightarrow> nat \<Rightarrow> nat \<Rightarrow> nat \<Rightarrow> nat option" where
  "bv_probe a v h 0 = None"
| "bv_probe a v h (Suc n) = (if a ! h = 0 \<or> a ! h = v then Some h else bv_probe a v ((h + 1) mod BITVEC_NINT) n)"

definition sub_at :: "bitvec option list \<Rightarrow> nat \<Rightarrow> bitvec option" where
  "sub_at subs bin = (if bin < length subs then subs ! bin else None)"

lemma sub_at_size [termination_simp]: "sub_at subs bin = Some q \<Longrightarrow> size q < size_list (size_option size) subs"
proof -
  assume q: "sub_at subs bin = Some q"
  then have "Some q \<in> set subs" by (auto simp: sub_at_def split: if_splits) (metis nth_mem)
  moreover have "size q < size_option size (Some q)" by simp
  ultimately show ?thesis by (rule size_list_estimation)
qed

text \<open>The tests take the number less one, as the code does after \<^verbatim>\<open>i--\<close>.\<close>

fun bv_test :: "bitvec \<Rightarrow> nat \<Rightarrow> bool" where
  "bv_test (aBitmap iSize bm) i = bit (bm ! (i div 8)) (i mod 8)"
| "bv_test (aHash iSize nSet a) i =
     (case bv_probe a (i + 1) (BITVEC_HASH i) BITVEC_NINT of Some h \<Rightarrow> a ! h = i + 1 | None \<Rightarrow> False)"
| "bv_test (apSub iSize iDivisor subs) i =
     (case sub_at subs (i div iDivisor) of None \<Rightarrow> False | Some q \<Rightarrow> bv_test q (i mod iDivisor))"

definition sqlite3BitvecTestNotNull :: "bitvec \<Rightarrow> nat \<Rightarrow> bool" where
  "sqlite3BitvecTestNotNull p i = (if i = 0 \<or> i - 1 \<ge> sqlite3BitvecSize p then False else bv_test p (i - 1))"

definition sqlite3BitvecTest :: "bitvec option \<Rightarrow> nat \<Rightarrow> bool" where
  "sqlite3BitvecTest p i = (case p of None \<Rightarrow> False | Some p \<Rightarrow> sqlite3BitvecTestNotNull p i)"

section \<open>Setting a bit\<close>

definition new_divisor :: "nat \<Rightarrow> nat" where
  "new_divisor iSize =
     (let d = iSize div BITVEC_NPTR; d = (if iSize mod BITVEC_NPTR \<noteq> 0 then d + 1 else d)
      in if d < BITVEC_NBIT then BITVEC_NBIT else d)"

text \<open>
  \<^verbatim>\<open>sqlite3BitvecSet\<close> after \<^verbatim>\<open>i--\<close>: the bitmap, the result code and the remaining outcomes. A hash
  table that is too full becomes an array of bitmaps into which all values are set again. The first
  argument bounds the depth.
\<close>

fun bv_set :: "nat \<Rightarrow> outcomes \<Rightarrow> bitvec \<Rightarrow> nat \<Rightarrow> bitvec \<times> int \<times> outcomes" where
  "bv_set 0 m p i = (p, -1, m)"
| "bv_set (Suc n) m (aBitmap iSize bm) i = (aBitmap iSize (bm[i div 8 := bm ! (i div 8) OR push_bit (i mod 8) 1]), SQLITE_OK, m)"
| "bv_set (Suc n) m (apSub iSize iDivisor subs) i =
     (let bin = i div iDivisor;
          (ok, m) = (if subs ! bin = None then malloc m else (True, m));
          sub = (case subs ! bin of None \<Rightarrow> sqlite3BitvecCreate iDivisor | Some q \<Rightarrow> q)
      in if \<not> ok then (apSub iSize iDivisor subs, SQLITE_NOMEM, m)
         else case bv_set n m sub (i mod iDivisor) of
           (q, rc, m) \<Rightarrow> (apSub iSize iDivisor (subs[bin := Some q]), rc, m))"
| "bv_set (Suc n) m (aHash iSize nSet a) i =
     (let h = BITVEC_HASH i; v = i + 1 in
      if a ! h = 0 \<and> nSet < BITVEC_NINT - 1 then (aHash iSize (nSet + 1) (a[h := v]), SQLITE_OK, m)
      else case bv_probe a v h BITVEC_NINT of
        None \<Rightarrow> (aHash iSize nSet a, -1, m)
      | Some h \<Rightarrow>
         if a ! h = v then (aHash iSize nSet a, SQLITE_OK, m)
         else if nSet \<ge> BITVEC_MXHASH then
           (case malloc m of
              (False, m) \<Rightarrow> (aHash iSize nSet a, SQLITE_NOMEM, m)
            | (True, m) \<Rightarrow>
                let p = apSub iSize (new_divisor iSize) (replicate BITVEC_NPTR None) in
                fold (\<lambda>x (p, rc, m). if x = 0 then (p, rc, m)
                        else case bv_set n m p (x - 1) of (p, rc', m) \<Rightarrow> (p, rc OR rc', m))
                  (v # a) (p, SQLITE_OK, m))
         else (aHash iSize (nSet + 1) (a[h := v]), SQLITE_OK, m))"

definition sqlite3BitvecSet :: "outcomes \<Rightarrow> bitvec option \<Rightarrow> nat \<Rightarrow> bitvec option \<times> int \<times> outcomes" where
  "sqlite3BitvecSet m p i =
     (case p of
        None \<Rightarrow> (None, SQLITE_OK, m)
      | Some p \<Rightarrow> (case bv_set (2 * sqlite3BitvecSize p + 2) m p (i - 1) of (p, rc, m) \<Rightarrow> (Some p, rc, m)))"

section \<open>Clearing a bit\<close>

text \<open>The loop that enters the remaining values into the emptied table.\<close>

fun refill :: "nat list \<Rightarrow> nat \<Rightarrow> nat \<Rightarrow> nat list \<Rightarrow> nat \<times> nat list" where
  "refill [] v nSet a = (nSet, a)"
| "refill (x # xs) v nSet a =
     (if x \<noteq> 0 \<and> x \<noteq> v then
        (case bv_probe a 0 (BITVEC_HASH (x - 1)) BITVEC_NINT of
           Some h \<Rightarrow> refill xs v (nSet + 1) (a[h := x])
         | None \<Rightarrow> refill xs v (nSet + 1) a)
      else refill xs v nSet a)"

fun bv_clear :: "bitvec \<Rightarrow> nat \<Rightarrow> bitvec" where
  "bv_clear (aBitmap iSize bm) i = aBitmap iSize (bm[i div 8 := bm ! (i div 8) AND NOT (push_bit (i mod 8) 1)])"
| "bv_clear (aHash iSize nSet a) i =
     (case refill a (i + 1) 0 (replicate BITVEC_NINT 0) of (n, a) \<Rightarrow> aHash iSize n a)"
| "bv_clear (apSub iSize iDivisor subs) i =
     (case sub_at subs (i div iDivisor) of
        None \<Rightarrow> apSub iSize iDivisor subs
      | Some q \<Rightarrow> apSub iSize iDivisor (subs[i div iDivisor := Some (bv_clear q (i mod iDivisor))]))"

definition sqlite3BitvecClear :: "bitvec option \<Rightarrow> nat \<Rightarrow> bitvec option" where
  "sqlite3BitvecClear p i = map_option (\<lambda>p. bv_clear p (i - 1)) p"

section \<open>Hash tables\<close>

abbreviation slot :: "nat \<Rightarrow> nat \<Rightarrow> nat" where
  "slot h d \<equiv> (h + d) mod 125"

definition entries :: "nat list \<Rightarrow> nat" where
  "entries a = length (filter (\<lambda>x. x \<noteq> 0) a)"

definition placed :: "nat list \<Rightarrow> nat \<Rightarrow> bool" where
  "placed a v \<longleftrightarrow> (\<exists>d. a ! slot (BITVEC_HASH (v - 1)) d = v \<and> (\<forall>e < d. a ! slot (BITVEC_HASH (v - 1)) e \<noteq> 0))"

definition tbl_ok :: "nat list \<Rightarrow> bool" where
  "tbl_ok a \<longleftrightarrow> length a = BITVEC_NINT \<and> (\<forall>v \<in> set a. v \<noteq> 0 \<longrightarrow> placed a v) \<and> entries a < BITVEC_NINT"

lemma bv_free_slot: "length a = BITVEC_NINT \<Longrightarrow> entries a < BITVEC_NINT \<Longrightarrow> \<exists>d < BITVEC_NINT. a ! slot h d = 0"
proof -
  assume len: "length a = BITVEC_NINT" and "entries a < BITVEC_NINT"
  then have "filter (\<lambda>x. x \<noteq> 0) a \<noteq> a" by (auto simp: entries_def)
  then have "0 \<in> set a" by (auto simp: filter_id_conv)
  then obtain k where k: "k < 125" "a ! k = 0" using len by (auto simp: in_set_conv_nth)
  define q where "q = h mod 125"
  have "q < 125" by (simp add: q_def)
  have "slot h ((k + 125 - q) mod 125) = (h + (k + 125 - q)) mod 125" by (simp only: mod_add_right_eq)
  also have "\<dots> = (q + (k + 125 - q)) mod 125" unfolding q_def by (simp only: mod_add_left_eq)
  also have "\<dots> = (k + 125) mod 125" using \<open>q < 125\<close> by simp
  also have "\<dots> = k" using k(1) by simp
  finally have "slot h ((k + 125 - q) mod 125) = k" .
  with k(2) show ?thesis by (metis mod_less_divisor zero_less_numeral)
qed

lemma bv_probe_finds:
  assumes "a ! slot h d = 0 \<or> a ! slot h d = v" and "\<forall>e < d. a ! slot h e \<noteq> 0 \<and> a ! slot h e \<noteq> v" and "c \<le> d" and "d - c < n"
  shows "bv_probe a v (slot h c) n = Some (slot h d)"
  using assms(3,4)
proof (induction n arbitrary: c)
  case (Suc n)
  show ?case
  proof (cases "c = d")
    case True
    with assms(1) show ?thesis by auto
  next
    case False
    then have "a ! slot h c \<noteq> 0" "a ! slot h c \<noteq> v" "Suc c \<le> d" "d - Suc c < n" using Suc.prems assms(2) by auto
    with Suc.IH [of "Suc c"] show ?thesis by (simp add: mod_simps)
  qed
qed simp

lemma bv_probe_first:
  assumes "length a = BITVEC_NINT" "entries a < BITVEC_NINT" and "h < BITVEC_NINT"
  obtains d where "bv_probe a v h BITVEC_NINT = Some (slot h d)" "a ! slot h d = 0 \<or> a ! slot h d = v"
    "\<forall>e < d. a ! slot h e \<noteq> 0 \<and> a ! slot h e \<noteq> v"
proof -
  define d where "d = (LEAST d. a ! slot h d = 0 \<or> a ! slot h d = v)"
  obtain c where c: "c < 125" "a ! slot h c = 0" using bv_free_slot [OF assms(1,2)] by blast
  then have ex: "a ! slot h c = 0 \<or> a ! slot h c = v" by simp
  have d: "a ! slot h d = 0 \<or> a ! slot h d = v" unfolding d_def by (rule LeastI, rule ex)
  have dc: "d \<le> c" unfolding d_def by (rule Least_le, rule ex)
  have min: "\<forall>e < d. a ! slot h e \<noteq> 0 \<and> a ! slot h e \<noteq> v" 
  proof (intro allI impI)
    fix e assume "e < d"
    then have "\<not> (a ! slot h e = 0 \<or> a ! slot h e = v)" unfolding d_def by (rule not_less_Least)
    then show "a ! slot h e \<noteq> 0 \<and> a ! slot h e \<noteq> v" by simp
  qed
  have "bv_probe a v (slot h 0) 125 = Some (slot h d)" using bv_probe_finds [OF d min, of 0 125] dc c(1) by simp
  with d min assms(3) show thesis by (intro that) simp_all
qed

lemma probe_member:
  assumes "tbl_ok a" and "v \<noteq> 0"
  shows "(case bv_probe a v (BITVEC_HASH (v - 1)) BITVEC_NINT of Some h \<Rightarrow> a ! h = v | None \<Rightarrow> False) \<longleftrightarrow> v \<in> set a"
proof -
  let ?h = "BITVEC_HASH (v - 1)"
  have a: "length a = 125" "entries a < 125" "?h < 125" using assms(1) by (auto simp: tbl_ok_def BITVEC_HASH_def)
  obtain d where d: "bv_probe a v ?h BITVEC_NINT = Some (slot ?h d)" "a ! slot ?h d = 0 \<or> a ! slot ?h d = v"
    "\<forall>e < d. a ! slot ?h e \<noteq> 0 \<and> a ! slot ?h e \<noteq> v" by (rule bv_probe_first [OF a])
  have "a ! slot ?h d = v" if "v \<in> set a"
  proof -
    have "placed a v" using assms that by (auto simp: tbl_ok_def)
    then obtain c where c: "a ! slot ?h c = v" "\<forall>e < c. a ! slot ?h e \<noteq> 0" by (auto simp: placed_def)
    then have "\<not> c < d" using d(3) by blast
    then have "c = d \<or> d < c" by linarith
    with c d(2) show ?thesis by blast
  qed
  moreover have "v \<in> set a" if "a ! slot ?h d = v" using nth_mem [of "slot ?h d" a] that a(1) by (simp del: One_nat_def)
  ultimately show ?thesis using d(1) by auto
qed

lemma entries_update: "k < length a \<Longrightarrow> a ! k = 0 \<Longrightarrow> v \<noteq> 0 \<Longrightarrow> entries (a[k := v]) = Suc (entries a)"
proof -
  assume k: "k < length a" "a ! k = 0" "v \<noteq> 0"
  have e: "a = take k a @ 0 # drop (Suc k) a" using k by (metis id_take_nth_drop)
  have "entries a = entries (take k a) + entries (drop (Suc k) a)" using arg_cong [OF e, of entries] by (simp add: entries_def)
  then show ?thesis using k by (simp add: upd_conv_take_nth_drop entries_def)
qed

lemma tbl_insert:
  assumes ok: "tbl_ok a" and "v \<noteq> 0" and free: "a ! slot (BITVEC_HASH (v - 1)) d = 0"
    "\<forall>e < d. a ! slot (BITVEC_HASH (v - 1)) e \<noteq> 0" and "entries a < BITVEC_NINT - 1"
  shows "tbl_ok (a[slot (BITVEC_HASH (v - 1)) d := v])" "entries (a[slot (BITVEC_HASH (v - 1)) d := v]) = entries a + 1"
    "set (a[slot (BITVEC_HASH (v - 1)) d := v]) - {0} = insert v (set a - {0})"
proof -
  define k where "k = slot (BITVEC_HASH (v - 1)) d"
  have len: "length a = 125" and pl: "\<And>v. v \<in> set a \<Longrightarrow> v \<noteq> 0 \<Longrightarrow> placed a v" using ok by (auto simp: tbl_ok_def)
  have k: "k < length a" "a ! k = 0" using free(1) len by (simp_all add: k_def)
  note en = entries_update [OF k assms(2)]
  have keep: "(a[k := v]) ! j = (if j = k then v else a ! j)" if "j < 125" for j using that len by simp
  have "placed (a[k := v]) x" if xa: "x \<in> set (a[k := v])" and x0: "x \<noteq> 0" for x
  proof (cases "x = v")
    case True
    have "\<forall>e < d. (a[k := v]) ! slot (BITVEC_HASH (v - 1)) e \<noteq> 0" using free(2) assms(2) by (simp add: keep)
    moreover have "(a[k := v]) ! slot (BITVEC_HASH (v - 1)) d = v" using keep [of k] k len by (simp add: k_def)
    ultimately show ?thesis unfolding True placed_def by blast
  next
    case False
    then have "x \<in> set a" using xa set_update_subset_insert [of a k v] by auto
    then have "placed a x" using pl x0 by blast
    then obtain c where c: "a ! slot (BITVEC_HASH (x - 1)) c = x" "\<forall>e < c. a ! slot (BITVEC_HASH (x - 1)) e \<noteq> 0"
      by (auto simp: placed_def)
    have "(a[k := v]) ! slot (BITVEC_HASH (x - 1)) c = x" using c(1) x0 k(2) by (auto simp: keep)
    moreover have "\<forall>e < c. (a[k := v]) ! slot (BITVEC_HASH (x - 1)) e \<noteq> 0" using c(2) assms(2) by (auto simp: keep)
    ultimately show ?thesis unfolding placed_def by blast
  qed
  then show "tbl_ok (a[slot (BITVEC_HASH (v - 1)) d := v])" "entries (a[slot (BITVEC_HASH (v - 1)) d := v]) = entries a + 1"
    unfolding k_def [symmetric] using en len assms(5) by (simp_all add: tbl_ok_def)
  show "set (a[slot (BITVEC_HASH (v - 1)) d := v]) - {0} = insert v (set a - {0})"
  proof -
    have "a = take k a @ 0 # drop (Suc k) a" using k by (metis id_take_nth_drop)
    then have "set a - {0} = set (take k a @ 0 # drop (Suc k) a) - {0}" by simp
    also have "\<dots> = (set (take k a) \<union> set (drop (Suc k) a)) - {0}" by auto
    finally have "set a - {0} = (set (take k a) \<union> set (drop (Suc k) a)) - {0}" .
    then show ?thesis unfolding k_def [symmetric] using assms(2) k by (auto simp: upd_conv_take_nth_drop)
  qed
qed

lemma tbl_empty: "tbl_ok (replicate BITVEC_NINT 0)" "entries (replicate n 0) = 0"
  by (auto simp: tbl_ok_def entries_def)

section \<open>The set a bitmap represents\<close>

fun mem :: "bitvec \<Rightarrow> nat \<Rightarrow> bool" where
  "mem (aBitmap iSize bm) i = bit (bm ! (i div 8)) (i mod 8)"
| "mem (aHash iSize nSet a) i = (i + 1 \<in> set a)"
| "mem (apSub iSize iDivisor subs) i =
     (case sub_at subs (i div iDivisor) of None \<Rightarrow> False | Some q \<Rightarrow> mem q (i mod iDivisor))"

definition bits :: "bitvec \<Rightarrow> nat set" where
  "bits p = {i. 1 \<le> i \<and> i \<le> sqlite3BitvecSize p \<and> mem p (i - 1)}"

fun bv_ok :: "bitvec \<Rightarrow> bool" where
  "bv_ok (aBitmap iSize bm) \<longleftrightarrow> iSize \<le> BITVEC_NBIT \<and> length bm = BITVEC_NELEM"
| "bv_ok (aHash iSize nSet a) \<longleftrightarrow> BITVEC_NBIT < iSize \<and> tbl_ok a \<and> nSet = entries a \<and> (\<forall>v \<in> set a. v \<le> iSize)"
| "bv_ok (apSub iSize iDivisor subs) \<longleftrightarrow> BITVEC_NBIT < iSize \<and> iDivisor = new_divisor iSize \<and> length subs = BITVEC_NPTR \<and>
     (\<forall>b. case sub_at subs b of None \<Rightarrow> True | Some q \<Rightarrow> bv_ok q \<and> sqlite3BitvecSize q = iDivisor)"

lemma new_divisor: "BITVEC_NBIT < sz \<Longrightarrow> 0 < new_divisor sz \<and> new_divisor sz < sz \<and> sz \<le> BITVEC_NPTR * new_divisor sz"
proof -
  assume sz: "BITVEC_NBIT < sz"
  have "125 * (sz div 125) + sz mod 125 = sz" "sz mod 125 < 125" by simp_all
  then show ?thesis using sz unfolding new_divisor_def Let_def by (auto split: if_splits)
qed

lemma sub_index: "BITVEC_NBIT < sz \<Longrightarrow> i < sz \<Longrightarrow> i div new_divisor sz < BITVEC_NPTR"
  using new_divisor [of sz] by (simp add: div_less_iff_less_mult mult.commute)

lemma create_ok: "bv_ok (sqlite3BitvecCreate sz)" "sqlite3BitvecSize (sqlite3BitvecCreate sz) = sz"
  using tbl_empty(1) tbl_empty(2) [of 125] by (auto simp: sqlite3BitvecCreate_def)

lemma create_mem: "i < sz \<Longrightarrow> \<not> mem (sqlite3BitvecCreate sz) i"
proof -
  assume i: "i < sz"
  show ?thesis
  proof (cases "sz \<le> 4000")
    case True
    then have "i div 8 < 500" using i by linarith
    with True show ?thesis by (simp add: sqlite3BitvecCreate_def)
  qed (simp add: sqlite3BitvecCreate_def)
qed

lemma test_mem: "bv_ok p \<Longrightarrow> i < sqlite3BitvecSize p \<Longrightarrow> bv_test p i = mem p i"
proof (induction p i rule: bv_test.induct)
  case (2 iSize nSet a i)
  then show ?case using probe_member [of a "i + 1"] by simp
next
  case (3 sz dv subs i)
  show ?case
  proof (cases "sub_at subs (i div dv)")
    case (Some q)
    then have "bv_ok q" "sqlite3BitvecSize q = dv" using "3.prems"(1) by (auto dest!: spec [of _ "i div dv"])
    moreover have "i mod dv < dv" using "3.prems" new_divisor [of sz] by simp
    ultimately show ?thesis using "3.IH" [OF Some] Some by simp
  qed simp
qed simp

section \<open>Setting\<close>

lemma bitmap_set:
  fixes bm :: "u8 list"
  assumes "i < 4000" "j < 4000" "length bm = BITVEC_NELEM"
  shows "bit (bm[i div 8 := bm ! (i div 8) OR push_bit (i mod 8) 1] ! (j div 8)) (j mod 8) \<longleftrightarrow> bit (bm ! (j div 8)) (j mod 8) \<or> j = i"
proof -
  have "i div 8 < 500" "i mod 8 < 8" "j mod 8 < 8" using assms by auto
  moreover have "i div 8 = j div 8 \<Longrightarrow> i mod 8 = j mod 8 \<Longrightarrow> i = j" by (metis div_mult_mod_eq)
  ultimately show ?thesis using assms(3) by (cases "i div 8 = j div 8") (auto simp: bit_simps)
qed

lemma bitmap_clear:
  fixes bm :: "u8 list"
  assumes "i < 4000" "j < 4000" "length bm = BITVEC_NELEM"
  shows "bit (bm[i div 8 := bm ! (i div 8) AND NOT (push_bit (i mod 8) 1)] ! (j div 8)) (j mod 8) \<longleftrightarrow> bit (bm ! (j div 8)) (j mod 8) \<and> j \<noteq> i"
proof -
  have "i div 8 < 500" "i mod 8 < 8" "j mod 8 < 8" using assms by auto
  moreover have "i div 8 = j div 8 \<Longrightarrow> i mod 8 = j mod 8 \<Longrightarrow> i = j" by (metis div_mult_mod_eq)
  ultimately show ?thesis using assms(3) by (cases "i div 8 = j div 8") (auto simp: bit_simps)
qed

text \<open>What setting the bits in \<open>I\<close> may do; with memory to spare it succeeds.\<close>

definition set_spec :: "bitvec \<Rightarrow> nat set \<Rightarrow> outcomes \<Rightarrow> bitvec \<times> int \<times> outcomes \<Rightarrow> bool" where
  "set_spec p I m r \<longleftrightarrow> (case r of (p', rc, m') \<Rightarrow> bv_ok p' \<and> sqlite3BitvecSize p' = sqlite3BitvecSize p \<and> (rc = SQLITE_OK \<or> rc = SQLITE_NOMEM) \<and>
     (\<forall>j < sqlite3BitvecSize p. mem p' j \<longrightarrow> mem p j \<or> j \<in> I) \<and> (rc = SQLITE_OK \<longrightarrow> (\<forall>j < sqlite3BitvecSize p. mem p j \<or> j \<in> I \<longrightarrow> mem p' j)) \<and>
     (m = [] \<longrightarrow> rc = SQLITE_OK \<and> m' = []) \<and> (\<forall>sz dv subs. p = apSub sz dv subs \<longrightarrow> (\<exists>subs'. p' = apSub sz dv subs')))"

fun rank :: "bitvec \<Rightarrow> nat" where
  "rank (aBitmap sz _) = 1"
| "rank (apSub sz _ _) = 2 * sz + 1"
| "rank (aHash sz _ _) = 2 * sz + 2"

lemma rank_le: "rank p \<le> 2 * sqlite3BitvecSize p + 2"
  by (cases p) auto

lemma set_spec_trans:
  assumes "set_spec p I m (p', rc, m')" and "set_spec p' J m' (p'', rc', m'')"
  shows "set_spec p (I \<union> J) m (p'', rc OR rc', m'')"
  using assms unfolding set_spec_def by (cases "rc = SQLITE_OK"; cases "rc' = SQLITE_OK") auto

lemma set_spec_rc: "set_spec p I m (p', rc, m') \<Longrightarrow> bv_ok p' \<and> sqlite3BitvecSize p' = sqlite3BitvecSize p"
  by (simp add: set_spec_def)

definition set_all :: "nat \<Rightarrow> nat list \<Rightarrow> bitvec \<times> int \<times> outcomes \<Rightarrow> bitvec \<times> int \<times> outcomes" where
  "set_all n = fold (\<lambda>x (p, rc, m). if x = 0 then (p, rc, m)
                        else case bv_set n m p (x - 1) of (p, rc', m) \<Rightarrow> (p, rc OR rc', m))"

lemma set_all_spec:
  assumes IH: "\<And>m p i. rank p \<le> n \<Longrightarrow> bv_ok p \<Longrightarrow> i < sqlite3BitvecSize p \<Longrightarrow> set_spec p {i} m (bv_set n m p i)"
  shows "set_spec (apSub sz dv subs) I m0 (apSub sz dv subs', rc, m) \<Longrightarrow> 2 * sz + 1 \<le> n \<Longrightarrow> \<forall>x \<in> set xs. x \<le> sz \<Longrightarrow>
    set_spec (apSub sz dv subs) (I \<union> {i. i + 1 \<in> set xs}) m0 (set_all n xs (apSub sz dv subs', rc, m))"
proof (induction xs arbitrary: I subs' rc m)
  case (Cons x xs)
  show ?case
  proof (cases "x = 0")
    case True
    then show ?thesis using Cons.IH [OF Cons.prems(1,2)] Cons.prems(3) by (simp add: set_all_def)
  next
    case False
    obtain p2 rc2 m2 where r: "bv_set n m (apSub sz dv subs') (x - 1) = (p2, rc2, m2)" by (cases "bv_set n m (apSub sz dv subs') (x - 1)")
    have "bv_ok (apSub sz dv subs')" using set_spec_rc [OF Cons.prems(1)] by blast
    moreover have "x - 1 < sz" using Cons.prems(3) False by (simp add: Suc_le_eq [symmetric])
    ultimately have s: "set_spec (apSub sz dv subs') {x - 1} m (p2, rc2, m2)"
      using IH [of "apSub sz dv subs'" "x - 1" m] Cons.prems(2) r by (simp del: bv_ok.simps)
    then obtain subs2 where p2: "p2 = apSub sz dv subs2" by (auto simp: set_spec_def)
    have "set_spec (apSub sz dv subs) (I \<union> {x - 1}) m0 (apSub sz dv subs2, rc OR rc2, m2)"
      using set_spec_trans [OF Cons.prems(1) s] p2 by simp
    then have "set_spec (apSub sz dv subs) (I \<union> {x - 1} \<union> {i. i + 1 \<in> set xs}) m0 (set_all n xs (apSub sz dv subs2, rc OR rc2, m2))"
      using Cons.prems(2,3) by (intro Cons.IH) simp_all
    moreover have "I \<union> {x - 1} \<union> {i. i + 1 \<in> set xs} = I \<union> {i. i + 1 \<in> set (x # xs)}" using False by auto
    ultimately show ?thesis using r p2 False by (simp add: set_all_def)
  qed
qed (simp add: set_all_def)

lemma set_hash_spec:
  assumes IH: "\<And>m p i. rank p \<le> n \<Longrightarrow> bv_ok p \<Longrightarrow> i < sqlite3BitvecSize p \<Longrightarrow> set_spec p {i} m (bv_set n m p i)"
    and ok: "bv_ok (aHash sz k a)" and i: "i < sz" and n: "2 * sz + 1 \<le> n"
  shows "set_spec (aHash sz k a) {i} m (bv_set (Suc n) m (aHash sz k a) i)"
proof -
  let ?h = "BITVEC_HASH i"
  have t: "tbl_ok a" "length a = 125" "entries a < 125" "k = entries a" "\<forall>v \<in> set a. v \<le> sz" "4000 < sz"
    using ok by (auto simp: tbl_ok_def)
  have h: "?h < 125" by (simp add: BITVEC_HASH_def)
  obtain d where d: "bv_probe a (i + 1) ?h BITVEC_NINT = Some (slot ?h d)" "a ! slot ?h d = 0 \<or> a ! slot ?h d = i + 1"
    "\<forall>e < d. a ! slot ?h e \<noteq> 0 \<and> a ! slot ?h e \<noteq> i + 1" by (rule bv_probe_first [OF t(2,3) h])
  have ins: "set_spec (aHash sz k a) {i} m (aHash sz (k + 1) (a[slot ?h c := i + 1]), SQLITE_OK, m)"
    if c: "a ! slot ?h c = 0" "\<forall>e < c. a ! slot ?h e \<noteq> 0" and e: "entries a < 124" for c
  proof -
    have v: "BITVEC_HASH (i + 1 - 1) = ?h" by simp
    have "i + 1 \<noteq> 0" "entries a < BITVEC_NINT - 1" using e by simp_all
    note T = tbl_insert [OF t(1) this(1), unfolded v, OF c this(2)]
    have "(j + 1 \<in> set (a[slot ?h c := i + 1])) = (j + 1 \<in> set a \<or> j = i)" for j using T(3) by auto
    moreover have "v \<le> sz" if "v \<in> set (a[slot ?h c := i + 1])" for v
      using that t(5) i set_update_subset_insert [of a "slot ?h c" "i + 1"] by auto
    ultimately show ?thesis using T(1,2) t by (auto simp: set_spec_def)
  qed
  have keep: "set_spec (aHash sz k a) {i} m (aHash sz k a, SQLITE_OK, m)" if "a ! slot ?h d = i + 1"
  proof -
    have "i + 1 \<in> set a" using nth_mem [of "slot ?h d" a] that t(2) by simp
    then show ?thesis using ok by (auto simp: set_spec_def)
  qed
  define sub where "sub = apSub sz (new_divisor sz) (replicate 125 None)"
  have sub: "bv_ok sub" "\<not> mem sub j" for j using t(6) by (auto simp: sub_def sub_at_def)
  have "set_spec (aHash sz k a) {i} m (set_all n ((i + 1) # a) (sub, SQLITE_OK, m'))" if "m = [] \<longrightarrow> m' = []" for m'
  proof -
    have "set_spec sub {} m (sub, SQLITE_OK, m')" using sub that by (simp add: set_spec_def)
    then have "set_spec sub ({} \<union> {j. j + 1 \<in> set ((i + 1) # a)}) m (set_all n ((i + 1) # a) (sub, SQLITE_OK, m'))"
      unfolding sub_def using n t(5) i by (intro set_all_spec [OF IH]) auto
    then show ?thesis using sub(2) unfolding set_spec_def by (auto simp: sub_def)
  qed
  note full = this
  have nomem: "set_spec (aHash sz k a) {i} m (aHash sz k a, SQLITE_NOMEM, m')" if "m \<noteq> []" for m'
    using ok that by (auto simp: set_spec_def)
  consider (direct) "a ! ?h = 0" "k < 124" | (found) "\<not> (a ! ?h = 0 \<and> k < 124)" "a ! slot ?h d = i + 1"
    | (full) "\<not> (a ! ?h = 0 \<and> k < 124)" "a ! slot ?h d \<noteq> i + 1" "62 \<le> k"
    | (probe) "\<not> (a ! ?h = 0 \<and> k < 124)" "a ! slot ?h d \<noteq> i + 1" "k < 62" by linarith
  then show ?thesis
  proof cases
    case direct
    then show ?thesis using ins [of 0] t(4) h by simp
  next
    case found
    then show ?thesis using keep d(1) by (auto simp: Let_def)
  next
    case full
    obtain b m' where b: "malloc m = (b, m')" by (cases "malloc m")
    then have mm: "m = [] \<longrightarrow> b \<and> m' = []" by (auto simp: malloc_def)
    have "bv_set (Suc n) m (aHash sz k a) i = (if b then set_all n ((i + 1) # a) (sub, SQLITE_OK, m') else (aHash sz k a, SQLITE_NOMEM, m'))"
    proof -
      have "\<not> (a ! ?h = 0 \<and> k < BITVEC_NINT - 1)" "bv_probe a (i + 1) ?h BITVEC_NINT = Some (slot ?h d)" "a ! slot ?h d \<noteq> i + 1" "BITVEC_MXHASH \<le> k"
        using full d(1) by simp_all
      then show ?thesis unfolding set_all_def sub_def using b by (cases b) (simp_all only: bv_set.simps Let_def if_False if_True option.case prod.case bool.case simp_thms not_True_eq_False)
    qed
    then show ?thesis using \<open>\<And>m'. m = [] \<longrightarrow> m' = [] \<Longrightarrow> set_spec (aHash sz k a) {i} m (set_all n ((i + 1) # a) (sub, SQLITE_OK, m'))\<close> [of m'] nomem mm
      by (cases b) auto
  next
    case probe
    then show ?thesis using ins [of d] d t(4) by (auto simp: Let_def)
  qed
qed

lemma set_sub_spec:
  assumes IH: "\<And>m p i. rank p \<le> n \<Longrightarrow> bv_ok p \<Longrightarrow> i < sqlite3BitvecSize p \<Longrightarrow> set_spec p {i} m (bv_set n m p i)"
    and ok: "bv_ok (apSub sz dv subs)" and i: "i < sz" and n: "2 * sz \<le> n"
  shows "set_spec (apSub sz dv subs) {i} m (bv_set (Suc n) m (apSub sz dv subs) i)"
proof -
  let ?b = "i div dv"
  have t: "4000 < sz" "dv = new_divisor sz" "length subs = 125" and qs: "\<And>b q. sub_at subs b = Some q \<Longrightarrow> bv_ok q \<and> sqlite3BitvecSize q = dv"
    using ok by (auto split: option.splits)
  have dv: "0 < dv" "dv < sz" "?b < 125" "i mod dv < dv" using new_divisor [OF t(1)] sub_index [OF t(1) i] t(2) by auto
  define sub where "sub = (case subs ! ?b of None \<Rightarrow> sqlite3BitvecCreate dv | Some q \<Rightarrow> q)"
  have at: "sub_at subs ?b = subs ! ?b" using dv t by (simp add: sub_at_def)
  have sub: "bv_ok sub" "sqlite3BitvecSize sub = dv"
    using qs [of ?b] create_ok [of dv] at by (auto simp: sub_def split: option.splits)
  have msub: "mem (apSub sz dv subs) j = mem sub (j mod dv)" if "j div dv = ?b" for j
    using that at create_mem [of "j mod dv" dv] dv(1) by (auto simp: sub_def split: option.splits)
  obtain ok' m1 where m1: "(if subs ! ?b = None then malloc m else (True, m)) = (ok', m1)" by fastforce
  then have mm: "m = [] \<Longrightarrow> ok' \<and> m1 = []" by (auto simp: malloc_def split: if_splits)
  obtain q rc m2 where q: "bv_set n m1 sub (i mod dv) = (q, rc, m2)" by (cases "bv_set n m1 sub (i mod dv)")
  have "rank sub \<le> n" using rank_le [of sub] sub(2) dv(2) n by simp
  then have sp: "set_spec sub {i mod dv} m1 (q, rc, m2)" using IH sub dv(4) q by metis
  have eq: "bv_set (Suc n) m (apSub sz dv subs) i =
      (if ok' then (apSub sz dv (subs[?b := Some q]), rc, m2) else (apSub sz dv subs, SQLITE_NOMEM, m1))"
    using m1 q unfolding sub_def by (simp add: Let_def split: prod.splits)
  have okq: "bv_ok (apSub sz dv (subs[?b := Some q]))"
  proof -
    have "bv_ok q" "sqlite3BitvecSize q = dv" using set_spec_rc [OF sp] sub(2) by auto
    then have "bv_ok q' \<and> sqlite3BitvecSize q' = dv" if "sub_at (subs[?b := Some q]) b = Some q'" for b q'
      using that qs [of b] dv(3) t(3) by (cases "b = ?b") (auto simp: sub_at_def split: if_splits)
    then show ?thesis using t by (simp split: option.splits)
  qed
  have mem': "mem (apSub sz dv (subs[?b := Some q])) j = (if j div dv = ?b then mem q (j mod dv) else mem (apSub sz dv subs) j)" for j
    using dv(3) t(3) by (auto simp: sub_at_def nth_list_update)
  have jm: "j div dv = ?b \<Longrightarrow> j mod dv = i mod dv \<Longrightarrow> j = i" for j by (metis div_mult_mod_eq)
  show ?thesis
  proof (cases ok')
    case True
    have md: "j mod dv < dv" for j using dv(1) by simp
    have "mem (apSub sz dv subs) j \<or> j = i" if "mem (apSub sz dv (subs[?b := Some q])) j" for j
      using that sp md [of j] jm [of j] msub [of j] sub(2) unfolding mem' set_spec_def by (auto split: if_splits)
    moreover have "mem (apSub sz dv (subs[?b := Some q])) j" if "rc = SQLITE_OK" "mem (apSub sz dv subs) j \<or> j = i" for j
      using that sp md [of j] msub [of j] sub(2) unfolding mem' set_spec_def by auto
    ultimately show ?thesis using okq sp mm True unfolding eq set_spec_def by auto
  next
    case False
    then show ?thesis using ok mm unfolding eq by (auto simp: set_spec_def)
  qed
qed

lemma bv_set_spec: "rank p \<le> n \<Longrightarrow> bv_ok p \<Longrightarrow> i < sqlite3BitvecSize p \<Longrightarrow> set_spec p {i} m (bv_set n m p i)"
proof (induction n arbitrary: m p i)
  case 0
  then show ?case by (cases p) auto
next
  case (Suc n)
  show ?case
  proof (cases p)
    case (aBitmap sz bm)
    then show ?thesis using Suc.prems bitmap_set [of i _ bm] by (auto simp: set_spec_def)
  next
    case (aHash sz k a)
    then show ?thesis using set_hash_spec [OF Suc.IH, of sz k a i m] Suc.prems by simp
  next
    case (apSub sz dv subs)
    then show ?thesis using set_sub_spec [OF Suc.IH, of sz dv subs i m] Suc.prems by simp
  qed
qed

section \<open>Clearing\<close>

lemma refill_spec:
  "tbl_ok a \<Longrightarrow> entries a + entries xs < BITVEC_NINT \<Longrightarrow> refill xs v (entries a) a = (n, a') \<Longrightarrow>
     tbl_ok a' \<and> n = entries a' \<and> set a' - {0} = (set a - {0}) \<union> (set xs - {0, v})"
proof (induction xs arbitrary: a)
  case (Cons x xs)
  show ?case
  proof (cases "x \<noteq> 0 \<and> x \<noteq> v")
    case True
    let ?h = "BITVEC_HASH (x - 1)"
    have a: "length a = 125" "entries a < 125" "?h < 125" using Cons.prems(1) by (auto simp: tbl_ok_def BITVEC_HASH_def)
    obtain d where d: "bv_probe a 0 ?h BITVEC_NINT = Some (slot ?h d)" "a ! slot ?h d = 0 \<or> a ! slot ?h d = 0"
      "\<forall>e < d. a ! slot ?h e \<noteq> 0 \<and> a ! slot ?h e \<noteq> 0" by (rule bv_probe_first [OF a])
    have en: "entries (x # xs) = entries xs + 1" using True by (simp add: entries_def)
    then have room: "entries a < BITVEC_NINT - 1" using Cons.prems(2) by simp
    have d2: "a ! slot ?h d = 0" "\<forall>e < d. a ! slot ?h e \<noteq> 0" using d(2,3) by auto
    have x0: "x \<noteq> 0" using True by simp
    note T = tbl_insert [OF Cons.prems(1) x0 d2 room]
    have "refill xs v (entries (a[slot ?h d := x])) (a[slot ?h d := x]) = (n, a')"
      using Cons.prems(3) True d(1) T(2) by (simp del: One_nat_def)
    moreover have "entries (a[slot ?h d := x]) + entries xs < BITVEC_NINT" unfolding T(2) using Cons.prems(2) en by simp
    ultimately have "tbl_ok a' \<and> n = entries a' \<and> set a' - {0} = (set (a[slot ?h d := x]) - {0}) \<union> (set xs - {0, v})"
      by (intro Cons.IH [OF T(1)])
    then show ?thesis using T(3) True by auto
  next
    case False
    then have "refill xs v (entries a) a = (n, a')" using Cons.prems(3) by auto
    moreover have "entries a + entries xs < BITVEC_NINT" using Cons.prems(2) by (simp add: entries_def split: if_splits)
    ultimately have "tbl_ok a' \<and> n = entries a' \<and> set a' - {0} = (set a - {0}) \<union> (set xs - {0, v})"
      by (intro Cons.IH [OF Cons.prems(1)])
    then show ?thesis using False by auto
  qed
qed simp

lemma bv_clear_spec:
  "bv_ok p \<Longrightarrow> i < sqlite3BitvecSize p \<Longrightarrow> bv_ok (bv_clear p i) \<and> sqlite3BitvecSize (bv_clear p i) = sqlite3BitvecSize p \<and>
     (\<forall>j < sqlite3BitvecSize p. mem (bv_clear p i) j \<longleftrightarrow> mem p j \<and> j \<noteq> i)"
proof (induction p i rule: bv_clear.induct)
  case (1 sz bm i)
  then show ?case using bitmap_clear [of i _ bm] by auto
next
  case (2 sz k a i)
  obtain n a' where r: "refill a (i + 1) 0 (replicate 125 0) = (n, a')" by (cases "refill a (i + 1) 0 (replicate 125 0)")
  have z: "entries (replicate BITVEC_NINT 0) = 0" by (rule tbl_empty)
  have "entries (replicate BITVEC_NINT 0) + entries a < BITVEC_NINT" unfolding z using "2.prems" by (simp add: tbl_ok_def)
  then have a': "tbl_ok a' \<and> n = entries a' \<and> set a' - {0} = (set (replicate BITVEC_NINT 0) - {0}) \<union> (set a - {0, i + 1})"
    using refill_spec [OF tbl_empty(1), of a "i + 1" n a'] r z by simp
  then have "v \<le> sz" if "v \<in> set a'" for v
    using that "2.prems"(1) by (cases "v = 0") auto
  moreover have "(j + 1 \<in> set a') = (j + 1 \<in> set a \<and> j \<noteq> i)" for j using a' by auto
  ultimately show ?case using "2.prems" a' r by auto
next
  case (3 sz dv subs i)
  let ?b = "i div dv"
  have t: "4000 < sz" "dv = new_divisor sz" "length subs = 125" and qs: "\<And>b q. sub_at subs b = Some q \<Longrightarrow> bv_ok q \<and> sqlite3BitvecSize q = dv"
    using "3.prems"(1) by (auto split: option.splits)
  have i: "i < sz" using "3.prems"(2) by simp
  have dv: "0 < dv" "?b < 125" "i mod dv < dv" using new_divisor [OF t(1)] sub_index [OF t(1) i] t(2) by auto
  have jm: "j div dv = ?b \<Longrightarrow> j mod dv = i mod dv \<Longrightarrow> j = i" for j by (metis div_mult_mod_eq)
  show ?case
  proof (cases "sub_at subs ?b")
    case None
    then have "\<not> mem (apSub sz dv subs) i" by simp
    then show ?thesis using "3.prems" None by auto
  next
    case (Some q)
    let ?q = "bv_clear q (i mod dv)"
    let ?subs = "subs[?b := Some ?q]"
    have q: "bv_ok ?q" "sqlite3BitvecSize ?q = dv" "\<forall>j < dv. mem ?q j \<longleftrightarrow> mem q j \<and> j \<noteq> i mod dv"
      using "3.IH" [OF Some] qs [OF Some] dv(3) by auto
    have "bv_ok q' \<and> sqlite3BitvecSize q' = dv" if "sub_at ?subs b = Some q'" for b q'
      using that qs [of b] q(1,2) dv(2) t(3) by (cases "b = ?b") (auto simp: sub_at_def split: if_splits)
    then have ok: "bv_ok (apSub sz dv ?subs)" using t by (simp split: option.splits)
    have "mem (apSub sz dv ?subs) j = (if j div dv = ?b then mem ?q (j mod dv) else mem (apSub sz dv subs) j)" for j
      using dv(2) t(3) by (auto simp: sub_at_def nth_list_update)
    moreover have "mem (apSub sz dv subs) j = mem q (j mod dv)" if "j div dv = ?b" for j using that Some by simp
    ultimately have "mem (apSub sz dv ?subs) j \<longleftrightarrow> mem (apSub sz dv subs) j \<and> j \<noteq> i" for j
      using q(3) dv(1) jm [of j] by (auto split: if_splits)
    then show ?thesis using ok Some by (simp del: bv_ok.simps mem.simps)
  qed
qed

section \<open>The interface: a set of page numbers\<close>

definition bv_valid :: "bitvec option \<Rightarrow> bool" where
  "bv_valid p = (case p of None \<Rightarrow> False | Some q \<Rightarrow> bv_ok q)"

definition bv_cap :: "bitvec option \<Rightarrow> nat" where
  "bv_cap p = (case p of None \<Rightarrow> 0 | Some q \<Rightarrow> sqlite3BitvecSize q)"

lemma bitvec_test: "bv_valid p \<Longrightarrow> sqlite3BitvecTest p j \<longleftrightarrow> 1 \<le> j \<and> j \<le> bv_cap p \<and> mem (the p) (j - 1)"
  using test_mem [of "the p" "j - 1"]
  by (cases p) (auto simp: bv_valid_def bv_cap_def sqlite3BitvecTest_def sqlite3BitvecTestNotNull_def)

datatype bv_op = BvSet nat | BvClear nat

fun bv_op_index :: "bv_op \<Rightarrow> nat" where
  "bv_op_index (BvSet i) = i"
| "bv_op_index (BvClear i) = i"

text \<open>A history of operations: the final state, and whether every one returned \<^verbatim>\<open>SQLITE_OK\<close>.\<close>

fun history :: "('m \<Rightarrow> 's \<Rightarrow> nat \<Rightarrow> 's \<times> int \<times> 'm) \<Rightarrow> ('s \<Rightarrow> nat \<Rightarrow> 's) \<Rightarrow> bv_op list \<Rightarrow> 'm \<Rightarrow> 's \<Rightarrow> bool \<times> 's" where
  "history st cl [] m s = (True, s)"
| "history st cl (BvSet i # ops) m s =
     (case st m s i of (s, rc, m) \<Rightarrow> case history st cl ops m s of (ok, s) \<Rightarrow> (ok \<and> rc = SQLITE_OK, s))"
| "history st cl (BvClear i # ops) m s = history st cl ops m (cl s i)"

fun set_history :: "bv_op list \<Rightarrow> nat set \<Rightarrow> nat set" where
  "set_history [] X = X"
| "set_history (BvSet i # ops) X = set_history ops (insert i X)"
| "set_history (BvClear i # ops) X = set_history ops (X - {i})"

lemma set_history_mono: "X \<subseteq> Y \<Longrightarrow> set_history ops X \<subseteq> set_history ops Y"
proof (induction ops arbitrary: X Y)
  case (Cons a ops)
  show ?case
  proof (cases a)
    case (BvSet i)
    have "insert i X \<subseteq> insert i Y" using Cons.prems by blast
    then show ?thesis unfolding BvSet set_history.simps by (rule Cons.IH)
  next
    case (BvClear i)
    have "X - {i} \<subseteq> Y - {i}" using Cons.prems by blast
    then show ?thesis unfolding BvClear set_history.simps by (rule Cons.IH)
  qed
qed simp

locale index_set =
  fixes tst :: "'s \<Rightarrow> nat \<Rightarrow> bool" and st :: "'m \<Rightarrow> 's \<Rightarrow> nat \<Rightarrow> 's \<times> int \<times> 'm" and cl :: "'s \<Rightarrow> nat \<Rightarrow> 's"
    and inv :: "'s \<Rightarrow> bool" and cap :: "'s \<Rightarrow> nat"
  assumes set_keeps: "inv s \<Longrightarrow> 1 \<le> i \<Longrightarrow> i \<le> cap s \<Longrightarrow> st m s i = (s', rc, m') \<Longrightarrow> inv s' \<and> cap s' = cap s"
    and set_sound: "inv s \<Longrightarrow> 1 \<le> i \<Longrightarrow> i \<le> cap s \<Longrightarrow> st m s i = (s', rc, m') \<Longrightarrow> tst s' j \<Longrightarrow> tst s j \<or> j = i"
    and set_complete: "inv s \<Longrightarrow> 1 \<le> i \<Longrightarrow> i \<le> cap s \<Longrightarrow> st m s i = (s', SQLITE_OK, m') \<Longrightarrow> tst s j \<or> j = i \<Longrightarrow> tst s' j"
    and clear_keeps: "inv s \<Longrightarrow> 1 \<le> i \<Longrightarrow> i \<le> cap s \<Longrightarrow> inv (cl s i) \<and> cap (cl s i) = cap s"
    and clear_exact: "inv s \<Longrightarrow> 1 \<le> i \<Longrightarrow> i \<le> cap s \<Longrightarrow> tst (cl s i) j \<longleftrightarrow> tst s j \<and> j \<noteq> i"
begin

lemma history_sets:
  "inv s \<Longrightarrow> \<forall>p \<in> set ops. 1 \<le> bv_op_index p \<and> bv_op_index p \<le> cap s \<Longrightarrow> history st cl ops m s = (ok, s') \<Longrightarrow>
     inv s' \<and> cap s' = cap s \<and> Collect (tst s') \<subseteq> set_history ops (Collect (tst s)) \<and>
     (ok \<longrightarrow> Collect (tst s') = set_history ops (Collect (tst s)))"
proof (induction ops arbitrary: m s ok)
  case (Cons a ops)
  show ?case
  proof (cases a)
    case (BvSet i)
    obtain s1 rc m1 where r: "st m s i = (s1, rc, m1)" by (cases "st m s i")
    obtain ok1 where h: "history st cl ops m1 s1 = (ok1, s')" "ok = (ok1 \<and> rc = SQLITE_OK)"
      using Cons.prems(3) BvSet r by (auto split: prod.splits)
    have i: "1 \<le> i" "i \<le> cap s" using Cons.prems(2) BvSet by auto
    note k = set_keeps [OF Cons.prems(1) i r]
    have IH: "inv s' \<and> cap s' = cap s1 \<and> Collect (tst s') \<subseteq> set_history ops (Collect (tst s1)) \<and>
       (ok1 \<longrightarrow> Collect (tst s') = set_history ops (Collect (tst s1)))"
      using k Cons.prems(2) by (intro Cons.IH [OF _ _ h(1)]) auto
    have "Collect (tst s1) \<subseteq> insert i (Collect (tst s))" using set_sound [OF Cons.prems(1) i r] by auto
    then have up: "set_history ops (Collect (tst s1)) \<subseteq> set_history ops (insert i (Collect (tst s)))" by (rule set_history_mono)
    have "Collect (tst s1) = insert i (Collect (tst s))" if "rc = SQLITE_OK"
      using set_sound [OF Cons.prems(1) i r] set_complete [OF Cons.prems(1) i r [unfolded that]] by auto
    then show ?thesis using IH up h(2) k BvSet by auto
  next
    case (BvClear i)
    have i: "1 \<le> i" "i \<le> cap s" using Cons.prems(2) BvClear by auto
    note k = clear_keeps [OF Cons.prems(1) i]
    have "Collect (tst (cl s i)) = Collect (tst s) - {i}" using clear_exact [OF Cons.prems(1) i] by auto
    moreover have "inv s' \<and> cap s' = cap (cl s i) \<and> Collect (tst s') \<subseteq> set_history ops (Collect (tst (cl s i))) \<and>
       (ok \<longrightarrow> Collect (tst s') = set_history ops (Collect (tst (cl s i))))"
      using k Cons.prems(2,3) BvClear by (intro Cons.IH) auto
    ultimately show ?thesis using k BvClear by simp
  qed
qed simp

end

lemma BitvecSet_spec:
  assumes "bv_valid p" "1 \<le> i" "i \<le> bv_cap p" "sqlite3BitvecSet m p i = (p', rc, m')"
  shows "bv_valid p'" "bv_cap p' = bv_cap p" "sqlite3BitvecTest p' j \<Longrightarrow> sqlite3BitvecTest p j \<or> j = i"
    "rc = SQLITE_OK \<Longrightarrow> sqlite3BitvecTest p j \<or> j = i \<Longrightarrow> sqlite3BitvecTest p' j"
    "rc = SQLITE_OK \<or> rc = SQLITE_NOMEM" "m = [] \<Longrightarrow> rc = SQLITE_OK" "m = [] \<Longrightarrow> m' = []"
proof -
  obtain q where q: "p = Some q" "bv_ok q" "i - 1 < sqlite3BitvecSize q" using assms(1-3) by (auto simp: bv_valid_def bv_cap_def split: option.splits)
  obtain q' where q': "p' = Some q'" and r: "bv_set (2 * sqlite3BitvecSize q + 2) m q (i - 1) = (q', rc, m')"
    using assms(4) q(1) by (auto simp: sqlite3BitvecSet_def split: prod.splits)
  have sp: "set_spec q {i - 1} m (q', rc, m')" using bv_set_spec [OF rank_le q(2,3), of m] r by simp
  then show v: "bv_valid p'" "bv_cap p' = bv_cap p" "rc = SQLITE_OK \<or> rc = SQLITE_NOMEM" "m = [] \<Longrightarrow> rc = SQLITE_OK" "m = [] \<Longrightarrow> m' = []"
    by (auto simp: set_spec_def bv_valid_def bv_cap_def q q')
  have sound: "mem q (j - 1) \<or> j = i" if "mem q' (j - 1)" "1 \<le> j" "j \<le> sqlite3BitvecSize q"
  proof -
    have "j - 1 < sqlite3BitvecSize q" using that(2,3) by linarith
    then have "mem q (j - 1) \<or> j - 1 = i - 1" using sp that(1) by (simp add: set_spec_def del: One_nat_def)
    then show ?thesis using that(2) assms(2) by linarith
  qed
  have complete: "mem q' (j - 1)" if "rc = SQLITE_OK" "mem q (j - 1) \<or> j = i" "1 \<le> j" "j \<le> sqlite3BitvecSize q"
  proof -
    have "j - 1 < sqlite3BitvecSize q" using that(3,4) by linarith
    then show ?thesis using sp that(1,2) by (auto simp: set_spec_def simp del: One_nat_def)
  qed
  show "sqlite3BitvecTest p' j \<Longrightarrow> sqlite3BitvecTest p j \<or> j = i"
    using sound assms(2) unfolding bitvec_test [OF v(1)] bitvec_test [OF assms(1)] v(2) by (auto simp: bv_cap_def q q')
  show "rc = SQLITE_OK \<Longrightarrow> sqlite3BitvecTest p j \<or> j = i \<Longrightarrow> sqlite3BitvecTest p' j"
    using complete assms(2,3) unfolding bitvec_test [OF v(1)] bitvec_test [OF assms(1)] v(2) by (auto simp: bv_cap_def q q')
qed

lemma BitvecClear_spec:
  assumes "bv_valid p" "1 \<le> i" "i \<le> bv_cap p"
  shows "bv_valid (sqlite3BitvecClear p i)" "bv_cap (sqlite3BitvecClear p i) = bv_cap p"
    "sqlite3BitvecTest (sqlite3BitvecClear p i) j \<longleftrightarrow> sqlite3BitvecTest p j \<and> j \<noteq> i"
proof -
  obtain q where q: "p = Some q" "bv_ok q" "i - 1 < sqlite3BitvecSize q" using assms(1-3) by (auto simp: bv_valid_def bv_cap_def split: option.splits)
  note c = bv_clear_spec [OF q(2,3)]
  show v: "bv_valid (sqlite3BitvecClear p i)" "bv_cap (sqlite3BitvecClear p i) = bv_cap p"
    using c by (auto simp: bv_valid_def bv_cap_def q(1) sqlite3BitvecClear_def)
  have "mem (bv_clear q (i - 1)) (j - 1) \<longleftrightarrow> mem q (j - 1) \<and> j \<noteq> i" if "1 \<le> j" "j \<le> sqlite3BitvecSize q"
  proof -
    have "j - 1 < sqlite3BitvecSize q" using that by linarith
    then have "mem (bv_clear q (i - 1)) (j - 1) \<longleftrightarrow> mem q (j - 1) \<and> j - 1 \<noteq> i - 1" using c by (simp del: One_nat_def)
    then show ?thesis using that assms(2) by (auto simp del: One_nat_def)
  qed
  then show "sqlite3BitvecTest (sqlite3BitvecClear p i) j \<longleftrightarrow> sqlite3BitvecTest p j \<and> j \<noteq> i"
    using assms(2) unfolding bitvec_test [OF v(1)] bitvec_test [OF assms(1)] v(2) by (auto simp: bv_cap_def sqlite3BitvecClear_def q(1))
qed

interpretation bv: index_set sqlite3BitvecTest sqlite3BitvecSet sqlite3BitvecClear bv_valid bv_cap
proof unfold_locales
  fix s i m s' rc m' assume a: "bv_valid s" "1 \<le> i" "i \<le> bv_cap s" "sqlite3BitvecSet m s i = (s', rc, m')"
  show "bv_valid s' \<and> bv_cap s' = bv_cap s" using BitvecSet_spec(1,2) [OF a] by simp
  show "sqlite3BitvecTest s' j \<Longrightarrow> sqlite3BitvecTest s j \<or> j = i" for j by (rule BitvecSet_spec(3) [OF a])
next
  fix s i m s' m' j assume a: "bv_valid s" "1 \<le> i" "i \<le> bv_cap s" "sqlite3BitvecSet m s i = (s', SQLITE_OK, m')"
  show "sqlite3BitvecTest s j \<or> j = i \<Longrightarrow> sqlite3BitvecTest s' j" by (rule BitvecSet_spec(4) [OF a refl])
next
  fix s i j assume a: "bv_valid s" "1 \<le> i" "i \<le> bv_cap s"
  show "bv_valid (sqlite3BitvecClear s i) \<and> bv_cap (sqlite3BitvecClear s i) = bv_cap s" using BitvecClear_spec(1,2) [OF a] by simp
  show "sqlite3BitvecTest (sqlite3BitvecClear s i) j \<longleftrightarrow> sqlite3BitvecTest s j \<and> j \<noteq> i" by (rule BitvecClear_spec(3) [OF a])
qed

lemma create_valid: "bv_valid (Some (sqlite3BitvecCreate sz))" "bv_cap (Some (sqlite3BitvecCreate sz)) = sz"
  "Collect (sqlite3BitvecTest (Some (sqlite3BitvecCreate sz))) = {}"
proof -
  show v: "bv_valid (Some (sqlite3BitvecCreate sz))" "bv_cap (Some (sqlite3BitvecCreate sz)) = sz"
    using create_ok [of sz] by (simp_all add: bv_valid_def bv_cap_def)
  show "Collect (sqlite3BitvecTest (Some (sqlite3BitvecCreate sz))) = {}"
    using create_mem [of _ sz] by (auto simp: bitvec_test [OF v(1)] v(2) Suc_le_eq [symmetric])
qed

text \<open>C27: A bitmap of any size, filled by any sequence of \<^verbatim>\<open>sqlite3BitvecSet\<close> and
  \<^verbatim>\<open>sqlite3BitvecClear\<close> calls with indices in range, through every change of representation, never
  reports a number that a set with the same operations would not hold, even if allocations fail; and
  when every call returned \<^verbatim>\<open>SQLITE_OK\<close> it reports exactly the numbers of that set.\<close>

theorem bitvec_history:
  assumes "\<forall>p \<in> set ops. 1 \<le> bv_op_index p \<and> bv_op_index p \<le> sz"
    and "history sqlite3BitvecSet sqlite3BitvecClear ops m (Some (sqlite3BitvecCreate sz)) = (ok, p)"
  shows "(sqlite3BitvecTest p i \<longrightarrow> i \<in> set_history ops {}) \<and> (ok \<longrightarrow> (sqlite3BitvecTest p i \<longleftrightarrow> i \<in> set_history ops {}))"
proof -
  have r: "\<forall>p \<in> set ops. 1 \<le> bv_op_index p \<and> bv_op_index p \<le> bv_cap (Some (sqlite3BitvecCreate sz))" using assms(1) create_valid(2) by simp
  note h = bv.history_sets [OF create_valid(1) r assms(2), unfolded create_valid(3)]
  then show ?thesis by auto
qed

lemma history_ok:
  "bv_valid s \<Longrightarrow> \<forall>p \<in> set ops. 1 \<le> bv_op_index p \<and> bv_op_index p \<le> bv_cap s \<Longrightarrow>
     \<exists>p. history sqlite3BitvecSet sqlite3BitvecClear ops [] s = (True, p)"
proof (induction ops arbitrary: s)
  case (Cons a ops)
  show ?case
  proof (cases a)
    case (BvSet i)
    obtain s1 rc m1 where r: "sqlite3BitvecSet [] s i = (s1, rc, m1)" by (cases "sqlite3BitvecSet [] s i")
    have i: "1 \<le> i" "i \<le> bv_cap s" using Cons.prems(2) BvSet by auto
    note sp = BitvecSet_spec(1,2,6,7) [OF Cons.prems(1) i r]
    then have "\<exists>p. history sqlite3BitvecSet sqlite3BitvecClear ops [] s1 = (True, p)" using Cons.prems(2) by (intro Cons.IH) auto
    then show ?thesis using BvSet r sp by auto
  next
    case (BvClear i)
    have i: "1 \<le> i" "i \<le> bv_cap s" using Cons.prems(2) BvClear by auto
    show ?thesis using BitvecClear_spec(1,2) [OF Cons.prems(1) i] Cons.prems(2) BvClear by (auto intro!: Cons.IH)
  qed
qed simp

lemma set_history_map: "set_history (map BvSet xs @ ops) X = set_history ops (X \<union> set xs)"
  by (induction xs arbitrary: X) auto

theorem bitvec_history_witness:
  "\<exists>p. history sqlite3BitvecSet sqlite3BitvecClear (map BvSet [1..<200] @ [BvClear 70, BvSet 5000]) [] (Some (sqlite3BitvecCreate 5000)) = (True, p) \<and>
     sqlite3BitvecTest p 199 \<and> sqlite3BitvecTest p 5000 \<and> \<not> sqlite3BitvecTest p 70 \<and> \<not> sqlite3BitvecTest p 300"
proof -
  let ?ops = "map BvSet [1..<200] @ [BvClear 70, BvSet 5000]"
  have r: "\<forall>p \<in> set ?ops. 1 \<le> bv_op_index p \<and> bv_op_index p \<le> 5000" by auto
  then have "\<forall>p \<in> set ?ops. 1 \<le> bv_op_index p \<and> bv_op_index p \<le> bv_cap (Some (sqlite3BitvecCreate 5000))" unfolding create_valid(2) .
  then obtain p where p: "history sqlite3BitvecSet sqlite3BitvecClear ?ops [] (Some (sqlite3BitvecCreate 5000)) = (True, p)"
    using history_ok [OF create_valid(1)] by blast
  have "sqlite3BitvecTest p i \<longleftrightarrow> i \<in> set_history ?ops {}" for i using bitvec_history [OF r p] by blast
  then show ?thesis using p by (auto simp: set_history_map)
qed

end
