(* ===== verification/Rowset.thy ===== *)
theory Rowset
  imports Prelude "HOL-Library.Tree"
begin

text \<open>
  Sets of rowids (\<^verbatim>\<open>rowset.c\<close>). Entries linked through \<^verbatim>\<open>pRight\<close> are lists, entries linked through
  both pointers are trees; the forest is the list of the trees that hang at \<^verbatim>\<open>pLeft\<close> of its entries.
  Rowids are integers. Entries come from chunks whose allocation may fail.
\<close>

section \<open>The structure\<close>

record rowset =
  pEntry :: "int list"
  pLast :: "int option"
  pForest :: "int tree list"
  nFresh :: nat
  rsSorted :: bool
  rsNext :: bool
  iBatch :: int

text \<open>\<^verbatim>\<open>(ROWSET_ALLOCATION_SIZE-8)/sizeof(struct RowSetEntry)\<close> with the 32-bit pointers of the target.\<close>

definition ROWSET_ENTRY_PER_CHUNK :: nat where
  "ROWSET_ENTRY_PER_CHUNK = (1024 - 8) div (8 + 4 + 4)"

definition sqlite3RowSetInit :: "nat \<Rightarrow> rowset" where
  "sqlite3RowSetInit n = \<lparr>pEntry = [], pLast = None, pForest = [], nFresh = n, rsSorted = True, rsNext = False, iBatch = 0\<rparr>"

definition sqlite3RowSetClear :: "rowset \<Rightarrow> rowset" where
  "sqlite3RowSetClear p = p\<lparr>nFresh := 0, pEntry := [], pLast := None, pForest := [], rsSorted := True, rsNext := False\<rparr>"

definition rowSetEntryAlloc :: "outcomes \<Rightarrow> rowset \<Rightarrow> rowset \<times> bool \<times> outcomes" where
  "rowSetEntryAlloc mem p =
     (if nFresh p = 0 then
        (case malloc mem of
           (False, mem) \<Rightarrow> (p, False, mem)
         | (True, mem) \<Rightarrow> (p\<lparr>nFresh := ROWSET_ENTRY_PER_CHUNK - 1\<rparr>, True, mem))
      else (p\<lparr>nFresh := nFresh p - 1\<rparr>, True, mem))"

definition sqlite3RowSetInsert :: "outcomes \<Rightarrow> rowset \<Rightarrow> int \<Rightarrow> rowset \<times> outcomes" where
  "sqlite3RowSetInsert mem p rowid =
     (case rowSetEntryAlloc mem p of
        (p, False, mem) \<Rightarrow> (p, mem)
      | (p, True, mem) \<Rightarrow>
          (case pLast p of
             Some v \<Rightarrow> (p\<lparr>rsSorted := (if rowid \<le> v then False else rsSorted p), pEntry := pEntry p @ [rowid], pLast := Some rowid\<rparr>, mem)
           | None \<Rightarrow> (p\<lparr>pEntry := [rowid], pLast := Some rowid\<rparr>, mem)))"

section \<open>Sorting\<close>

text \<open>Both lists are not empty where the code calls this; one of two equal entries is dropped.\<close>

fun rowSetEntryMerge :: "int list \<Rightarrow> int list \<Rightarrow> int list" where
  "rowSetEntryMerge [] pB = pB"
| "rowSetEntryMerge pA [] = pA"
| "rowSetEntryMerge (a # pA) (b # pB) =
     (if a \<le> b then
        (if a < b then a # (if pA = [] then b # pB else rowSetEntryMerge pA (b # pB))
         else if pA = [] then b # pB else rowSetEntryMerge pA (b # pB))
      else b # (if pB = [] then a # pA else rowSetEntryMerge (a # pA) pB))"

text \<open>The inner loop on \<^verbatim>\<open>aBucket\<close>, an empty list being a null pointer; \<^const>\<open>None\<close> stands for an access behind the array.\<close>

fun bucket_add :: "int list list \<Rightarrow> int list \<Rightarrow> int list list option" where
  "bucket_add [] pIn = None"
| "bucket_add (b # bs) pIn =
     (if b = [] then Some (pIn # bs) else map_option ((#) []) (bucket_add bs (rowSetEntryMerge b pIn)))"

fun bucket_all :: "int list list \<Rightarrow> int list \<Rightarrow> int list list option" where
  "bucket_all bs [] = Some bs"
| "bucket_all bs (v # pIn) = (case bucket_add bs [v] of None \<Rightarrow> None | Some bs \<Rightarrow> bucket_all bs pIn)"

fun bucket_merge :: "int list \<Rightarrow> int list list \<Rightarrow> int list" where
  "bucket_merge pIn [] = pIn"
| "bucket_merge pIn (b # bs) =
     (if b = [] then bucket_merge pIn bs
      else bucket_merge (if pIn \<noteq> [] then rowSetEntryMerge pIn b else b) bs)"

definition rowSetEntrySort :: "int list \<Rightarrow> int list option" where
  "rowSetEntrySort pIn = map_option (\<lambda>bs. bucket_merge (hd bs) (tl bs)) (bucket_all (replicate 40 []) pIn)"

section \<open>Trees\<close>

fun rowSetTreeToList :: "int tree \<Rightarrow> int list" where
  "rowSetTreeToList Leaf = []"
| "rowSetTreeToList (Node l v r) =
     (if l \<noteq> Leaf then rowSetTreeToList l else []) @ v # (if r \<noteq> Leaf then rowSetTreeToList r else [])"

function rowSetNDeepTree :: "int list \<Rightarrow> nat \<Rightarrow> int tree \<times> int list" where
  "rowSetNDeepTree pList iDepth =
     (if pList = [] then (Leaf, [])
      else if iDepth > 1 then
        (case rowSetNDeepTree pList (iDepth - 1) of
           (pLeft, []) \<Rightarrow> (pLeft, [])
         | (pLeft, v # pList) \<Rightarrow>
             (case rowSetNDeepTree pList (iDepth - 1) of (pRight, pList) \<Rightarrow> (Node pLeft v pRight, pList)))
      else (Node Leaf (hd pList) Leaf, tl pList))"
  by pat_completeness auto
termination by (relation "measure snd") auto

declare rowSetNDeepTree.simps [simp del]

lemma ndeep_inorder: "rowSetNDeepTree xs d = (t, ys) \<Longrightarrow> inorder t @ ys = xs"
proof (induction xs d arbitrary: t ys rule: rowSetNDeepTree.induct)
  case (1 xs d)
  show ?case
  proof (cases "xs \<noteq> [] \<and> d > 1")
    case True
    obtain l zs where l: "rowSetNDeepTree xs (d - 1) = (l, zs)" by (cases "rowSetNDeepTree xs (d - 1)")
    have il: "inorder l @ zs = xs" using "1.IH"(1) [OF _ _ l] True by blast
    show ?thesis
    proof (cases zs)
      case Nil
      then show ?thesis using "1.prems" True l il by (simp add: rowSetNDeepTree.simps [of xs d])
    next
      case (Cons v ws)
      obtain r us where r: "rowSetNDeepTree ws (d - 1) = (r, us)" by (cases "rowSetNDeepTree ws (d - 1)")
      have "inorder r @ us = ws" using "1.IH"(2) [OF _ _ l [symmetric] Cons r] True by simp
      then show ?thesis using "1.prems" True l il r Cons by (auto simp: rowSetNDeepTree.simps [of xs d])
    qed
  next
    case False
    then show ?thesis using "1.prems" [unfolded rowSetNDeepTree.simps [of xs d]] by (cases xs) (auto split: if_splits)
  qed
qed

lemma ndeep_length [simp]: "length (snd (rowSetNDeepTree xs d)) \<le> length xs"
  using ndeep_inorder [of xs d] by (metis length_append le_add2 prod.collapse)

text \<open>The loop of \<^verbatim>\<open>rowSetListToTree\<close>.\<close>

function grow_tree :: "int tree \<Rightarrow> int list \<Rightarrow> nat \<Rightarrow> int tree" where
  "grow_tree p [] iDepth = p"
| "grow_tree p (v # pList) iDepth =
     grow_tree (Node p v (fst (rowSetNDeepTree pList iDepth))) (snd (rowSetNDeepTree pList iDepth)) (iDepth + 1)"
  by pat_completeness auto
termination by (relation "measure (\<lambda>(p, xs, d). length xs)") (auto simp: less_Suc_eq_le)

definition rowSetListToTree :: "int list \<Rightarrow> int tree" where
  "rowSetListToTree pList = grow_tree (Node Leaf (hd pList) Leaf) (tl pList) 1"

section \<open>Reading and testing\<close>

definition sqlite3RowSetNext :: "rowset \<Rightarrow> (rowset \<times> int option) option" where
  "sqlite3RowSetNext p =
     do {
       e \<leftarrow> (if \<not> rsNext p \<and> \<not> rsSorted p then rowSetEntrySort (pEntry p) else Some (pEntry p));
       let p = p\<lparr>pEntry := e, rsSorted := (if rsNext p then rsSorted p else True), rsNext := True\<rparr>;
       Some (case e of
               v # r \<Rightarrow> (if r = [] then sqlite3RowSetClear p else p\<lparr>pEntry := r\<rparr>, Some v)
             | [] \<Rightarrow> (p, None))
     }"

text \<open>The loop over the forest that finds a place for the sorted entries; the flag says whether one was found.\<close>

fun forest_place :: "int tree list \<Rightarrow> int list \<Rightarrow> int tree list \<times> int list \<times> bool" where
  "forest_place [] p = ([], p, False)"
| "forest_place (t # ts) p =
     (if t = Leaf then (rowSetListToTree p # ts, p, True)
      else case forest_place ts (rowSetEntryMerge (rowSetTreeToList t) p) of (ts, p, b) \<Rightarrow> (Leaf # ts, p, b))"

fun tree_test :: "int tree \<Rightarrow> int \<Rightarrow> bool" where
  "tree_test Leaf iRowid = False"
| "tree_test (Node l v r) iRowid =
     (if v < iRowid then tree_test r iRowid else if v > iRowid then tree_test l iRowid else True)"

definition rowset_batch :: "outcomes \<Rightarrow> rowset \<Rightarrow> (rowset \<times> outcomes) option" where
  "rowset_batch mem s =
     (if pEntry s = [] then Some (s, mem)
      else do {
        p \<leftarrow> (if \<not> rsSorted s then rowSetEntrySort (pEntry s) else Some (pEntry s));
        let (ts, p, found) = forest_place (pForest s) p;
        let (s, ts, mem) =
          (if found then (s, ts, mem)
           else case rowSetEntryAlloc mem s of (s, ok, mem) \<Rightarrow> (s, if ok then ts @ [rowSetListToTree p] else ts, mem));
        Some (s\<lparr>pForest := ts, pEntry := [], pLast := None, rsSorted := True\<rparr>, mem)
      })"

definition sqlite3RowSetTest :: "outcomes \<Rightarrow> rowset \<Rightarrow> int \<Rightarrow> int \<Rightarrow> (rowset \<times> bool \<times> outcomes) option" where
  "sqlite3RowSetTest mem s batch iRowid =
     do {
       (s, mem) \<leftarrow> (if batch \<noteq> iBatch s then map_option (\<lambda>(s, mem). (s\<lparr>iBatch := batch\<rparr>, mem)) (rowset_batch mem s) else Some (s, mem));
       Some (s, \<exists>t \<in> set (pForest s). tree_test t iRowid, mem)
     }"

section \<open>Correctness of the parts\<close>

abbreviation ascending :: "int list \<Rightarrow> bool" where "ascending \<equiv> sorted_wrt (<)"

lemma merge_correct:
  "ascending xs \<Longrightarrow> ascending ys \<Longrightarrow> ascending (rowSetEntryMerge xs ys) \<and> set (rowSetEntryMerge xs ys) = set xs \<union> set ys"
  by (induction xs ys rule: rowSetEntryMerge.induct) (auto simp: not_le)

lemma merge_Nil [simp]: "rowSetEntryMerge xs ys = [] \<longleftrightarrow> xs = [] \<and> ys = []"
  by (induction xs ys rule: rowSetEntryMerge.induct) auto

text \<open>
  The buckets count in binary: bucket \<open>i\<close>, when it is not empty, stands for \<open>2 ^ i\<close> entries that were
  merged. The measure below bounds how often the last bucket can be left.
\<close>

fun weight :: "int list list \<Rightarrow> nat" where
  "weight [] = 0"
| "weight (b # bs) = (if b = [] then 0 else 1) + 2 * weight bs"

lemma bucket_add_correct:
  assumes "\<forall>b \<in> set bs. ascending b" "ascending p" "p \<noteq> []" "weight bs + 1 < 2 ^ length bs"
  shows "\<exists>bs'. bucket_add bs p = Some bs' \<and> length bs' = length bs \<and> weight bs' = weight bs + 1 \<and>
    (\<forall>b \<in> set bs'. ascending b) \<and> \<Union> (set ` set bs') = set p \<union> \<Union> (set ` set bs)"
  using assms
proof (induction bs arbitrary: p)
  case (Cons b bs)
  show ?case
  proof (cases "b = []")
    case True
    then show ?thesis using Cons.prems by auto
  next
    case False
    note m = merge_correct [of b p]
    have "weight bs + 1 < 2 ^ length bs" using Cons.prems(4) False by simp
    with Cons.IH [of "rowSetEntryMerge b p"] m Cons.prems False obtain bs' where
      "bucket_add bs (rowSetEntryMerge b p) = Some bs'" "length bs' = length bs" "weight bs' = weight bs + 1" "\<forall>b \<in> set bs'. ascending b"
      "\<Union> (set ` set bs') = set (rowSetEntryMerge b p) \<union> \<Union> (set ` set bs)" by auto
    then show ?thesis using False m Cons.prems by auto
  qed
qed simp

lemma bucket_all_correct:
  assumes "\<forall>b \<in> set bs. ascending b" "weight bs + length xs < 2 ^ length bs"
  shows "\<exists>bs'. bucket_all bs xs = Some bs' \<and> length bs' = length bs \<and> (\<forall>b \<in> set bs'. ascending b) \<and> \<Union> (set ` set bs') = set xs \<union> \<Union> (set ` set bs)"
  using assms
proof (induction xs arbitrary: bs)
  case (Cons x xs)
  from bucket_add_correct [of bs "[x]"] Cons.prems obtain bs1 where
    b: "bucket_add bs [x] = Some bs1" "length bs1 = length bs" "weight bs1 = weight bs + 1" "\<forall>b \<in> set bs1. ascending b"
      "\<Union> (set ` set bs1) = {x} \<union> \<Union> (set ` set bs)" by auto
  from Cons.IH [of bs1] b Cons.prems show ?case by auto
qed simp

lemma bucket_merge_correct:
  "ascending p \<Longrightarrow> \<forall>b \<in> set bs. ascending b \<Longrightarrow> ascending (bucket_merge p bs) \<and> set (bucket_merge p bs) = set p \<union> \<Union> (set ` set bs)"
proof (induction p bs rule: bucket_merge.induct)
  case (2 p b bs)
  then show ?case using merge_correct [of p b] by (auto simp: Let_def)
qed simp

lemma sort_correct:
  assumes "length xs < 2 ^ 40"
  shows "\<exists>ys. rowSetEntrySort xs = Some ys \<and> ascending ys \<and> set ys = set xs"
proof -
  have "weight (replicate n []) = 0" for n by (induction n) auto
  then obtain bs where b: "bucket_all (replicate 40 []) xs = Some bs" "length bs = 40" "\<forall>b \<in> set bs. ascending b" "\<Union> (set ` set bs) = set xs"
    using bucket_all_correct [of "replicate 40 []" xs] assms by auto
  obtain b0 bs1 where "bs = b0 # bs1" using b(2) by (cases bs) auto
  then show ?thesis using b bucket_merge_correct [of b0 bs1] by (auto simp: rowSetEntrySort_def)
qed

lemma treeToList_inorder [simp]: "rowSetTreeToList t = inorder t"
  by (induction t) auto

lemma grow_inorder: "inorder (grow_tree p xs d) = inorder p @ xs"
proof (induction p xs d rule: grow_tree.induct)
  case (2 p v xs d)
  then show ?case using ndeep_inorder [of xs d "fst (rowSetNDeepTree xs d)" "snd (rowSetNDeepTree xs d)"] by simp
qed simp

lemma listToTree_inorder: "xs \<noteq> [] \<Longrightarrow> inorder (rowSetListToTree xs) = xs"
  by (simp add: rowSetListToTree_def grow_inorder)

lemma tree_test_correct: "bst t \<Longrightarrow> tree_test t x \<longleftrightarrow> x \<in> set_tree t"
  by (induction t) auto

section \<open>Invariant and abstraction\<close>

definition rowset_ok :: "rowset \<Rightarrow> bool" where
  "rowset_ok s \<longleftrightarrow> \<not> rsNext s \<and> (rsSorted s \<longrightarrow> ascending (pEntry s)) \<and>
     pLast s = (if pEntry s = [] then None else Some (last (pEntry s))) \<and> (\<forall>t \<in> set (pForest s). bst t)"

definition visible :: "rowset \<Rightarrow> int set" where
  "visible s = \<Union> (set_tree ` set (pForest s))"

lemma alloc_fields:
  assumes "rowSetEntryAlloc mem s = (s', ok, mem')"
  shows "pEntry s' = pEntry s" "pLast s' = pLast s" "pForest s' = pForest s" "rsSorted s' = rsSorted s" "rsNext s' = rsNext s" "iBatch s' = iBatch s"
    "False \<notin> set mem \<Longrightarrow> ok \<and> False \<notin> set mem'"
  using assms by (auto simp: rowSetEntryAlloc_def malloc_def split: if_splits list.splits bool.splits)

lemma ascending_last: "ascending xs \<Longrightarrow> x \<in> set xs \<Longrightarrow> x \<le> last xs"
proof (induction xs)
  case (Cons a xs)
  then show ?case using last_in_set [of xs] by (cases "xs = []") (auto intro: less_imp_le)
qed simp

lemma ascending_snoc: "ascending (xs @ [x]) \<longleftrightarrow> ascending xs \<and> (xs \<noteq> [] \<longrightarrow> last xs < x)"
  using ascending_last by (fastforce simp: sorted_wrt_append)

lemma insert_ok:
  assumes "rowset_ok s" "sqlite3RowSetInsert mem s x = (s', mem')"
  shows "rowset_ok s'" "visible s' = visible s" "iBatch s' = iBatch s" "set (pEntry s') \<subseteq> insert x (set (pEntry s))"
    "length (pEntry s') \<le> Suc (length (pEntry s))"
    "False \<notin> set mem \<Longrightarrow> pEntry s' = pEntry s @ [x] \<and> False \<notin> set mem'"
proof -
  obtain s1 ok m1 where a: "rowSetEntryAlloc mem s = (s1, ok, m1)" using prod_cases3 by blast
  note f = alloc_fields [OF a]
  show "rowset_ok s'" "visible s' = visible s" "iBatch s' = iBatch s" "set (pEntry s') \<subseteq> insert x (set (pEntry s))"
    "length (pEntry s') \<le> Suc (length (pEntry s))"
    "False \<notin> set mem \<Longrightarrow> pEntry s' = pEntry s @ [x] \<and> False \<notin> set mem'"
    using assms a f by (auto simp: sqlite3RowSetInsert_def rowset_ok_def visible_def ascending_snoc split: bool.splits option.splits if_splits)
qed

lemma forest_place_correct:
  assumes "\<forall>t \<in> set ts. bst t" "ascending p" "p \<noteq> []" "forest_place ts p = (ts', p', found)"
  shows "\<forall>t \<in> set ts'. bst t" "ascending p'" "p' \<noteq> []"
    "\<Union> (set_tree ` set ts') \<union> (if found then {} else set p') = \<Union> (set_tree ` set ts) \<union> set p"
proof -
  have "(\<forall>t \<in> set ts'. bst t) \<and> ascending p' \<and> p' \<noteq> [] \<and>
      \<Union> (set_tree ` set ts') \<union> (if found then {} else set p') = \<Union> (set_tree ` set ts) \<union> set p"
    using assms
  proof (induction ts p arbitrary: ts' p' found rule: forest_place.induct)
    case (2 t ts p)
    show ?case
    proof (cases "t = Leaf")
      case True
      have "bst (rowSetListToTree p)" "set_tree (rowSetListToTree p) = set p"
        using listToTree_inorder [OF "2.prems"(3)] "2.prems"(2) by (simp_all add: bst_iff_sorted_wrt_less flip: set_inorder)
      then show ?thesis using True "2.prems" by auto
    next
      case False
      obtain us q b where u: "forest_place ts (rowSetEntryMerge (inorder t) p) = (us, q, b)" using prod_cases3 by blast
      have m: "ascending (rowSetEntryMerge (inorder t) p)" "set (rowSetEntryMerge (inorder t) p) = set_tree t \<union> set p"
        using merge_correct [of "inorder t" p] "2.prems"(1,2) by (simp_all add: bst_iff_sorted_wrt_less)
      have "(\<forall>t \<in> set us. bst t) \<and> ascending q \<and> q \<noteq> [] \<and> \<Union> (set_tree ` set us) \<union> (if b then {} else set q) =
          \<Union> (set_tree ` set ts) \<union> set (rowSetEntryMerge (inorder t) p)"
        using "2.IH" [OF False, of us q b] u m "2.prems" by auto
      moreover have "ts' = Leaf # us" "p' = q" "found = b" using "2.prems"(4) False u by auto
      ultimately show ?thesis using m(2) by auto
    qed
  qed auto
  then show "\<forall>t \<in> set ts'. bst t" "ascending p'" "p' \<noteq> []"
    "\<Union> (set_tree ` set ts') \<union> (if found then {} else set p') = \<Union> (set_tree ` set ts) \<union> set p" by blast+
qed

lemma batch_ok:
  assumes ok: "rowset_ok s" and n: "length (pEntry s) < 2 ^ 40"
  shows "\<exists>s' mem'. rowset_batch mem s = Some (s', mem') \<and> rowset_ok s' \<and> pEntry s' = [] \<and> visible s' \<subseteq> visible s \<union> set (pEntry s) \<and>
    (False \<notin> set mem \<longrightarrow> visible s' = visible s \<union> set (pEntry s) \<and> False \<notin> set mem')"
proof (cases "pEntry s = []")
  case True
  then show ?thesis using ok by (simp add: rowset_batch_def)
next
  case False
  obtain p where p: "(if \<not> rsSorted s then rowSetEntrySort (pEntry s) else Some (pEntry s)) = Some p" "ascending p" "set p = set (pEntry s)"
    using sort_correct [OF n] ok by (cases "rsSorted s") (auto simp: rowset_ok_def)
  then have "p \<noteq> []" using False by auto
  obtain ts q b where f: "forest_place (pForest s) p = (ts, q, b)" using prod_cases3 by blast
  note F = forest_place_correct [OF _ p(2) \<open>p \<noteq> []\<close> f]
  have bs: "\<forall>t \<in> set (pForest s). bst t" using ok by (simp add: rowset_ok_def)
  have q: "bst (rowSetListToTree q)" "set_tree (rowSetListToTree q) = set q"
    using listToTree_inorder [OF F(3) [OF bs]] F(2) [OF bs] by (simp_all add: bst_iff_sorted_wrt_less flip: set_inorder)
  obtain s1 a m1 where al: "rowSetEntryAlloc mem s = (s1, a, m1)" using prod_cases3 by blast
  note A = alloc_fields [OF al]
  show ?thesis
  proof (cases b)
    case True
    then show ?thesis using False p(1,3) f ok F(1) [OF bs] F(4) [OF bs]
      by (simp add: rowset_batch_def rowset_ok_def visible_def)
  next
    case nf: False
    let ?s = "s1\<lparr>pForest := (if a then ts @ [rowSetListToTree q] else ts), pEntry := [], pLast := None, rsSorted := True\<rparr>"
    have "rowset_batch mem s = Some (?s, m1)" using False p(1) f nf al by (simp add: rowset_batch_def)
    moreover have "rowset_ok ?s" using ok A F(1) [OF bs] q(1) by (auto simp: rowset_ok_def)
    moreover have "visible ?s \<subseteq> visible s \<union> set (pEntry s)" "a \<longrightarrow> visible ?s = visible s \<union> set (pEntry s)"
      using F(4) [OF bs] q(2) nf p(3) by (auto simp: visible_def)
    ultimately show ?thesis using A(7) by auto
  qed
qed

lemma test_ok:
  assumes ok: "rowset_ok s" and n: "length (pEntry s) < 2 ^ 40"
  shows "\<exists>s' b mem'. sqlite3RowSetTest mem s batch x = Some (s', b, mem') \<and> rowset_ok s' \<and> iBatch s' = batch \<and>
    (if batch = iBatch s then s' = s \<and> mem' = mem else pEntry s' = [] \<and> visible s' \<subseteq> visible s \<union> set (pEntry s) \<and>
       (False \<notin> set mem \<longrightarrow> visible s' = visible s \<union> set (pEntry s) \<and> False \<notin> set mem')) \<and> b = (x \<in> visible s')"
proof -
  have m: "(\<exists>t \<in> set (pForest s'). tree_test t x) = (x \<in> visible s')" if "rowset_ok s'" for s'
    using that tree_test_correct by (auto simp: rowset_ok_def visible_def)
  show ?thesis
  proof (cases "batch = iBatch s")
    case True
    then show ?thesis using m [OF ok] ok by (simp add: sqlite3RowSetTest_def)
  next
    case False
    obtain s1 m1 where b: "rowset_batch mem s = Some (s1, m1)" "rowset_ok s1" "pEntry s1 = []" "visible s1 \<subseteq> visible s \<union> set (pEntry s)"
        "False \<notin> set mem \<longrightarrow> visible s1 = visible s \<union> set (pEntry s) \<and> False \<notin> set m1" using batch_ok [OF ok n] by blast
    have ok': "rowset_ok (s1\<lparr>iBatch := batch\<rparr>)" "visible (s1\<lparr>iBatch := batch\<rparr>) = visible s1" using b(2) by (simp_all add: rowset_ok_def visible_def)
    show ?thesis using False b m [OF ok'(1)] ok' by (simp add: sqlite3RowSetTest_def)
  qed
qed

section \<open>Histories\<close>

text \<open>A program that inserts and tests, and what it should be answered: a test sees what was inserted before
  the last change of the batch number.\<close>

datatype rs_op = RsInsert int | RsTest int int

fun rs_run :: "outcomes \<Rightarrow> rowset \<Rightarrow> rs_op list \<Rightarrow> bool list option" where
  "rs_run mem s [] = Some []"
| "rs_run mem s (RsInsert x # ops) = (case sqlite3RowSetInsert mem s x of (s, mem) \<Rightarrow> rs_run mem s ops)"
| "rs_run mem s (RsTest batch x # ops) =
     (case sqlite3RowSetTest mem s batch x of None \<Rightarrow> None | Some (s, b, mem) \<Rightarrow> map_option ((#) b) (rs_run mem s ops))"

fun rs_spec :: "int set \<Rightarrow> int set \<Rightarrow> int \<Rightarrow> rs_op list \<Rightarrow> bool list" where
  "rs_spec old new n [] = []"
| "rs_spec old new n (RsInsert x # ops) = rs_spec old (insert x new) n ops"
| "rs_spec old new n (RsTest batch x # ops) =
     (if batch = n then (x \<in> old) # rs_spec old new n ops
      else (x \<in> old \<union> new) # rs_spec (old \<union> new) {} batch ops)"

lemma rs_run_correct:
  assumes "rowset_ok s" "length (pEntry s) + length ops < 2 ^ 40" "visible s \<subseteq> old" "set (pEntry s) \<subseteq> new"
    "exact \<longrightarrow> False \<notin> set mem \<and> visible s = old \<and> set (pEntry s) = new"
  shows "\<exists>bs. rs_run mem s ops = Some bs \<and> list_all2 (\<longrightarrow>) bs (rs_spec old new (iBatch s) ops) \<and> (exact \<longrightarrow> bs = rs_spec old new (iBatch s) ops)"
  using assms
proof (induction ops arbitrary: mem s old new)
  case (Cons op ops)
  show ?case
  proof (cases op)
    case (RsInsert x)
    obtain s1 m1 where i: "sqlite3RowSetInsert mem s x = (s1, m1)" by (cases "sqlite3RowSetInsert mem s x")
    note I = insert_ok [OF Cons.prems(1) i]
    have "\<exists>bs. rs_run m1 s1 ops = Some bs \<and> list_all2 (\<longrightarrow>) bs (rs_spec old (insert x new) (iBatch s1) ops) \<and> (exact \<longrightarrow> bs = rs_spec old (insert x new) (iBatch s1) ops)"
      by (rule Cons.IH) (use I Cons.prems in auto)
    then show ?thesis using RsInsert i I(3) by simp
  next
    case (RsTest batch x)
    have n: "length (pEntry s) < 2 ^ 40" using Cons.prems(2) by simp
    obtain s1 b m1 where t: "sqlite3RowSetTest mem s batch x = Some (s1, b, m1)" "rowset_ok s1" "iBatch s1 = batch" "b = (x \<in> visible s1)"
      and T: "if batch = iBatch s then s1 = s \<and> m1 = mem else pEntry s1 = [] \<and> visible s1 \<subseteq> visible s \<union> set (pEntry s) \<and>
       (False \<notin> set mem \<longrightarrow> visible s1 = visible s \<union> set (pEntry s) \<and> False \<notin> set m1)" using test_ok [OF Cons.prems(1) n] by blast
    define old' new' where "old' = (if batch = iBatch s then old else old \<union> new)" and "new' = (if batch = iBatch s then new else {})"
    have v: "visible s1 \<subseteq> old'" "exact \<longrightarrow> visible s1 = old'" using T Cons.prems(3-5) by (auto simp: old'_def split: if_splits)
    have "\<exists>bs. rs_run m1 s1 ops = Some bs \<and> list_all2 (\<longrightarrow>) bs (rs_spec old' new' (iBatch s1) ops) \<and> (exact \<longrightarrow> bs = rs_spec old' new' (iBatch s1) ops)"
      by (rule Cons.IH) (use T t v Cons.prems in \<open>auto simp: new'_def split: if_splits\<close>)
    moreover have "rs_spec old new (iBatch s) (op # ops) = (x \<in> old') # rs_spec old' new' batch ops" by (simp add: RsTest old'_def new'_def)
    ultimately show ?thesis using RsTest t v by auto
  qed
qed simp

text \<open>C36: A row set answers membership tests as a set with batches: in any sequence of fewer than 2^40 insertions
  and tests, a test says yes only for a rowid inserted before the last change of the batch number, and
  when no allocation fails exactly for those. The sort never runs off its forty buckets.\<close>

theorem rowset_history:
  assumes "length ops < 2 ^ 40"
  shows "\<exists>bs. rs_run mem (sqlite3RowSetInit n) ops = Some bs \<and> list_all2 (\<longrightarrow>) bs (rs_spec {} {} 0 ops) \<and>
    (False \<notin> set mem \<longrightarrow> bs = rs_spec {} {} 0 ops)"
proof -
  have "rowset_ok (sqlite3RowSetInit n)" "visible (sqlite3RowSetInit n) = {}" "pEntry (sqlite3RowSetInit n) = []" "iBatch (sqlite3RowSetInit n) = 0"
    by (simp_all add: sqlite3RowSetInit_def rowset_ok_def visible_def)
  then show ?thesis using rs_run_correct [of "sqlite3RowSetInit n" ops "{}" "{}" "False \<notin> set mem" mem] assms by simp
qed

theorem rowset_history_witness:
  "rs_run [] (sqlite3RowSetInit 2) [RsInsert 5, RsInsert 3, RsTest 1 5, RsInsert 9, RsTest 1 9, RsTest 2 9] = Some [True, False, True]"
  using rowset_history [of "[RsInsert 5, RsInsert 3, RsTest 1 5, RsInsert 9, RsTest 1 9, RsTest 2 9]" "[]" 2] by auto

section \<open>Reading in order\<close>

fun rs_insert_all :: "outcomes \<Rightarrow> rowset \<Rightarrow> int list \<Rightarrow> rowset" where
  "rs_insert_all mem s [] = s"
| "rs_insert_all mem s (x # xs) = (case sqlite3RowSetInsert mem s x of (s, mem) \<Rightarrow> rs_insert_all mem s xs)"

fun rs_read :: "nat \<Rightarrow> rowset \<Rightarrow> int option list option" where
  "rs_read 0 s = Some []"
| "rs_read (Suc n) s = (case sqlite3RowSetNext s of None \<Rightarrow> None | Some (s, r) \<Rightarrow> map_option ((#) r) (rs_read n s))"

lemma insert_all_ok:
  "rowset_ok s \<Longrightarrow> False \<notin> set mem \<Longrightarrow> rowset_ok (rs_insert_all mem s xs) \<and> pEntry (rs_insert_all mem s xs) = pEntry s @ xs"
proof (induction xs arbitrary: mem s)
  case (Cons x xs)
  obtain s1 m1 where i: "sqlite3RowSetInsert mem s x = (s1, m1)" by (cases "sqlite3RowSetInsert mem s x")
  then show ?case using insert_ok [OF Cons.prems(1) i] Cons.IH [of s1 m1] Cons.prems(2) by simp
qed simp

lemma read_sorted:
  "rsNext s \<or> rsSorted s \<Longrightarrow> rs_read n s = Some (map Some (take n (pEntry s)) @ replicate (n - length (pEntry s)) None)"
proof (induction n arbitrary: s)
  case (Suc n)
  show ?case
  proof (cases "pEntry s")
    case Nil
    then show ?thesis using Suc.IH [of "s\<lparr>pEntry := [], rsSorted := (if rsNext s then rsSorted s else True), rsNext := True\<rparr>"] Suc.prems
      by (auto simp: sqlite3RowSetNext_def)
  next
    case (Cons v r)
    let ?t = "s\<lparr>pEntry := v # r, rsSorted := (if rsNext s then rsSorted s else True), rsNext := True\<rparr>"
    have "sqlite3RowSetNext s = Some (if r = [] then sqlite3RowSetClear ?t else ?t\<lparr>pEntry := r\<rparr>, Some v)"
      using Cons Suc.prems by (auto simp: sqlite3RowSetNext_def)
    moreover have "rs_read n (if r = [] then sqlite3RowSetClear ?t else ?t\<lparr>pEntry := r\<rparr>) = Some (map Some (take n r) @ replicate (n - length r) None)"
      using Suc.IH [of "sqlite3RowSetClear ?t"] Suc.IH [of "?t\<lparr>pEntry := r\<rparr>"] by (simp add: sqlite3RowSetClear_def)
    ultimately show ?thesis using Cons by simp
  qed
qed simp

text \<open>Reading a row set returns what was inserted, without duplicates and in ascending order, and then
  reports the end, for fewer than 2^40 insertions whose allocations succeed.\<close>

theorem rowset_read_sorted:
  assumes "length xs < 2 ^ 40" "False \<notin> set mem"
  shows "rs_read n (rs_insert_all mem (sqlite3RowSetInit k) xs) =
    Some (map Some (take n (sorted_list_of_set (set xs))) @ replicate (n - card (set xs)) None)"
proof -
  let ?s = "rs_insert_all mem (sqlite3RowSetInit k) xs"
  have "rowset_ok (sqlite3RowSetInit k)" "pEntry (sqlite3RowSetInit k) = []" by (simp_all add: sqlite3RowSetInit_def rowset_ok_def)
  then have ok: "rowset_ok ?s" "pEntry ?s = xs" using insert_all_ok [of "sqlite3RowSetInit k" mem xs] assms(2) by simp_all
  have asc: "ys = sorted_list_of_set (set xs)" "length ys = card (set xs)" if "ascending ys" "set ys = set xs" for ys
    using that by (metis sorted_list_of_set.idem_if_sorted_distinct strict_sorted_iff, metis distinct_card strict_sorted_iff)
  show ?thesis
  proof (cases "rsSorted ?s")
    case True
    then show ?thesis using read_sorted [of ?s n] ok asc [of xs] by (simp add: rowset_ok_def)
  next
    case False
    obtain ys where ys: "rowSetEntrySort xs = Some ys" "ascending ys" "set ys = set xs" using sort_correct [OF assms(1)] by blast
    have e: "sqlite3RowSetNext ?s = sqlite3RowSetNext (?s\<lparr>pEntry := ys, rsSorted := True\<rparr>)"
      using False ok ys by (simp add: sqlite3RowSetNext_def rowset_ok_def)
    have "rs_read n ?s = rs_read n (?s\<lparr>pEntry := ys, rsSorted := True\<rparr>)" by (cases n) (simp_all add: e)
    then show ?thesis using read_sorted [of "?s\<lparr>pEntry := ys, rsSorted := True\<rparr>" n] asc [OF ys(2,3)] by simp
  qed
qed

theorem rowset_read_sorted_witness:
  "rs_read 4 (rs_insert_all [] (sqlite3RowSetInit 0) [7, -2, 7, 4]) = Some [Some (-2), Some 4, Some 7, None]"
proof -
  have s: "set [7, -2, 7, 4] = set [-2, 4, 7::int]" by auto
  have l: "sorted_list_of_set (set [-2, 4, 7::int]) = [-2, 4, 7]" by (rule sorted_list_of_set.idem_if_sorted_distinct) simp_all
  have "card (set [-2, 4, 7::int]) = 3" by simp
  then show ?thesis using rowset_read_sorted [of "[7, -2, 7, 4]" "[]" 4 0, unfolded s l] by simp
qed

end
