(* ===== verification/Utf.thy ===== *)
theory Utf
  imports Prelude
begin

text \<open>
  Conversion between UTF-8, UTF-16 and code points (\<^verbatim>\<open>utf.c\<close>). Strings are byte lists; the terminator
  of a zero-terminated string is not part of the list, so reading from an empty list returns zero.
\<close>

section \<open>Single characters\<close>

definition sqlite3Utf8Trans1 :: "u8 list" where
  "sqlite3Utf8Trans1 = [
     0x00, 0x01, 0x02, 0x03, 0x04, 0x05, 0x06, 0x07, 0x08, 0x09, 0x0a, 0x0b, 0x0c, 0x0d, 0x0e, 0x0f,
     0x10, 0x11, 0x12, 0x13, 0x14, 0x15, 0x16, 0x17, 0x18, 0x19, 0x1a, 0x1b, 0x1c, 0x1d, 0x1e, 0x1f,
     0x00, 0x01, 0x02, 0x03, 0x04, 0x05, 0x06, 0x07, 0x08, 0x09, 0x0a, 0x0b, 0x0c, 0x0d, 0x0e, 0x0f,
     0x00, 0x01, 0x02, 0x03, 0x04, 0x05, 0x06, 0x07, 0x00, 0x01, 0x02, 0x03, 0x00, 0x01, 0x00, 0x00]"

definition WRITE_UTF8 :: "u32 \<Rightarrow> bytes" where
  "WRITE_UTF8 c =
     (if c < 0x80 then [ucast (c AND 0xFF)]
      else if c < 0x800 then [0xC0 + ucast (drop_bit 6 c AND 0x1F), 0x80 + ucast (c AND 0x3F)]
      else if c < 0x10000 then
        [0xE0 + ucast (drop_bit 12 c AND 0x0F), 0x80 + ucast (drop_bit 6 c AND 0x3F), 0x80 + ucast (c AND 0x3F)]
      else
        [0xF0 + ucast (drop_bit 18 c AND 0x07), 0x80 + ucast (drop_bit 12 c AND 0x3F),
         0x80 + ucast (drop_bit 6 c AND 0x3F), 0x80 + ucast (c AND 0x3F)])"

definition sqlite3AppendOneUtf8Character :: "u32 \<Rightarrow> bytes \<times> nat" where
  "sqlite3AppendOneUtf8Character v =
     (if v < 0x80 then ([ucast (v AND 0xff)], 1)
      else if v < 0x800 then ([0xc0 + ucast (drop_bit 6 v AND 0x1f), 0x80 + ucast (v AND 0x3f)], 2)
      else if v < 0x10000 then
        ([0xe0 + ucast (drop_bit 12 v AND 0x0f), 0x80 + ucast (drop_bit 6 v AND 0x3f), 0x80 + ucast (v AND 0x3f)], 3)
      else
        ([0xf0 + ucast (drop_bit 18 v AND 0x07), 0x80 + ucast (drop_bit 12 v AND 0x3f),
          0x80 + ucast (drop_bit 6 v AND 0x3f), 0x80 + ucast (v AND 0x3f)], 4))"

definition WRITE_UTF16BE :: "u32 \<Rightarrow> bytes" where
  "WRITE_UTF16BE c =
     (if c \<le> 0xFFFF then [ucast (drop_bit 8 c AND 0x00FF), ucast (c AND 0x00FF)]
      else
        [ucast (0x00D8 + (drop_bit 18 (c - 0x10000) AND 0x03)),
         ucast ((drop_bit 10 c AND 0x003F) + (drop_bit 10 (c - 0x10000) AND 0x00C0)),
         ucast (0x00DC + (drop_bit 8 c AND 0x03)), ucast (c AND 0x00FF)])"

definition WRITE_UTF16LE :: "u32 \<Rightarrow> bytes" where
  "WRITE_UTF16LE c =
     (if c \<le> 0xFFFF then [ucast (c AND 0x00FF), ucast (drop_bit 8 c AND 0x00FF)]
      else
        [ucast ((drop_bit 10 c AND 0x003F) + (drop_bit 10 (c - 0x10000) AND 0x00C0)),
         ucast (0x00D8 + (drop_bit 18 (c - 0x10000) AND 0x03)),
         ucast (c AND 0x00FF), ucast (0x00DC + (drop_bit 8 c AND 0x03))])"

definition cont :: "u8 \<Rightarrow> bool" where
  "cont b \<longleftrightarrow> b AND 0xc0 = 0x80"

text \<open>The loop over continuation bytes.\<close>

fun utf8_more :: "u32 \<Rightarrow> bytes \<Rightarrow> u32 \<times> bytes" where
  "utf8_more c [] = (c, [])"
| "utf8_more c (b # z) = (if cont b then utf8_more (push_bit 6 c + (0x3f AND ucast b)) z else (c, b # z))"

definition utf8_check :: "u32 \<Rightarrow> u32" where
  "utf8_check c = (if c < 0x80 \<or> c AND 0xFFFFF800 = 0xD800 \<or> c AND 0xFFFFFFFE = 0xFFFE then 0xFFFD else c)"

fun READ_UTF8 :: "bytes \<Rightarrow> u32 \<times> bytes" where
  "READ_UTF8 [] = (0, [])"
| "READ_UTF8 (b # z) =
     (if b \<ge> 0xc0 then
        (case utf8_more (ucast (sqlite3Utf8Trans1 ! unat (b - 0xc0))) z of (c, z) \<Rightarrow> (utf8_check c, z))
      else (ucast b, z))"

definition sqlite3Utf8Read :: "bytes \<Rightarrow> u32 \<times> bytes" where
  "sqlite3Utf8Read z =
     (case z of
        [] \<Rightarrow> (0, [])
      | b # z \<Rightarrow>
          let c = ucast b :: u32 in
          if c \<ge> 0xc0 then
            (case utf8_more (ucast (sqlite3Utf8Trans1 ! unat (c - 0xc0))) z of (c, z) \<Rightarrow> (utf8_check c, z))
          else (c, z))"

text \<open>\<^verbatim>\<open>sqlite3Utf8ReadLimited\<close> on \<open>n\<close> bytes: the character and the number of bytes used.\<close>

fun limited_more :: "u32 \<Rightarrow> bytes \<Rightarrow> nat \<Rightarrow> nat \<Rightarrow> u32 \<times> nat" where
  "limited_more c [] i n = (c, i)"
| "limited_more c (b # z) i n =
     (if i < n \<and> cont b then limited_more (push_bit 6 c + (0x3f AND ucast b)) z (i + 1) n else (c, i))"

fun sqlite3Utf8ReadLimited :: "bytes \<Rightarrow> nat \<Rightarrow> (u32 \<times> nat) option" where
  "sqlite3Utf8ReadLimited [] n = None"
| "sqlite3Utf8ReadLimited (b # z) n =
     Some (if (ucast b :: u32) \<ge> 0xc0
           then limited_more (ucast (sqlite3Utf8Trans1 ! unat (b - 0xc0))) z 1 (if n > 4 then 4 else n)
           else (ucast b, 1))"

fun SQLITE_SKIP_UTF8 :: "bytes \<Rightarrow> bytes" where
  "SQLITE_SKIP_UTF8 [] = []"
| "SQLITE_SKIP_UTF8 (b # z) = (if b \<ge> 0xc0 then dropWhile cont z else z)"

lemma skip_length [simp]: "length (SQLITE_SKIP_UTF8 (b # z)) \<le> length z"
  by (simp add: length_dropWhile_le)

text \<open>\<^verbatim>\<open>sqlite3Utf8CharLen\<close>; the limit is the number of bytes before \<^verbatim>\<open>zTerm\<close>, if there is one.\<close>

function sqlite3Utf8CharLen :: "bytes \<Rightarrow> nat option \<Rightarrow> nat" where
  "sqlite3Utf8CharLen [] nByte = 0"
| "sqlite3Utf8CharLen (b # z) nByte =
     (if nByte = Some 0 then 0
      else let z' = SQLITE_SKIP_UTF8 (b # z) in
        1 + sqlite3Utf8CharLen z' (map_option (\<lambda>n. n - (Suc (length z) - length z')) nByte))"
  by pat_completeness auto
termination by (relation "measure (\<lambda>(z, n). length z)") (simp_all add: less_Suc_eq_le length_dropWhile_le)

section \<open>Whole strings\<close>

record memstr =
  mz :: bytes
  menc :: nat

abbreviation (input) SQLITE_UTF8 :: nat where "SQLITE_UTF8 \<equiv> 1"
abbreviation (input) SQLITE_UTF16LE :: nat where "SQLITE_UTF16LE \<equiv> 2"
abbreviation (input) SQLITE_UTF16BE :: nat where "SQLITE_UTF16BE \<equiv> 3"

lemma utf8_more_length: "length (snd (utf8_more c z)) \<le> length z"
  by (induction c z rule: utf8_more.induct) auto

lemma READ_UTF8_length: "length (snd (READ_UTF8 (b # z))) \<le> length z"
  using utf8_more_length [of "ucast (sqlite3Utf8Trans1 ! unat (b - 0xc0))" z] by (auto split: prod.splits)

function from_utf8 :: "(u32 \<Rightarrow> bytes) \<Rightarrow> bytes \<Rightarrow> bytes" where
  "from_utf8 wr [] = []"
| "from_utf8 wr (b # z) = wr (fst (READ_UTF8 (b # z))) @ from_utf8 wr (snd (READ_UTF8 (b # z)))"
  by pat_completeness auto
termination
  by (relation "measure (\<lambda>(wr, z). length z)") (simp_all only: in_measure wf_measure prod.case, use READ_UTF8_length less_Suc_eq_le in simp)

text \<open>A 16-bit unit from two bytes, and the loop from UTF-16; a surrogate is combined with the unit behind it.\<close>

definition unit16 :: "bool \<Rightarrow> u8 \<Rightarrow> u8 \<Rightarrow> u32" where
  "unit16 be b1 b2 = (if be then push_bit 8 (ucast b1) + ucast b2 else ucast b1 + push_bit 8 (ucast b2))"

definition surrogate :: "u32 \<Rightarrow> u32 \<Rightarrow> u32" where
  "surrogate c c2 = (c2 AND 0x03FF) + push_bit 10 (c AND 0x003F) + push_bit 10 ((c AND 0x03C0) + 0x0040)"

fun from_utf16 :: "bool \<Rightarrow> bytes \<Rightarrow> bytes" where
  "from_utf16 be (b1 # b2 # z) =
     (let c = unit16 be b1 b2 in
      if c \<ge> 0xd800 \<and> c < 0xe000 then
        (case z of
           b3 # b4 # z \<Rightarrow> WRITE_UTF8 (surrogate c (unit16 be b3 b4)) @ from_utf16 be z
         | _ \<Rightarrow> WRITE_UTF8 c @ from_utf16 be z)
      else WRITE_UTF8 c @ from_utf16 be z)"
| "from_utf16 be _ = []"

fun swap_bytes :: "bytes \<Rightarrow> bytes" where
  "swap_bytes (a # b # z) = b # a # swap_bytes z"
| "swap_bytes z = z"

definition sqlite3VdbeMemTranslate :: "outcomes \<Rightarrow> memstr \<Rightarrow> nat \<Rightarrow> memstr \<times> int \<times> outcomes" where
  "sqlite3VdbeMemTranslate mem m desiredEnc =
     (case malloc mem of
        (False, mem) \<Rightarrow> (if desiredEnc = SQLITE_UTF8 then m\<lparr>mz := take (length (mz m) div 2 * 2) (mz m)\<rparr> else m, SQLITE_NOMEM, mem)
      | (True, mem) \<Rightarrow>
          (\<lparr>mz = (if menc m \<noteq> SQLITE_UTF8 \<and> desiredEnc \<noteq> SQLITE_UTF8 then swap_bytes (mz m)
                  else if menc m = SQLITE_UTF8 then
                    (if desiredEnc = SQLITE_UTF16LE then from_utf8 WRITE_UTF16LE (mz m) else from_utf8 WRITE_UTF16BE (mz m))
                  else from_utf16 (menc m = SQLITE_UTF16BE) (mz m)),
            menc = desiredEnc\<rparr>, SQLITE_OK, mem))"

definition sqlite3VdbeMemHandleBom :: "outcomes \<Rightarrow> memstr \<Rightarrow> memstr \<times> int \<times> outcomes" where
  "sqlite3VdbeMemHandleBom mem m =
     (case (case mz m of
              b1 # b2 # z \<Rightarrow> (if b1 = 0xFF \<and> b2 = 0xFE then SQLITE_UTF16LE else if b1 = 0xFE \<and> b2 = 0xFF then SQLITE_UTF16BE else 0)
            | _ \<Rightarrow> 0) of
        0 \<Rightarrow> (m, SQLITE_OK, mem)
      | bom \<Rightarrow>
          (case malloc mem of
             (False, mem) \<Rightarrow> (m, SQLITE_NOMEM, mem)
           | (True, mem) \<Rightarrow> (\<lparr>mz = drop 2 (mz m), menc = bom\<rparr>, SQLITE_OK, mem)))"

section \<open>Reading back what was written\<close>

text \<open>Proofs go through the numbers: every byte is a digit of the code point to the base 64 behind a tag.\<close>

lemma mask_values: "(0x3F :: 'a :: len word) = mask 6" "(0x1F :: 'a word) = mask 5" "(0x0F :: 'a word) = mask 4" "(0x07 :: 'a word) = mask 3"
  "(0xFF :: 'a word) = mask 8" "(0x03 :: 'a word) = mask 2" "(0x3FF :: 'a word) = mask 10"
  by (simp_all add: mask_eq_exp_minus_1)

lemma unat_and_mask: "unat (c AND mask k) = unat c mod 2 ^ k" for c :: "'a::len word"
  by (simp only: unsigned_take_bit_eq take_bit_eq_mask [symmetric] take_bit_eq_mod [of k "unat c"])

lemma unat_drop: "unat (drop_bit k c) = unat c div 2 ^ k" for c :: "'a::len word"
  by (subst unat_drop_bit_eq) (rule drop_bit_eq_div)

lemma unat_byte: "m \<le> 8 \<Longrightarrow> unat (ucast (drop_bit k (c :: u32) AND mask m) :: u8) = unat c div 2 ^ k mod 2 ^ m"
proof -
  assume m: "m \<le> 8"
  have "unat c div 2 ^ k mod 2 ^ m < 2 ^ m" by simp
  also have "(2::nat) ^ m \<le> 2 ^ 8" by (rule power_increasing [OF m]) simp
  finally have "unat c div 2 ^ k mod 2 ^ m < 256" by simp
  then show ?thesis by (simp add: unsigned_ucast_eq take_bit_eq_mod unat_and_mask unat_drop)
qed

lemmas unat_byte0 = unat_byte [where k = 0, simplified]

lemma unat_tag: "unat (t + w :: u8) = unat t + unat w" if "unat t + unat w < 256"
  using that by (simp add: unat_word_ariths)

lemma and_push_mask: "n AND push_bit k (mask m) = push_bit k (take_bit m (drop_bit k n))" for n :: nat
  by (rule bit_eqI) (auto simp: bit_simps)

lemma cont_unat: "cont b \<longleftrightarrow> unat b div 64 = 2"
proof -
  have "push_bit 6 (mask 2) = (192 :: nat)" by (simp add: mask_eq_exp_minus_1)
  then have "unat b AND 192 = push_bit 6 (take_bit 2 (drop_bit 6 (unat b)))" using and_push_mask [of "unat b" 6 2] by simp
  also have "\<dots> = 64 * (unat b div 64 mod 4)" by (simp add: push_bit_eq_mult take_bit_eq_mod drop_bit_eq_div)
  also have "unat b div 64 mod 4 = unat b div 64" using unat_u8_less [of b] by simp
  finally have "unat (b AND 0xc0) = 64 * (unat b div 64)" by (simp add: unsigned_and_eq)
  moreover have "b AND 0xc0 = 0x80 \<longleftrightarrow> unat (b AND 0xc0) = 128" by (simp add: word_unat_eq_iff)
  ultimately show ?thesis by (simp add: cont_def)
qed

definition utf_char :: "u32 \<Rightarrow> bool" where
  "utf_char c \<longleftrightarrow> unat c < 0x110000 \<and> unat c div 2048 \<noteq> 27 \<and> unat c div 2 \<noteq> 0x7FFF"

lemma unat_and_high:
  "unat (c AND 0xFFFFF800) = 2048 * (unat c div 2048)" "unat (c AND 0xFFFFFFFE) = 2 * (unat c div 2)" for c :: u32
proof -
  have "push_bit 11 (mask 21) = (0xFFFFF800 :: nat)" "push_bit 1 (mask 31) = (0xFFFFFFFE :: nat)" by (simp_all add: mask_eq_exp_minus_1)
  then have "unat c AND 0xFFFFF800 = push_bit 11 (take_bit 21 (drop_bit 11 (unat c)))" "unat c AND 0xFFFFFFFE = push_bit 1 (take_bit 31 (drop_bit 1 (unat c)))"
    using and_push_mask [of "unat c" 11 21] and_push_mask [of "unat c" 1 31] by simp_all
  moreover have "unat c div 2048 < 2 ^ 21" "unat c div 2 < 2 ^ 31" using unat_u32_less [of c] by simp_all
  ultimately show "unat (c AND 0xFFFFF800) = 2048 * (unat c div 2048)" "unat (c AND 0xFFFFFFFE) = 2 * (unat c div 2)"
    by (simp_all add: unsigned_and_eq push_bit_eq_mult take_bit_eq_mod drop_bit_eq_div)
qed

lemma utf8_check_id: "utf_char c \<Longrightarrow> 128 \<le> unat c \<Longrightarrow> utf8_check c = c"
proof -
  assume "utf_char c" "128 \<le> unat c"
  moreover have "c AND 0xFFFFF800 = 0xD800 \<longleftrightarrow> unat (c AND 0xFFFFF800) = 0xD800" "c AND 0xFFFFFFFE = 0xFFFE \<longleftrightarrow> unat (c AND 0xFFFFFFFE) = 0xFFFE"
    by (simp_all add: word_unat_eq_iff)
  ultimately show ?thesis by (auto simp: utf8_check_def utf_char_def unat_and_high word_less_nat_alt)
qed

lemma more_step: "unat b div 64 = 2 \<Longrightarrow> utf8_more (of_nat k) (b # z) = utf8_more (of_nat (64 * k + unat b mod 64)) z"
proof -
  assume "unat b div 64 = 2"
  have "unat (ucast b AND mask 6 :: u32) = unat b mod 64"
    using unat_u8_less [of b] by (simp add: unat_and_mask unsigned_ucast_eq take_bit_eq_mod)
  moreover have "0x3f AND ucast b = (of_nat (unat (ucast b AND mask 6 :: u32)) :: u32)"
    unfolding mask_values by (simp add: and.commute)
  ultimately have "0x3f AND ucast b = (of_nat (unat b mod 64) :: u32)" by simp
  moreover have "push_bit 6 (of_nat k :: u32) = of_nat (64 * k)" by (simp add: push_bit_eq_mult)
  ultimately show ?thesis using \<open>unat b div 64 = 2\<close> by (simp add: cont_unat)
qed

lemma more_stop: "z = [] \<or> \<not> cont (hd z) \<Longrightarrow> utf8_more c z = (c, z)"
  by (cases z) auto

lemma trans_lead:
  "x < 32 \<Longrightarrow> sqlite3Utf8Trans1 ! x = of_nat x" "x < 16 \<Longrightarrow> sqlite3Utf8Trans1 ! (32 + x) = of_nat x" "x < 8 \<Longrightarrow> sqlite3Utf8Trans1 ! (48 + x) = of_nat x"
proof -
  have "\<forall>x \<in> set [0..<32]. sqlite3Utf8Trans1 ! x = of_nat x" "\<forall>x \<in> set [0..<16]. sqlite3Utf8Trans1 ! (32 + x) = of_nat x"
    "\<forall>x \<in> set [0..<8]. sqlite3Utf8Trans1 ! (48 + x) = of_nat x" by (simp_all add: sqlite3Utf8Trans1_def upt_rec)
  then show "x < 32 \<Longrightarrow> sqlite3Utf8Trans1 ! x = of_nat x" "x < 16 \<Longrightarrow> sqlite3Utf8Trans1 ! (32 + x) = of_nat x"
    "x < 8 \<Longrightarrow> sqlite3Utf8Trans1 ! (48 + x) = of_nat x" by simp_all
qed

lemma trans_word: "x < 32 \<Longrightarrow> (ucast (of_nat x :: u8) :: u32) = of_nat x"
  by (simp add: word_unat_eq_iff unsigned_ucast_eq take_bit_eq_mod unat_of_nat)

lemma read_lead:
  assumes "unat b = 0xc0 + k" "x < 32" "sqlite3Utf8Trans1 ! k = of_nat x"
  shows "READ_UTF8 (b # z) = (case utf8_more (of_nat x) z of (c, z) \<Rightarrow> (utf8_check c, z))"
proof -
  have "b \<ge> 0xc0" using assms(1) by (simp add: word_le_nat_alt)
  moreover have "unat (b - 0xc0) = k" using assms(1) calculation by (simp add: unat_sub)
  ultimately show ?thesis using assms(2,3) trans_word by simp
qed

lemma unat_u8_u32: "unat (ucast (b :: u8) :: u32) = unat b"
  using unat_u8_less [of b] by (simp add: unsigned_ucast_eq take_bit_eq_mod)

lemma utf8read_eq: "sqlite3Utf8Read z = READ_UTF8 z"
proof (cases z)
  case (Cons b w)
  have "(0xc0 \<le> (ucast b :: u32)) = (0xc0 \<le> b)" by (simp add: word_le_nat_alt unat_u8_u32)
  moreover have "unat ((ucast b :: u32) - 0xc0) = unat (b - 0xc0)" if "0xc0 \<le> b"
    using that unat_u8_u32 [of b] by (simp add: unat_sub word_le_nat_alt)
  ultimately show ?thesis using Cons by (simp add: sqlite3Utf8Read_def Let_def)
qed (simp add: sqlite3Utf8Read_def)

lemma append_eq: "sqlite3AppendOneUtf8Character c = (WRITE_UTF8 c, length (WRITE_UTF8 c))"
  by (simp add: sqlite3AppendOneUtf8Character_def WRITE_UTF8_def)

lemma utf8_read_back:
  assumes c: "utf_char c" and z: "z = [] \<or> \<not> cont (hd z)"
  shows "READ_UTF8 (WRITE_UTF8 c @ z) = (c, z)"
proof -
  let ?n = "unat c"
  have lt: "?n < 0x110000" using c by (simp add: utf_char_def)
  define d where "d k = (0x80 + ucast (drop_bit k c AND 0x3F) :: u8)" for k
  have d: "unat (d k) = 128 + ?n div 2 ^ k mod 64" for k
    unfolding d_def mask_values by (subst unat_tag) (simp_all add: unat_byte)
  have dv: "unat (d k) div 64 = 2" "unat (d k) mod 64 = ?n div 2 ^ k mod 64" for k
  proof -
    have "128 + ?n div 2 ^ k mod 64 = 2 * 64 + ?n div 2 ^ k mod 64" by simp
    then show "unat (d k) div 64 = 2" "unat (d k) mod 64 = ?n div 2 ^ k mod 64" unfolding d by (simp_all only: div_mult_self3 mod_mult_self3) simp_all
  qed
  have d0: "0x80 + ucast (c AND 0x3F) = d 0" by (simp add: d_def)
  have id: "utf8_check (of_nat ?n) = c" if "128 \<le> ?n" using utf8_check_id [OF c that] by simp
  have q: "?n div 4096 = ?n div 64 div 64" "?n div 262144 = ?n div 4096 div 64" using div_mult2_eq [of ?n 64 64] div_mult2_eq [of ?n 4096 64] by simp_all
  have n3: "64 * (64 * (?n div 4096) + ?n div 64 mod 64) + ?n mod 64 = ?n" unfolding q(1) by simp
  have n4: "64 * (?n div 262144) + ?n div 4096 mod 64 = ?n div 4096" unfolding q(2) by simp
  have e: "?n div 2 ^ 0 = ?n" "?n div 2 ^ 6 = ?n div 64" "?n div 2 ^ 12 = ?n div 4096" by simp_all
  have m: "utf8_more (of_nat k) (d 0 # z) = (of_nat (64 * k + ?n mod 64), z)" "utf8_more (of_nat k) (d 6 # w) = utf8_more (of_nat (64 * k + ?n div 64 mod 64)) w"
    "utf8_more (of_nat k) (d 12 # w) = utf8_more (of_nat (64 * k + ?n div 4096 mod 64)) w" for k w
    unfolding more_step [OF dv(1)] dv(2) e more_stop [OF z] by (rule refl)+
  have n2: "64 * (?n div 64) + ?n mod 64 = ?n" by simp
  consider "?n < 0x80" | "0x80 \<le> ?n" "?n < 0x800" | "0x800 \<le> ?n" "?n < 0x10000" | "0x10000 \<le> ?n" by linarith
  then show ?thesis
  proof cases
    case 1
    define b :: u8 where "b = ucast (c AND 0xFF)"
    have b: "unat b = ?n" using 1 unfolding b_def mask_values by (subst unat_byte0) simp_all
    then have "\<not> b \<ge> 0xc0" "ucast b = c" using 1 unat_u8_u32 [of b] by (simp_all add: word_le_nat_alt word_unat_eq_iff)
    then show ?thesis using 1 by (simp add: WRITE_UTF8_def word_less_nat_alt flip: b_def)
  next
    case 2
    let ?b = "0xC0 + ucast (drop_bit 6 c AND 0x1F) :: u8"
    have "unat ?b = 0xc0 + ?n div 64" unfolding mask_values using 2 by (subst unat_tag) (simp_all add: unat_byte)
    from read_lead [OF this _ trans_lead(1), of "d 0 # z", unfolded m n2 prod.case] have "READ_UTF8 (?b # d 0 # z) = (c, z)" using 2 id by simp
    then show ?thesis using 2 by (simp add: WRITE_UTF8_def word_less_nat_alt d0)
  next
    case 3
    let ?b = "0xE0 + ucast (drop_bit 12 c AND 0x0F) :: u8"
    have "unat ?b = 0xc0 + (32 + ?n div 4096)" unfolding mask_values using 3 by (subst unat_tag) (simp_all add: unat_byte)
    from read_lead [OF this _ trans_lead(2), of "d 6 # d 0 # z", unfolded m n3 prod.case] have "READ_UTF8 (?b # d 6 # d 0 # z) = (c, z)" using 3 id by simp
    then show ?thesis using 3 by (simp add: WRITE_UTF8_def word_less_nat_alt d0 flip: d_def)
  next
    case 4
    let ?b = "0xF0 + ucast (drop_bit 18 c AND 0x07) :: u8"
    have "unat ?b = 0xc0 + (48 + ?n div 262144)" unfolding mask_values using lt by (subst unat_tag) (simp_all add: unat_byte)
    from read_lead [OF this _ trans_lead(3), of "d 12 # d 6 # d 0 # z", unfolded m n4 n3 prod.case] have "READ_UTF8 (?b # d 12 # d 6 # d 0 # z) = (c, z)"
      using 4 lt id by simp
    then show ?thesis using 4 by (simp add: WRITE_UTF8_def word_less_nat_alt d0 flip: d_def)
  qed
qed

text \<open>Every Unicode character survives UTF-8: what WRITE_UTF8 or sqlite3AppendOneUtf8Character writes is read
  back by READ_UTF8 and sqlite3Utf8Read as the same character, and the reader stops behind it,
  whatever follows (unless a stray continuation byte does).\<close>

theorem utf8_roundtrip:
  assumes c: "utf_char c" and z: "z = [] \<or> \<not> cont (hd z)"
  shows "READ_UTF8 (WRITE_UTF8 c @ z) = (c, z) \<and> sqlite3AppendOneUtf8Character c = (WRITE_UTF8 c, length (WRITE_UTF8 c)) \<and>
    sqlite3Utf8Read (WRITE_UTF8 c @ z) = (c, z)"
  using utf8_read_back [OF c z] by (simp add: utf8read_eq append_eq)

theorem utf8_roundtrip_witness:
  "READ_UTF8 (WRITE_UTF8 0x1F600 @ [0x41]) = (0x1F600, [0x41])"
  using utf8_roundtrip [of "0x1F600" "[0x41]"] by (simp add: utf_char_def cont_def)

section \<open>UTF-16\<close>

lemma unat_and_push: "unat (c AND 0xC0) = 64 * (unat c div 64 mod 4)" "unat (c AND 0x3C0) = 64 * (unat c div 64 mod 16)" for c :: u32
proof -
  have "push_bit 6 (mask 2) = (192 :: nat)" "push_bit 6 (mask 4) = (960 :: nat)" by (simp_all add: mask_eq_exp_minus_1)
  then show "unat (c AND 0xC0) = 64 * (unat c div 64 mod 4)" "unat (c AND 0x3C0) = 64 * (unat c div 64 mod 16)"
    using and_push_mask [of "unat c" 6 2] and_push_mask [of "unat c" 6 4]
    by (simp_all add: unsigned_and_eq push_bit_eq_mult take_bit_eq_mod drop_bit_eq_div)
qed

text \<open>The two bytes of a unit: the value in UTF-16 of a character below and above 0x10000.\<close>

lemma unit16_unat: "unat (unit16 True hi lo) = 256 * unat hi + unat lo" "unit16 False lo hi = unit16 True hi lo"
proof -
  have "unat (push_bit 8 (ucast hi) :: u32) = 256 * unat hi"
    using unat_u8_less [of hi] by (simp add: push_bit_eq_mult unat_word_ariths unat_u8_u32)
  then show "unat (unit16 True hi lo) = 256 * unat hi + unat lo"
    using unat_u8_less [of hi] unat_u8_less [of lo] by (simp add: unit16_def unat_word_ariths unat_u8_u32)
qed (simp add: unit16_def)

lemma unat_ucast8: "unat (ucast (w :: u32) :: u8) = unat w mod 256"
  by (simp add: unsigned_ucast_eq take_bit_eq_mod)

lemma unat_plus_small: "unat a + unat b < 2 ^ 32 \<Longrightarrow> unat (a + b :: u32) = unat a + unat b"
  by (simp add: unat_word_ariths)

definition hi_byte :: "u32 \<Rightarrow> u8" where
  "hi_byte c = ucast (0x00D8 + (drop_bit 18 (c - 0x10000) AND 0x03))"

definition hi_low :: "u32 \<Rightarrow> u8" where
  "hi_low c = ucast ((drop_bit 10 c AND 0x003F) + (drop_bit 10 (c - 0x10000) AND 0x00C0))"

definition lo_byte :: "u32 \<Rightarrow> u8" where
  "lo_byte c = ucast (0x00DC + (drop_bit 8 c AND 0x03))"

lemma surrogate_bytes:
  assumes c: "0x10000 \<le> unat c" "unat c < 0x110000"
  defines "m \<equiv> unat c - 0x10000"
  shows "unat (unit16 True (hi_byte c) (hi_low c)) = 0xD800 + m div 1024"
    "unat (unit16 True (lo_byte c) (ucast (c AND 0xFF))) = 0xDC00 + m mod 1024"
proof -
  have m: "unat (c - 0x10000) = m" using c by (simp add: m_def unat_sub word_le_nat_alt)
  have n: "unat c = m + 0x10000" using c by (simp add: m_def)
  have lt: "m < 2 ^ 20" using c by (simp add: m_def)
  have n1: "unat c div 1024 = m div 1024 + 64" "unat c div 256 = m div 256 + 256"
    using div_mult_self1 [of 1024 m 64] div_mult_self1 [of 256 m 256] by (simp_all add: n)
  have n2: "(m div 1024 + 64) mod 64 = m div 1024 mod 64" "(m div 256 + 256) mod 4 = m div 256 mod 4"
    using mod_mult_self1 [of "m div 1024" 1 64] mod_mult_self1 [of "m div 256" 64 4] by simp_all
  have h: "m div 1024 = 256 * (m div 262144) + m div 1024 mod 256"
    using div_mult2_eq [of m 1024 256] by (simp add: mult_div_mod_eq)
  have "unat (hi_byte c) = 0xD8 + m div 262144"
  proof -
    have b: "m div 262144 < 4" using lt by simp
    have "unat (drop_bit 18 (c - 0x10000) AND mask 2) = m div 262144" using b by (simp add: unat_and_mask unat_drop m)
    then show ?thesis unfolding hi_byte_def mask_values(6) using b by (simp add: unat_ucast8 unat_plus_small)
  qed
  moreover have "unat (hi_low c) = m div 1024 mod 256"
  proof -
    have "unat (drop_bit 10 c AND mask 6) = m div 1024 mod 64" by (simp add: unat_and_mask unat_drop n1 n2)
    moreover have "unat (drop_bit 10 (c - 0x10000) AND 0xC0) = 64 * (m div 1024 div 64 mod 4)" by (simp add: unat_and_push unat_drop m)
    moreover have "64 * (m div 1024 div 64 mod 4) + m div 1024 mod 64 = m div 1024 mod 256" using mod_mult2_eq [of "m div 1024" 64 4] by simp
    ultimately have s: "unat (drop_bit 10 c AND mask 6) + unat (drop_bit 10 (c - 0x10000) AND 0xC0) = m div 1024 mod 256" by (simp add: add.commute)
    moreover have "m div 1024 mod 256 < 2 ^ 32" by (rule less_trans [of _ 256]) simp_all
    ultimately have "unat ((drop_bit 10 c AND mask 6) + (drop_bit 10 (c - 0x10000) AND 0xC0)) = m div 1024 mod 256"
      using unat_plus_small [of "drop_bit 10 c AND mask 6" "drop_bit 10 (c - 0x10000) AND 0xC0"] by (simp only:)
    then show ?thesis unfolding hi_low_def mask_values(1) unat_ucast8 by simp
  qed
  ultimately show "unat (unit16 True (hi_byte c) (hi_low c)) = 0xD800 + m div 1024" using h by (simp add: unit16_unat)
  have "unat (lo_byte c) = 0xDC + m div 256 mod 4"
  proof -
    have "unat (drop_bit 8 c AND mask 2) = m div 256 mod 4" by (simp add: unat_and_mask unat_drop n1 n2)
    then show ?thesis unfolding lo_byte_def mask_values(6) by (simp add: unat_ucast8 unat_plus_small)
  qed
  moreover have "unat (ucast (c AND 0xFF) :: u8) = m mod 256" unfolding mask_values using mod_mult_self1 [of m 256 256] by (subst unat_byte0) (simp_all add: n)
  moreover have "256 * (m div 256 mod 4) + m mod 256 = m mod 1024" using mod_mult2_eq [of m 256 4] by simp
  ultimately show "unat (unit16 True (lo_byte c) (ucast (c AND 0xFF))) = 0xDC00 + m mod 1024" by (simp add: unit16_unat)
qed

lemma unit16_bmp:
  assumes "unat c < 0x10000"
  shows "unit16 True (ucast (drop_bit 8 c AND 0xFF)) (ucast (c AND 0xFF)) = c"
proof -
  have "unat (ucast (drop_bit 8 c AND 0xFF) :: u8) = unat c div 256" "unat (ucast (c AND 0xFF) :: u8) = unat c mod 256"
    unfolding mask_values using assms by (subst unat_byte unat_byte0, simp, simp)+
  then show ?thesis by (simp add: word_unat_eq_iff unit16_unat)
qed

lemma surrogate_decode:
  assumes "unat a = 0xD800 + h" "unat b = 0xDC00 + l" "h < 1024" "l < 1024"
  shows "unat (surrogate a b) = 0x10000 + 1024 * h + l"
proof -
  have a: "unat a mod 64 = h mod 64" "unat a div 64 mod 16 = h div 64"
  proof -
    have "0xD800 + h = h + 864 * 64" by simp
    then have "unat a mod 64 = h mod 64" unfolding assms(1) by (simp only: mod_mult_self1)
    have "unat a div 64 = h div 64 + 864" unfolding assms(1) by simp
    moreover have "(h div 64 + 864) mod 16 = h div 64" using mod_mult_self1 [of "h div 64" 54 16] assms(3) by simp
    ultimately show "unat a mod 64 = h mod 64" "unat a div 64 mod 16 = h div 64" using \<open>unat a mod 64 = h mod 64\<close> by simp_all
  qed
  have b: "unat (b AND 0x03FF) = l"
  proof -
    have "0xDC00 + l = l + 55 * 1024" by simp
    then have "unat b mod 1024 = l mod 1024" unfolding assms(2) by (simp only: mod_mult_self1)
    then show ?thesis unfolding mask_values using assms(4) by (simp add: unat_and_mask)
  qed
  have p: "unat (push_bit 10 w :: u32) = 1024 * unat w" if "unat w < 4194304" for w
    using that by (simp add: push_bit_eq_mult unat_word_ariths)
  have x: "unat (a AND 0x003F) = h mod 64" unfolding mask_values by (simp add: unat_and_mask a)
  have y: "unat ((a AND 0x03C0) + 0x0040) = 64 * (h div 64) + 64" using assms(3) by (simp add: unat_plus_small unat_and_push a)
  have "unat (push_bit 10 (a AND 0x003F)) = 1024 * (h mod 64)" "unat (push_bit 10 ((a AND 0x03C0) + 0x0040)) = 1024 * (64 * (h div 64) + 64)"
    using p [of "a AND 0x003F"] p [of "(a AND 0x03C0) + 0x0040"] x y assms(3) by simp_all
  moreover have "1024 * (h mod 64) + 1024 * (64 * (h div 64) + 64) = 0x10000 + 1024 * h"
  proof -
    obtain q r where "h div 64 = q" "h mod 64 = r" by blast
    moreover have "h = 64 * (h div 64) + h mod 64" by simp
    ultimately show ?thesis by simp
  qed
  ultimately show ?thesis using b assms(3,4) by (simp add: surrogate_def unat_plus_small)
qed

definition WRITE_UTF16 :: "bool \<Rightarrow> u32 \<Rightarrow> bytes" where
  "WRITE_UTF16 be = (if be then WRITE_UTF16BE else WRITE_UTF16LE)"

lemma utf16_step:
  assumes "utf_char c"
  shows "from_utf16 be (WRITE_UTF16 be c @ z) = WRITE_UTF8 c @ from_utf16 be z"
proof (cases "unat c < 0x10000")
  case True
  have le: "c \<le> 0xFFFF" using True by (simp add: word_le_nat_alt)
  have "\<not> (c \<ge> 0xd800 \<and> c < 0xe000)"
  proof
    assume "c \<ge> 0xd800 \<and> c < 0xe000"
    then have "unat c div 2048 = 27" by (simp add: word_le_nat_alt word_less_nat_alt div_nat_eqI)
    then show False using assms by (simp add: utf_char_def)
  qed
  then show ?thesis using le unit16_bmp [OF True] by (cases be) (auto simp: WRITE_UTF16_def WRITE_UTF16BE_def WRITE_UTF16LE_def unit16_unat(2) Let_def)
next
  case False
  let ?m = "unat c - 0x10000"
  have c: "0x10000 \<le> unat c" "unat c < 0x110000" using False assms by (simp_all add: utf_char_def)
  note S = surrogate_bytes [OF c]
  let ?a = "unit16 True (hi_byte c) (hi_low c)" and ?b = "unit16 True (lo_byte c) (ucast (c AND 0xFF))"
  have h: "?m div 1024 < 1024" using c by simp
  have "?a \<ge> 0xd800 \<and> ?a < 0xe000" using S(1) h by (simp add: word_le_nat_alt word_less_nat_alt)
  moreover have "surrogate ?a ?b = c"
    using surrogate_decode [OF S h] c mult_div_mod_eq [of 1024 ?m] by (simp add: word_unat_eq_iff)
  moreover have "WRITE_UTF16 be c = (if be then [hi_byte c, hi_low c, lo_byte c, ucast (c AND 0xFF)] else [hi_low c, hi_byte c, ucast (c AND 0xFF), lo_byte c])"
    using c by (simp add: WRITE_UTF16_def WRITE_UTF16BE_def WRITE_UTF16LE_def hi_byte_def hi_low_def lo_byte_def word_le_nat_alt)
  ultimately show ?thesis by (cases be) (simp_all add: Let_def unit16_unat(2))
qed

lemma write_head: "WRITE_UTF8 c \<noteq> []" "\<not> cont (hd (WRITE_UTF8 c))" "\<exists>b z. WRITE_UTF8 c = b # z"
proof -
  have "\<not> cont (0xC0 + ucast (drop_bit 6 c AND mask 5))" "\<not> cont (0xE0 + ucast (drop_bit 12 c AND mask 4))" "\<not> cont (0xF0 + ucast (drop_bit 18 c AND mask 3))"
  proof -
    have "unat c div 64 mod 32 < 32" "unat c div 4096 mod 16 < 16" "unat c div 262144 mod 8 < 8" by simp_all
    then show "\<not> cont (0xC0 + ucast (drop_bit 6 c AND mask 5))" "\<not> cont (0xE0 + ucast (drop_bit 12 c AND mask 4))" "\<not> cont (0xF0 + ucast (drop_bit 18 c AND mask 3))"
      by (simp_all add: cont_unat unat_tag unat_byte)
  qed
  moreover have "\<not> cont (ucast (c AND mask 8))" if "c < 0x80"
    using that unat_byte0 [of 8 c] by (simp add: cont_unat word_less_nat_alt)
  ultimately show "\<not> cont (hd (WRITE_UTF8 c))" unfolding WRITE_UTF8_def mask_values by simp
qed (simp_all add: WRITE_UTF8_def)

abbreviation utf8_text :: "u32 list \<Rightarrow> bytes" where "utf8_text cs \<equiv> concat (map WRITE_UTF8 cs)"

lemma utf8_text_head: "utf8_text cs = [] \<or> \<not> cont (hd (utf8_text cs))"
  using write_head by (cases cs) simp_all

lemma from_utf8_text: "\<forall>c \<in> set cs. utf_char c \<Longrightarrow> from_utf8 wr (utf8_text cs) = concat (map wr cs)"
proof (induction cs)
  case (Cons c cs)
  obtain b z where bz: "WRITE_UTF8 c = b # z" using write_head(3) by blast
  have "READ_UTF8 (WRITE_UTF8 c @ utf8_text cs) = (c, utf8_text cs)" using utf8_read_back [OF _ utf8_text_head] Cons.prems by simp
  then have "READ_UTF8 (b # z @ utf8_text cs) = (c, utf8_text cs)" by (simp add: bz)
  then show ?case using Cons by (simp add: bz del: READ_UTF8.simps)
qed simp

lemma from_utf16_text: "\<forall>c \<in> set cs. utf_char c \<Longrightarrow> from_utf16 be (concat (map (WRITE_UTF16 be) cs)) = utf8_text cs"
  by (induction cs) (simp_all add: utf16_step)



end
