(* ===== verification/Like.thy ===== *)
theory Like
  imports Utf Ctype
begin

text \<open>
  The matcher behind the LIKE and GLOB operators (\<^verbatim>\<open>func.c\<close>). Pattern and string are byte lists
  without their terminator. The loops that look for a place to continue after a wildcard try a list
  of places in order and stop at the first result that is not a plain mismatch.
\<close>

section \<open>The matcher\<close>

record compareInfo =
  matchAll :: u32
  matchOne :: u32
  matchSet :: u32
  noCase :: bool

definition globInfo :: compareInfo where
  "globInfo = \<lparr>matchAll = 0x2A, matchOne = 0x3F, matchSet = 0x5B, noCase = False\<rparr>"

definition likeInfoNorm :: compareInfo where
  "likeInfoNorm = \<lparr>matchAll = 0x25, matchOne = 0x5F, matchSet = 0, noCase = True\<rparr>"

definition likeInfoAlt :: compareInfo where
  "likeInfoAlt = \<lparr>matchAll = 0x25, matchOne = 0x5F, matchSet = 0, noCase = False\<rparr>"

abbreviation (input) SQLITE_MATCH :: int where "SQLITE_MATCH \<equiv> 0"
abbreviation (input) SQLITE_NOMATCH :: int where "SQLITE_NOMATCH \<equiv> 1"
abbreviation (input) SQLITE_NOWILDCARDMATCH :: int where "SQLITE_NOWILDCARDMATCH \<equiv> 2"

definition Utf8Read :: "bytes \<Rightarrow> u32 \<times> bytes" where
  "Utf8Read z = (case z of b # w \<Rightarrow> (if b < 0x80 then (ucast b, w) else sqlite3Utf8Read z) | [] \<Rightarrow> sqlite3Utf8Read z)"

lemma Utf8Read_eq: "Utf8Read z = READ_UTF8 z"
proof (cases z)
  case (Cons b w)
  have "b < 0x80 \<Longrightarrow> \<not> 0xc0 \<le> b" by (simp add: word_less_nat_alt word_le_nat_alt)
  then show ?thesis using Cons by (auto simp: Utf8Read_def utf8read_eq)
qed (simp add: Utf8Read_def utf8read_eq)

lemma read_length: "z \<noteq> [] \<Longrightarrow> length (snd (Utf8Read z)) < length z" "z \<noteq> [] \<Longrightarrow> length (snd (sqlite3Utf8Read z)) < length z"
  "length (snd (sqlite3Utf8Read z)) \<le> length z"
proof -
  have r: "z \<noteq> [] \<Longrightarrow> length (snd (READ_UTF8 z)) < length z" using READ_UTF8_length by (cases z) (auto simp: less_Suc_eq_le simp del: READ_UTF8.simps)
  then show "z \<noteq> [] \<Longrightarrow> length (snd (Utf8Read z)) < length z" "z \<noteq> [] \<Longrightarrow> length (snd (sqlite3Utf8Read z)) < length z"
    by (simp_all add: Utf8Read_eq utf8read_eq)
  show "length (snd (sqlite3Utf8Read z)) \<le> length z" using r by (cases "z = []") (auto simp: utf8read_eq less_imp_le)
qed

text \<open>
  The loop that skips wildcards after a \<open>*\<close>: the next pattern character, the rest of the pattern and
  the rest of the string, or \<^const>\<open>None\<close> when the string is too short.
\<close>

function skip_wild :: "compareInfo \<Rightarrow> bytes \<Rightarrow> bytes \<Rightarrow> (u32 \<times> bytes \<times> bytes) option" where
  "skip_wild i zPattern zString =
     (if zPattern = [] then Some (0, [], zString)
      else
        let c = fst (Utf8Read zPattern); zPattern' = snd (Utf8Read zPattern) in
        if c = matchAll i \<or> c = matchOne i \<and> matchOne i \<noteq> 0 then
          (if c = matchOne i then
             (if fst (sqlite3Utf8Read zString) = 0 then None else skip_wild i zPattern' (snd (sqlite3Utf8Read zString)))
           else skip_wild i zPattern' zString)
        else Some (c, zPattern', zString))"
  by pat_completeness auto
termination by (relation "measure (\<lambda>(i, p, s). length p)") (auto intro: read_length)

declare skip_wild.simps [simp del]

text \<open>The loop over the members of a character set.\<close>

lemma read_dec: "fst (sqlite3Utf8Read z) = 0 \<or> length (snd (sqlite3Utf8Read z)) < length z"
  using read_length(2) [of z] by (cases z) (auto simp: sqlite3Utf8Read_def)

function set_scan :: "u32 \<Rightarrow> u32 \<Rightarrow> u32 \<Rightarrow> bool \<Rightarrow> bytes \<Rightarrow> u32 \<times> bool \<times> bytes" where
  "set_scan c c2 prior_c seen zPattern =
     (if c2 = 0 \<or> c2 = 0x5D then (c2, seen, zPattern)
      else if c2 = 0x2D \<and> zPattern \<noteq> [] \<and> hd zPattern \<noteq> 0x5D \<and> prior_c > 0 then
        let c3 = fst (sqlite3Utf8Read zPattern); z = snd (sqlite3Utf8Read zPattern) in
        set_scan c (fst (sqlite3Utf8Read z)) 0 (seen \<or> c \<ge> prior_c \<and> c \<le> c3) (snd (sqlite3Utf8Read z))
      else set_scan c (fst (sqlite3Utf8Read zPattern)) c2 (seen \<or> c = c2) (snd (sqlite3Utf8Read zPattern)))"
  by pat_completeness auto
termination
proof (relation "measure (\<lambda>(c, c2, p, s, z). (if c2 = 0 then 0 else 1) + length z)", goal_cases)
  case (2 c c2 prior_c seen z c3 w)
  then have "length w < length z" using read_length(2) [of z] by simp
  then show ?case using 2 read_length(3) [of w] by auto
next
  case (3 c c2 prior_c seen z)
  then show ?case using read_dec [of z] read_length(3) [of z] by auto
qed simp

declare set_scan.simps [simp del]

text \<open>A character set behind its opening bracket: the rest of the pattern when the set accepts the character.\<close>

definition glob_set :: "bytes \<Rightarrow> u32 \<Rightarrow> bytes option" where
  "glob_set zPattern c =
     (let (c2, zPattern) = sqlite3Utf8Read zPattern;
          invert = (c2 = 0x5E);
          (c2, zPattern) = (if invert then sqlite3Utf8Read zPattern else (c2, zPattern));
          seen = (c2 = 0x5D \<and> c = 0x5D);
          (c2, zPattern) = (if c2 = 0x5D then sqlite3Utf8Read zPattern else (c2, zPattern));
          (c2, seen, zPattern) = set_scan c c2 0 seen zPattern
      in if c2 = 0 \<or> seen = invert then None else Some zPattern)"

text \<open>The places where the string can go on behind a character, and those where a set can be tried.\<close>

fun byte_hits :: "u8 set \<Rightarrow> bytes \<Rightarrow> bytes list" where
  "byte_hits zStop [] = []"
| "byte_hits zStop (b # z) = (if b \<in> zStop then z # byte_hits zStop z else byte_hits zStop z)"

function char_hits :: "u32 \<Rightarrow> bytes \<Rightarrow> bytes list" where
  "char_hits c z =
     (if z = [] then []
      else if fst (Utf8Read z) \<noteq> c then char_hits c (snd (Utf8Read z))
      else snd (Utf8Read z) # char_hits c (snd (Utf8Read z)))"
  by pat_completeness auto
termination by (relation "measure (\<lambda>(c, z). length z)") (auto intro: read_length)

function set_hits :: "bytes \<Rightarrow> bytes list" where
  "set_hits z = (if z = [] then [] else z # set_hits (SQLITE_SKIP_UTF8 z))"
  by pat_completeness auto
termination
proof (relation "measure length", goal_cases)
  case (2 z)
  then show ?case using skip_length by (cases z) (auto simp: less_Suc_eq_le simp del: SQLITE_SKIP_UTF8.simps)
qed simp

declare char_hits.simps [simp del] set_hits.simps [simp del]

definition hits :: "compareInfo \<Rightarrow> u32 \<Rightarrow> bytes \<Rightarrow> bytes list" where
  "hits i c zString =
     (if c < 0x80
      then byte_hits (if noCase i then {of_nat (sqlite3Toupper (unat c)), of_nat (UpperToLower (unat c))} else {ucast c}) zString
      else char_hits c zString)"

fun first_result :: "(bytes \<Rightarrow> int) \<Rightarrow> bytes list \<Rightarrow> int" where
  "first_result f [] = SQLITE_NOWILDCARDMATCH"
| "first_result f (s # ss) = (let bMatch = f s in if bMatch \<noteq> SQLITE_NOMATCH then bMatch else first_result f ss)"

lemma first_result_cong [fundef_cong]: "ss = ss' \<Longrightarrow> (\<And>s. s \<in> set ss' \<Longrightarrow> f s = g s) \<Longrightarrow> first_result f ss = first_result g ss'"
  by (induction ss arbitrary: ss') (auto simp: Let_def)

lemma skip_wild_length: "skip_wild i p s = Some (c, p', s') \<Longrightarrow> c = 0 \<or> length p' < length p"
proof (induction i p s rule: skip_wild.induct)
  case (1 i p s)
  show ?case
  proof (cases "p = []")
    case False
    have l: "length (snd (Utf8Read p)) < length p" by (rule read_length(1) [OF False])
    show ?thesis using "1.prems" [unfolded skip_wild.simps [of i p s]] "1.IH" [OF False refl refl] l False by (auto simp: Let_def split: if_splits)
  qed (use "1.prems" in \<open>simp add: skip_wild.simps\<close>)
qed

lemma set_scan_length: "set_scan c c2 p s z = (d, s', z') \<Longrightarrow> length z' \<le> length z"
proof (induction c c2 p s z rule: set_scan.induct)
  case (1 c c2 p s z)
  show ?case using "1.prems" [unfolded set_scan.simps [of c c2 p s z]] "1.IH"(1) [OF _ _ refl refl] "1.IH"(2)
      read_length(3) [of z] read_length(3) [of "snd (sqlite3Utf8Read z)"]
    by (auto simp: Let_def split: if_splits)
qed

lemma glob_set_length: "glob_set z c = Some z' \<Longrightarrow> length z' \<le> length z"
  using read_length(3) [of z] read_length(3) [of "snd (sqlite3Utf8Read z)"] read_length(3) [of "snd (sqlite3Utf8Read (snd (sqlite3Utf8Read z)))"]
  by (auto simp: glob_set_def Let_def split: if_splits prod.splits dest!: set_scan_length)

lemma after_read: "z \<noteq> [] \<Longrightarrow> length (snd (sqlite3Utf8Read (snd (Utf8Read z)))) < length z"
  by (rule le_less_trans [OF read_length(3) read_length(1)])

text \<open>\<^verbatim>\<open>patternCompare\<close>. Its variable \<^verbatim>\<open>zEscaped\<close> says whether the pattern character just read was escaped.\<close>

function patternCompare :: "bytes \<Rightarrow> bytes \<Rightarrow> compareInfo \<Rightarrow> u32 \<Rightarrow> int" where
  "patternCompare zPattern zString i matchOther =
     (if zPattern = [] then (if zString = [] then SQLITE_MATCH else SQLITE_NOMATCH)
      else
        let c = fst (Utf8Read zPattern); zP = snd (Utf8Read zPattern) in
        if c = matchAll i then
          (case skip_wild i zP zString of
             None \<Rightarrow> SQLITE_NOWILDCARDMATCH
           | Some (c, zP, zS) \<Rightarrow>
               if c = 0 then SQLITE_MATCH
               else if c = matchOther \<and> matchSet i \<noteq> 0
               then first_result (\<lambda>s. patternCompare (ucast matchOther # zP) s i matchOther) (set_hits zS)
               else if c = matchOther then
                 (if fst (sqlite3Utf8Read zP) = 0 then SQLITE_NOWILDCARDMATCH
                  else first_result (\<lambda>s. patternCompare (snd (sqlite3Utf8Read zP)) s i matchOther) (hits i (fst (sqlite3Utf8Read zP)) zS))
               else first_result (\<lambda>s. patternCompare zP s i matchOther) (hits i c zS))
        else if c = matchOther \<and> matchSet i \<noteq> 0 then
          (if fst (sqlite3Utf8Read zString) = 0 then SQLITE_NOMATCH
           else case glob_set zP (fst (sqlite3Utf8Read zString)) of
             None \<Rightarrow> SQLITE_NOMATCH
           | Some zP \<Rightarrow> patternCompare zP (snd (sqlite3Utf8Read zString)) i matchOther)
        else if c = matchOther \<and> fst (sqlite3Utf8Read zP) = 0 then SQLITE_NOMATCH
        else
          let escaped = (c = matchOther);
              c = (if escaped then fst (sqlite3Utf8Read zP) else c);
              zP = (if escaped then snd (sqlite3Utf8Read zP) else zP);
              c2 = fst (Utf8Read zString); zS = snd (Utf8Read zString)
          in if c = c2 then patternCompare zP zS i matchOther
             else if noCase i \<and> UpperToLower (unat c) = UpperToLower (unat c2) \<and> c < 0x80 \<and> c2 < 0x80
             then patternCompare zP zS i matchOther
             else if c = matchOne i \<and> \<not> escaped \<and> c2 \<noteq> 0 then patternCompare zP zS i matchOther
             else SQLITE_NOMATCH)"
  by pat_completeness auto

termination
  by (relation "measure (\<lambda>(p, s, i, m). length p)")
    (auto dest!: skip_wild_length glob_set_length dest: read_length(1) after_read intro: less_trans [OF _ read_length(1)] le_less_trans [OF read_length(3)] le_less_trans [OF _ read_length(1)])

declare patternCompare.simps [simp del]

definition sqlite3_strglob :: "bytes option \<Rightarrow> bytes option \<Rightarrow> int" where
  "sqlite3_strglob zGlobPattern zString =
     (case zString of
        None \<Rightarrow> (if zGlobPattern \<noteq> None then 1 else 0)
      | Some s \<Rightarrow> (case zGlobPattern of None \<Rightarrow> 1 | Some p \<Rightarrow> patternCompare p s globInfo 0x5B))"

definition sqlite3_strlike :: "bytes option \<Rightarrow> bytes option \<Rightarrow> u32 \<Rightarrow> int" where
  "sqlite3_strlike zPattern zStr esc =
     (case zStr of
        None \<Rightarrow> (if zPattern \<noteq> None then 1 else 0)
      | Some s \<Rightarrow> (case zPattern of None \<Rightarrow> 1 | Some p \<Rightarrow> patternCompare p s likeInfoNorm esc))"

text \<open>
  The SQL function. An argument is the text of its value, \<^const>\<open>None\<close> for NULL; a C string ends at
  its first zero byte. The limit is \<^verbatim>\<open>SQLITE_LIMIT_LIKE_PATTERN_LENGTH\<close>.
\<close>

datatype like_result = LikeNull | LikeInt int | LikeError string

definition c_text :: "bytes \<Rightarrow> bytes" where
  "c_text = takeWhile (\<lambda>b. b \<noteq> 0)"

fun likeFunc :: "nat \<Rightarrow> compareInfo \<Rightarrow> bytes option list \<Rightarrow> like_result" where
  "likeFunc limit pInfo (arg0 # arg1 # rest) =
     (let compare = (\<lambda>i escape.
            case (arg0, arg1) of
              (Some zB, Some zA) \<Rightarrow>
                LikeInt (if patternCompare (c_text zB) (c_text zA) i escape = SQLITE_MATCH then 1 else 0)
            | _ \<Rightarrow> LikeNull)
      in if (case arg0 of None \<Rightarrow> 0 | Some zB \<Rightarrow> length zB) > limit then LikeError ''LIKE or GLOB pattern too complex''
      else (case rest of
          [arg2] \<Rightarrow>
            (case arg2 of
               None \<Rightarrow> LikeNull
             | Some zEsc \<Rightarrow>
                 if sqlite3Utf8CharLen (c_text zEsc) None \<noteq> 1 then LikeError ''ESCAPE expression must be a single character''
                 else
                   let escape = fst (sqlite3Utf8Read (c_text zEsc));
                       i = pInfo\<lparr>matchAll := (if escape = matchAll pInfo then 0 else matchAll pInfo),
                                 matchOne := (if escape = matchOne pInfo then 0 else matchOne pInfo)\<rparr>
                   in compare i escape)
        | _ \<Rightarrow> compare pInfo (matchSet pInfo)))"
| "likeFunc limit pInfo _ = LikeNull"

section \<open>What a pattern means\<close>

text \<open>
  A pattern is a list of items: an arbitrary run of characters, or one character of a class. A class is a
  list of ranges, possibly inverted, or a character compared with or without case.
\<close>

datatype item = Any | One "u32 \<Rightarrow> bool"

fun matches :: "item list \<Rightarrow> u32 list \<Rightarrow> bool" where
  "matches [] s \<longleftrightarrow> s = []"
| "matches (Any # is) s \<longleftrightarrow> list_ex (\<lambda>k. matches is (drop k s)) [0..<Suc (length s)]"
| "matches (One P # is) s \<longleftrightarrow> (case s of [] \<Rightarrow> False | x # s \<Rightarrow> P x \<and> matches is s)"

definition same_char :: "bool \<Rightarrow> u32 \<Rightarrow> u32 \<Rightarrow> bool" where
  "same_char nocase c x \<longleftrightarrow> c = x \<or> nocase \<and> c < 0x80 \<and> x < 0x80 \<and> UpperToLower (unat c) = UpperToLower (unat x)"

text \<open>The ranges of a set up to its closing bracket; the previous single character may start a range.\<close>

fun set_ranges :: "u32 \<Rightarrow> u32 list \<Rightarrow> ((u32 \<times> u32) list \<times> u32 list) option" where
  "set_ranges prior [] = None"
| "set_ranges prior (c # p) =
     (if c = 0x5D then Some ([], p)
      else case p of
        d # p' \<Rightarrow>
          (if c = 0x2D \<and> d \<noteq> 0x5D \<and> prior > 0 then map_option (apfst (Cons (prior, d))) (set_ranges 0 p')
           else map_option (apfst (Cons (c, c))) (set_ranges c p))
      | [] \<Rightarrow> None)"

definition in_ranges :: "(u32 \<times> u32) list \<Rightarrow> u32 \<Rightarrow> bool" where
  "in_ranges rs x \<longleftrightarrow> list_ex (\<lambda>(lo, hi). lo \<le> x \<and> x \<le> hi) rs"

definition set_body :: "u32 list \<Rightarrow> ((u32 \<times> u32) list \<times> u32 list) option" where
  "set_body p = (case p of c # p' \<Rightarrow> (if c = 0x5D then map_option (apfst (Cons (c, c))) (set_ranges 0 p') else set_ranges 0 p) | [] \<Rightarrow> None)"

definition parse_set :: "u32 list \<Rightarrow> ((u32 \<Rightarrow> bool) \<times> u32 list) option" where
  "parse_set p =
     (case p of
        c # p' \<Rightarrow>
          (if c = 0x5E then map_option (apfst (\<lambda>rs x. \<not> in_ranges rs x)) (set_body p') else map_option (apfst in_ranges) (set_body p))
      | [] \<Rightarrow> None)"

lemma set_ranges_length: "set_ranges prior p = Some (rs, q) \<Longrightarrow> length q < length p"
proof (induction prior p arbitrary: rs q rule: set_ranges.induct)
  case (2 prior c p)
  show ?case
  proof (cases p)
    case (Cons d p')
    then show ?thesis using 2 by (force split: if_splits)
  qed (use 2 in \<open>auto split: if_splits\<close>)
qed simp

declare set_ranges.simps(2) [simp del]

lemma set_body_length: "set_body p = Some (rs, q) \<Longrightarrow> length q < length p"
  by (auto simp: set_body_def split: list.splits if_splits dest: set_ranges_length)

lemma parse_set_length: "parse_set p = Some (P, q) \<Longrightarrow> length q < length p"
  by (auto simp: parse_set_def split: list.splits if_splits dest!: set_body_length)

function parse :: "compareInfo \<Rightarrow> u32 \<Rightarrow> u32 list \<Rightarrow> item list option" where
  "parse i other [] = Some []"
| "parse i other (c # p) =
     (if c = matchAll i then map_option (Cons Any) (parse i other p)
      else if c = other then
        (if matchSet i \<noteq> 0
         then (case parse_set p of None \<Rightarrow> None | Some (P, q) \<Rightarrow> map_option (Cons (One P)) (parse i other q))
         else (case p of [] \<Rightarrow> None | d # p \<Rightarrow> map_option (Cons (One (same_char (noCase i) d))) (parse i other p)))
      else map_option (Cons (One (if c = matchOne i then (\<lambda>x. True) else same_char (noCase i) c))) (parse i other p))"
  by pat_completeness auto
termination by (relation "measure (\<lambda>(i, other, p). length p)") (auto dest: parse_set_length)

text \<open>The pattern accepts the string.\<close>

definition accepts :: "compareInfo \<Rightarrow> u32 \<Rightarrow> u32 list \<Rightarrow> u32 list \<Rightarrow> bool" where
  "accepts i other p s = (case parse i other p of None \<Rightarrow> False | Some is \<Rightarrow> matches is s)"

text \<open>The characters of a byte string.\<close>

function chars :: "bytes \<Rightarrow> u32 list" where
  "chars z = (if z = [] then [] else fst (READ_UTF8 z) # chars (snd (READ_UTF8 z)))"
  by pat_completeness auto
termination by (relation "measure length") (use read_length(1) Utf8Read_eq in \<open>auto simp del: READ_UTF8.simps\<close>)

declare chars.simps [simp del] READ_UTF8.simps [simp del]

section \<open>Characters and bytes\<close>

abbreviation nz :: "bytes \<Rightarrow> bool" where
  "nz z \<equiv> 0 \<notin> set z"

lemma sqlite3Utf8Read_eq: "sqlite3Utf8Read z = READ_UTF8 z"
  by (simp add: utf8read_eq)

lemmas read_eqs = Utf8Read_eq sqlite3Utf8Read_eq

lemma chars_simps [simp]: "chars [] = []" "z \<noteq> [] \<Longrightarrow> chars z = fst (READ_UTF8 z) # chars (snd (READ_UTF8 z))"
  by (simp_all add: chars.simps)

lemma chars_eq_Nil [simp]: "chars z = [] \<longleftrightarrow> z = []"
  by (cases "z = []") simp_all

lemma snd_utf8_more: "snd (utf8_more c z) = dropWhile cont z"
  by (induction c z rule: utf8_more.induct) auto

lemma snd_read: "snd (READ_UTF8 z) = SQLITE_SKIP_UTF8 z"
  by (cases z) (simp_all add: READ_UTF8.simps snd_utf8_more case_prod_beta)

lemma utf8_check_ge: "0x80 \<le> utf8_check c"
  by (auto simp: utf8_check_def not_less)

lemma read_single: "b < 0xc0 \<Longrightarrow> READ_UTF8 (b # z) = (ucast b, z)"
  using leD [of "0xc0" b] by (auto simp: READ_UTF8.simps)

lemma read_multi: "0xc0 \<le> b \<Longrightarrow> 0x80 \<le> fst (READ_UTF8 (b # z)) \<and> snd (READ_UTF8 (b # z)) = dropWhile cont z"
  by (simp add: snd_read) (simp add: READ_UTF8.simps utf8_check_ge split: prod.splits)

lemma nz_read: "nz z \<Longrightarrow> nz (snd (READ_UTF8 z))"
  by (cases z) (auto simp: snd_read dest: set_dropWhileD split: if_splits)

lemma ucast_u32_eq: "(ucast (b :: u8) :: u32) = ucast d \<longleftrightarrow> b = d"
  using unat_u8_less [of b] unat_u8_less [of d] by (simp add: word_unat_eq_iff unsigned_ucast_eq take_bit_eq_mod)

lemma ucast_0: "(ucast (b :: u8) :: u32) = 0 \<longleftrightarrow> b = 0"
  using ucast_u32_eq [of b 0] by simp

lemma read_nonzero: "nz z \<Longrightarrow> z \<noteq> [] \<Longrightarrow> fst (READ_UTF8 z) \<noteq> 0"
proof (cases z)
  case (Cons b w)
  assume "nz z"
  then show ?thesis using Cons read_multi [of b w] by (cases "b < 0xc0") (auto simp: read_single ucast_0 not_less)
qed simp

lemma read_zero: "nz z \<Longrightarrow> fst (READ_UTF8 z) = 0 \<longleftrightarrow> z = []"
  using read_nonzero [of z] by (cases z) (auto simp: READ_UTF8.simps(1))

lemma chars_nonzero: "nz z \<Longrightarrow> 0 \<notin> set (chars z)"
proof (induction z rule: chars.induct)
  case (1 z)
  then show ?case using read_nonzero [of z] nz_read [of z] by (cases "z = []") auto
qed

lemma read_ascii: "unat b < 128 \<Longrightarrow> READ_UTF8 (b # z) = (ucast b, z)"
  by (rule read_single) (simp add: word_less_nat_alt)

lemma chars_ascii: "unat b < 128 \<Longrightarrow> chars (b # z) = ucast b # chars z"
  by (simp add: read_ascii)

lemma hd_char: "z \<noteq> [] \<Longrightarrow> unat d < 128 \<Longrightarrow> hd z = d \<longleftrightarrow> fst (READ_UTF8 z) = ucast d"
proof (cases z)
  case (Cons b w)
  assume d: "unat d < 128"
  then have "(ucast d :: u32) < 0x80" by (simp add: word_less_nat_alt unsigned_ucast_eq take_bit_eq_mod)
  moreover have "0xc0 \<le> b \<Longrightarrow> b \<noteq> d" using d by (auto simp: word_le_nat_alt)
  ultimately show ?thesis using Cons read_multi [of b w] by (cases "b < 0xc0") (auto simp: read_single ucast_u32_eq not_less)
qed simp

text \<open>The tails behind the accepted characters of a list.\<close>

fun tails_behind :: "(u32 \<Rightarrow> bool) \<Rightarrow> u32 list \<Rightarrow> u32 list list" where
  "tails_behind P [] = []"
| "tails_behind P (x # s) = (if P x then s # tails_behind P s else tails_behind P s)"

lemma tails_behind_cong: "(\<And>x. x \<in> set s \<Longrightarrow> P x = Q x) \<Longrightarrow> tails_behind P s = tails_behind Q s"
  by (induction s) auto

lemma byte_hits_cont: "\<forall>b \<in> Z. unat b < 128 \<Longrightarrow> byte_hits Z (dropWhile cont z) = byte_hits Z z"
  by (induction z) (auto simp: cont_unat)

lemma byte_hits_chars:
  assumes "\<forall>b \<in> Z. unat b < 128"
  shows "map chars (byte_hits Z z) = tails_behind (\<lambda>x. x \<in> ucast ` Z) (chars z)"
proof (induction z rule: chars.induct)
  case (1 z)
  show ?case
  proof (cases z)
    case (Cons b w)
    show ?thesis
    proof (cases "b < 0xc0")
      case True
      then show ?thesis using 1 Cons by (auto simp: read_single ucast_u32_eq)
    next
      case False
      then have b: "b \<notin> Z" using assms by (auto simp: word_less_nat_alt)
      have "fst (READ_UTF8 z) \<notin> ucast ` Z"
        using read_multi [of b w] False Cons assms
        by (auto simp: not_less word_le_nat_alt unsigned_ucast_eq take_bit_eq_mod)
      moreover have "byte_hits Z z = byte_hits Z (snd (READ_UTF8 z))"
        using b False Cons read_multi [of b w] by (simp add: byte_hits_cont [OF assms] not_less)
      ultimately show ?thesis using 1 Cons by simp
    qed
  qed simp
qed

lemma char_hits_chars: "map chars (char_hits c z) = tails_behind (\<lambda>x. x = c) (chars z)"
proof (induction z rule: chars.induct)
  case (1 z)
  then show ?case by (cases "z = []") (simp_all add: char_hits.simps [of c z] char_hits.simps [of c "[]"] read_eqs)
qed

lemma set_hits_chars: "map chars (set_hits z) = map (\<lambda>k. drop k (chars z)) [0..<length (chars z)]"
proof (induction z rule: chars.induct)
  case (1 z)
  show ?case
  proof (cases "z = []")
    case False
    have "map (\<lambda>k. drop k (chars z)) [0..<length (chars z)] =
        chars z # map (\<lambda>k. drop k (chars (snd (READ_UTF8 z)))) [0..<length (chars (snd (READ_UTF8 z)))]"
      using False by (simp add: upt_conv_Cons map_Suc_upt [symmetric] del: upt_Suc)
    then show ?thesis using 1 [OF False] False by (simp add: set_hits.simps [of z] snd_read)
  qed (simp add: set_hits.simps)
qed

lemma u8_u32:
  "unat c < 256 \<Longrightarrow> unat (ucast (c :: u32) :: u8) = unat c" "unat (ucast (b :: u8) :: u32) = unat b"
  "n < 256 \<Longrightarrow> unat (of_nat n :: u8) = n"
  using unat_u8_less [of b] by (simp_all add: unsigned_ucast_eq take_bit_eq_mod unat_of_nat)

lemma ascii_image: "x \<in> ucast ` {of_nat a, of_nat b :: u8} \<longleftrightarrow> unat (x :: u32) = a \<or> unat x = b" if "a < 256" "b < 256"
  using that by (auto simp: word_unat_eq_iff u8_u32)

lemma same_char_ascii:
  assumes "unat c < 128"
  shows "same_char nc c x \<longleftrightarrow> x \<in> ucast ` (if nc then {of_nat (sqlite3Toupper (unat c)), of_nat (UpperToLower (unat c))} else {ucast c :: u8})"
proof (cases nc)
  case True
  have "same_char nc c x \<longleftrightarrow> unat x = sqlite3Toupper (unat c) \<or> unat x = UpperToLower (unat c)"
    unfolding same_char_def word_less_nat_alt word_unat_eq_iff [of c x] toupper_iff [of "unat c", OF less_trans [OF assms], simplified] UpperToLower_iff
    using assms True by auto
  moreover have "sqlite3Toupper (unat c) < 256" "UpperToLower (unat c) < 256" using assms by (auto simp: toupper_iff lower_less)
  ultimately show ?thesis using True by (simp only: ascii_image if_True)
qed (use assms in \<open>auto simp: same_char_def word_unat_eq_iff u8_u32\<close>)

lemma hits_chars: "map chars (hits i c z) = tails_behind (same_char (noCase i) c) (chars z)"
proof (cases "c < 0x80")
  case True
  then have c: "unat c < 128" by (simp add: word_less_nat_alt)
  define Z where "Z = (if noCase i then {of_nat (sqlite3Toupper (unat c)), of_nat (UpperToLower (unat c))} else {ucast c :: u8})"
  have "\<forall>b \<in> Z. unat b < 128" 
  proof -
    have "sqlite3Toupper (unat c) < 128" "UpperToLower (unat c) < 128" using c by (auto simp: toupper_iff UpperToLower_iff)
    then show ?thesis using c by (auto simp: Z_def u8_u32)
  qed
  moreover have "same_char (noCase i) c = (\<lambda>x. x \<in> ucast ` Z)"
    using same_char_ascii [OF c, of "noCase i"] by (simp add: Z_def fun_eq_iff del: insert_iff image_insert)
  ultimately show ?thesis using True byte_hits_chars by (simp add: hits_def Z_def [symmetric])
next
  case False
  then have "tails_behind (\<lambda>x. x = c) (chars z) = tails_behind (same_char (noCase i) c) (chars z)"
    by (intro tails_behind_cong) (auto simp: same_char_def)
  then show ?thesis using False by (simp add: hits_def char_hits_chars)
qed

section \<open>Character sets\<close>

lemma in_ranges_simps [simp]: "in_ranges [] x \<longleftrightarrow> False" "in_ranges ((lo, hi) # rs) x \<longleftrightarrow> lo \<le> x \<and> x \<le> hi \<or> in_ranges rs x"
  by (simp_all add: in_ranges_def)

lemma range_single: "lo \<le> x \<and> x \<le> lo \<longleftrightarrow> x = lo" for x :: u32
  by auto

lemma set_ranges_single:
  "c \<noteq> 0x5D \<Longrightarrow> p \<noteq> [] \<Longrightarrow> \<not> (c = 0x2D \<and> hd p \<noteq> 0x5D \<and> prior > 0) \<Longrightarrow> set_ranges prior (c # p) = map_option (apfst (Cons (c, c))) (set_ranges c p)"
  "c \<noteq> 0x5D \<Longrightarrow> set_ranges prior [c] = map_option (apfst (Cons (c, c))) (set_ranges c [])"
  by (cases p; force simp: set_ranges.simps(2) [of prior c])+

text \<open>The character read last and what follows it.\<close>

abbreviation rest_chars :: "u32 \<Rightarrow> bytes \<Rightarrow> u32 list" where
  "rest_chars c2 z \<equiv> (if c2 = 0 then [] else c2 # chars z)"

lemma rest_chars_read: "nz z \<Longrightarrow> rest_chars (fst (READ_UTF8 z)) (snd (READ_UTF8 z)) = chars z"
  using read_zero [of z] by (cases "z = []") auto

definition scan_result :: "u32 \<Rightarrow> bool \<Rightarrow> ((u32 \<times> u32) list \<times> u32 list) option \<Rightarrow> u32 \<times> bool \<times> bytes \<Rightarrow> bool" where
  "scan_result c seen spec res \<longleftrightarrow>
     (case spec of
        None \<Rightarrow> fst res = 0
      | Some (rs, q) \<Rightarrow> fst res = 0x5D \<and> fst (snd res) = (seen \<or> in_ranges rs c) \<and> chars (snd (snd res)) = q \<and> nz (snd (snd res)))"

lemma scan_result_Cons:
  "scan_result c (seen \<or> lo \<le> c \<and> c \<le> hi) spec res \<Longrightarrow> scan_result c seen (map_option (apfst (Cons (lo, hi))) spec) res"
  by (auto simp: scan_result_def split: option.splits)

lemma set_scan_correct: "nz z \<Longrightarrow> (c2 = 0 \<Longrightarrow> z = []) \<Longrightarrow> scan_result c seen (set_ranges prior (rest_chars c2 z)) (set_scan c c2 prior seen z)"
proof (induction c c2 prior seen z rule: set_scan.induct)
  case (1 c c2 prior seen z)
  have nz: "nz (snd (READ_UTF8 z))" "nz (snd (READ_UTF8 (snd (READ_UTF8 z))))" using "1.prems" by (simp_all add: nz_read)
  have nil: "\<And>w. nz w \<Longrightarrow> fst (READ_UTF8 w) = 0 \<Longrightarrow> snd (READ_UTF8 w) = []" by (auto simp: read_zero READ_UTF8.simps(1))
  consider (stop) "c2 = 0 \<or> c2 = 0x5D"
    | (range) "\<not> (c2 = 0 \<or> c2 = 0x5D)" "c2 = 0x2D \<and> z \<noteq> [] \<and> hd z \<noteq> 0x5D \<and> prior > 0"
    | (single) "\<not> (c2 = 0 \<or> c2 = 0x5D)" "\<not> (c2 = 0x2D \<and> z \<noteq> [] \<and> hd z \<noteq> 0x5D \<and> prior > 0)" by blast
  then show ?case
  proof cases
    case stop
    then show ?thesis using "1.prems" by (auto simp: set_scan.simps [of c c2 prior seen z] scan_result_def set_ranges.simps)
  next
    case range
    let ?d = "fst (READ_UTF8 z)" and ?w = "snd (READ_UTF8 z)"
    have d: "?d \<noteq> 0x5D" using range hd_char [of z "0x5D"] by simp
    have "scan_result c (seen \<or> prior \<le> c \<and> c \<le> ?d) (set_ranges 0 (chars ?w)) (set_scan c c2 prior seen z)"
      using "1.IH"(1) [OF range refl refl, unfolded read_eqs, OF nz(2) nil [OF nz(1)]] range rest_chars_read [OF nz(1)]
      by (simp add: set_scan.simps [of c 45 prior seen z] read_eqs Let_def)
    from scan_result_Cons [OF this] show ?thesis using range d by (simp add: set_ranges.simps)
  next
    case single
    have z: "z \<noteq> [] \<Longrightarrow> hd z = 0x5D \<longleftrightarrow> fst (READ_UTF8 z) = 0x5D" using hd_char [of z "0x5D"] by simp
    have "scan_result c (seen \<or> c2 \<le> c \<and> c \<le> c2) (set_ranges c2 (chars z)) (set_scan c c2 prior seen z)"
      using "1.IH"(2) [OF single, unfolded read_eqs, OF nz(1) nil [OF "1.prems"(1)]]
      unfolding set_scan.simps [of c c2 prior seen z] read_eqs Let_def range_single rest_chars_read [OF "1.prems"(1)] if_not_P [OF single(1)] if_not_P [OF single(2)] .
    from scan_result_Cons [OF this] show ?thesis using single z set_ranges_single(1) [of c2 "chars z" prior] set_ranges_single(2) [of c2 prior]
      by (cases "z = []") (simp_all del: set_ranges.simps)
  qed
qed

lemma read_nil: "nz z \<Longrightarrow> fst (READ_UTF8 z) = 0 \<Longrightarrow> snd (READ_UTF8 z) = []"
  by (auto simp: read_zero READ_UTF8.simps(1))

lemma set_scan_read: "nz z \<Longrightarrow> scan_result c seen (set_ranges prior (chars z)) (set_scan c (fst (READ_UTF8 z)) prior seen (snd (READ_UTF8 z)))"
proof -
  assume z: "nz z"
  have "scan_result c seen (set_ranges prior (rest_chars (fst (READ_UTF8 z)) (snd (READ_UTF8 z)))) (set_scan c (fst (READ_UTF8 z)) prior seen (snd (READ_UTF8 z)))"
    by (rule set_scan_correct [OF nz_read [OF z]]) (rule read_nil [OF z])
  then show ?thesis by (simp only: rest_chars_read [OF z])
qed

definition scan_body :: "u32 \<Rightarrow> bytes \<Rightarrow> u32 \<times> bool \<times> bytes" where
  "scan_body c z =
     (if fst (READ_UTF8 z) = 0x5D
      then set_scan c (fst (READ_UTF8 (snd (READ_UTF8 z)))) 0 (c = 0x5D) (snd (READ_UTF8 (snd (READ_UTF8 z))))
      else set_scan c (fst (READ_UTF8 z)) 0 False (snd (READ_UTF8 z)))"

lemma scan_body_correct: "nz z \<Longrightarrow> scan_result c False (set_body (chars z)) (scan_body c z)"
proof -
  assume z: "nz z"
  show ?thesis
  proof (cases "fst (READ_UTF8 z) = 0x5D")
    case True
    then have n: "z \<noteq> []" by (auto simp: READ_UTF8.simps(1))
    have "scan_result c (False \<or> 0x5D \<le> c \<and> c \<le> 0x5D) (set_ranges 0 (chars (snd (READ_UTF8 z)))) (scan_body c z)"
      using True set_scan_read [OF nz_read [OF z], of c "c = 0x5D" 0] by (simp add: scan_body_def range_single)
    from scan_result_Cons [OF this] show ?thesis using True n by (simp add: set_body_def)
  next
    case False
    then have "set_body (chars z) = set_ranges 0 (chars z)" by (cases "z = []") (simp_all add: set_body_def)
    then show ?thesis using False set_scan_read [OF z, of c False 0] by (simp add: scan_body_def)
  qed
qed

lemma glob_set_scan:
  "glob_set z c =
     (let invert = (fst (READ_UTF8 z) = 0x5E); res = scan_body c (if invert then snd (READ_UTF8 z) else z)
      in if fst res = 0 \<or> fst (snd res) = invert then None else Some (snd (snd res)))"
  by (simp add: glob_set_def scan_body_def read_eqs Let_def case_prod_beta)

lemma glob_set_correct:
  assumes z: "nz z"
  shows "(case parse_set (chars z) of
      None \<Rightarrow> glob_set z c = None
    | Some (P, q) \<Rightarrow> (if P c then \<exists>z'. glob_set z c = Some z' \<and> chars z' = q \<and> nz z' else glob_set z c = None))"
proof (cases "fst (READ_UTF8 z) = 0x5E")
  case True
  then have "z \<noteq> []" by (auto simp: READ_UTF8.simps(1))
  then have "parse_set (chars z) = map_option (apfst (\<lambda>rs x. \<not> in_ranges rs x)) (set_body (chars (snd (READ_UTF8 z))))"
    using True by (simp add: parse_set_def)
  then show ?thesis using scan_body_correct [OF nz_read [OF z], of c] True
    by (auto simp: glob_set_scan Let_def scan_result_def split: option.splits)
next
  case False
  then have "parse_set (chars z) = map_option (apfst in_ranges) (set_body (chars z))"
    by (cases "z = []") (simp_all add: parse_set_def set_body_def)
  then show ?thesis using scan_body_correct [OF z, of c] False
    by (auto simp: glob_set_scan Let_def scan_result_def split: option.splits)
qed

section \<open>The matcher decides the language\<close>

fun somewhere :: "(u32 list \<Rightarrow> bool) \<Rightarrow> u32 list \<Rightarrow> bool" where
  "somewhere L [] = L []"
| "somewhere L (x # s) = (L (x # s) \<or> somewhere L s)"

lemma somewhere_iff: "somewhere L s \<longleftrightarrow> (\<exists>k \<le> length s. L (drop k s))"
proof (induction s)
  case (Cons x s)
  have "(\<exists>k \<le> length (x # s). L (drop k (x # s))) \<longleftrightarrow> L (x # s) \<or> (\<exists>k \<le> length s. L (drop k s))"
    using Ex_less_Suc2 [of "Suc (length s)" "\<lambda>k. L (drop k (x # s))"] by (simp add: less_Suc_eq_le)
  then show ?case using Cons by simp
qed simp

lemma somewhere_drop: "somewhere L (drop k s) \<Longrightarrow> somewhere L s"
  by (induction s arbitrary: k) (auto simp: drop_Cons split: nat.splits)

lemma somewhere_cong: "(\<And>t. L t = M t) \<Longrightarrow> somewhere L s = somewhere M s"
  by (induction s) auto

lemma matches_Any: "matches (Any # is) s = somewhere (matches is) s"
  by (simp add: somewhere_iff list_ex_iff less_Suc_eq_le Bex_def atLeast0LessThan del: upt_Suc)

lemma matches_One: "matches (One P # is) s \<longleftrightarrow> s \<noteq> [] \<and> P (hd s) \<and> matches is (tl s)"
  by (cases s) simp_all

lemma somewhere_const [simp]: "\<not> somewhere (\<lambda>s. False) s"
  by (induction s) simp_all

lemma somewhere_One:
  "somewhere (\<lambda>s. s \<noteq> [] \<and> P (hd s) \<and> L (tl s)) s \<longleftrightarrow> (\<exists>t \<in> set (tails_behind P s). L t)"
  by (induction s) auto

lemma accepts_simps:
  "accepts i e [] s \<longleftrightarrow> s = []"
  "c = matchAll i \<Longrightarrow> accepts i e (c # p) s = somewhere (accepts i e p) s"
  "c \<noteq> matchAll i \<Longrightarrow> c = e \<Longrightarrow> matchSet i \<noteq> 0 \<Longrightarrow> accepts i e (c # p) s \<longleftrightarrow>
     s \<noteq> [] \<and> (case parse_set p of None \<Rightarrow> False | Some (P, q) \<Rightarrow> P (hd s) \<and> accepts i e q (tl s))"
  "c \<noteq> matchAll i \<Longrightarrow> c = e \<Longrightarrow> matchSet i = 0 \<Longrightarrow> accepts i e (c # p) s \<longleftrightarrow>
     p \<noteq> [] \<and> s \<noteq> [] \<and> same_char (noCase i) (hd p) (hd s) \<and> accepts i e (tl p) (tl s)"
  "c \<noteq> matchAll i \<Longrightarrow> c \<noteq> e \<Longrightarrow> accepts i e (c # p) s \<longleftrightarrow>
     s \<noteq> [] \<and> (c = matchOne i \<or> same_char (noCase i) c (hd s)) \<and> accepts i e p (tl s)"
proof -
  show "c = matchAll i \<Longrightarrow> accepts i e (c # p) s = somewhere (accepts i e p) s"
    by (cases "parse i e p") (simp_all add: accepts_def [abs_def] matches_Any del: matches.simps(2))
qed (auto simp: accepts_def matches_One simp del: matches.simps(3) split: option.splits list.splits prod.splits)

text \<open>What the search loops find: tails of the string in order, so a failure that no later start can
  mend ends the search.\<close>

fun nested :: "u32 list list \<Rightarrow> bool" where
  "nested [] = True"
| "nested (t # ts) \<longleftrightarrow> (\<forall>u \<in> set ts. \<exists>k. u = drop k t) \<and> nested ts"

lemma tails_behind_drop: "t \<in> set (tails_behind P s) \<Longrightarrow> \<exists>k. t = drop k s"
  by (induction s) (force simp: drop_Cons split: if_splits nat.splits intro: exI [of _ "Suc _"] exI [of _ "Suc 0"])+

lemma nested_tails: "nested (tails_behind P s)"
  by (induction s) (auto dest: tails_behind_drop)

lemma nested_drops: "nested (map (\<lambda>k. drop k s) [n..<m])"
proof (induction "m - n" arbitrary: n)
  case (Suc d)
  have "\<exists>j. drop k s = drop j (drop n s)" if "n \<le> k" for k using that by (intro exI [of _ "k - n"]) simp
  then show ?case using Suc by (auto simp: upt_conv_Cons)
qed simp

definition decides :: "(bytes \<Rightarrow> int) \<Rightarrow> (u32 list \<Rightarrow> bool) \<Rightarrow> bytes \<Rightarrow> bool" where
  "decides f L s \<longleftrightarrow> (f s = SQLITE_MATCH \<longleftrightarrow> L (chars s)) \<and> (f s \<notin> {SQLITE_MATCH, SQLITE_NOMATCH} \<longrightarrow> \<not> somewhere L (chars s))"

lemma somewhere_start: "L s \<Longrightarrow> somewhere L s"
  by (cases s) simp_all

lemma somewhere_here: "L (drop k s) \<Longrightarrow> somewhere L s"
  using somewhere_drop [of L k s] somewhere_start [of L "drop k s"] by blast

lemma first_result_correct:
  "nested (map chars ss) \<Longrightarrow> \<forall>s \<in> set ss. decides f L s \<Longrightarrow> first_result f ss = SQLITE_MATCH \<longleftrightarrow> (\<exists>t \<in> set (map chars ss). L t)"
proof (induction ss)
  case (Cons s ss)
  show ?case
  proof (cases "f s \<in> {SQLITE_MATCH, SQLITE_NOMATCH}")
    case False
    then have n: "\<not> somewhere L (chars s)" using Cons.prems by (simp add: decides_def)
    have "\<not> L t" if t: "t \<in> set (map chars (s # ss))" for t
    proof
      assume L: "L t"
      obtain k where "t = drop k (chars s)" using t Cons.prems(1) by (cases "t = chars s") (auto intro: drop_0 [symmetric])
      then show False using n L somewhere_here [of L k "chars s"] by simp
    qed
    then show ?thesis using False by (auto simp: Let_def)
  next
    case True
    have IH: "first_result f ss = SQLITE_MATCH \<longleftrightarrow> (\<exists>t \<in> set (map chars ss). L t)" using Cons by simp
    have s: "f s = SQLITE_MATCH \<longleftrightarrow> L (chars s)" using Cons.prems(2) by (simp add: decides_def)
    show ?thesis using True s IH by (cases "f s = SQLITE_MATCH") simp_all
  qed
qed simp

lemma somewhere_twice: "somewhere (somewhere L) s = somewhere L s"
  by (induction s) auto

lemma somewhere_Nil: "somewhere (\<lambda>s. s = []) s"
  by (induction s) auto

lemma somewhere_behind: "somewhere (\<lambda>s. s \<noteq> [] \<and> L (tl s)) s \<longleftrightarrow> s \<noteq> [] \<and> somewhere L (tl s)"
proof (induction s)
  case (Cons x s)
  then show ?case by (cases s) auto
qed simp

definition sane :: "compareInfo \<Rightarrow> u32 \<Rightarrow> bool" where
  "sane i e \<longleftrightarrow> (matchOne i \<noteq> 0 \<longrightarrow> matchOne i \<noteq> matchAll i \<and> matchOne i \<noteq> e) \<and> (matchSet i \<noteq> 0 \<longrightarrow> unat e < 128)"

definition skip_result :: "compareInfo \<Rightarrow> (u32 list \<Rightarrow> u32 list \<Rightarrow> bool) \<Rightarrow> bool \<Rightarrow> (u32 \<times> bytes \<times> bytes) option \<Rightarrow> bool" where
  "skip_result i L here res \<longleftrightarrow>
     (case res of
        None \<Rightarrow> \<not> here
      | Some (c, p, s) \<Rightarrow>
          if c = 0 then here
          else here = somewhere (L (c # chars p)) (chars s) \<and> c \<noteq> matchAll i \<and> c \<noteq> matchOne i \<and> nz p \<and> nz s)"

lemma skip_wild_correct:
  "sane i e \<Longrightarrow> nz p \<Longrightarrow> nz s \<Longrightarrow> skip_result i (accepts i e) (somewhere (accepts i e (chars p)) (chars s)) (skip_wild i p s)"
proof (induction i p s rule: skip_wild.induct)
  case (1 i p s)
  show ?case
  proof (cases "p = []")
    case True
    have "accepts i e [] = (\<lambda>s. s = [])" by (simp add: accepts_simps fun_eq_iff)
    then show ?thesis using True by (simp add: skip_wild.simps somewhere_Nil skip_result_def)
  next
    case False
    let ?c = "fst (READ_UTF8 p)" and ?p = "snd (READ_UTF8 p)" and ?s = "snd (READ_UTF8 s)"
    note nz = nz_read [OF "1.prems"(2)] "1.prems"(3) nz_read [OF "1.prems"(3)]
    have c: "?c \<noteq> 0" "chars p = ?c # chars ?p" using False read_nonzero [OF "1.prems"(2)] by simp_all
    have L: "somewhere (accepts i e (chars p)) (chars s) \<longleftrightarrow> chars s \<noteq> [] \<and> somewhere (accepts i e (chars ?p)) (tl (chars s))" if "?c = matchOne i"
    proof -
      have "accepts i e (chars p) = (\<lambda>s. s \<noteq> [] \<and> accepts i e (chars ?p) (tl s))"
        unfolding c(2) using c(1) that "1.prems"(1) by (simp add: fun_eq_iff accepts_simps(5) sane_def)
      then show ?thesis by (simp add: somewhere_behind)
    qed
    consider (lit) "?c \<noteq> matchAll i" "?c \<noteq> matchOne i" | (all) "?c = matchAll i" "?c \<noteq> matchOne i"
      | (short) "?c = matchOne i" "s = []" | (one) "?c = matchOne i" "s \<noteq> []"
      by blast
    then show ?thesis
    proof cases
      case lit
      then show ?thesis using False c nz by (simp add: skip_wild.simps [of i p s] read_eqs skip_result_def)
    next
      case all
      then have "skip_wild i p s = skip_wild i ?p s" using False by (simp add: skip_wild.simps [of i p s] read_eqs)
      moreover have "somewhere (accepts i e (chars p)) (chars s) = somewhere (accepts i e (chars ?p)) (chars s)"
        unfolding c(2) by (simp add: accepts_simps(2) [OF all(1), abs_def] somewhere_twice)
      ultimately show ?thesis using "1.IH"(2) [OF False refl refl, unfolded read_eqs, OF _ _ "1.prems"(1) nz(1,2)] all by simp
    next
      case short
      then have "skip_wild i p s = None" using False c(1) by (simp add: skip_wild.simps [of i p "[]"] read_eqs READ_UTF8.simps(1))
      then show ?thesis using L short by (simp add: skip_result_def)
    next
      case one
      then have "skip_wild i p s = skip_wild i ?p ?s" using False c(1) read_zero [OF nz(2)] by (simp add: skip_wild.simps [of i p s] read_eqs)
      moreover have "somewhere (accepts i e (chars p)) (chars s) = somewhere (accepts i e (chars ?p)) (chars ?s)" using L one by simp
      ultimately show ?thesis
        using "1.IH"(1) [OF False refl refl, unfolded read_eqs, OF _ one(1) _ "1.prems"(1) nz(1,3)] c(1) one read_zero [OF nz(2)] by simp
    qed
  qed
qed

lemma nz_set_hits: "nz z \<Longrightarrow> t \<in> set (set_hits z) \<Longrightarrow> nz t"
proof (induction z rule: set_hits.induct)
  case (1 z)
  then show ?case using nz_read [of z] by (cases "z = []") (auto simp: set_hits.simps [of z] set_hits.simps [of "[]"] snd_read)
qed

lemma nz_char_hits: "nz z \<Longrightarrow> t \<in> set (char_hits c z) \<Longrightarrow> nz t"
proof (induction c z rule: char_hits.induct)
  case (1 c z)
  then show ?case using nz_read [of z]
    by (cases "z = []") (auto simp: char_hits.simps [of c z] char_hits.simps [of c "[]"] read_eqs split: if_splits)
qed

lemma nz_byte_hits: "nz z \<Longrightarrow> t \<in> set (byte_hits Z z) \<Longrightarrow> nz t"
  by (induction z) (auto split: if_splits)

lemma nz_hits: "nz z \<Longrightarrow> t \<in> set (hits i c z) \<Longrightarrow> nz t"
proof -
  assume z: "nz z" and t: "t \<in> set (hits i c z)"
  then obtain Z where "t \<in> set (byte_hits Z z) \<or> t \<in> set (char_hits c z)" by (auto simp: hits_def split: if_splits)
  then show ?thesis using nz_byte_hits [OF z] nz_char_hits [OF z] by blast
qed

text \<open>A pattern character that takes one character of the string.\<close>

lemma somewhere_tl: "somewhere (\<lambda>s. s \<noteq> [] \<and> P (hd s) \<and> L (tl s)) t \<Longrightarrow> somewhere L (tl t)"
proof (induction t)
  case (Cons x t)
  then show ?case by (cases t) (auto intro: somewhere_start)
qed simp

lemma decides_step:
  assumes "decides g M (snd (READ_UTF8 s))" and "s \<noteq> []" and "P (fst (READ_UTF8 s))"
    and "f s = g (snd (READ_UTF8 s))" and "L = (\<lambda>s. s \<noteq> [] \<and> P (hd s) \<and> M (tl s))"
  shows "decides f L s"
proof -
  have c: "chars s = fst (READ_UTF8 s) # chars (snd (READ_UTF8 s))" using assms(2) by simp
  have "somewhere L (chars s) \<Longrightarrow> somewhere M (chars (snd (READ_UTF8 s)))" using somewhere_tl [of P M "chars s"] c assms(5) by simp
  moreover have "L (chars s) = M (chars (snd (READ_UTF8 s)))" unfolding assms(5) c using assms(3) by simp
  ultimately show ?thesis using assms(1,4) unfolding decides_def by auto
qed

lemma decides_test:
  assumes "f s = (if s \<noteq> [] \<and> P (fst (READ_UTF8 s)) then g (snd (READ_UTF8 s)) else SQLITE_NOMATCH)" and "L = (\<lambda>s. s \<noteq> [] \<and> P (hd s) \<and> M (tl s))"
    and "decides g M (snd (READ_UTF8 s))"
  shows "decides f L s"
proof (cases "s \<noteq> [] \<and> P (fst (READ_UTF8 s))")
  case True
  then show ?thesis using decides_step [OF assms(3) _ _ _ assms(2)] assms(1) by simp
next
  case False
  then show ?thesis using assms(1,2) by (auto simp: decides_def)
qed

lemma same_char_zero: "c \<noteq> 0 \<Longrightarrow> \<not> same_char nocase c 0"
  using lower_eq_0 [of "unat c"] by (auto simp: same_char_def word_less_nat_alt unat_eq_0)

lemma decides_fail: "f s = SQLITE_NOMATCH \<Longrightarrow> \<not> L (chars s) \<Longrightarrow> decides f L s"
  by (simp add: decides_def)

text \<open>A wildcard and what follows it.\<close>

lemma decides_somewhere: "(f s = SQLITE_MATCH \<longleftrightarrow> somewhere L (chars s)) \<Longrightarrow> decides f (somewhere L) s"
  by (auto simp: decides_def somewhere_twice)

lemma search_set:
  assumes "\<And>t. nz t \<Longrightarrow> decides f L t" and "nz s" and "\<not> L []"
  shows "first_result f (set_hits s) = SQLITE_MATCH \<longleftrightarrow> somewhere L (chars s)"
proof -
  have "nested (map chars (set_hits s))" by (simp add: set_hits_chars nested_drops)
  moreover have "\<forall>t \<in> set (set_hits s). decides f L t" using nz_set_hits [OF assms(2)] assms(1) by blast
  ultimately have "first_result f (set_hits s) = SQLITE_MATCH \<longleftrightarrow> (\<exists>t \<in> set (map chars (set_hits s)). L t)" by (rule first_result_correct)
  also have "\<dots> \<longleftrightarrow> (\<exists>k < length (chars s). L (drop k (chars s)))" by (auto simp: set_hits_chars)
  also have "\<dots> \<longleftrightarrow> somewhere L (chars s)" unfolding somewhere_iff using assms(3) by (auto simp: le_less)
  finally show ?thesis .
qed

lemma search_char:
  assumes "\<And>t. nz t \<Longrightarrow> decides f L t" and "nz s"
  shows "first_result f (hits i c s) = SQLITE_MATCH \<longleftrightarrow> somewhere (\<lambda>s. s \<noteq> [] \<and> same_char (noCase i) c (hd s) \<and> L (tl s)) (chars s)"
proof -
  have "nested (map chars (hits i c s))" by (simp add: hits_chars nested_tails)
  moreover have "\<forall>t \<in> set (hits i c s). decides f L t" using nz_hits [OF assms(2)] assms(1) by blast
  ultimately show ?thesis unfolding somewhere_One using first_result_correct [of "hits i c s" f L] by (simp only: hits_chars)
qed

text \<open>The three kinds of pattern character that take one character of the string.\<close>

lemma accepts_step:
  "c \<noteq> matchAll i \<Longrightarrow> c = e \<Longrightarrow> matchSet i = 0 \<Longrightarrow>
     accepts i e (c # d # p) = (\<lambda>s. s \<noteq> [] \<and> same_char (noCase i) d (hd s) \<and> accepts i e p (tl s))"
  "c \<noteq> matchAll i \<Longrightarrow> c \<noteq> e \<Longrightarrow>
     accepts i e (c # p) = (\<lambda>s. s \<noteq> [] \<and> (c = matchOne i \<or> same_char (noCase i) c (hd s)) \<and> accepts i e p (tl s))"
  "c \<noteq> matchAll i \<Longrightarrow> c = e \<Longrightarrow> matchSet i \<noteq> 0 \<Longrightarrow> parse_set p = Some (P, q) \<Longrightarrow>
     accepts i e (c # p) = (\<lambda>s. s \<noteq> [] \<and> P (hd s) \<and> accepts i e q (tl s))"
  by (simp_all add: fun_eq_iff accepts_simps)

lemma search_correct:
  assumes i: "sane i e" and nz: "nz p" "nz s" and c: "c \<noteq> 0" "c \<noteq> matchAll i" "c \<noteq> matchOne i"
    and IH: "\<And>q t. length q \<le> Suc (length p) \<Longrightarrow> nz q \<Longrightarrow> nz t \<Longrightarrow> decides (\<lambda>s. patternCompare q s i e) (accepts i e (chars q)) t"
  shows "(if c = e \<and> matchSet i \<noteq> 0 then first_result (\<lambda>s. patternCompare (ucast e # p) s i e) (set_hits s)
     else if c = e then
       (if fst (READ_UTF8 p) = 0 then SQLITE_NOWILDCARDMATCH
        else first_result (\<lambda>s. patternCompare (snd (READ_UTF8 p)) s i e) (hits i (fst (READ_UTF8 p)) s))
     else first_result (\<lambda>s. patternCompare p s i e) (hits i c s)) = SQLITE_MATCH
    \<longleftrightarrow> somewhere (accepts i e (c # chars p)) (chars s)" (is "?r = _ \<longleftrightarrow> ?here")
proof -
  consider (set) "c = e" "matchSet i \<noteq> 0" | (none) "c = e" "matchSet i = 0" "p = []" | (esc) "c = e" "matchSet i = 0" "p \<noteq> []" | (lit) "c \<noteq> e"
    by blast
  then show ?thesis
  proof cases
    case set
    then have e: "unat e < 128" "unat (ucast e :: u8) = unat e" using i by (simp_all add: sane_def u8_u32)
    then have "(ucast (ucast e :: u8) :: u32) = e" by (simp add: word_unat_eq_iff u8_u32)
    then have p: "chars (ucast e # p) = c # chars p" using chars_ascii [of "ucast e" p] e set by simp
    have "nz (ucast e # p)" using nz(1) c(1) set e by (auto simp: word_unat_eq_iff)
    then have "\<And>t. nz t \<Longrightarrow> decides (\<lambda>s. patternCompare (ucast e # p) s i e) (accepts i e (c # chars p)) t" using IH [of "ucast e # p"] p by simp
    from search_set [OF this nz(2)] show ?thesis using set c by (simp add: accepts_simps(3))
  next
    case none
    then have "accepts i e (c # chars p) = (\<lambda>s. False)" using c by (simp add: fun_eq_iff accepts_simps(4))
    then show ?thesis using none by (simp add: READ_UTF8.simps(1))
  next
    case esc
    have l: "length (snd (READ_UTF8 p)) \<le> Suc (length p)" using read_length(3) [of p] by (simp add: read_eqs)
    have "accepts i e (c # chars p) = (\<lambda>s. s \<noteq> [] \<and> same_char (noCase i) (fst (READ_UTF8 p)) (hd s) \<and> accepts i e (chars (snd (READ_UTF8 p))) (tl s))"
      using accepts_step(1) [OF c(2) esc(1,2)] esc(3) by simp
    then show ?thesis using search_char [OF IH [OF l nz_read [OF nz(1)]] nz(2)] esc read_zero [OF nz(1)] by simp
  next
    case lit
    then show ?thesis using search_char [OF IH [OF _ nz(1)] nz(2)] c by (simp add: accepts_step(2))
  qed
qed

lemma patternCompare_decides:
  "sane i e \<Longrightarrow> nz p \<Longrightarrow> nz s \<Longrightarrow> decides (\<lambda>s. patternCompare p s i e) (accepts i e (chars p)) s"
proof (induction "length p" arbitrary: p s rule: less_induct)
  case less
  let ?c = "fst (READ_UTF8 p)" and ?p = "snd (READ_UTF8 p)" and ?x = "fst (READ_UTF8 s)" and ?s = "snd (READ_UTF8 s)"
  show ?case
  proof (cases "p = []")
    case True
    then show ?thesis by (simp add: patternCompare.simps [of "[]"] decides_def accepts_simps)
  next
    case False
    have c: "?c \<noteq> 0" "chars p = ?c # chars ?p" using False read_nonzero [OF less.prems(2)] by simp_all
    have l: "length ?p < length p" using read_length(1) [OF False] by (simp add: read_eqs)
    have nz: "nz ?p" "nz s" "nz ?s" using less.prems by (simp_all add: nz_read)
    have x: "s = [] \<longleftrightarrow> ?x = 0" using read_zero [OF less.prems(3)] by simp
    note IH = less.hyps [OF _ less.prems(1)]
    note r = patternCompare.simps [of p s i e, unfolded read_eqs Let_def if_not_P [OF False]]
    consider (all) "?c = matchAll i"
      | (set) "?c \<noteq> matchAll i" "?c = e" "matchSet i \<noteq> 0"
      | (esc) "?c \<noteq> matchAll i" "?c = e" "matchSet i = 0"
      | (lit) "?c \<noteq> matchAll i" "?c \<noteq> e" by blast
    then show ?thesis
    proof cases
      case all
      have "patternCompare p s i e = SQLITE_MATCH \<longleftrightarrow> somewhere (accepts i e (chars ?p)) (chars s)"
      proof (cases "skip_wild i ?p s")
        case None
        then show ?thesis using skip_wild_correct [OF less.prems(1) nz(1,2)] all by (simp add: r skip_result_def)
      next
        case (Some a)
        obtain d q t where a: "a = (d, q, t)" by (cases a)
        note k = skip_wild_correct [OF less.prems(1) nz(1,2), unfolded Some a skip_result_def option.case prod.case]
        show ?thesis
        proof (cases "d = 0")
          case True
          then show ?thesis using k all Some a by (simp add: r)
        next
          case False
          then have "length q < length ?p" using skip_wild_length [of i ?p s d q t] Some a by simp
          then have "\<And>u t. length u \<le> Suc (length q) \<Longrightarrow> nz u \<Longrightarrow> nz t \<Longrightarrow> decides (\<lambda>s. patternCompare u s i e) (accepts i e (chars u)) t"
            using IH l by (meson le_less_trans less_trans_Suc not_less_eq order.strict_trans1 Suc_leI)
          from search_correct [OF less.prems(1) _ _ False _ _ this] show ?thesis using k all Some a False by (simp add: r)
        qed
      qed
      from decides_somewhere [where f = "\<lambda>s. patternCompare p s i e", OF this]
      show ?thesis unfolding c(2) accepts_simps(2) [OF all, THEN ext] .
    next
      case set
      show ?thesis
      proof (cases "s = []")
        case True
        then have "\<not> accepts i e (chars p) (chars s)" unfolding c(2) using set by (simp add: accepts_simps(3))
        moreover have "patternCompare p s i e = SQLITE_NOMATCH" using set True [unfolded x] by (simp add: r)
        ultimately show ?thesis by (intro decides_fail)
      next
        case False
        then have x: "?x \<noteq> 0" using x by simp
        note g = glob_set_correct [OF nz(1), of ?x]
        show ?thesis
        proof (cases "glob_set ?p ?x")
          case None
          then have "\<not> accepts i e (chars p) (chars s)" using g set c(2) False by (auto simp: accepts_simps(3) split: option.splits if_splits)
          then show ?thesis using None set x by (intro decides_fail) (simp_all add: r)
        next
          case (Some q)
          then obtain P w where w: "parse_set (chars ?p) = Some (P, w)" "P ?x" "chars q = w" "nz q" using g by (auto split: option.splits if_splits)
          have "length q < length p" using glob_set_length [OF Some] l by simp
          from decides_step [where s = s and P = P and f = "\<lambda>s. patternCompare p s i e" and L = "accepts i e (chars p)", OF IH [OF this w(4) nz(3)] False w(2)]
          show ?thesis using accepts_step(3) [OF set w(1)] Some set x w(3) c(2) by (simp add: r)
        qed
      qed
    next
      case esc
      let ?d = "fst (READ_UTF8 ?p)" and ?q = "snd (READ_UTF8 ?p)"
      show ?thesis
      proof (cases "?p = []")
        case True
        then have "\<not> accepts i e (chars p) (chars s)" unfolding c(2) using esc by (simp add: accepts_simps(4))
        then show ?thesis using True esc by (intro decides_fail) (simp_all add: r READ_UTF8.simps(1))
      next
        case False
        have d: "?d \<noteq> 0" using False nz(1) by (rule read_nonzero [rotated])
        have "length ?q < length p" using l read_length(3) [of ?p] by (simp add: read_eqs)
        note IH = IH [OF this nz_read [OF nz(1)] nz(3)]
        show ?thesis
        proof (rule decides_test [OF _ _ IH])
          show "patternCompare p s i e = (if s \<noteq> [] \<and> same_char (noCase i) ?d ?x then patternCompare ?q ?s i e else SQLITE_NOMATCH)"
            using esc d same_char_zero [OF d, of "noCase i"] x by (auto simp: r same_char_def)
          show "accepts i e (chars p) = (\<lambda>s. s \<noteq> [] \<and> same_char (noCase i) ?d (hd s) \<and> accepts i e (chars ?q) (tl s))"
            using accepts_step(1) [OF esc] c(2) False by simp
        qed
      qed
    next
      case lit
      show ?thesis
      proof (rule decides_test [OF _ _ IH [OF l nz(1,3)]])
        show "patternCompare p s i e = (if s \<noteq> [] \<and> (?c = matchOne i \<or> same_char (noCase i) ?c ?x) then patternCompare ?p ?s i e else SQLITE_NOMATCH)"
          using lit same_char_zero [OF c(1), of "noCase i"] x by (auto simp: r same_char_def)
        show "accepts i e (chars p) = (\<lambda>s. s \<noteq> [] \<and> (?c = matchOne i \<or> same_char (noCase i) ?c (hd s)) \<and> accepts i e (chars ?p) (tl s))"
          unfolding c(2) accepts_step(2) [OF lit] ..
      qed
    qed
  qed
qed

section \<open>Properties\<close>

lemma nz_c_text: "nz (c_text z)"
  by (auto simp: c_text_def dest: set_takeWhileD)

lemma CharLen_chars: "sqlite3Utf8CharLen z None = length (chars z)"
proof (induction z rule: chars.induct)
  case (1 z)
  then show ?case by (cases z) (simp_all add: snd_read [symmetric] del: SQLITE_SKIP_UTF8.simps)
qed

lemma patternCompare_accepts: "sane i e \<Longrightarrow> patternCompare (c_text p) (c_text s) i e = SQLITE_MATCH \<longleftrightarrow> accepts i e (chars (c_text p)) (chars (c_text s))"
  using patternCompare_decides [OF _ nz_c_text nz_c_text] by (simp add: decides_def)

lemma sane_info: "pInfo \<in> {globInfo, likeInfoNorm, likeInfoAlt} \<Longrightarrow> sane pInfo (matchSet pInfo)"
  by (auto simp: sane_def globInfo_def likeInfoNorm_def likeInfoAlt_def)

text \<open>An escape character that is a wildcard loses its role as one.\<close>

definition with_escape :: "compareInfo \<Rightarrow> u32 \<Rightarrow> compareInfo" where
  "with_escape i esc = i\<lparr>matchAll := (if esc = matchAll i then 0 else matchAll i), matchOne := (if esc = matchOne i then 0 else matchOne i)\<rparr>"

lemma sane_escape: "pInfo \<in> {likeInfoNorm, likeInfoAlt} \<Longrightarrow> sane (with_escape pInfo esc) esc"
  by (auto simp: sane_def with_escape_def likeInfoNorm_def likeInfoAlt_def)

text \<open>The C interfaces decide the same languages, for an escape character that is no wildcard.\<close>

lemma strglob_accepts: "sqlite3_strglob (Some (c_text p)) (Some (c_text s)) = 0 \<longleftrightarrow> accepts globInfo 0x5B (chars (c_text p)) (chars (c_text s))"
  using patternCompare_accepts [OF sane_info [of globInfo]] by (simp add: sqlite3_strglob_def globInfo_def)

lemma strlike_accepts:
  "esc \<notin> {0x25, 0x5F} \<Longrightarrow> sqlite3_strlike (Some (c_text p)) (Some (c_text s)) esc = 0 \<longleftrightarrow> accepts likeInfoNorm esc (chars (c_text p)) (chars (c_text s))"
  using patternCompare_accepts [OF sane_escape [of likeInfoNorm esc]] by (simp add: sqlite3_strlike_def with_escape_def likeInfoNorm_def)

text \<open>With a wildcard as escape character they disagree with the SQL operator: \<^verbatim>\<open>'x' LIKE '%_x' ESCAPE '_'\<close> holds,
  but the C interface takes the underscore behind the percent sign as a wildcard.\<close>

lemma strlike_wildcard_escape:
  "sqlite3_strlike (Some [0x25, 0x5F, 0x78]) (Some [0x78]) 0x5F \<noteq> 0"
  "likeFunc 100 likeInfoNorm [Some [0x25, 0x5F, 0x78], Some [0x78], Some [0x5F]] = LikeInt 1"
  by code_simp+

text \<open>C40: The LIKE and GLOB functions decide the language of their pattern: for a pattern within the length
  limit the result is 1 exactly when the pattern, read as a list of items (arbitrary runs, single characters,
  sets of ranges, escaped characters), matches all characters of the string; with an ESCAPE argument
  of one character, that character only escapes, even when it is a wildcard.\<close>

theorem like_matches_pattern:
  assumes "length P \<le> limit"
  shows "(pInfo \<in> {globInfo, likeInfoNorm, likeInfoAlt} \<longrightarrow>
      likeFunc limit pInfo [Some P, Some S] =
        LikeInt (if accepts pInfo (matchSet pInfo) (chars (c_text P)) (chars (c_text S)) then 1 else 0)) \<and>
    (pInfo \<in> {likeInfoNorm, likeInfoAlt} \<longrightarrow> chars (c_text E) = [esc] \<longrightarrow>
      likeFunc limit pInfo [Some P, Some S, Some E] =
        LikeInt (if accepts (with_escape pInfo esc) esc (chars (c_text P)) (chars (c_text S)) then 1 else 0))"
proof (intro conjI impI)
  assume "pInfo \<in> {globInfo, likeInfoNorm, likeInfoAlt}"
  from patternCompare_accepts [OF sane_info [OF this]] show "likeFunc limit pInfo [Some P, Some S] =
      LikeInt (if accepts pInfo (matchSet pInfo) (chars (c_text P)) (chars (c_text S)) then 1 else 0)"
    using assms by simp
next
  assume i: "pInfo \<in> {likeInfoNorm, likeInfoAlt}" and e: "chars (c_text E) = [esc]"
  have "c_text E \<noteq> []" using e by auto
  then have "fst (READ_UTF8 (c_text E)) = esc" using e by simp
  then show "likeFunc limit pInfo [Some P, Some S, Some E] =
      LikeInt (if accepts (with_escape pInfo esc) esc (chars (c_text P)) (chars (c_text S)) then 1 else 0)"
    using assms e patternCompare_accepts [OF sane_escape [OF i]]
    by (simp add: CharLen_chars Let_def sqlite3Utf8Read_eq with_escape_def [symmetric])
qed

theorem like_matches_pattern_witness:
  "likeFunc 100 globInfo [Some [0x2A, 0x5B, 0x61, 0x2D, 0x63, 0x5D], Some [0x78, 0x62]] = LikeInt 1 \<and>
   likeFunc 100 likeInfoNorm [Some [0x25, 0x25, 0x25], Some [0x61, 0x25], Some [0x25]] = LikeInt 0 \<and>
   likeFunc 100 likeInfoNorm [Some [0x25, 0x42], Some [0x61, 0x62]] = LikeInt 1"
proof -
  have "accepts globInfo (matchSet globInfo) (chars (c_text [0x2A, 0x5B, 0x61, 0x2D, 0x63, 0x5D])) (chars (c_text [0x78, 0x62]))"
    "\<not> accepts (with_escape likeInfoNorm 0x25) 0x25 (chars (c_text [0x25, 0x25, 0x25])) (chars (c_text [0x61, 0x25]))"
    "accepts likeInfoNorm (matchSet likeInfoNorm) (chars (c_text [0x25, 0x42])) (chars (c_text [0x61, 0x62]))"
    "chars (c_text [0x25]) = [0x25]" by code_simp+
  with like_matches_pattern [of "[0x2A, 0x5B, 0x61, 0x2D, 0x63, 0x5D]" 100 globInfo "[0x78, 0x62]"]
    like_matches_pattern [of "[0x25, 0x25, 0x25]" 100 likeInfoNorm "[0x61, 0x25]" "[0x25]" "0x25"]
    like_matches_pattern [of "[0x25, 0x42]" 100 likeInfoNorm "[0x61, 0x62]"]
  show ?thesis by simp
qed

end
