(* ===== verification/Wal_Shm.thy ===== *)
theory Wal_Shm
  imports Wal_Frame Wal_Index Jvm_Locks
begin

text \<open>
  The shared wal-index as connections use it: its header in two copies, the checkpoint information
  with the read marks, the slot locks, and the operations of \<^verbatim>\<open>wal.c\<close> that begin and end read and
  write transactions, restart the log and checkpoint it. Locks go to the slot table of
  \<^verbatim>\<open>JvmVfsLocks\<close> that the VFS of the repository calls. The log is a sequence of frames
  (page number and content), the database file a function from page numbers to contents; frame and
  page numbers are natural numbers. The results of file operations are a list that the operations
  consume, when it is used up they all succeed.
\<close>

section \<open>The wal-index header\<close>

record wal_hdr =
  hVersion :: u32
  hUnused :: u32
  hChange :: u32
  hIsInit :: u8
  hBigEnd :: u8
  hSzPage :: u16
  hMxFrame :: nat
  hNPage :: nat
  hFrameCksum :: "u32 \<times> u32"
  hSalt :: bytes
  hCksum :: "u32 \<times> u32"

definition le32 :: "u32 \<Rightarrow> bytes" where
  "le32 w = [ucast w, ucast (drop_bit 8 w), ucast (drop_bit 16 w), ucast (drop_bit 24 w)]"

text \<open>The first 40 bytes of the structure, over which its checksum runs.\<close>

definition hdr_bytes :: "wal_hdr \<Rightarrow> bytes" where
  "hdr_bytes h = le32 (hVersion h) @ le32 (hUnused h) @ le32 (hChange h) @
     [hIsInit h, hBigEnd h, ucast (hSzPage h), ucast (drop_bit 8 (hSzPage h))] @
     le32 (of_nat (hMxFrame h)) @ le32 (of_nat (hNPage h)) @
     le32 (fst (hFrameCksum h)) @ le32 (snd (hFrameCksum h)) @ hSalt h"

definition zero_hdr :: wal_hdr where
  "zero_hdr = \<lparr>hVersion = 0, hUnused = 0, hChange = 0, hIsInit = 0, hBigEnd = 0, hSzPage = 0, hMxFrame = 0, hNPage = 0,
     hFrameCksum = (0, 0), hSalt = replicate 8 0, hCksum = (0, 0)\<rparr>"

abbreviation (input) WALINDEX_MAX_VERSION :: u32 where "WALINDEX_MAX_VERSION \<equiv> 3007000"

definition page_size :: "u16 \<Rightarrow> nat" where
  "page_size sz = unat (sz AND 0xfe00) + unat (sz AND 1) * 65536"

section \<open>Connections and shared state\<close>

record wal_conn =
  chdr :: wal_hdr
  readLock :: int
  minFrame :: nat
  writeLock :: nat
  ckptLock :: bool
  exclusiveMode :: nat
  readOnly :: nat
  ckptCount :: u32
  reCksum :: nat
  truncateOnCommit :: bool
  iCallback :: nat
  connSzPage :: nat

record wal_sys =
  aHdr0 :: wal_hdr
  aHdr1 :: wal_hdr
  nBackfill :: nat
  nBackfillAttempted :: nat
  aReadMark :: "nat list"
  slots :: shm_state
  frames :: "nat \<Rightarrow> nat \<times> nat"
  walSize :: nat
  dbPage :: "nat \<Rightarrow> nat"
  dbSize :: nat
  conn :: "int \<Rightarrow> wal_conn"
  io :: "int list"
  interrupts :: "bool list"

abbreviation (input) WAL_WRITE_LOCK :: int where "WAL_WRITE_LOCK \<equiv> 0"
abbreviation (input) WAL_CKPT_LOCK :: int where "WAL_CKPT_LOCK \<equiv> 1"
abbreviation (input) WAL_RECOVER_LOCK :: int where "WAL_RECOVER_LOCK \<equiv> 2"
abbreviation (input) WAL_READ_LOCK :: "int \<Rightarrow> int" where "WAL_READ_LOCK i \<equiv> 3 + i"
abbreviation (input) WAL_NREADER :: nat where "WAL_NREADER \<equiv> 5"
abbreviation (input) READMARK_NOT_USED :: nat where "READMARK_NOT_USED \<equiv> 0xffffffff"
abbreviation (input) WAL_RETRY :: int where "WAL_RETRY \<equiv> -1"
abbreviation (input) SQLITE_READONLY :: int where "SQLITE_READONLY \<equiv> 8"
abbreviation (input) SQLITE_INTERRUPT :: int where "SQLITE_INTERRUPT \<equiv> 9"
abbreviation (input) SQLITE_CORRUPT :: int where "SQLITE_CORRUPT \<equiv> 11"
abbreviation (input) SQLITE_PROTOCOL :: int where "SQLITE_PROTOCOL \<equiv> 15"
abbreviation (input) SQLITE_BUSY_RECOVERY :: int where "SQLITE_BUSY_RECOVERY \<equiv> 261"
abbreviation (input) SQLITE_BUSY_SNAPSHOT :: int where "SQLITE_BUSY_SNAPSHOT \<equiv> 517"
abbreviation (input) SQLITE_READONLY_RECOVERY :: int where "SQLITE_READONLY_RECOVERY \<equiv> 264"
abbreviation (input) SQLITE_READONLY_CANTINIT :: int where "SQLITE_READONLY_CANTINIT \<equiv> 1288"
abbreviation (input) SQLITE_IOERR_SHMLOCK :: int where "SQLITE_IOERR_SHMLOCK \<equiv> 5130"

definition upd_conn :: "int \<Rightarrow> (wal_conn \<Rightarrow> wal_conn) \<Rightarrow> wal_sys \<Rightarrow> wal_sys" where
  "upd_conn c f s = s\<lparr>conn := (conn s)(c := f (conn s c))\<rparr>"

definition next_io :: "wal_sys \<Rightarrow> wal_sys \<times> int" where
  "next_io s = (case io s of [] \<Rightarrow> (s, SQLITE_OK) | r # rs \<Rightarrow> (s\<lparr>io := rs\<rparr>, r))"

definition next_interrupt :: "wal_sys \<Rightarrow> wal_sys \<times> bool" where
  "next_interrupt s = (case interrupts s of [] \<Rightarrow> (s, False) | b # bs \<Rightarrow> (s\<lparr>interrupts := bs\<rparr>, b))"

definition walPagesize :: "wal_sys \<Rightarrow> int \<Rightarrow> nat" where
  "walPagesize s c = page_size (hSzPage (chdr (conn s c)))"

section \<open>Locks\<close>

definition slot_lock :: "shm_state \<Rightarrow> int \<Rightarrow> int \<Rightarrow> int \<Rightarrow> int \<Rightarrow> shm_state \<times> int" where
  "slot_lock st c offset n flags =
     (case shm_lock st c offset n flags of Inl _ \<Rightarrow> (st, SQLITE_IOERR_SHMLOCK) | Inr r \<Rightarrow> r)"

definition slot_request :: "wal_sys \<Rightarrow> int \<Rightarrow> int \<Rightarrow> int \<Rightarrow> int \<Rightarrow> wal_sys \<times> int" where
  "slot_request s c offset n flags =
     (case slot_lock (slots s) c offset n flags of (st, rc) \<Rightarrow> (s\<lparr>slots := st\<rparr>, rc))"

definition walLockShared :: "wal_sys \<Rightarrow> int \<Rightarrow> int \<Rightarrow> wal_sys \<times> int" where
  "walLockShared s c lockIdx =
     (if exclusiveMode (conn s c) \<noteq> 0 then (s, SQLITE_OK) else slot_request s c lockIdx 1 6)"

definition walUnlockShared :: "wal_sys \<Rightarrow> int \<Rightarrow> int \<Rightarrow> wal_sys" where
  "walUnlockShared s c lockIdx =
     (if exclusiveMode (conn s c) \<noteq> 0 then s else fst (slot_request s c lockIdx 1 5))"

definition walLockExclusive :: "wal_sys \<Rightarrow> int \<Rightarrow> int \<Rightarrow> int \<Rightarrow> wal_sys \<times> int" where
  "walLockExclusive s c lockIdx n =
     (if exclusiveMode (conn s c) \<noteq> 0 then (s, SQLITE_OK) else slot_request s c lockIdx n 10)"

definition walUnlockExclusive :: "wal_sys \<Rightarrow> int \<Rightarrow> int \<Rightarrow> int \<Rightarrow> wal_sys" where
  "walUnlockExclusive s c lockIdx n =
     (if exclusiveMode (conn s c) \<noteq> 0 then s else fst (slot_request s c lockIdx n 9))"

text \<open>
  A busy handler is the list of the answers it will give, the end of the list being zero for ever;
  \<open>env\<close> is what the other connections do while it waits.
\<close>

fun walBusyLock :: "(wal_sys \<Rightarrow> wal_sys) \<Rightarrow> wal_sys \<Rightarrow> int \<Rightarrow> bool list \<Rightarrow> int \<Rightarrow> int \<Rightarrow> wal_sys \<times> int \<times> bool list" where
  "walBusyLock env s c [] lockIdx n = (case walLockExclusive s c lockIdx n of (s, rc) \<Rightarrow> (s, rc, []))"
| "walBusyLock env s c (b # xBusy) lockIdx n =
     (case walLockExclusive s c lockIdx n of
        (s, rc) \<Rightarrow> if rc = SQLITE_BUSY then (if b then walBusyLock env (env s) c xBusy lockIdx n else (s, rc, xBusy))
                   else (s, rc, b # xBusy))"

section \<open>Header reads and writes\<close>

definition sign_hdr :: "wal_hdr \<Rightarrow> wal_hdr" where
  "sign_hdr h = (let h = h\<lparr>hIsInit := 1, hVersion := WALINDEX_MAX_VERSION\<rparr>
     in h\<lparr>hCksum := walChecksumBytes True (hdr_bytes h) None\<rparr>)"

definition walIndexWriteHdr :: "wal_sys \<Rightarrow> int \<Rightarrow> wal_sys" where
  "walIndexWriteHdr s c =
     (let s = upd_conn c (\<lambda>w. w\<lparr>chdr := sign_hdr (chdr w)\<rparr>) s;
          s = s\<lparr>aHdr1 := chdr (conn s c)\<rparr>
      in s\<lparr>aHdr0 := chdr (conn s c)\<rparr>)"

text \<open>The checks on the two copies read, and \<^verbatim>\<open>walIndexTryHdr\<close>: the flags bad header and changed.\<close>

definition hdr_accepted :: "wal_hdr \<Rightarrow> wal_hdr \<Rightarrow> bool" where
  "hdr_accepted h1 h2 \<longleftrightarrow> h1 = h2 \<and> hIsInit h1 \<noteq> 0 \<and> walChecksumBytes True (hdr_bytes h1) None = hCksum h1"

definition walIndexTryHdr :: "wal_sys \<Rightarrow> int \<Rightarrow> wal_sys \<times> bool \<times> bool" where
  "walIndexTryHdr s c =
     (if \<not> hdr_accepted (aHdr0 s) (aHdr1 s) then (s, True, False)
      else if chdr (conn s c) \<noteq> aHdr0 s then
        (upd_conn c (\<lambda>w. w\<lparr>chdr := aHdr0 s, connSzPage := page_size (hSzPage (aHdr0 s))\<rparr>) s, False, True)
      else (s, False, False))"

text \<open>
  \<^verbatim>\<open>walIndexReadHdr\<close> with the first wal-index page mapped. Recovery (\<open>recover\<close>), which is modelled
  on the bytes of the log elsewhere, is an argument here.
\<close>

definition walIndexReadHdr :: "(wal_sys \<Rightarrow> int \<Rightarrow> wal_sys \<times> int) \<Rightarrow> wal_sys \<Rightarrow> int \<Rightarrow> wal_sys \<times> int \<times> bool" where
  "walIndexReadHdr recover s c =
     (let (s, bad, chg) = walIndexTryHdr s c;
          (s, bad, chg, rc) =
            (if \<not> bad then (s, bad, chg, SQLITE_OK)
             else if readOnly (conn s c) div 2 mod 2 = 1 then
               (case walLockShared s c WAL_WRITE_LOCK of
                  (s, rc) \<Rightarrow> if rc = SQLITE_OK then (walUnlockShared s c WAL_WRITE_LOCK, bad, chg, SQLITE_READONLY_RECOVERY)
                             else (s, bad, chg, rc))
             else
               let held = (writeLock (conn s c) \<noteq> 0);
                   (s, rc) = (if held then (s, SQLITE_OK) else walLockExclusive s c WAL_WRITE_LOCK 1)
               in if rc \<noteq> SQLITE_OK then (s, bad, chg, rc)
                  else
                    let s = (if held then s else upd_conn c (\<lambda>w. w\<lparr>writeLock := 2\<rparr>) s);
                        (s, rc) = next_io s;
                        (s, bad, chg, rc) =
                          (if rc \<noteq> SQLITE_OK then (s, bad, chg, rc)
                           else case walIndexTryHdr s c of
                             (s, bad, chg') \<Rightarrow>
                               if bad then (case recover s c of (s, rc) \<Rightarrow> (s, bad, True, rc)) else (s, bad, chg \<or> chg', rc));
                        s = (if held then s else walUnlockExclusive (upd_conn c (\<lambda>w. w\<lparr>writeLock := 0\<rparr>) s) c WAL_WRITE_LOCK 1)
                    in (s, bad, chg, rc))
      in if \<not> bad \<and> hVersion (chdr (conn s c)) \<noteq> WALINDEX_MAX_VERSION then (s, SQLITE_CANTOPEN, chg) else (s, rc, chg))"

text \<open>
  \<^verbatim>\<open>walRestartHdr\<close>: the next frame goes to the start of the log. The first salt is incremented, the
  second is the random value given.
\<close>

definition next_salt :: "bytes \<Rightarrow> bytes \<Rightarrow> bytes" where
  "next_salt salt salt1 =
     (case sqlite3Get4byte salt of Some v \<Rightarrow> sqlite3Put4byte (1 + v) @ salt1 | None \<Rightarrow> salt)"

definition walRestartHdr :: "wal_sys \<Rightarrow> int \<Rightarrow> bytes \<Rightarrow> wal_sys" where
  "walRestartHdr s c salt1 =
     (let s = upd_conn c (\<lambda>w. w\<lparr>ckptCount := ckptCount w + 1,
                chdr := (chdr w)\<lparr>hMxFrame := 0, hSalt := next_salt (hSalt (chdr w)) salt1\<rparr>\<rparr>) s;
          s = walIndexWriteHdr s c
      in s\<lparr>nBackfill := 0, nBackfillAttempted := 0,
           aReadMark := aReadMark s ! 0 # 0 # replicate (WAL_NREADER - 2) READMARK_NOT_USED\<rparr>)"

section \<open>Read transactions\<close>

text \<open>The newest frame of page \<open>p\<close> among frames \<open>lo\<close> to \<open>hi\<close>.\<close>

fun latest :: "(nat \<Rightarrow> nat \<times> nat) \<Rightarrow> nat \<Rightarrow> nat \<Rightarrow> nat \<Rightarrow> nat option" where
  "latest fs p lo 0 = None"
| "latest fs p lo (Suc n) = (if lo \<le> Suc n \<and> fst (fs (Suc n)) = p then Some (Suc n) else latest fs p lo n)"

text \<open>The page as a connection reads it: from the log when a frame of its snapshot has it, else from
  the database file; with read lock 0 the log is ignored.\<close>

definition read_page :: "wal_sys \<Rightarrow> int \<Rightarrow> nat \<Rightarrow> nat" where
  "read_page s c p =
     (if readLock (conn s c) = 0 then dbPage s p
      else case latest (frames s) p (minFrame (conn s c)) (hMxFrame (chdr (conn s c))) of
        Some f \<Rightarrow> snd (frames s f)
      | None \<Rightarrow> dbPage s p)"

text \<open>The parts of \<^verbatim>\<open>walTryBeginRead\<close>: ignoring a log that is completely in the database file,
  choosing and claiming a read mark, and locking it with the final check.\<close>

definition tbr_zero :: "wal_sys \<Rightarrow> int \<Rightarrow> wal_sys \<times> int option \<times> int" where
  "tbr_zero s c =
     (case walLockShared s c (WAL_READ_LOCK 0) of
        (s, rc) \<Rightarrow>
          if rc = SQLITE_OK then
            (if aHdr0 s \<noteq> chdr (conn s c) then (walUnlockShared s c (WAL_READ_LOCK 0), Some WAL_RETRY, rc)
             else (upd_conn c (\<lambda>w. w\<lparr>readLock := 0\<rparr>) s, Some SQLITE_OK, rc))
          else if rc \<noteq> SQLITE_BUSY then (s, Some rc, rc) else (s, None, rc))"

fun tbr_choose :: "nat list \<Rightarrow> nat \<Rightarrow> nat list \<Rightarrow> nat \<times> nat \<Rightarrow> nat \<times> nat" where
  "tbr_choose marks mxF [] (mxReadMark, mxI) = (mxReadMark, mxI)"
| "tbr_choose marks mxF (i # js) (mxReadMark, mxI) =
     (if mxReadMark \<le> marks ! i \<and> marks ! i \<le> mxF then tbr_choose marks mxF js (marks ! i, i)
      else tbr_choose marks mxF js (mxReadMark, mxI))"

definition store_mark :: "nat \<Rightarrow> nat \<Rightarrow> wal_sys \<Rightarrow> wal_sys" where
  "store_mark i v s = s\<lparr>aReadMark := (aReadMark s)[i := v]\<rparr>"

fun tbr_claim :: "wal_sys \<Rightarrow> int \<Rightarrow> nat \<Rightarrow> int \<Rightarrow> nat list \<Rightarrow> wal_sys \<times> int \<times> nat option" where
  "tbr_claim s c mxF rc [] = (s, rc, None)"
| "tbr_claim s c mxF rc (i # js) =
     (case walLockExclusive s c (WAL_READ_LOCK (int i)) 1 of
        (s, rc) \<Rightarrow>
          if rc = SQLITE_OK then (walUnlockExclusive (store_mark i mxF s) c (WAL_READ_LOCK (int i)) 1, rc, Some i)
          else if rc \<noteq> SQLITE_BUSY then (s, rc, None)
          else tbr_claim s c mxF rc js)"

definition tbr_lock :: "wal_sys \<Rightarrow> int \<Rightarrow> nat \<Rightarrow> nat \<Rightarrow> wal_sys \<times> int" where
  "tbr_lock s c mxReadMark mxI =
     (case walLockShared s c (WAL_READ_LOCK (int mxI)) of
        (s, rc) \<Rightarrow>
          if rc \<noteq> SQLITE_OK then (s, if rc mod 256 = SQLITE_BUSY then WAL_RETRY else rc)
          else
            let s = upd_conn c (\<lambda>w. w\<lparr>minFrame := nBackfill s + 1\<rparr>) s in
            if aReadMark s ! mxI \<noteq> mxReadMark \<or> aHdr0 s \<noteq> chdr (conn s c)
            then (walUnlockShared s c (WAL_READ_LOCK (int mxI)), WAL_RETRY)
            else (upd_conn c (\<lambda>w. w\<lparr>readLock := int mxI\<rparr>) s, SQLITE_OK))"

definition tbr_marks :: "wal_sys \<Rightarrow> int \<Rightarrow> int \<Rightarrow> wal_sys \<times> int" where
  "tbr_marks s c rc =
     (let mxF = hMxFrame (chdr (conn s c));
          (mxReadMark, mxI) = tbr_choose (aReadMark s) mxF [1, 2, 3, 4] (0, 0);
          rdonly = (readOnly (conn s c) div 2 mod 2 = 1)
      in if \<not> rdonly \<and> (mxReadMark < mxF \<or> mxI = 0) then
           (case tbr_claim s c mxF rc [1, 2, 3, 4] of
              (s, rc, Some i) \<Rightarrow> tbr_lock s c mxF i
            | (s, rc, None) \<Rightarrow>
                if rc \<noteq> SQLITE_BUSY then (s, rc)
                else if mxI = 0 then (s, WAL_RETRY) else tbr_lock s c mxReadMark mxI)
         else if mxI = 0 then (s, if rc = SQLITE_BUSY then WAL_RETRY else SQLITE_READONLY_CANTINIT)
         else tbr_lock s c mxReadMark mxI)"

definition tbr_header :: "(wal_sys \<Rightarrow> int \<Rightarrow> wal_sys \<times> int) \<Rightarrow> wal_sys \<Rightarrow> int \<Rightarrow> wal_sys \<times> int \<times> bool" where
  "tbr_header recover s c =
     (case walIndexReadHdr recover s c of
        (s, rc, chg) \<Rightarrow>
          if rc \<noteq> SQLITE_BUSY then (s, rc, chg)
          else case walLockShared s c WAL_RECOVER_LOCK of
            (s, rc) \<Rightarrow>
              if rc = SQLITE_OK then (walUnlockShared s c WAL_RECOVER_LOCK, WAL_RETRY, chg)
              else (s, if rc = SQLITE_BUSY then SQLITE_BUSY_RECOVERY else rc, chg))"

definition walTryBeginRead ::
    "(wal_sys \<Rightarrow> int \<Rightarrow> wal_sys \<times> int) \<Rightarrow> wal_sys \<Rightarrow> int \<Rightarrow> bool \<Rightarrow> nat \<Rightarrow> wal_sys \<times> int \<times> bool \<times> nat" where
  "walTryBeginRead recover s c useWal cnt =
     (let cnt = cnt + 1 in
      if cnt > 100 then (s, SQLITE_PROTOCOL, False, cnt)
      else
        let (s, rc, chg) = (if useWal then (s, SQLITE_OK, False) else tbr_header recover s c) in
        if rc \<noteq> SQLITE_OK then (s, rc, chg, cnt)
        else
          let (s, res, rc) = (if \<not> useWal \<and> nBackfill s = hMxFrame (chdr (conn s c)) then tbr_zero s c else (s, None, rc))
          in case res of
               Some rc \<Rightarrow> (s, rc, chg, cnt)
             | None \<Rightarrow> (case tbr_marks s c rc of (s, rc) \<Rightarrow> (s, rc, chg, cnt)))"

text \<open>
  The retry loop, in which \<open>env\<close> is what other connections do between two attempts. The fuel bounds
  the number of attempts; the protocol limit ends the loop before it is used up.
\<close>

fun begin_loop ::
    "(wal_sys \<Rightarrow> int \<Rightarrow> wal_sys \<times> int) \<Rightarrow> (wal_sys \<Rightarrow> wal_sys) \<Rightarrow> bool \<Rightarrow> nat \<Rightarrow> wal_sys \<Rightarrow> int \<Rightarrow> nat \<Rightarrow> (wal_sys \<times> int \<times> bool) option" where
  "begin_loop recover env useWal 0 s c cnt = None"
| "begin_loop recover env useWal (Suc n) s c cnt =
     (case walTryBeginRead recover s c useWal cnt of
        (s, rc, chg, cnt) \<Rightarrow>
          if rc = WAL_RETRY then
            map_option (\<lambda>(s, rc, chg'). (s, rc, chg \<or> chg')) (begin_loop recover env useWal n (env s) c cnt)
          else Some (s, rc, chg))"

definition sqlite3WalBeginReadTransaction ::
    "(wal_sys \<Rightarrow> int \<Rightarrow> wal_sys \<times> int) \<Rightarrow> (wal_sys \<Rightarrow> wal_sys) \<Rightarrow> wal_sys \<Rightarrow> int \<Rightarrow> (wal_sys \<times> int \<times> bool) option" where
  "sqlite3WalBeginReadTransaction recover env s c = begin_loop recover env False 101 s c 0"

section \<open>Write transactions\<close>

definition sqlite3WalEndWriteTransaction :: "wal_sys \<Rightarrow> int \<Rightarrow> wal_sys" where
  "sqlite3WalEndWriteTransaction s c =
     (if writeLock (conn s c) \<noteq> 0 then
        upd_conn c (\<lambda>w. w\<lparr>writeLock := 0, reCksum := 0, truncateOnCommit := False\<rparr>) (walUnlockExclusive s c WAL_WRITE_LOCK 1)
      else s)"

definition sqlite3WalEndReadTransaction :: "wal_sys \<Rightarrow> int \<Rightarrow> wal_sys" where
  "sqlite3WalEndReadTransaction s c =
     (if readLock (conn s c) \<ge> 0 then
        let s = sqlite3WalEndWriteTransaction s c;
            s = walUnlockShared s c (WAL_READ_LOCK (readLock (conn s c)))
        in upd_conn c (\<lambda>w. w\<lparr>readLock := -1\<rparr>) s
      else s)"

definition sqlite3WalBeginWriteTransaction :: "wal_sys \<Rightarrow> int \<Rightarrow> wal_sys \<times> int" where
  "sqlite3WalBeginWriteTransaction s c =
     (if readOnly (conn s c) \<noteq> 0 then (s, SQLITE_READONLY)
      else case walLockExclusive s c WAL_WRITE_LOCK 1 of
        (s, rc) \<Rightarrow>
          if rc \<noteq> SQLITE_OK then (s, rc)
          else
            let s = upd_conn c (\<lambda>w. w\<lparr>writeLock := 1\<rparr>) s in
            if chdr (conn s c) \<noteq> aHdr0 s
            then (upd_conn c (\<lambda>w. w\<lparr>writeLock := 0\<rparr>) (walUnlockExclusive s c WAL_WRITE_LOCK 1), SQLITE_BUSY_SNAPSHOT)
            else (s, SQLITE_OK))"

definition sqlite3WalUndo :: "wal_sys \<Rightarrow> int \<Rightarrow> wal_sys" where
  "sqlite3WalUndo s c =
     (if writeLock (conn s c) \<noteq> 0 then upd_conn c (\<lambda>w. w\<lparr>chdr := aHdr0 s, reCksum := 0\<rparr>) s else s)"

type_synonym savepoint = "nat \<times> (u32 \<times> u32) \<times> u32"

definition sqlite3WalSavepoint :: "wal_sys \<Rightarrow> int \<Rightarrow> savepoint" where
  "sqlite3WalSavepoint s c = (let w = conn s c in (hMxFrame (chdr w), hFrameCksum (chdr w), ckptCount w))"

definition sqlite3WalSavepointUndo :: "wal_sys \<Rightarrow> int \<Rightarrow> savepoint \<Rightarrow> wal_sys \<times> savepoint" where
  "sqlite3WalSavepointUndo s c sp =
     (case sp of (mx, ck, n) \<Rightarrow>
        let w = conn s c;
            (mx, n) = (if n \<noteq> ckptCount w then (0, ckptCount w) else (mx, n));
            s = (if mx < hMxFrame (chdr w)
                 then upd_conn c (\<lambda>w. w\<lparr>chdr := (chdr w)\<lparr>hMxFrame := mx, hFrameCksum := ck\<rparr>,
                        reCksum := (if reCksum w > mx then 0 else reCksum w)\<rparr>) s
                 else s)
        in (s, mx, ck, n))"

definition walRestartLog ::
    "(wal_sys \<Rightarrow> int \<Rightarrow> wal_sys \<times> int) \<Rightarrow> (wal_sys \<Rightarrow> wal_sys) \<Rightarrow> bytes \<Rightarrow> wal_sys \<Rightarrow> int \<Rightarrow> (wal_sys \<times> int) option" where
  "walRestartLog recover env salt1 s c =
     (if readLock (conn s c) \<noteq> 0 then Some (s, SQLITE_OK)
      else
        let (s, rc) =
              (if nBackfill s > 0 then
                 (case walLockExclusive s c (WAL_READ_LOCK 1) (int WAL_NREADER - 1) of
                    (s, rc) \<Rightarrow>
                      if rc = SQLITE_OK
                      then (walUnlockExclusive (walRestartHdr s c salt1) c (WAL_READ_LOCK 1) (int WAL_NREADER - 1), rc)
                      else (s, rc))
               else (s, SQLITE_OK))
        in if rc \<noteq> SQLITE_OK \<and> rc \<noteq> SQLITE_BUSY then Some (s, rc)
           else
             let s = upd_conn c (\<lambda>w. w\<lparr>readLock := -1\<rparr>) (walUnlockShared s c (WAL_READ_LOCK 0))
             in map_option (\<lambda>(s, rc, chg). (s, rc)) (begin_loop recover env True 101 s c 0))"

definition sqlite3WalExclusiveMode :: "wal_sys \<Rightarrow> int \<Rightarrow> int \<Rightarrow> wal_sys \<times> bool" where
  "sqlite3WalExclusiveMode s c opn =
     (if opn = 0 then
        (if exclusiveMode (conn s c) \<noteq> 0 then
           (case walLockShared (upd_conn c (\<lambda>w. w\<lparr>exclusiveMode := 0\<rparr>) s) c (WAL_READ_LOCK (readLock (conn s c))) of
              (s, rc) \<Rightarrow> if rc \<noteq> SQLITE_OK then (upd_conn c (\<lambda>w. w\<lparr>exclusiveMode := 1\<rparr>) s, False) else (s, True))
         else (s, False))
      else if opn > 0 then
        (upd_conn c (\<lambda>w. w\<lparr>exclusiveMode := 1\<rparr>) (walUnlockShared s c (WAL_READ_LOCK (readLock (conn s c)))), True)
      else (s, exclusiveMode (conn s c) = 0))"

definition sqlite3WalCallback :: "wal_sys \<Rightarrow> int \<Rightarrow> wal_sys \<times> nat" where
  "sqlite3WalCallback s c = (upd_conn c (\<lambda>w. w\<lparr>iCallback := 0\<rparr>) s, iCallback (conn s c))"

section \<open>Checkpoints\<close>

abbreviation (input) SQLITE_CHECKPOINT_NOOP :: int where "SQLITE_CHECKPOINT_NOOP \<equiv> -1"
abbreviation (input) SQLITE_CHECKPOINT_PASSIVE :: int where "SQLITE_CHECKPOINT_PASSIVE \<equiv> 0"
abbreviation (input) SQLITE_CHECKPOINT_RESTART :: int where "SQLITE_CHECKPOINT_RESTART \<equiv> 2"
abbreviation (input) SQLITE_CHECKPOINT_TRUNCATE :: int where "SQLITE_CHECKPOINT_TRUNCATE \<equiv> 3"

text \<open>The last frame that no reader forbids to copy, over the read marks given; a third result is an error.\<close>

fun safe_frame :: "(wal_sys \<Rightarrow> wal_sys) \<Rightarrow> wal_sys \<Rightarrow> int \<Rightarrow> bool list \<Rightarrow> nat \<Rightarrow> nat list \<Rightarrow> wal_sys \<times> bool list \<times> nat \<times> int" where
  "safe_frame env s c xBusy mxSafeFrame [] = (s, xBusy, mxSafeFrame, SQLITE_OK)"
| "safe_frame env s c xBusy mxSafeFrame (i # js) =
     (let y = aReadMark s ! i in
      if mxSafeFrame > y then
        (case walBusyLock env s c xBusy (WAL_READ_LOCK (int i)) 1 of
           (s, rc, xBusy) \<Rightarrow>
             if rc = SQLITE_OK then
               let iMark = (if i = 1 then mxSafeFrame else READMARK_NOT_USED)
               in safe_frame env (walUnlockExclusive (store_mark i iMark s) c (WAL_READ_LOCK (int i)) 1) c xBusy mxSafeFrame js
             else if rc = SQLITE_BUSY then safe_frame env s c [] y js
             else (s, xBusy, mxSafeFrame, rc))
      else safe_frame env s c xBusy mxSafeFrame js)"

text \<open>What the iterator over frames \<open>lo + 1\<close> to \<open>hi\<close> returns: every page once, ascending, with its newest frame.\<close>

definition iterated :: "(nat \<Rightarrow> nat \<times> nat) \<Rightarrow> nat \<Rightarrow> nat \<Rightarrow> (nat \<times> nat) list" where
  "iterated fs lo hi =
     map (\<lambda>p. (p, the (latest fs p (lo + 1) hi))) (sort (remdups (map (\<lambda>f. fst (fs f)) [lo + 1..<hi + 1])))"

fun copy_pages :: "wal_sys \<Rightarrow> nat \<Rightarrow> nat \<Rightarrow> nat \<Rightarrow> nat \<Rightarrow> (nat \<times> nat) list \<Rightarrow> wal_sys \<times> int" where
  "copy_pages s sz nB mxSafeFrame mxPage [] = (s, SQLITE_OK)"
| "copy_pages s sz nB mxSafeFrame mxPage ((iDbpage, iFrame) # r) =
     (case next_interrupt s of
        (s, True) \<Rightarrow> (s, SQLITE_INTERRUPT)
      | (s, False) \<Rightarrow>
          if iFrame \<le> nB \<or> iFrame > mxSafeFrame \<or> iDbpage > mxPage then copy_pages s sz nB mxSafeFrame mxPage r
          else case next_io s of
            (s, rc) \<Rightarrow>
              if rc \<noteq> SQLITE_OK then (s, rc)
              else case next_io s of
                (s, rc) \<Rightarrow>
                  if rc \<noteq> SQLITE_OK then (s, rc)
                  else copy_pages (s\<lparr>dbPage := (dbPage s)(iDbpage := snd (frames s iFrame)),
                                     dbSize := max (dbSize s) (iDbpage * sz)\<rparr>) sz nB mxSafeFrame mxPage r)"

text \<open>The size check before copying, and the truncation and the new \<^verbatim>\<open>nBackfill\<close> after it.\<close>

definition size_check :: "wal_sys \<Rightarrow> int \<Rightarrow> nat \<Rightarrow> wal_sys \<times> int" where
  "size_check s c mxPage =
     (case next_io s of
        (s, rc) \<Rightarrow>
          if rc = SQLITE_OK \<and> dbSize s < mxPage * walPagesize s c \<and>
             dbSize s + 65536 + hMxFrame (chdr (conn s c)) * walPagesize s c < mxPage * walPagesize s c
          then (s, SQLITE_CORRUPT) else (s, rc))"

definition publish :: "wal_sys \<Rightarrow> int \<Rightarrow> nat \<Rightarrow> wal_sys \<times> int" where
  "publish s c mxSafeFrame =
     (let (s, rc) =
            (if mxSafeFrame = hMxFrame (aHdr0 s) then
               (case next_io s of
                  (s, rc) \<Rightarrow> if rc \<noteq> SQLITE_OK then (s, rc)
                             else next_io (s\<lparr>dbSize := hNPage (chdr (conn s c)) * walPagesize s c\<rparr>))
             else (s, SQLITE_OK))
      in if rc = SQLITE_OK then (s\<lparr>nBackfill := mxSafeFrame\<rparr>, rc) else (s, rc))"

definition backfill :: "wal_sys \<Rightarrow> int \<Rightarrow> nat \<Rightarrow> nat \<Rightarrow> (nat \<times> nat) list \<Rightarrow> wal_sys \<times> int" where
  "backfill s c mxSafeFrame mxPage pIter =
     (if hSalt (aHdr0 s) \<noteq> hSalt (chdr (conn s c)) then (s, SQLITE_OK)
      else
        let nB = nBackfill s;
            (s, rc) = next_io (s\<lparr>nBackfillAttempted := mxSafeFrame\<rparr>);
            (s, rc) = (if rc = SQLITE_OK then size_check s c mxPage else (s, rc));
            (s, rc) = (if rc = SQLITE_OK then copy_pages s (walPagesize s c) nB mxSafeFrame mxPage pIter else (s, rc))
        in if rc = SQLITE_OK then publish s c mxSafeFrame else (s, rc))"

definition ckpt_copy :: "(wal_sys \<Rightarrow> wal_sys) \<Rightarrow> wal_sys \<Rightarrow> int \<Rightarrow> bool list \<Rightarrow> wal_sys \<times> bool list \<times> int" where
  "ckpt_copy env s c xBusy =
     (let h = chdr (conn s c) in
      case safe_frame env s c xBusy (hMxFrame h) [1, 2, 3, 4] of
        (s, xBusy, mxSafeFrame, rc) \<Rightarrow>
          if rc \<noteq> SQLITE_OK then (s, xBusy, rc)
          else if \<not> nBackfill s < mxSafeFrame then (s, xBusy, SQLITE_OK)
          else
            let lo = hash_iZero (walFramePage (nBackfill s + 1)); pIter = iterated (frames s) lo (hMxFrame h) in
            case next_io s of
              (s, rc) \<Rightarrow>
                if rc \<noteq> SQLITE_OK then (s, xBusy, if rc = SQLITE_BUSY then SQLITE_OK else rc)
                else case walBusyLock env s c xBusy (WAL_READ_LOCK 0) 1 of
                  (s, rc, xBusy) \<Rightarrow>
                    if rc \<noteq> SQLITE_OK then (s, xBusy, if rc = SQLITE_BUSY then SQLITE_OK else rc)
                    else case backfill s c mxSafeFrame (hNPage h) pIter of
                      (s, rc) \<Rightarrow> (walUnlockExclusive s c (WAL_READ_LOCK 0) 1, xBusy, if rc = SQLITE_BUSY then SQLITE_OK else rc))"

definition walCheckpoint :: "(wal_sys \<Rightarrow> wal_sys) \<Rightarrow> bytes \<Rightarrow> wal_sys \<Rightarrow> int \<Rightarrow> int \<Rightarrow> bool list \<Rightarrow> wal_sys \<times> int" where
  "walCheckpoint env salt1 s c eMode xBusy =
     (let (s, xBusy, rc) = (if nBackfill s < hMxFrame (chdr (conn s c)) then ckpt_copy env s c xBusy else (s, xBusy, SQLITE_OK))
      in if rc = SQLITE_OK \<and> eMode \<noteq> SQLITE_CHECKPOINT_PASSIVE then
           (if nBackfill s < hMxFrame (chdr (conn s c)) then (s, SQLITE_BUSY)
            else if eMode \<ge> SQLITE_CHECKPOINT_RESTART then
              (case walBusyLock env s c xBusy (WAL_READ_LOCK 1) (int WAL_NREADER - 1) of
                 (s, rc, xBusy) \<Rightarrow>
                   if rc = SQLITE_OK then
                     let (s, rc) = (if eMode = SQLITE_CHECKPOINT_TRUNCATE
                                    then (case next_io (walRestartHdr s c salt1) of
                                            (s, rc) \<Rightarrow> (if rc = SQLITE_OK then s\<lparr>walSize := 0\<rparr> else s, rc))
                                    else (s, rc))
                     in (walUnlockExclusive s c (WAL_READ_LOCK 1) (int WAL_NREADER - 1), rc)
                   else (s, rc))
            else (s, rc))
         else (s, rc))"

text \<open>
  The start of \<^verbatim>\<open>sqlite3WalCheckpoint\<close>, its locks and the mode it goes on with, and its end: the
  header is forgotten if a new one was loaded, and the locks are released.
\<close>

definition ckpt_begin :: "(wal_sys \<Rightarrow> wal_sys) \<Rightarrow> wal_sys \<Rightarrow> int \<Rightarrow> int \<Rightarrow> bool list \<Rightarrow> wal_sys \<times> int \<times> int \<times> bool list" where
  "ckpt_begin env s c eMode xBusy =
     (if eMode = SQLITE_CHECKPOINT_NOOP then (s, SQLITE_OK, eMode, xBusy)
      else case walLockExclusive s c WAL_CKPT_LOCK 1 of
        (s, rc) \<Rightarrow>
          if rc \<noteq> SQLITE_OK then (s, rc, eMode, xBusy)
          else
            let s = upd_conn c (\<lambda>w. w\<lparr>ckptLock := True\<rparr>) s in
            if eMode = SQLITE_CHECKPOINT_PASSIVE then (s, rc, eMode, xBusy)
            else case walBusyLock env s c xBusy WAL_WRITE_LOCK 1 of
              (s, rc, xBusy) \<Rightarrow>
                if rc = SQLITE_OK then (upd_conn c (\<lambda>w. w\<lparr>writeLock := 1\<rparr>) s, rc, eMode, xBusy)
                else if rc = SQLITE_BUSY then (s, SQLITE_OK, SQLITE_CHECKPOINT_PASSIVE, [])
                else (s, rc, eMode, xBusy))"

definition ckpt_end :: "bool \<Rightarrow> wal_sys \<Rightarrow> int \<Rightarrow> wal_sys" where
  "ckpt_end chg s c =
     (let s = sqlite3WalEndWriteTransaction (if chg then upd_conn c (\<lambda>w. w\<lparr>chdr := zero_hdr\<rparr>) s else s) c
      in if ckptLock (conn s c) then upd_conn c (\<lambda>w. w\<lparr>ckptLock := False\<rparr>) (walUnlockExclusive s c WAL_CKPT_LOCK 1) else s)"

text \<open>\<^verbatim>\<open>sqlite3WalCheckpoint\<close>: the result code, the number of frames in the log and of those copied.\<close>

definition sqlite3WalCheckpoint ::
    "(wal_sys \<Rightarrow> int \<Rightarrow> wal_sys \<times> int) \<Rightarrow> (wal_sys \<Rightarrow> wal_sys) \<Rightarrow> bytes \<Rightarrow> wal_sys \<Rightarrow> int \<Rightarrow> int \<Rightarrow> bool list \<Rightarrow> nat \<Rightarrow>
      wal_sys \<times> int \<times> (nat \<times> nat) option" where
  "sqlite3WalCheckpoint recover env salt1 s c eMode xBusy nBuf =
     (if readOnly (conn s c) \<noteq> 0 then (s, SQLITE_READONLY, None)
      else
        let (s, rc, eMode2, xBusy2) = ckpt_begin env s c eMode xBusy;
            (s, rc, chg) = (if rc = SQLITE_OK then walIndexReadHdr recover s c else (s, rc, False));
            (s, rc, out) =
              (if rc \<noteq> SQLITE_OK then (s, rc, None)
               else
                 let (s, rc) = (if hMxFrame (chdr (conn s c)) \<noteq> 0 \<and> walPagesize s c \<noteq> nBuf then (s, SQLITE_CORRUPT)
                                else if eMode2 \<noteq> SQLITE_CHECKPOINT_NOOP then walCheckpoint env salt1 s c eMode2 xBusy2
                                else (s, rc))
                 in (s, rc, if rc = SQLITE_OK \<or> rc = SQLITE_BUSY then Some (hMxFrame (chdr (conn s c)), nBackfill s) else None))
        in (ckpt_end chg s c, if rc = SQLITE_OK \<and> eMode \<noteq> eMode2 then SQLITE_BUSY else rc, out))"

end
