(* ===== verification/Wal_Protocol.thy ===== *)
theory Wal_Protocol
  imports Wal_Shm
begin

text \<open>
  Snapshot isolation of the log under every interleaving. The operations of a connection on the
  shared wal-index are split where another connection can come between: each lock request, each
  load of shared data that a later step relies on, each page copied by a checkpoint is a step of
  its own. The steps allow more than the code does (any choice of a read mark, locks requested at
  any time). A ghost state records the committed content of the database, and for every connection
  the content its transaction is meant to see.
\<close>

section \<open>What the log needs of the slot locks\<close>

definition covers :: "int \<Rightarrow> int \<Rightarrow> nat \<Rightarrow> bool" where
  "covers offset n k \<longleftrightarrow> offset \<le> int k \<and> int k < offset + n"

locale slot_locking =
  fixes lock :: "'s \<Rightarrow> int \<Rightarrow> int \<Rightarrow> int \<Rightarrow> int \<Rightarrow> 's \<times> int"
    and hs :: "'s \<Rightarrow> nat \<Rightarrow> int \<Rightarrow> bool" and hx :: "'s \<Rightarrow> nat \<Rightarrow> int \<Rightarrow> bool" and ok :: "'s \<Rightarrow> bool"
  assumes exclusion: "ok st \<Longrightarrow> hx st k c \<Longrightarrow> hs st k d \<or> hx st k d \<Longrightarrow> d = c"
    and lock_ok: "ok st \<Longrightarrow> 0 \<le> offset \<Longrightarrow> offset + n \<le> 8 \<Longrightarrow> ok (fst (lock st c offset n flags))"
    and lock_others: "ok st \<Longrightarrow> 0 \<le> offset \<Longrightarrow> offset + n \<le> 8 \<Longrightarrow> d \<noteq> c \<or> \<not> covers offset n k \<Longrightarrow>
      hs (fst (lock st c offset n flags)) k d = hs st k d \<and> hx (fst (lock st c offset n flags)) k d = hx st k d"
    and shared_keeps: "ok st \<Longrightarrow> 0 \<le> offset \<Longrightarrow> offset + n \<le> 8 \<Longrightarrow> hs st k d \<Longrightarrow> hs (fst (lock st c offset n 6)) k d"
    and shared_keeps_excl: "ok st \<Longrightarrow> 0 \<le> offset \<Longrightarrow> offset + n \<le> 8 \<Longrightarrow> hx (fst (lock st c offset n 6)) k d = hx st k d"
    and excl_keeps: "ok st \<Longrightarrow> 0 \<le> offset \<Longrightarrow> offset + n \<le> 8 \<Longrightarrow> hx st k d \<Longrightarrow> hx (fst (lock st c offset n 10)) k d"
    and shared_granted: "ok st \<Longrightarrow> 0 \<le> offset \<Longrightarrow> offset < 8 \<Longrightarrow> snd (lock st c offset 1 6) = SQLITE_OK \<Longrightarrow>
      hs (fst (lock st c offset 1 6)) (nat offset) c"
    and excl_granted: "ok st \<Longrightarrow> 0 \<le> c \<Longrightarrow> 0 \<le> offset \<Longrightarrow> offset + n \<le> 8 \<Longrightarrow> snd (lock st c offset n 10) = SQLITE_OK \<Longrightarrow>
      covers offset n k \<Longrightarrow> hx (fst (lock st c offset n 10)) k c"
begin

text \<open>Somebody else's shared lock and an exclusive lock on one slot do not go together.\<close>

lemma apart: "ok st \<Longrightarrow> hx st k c \<Longrightarrow> hs st k d \<Longrightarrow> d \<noteq> c \<Longrightarrow> False"
  using exclusion by blast

lemma unique_holder: "ok st \<Longrightarrow> hx st k c \<Longrightarrow> hx st k d \<Longrightarrow> c = d"
  using exclusion by blast

text \<open>A request keeps every lock except those of the requester in its own range.\<close>

lemma request_keeps:
  "ok st \<Longrightarrow> 0 \<le> offset \<Longrightarrow> offset + n \<le> 8 \<Longrightarrow> d \<noteq> c \<or> \<not> covers offset n k \<or> flags = 6 \<Longrightarrow> hs st k d \<Longrightarrow> hs (fst (lock st c offset n flags)) k d"
  using lock_others shared_keeps by blast

lemma request_keeps_excl:
  "ok st \<Longrightarrow> 0 \<le> offset \<Longrightarrow> offset + n \<le> 8 \<Longrightarrow> d \<noteq> c \<or> \<not> covers offset n k \<or> flags = 6 \<or> flags = 10 \<Longrightarrow> hx st k d \<Longrightarrow>
     hx (fst (lock st c offset n flags)) k d"
  using lock_others shared_keeps_excl excl_keeps by blast

end

lemma covers_requested: "covers offset n k \<longleftrightarrow> requested offset n k"
  by (simp add: covers_def requested_def)

lemma slot_lock_cases:
  assumes "shm_ok st" "0 \<le> offset" "offset + n \<le> 8"
  obtains (unlock) "flags AND 1 \<noteq> 0" "snd (slot_lock st c offset n flags) = SQLITE_OK"
      "released c (set [offset..offset + n - 1]) st (fst (slot_lock st c offset n flags))"
    | (busy) "flags AND 1 = 0" "slot_lock st c offset n flags = (st, SQLITE_BUSY)"
    | (excl) "flags AND 1 = 0" "flags AND 8 \<noteq> 0" "\<forall>k < 8. requested offset n k \<longrightarrow> \<not> conflicts_excl st c k"
      "slot_lock st c offset n flags = (take_excl c [offset..offset + n - 1] st, SQLITE_OK)"
    | (shared) "flags AND 1 = 0" "flags AND 8 = 0" "\<forall>k < 8. requested offset n k \<longrightarrow> \<not> conflicts_shared st c k"
      "slot_lock st c offset n flags = (take_shared c [offset..offset + n - 1] st, SQLITE_OK)"
proof -
  have r: "in_range offset n" using assms(2,3) by (simp add: in_range_def)
  note wf = shm_ok_wf [OF assms(1)]
  consider "flags AND 1 \<noteq> 0" | "flags AND 1 = 0" "flags AND 8 \<noteq> 0" | "flags AND 1 = 0" "flags AND 8 = 0" by blast
  then show thesis
  proof cases
    case 1
    then show thesis using shm_lock_unlock [OF wf r, of flags c] by (intro unlock) (auto simp: slot_lock_def)
  next
    case 2
    note e = shm_lock_excl [OF wf r 2, of c]
    show thesis
    proof (cases "\<exists>k < 8. requested offset n k \<and> conflicts_excl st c k")
      case True
      then show thesis using e 2 by (intro busy) (simp_all add: slot_lock_def)
    next
      case False
      then show thesis using e 2 by (intro excl) (simp_all add: slot_lock_def)
    qed
  next
    case 3
    note e = shm_lock_shared [OF wf r 3, of c]
    show thesis
    proof (cases "\<exists>k < 8. requested offset n k \<and> conflicts_shared st c k")
      case True
      then show thesis using e 3 by (intro busy) (simp_all add: slot_lock_def)
    next
      case False
      then show thesis using e 3 by (intro shared) (simp_all add: slot_lock_def)
    qed
  qed
qed

lemma take_excl_nth:
  assumes "shm_ok st" "0 \<le> offset" "offset + n \<le> 8" and "k < 8"
  shows "shared (take_excl c [offset..offset + n - 1] st) ! k = (if requested offset n k then shared st ! k - {c} else shared st ! k)"
    "excl (take_excl c [offset..offset + n - 1] st) ! k = (if requested offset n k then c else excl st ! k)"
  using take_excl_spec [OF shm_ok_wf [OF assms(1)] in_range_slots [of offset n], of c, unfolded requested_iff] assms(2-4)
  by (auto simp: in_range_def)

lemma take_shared_nth:
  assumes "shm_ok st" "0 \<le> offset" "offset + n \<le> 8" and "k < 8"
  shows "shared (take_shared c [offset..offset + n - 1] st) ! k = (if requested offset n k then insert c (shared st ! k) else shared st ! k)"
    "excl (take_shared c [offset..offset + n - 1] st) ! k = excl st ! k"
  using take_shared_spec [OF shm_ok_wf [OF assms(1)] in_range_slots [of offset n], of c, unfolded requested_iff] assms(2-4)
  by (auto simp: in_range_def)

lemma released_nth:
  assumes "released c (set [offset..offset + n - 1]) st st'" and "k < 8"
  shows "shared st' ! k = (if requested offset n k then shared st ! k - {c} else shared st ! k)"
    "excl st' ! k = (if requested offset n k \<and> excl st ! k = c then -1 else excl st ! k)"
  using assms unfolding released_def requested_iff by auto

lemmas slot_nth = take_excl_nth take_shared_nth released_nth

lemma slot_lock_others:
  assumes "shm_ok st" "0 \<le> offset" "offset + n \<le> 8" and d: "d \<noteq> c \<or> \<not> covers offset n k"
  shows "holds_shared (fst (slot_lock st c offset n flags)) k d = holds_shared st k d \<and>
    holds_excl (fst (slot_lock st c offset n flags)) k d = holds_excl st k d"
  using assms(1-3)
proof (cases rule: slot_lock_cases [where c = c and flags = flags])
  case excl
  have "\<not> holds_excl st k d" if "covers offset n k" "k < 8" using excl(3) that d by (auto simp: covers_requested conflicts_excl_def)
  with excl(4) d show ?thesis
    by (cases "covers offset n k"; cases "k < 8") (auto simp: holds_shared_def holds_excl_def covers_requested take_excl_nth [OF assms(1-3)])
next
  case shared
  with d show ?thesis
    by (cases "k < 8") (auto simp: holds_shared_def holds_excl_def covers_requested take_shared_nth [OF assms(1-3)])
next
  case unlock
  with d show ?thesis
    by (cases "k < 8") (auto simp: holds_shared_def holds_excl_def covers_requested released_nth [OF unlock(3)])
qed simp

lemma slot_lock_ok:
  assumes "shm_ok st" "0 \<le> offset" "offset + n \<le> 8"
  shows "shm_ok (fst (slot_lock st c offset n flags))"
  using assms
proof (cases rule: slot_lock_cases [where c = c and flags = flags])
  case excl
  then show ?thesis using take_excl_ok [OF assms(1), of offset n c] assms(2,3) by (auto simp: in_range_def)
next
  case shared
  then show ?thesis using take_shared_ok [OF assms(1), of offset n c] assms(2,3) by (auto simp: in_range_def)
next
  case unlock
  then show ?thesis using released_ok [OF assms(1)] by blast
qed (use assms in simp)

lemma slot_lock_shared:
  assumes "shm_ok st" "0 \<le> offset" "offset + n \<le> 8"
  shows "(holds_shared st k d \<longrightarrow> holds_shared (fst (slot_lock st c offset n 6)) k d) \<and>
    holds_excl (fst (slot_lock st c offset n 6)) k d = holds_excl st k d \<and>
    (snd (slot_lock st c offset n 6) = SQLITE_OK \<longrightarrow> covers offset n k \<longrightarrow> k < 8 \<longrightarrow> holds_shared (fst (slot_lock st c offset n 6)) k c)"
  using assms
proof (cases rule: slot_lock_cases [where c = c and flags = 6])
  case shared
  then show ?thesis
    by (cases "k < 8") (simp_all add: holds_shared_def holds_excl_def take_shared_nth [OF assms] covers_requested)
qed simp_all

lemma slot_lock_excl:
  assumes "shm_ok st" "0 \<le> offset" "offset + n \<le> 8"
  shows "(holds_excl st k d \<longrightarrow> holds_excl (fst (slot_lock st c offset n 10)) k d) \<and>
    (snd (slot_lock st c offset n 10) = SQLITE_OK \<longrightarrow> covers offset n k \<longrightarrow> k < 8 \<longrightarrow> 0 \<le> c \<longrightarrow> holds_excl (fst (slot_lock st c offset n 10)) k c)"
  using assms
proof (cases rule: slot_lock_cases [where c = c and flags = 10])
  case excl
  have "d = c" if "holds_excl st k d" "requested offset n k" using excl(3) that by (auto simp: conflicts_excl_def holds_excl_def)
  with excl(4) show ?thesis
    by (cases "k < 8") (auto simp: holds_excl_def take_excl_nth [OF assms] covers_requested)
qed simp_all

interpretation jvm: slot_locking slot_lock holds_shared holds_excl shm_ok
proof unfold_locales
  fix st k c d assume "shm_ok st" "holds_excl st k c" "holds_shared st k d \<or> holds_excl st k d"
  then show "d = c" using shm_ok_exclusion by blast
next
  fix st :: shm_state and offset n c flags :: int assume a: "shm_ok st" "0 \<le> offset" "offset + n \<le> 8"
  show "shm_ok (fst (slot_lock st c offset n flags))" by (rule slot_lock_ok [OF a])
  show "holds_shared (fst (slot_lock st c offset n flags)) k d = holds_shared st k d \<and>
      holds_excl (fst (slot_lock st c offset n flags)) k d = holds_excl st k d" if "d \<noteq> c \<or> \<not> covers offset n k" for d k
    by (rule slot_lock_others [OF a that])
  show "holds_shared st k d \<Longrightarrow> holds_shared (fst (slot_lock st c offset n 6)) k d" for k d using slot_lock_shared [OF a] by blast
  show "holds_excl (fst (slot_lock st c offset n 6)) k d = holds_excl st k d" for k d using slot_lock_shared [OF a] by blast
  show "holds_excl st k d \<Longrightarrow> holds_excl (fst (slot_lock st c offset n 10)) k d" for k d using slot_lock_excl [OF a] by blast
next
  fix st :: shm_state and offset c :: int assume "shm_ok st" "0 \<le> offset" "offset < 8" "snd (slot_lock st c offset 1 6) = SQLITE_OK"
  then show "holds_shared (fst (slot_lock st c offset 1 6)) (nat offset) c"
    using slot_lock_shared [of st offset 1 "nat offset" c c] by (simp add: covers_def)
next
  fix st :: shm_state and c offset n :: int and k :: nat assume "shm_ok st" "0 \<le> c" "0 \<le> offset" "offset + n \<le> 8" "snd (slot_lock st c offset n 10) = SQLITE_OK" "covers offset n k"
  then show "holds_excl (fst (slot_lock st c offset n 10)) k c"
    using slot_lock_excl [of st offset n k c c] by (simp add: covers_def)
qed

section \<open>Steps\<close>

text \<open>Where a connection stands, with what it has loaded into local variables.\<close>

datatype pc = Idle | Hdr | Zero | Mark nat nat | Min nat nat | Open
  | Scan nat nat | Load nat nat nat | Copy nat "(nat \<times> nat) set"

text \<open>
  The ghost state: the number of restarts of the log and the restart each salt belongs to, the
  committed content, and per connection its place, the restart its header belongs to and the content
  its transaction sees.
\<close>

record wal_ghost =
  gen :: nat
  sgen :: "bytes \<Rightarrow> nat option"
  image :: "nat \<Rightarrow> nat option"
  pcs :: "int \<Rightarrow> pc"
  cgen :: "int \<Rightarrow> nat"
  snap :: "int \<Rightarrow> nat \<Rightarrow> nat option"

type_synonym wal_state = "wal_sys \<times> wal_ghost"

definition goto :: "int \<Rightarrow> pc \<Rightarrow> wal_ghost \<Rightarrow> wal_ghost" where
  "goto c q g = g\<lparr>pcs := (pcs g)(c := q)\<rparr>"

definition sees :: "int \<Rightarrow> (nat \<Rightarrow> nat option) \<Rightarrow> wal_ghost \<Rightarrow> wal_ghost" where
  "sees c m g = g\<lparr>snap := (snap g)(c := m)\<rparr>"

text \<open>Lock slots a connection must not give up where it stands.\<close>

definition pinned :: "wal_state \<Rightarrow> int \<Rightarrow> nat \<Rightarrow> bool" where
  "pinned st c k = (case st of (s, g) \<Rightarrow>
     k = 0 \<and> writeLock (conn s c) \<noteq> 0 \<or>
     (case pcs g c of
        Open \<Rightarrow> int k = 3 + readLock (conn s c)
      | Min i v \<Rightarrow> k = 3 + i
      | Scan i m \<Rightarrow> k = 1
      | Load i m y \<Rightarrow> k = 1
      | Copy m todo \<Rightarrow> k = 1 \<or> k = 3
      | _ \<Rightarrow> False))"

text \<open>The content after the frames of a running transaction up to \<open>k\<close>.\<close>

definition overlay :: "wal_sys \<Rightarrow> wal_ghost \<Rightarrow> nat \<Rightarrow> nat \<Rightarrow> nat option" where
  "overlay s g k p =
     (case latest (frames s) p (hMxFrame (aHdr0 s) + 1) k of Some f \<Rightarrow> Some (snd (frames s f)) | None \<Rightarrow> image g p)"

definition set_hdr :: "int \<Rightarrow> (wal_hdr \<Rightarrow> wal_hdr) \<Rightarrow> wal_sys \<Rightarrow> wal_sys" where
  "set_hdr c f s = upd_conn c (\<lambda>w. w\<lparr>chdr := f (chdr w)\<rparr>) s"

definition write_frame :: "nat \<Rightarrow> nat \<Rightarrow> nat \<Rightarrow> wal_sys \<Rightarrow> wal_sys" where
  "write_frame f p d s = s\<lparr>frames := (frames s)(f := (p, d))\<rparr>"

definition cut :: "nat \<Rightarrow> (nat \<Rightarrow> nat option) \<Rightarrow> nat \<Rightarrow> nat option" where
  "cut n m p = (if p \<le> n then m p else None)"

definition restarted :: "int \<Rightarrow> bytes \<Rightarrow> wal_ghost \<Rightarrow> wal_ghost" where
  "restarted c salt g = g\<lparr>gen := gen g + 1, cgen := (cgen g)(c := gen g + 1), sgen := (sgen g)(salt \<mapsto> gen g + 1)\<rparr>"

text \<open>The pages a checkpoint has to copy, of those the iterator returns.\<close>

definition to_copy :: "wal_sys \<Rightarrow> int \<Rightarrow> nat \<Rightarrow> nat \<Rightarrow> (nat \<times> nat) set" where
  "to_copy s c m lo = {(p, f) \<in> set (iterated (frames s) lo (hMxFrame (chdr (conn s c)))).
     nBackfill s < f \<and> f \<le> m \<and> p \<le> hNPage (chdr (conn s c))}"

inductive wstep :: "int \<Rightarrow> wal_state \<Rightarrow> wal_state \<Rightarrow> bool" for c where
  lock_shared: "0 \<le> c \<Longrightarrow> 0 \<le> i \<Longrightarrow> i < 8 \<Longrightarrow> wstep c (s, g) (fst (walLockShared s c i), g)"
| lock_excl: "0 \<le> c \<Longrightarrow> 0 \<le> i \<Longrightarrow> i + n \<le> 8 \<Longrightarrow> (\<forall>k. covers i n k \<longrightarrow> holds_shared (slots s) k c \<longrightarrow> \<not> pinned (s, g) c k) \<Longrightarrow>
    wstep c (s, g) (fst (walLockExclusive s c i n), g)"
| unlock_shared: "0 \<le> i \<Longrightarrow> i < 8 \<Longrightarrow> \<not> pinned (s, g) c (nat i) \<Longrightarrow> wstep c (s, g) (walUnlockShared s c i, g)"
| unlock_excl: "0 \<le> i \<Longrightarrow> i + n \<le> 8 \<Longrightarrow> (\<forall>k. covers i n k \<longrightarrow> \<not> pinned (s, g) c k) \<Longrightarrow> wstep c (s, g) (walUnlockExclusive s c i n, g)"
| mark_store: "pcs g c \<noteq> Open \<Longrightarrow> 1 \<le> i \<Longrightarrow> i \<le> 4 \<Longrightarrow> holds_excl (slots s) (3 + i) c \<Longrightarrow> wstep c (s, g) (store_mark i v s, g)"
| r_header: "pcs g c = Idle \<Longrightarrow> walIndexTryHdr s c = (s', False, b) \<Longrightarrow> wstep c (s, g) (s', goto c Hdr (g\<lparr>cgen := (cgen g)(c := gen g)\<rparr>))"
| r_zero: "pcs g c = Hdr \<Longrightarrow> nBackfill s = hMxFrame (chdr (conn s c)) \<Longrightarrow> wstep c (s, g) (s, goto c Zero g)"
| r_zero_open: "pcs g c = Zero \<Longrightarrow> holds_shared (slots s) 3 c \<Longrightarrow> aHdr0 s = chdr (conn s c) \<Longrightarrow>
    wstep c (s, g) (upd_conn c (\<lambda>w. w\<lparr>readLock := 0\<rparr>) s, goto c Open (sees c (image g) g))"
| r_mark: "pcs g c = Hdr \<or> pcs g c = Zero \<Longrightarrow> 1 \<le> i \<Longrightarrow> i \<le> 4 \<Longrightarrow> v \<le> hMxFrame (chdr (conn s c)) \<Longrightarrow>
    wstep c (s, g) (s, goto c (Mark i v) g)"
| r_min: "pcs g c = Mark i v \<Longrightarrow> holds_shared (slots s) (3 + i) c \<Longrightarrow>
    wstep c (s, g) (upd_conn c (\<lambda>w. w\<lparr>minFrame := nBackfill s + 1\<rparr>) s, goto c (Min i v) g)"
| r_open: "pcs g c = Min i v \<Longrightarrow> aReadMark s ! i = v \<Longrightarrow> aHdr0 s = chdr (conn s c) \<Longrightarrow>
    wstep c (s, g) (upd_conn c (\<lambda>w. w\<lparr>readLock := int i\<rparr>) s, goto c Open (sees c (image g) g))"
| abandon: "pcs g c \<noteq> Open \<Longrightarrow> wstep c (s, g) (s, goto c Idle g)"
| r_close: "pcs g c = Open \<Longrightarrow> writeLock (conn s c) = 0 \<Longrightarrow> wstep c (s, g) (upd_conn c (\<lambda>w. w\<lparr>readLock := -1\<rparr>) s, goto c Idle g)"
| w_begin: "holds_excl (slots s) 0 c \<Longrightarrow> pcs g c = Open \<and> chdr (conn s c) = aHdr0 s \<or> pcs g c = Idle \<Longrightarrow>
    wstep c (s, g) (upd_conn c (\<lambda>w. w\<lparr>writeLock := 1\<rparr>) s, g)"
| w_salt: "pcs g c = Open \<Longrightarrow> 0 < readLock (conn s c) \<Longrightarrow> writeLock (conn s c) \<noteq> 0 \<Longrightarrow> hMxFrame (chdr (conn s c)) = 0 \<Longrightarrow> sgen g salt = None \<Longrightarrow>
    wstep c (s, g) (set_hdr c (\<lambda>h. h\<lparr>hSalt := salt\<rparr>) s, g\<lparr>sgen := (sgen g)(salt \<mapsto> gen g)\<rparr>)"
| w_append: "pcs g c = Open \<Longrightarrow> 0 < readLock (conn s c) \<Longrightarrow> writeLock (conn s c) \<noteq> 0 \<Longrightarrow> f = hMxFrame (chdr (conn s c)) + 1 \<Longrightarrow>
    wstep c (s, g) (set_hdr c (\<lambda>h. h\<lparr>hMxFrame := f\<rparr>) (write_frame f p d s), sees c ((snap g c)(p \<mapsto> d)) g)"
| w_rewrite: "pcs g c = Open \<Longrightarrow> 0 < readLock (conn s c) \<Longrightarrow> writeLock (conn s c) \<noteq> 0 \<Longrightarrow> hMxFrame (aHdr0 s) < f \<Longrightarrow>
    latest (frames s) p 1 (hMxFrame (chdr (conn s c))) = Some f \<Longrightarrow> wstep c (s, g) (write_frame f p d s, sees c ((snap g c)(p \<mapsto> d)) g)"
| w_commit: "pcs g c = Open \<Longrightarrow> 0 < readLock (conn s c) \<Longrightarrow> writeLock (conn s c) \<noteq> 0 \<Longrightarrow> hMxFrame (aHdr0 s) < hMxFrame (chdr (conn s c)) \<Longrightarrow>
    m = cut n (snap g c) \<Longrightarrow>
    wstep c (s, g) (walIndexWriteHdr (set_hdr c (\<lambda>h. h\<lparr>hNPage := n, hChange := hChange h + 1, hFrameCksum := ck, hSzPage := sz\<rparr>) s) c,
      sees c m (g\<lparr>image := m\<rparr>))"
| w_undo: "pcs g c = Open \<Longrightarrow> 0 < readLock (conn s c) \<Longrightarrow> writeLock (conn s c) \<noteq> 0 \<Longrightarrow> wstep c (s, g) (sqlite3WalUndo s c, sees c (image g) g)"
| w_savepoint: "pcs g c = Open \<Longrightarrow> 0 < readLock (conn s c) \<Longrightarrow> writeLock (conn s c) \<noteq> 0 \<Longrightarrow> hMxFrame (aHdr0 s) \<le> k \<Longrightarrow> k \<le> hMxFrame (chdr (conn s c)) \<Longrightarrow>
    wstep c (s, g) (set_hdr c (\<lambda>h. h\<lparr>hMxFrame := k, hFrameCksum := ck\<rparr>) s, sees c (overlay s g k) g)"
| w_end: "pcs g c = Open \<and> chdr (conn s c) = aHdr0 s \<or> pcs g c = Idle \<Longrightarrow>
    wstep c (s, g) (upd_conn c (\<lambda>w. w\<lparr>writeLock := 0, reCksum := 0, truncateOnCommit := False\<rparr>) s, g)"
| w_restart: "pcs g c = Open \<Longrightarrow> readLock (conn s c) = 0 \<Longrightarrow> writeLock (conn s c) \<noteq> 0 \<Longrightarrow> chdr (conn s c) = aHdr0 s \<Longrightarrow> nBackfill s = hMxFrame (aHdr0 s) \<Longrightarrow>
    (\<forall>i. 1 \<le> i \<longrightarrow> i \<le> 4 \<longrightarrow> holds_excl (slots s) (3 + i) c) \<Longrightarrow> salt = next_salt (hSalt (aHdr0 s)) salt1 \<Longrightarrow> sgen g salt = None \<Longrightarrow>
    wstep c (s, g) (walRestartHdr s c salt1, restarted c salt g)"
| w_switch: "pcs g c = Open \<Longrightarrow> readLock (conn s c) = 0 \<Longrightarrow> writeLock (conn s c) \<noteq> 0 \<Longrightarrow> chdr (conn s c) = aHdr0 s \<Longrightarrow>
    wstep c (s, g) (upd_conn c (\<lambda>w. w\<lparr>readLock := -1\<rparr>) s, goto c Hdr (g\<lparr>cgen := (cgen g)(c := gen g)\<rparr>))"
| c_start: "pcs g c = Idle \<Longrightarrow> holds_excl (slots s) 1 c \<Longrightarrow> walIndexTryHdr s c = (s', False, b) \<Longrightarrow>
    wstep c (s, g) (s', goto c (Scan 1 (hMxFrame (chdr (conn s' c)))) (g\<lparr>cgen := (cgen g)(c := gen g)\<rparr>))"
| c_load: "pcs g c = Scan i m \<Longrightarrow> 1 \<le> i \<Longrightarrow> i \<le> 4 \<Longrightarrow> wstep c (s, g) (s, goto c (Load i m (aReadMark s ! i)) g)"
| c_next: "pcs g c = Load i m y \<Longrightarrow> m \<le> y \<or> holds_excl (slots s) (3 + i) c \<Longrightarrow> wstep c (s, g) (s, goto c (Scan (i + 1) m) g)"
| c_busy: "pcs g c = Load i m y \<Longrightarrow> y < m \<Longrightarrow> wstep c (s, g) (s, goto c (Scan (i + 1) y) g)"
| c_copy: "pcs g c = Scan 5 m \<Longrightarrow> holds_excl (slots s) 3 c \<Longrightarrow> hSalt (aHdr0 s) = hSalt (chdr (conn s c)) \<Longrightarrow> nBackfill s < m \<Longrightarrow> lo \<le> nBackfill s \<Longrightarrow>
    wstep c (s, g) (s, goto c (Copy m (to_copy s c m lo)) g)"
| c_page: "pcs g c = Copy m todo \<Longrightarrow> (p, f) \<in> todo \<Longrightarrow>
    wstep c (s, g) (s\<lparr>dbPage := (dbPage s)(p := snd (frames s f)), dbSize := z\<rparr>, goto c (Copy m (todo - {(p, f)})) g)"
| c_truncate: "pcs g c = Copy m {} \<Longrightarrow> m = hMxFrame (aHdr0 s) \<Longrightarrow> (\<forall>p \<le> hNPage (chdr (conn s c)). db p = dbPage s p) \<Longrightarrow>
    wstep c (s, g) (s\<lparr>dbPage := db, dbSize := z\<rparr>, g)"
| c_publish: "pcs g c = Copy m {} \<Longrightarrow> wstep c (s, g) (s\<lparr>nBackfill := m\<rparr>, goto c Idle g)"
| misc: "wstep c (s, g) (s\<lparr>nBackfillAttempted := a, io := r, interrupts := b, walSize := z\<rparr>, g)"
| c_flag: "pcs g c = Idle \<Longrightarrow> wstep c (s, g) (upd_conn c (\<lambda>w. w\<lparr>ckptLock := b\<rparr>) s, g)"
| c_forget: "pcs g c = Idle \<Longrightarrow> wstep c (s, g) (upd_conn c (\<lambda>w. w\<lparr>chdr := zero_hdr\<rparr>) s, g)"
| c_restart: "pcs g c = Idle \<Longrightarrow> holds_excl (slots s) 0 c \<Longrightarrow> holds_excl (slots s) 1 c \<Longrightarrow> chdr (conn s c) = aHdr0 s \<Longrightarrow> nBackfill s = hMxFrame (aHdr0 s) \<Longrightarrow>
    (\<forall>i. 1 \<le> i \<longrightarrow> i \<le> 4 \<longrightarrow> holds_excl (slots s) (3 + i) c) \<Longrightarrow> salt = next_salt (hSalt (aHdr0 s)) salt1 \<Longrightarrow> sgen g salt = None \<Longrightarrow>
    wstep c (s, g) (walRestartHdr s c salt1, restarted c salt g)"

section \<open>The newest frame of a page\<close>

lemma latest_Some: "latest fs p lo hi = Some f \<longleftrightarrow> lo \<le> f \<and> 1 \<le> f \<and> f \<le> hi \<and> fst (fs f) = p \<and> (\<forall>g. f < g \<longrightarrow> g \<le> hi \<longrightarrow> fst (fs g) \<noteq> p)"
proof (induction hi)
  case (Suc hi)
  show ?case
  proof (cases "lo \<le> Suc hi \<and> fst (fs (Suc hi)) = p")
    case True
    have "f = Suc hi" if "f \<le> Suc hi" "\<forall>g. f < g \<longrightarrow> g \<le> Suc hi \<longrightarrow> fst (fs g) \<noteq> p"
      using that(1) that(2) [rule_format, of "Suc hi"] True by linarith
    then show ?thesis using True by auto
  next
    case False
    then show ?thesis using Suc by (auto simp: le_Suc_eq)
  qed
qed auto

lemma latest_None: "latest fs p lo hi = None \<longleftrightarrow> (\<forall>f. lo \<le> f \<longrightarrow> 1 \<le> f \<longrightarrow> f \<le> hi \<longrightarrow> fst (fs f) \<noteq> p)"
proof (induction hi)
  case (Suc hi)
  have "(\<forall>f. lo \<le> f \<longrightarrow> 1 \<le> f \<longrightarrow> f \<le> Suc hi \<longrightarrow> fst (fs f) \<noteq> p) \<longleftrightarrow>
      (\<forall>f. lo \<le> f \<longrightarrow> 1 \<le> f \<longrightarrow> f \<le> hi \<longrightarrow> fst (fs f) \<noteq> p) \<and> \<not> (lo \<le> Suc hi \<and> fst (fs (Suc hi)) = p)"
    (is "?A \<longleftrightarrow> ?B")
  proof
    assume A: ?A
    have "\<not> (lo \<le> Suc hi \<and> fst (fs (Suc hi)) = p)" using A [rule_format, of "Suc hi"] by auto
    with A show ?B by simp
  next
    assume B: ?B
    show ?A
    proof (intro allI impI)
      fix f assume "lo \<le> f" "1 \<le> f" "f \<le> Suc hi"
      then show "fst (fs f) \<noteq> p" using B by (cases "f = Suc hi") auto
    qed
  qed
  then show ?case using Suc by simp
qed simp

lemma latest_cong: "(\<And>f. 1 \<le> f \<Longrightarrow> f \<le> hi \<Longrightarrow> fs f = fs' f) \<Longrightarrow> latest fs p lo hi = latest fs' p lo hi"
proof (induction hi)
  case (Suc hi)
  have "fs (Suc hi) = fs' (Suc hi)" by (rule Suc.prems) simp_all
  moreover have "latest fs p lo hi = latest fs' p lo hi" by (rule Suc.IH) (simp add: Suc.prems)
  ultimately show ?case by simp
qed simp

lemma latest_down: "latest fs p 1 hi = Some f \<Longrightarrow> f \<le> hi' \<Longrightarrow> hi' \<le> hi \<Longrightarrow> latest fs p 1 hi' = Some f"
  by (simp add: latest_Some)

lemma latest_from_1: "latest fs p lo hi = Some f \<Longrightarrow> latest fs p 1 hi = Some f"
  by (simp add: latest_Some)

lemma latest_from: "latest fs p 1 hi = Some f \<Longrightarrow> latest fs p lo hi = (if lo \<le> f then Some f else None)"
  by (auto simp: latest_Some latest_None)

lemma latest_from_None: "latest fs p 1 hi = None \<Longrightarrow> latest fs p lo hi = None"
  by (simp add: latest_None)

lemma latest_up: "latest fs p 1 hi = Some f \<Longrightarrow> hi \<le> hi' \<Longrightarrow> \<exists>f'. latest fs p 1 hi' = Some f' \<and> f \<le> f'"
proof (cases "latest fs p 1 hi'")
  case (Some f')
  assume a: "latest fs p 1 hi = Some f" "hi \<le> hi'"
  have "f \<le> f'"
  proof (rule ccontr)
    assume "\<not> f \<le> f'"
    then have "f' < f" by simp
    moreover have "\<forall>g. f' < g \<longrightarrow> g \<le> hi' \<longrightarrow> fst (fs g) \<noteq> p" using Some by (simp add: latest_Some)
    moreover have "f \<le> hi'" "fst (fs f) = p" using a by (simp_all add: latest_Some)
    ultimately show False by blast
  qed
  with Some show "\<exists>f'. latest fs p 1 hi' = Some f' \<and> f \<le> f'" by blast
next
  case None
  assume a: "latest fs p 1 hi = Some f" "hi \<le> hi'"
  then have "1 \<le> f" "f \<le> hi'" "fst (fs f) = p" by (simp_all add: latest_Some)
  with None show "\<exists>f'. latest fs p 1 hi' = Some f' \<and> f \<le> f'" by (simp add: latest_None)
qed

lemma latest_above:
  "latest fs p (m + 1) hi = None \<Longrightarrow> m \<le> hi \<Longrightarrow> latest fs p 1 hi = latest fs p 1 m"
proof (induction hi)
  case (Suc hi)
  then show ?case
    by (cases "m = Suc hi") (auto split: if_splits simp: le_Suc_eq)
qed simp

section \<open>Invariant\<close>

text \<open>With frames from \<open>lo\<close> on read from the log and earlier ones from the database file, the content is \<open>img\<close>.\<close>

definition shown :: "(nat \<Rightarrow> nat \<times> nat) \<Rightarrow> (nat \<Rightarrow> nat) \<Rightarrow> nat \<Rightarrow> nat \<Rightarrow> (nat \<Rightarrow> nat option) \<Rightarrow> bool" where
  "shown fs db lo hi img \<longleftrightarrow> (\<forall>p v. img p = Some v \<longrightarrow>
     (case latest fs p 1 hi of Some f \<Rightarrow> snd (fs f) = v \<and> (f < lo \<longrightarrow> db p = v) | None \<Rightarrow> db p = v))"

lemma shownD: "shown fs db lo hi img \<Longrightarrow> img p = Some v \<Longrightarrow> latest fs p 1 hi = Some f \<Longrightarrow> snd (fs f) = v \<and> (f < lo \<longrightarrow> db p = v)"
  "shown fs db lo hi img \<Longrightarrow> img p = Some v \<Longrightarrow> latest fs p 1 hi = None \<Longrightarrow> db p = v"
  by (fastforce simp: shown_def)+

lemma shown_mono: "shown fs db lo hi img \<Longrightarrow> lo' \<le> lo \<Longrightarrow> shown fs db lo' hi img"
  unfolding shown_def by (fastforce split: option.splits)

lemma shown_db: "shown fs db lo hi img \<Longrightarrow> (\<And>p v. img p = Some v \<Longrightarrow> db' p = db p) \<Longrightarrow> shown fs db' lo hi img"
  unfolding shown_def
proof (intro allI impI)
  fix p v assume a: "\<And>p v. img p = Some v \<Longrightarrow> db' p = db p" and v: "img p = Some v"
    and D: "\<forall>p v. img p = Some v \<longrightarrow> (case latest fs p 1 hi of None \<Rightarrow> db p = v | Some f \<Rightarrow> snd (fs f) = v \<and> (f < lo \<longrightarrow> db p = v))"
  show "case latest fs p 1 hi of None \<Rightarrow> db' p = v | Some f \<Rightarrow> snd (fs f) = v \<and> (f < lo \<longrightarrow> db' p = v)"
    using a [OF v] D [rule_format, OF v] by (simp split: option.splits)
qed

lemma shown_cong: "(\<And>f. 1 \<le> f \<Longrightarrow> f \<le> hi \<Longrightarrow> fs f = fs' f) \<Longrightarrow> shown fs db lo hi img = shown fs' db lo hi img"
proof -
  assume a: "\<And>f. 1 \<le> f \<Longrightarrow> f \<le> hi \<Longrightarrow> fs f = fs' f"
  have "latest fs p 1 hi = latest fs' p 1 hi" for p by (rule latest_cong) (rule a)
  moreover have "fs f = fs' f" if "latest fs' p 1 hi = Some f" for p f using that a by (simp add: latest_Some)
  ultimately show ?thesis unfolding shown_def by (fastforce split: option.splits)
qed

text \<open>The local invariant of a connection.\<close>

abbreviation mx :: "wal_sys \<Rightarrow> int \<Rightarrow> nat" where "mx s c \<equiv> hMxFrame (chdr (conn s c))"
abbreviation live :: "wal_sys \<Rightarrow> nat" where "live s \<equiv> hMxFrame (aHdr0 s)"

definition reader :: "wal_sys \<Rightarrow> wal_ghost \<Rightarrow> int \<Rightarrow> nat \<Rightarrow> bool" where
  "reader s g c i \<longleftrightarrow> pcs g c = Open \<and> readLock (conn s c) = int i \<and> 1 \<le> i"

definition reader_ok :: "wal_sys \<Rightarrow> wal_ghost \<Rightarrow> int \<Rightarrow> bool" where
  "reader_ok s g c \<longleftrightarrow> (\<exists>i. readLock (conn s c) = int i \<and> 1 \<le> i \<and> i \<le> 4 \<and> holds_shared (slots s) (3 + i) c \<and>
       aReadMark s ! i \<le> mx s c \<and> aReadMark s ! i \<le> live s) \<and>
     cgen g c = gen g \<and> minFrame (conn s c) \<le> nBackfill s + 1 \<and>
     shown (frames s) (dbPage s) (minFrame (conn s c)) (mx s c) (snap g c) \<and>
     (if writeLock (conn s c) \<noteq> 0 then live s \<le> mx s c else mx s c \<le> live s) \<and>
     (live s \<le> mx s c \<longrightarrow> (\<forall>p. latest (frames s) p (live s + 1) (mx s c) = None \<longrightarrow> snap g c p = image g p))"

definition zero_ok :: "wal_sys \<Rightarrow> wal_ghost \<Rightarrow> int \<Rightarrow> bool" where
  "zero_ok s g c \<longleftrightarrow> holds_shared (slots s) 3 c \<and> (\<forall>p v. snap g c p = Some v \<longrightarrow> dbPage s p = v) \<and>
     (cgen g c = gen g \<longrightarrow> mx s c \<le> live s \<and> (live s \<le> mx s c \<longrightarrow> snap g c = image g))"

text \<open>The part of the invariant of a checkpointing connection that does not depend on readers.\<close>

definition ckpt_ok :: "wal_sys \<Rightarrow> wal_ghost \<Rightarrow> int \<Rightarrow> nat \<Rightarrow> bool" where
  "ckpt_ok s g c m \<longleftrightarrow> holds_excl (slots s) 1 c \<and> m \<le> mx s c \<and> (cgen g c = gen g \<longrightarrow> mx s c \<le> live s \<and>
     (\<forall>p. image g p \<noteq> None \<longrightarrow> latest (frames s) p (mx s c + 1) (live s) = None \<longrightarrow> p \<le> hNPage (chdr (conn s c))))"

definition copy_ok :: "wal_sys \<Rightarrow> wal_ghost \<Rightarrow> int \<Rightarrow> nat \<Rightarrow> (nat \<times> nat) set \<Rightarrow> bool" where
  "copy_ok s g c m todo \<longleftrightarrow> ckpt_ok s g c m \<and> holds_excl (slots s) 3 c \<and> cgen g c = gen g \<and> nBackfill s < m \<and>
     (\<forall>p f. (p, f) \<in> todo \<longrightarrow> latest (frames s) p 1 (mx s c) = Some f \<and> nBackfill s < f \<and> f \<le> m \<and> p \<le> hNPage (chdr (conn s c))) \<and>
     (\<forall>p f. latest (frames s) p 1 (mx s c) = Some f \<longrightarrow> nBackfill s < f \<longrightarrow> f \<le> m \<longrightarrow> p \<le> hNPage (chdr (conn s c)) \<longrightarrow>
        (p, f) \<in> todo \<or> dbPage s p = snd (frames s f))"

definition coh :: "wal_sys \<Rightarrow> wal_ghost \<Rightarrow> int \<Rightarrow> bool" where
  "coh s g c \<longleftrightarrow> (cgen g c = gen g \<longrightarrow> mx s c \<le> live s)"

definition loc :: "wal_sys \<Rightarrow> wal_ghost \<Rightarrow> int \<Rightarrow> bool" where
  "loc s g c \<longleftrightarrow> (writeLock (conn s c) \<noteq> 0 \<longrightarrow> holds_excl (slots s) 0 c) \<and>
     (pcs g c \<noteq> Idle \<longrightarrow> sgen g (hSalt (chdr (conn s c))) = Some (cgen g c)) \<and>
     (case pcs g c of
        Idle \<Rightarrow> True
      | Hdr \<Rightarrow> coh s g c
      | Zero \<Rightarrow> coh s g c \<and> (cgen g c = gen g \<longrightarrow> mx s c \<le> nBackfill s)
      | Mark i v \<Rightarrow> coh s g c \<and> 1 \<le> i \<and> i \<le> 4 \<and> v \<le> mx s c
      | Min i v \<Rightarrow> coh s g c \<and> 1 \<le> i \<and> i \<le> 4 \<and> v \<le> mx s c \<and> holds_shared (slots s) (3 + i) c \<and>
          (cgen g c = gen g \<longrightarrow> minFrame (conn s c) \<le> nBackfill s + 1)
      | Open \<Rightarrow> if readLock (conn s c) = 0 then zero_ok s g c else reader_ok s g c
      | Scan i m \<Rightarrow> 1 \<le> i \<and> i \<le> 5 \<and> ckpt_ok s g c m
      | Load i m y \<Rightarrow> 1 \<le> i \<and> i \<le> 4 \<and> ckpt_ok s g c m
      | Copy m todo \<Rightarrow> copy_ok s g c m todo)"

text \<open>What a checkpoint knows of the readers it has passed.\<close>

definition pair :: "wal_sys \<Rightarrow> wal_ghost \<Rightarrow> int \<Rightarrow> int \<Rightarrow> bool" where
  "pair s g c d \<longleftrightarrow> (cgen g c = gen g \<longrightarrow> (\<forall>j. reader s g d j \<longrightarrow>
     (case pcs g c of
        Scan i m \<Rightarrow> j < i \<longrightarrow> m \<le> mx s d
      | Load i m y \<Rightarrow> (j < i \<longrightarrow> m \<le> mx s d) \<and> (j = i \<longrightarrow> y \<le> mx s d \<or> mx s c \<le> mx s d)
      | Copy m todo \<Rightarrow> m \<le> mx s d
      | _ \<Rightarrow> True)))"

definition base :: "wal_sys \<Rightarrow> wal_ghost \<Rightarrow> bool" where
  "base s g \<longleftrightarrow> shm_ok (slots s) \<and> length (aReadMark s) = 5 \<and> (\<forall>c. exclusiveMode (conn s c) = 0) \<and>
     nBackfill s \<le> live s \<and> sgen g (hSalt (aHdr0 s)) = Some (gen g) \<and> (\<forall>x n. sgen g x = Some n \<longrightarrow> n \<le> gen g) \<and>
     shown (frames s) (dbPage s) (nBackfill s + 1) (live s) (image g) \<and> (\<forall>p. image g p \<noteq> None \<longrightarrow> p \<le> hNPage (aHdr0 s))"

definition wal_inv :: "wal_state \<Rightarrow> bool" where
  "wal_inv st = (case st of (s, g) \<Rightarrow> base s g \<and> (\<forall>c. loc s g c) \<and> (\<forall>c d. pair s g c d))"

section \<open>What a step of one connection leaves to the others\<close>

definition others :: "int \<Rightarrow> wal_sys \<Rightarrow> wal_ghost \<Rightarrow> wal_sys \<Rightarrow> wal_ghost \<Rightarrow> bool" where
  "others c s g s' g' \<longleftrightarrow> shm_ok (slots s') \<and> length (aReadMark s') = 5 \<and> (\<forall>d. exclusiveMode (conn s' d) = 0) \<and>
     (\<forall>x n. sgen g x = Some n \<longrightarrow> sgen g' x = Some n) \<and> (\<forall>x n. sgen g' x = Some n \<longrightarrow> n \<le> gen g') \<and>
     (\<forall>d. d \<noteq> c \<longrightarrow> conn s' d = conn s d \<and> pcs g' d = pcs g d \<and> cgen g' d = cgen g d \<and> snap g' d = snap g d \<and>
        (\<forall>k. holds_shared (slots s) k d \<longrightarrow> holds_shared (slots s') k d) \<and> (\<forall>k. holds_excl (slots s) k d \<longrightarrow> holds_excl (slots s') k d) \<and>
        (\<forall>i. 1 \<le> i \<longrightarrow> i \<le> 4 \<longrightarrow> holds_shared (slots s) (3 + i) d \<longrightarrow> aReadMark s' ! i = aReadMark s ! i))"

lemma othersD:
  assumes "others c s g s' g'" and "d \<noteq> c"
  shows "conn s' d = conn s d" "pcs g' d = pcs g d" "cgen g' d = cgen g d" "snap g' d = snap g d"
    "holds_shared (slots s) k d \<Longrightarrow> holds_shared (slots s') k d" "holds_excl (slots s) k d \<Longrightarrow> holds_excl (slots s') k d"
    "1 \<le> i \<Longrightarrow> i \<le> 4 \<Longrightarrow> holds_shared (slots s) (3 + i) d \<Longrightarrow> aReadMark s' ! i = aReadMark s ! i"
    "sgen g x = Some n \<Longrightarrow> sgen g' x = Some n"
  using assms by (auto simp: others_def)

lemma wal_invD:
  assumes "wal_inv (s, g)"
  shows "base s g" "loc s g c" "pair s g c d" "shm_ok (slots s)" "length (aReadMark s) = 5" "exclusiveMode (conn s c) = 0"
    "nBackfill s \<le> live s" "sgen g (hSalt (aHdr0 s)) = Some (gen g)" "sgen g x = Some n \<Longrightarrow> n \<le> gen g"
    "shown (frames s) (dbPage s) (nBackfill s + 1) (live s) (image g)" "image g p \<noteq> None \<Longrightarrow> p \<le> hNPage (aHdr0 s)"
    "writeLock (conn s c) \<noteq> 0 \<Longrightarrow> holds_excl (slots s) 0 c"
    "pcs g c \<noteq> Idle \<Longrightarrow> sgen g (hSalt (chdr (conn s c))) = Some (cgen g c)"
proof -
  have a: "base s g" "\<And>c. loc s g c" "\<And>c d. pair s g c d" using assms by (simp_all add: wal_inv_def)
  show "base s g" "loc s g c" "pair s g c d" using a by blast+
  show "shm_ok (slots s)" "length (aReadMark s) = 5" "exclusiveMode (conn s c) = 0"
    "nBackfill s \<le> live s" "sgen g (hSalt (aHdr0 s)) = Some (gen g)" "sgen g x = Some n \<Longrightarrow> n \<le> gen g"
    "shown (frames s) (dbPage s) (nBackfill s + 1) (live s) (image g)" "image g p \<noteq> None \<Longrightarrow> p \<le> hNPage (aHdr0 s)"
    using a(1) unfolding base_def by blast+
  show "writeLock (conn s c) \<noteq> 0 \<Longrightarrow> holds_excl (slots s) 0 c" "pcs g c \<noteq> Idle \<Longrightarrow> sgen g (hSalt (chdr (conn s c))) = Some (cgen g c)"
    using a(2) [of c] unfolding loc_def by blast+
qed

lemma one_writer: "wal_inv (s, g) \<Longrightarrow> writeLock (conn s c) \<noteq> 0 \<Longrightarrow> d \<noteq> c \<Longrightarrow> writeLock (conn s d) = 0"
  using wal_invD(4,12) jvm.unique_holder by (metis (no_types, lifting))

lemma salt_gen: "wal_inv (s, g) \<Longrightarrow> pcs g c \<noteq> Idle \<Longrightarrow> hSalt (aHdr0 s) = hSalt (chdr (conn s c)) \<Longrightarrow> cgen g c = gen g"
  using wal_invD(8,13) by fastforce

lemma pair_self: "pair s g c c"
  by (auto simp: pair_def reader_def)

lemma wal_invI:
  assumes "base s g" and "\<And>d. d \<noteq> c \<Longrightarrow> loc s g d" and "\<And>d e. d \<noteq> c \<Longrightarrow> e \<noteq> c \<Longrightarrow> pair s g d e"
    and "loc s g c" and "\<And>d. d \<noteq> c \<Longrightarrow> pair s g c d" and "\<And>d. d \<noteq> c \<Longrightarrow> pair s g d c"
  shows "wal_inv (s, g)"
proof -
  have "loc s g d" for d using assms(2,4) by (cases "d = c") auto
  moreover have "pair s g d e" for d e using assms(3,5,6) pair_self by (cases "d = c"; cases "e = c") auto
  ultimately show ?thesis using assms(1) unfolding wal_inv_def by simp blast
qed

text \<open>A step that does not touch the committed part of the log, the database file or the committed content.\<close>

definition quiet :: "int \<Rightarrow> wal_sys \<Rightarrow> wal_ghost \<Rightarrow> wal_sys \<Rightarrow> wal_ghost \<Rightarrow> bool" where
  "quiet c s g s' g' \<longleftrightarrow> others c s g s' g' \<and> aHdr0 s' = aHdr0 s \<and> nBackfill s' = nBackfill s \<and> dbPage s' = dbPage s \<and>
     image g' = image g \<and> gen g' = gen g \<and>
     (frames s' = frames s \<or> writeLock (conn s c) \<noteq> 0 \<and> (\<forall>f \<le> live s. frames s' f = frames s f))"

lemma reader_ok_quiet:
  assumes inv: "wal_inv (s, g)" and q: "quiet c s g s' g'" and d: "d \<noteq> c" and r: "reader_ok s g d"
  shows "reader_ok s' g' d"
proof -
  have o: "others c s g s' g'" and e: "aHdr0 s' = aHdr0 s" "nBackfill s' = nBackfill s" "dbPage s' = dbPage s" "image g' = image g" "gen g' = gen g"
    using q by (auto simp: quiet_def)
  note k = othersD [OF o d]
  obtain i where i: "readLock (conn s d) = int i" "1 \<le> i" "i \<le> 4" "holds_shared (slots s) (3 + i) d"
      "aReadMark s ! i \<le> mx s d" "aReadMark s ! i \<le> live s" using r unfolding reader_ok_def by blast
  have fr: "frames s' f = frames s f" if "1 \<le> f" "f \<le> mx s d" for f
  proof (cases "frames s' = frames s")
    case False
    then have w: "writeLock (conn s c) \<noteq> 0" "\<forall>f \<le> live s. frames s' f = frames s f" using q by (auto simp: quiet_def)
    then have "writeLock (conn s d) = 0" using one_writer [OF inv w(1) d] by simp
    then have "mx s d \<le> live s" using r unfolding reader_ok_def by simp
    with w(2) that(2) show ?thesis by simp
  qed simp
  have l: "latest (frames s') p (live s + 1) (mx s d) = latest (frames s) p (live s + 1) (mx s d)" for p
    by (rule latest_cong) (rule fr)
  have sh: "shown (frames s') db lo (mx s d) img = shown (frames s) db lo (mx s d) img" for db lo img
    by (rule shown_cong) (rule fr)
  show ?thesis
    using r i k(5) [OF i(4)] k(7) [OF i(2,3,4)] unfolding reader_ok_def k(1,3,4) e l sh by metis
qed

lemma ckpt_ok_quiet:
  assumes q: "quiet c s g s' g'" and d: "d \<noteq> c" and r: "ckpt_ok s g d m"
  shows "ckpt_ok s' g' d m"
proof -
  have o: "others c s g s' g'" and e: "aHdr0 s' = aHdr0 s" "image g' = image g" "gen g' = gen g"
    and fr: "\<forall>f \<le> live s. frames s' f = frames s f" using q by (auto simp: quiet_def)
  note k = othersD [OF o d]
  have l: "latest (frames s') p (mx s d + 1) (live s) = latest (frames s) p (mx s d + 1) (live s)" for p
    by (rule latest_cong) (simp add: fr)
  show ?thesis using r k(6) unfolding ckpt_ok_def k(1,3) e l by blast
qed

lemma copy_ok_quiet:
  assumes q: "quiet c s g s' g'" and d: "d \<noteq> c" and r: "copy_ok s g d m todo"
  shows "copy_ok s' g' d m todo"
proof -
  have o: "others c s g s' g'" and e: "nBackfill s' = nBackfill s" "dbPage s' = dbPage s" "gen g' = gen g"
    and fr: "\<forall>f \<le> live s. frames s' f = frames s f" using q by (auto simp: quiet_def)
  note k = othersD [OF o d]
  have m: "mx s d \<le> live s" using r by (simp add: copy_ok_def ckpt_ok_def)
  have l: "latest (frames s') p 1 (mx s d) = latest (frames s) p 1 (mx s d)" for p
    by (rule latest_cong) (use fr m in simp)
  have v: "frames s' f = frames s f" if "latest (frames s) p 1 (mx s d) = Some f" for p f
    using that fr m by (simp add: latest_Some)
  show ?thesis using r k(6) ckpt_ok_quiet [OF q d, of m] v unfolding copy_ok_def k(1,3) e l by metis
qed

lemma loc_quiet:
  assumes inv: "wal_inv (s, g)" and q: "quiet c s g s' g'" and d: "d \<noteq> c"
  shows "loc s' g' d"
proof -
  have o: "others c s g s' g'" and e: "aHdr0 s' = aHdr0 s" "nBackfill s' = nBackfill s" "dbPage s' = dbPage s" "gen g' = gen g" "image g' = image g"
    using q by (auto simp: quiet_def)
  note k = othersD [OF o d]
  have l: "loc s g d" by (rule wal_invD [OF inv])
  have z: "zero_ok s' g' d" if "zero_ok s g d" using that k(5) unfolding zero_ok_def k(1,3,4) e by blast
  have co: "coh s' g' d = coh s g d" unfolding coh_def k(1,3) e ..
  show ?thesis
    using l k(5,6,8) reader_ok_quiet [OF inv q d] ckpt_ok_quiet [OF q d] copy_ok_quiet [OF q d] z
    unfolding loc_def k(1,2,3) e co by (auto split: pc.splits if_splits)
qed

lemma quiet_inv:
  assumes inv: "wal_inv (s, g)" and q: "quiet c s g s' g'" and "loc s' g' c"
    and "\<And>d. d \<noteq> c \<Longrightarrow> pair s' g' c d" and "\<And>d. d \<noteq> c \<Longrightarrow> pair s' g' d c"
  shows "wal_inv (s', g')"
proof (rule wal_invI [where c = c])
  have o: "others c s g s' g'" and e: "aHdr0 s' = aHdr0 s" "nBackfill s' = nBackfill s" "dbPage s' = dbPage s" "image g' = image g" "gen g' = gen g"
    and fr: "\<forall>f \<le> live s. frames s' f = frames s f" using q by (auto simp: quiet_def)
  have "shown (frames s') db lo (live s) img = shown (frames s) db lo (live s) img" for db lo img
    by (rule shown_cong) (simp add: fr)
  then show "base s' g'" using wal_invD(1) [OF inv] o unfolding base_def e others_def by auto
  show "loc s' g' d" if "d \<noteq> c" for d by (rule loc_quiet [OF inv q that])
  show "pair s' g' d f" if "d \<noteq> c" "f \<noteq> c" for d f
    using wal_invD(3) [OF inv, of d f] unfolding pair_def reader_def e othersD(1-3) [OF o that(1)] othersD(1-3) [OF o that(2)] .
qed (use assms in simp_all)

section \<open>Lock requests\<close>

lemma slot_request_fields [simp]:
  "aHdr0 (fst (slot_request s c off n fl)) = aHdr0 s" "nBackfill (fst (slot_request s c off n fl)) = nBackfill s"
  "aReadMark (fst (slot_request s c off n fl)) = aReadMark s" "frames (fst (slot_request s c off n fl)) = frames s"
  "dbPage (fst (slot_request s c off n fl)) = dbPage s" "conn (fst (slot_request s c off n fl)) = conn s"
  "slots (fst (slot_request s c off n fl)) = fst (slot_lock (slots s) c off n fl)"
  by (simp_all add: slot_request_def split: prod.split)

lemma loc_slots:
  assumes l: "loc s g c" and e: "aHdr0 s' = aHdr0 s" "nBackfill s' = nBackfill s" "aReadMark s' = aReadMark s" "frames s' = frames s"
      "dbPage s' = dbPage s" "conn s' = conn s"
    and k: "\<And>k. pinned (s, g) c k \<Longrightarrow> holds_shared (slots s) k c \<Longrightarrow> holds_shared (slots s') k c"
      "\<And>k. pinned (s, g) c k \<Longrightarrow> holds_excl (slots s) k c \<Longrightarrow> holds_excl (slots s') k c"
  shows "loc s' g c"
proof -
  have w: "writeLock (conn s c) \<noteq> 0 \<longrightarrow> holds_excl (slots s') 0 c" using l k(2) [of 0] by (auto simp: loc_def pinned_def)
  have ck: "ckpt_ok s' g c m = ckpt_ok s g c m" if "holds_excl (slots s') 1 c = holds_excl (slots s) 1 c" for m
    using that unfolding ckpt_ok_def e by simp
  show ?thesis
  proof (cases "pcs g c")
    case Open
    have "reader_ok s' g c" if "reader_ok s g c"
    proof -
      obtain i where i: "readLock (conn s c) = int i" "1 \<le> i" "i \<le> 4" "holds_shared (slots s) (3 + i) c"
          "aReadMark s ! i \<le> mx s c" "aReadMark s ! i \<le> live s" using \<open>reader_ok s g c\<close> unfolding reader_ok_def by blast
      have "holds_shared (slots s') (3 + i) c" using k(1) [of "3 + i"] i Open by (simp add: pinned_def)
      then show ?thesis using that i unfolding reader_ok_def e by blast
    qed
    moreover have "zero_ok s' g c" if "zero_ok s g c" "readLock (conn s c) = 0"
      using that k(1) [of 3] Open unfolding zero_ok_def e by (simp add: pinned_def)
    ultimately show ?thesis using l w Open unfolding loc_def e by auto
  next
    case (Min i v)
    then show ?thesis using l w k(1) [of "3 + i"] unfolding loc_def e coh_def by (simp add: pinned_def)
  next
    case (Scan i m)
    then have "holds_excl (slots s) 1 c" using l by (simp add: loc_def ckpt_ok_def)
    then have "holds_excl (slots s') 1 c" using k(2) [of 1] Scan by (simp add: pinned_def)
    then show ?thesis using l w Scan ck [of m] \<open>holds_excl (slots s) 1 c\<close> unfolding loc_def e by simp
  next
    case (Load i m y)
    then have "holds_excl (slots s) 1 c" using l by (simp add: loc_def ckpt_ok_def)
    then have "holds_excl (slots s') 1 c" using k(2) [of 1] Load by (simp add: pinned_def)
    then show ?thesis using l w Load ck [of m] \<open>holds_excl (slots s) 1 c\<close> unfolding loc_def e by simp
  next
    case (Copy m todo)
    then have h: "holds_excl (slots s) 1 c" "holds_excl (slots s) 3 c" using l by (simp_all add: loc_def copy_ok_def ckpt_ok_def)
    then have h': "holds_excl (slots s') 1 c" "holds_excl (slots s') 3 c" using k(2) [of 1] k(2) [of 3] Copy by (simp_all add: pinned_def)
    then show ?thesis using l w Copy ck [of m] h unfolding loc_def copy_ok_def e by simp
  qed (use l w in \<open>auto simp: loc_def e coh_def\<close>)
qed

lemma request_inv:
  assumes inv: "wal_inv (s, g)" and r: "0 \<le> i" "i + n \<le> 8" and fl: "flags \<in> {5, 6, 9, 10}"
    and p: "\<And>k. flags \<in> {5, 9} \<Longrightarrow> covers i n k \<Longrightarrow> \<not> pinned (s, g) c k" "\<And>k. flags = 10 \<Longrightarrow> covers i n k \<Longrightarrow> holds_shared (slots s) k c \<Longrightarrow> \<not> pinned (s, g) c k"
  shows "wal_inv (fst (slot_request s c i n flags), g)"
proof -
  note ok = wal_invD(4) [OF inv]
  let ?s = "fst (slot_request s c i n flags)"
  have "quiet c s g ?s g"
    using wal_invD(5,6,9) [OF inv] jvm.lock_ok [OF ok r] jvm.lock_others [OF ok r]
    by (simp add: quiet_def others_def)
  moreover have "loc ?s g c"
  proof (rule loc_slots [OF wal_invD(2) [OF inv]])
    show "holds_shared (slots ?s) k c" if k: "pinned (s, g) c k" "holds_shared (slots s) k c" for k
    proof -
      have "\<not> covers i n k \<or> flags = 6" using k fl p by blast
      then show ?thesis using jvm.request_keeps [OF ok r _ k(2)] by auto
    qed
    show "holds_excl (slots ?s) k c" if k: "pinned (s, g) c k" "holds_excl (slots s) k c" for k
    proof -
      have "\<not> covers i n k \<or> flags = 6 \<or> flags = 10" using k fl p by blast
      then show ?thesis using jvm.request_keeps_excl [OF ok r _ k(2)] by auto
    qed
  qed simp_all
  moreover have "pair ?s g d e" for d e using wal_invD(3) [OF inv, of d e] unfolding pair_def reader_def slot_request_fields .
  ultimately show ?thesis by (intro quiet_inv [OF inv]) simp_all
qed

section \<open>Readers\<close>

lemma upd_conn_fields [simp]:
  "aHdr0 (upd_conn c f s) = aHdr0 s" "nBackfill (upd_conn c f s) = nBackfill s" "aReadMark (upd_conn c f s) = aReadMark s"
  "frames (upd_conn c f s) = frames s" "dbPage (upd_conn c f s) = dbPage s" "slots (upd_conn c f s) = slots s"
  "conn (upd_conn c f s) d = (if d = c then f (conn s c) else conn s d)"
  by (simp_all add: upd_conn_def)

lemma ghost_fields [simp]:
  "gen (goto c q g) = gen g" "sgen (goto c q g) = sgen g" "image (goto c q g) = image g" "cgen (goto c q g) = cgen g" "snap (goto c q g) = snap g"
  "pcs (goto c q g) d = (if d = c then q else pcs g d)"
  "gen (sees c m g) = gen g" "sgen (sees c m g) = sgen g" "image (sees c m g) = image g" "cgen (sees c m g) = cgen g" "pcs (sees c m g) = pcs g"
  "snap (sees c m g) d = (if d = c then m else snap g d)"
  by (simp_all add: goto_def sees_def)

lemma tryHdr_ok:
  assumes "walIndexTryHdr s c = (s', False, b)"
  shows "aHdr0 s' = aHdr0 s" "nBackfill s' = nBackfill s" "aReadMark s' = aReadMark s" "frames s' = frames s" "dbPage s' = dbPage s" "slots s' = slots s"
    "d \<noteq> c \<Longrightarrow> conn s' d = conn s d" "chdr (conn s' c) = aHdr0 s" "exclusiveMode (conn s' c) = exclusiveMode (conn s c)"
    "writeLock (conn s' c) = writeLock (conn s c)"
  using assms by (auto simp: walIndexTryHdr_def split: if_splits)

lemma quiet_conn:
  assumes "wal_inv (s, g)" "exclusiveMode (conn s' c) = 0" "aHdr0 s' = aHdr0 s" "nBackfill s' = nBackfill s" "aReadMark s' = aReadMark s"
    "dbPage s' = dbPage s" "slots s' = slots s" "\<And>d. d \<noteq> c \<Longrightarrow> conn s' d = conn s d"
    "frames s' = frames s \<or> writeLock (conn s c) \<noteq> 0 \<and> (\<forall>f \<le> live s. frames s' f = frames s f)"
    "gen g' = gen g" "sgen g' = sgen g \<or> (\<exists>x. sgen g x = None \<and> sgen g' = (sgen g)(x \<mapsto> gen g))" "image g' = image g"
    "\<And>d. d \<noteq> c \<Longrightarrow> pcs g' d = pcs g d \<and> cgen g' d = cgen g d \<and> snap g' d = snap g d"
  shows "quiet c s g s' g'"
proof -
  have "exclusiveMode (conn s' d) = 0" for d using assms(2,8) wal_invD(6) [OF assms(1), of d] by (cases "d = c") auto
  moreover have "sgen g' x = Some n \<Longrightarrow> n \<le> gen g" for x n using assms(11) wal_invD(9) [OF assms(1)] by (auto split: if_splits)
  moreover have "sgen g x = Some n \<Longrightarrow> sgen g' x = Some n" for x n using assms(11) by auto
  ultimately show ?thesis using assms wal_invD(4,5) [OF assms(1)] unfolding quiet_def others_def by auto
qed

lemma pair_trivial:
  "pcs g c \<in> {Idle, Hdr, Zero, Open} \<or> (\<exists>i v. pcs g c = Mark i v \<or> pcs g c = Min i v) \<Longrightarrow> pair s g c d"
  "pcs g d \<noteq> Open \<or> readLock (conn s d) \<le> 0 \<Longrightarrow> pair s g c d"
  by (auto simp: pair_def reader_def)

lemma pair_same:
  "pair s g c d \<Longrightarrow> pcs g' c = pcs g c \<Longrightarrow> pcs g' d = pcs g d \<Longrightarrow> cgen g' c = cgen g c \<Longrightarrow> gen g' = gen g \<Longrightarrow>
     readLock (conn s' d) = readLock (conn s d) \<Longrightarrow> mx s' c = mx s c \<Longrightarrow> mx s d \<le> mx s' d \<Longrightarrow> pair s' g' c d"
  unfolding pair_def reader_def by (auto split: pc.splits dest: order_trans)

text \<open>A reader that has all committed frames is no obstacle to any checkpoint.\<close>

lemma pair_live:
  assumes "loc s g d" and "pcs g' d = pcs g d" "cgen g' d = cgen g d" "gen g' = gen g" "mx s' d = mx s d" "live s \<le> mx s' c"
  shows "pair s' g' d c"
proof -
  have "m \<le> mx s' c \<and> mx s d \<le> mx s' c" if "ckpt_ok s g d m" "cgen g d = gen g" for m
    using that assms(6) by (auto simp: ckpt_ok_def)
  with assms show ?thesis unfolding pair_def loc_def copy_ok_def by (auto split: pc.splits)
qed

lemma header_loaded:
  assumes inv: "wal_inv (s, g)" and "pcs g c = Idle" and t: "walIndexTryHdr s c = (s', False, b)"
    and g': "g' = goto c q (g\<lparr>cgen := (cgen g)(c := gen g)\<rparr>)"
    and q: "q = Hdr \<or> q = Scan 1 (hMxFrame (aHdr0 s)) \<and> holds_excl (slots s) 1 c"
  shows "wal_inv (s', g')"
proof (rule quiet_inv [OF inv])
  note T = tryHdr_ok [OF t]
  show "quiet c s g s' g'" by (rule quiet_conn [OF inv]) (use T wal_invD(6) [OF inv] g' in auto)
  show "loc s' g' c"
    using q T wal_invD(8,11,12) [OF inv] unfolding loc_def g' by (auto simp: coh_def ckpt_ok_def)
  show "pair s' g' c d" if "d \<noteq> c" for d using q by (auto simp: pair_def reader_def g')
  show "pair s' g' d c" if "d \<noteq> c" for d using q by (intro pair_trivial) (auto simp: g')
qed

lemma zero_open:
  assumes inv: "wal_inv (s, g)" and z: "pcs g c = Zero" "holds_shared (slots s) 3 c" "aHdr0 s = chdr (conn s c)"
  shows "wal_inv (upd_conn c (\<lambda>w. w\<lparr>readLock := 0\<rparr>) s, goto c Open (sees c (image g) g))" (is "wal_inv (?s, ?g)")
proof (rule quiet_inv [OF inv])
  show "quiet c s g ?s ?g" by (rule quiet_conn [OF inv]) (use wal_invD(6) [OF inv] in auto)
  have "cgen g c = gen g" using salt_gen [OF inv] z by simp
  then have "live s \<le> nBackfill s" using wal_invD(2) [OF inv, of c] z by (simp add: loc_def)
  have "dbPage s p = v" if "image g p = Some v" for p v
  proof (cases "latest (frames s) p 1 (live s)")
    case None
    then show ?thesis using shownD(2) [OF wal_invD(10) [OF inv] that] by simp
  next
    case (Some f)
    then have "f < nBackfill s + 1" using \<open>live s \<le> nBackfill s\<close> by (simp add: latest_Some)
    then show ?thesis using shownD(1) [OF wal_invD(10) [OF inv] that Some] by simp
  qed
  then show "loc ?s ?g c" using z wal_invD(2) [OF inv, of c] unfolding loc_def by (auto simp: zero_ok_def)
  show "pair ?s ?g c d" "pair ?s ?g d c" for d by (rule pair_trivial(1), simp) (rule pair_trivial(2), simp)
qed

lemma mark_open:
  assumes inv: "wal_inv (s, g)" and z: "pcs g c = Min i v" "aReadMark s ! i = v" "aHdr0 s = chdr (conn s c)"
  shows "wal_inv (upd_conn c (\<lambda>w. w\<lparr>readLock := int i\<rparr>) s, goto c Open (sees c (image g) g))" (is "wal_inv (?s, ?g)")
proof (rule quiet_inv [OF inv])
  show "quiet c s g ?s ?g" by (rule quiet_conn [OF inv]) (use wal_invD(6) [OF inv] in auto)
  have eq: "cgen g c = gen g" using salt_gen [OF inv] z by simp
  have l: "1 \<le> i" "i \<le> 4" "v \<le> mx s c" "holds_shared (slots s) (3 + i) c" "minFrame (conn s c) \<le> nBackfill s + 1"
      "writeLock (conn s c) \<noteq> 0 \<longrightarrow> holds_excl (slots s) 0 c" "sgen g (hSalt (chdr (conn s c))) = Some (cgen g c)"
    using wal_invD(2) [OF inv, of c] z eq by (simp_all add: loc_def)
  have "shown (frames s) (dbPage s) (minFrame (conn s c)) (live s) (image g)" by (rule shown_mono [OF wal_invD(10) [OF inv] l(5)])
  then have "reader_ok ?s ?g c" using l z eq unfolding reader_ok_def by auto
  then show "loc ?s ?g c" using l unfolding loc_def by simp
  show "pair ?s ?g d c" if "d \<noteq> c" for d using that z by (intro pair_live [OF wal_invD(2) [OF inv, of d]]) auto
  show "pair ?s ?g c d" for d by (rule pair_trivial(1)) simp
qed

text \<open>Steps in which a connection only moves on or updates its own variables.\<close>

lemma local_step:
  assumes inv: "wal_inv (s, g)" and e: "exclusiveMode (f (conn s c)) = 0"
    and l: "loc (upd_conn c f s) (goto c q g) c" and q: "q \<in> {Idle, Hdr, Zero} \<or> (\<exists>i v. q = Mark i v \<or> q = Min i v)"
  shows "wal_inv (upd_conn c f s, goto c q g)"
proof (rule quiet_inv [OF inv _ l])
  show "quiet c s g (upd_conn c f s) (goto c q g)" by (rule quiet_conn [OF inv]) (use e in auto)
  show "pair (upd_conn c f s) (goto c q g) c d" if "d \<noteq> c" for d by (rule pair_trivial(1)) (use q in auto)
  show "pair (upd_conn c f s) (goto c q g) d c" if "d \<noteq> c" for d by (rule pair_trivial(2)) (use q in auto)
qed

lemma upd_conn_id: "upd_conn c (\<lambda>w. w) s = s"
  by (simp add: upd_conn_def)

lemmas move_step = local_step [where f = "\<lambda>w. w", unfolded upd_conn_id]

lemma idle_step:
  assumes "wal_inv (s, g)" "pcs g c = Idle" "exclusiveMode (f (conn s c)) = 0" "loc (upd_conn c f s) g c"
  shows "wal_inv (upd_conn c f s, g)"
proof -
  have "goto c Idle g = g" using assms(2) by (simp add: goto_def fun_upd_idem)
  then show ?thesis using local_step [where q = Idle, OF assms(1), of f c] assms(3,4) by simp
qed

section \<open>Writers\<close>

lemma writer_live:
  assumes inv: "wal_inv (s, g)" and w: "pcs g c = Open" "0 < readLock (conn s c)" "writeLock (conn s c) \<noteq> 0"
  shows "reader_ok s g c" "live s \<le> mx s c" "cgen g c = gen g" "minFrame (conn s c) \<le> live s + 1"
    "latest (frames s) p (live s + 1) (mx s c) = None \<Longrightarrow> snap g c p = image g p" "nBackfill s \<le> live s"
proof -
  show r: "reader_ok s g c" using wal_invD(2) [OF inv, of c] w by (simp add: loc_def)
  show n: "nBackfill s \<le> live s" by (rule wal_invD(7) [OF inv])
  show l: "live s \<le> mx s c" "cgen g c = gen g" "minFrame (conn s c) \<le> live s + 1" using r w n by (auto simp: reader_ok_def)
  show "latest (frames s) p (live s + 1) (mx s c) = None \<Longrightarrow> snap g c p = image g p" using r l by (simp add: reader_ok_def)
qed

text \<open>A writer changes its own position, its unpublished frames and what it sees.\<close>

lemma writer_step:
  assumes inv: "wal_inv (s, g)" and w: "pcs g c = Open" "0 < readLock (conn s c)" "writeLock (conn s c) \<noteq> 0"
    and s': "aHdr0 s' = aHdr0 s" "nBackfill s' = nBackfill s" "aReadMark s' = aReadMark s" "dbPage s' = dbPage s" "slots s' = slots s"
      "\<And>d. d \<noteq> c \<Longrightarrow> conn s' d = conn s d" "\<And>f. f \<le> live s \<Longrightarrow> frames s' f = frames s f"
      "conn s' c = (conn s c)\<lparr>chdr := h, reCksum := rk\<rparr>" "live s \<le> hMxFrame h"
    and g': "gen g' = gen g" "image g' = image g" "pcs g' = pcs g" "cgen g' = cgen g" "\<And>d. d \<noteq> c \<Longrightarrow> snap g' d = snap g d"
      "sgen g' = sgen g \<or> (\<exists>x. sgen g x = None \<and> sgen g' = (sgen g)(x \<mapsto> gen g))" "sgen g' (hSalt h) = Some (gen g)"
    and sh: "shown (frames s') (dbPage s) (minFrame (conn s c)) (hMxFrame h) (snap g' c)"
    and same: "\<And>p. latest (frames s') p (live s + 1) (hMxFrame h) = None \<Longrightarrow> snap g' c p = image g p"
  shows "wal_inv (s', g')"
proof (rule quiet_inv [OF inv])
  note wl = writer_live [OF inv w]
  show "quiet c s g s' g'"
    by (rule quiet_conn [OF inv]) (use s' g' w wal_invD(6) [OF inv, of c] in auto)
  obtain i where i: "readLock (conn s c) = int i" "1 \<le> i" "i \<le> 4" "holds_shared (slots s) (3 + i) c" "aReadMark s ! i \<le> live s"
    using wl(1) unfolding reader_ok_def by blast
  have "reader_ok s' g' c"
    unfolding reader_ok_def using i wl(1,3) w s' g' sh same by (auto simp: reader_ok_def intro: order_trans)
  then show "loc s' g' c" using w s' g' wal_invD(12) [OF inv w(3)] wl(3) by (simp add: loc_def)
  show "pair s' g' c d" if "d \<noteq> c" for d by (rule pair_trivial(1)) (simp add: g' w)
  show "pair s' g' d c" if "d \<noteq> c" for d using that s' g' by (intro pair_live [OF wal_invD(2) [OF inv, of d]]) simp_all
qed

lemma shown_overlay:
  assumes "shown fs db lo m img" and "m \<le> hi" and "lo \<le> m + 1"
  shows "shown fs db lo hi (\<lambda>p. case latest fs p (m + 1) hi of Some f \<Rightarrow> Some (snd (fs f)) | None \<Rightarrow> img p)"
  unfolding shown_def
proof (intro allI impI)
  fix p v assume v: "(case latest fs p (m + 1) hi of Some f \<Rightarrow> Some (snd (fs f)) | None \<Rightarrow> img p) = Some v"
  show "case latest fs p 1 hi of None \<Rightarrow> db p = v | Some f \<Rightarrow> snd (fs f) = v \<and> (f < lo \<longrightarrow> db p = v)"
  proof (cases "latest fs p (m + 1) hi")
    case None
    then have "latest fs p 1 hi = latest fs p 1 m" using assms(2) by (rule latest_above)
    then show ?thesis using assms(1) v None by (simp add: shown_def)
  next
    case (Some f)
    then have "latest fs p 1 hi = Some f" "m + 1 \<le> f" by (rule latest_from_1, simp add: latest_Some)
    then show ?thesis using v Some assms(3) by simp
  qed
qed

lemma set_hdr_fields [simp]:
  "aHdr0 (set_hdr c f s) = aHdr0 s" "nBackfill (set_hdr c f s) = nBackfill s" "aReadMark (set_hdr c f s) = aReadMark s"
  "frames (set_hdr c f s) = frames s" "dbPage (set_hdr c f s) = dbPage s" "slots (set_hdr c f s) = slots s"
  "conn (set_hdr c f s) d = (if d = c then (conn s c)\<lparr>chdr := f (chdr (conn s c))\<rparr> else conn s d)"
  by (simp_all add: set_hdr_def)

lemma write_frame_fields [simp]:
  "aHdr0 (write_frame f p d s) = aHdr0 s" "nBackfill (write_frame f p d s) = nBackfill s" "aReadMark (write_frame f p d s) = aReadMark s"
  "frames (write_frame f p d s) = (frames s)(f := (p, d))" "dbPage (write_frame f p d s) = dbPage s" "slots (write_frame f p d s) = slots s"
  "conn (write_frame f p d s) = conn s"
  by (simp_all add: write_frame_def)

lemma append_inv:
  assumes inv: "wal_inv (s, g)" and w: "pcs g c = Open" "0 < readLock (conn s c)" "writeLock (conn s c) \<noteq> 0" and f: "f = mx s c + 1"
  shows "wal_inv (set_hdr c (\<lambda>h. h\<lparr>hMxFrame := f\<rparr>) (write_frame f p d s), sees c ((snap g c)(p \<mapsto> d)) g)"
proof -
  note wl = writer_live [OF inv w]
  let ?fs = "(frames s)(f := (p, d))"
  have lo: "latest ?fs q lo (mx s c) = latest (frames s) q lo (mx s c)" for q lo by (rule latest_cong) (simp add: f)
  have lf: "latest ?fs q lo f = (if lo \<le> f \<and> q = p then Some f else latest (frames s) q lo (mx s c))" for q lo
    using lo [of q lo] by (auto simp: f)
  have old: "shown (frames s) (dbPage s) (minFrame (conn s c)) (mx s c) (snap g c)" using wl(1) by (simp add: reader_ok_def)
  have "shown ?fs (dbPage s) (minFrame (conn s c)) f ((snap g c)(p \<mapsto> d))"
    unfolding shown_def
  proof (intro allI impI)
    fix q v assume v: "((snap g c)(p \<mapsto> d)) q = Some v"
    show "case latest ?fs q 1 f of None \<Rightarrow> dbPage s q = v | Some e \<Rightarrow> snd (?fs e) = v \<and> (e < minFrame (conn s c) \<longrightarrow> dbPage s q = v)"
    proof (cases "q = p")
      case True
      then show ?thesis using v wl(2,4) by (simp add: lf f)
    next
      case False
      have "e \<noteq> f" if "latest (frames s) q 1 (mx s c) = Some e" for e using that by (simp add: latest_Some f)
      then show ?thesis using v False old unfolding shown_def by (fastforce simp: lf split: option.splits)
    qed
  qed
  moreover have "((snap g c)(p \<mapsto> d)) q = image g q" if "latest ?fs q (live s + 1) f = None" for q
  proof -
    have "q \<noteq> p" "latest (frames s) q (live s + 1) (mx s c) = None" using that wl(2) unfolding lf by (auto simp: f split: if_splits)
    then show ?thesis using wl(5) [of q] by simp
  qed
  ultimately show ?thesis
    using wl(2,3) wal_invD(13) [OF inv, of c] w
    by (intro writer_step [OF inv w, where h = "(chdr (conn s c))\<lparr>hMxFrame := f\<rparr>" and rk = "reCksum (conn s c)"]) (auto simp: f)
qed

lemma rewrite_inv:
  assumes inv: "wal_inv (s, g)" and w: "pcs g c = Open" "0 < readLock (conn s c)" "writeLock (conn s c) \<noteq> 0"
    and f: "live s < f" "latest (frames s) p 1 (mx s c) = Some f"
  shows "wal_inv (write_frame f p d s, sees c ((snap g c)(p \<mapsto> d)) g)"
proof -
  note wl = writer_live [OF inv w]
  let ?fs = "(frames s)(f := (p, d))"
  have pf: "fst (frames s f) = p" using f(2) by (simp add: latest_Some)
  have "latest ?fs q lo hi = latest (frames s) q lo hi" for q lo hi by (induction hi) (auto simp: pf)
  note l = this
  have old: "shown (frames s) (dbPage s) (minFrame (conn s c)) (mx s c) (snap g c)" using wl(1) by (simp add: reader_ok_def)
  have "shown ?fs (dbPage s) (minFrame (conn s c)) (mx s c) ((snap g c)(p \<mapsto> d))"
    unfolding shown_def l
  proof (intro allI impI)
    fix q v assume v: "((snap g c)(p \<mapsto> d)) q = Some v"
    show "case latest (frames s) q 1 (mx s c) of None \<Rightarrow> dbPage s q = v | Some e \<Rightarrow> snd (?fs e) = v \<and> (e < minFrame (conn s c) \<longrightarrow> dbPage s q = v)"
    proof (cases "q = p")
      case True
      then show ?thesis using v wl(4) f by simp
    next
      case False
      have "e \<noteq> f" if "latest (frames s) q 1 (mx s c) = Some e" for e using that False pf by (auto simp: latest_Some)
      then show ?thesis using v False old unfolding shown_def by (fastforce split: option.splits)
    qed
  qed
  moreover have "((snap g c)(p \<mapsto> d)) q = image g q" if "latest ?fs q (live s + 1) (mx s c) = None" for q
  proof -
    have "q \<noteq> p" using that latest_from [OF f(2), of "live s + 1"] f(1) unfolding l by auto
    then show ?thesis using that wl(5) [of q] unfolding l by simp
  qed
  ultimately show ?thesis
    using wl(2,3) wal_invD(13) [OF inv, of c] w f(1)
    by (intro writer_step [OF inv w, where h = "chdr (conn s c)" and rk = "reCksum (conn s c)"]) auto
qed

lemma rollback_inv:
  assumes inv: "wal_inv (s, g)" and w: "pcs g c = Open" "0 < readLock (conn s c)" "writeLock (conn s c) \<noteq> 0"
    and h: "live s \<le> hMxFrame h" "sgen g (hSalt h) = Some (gen g)" and m: "m = overlay s g (hMxFrame h)"
  shows "wal_inv (upd_conn c (\<lambda>w. w\<lparr>chdr := h, reCksum := rk\<rparr>) s, sees c m g)"
proof -
  note wl = writer_live [OF inv w]
  have "shown (frames s) (dbPage s) (nBackfill s + 1) (hMxFrame h) m"
    using shown_overlay [OF wal_invD(10) [OF inv] h(1)] wl(6) unfolding m overlay_def [abs_def] by simp
  then have "shown (frames s) (dbPage s) (minFrame (conn s c)) (hMxFrame h) m"
    by (rule shown_mono) (use wl(1) in \<open>simp add: reader_ok_def\<close>)
  then show ?thesis using h by (intro writer_step [OF inv w, where h = h and rk = rk]) (auto simp: m overlay_def)
qed

lemma salt_inv:
  assumes inv: "wal_inv (s, g)" and w: "pcs g c = Open" "0 < readLock (conn s c)" "writeLock (conn s c) \<noteq> 0" and x: "sgen g salt = None"
  shows "wal_inv (set_hdr c (\<lambda>h. h\<lparr>hSalt := salt\<rparr>) s, g\<lparr>sgen := (sgen g)(salt \<mapsto> gen g)\<rparr>)"
proof -
  note wl = writer_live [OF inv w]
  show ?thesis using wl x by (intro writer_step [OF inv w, where h = "(chdr (conn s c))\<lparr>hSalt := salt\<rparr>" and rk = "reCksum (conn s c)"])
      (auto simp: reader_ok_def)
qed

lemma writeHdr_fields:
  "aHdr0 (walIndexWriteHdr s c) = sign_hdr (chdr (conn s c))" "nBackfill (walIndexWriteHdr s c) = nBackfill s"
  "aReadMark (walIndexWriteHdr s c) = aReadMark s" "frames (walIndexWriteHdr s c) = frames s" "dbPage (walIndexWriteHdr s c) = dbPage s"
  "slots (walIndexWriteHdr s c) = slots s"
  "conn (walIndexWriteHdr s c) d = (if d = c then (conn s c)\<lparr>chdr := sign_hdr (chdr (conn s c))\<rparr> else conn s d)"
  by (simp_all add: walIndexWriteHdr_def Let_def upd_conn_def)

lemma sign_hdr_fields [simp]:
  "hMxFrame (sign_hdr h) = hMxFrame h" "hNPage (sign_hdr h) = hNPage h" "hSalt (sign_hdr h) = hSalt h"
  by (simp_all add: sign_hdr_def Let_def)

text \<open>A commit as the other connections see it.\<close>

lemma commit_others:
  assumes inv: "wal_inv (s, g)" and w: "pcs g c = Open" "0 < readLock (conn s c)" "writeLock (conn s c) \<noteq> 0" and up: "live s < mx s c" and d: "d \<noteq> c"
    and s': "live s' = mx s c" "nBackfill s' = nBackfill s" "aReadMark s' = aReadMark s" "frames s' = frames s" "dbPage s' = dbPage s" "slots s' = slots s"
      "conn s' d = conn s d"
    and g': "gen g' = gen g" "sgen g' = sgen g" "pcs g' d = pcs g d" "cgen g' d = cgen g d" "snap g' d = snap g d" "image g' = cut n (snap g c)"
  shows "loc s' g' d"
proof -
  note wl = writer_live [OF inv w]
  have l: "loc s g d" by (rule wal_invD(2) [OF inv])
  have wd: "writeLock (conn s d) = 0" by (rule one_writer [OF inv w(3) d])
  have "reader_ok s' g' d" if r: "reader_ok s g d"
  proof -
    obtain i where i: "readLock (conn s d) = int i" "1 \<le> i" "i \<le> 4" "holds_shared (slots s) (3 + i) d" "aReadMark s ! i \<le> mx s d" "aReadMark s ! i \<le> live s"
      using r unfolding reader_ok_def by blast
    have m: "mx s d \<le> live s" using r wd by (simp add: reader_ok_def)
    have "aReadMark s ! i \<le> mx s c" using i(6) up by simp
    then show ?thesis using r i m wd up unfolding reader_ok_def s' g' by auto
  qed
  moreover have ck: "ckpt_ok s' g' d m" if r: "ckpt_ok s g d m" for m
  proof -
    have "p \<le> hNPage (chdr (conn s d))" if eq: "cgen g d = gen g" and p: "cut n (snap g c) p \<noteq> None" "latest (frames s) p (mx s d + 1) (mx s c) = None" for p
    proof -
      have md: "mx s d \<le> live s" using r eq by (simp add: ckpt_ok_def)
      have "latest (frames s) p (live s + 1) (mx s c) = None" "latest (frames s) p (mx s d + 1) (live s) = None"
        using p(2) md up unfolding latest_None by auto
      moreover have "snap g c p \<noteq> None" using p(1) by (auto simp: cut_def split: if_splits)
      ultimately show ?thesis using wl(5) [of p] r eq unfolding ckpt_ok_def by auto
    qed
    then show ?thesis using r up unfolding ckpt_ok_def s' g' by auto
  qed
  moreover have "copy_ok s' g' d m todo" if "copy_ok s g d m todo" for m todo
    using that ck unfolding copy_ok_def s' g' by blast
  ultimately show ?thesis using l up unfolding loc_def s' g' coh_def zero_ok_def by (auto split: pc.splits)
qed

lemma commit_inv:
  assumes inv: "wal_inv (s, g)" and w: "pcs g c = Open" "0 < readLock (conn s c)" "writeLock (conn s c) \<noteq> 0" and up: "live s < mx s c"
    and H: "\<And>h. hMxFrame (H h) = hMxFrame h" "\<And>h. hSalt (H h) = hSalt h" "\<And>h. hNPage (H h) = n" and m: "m = cut n (snap g c)"
  shows "wal_inv (walIndexWriteHdr (set_hdr c H s) c, sees c m (g\<lparr>image := m\<rparr>))" (is "wal_inv (?s, ?g)")
proof -
  note wl = writer_live [OF inv w]
  note F = writeHdr_fields [of "set_hdr c H s" c, simplified H set_hdr_fields sign_hdr_fields]
  have sh: "shown (frames s) (dbPage s) (nBackfill s + 1) (mx s c) m"
    unfolding shown_def
  proof (intro allI impI)
    fix p v assume "m p = Some v"
    then have v: "snap g c p = Some v" by (simp add: m cut_def split: if_splits)
    have old: "shown (frames s) (dbPage s) (minFrame (conn s c)) (mx s c) (snap g c)" using wl(1) by (simp add: reader_ok_def)
    have db: "dbPage s p = v" if e: "latest (frames s) p (nBackfill s + 1) (mx s c) = None"
    proof -
      have "latest (frames s) p (live s + 1) (mx s c) = None" using e wl(6) unfolding latest_None by auto
      then have i: "image g p = Some v" using wl(5) [of p] v by simp
      have "latest (frames s) p (nBackfill s + 1) (live s) = None" using e up unfolding latest_None by auto
      then show ?thesis using shownD [OF wal_invD(10) [OF inv] i] latest_from [of "frames s" p "live s"]
        by (cases "latest (frames s) p 1 (live s)") (auto simp: not_le split: if_splits)
    qed
    show "case latest (frames s) p 1 (mx s c) of None \<Rightarrow> dbPage s p = v | Some f \<Rightarrow> snd (frames s f) = v \<and> (f < nBackfill s + 1 \<longrightarrow> dbPage s p = v)"
    proof (cases "latest (frames s) p 1 (mx s c)")
      case None
      then show ?thesis using shownD(2) [OF old v] by simp
    next
      case (Some f)
      then show ?thesis using shownD(1) [OF old v Some] db latest_from [OF Some, of "nBackfill s + 1"] by auto
    qed
  qed
  show ?thesis
  proof (rule wal_invI [where c = c])
    show "base ?s ?g"
      using wal_invD [OF inv] wl(2,3,6) sh w unfolding base_def F by (auto simp: F m cut_def H split: if_splits)
    show "loc ?s ?g d" if "d \<noteq> c" for d
      by (rule commit_others [OF inv w up that]) (use that in \<open>simp_all add: F H m\<close>)
    show "pair ?s ?g d e" if "d \<noteq> c" "e \<noteq> c" for d e
      by (rule pair_same [OF wal_invD(3) [OF inv, of d e]]) (use that in \<open>simp_all add: F\<close>)
    show "pair ?s ?g c d" for d by (rule pair_trivial(1)) (simp add: w)
    show "pair ?s ?g d c" if "d \<noteq> c" for d
      by (rule pair_live [OF wal_invD(2) [OF inv, of d]]) (use that wl(2) in \<open>simp_all add: F H\<close>)
    obtain i where i: "readLock (conn s c) = int i" "1 \<le> i" "i \<le> 4" "holds_shared (slots s) (3 + i) c" "aReadMark s ! i \<le> mx s c"
      using wl(1) unfolding reader_ok_def by blast
    have "shown (frames s) (dbPage s) (minFrame (conn s c)) (mx s c) m" by (rule shown_mono [OF sh]) (use wl(1) in \<open>simp add: reader_ok_def\<close>)
    then have "reader_ok ?s ?g c" using i wl(1,3) w unfolding reader_ok_def by (auto simp: F H m)
    then show "loc ?s ?g c" using w wal_invD(12,13) [OF inv, of c] unfolding loc_def by (simp add: F H)
  qed
qed

section \<open>Restarting the log\<close>

lemma restart_fields:
  "frames (walRestartHdr s c salt1) = frames s" "dbPage (walRestartHdr s c salt1) = dbPage s" "slots (walRestartHdr s c salt1) = slots s"
  "nBackfill (walRestartHdr s c salt1) = 0" "live (walRestartHdr s c salt1) = 0"
  "hNPage (aHdr0 (walRestartHdr s c salt1)) = hNPage (chdr (conn s c))" "hSalt (aHdr0 (walRestartHdr s c salt1)) = next_salt (hSalt (chdr (conn s c))) salt1"
  "chdr (conn (walRestartHdr s c salt1) c) = aHdr0 (walRestartHdr s c salt1)" "length (aReadMark (walRestartHdr s c salt1)) = 5"
  "readLock (conn (walRestartHdr s c salt1) c) = readLock (conn s c)" "writeLock (conn (walRestartHdr s c salt1) c) = writeLock (conn s c)"
  "exclusiveMode (conn (walRestartHdr s c salt1) c) = exclusiveMode (conn s c)"
  by (simp_all add: walRestartHdr_def Let_def writeHdr_fields)

lemma restart_conn: "d \<noteq> c \<Longrightarrow> conn (walRestartHdr s c salt1) d = conn s d"
  by (simp add: walRestartHdr_def Let_def writeHdr_fields)

lemma restart_inv:
  assumes inv: "wal_inv (s, g)" and pc: "pcs g c = Open \<and> readLock (conn s c) = 0 \<or> pcs g c = Idle \<and> holds_excl (slots s) 1 c"
    and h: "chdr (conn s c) = aHdr0 s" "nBackfill s = live s" and x: "\<forall>i. 1 \<le> i \<longrightarrow> i \<le> 4 \<longrightarrow> holds_excl (slots s) (3 + i) c"
    and salt: "salt = next_salt (hSalt (aHdr0 s)) salt1" "sgen g salt = None"
  shows "wal_inv (walRestartHdr s c salt1, restarted c salt g)" (is "wal_inv (?s, ?g)")
proof -
  note ok = wal_invD(4) [OF inv]
  note F = restart_fields [of s c salt1]
  have G: "gen ?g = gen g + 1" "image ?g = image g" "pcs ?g = pcs g" "snap ?g = snap g" "cgen ?g c = gen g + 1"
      "\<And>d. d \<noteq> c \<Longrightarrow> cgen ?g d = cgen g d" "sgen ?g = (sgen g)(salt \<mapsto> gen g + 1)" by (simp_all add: restarted_def)
  have no_reader: "\<not> holds_shared (slots s) (3 + i) d" if "d \<noteq> c" "1 \<le> i" "i \<le> 4" for d i
    using jvm.apart [OF ok, of "3 + i" c d] x that by blast
  have no_copy: "pcs g d \<noteq> Copy m todo" if "d \<noteq> c" for d m todo
  proof
    assume "pcs g d = Copy m todo"
    then have e: "holds_excl (slots s) 1 d" "holds_excl (slots s) 3 d" using wal_invD(2) [OF inv, of d] by (simp_all add: loc_def copy_ok_def ckpt_ok_def)
    from pc show False
    proof
      assume "pcs g c = Open \<and> readLock (conn s c) = 0"
      then have "holds_shared (slots s) 3 c" using wal_invD(2) [OF inv, of c] by (simp add: loc_def zero_ok_def)
      then show False using jvm.apart [OF ok e(2)] that by blast
    next
      assume "pcs g c = Idle \<and> holds_excl (slots s) 1 c"
      then show False using jvm.unique_holder [OF ok e(1)] that by blast
    qed
  qed
  have db: "dbPage s p = v" if "image g p = Some v" for p v
    using shownD [OF wal_invD(10) [OF inv] that] h(2)
    by (cases "latest (frames s) p 1 (live s)") (auto simp: latest_Some)
  have old: "cgen g d \<noteq> gen g + 1" if "pcs g d \<noteq> Idle" for d using wal_invD(9,13) [OF inv] that by fastforce
  have other: "loc ?s ?g d" if "d \<noteq> c" for d
  proof -
    have l: "loc s g d" by (rule wal_invD(2) [OF inv])
    have sg: "pcs g d \<noteq> Idle \<longrightarrow> sgen ?g (hSalt (chdr (conn s d))) = Some (cgen g d)" using l salt(2) by (auto simp: loc_def G)
    have nr: "\<not> reader_ok s g d" using no_reader that unfolding reader_ok_def by blast
    show ?thesis using l sg nr no_reader [OF that] no_copy [OF that] old [of d]
      unfolding loc_def restart_conn [OF that] F G(1-4) G(6) [OF that] coh_def ckpt_ok_def zero_ok_def by (auto split: pc.splits)
  qed
  show ?thesis
  proof (rule wal_invI [where c = c])
    have "exclusiveMode (conn ?s d) = 0" for d using wal_invD(6) [OF inv, of d] by (cases "d = c") (simp_all add: F restart_conn)
    moreover have "sgen g y = Some n \<Longrightarrow> n \<le> gen g + 1" for y n using wal_invD(9) [OF inv, of y n] by simp
    moreover have "shown (frames s) (dbPage s) 1 0 (image g)" using db by (simp add: shown_def)
    ultimately show "base ?s ?g" using ok wal_invD(11) [OF inv] h unfolding base_def F G by (auto simp: salt(1))
    show "loc ?s ?g d" if "d \<noteq> c" for d by (rule other [OF that])
    show "pair ?s ?g d e" and "pair ?s ?g d c" if "d \<noteq> c" for d e
      using old [of d] unfolding pair_def G(1,3) G(6) [OF that] by (cases "pcs g d"; auto)+
    have "pcs g c \<noteq> Idle \<Longrightarrow> cgen g c = gen g" by (rule salt_gen [OF inv]) (simp_all add: h)
    then show "loc ?s ?g c" using wal_invD(2) [OF inv, of c] pc h salt unfolding loc_def F G zero_ok_def by (auto simp: F)
    show "pair ?s ?g c d" for d using pc by (intro pair_trivial) (auto simp: G)
  qed
qed

section \<open>Checkpoints\<close>

lemma iterated_iff: "(p, f) \<in> set (iterated fs lo hi) \<longleftrightarrow> latest fs p (lo + 1) hi = Some f"
proof -
  have "p \<in> (\<lambda>f. fst (fs f)) ` {lo + 1..<hi + 1} \<longleftrightarrow> latest fs p (lo + 1) hi \<noteq> None"
    by (auto simp: latest_None)
  then show ?thesis by (auto simp: iterated_def image_iff)
qed

text \<open>Steps of a checkpoint that only move on.\<close>

lemma ckpt_move:
  assumes inv: "wal_inv (s, g)" and q: "(\<exists>i m. q = Scan i m) \<or> (\<exists>i m y. q = Load i m y) \<or> (\<exists>m todo. q = Copy m todo)"
    and l: "loc s (goto c q g) c" and p: "\<And>d. d \<noteq> c \<Longrightarrow> pair s (goto c q g) c d"
  shows "wal_inv (s, goto c q g)"
proof (rule quiet_inv [OF inv _ l p])
  show "quiet c s g s (goto c q g)" by (rule quiet_conn [OF inv]) (use wal_invD(6) [OF inv] in auto)
  show "pair s (goto c q g) d c" if "d \<noteq> c" for d by (rule pair_trivial(2)) (use q in auto)
qed

lemma reader_mark: "wal_inv (s, g) \<Longrightarrow> reader s g d i \<Longrightarrow> i \<le> 4 \<and> aReadMark s ! i \<le> mx s d \<and> holds_shared (slots s) (3 + i) d"
  using wal_invD(2) [of s g d] by (auto simp: loc_def reader_def reader_ok_def)

lemma load_inv:
  assumes inv: "wal_inv (s, g)" and pc: "pcs g c = Scan i m" "1 \<le> i" "i \<le> 4"
  shows "wal_inv (s, goto c (Load i m (aReadMark s ! i)) g)"
proof (rule ckpt_move [OF inv])
  show "loc s (goto c (Load i m (aReadMark s ! i)) g) c" using wal_invD(2) [OF inv, of c] pc by (simp add: loc_def ckpt_ok_def)
  show "pair s (goto c (Load i m (aReadMark s ! i)) g) c d" if "d \<noteq> c" for d
    using wal_invD(3) [OF inv, of c d] reader_mark [OF inv, of d] pc that by (auto simp: pair_def reader_def)
qed simp

lemma next_inv:
  assumes inv: "wal_inv (s, g)" and pc: "pcs g c = Load i m y" and n: "n = m \<and> (m \<le> y \<or> holds_excl (slots s) (3 + i) c) \<or> n = y \<and> y < m"
  shows "wal_inv (s, goto c (Scan (i + 1) n) g)"
proof (rule ckpt_move [OF inv])
  have l: "1 \<le> i" "i \<le> 4" "ckpt_ok s g c m" using wal_invD(2) [OF inv, of c] pc by (simp_all add: loc_def)
  show "loc s (goto c (Scan (i + 1) n) g) c" using l wal_invD(2) [OF inv, of c] n pc by (auto simp: loc_def ckpt_ok_def)
  show "pair s (goto c (Scan (i + 1) n) g) c d" if "d \<noteq> c" for d
  proof -
    have "n \<le> mx s d" if eq: "cgen g c = gen g" and r: "reader s g d j" and j: "j < i + 1" for j
    proof -
      have p: "j < i \<Longrightarrow> m \<le> mx s d" "j = i \<Longrightarrow> y \<le> mx s d \<or> mx s c \<le> mx s d"
        using wal_invD(3) [OF inv, of c d] eq r pc by (auto simp: pair_def)
      have mc: "m \<le> mx s c" using l(3) by (simp add: ckpt_ok_def)
      have "\<not> holds_excl (slots s) (3 + i) c" if "j = i"
        using reader_mark [OF inv r] that \<open>d \<noteq> c\<close> jvm.apart [OF wal_invD(4) [OF inv]] by blast
      then show ?thesis using p mc j n by fastforce
    qed
    then show ?thesis using that by (auto simp: pair_def reader_def)
  qed
qed simp

lemma copy_inv:
  assumes inv: "wal_inv (s, g)" and pc: "pcs g c = Scan 5 m" "holds_excl (slots s) 3 c" "hSalt (aHdr0 s) = hSalt (chdr (conn s c))"
    and b: "nBackfill s < m" "lo \<le> nBackfill s"
  shows "wal_inv (s, goto c (Copy m (to_copy s c m lo)) g)"
proof (rule ckpt_move [OF inv])
  have eq: "cgen g c = gen g" using salt_gen [OF inv] pc by simp
  have l: "ckpt_ok s g c m" using wal_invD(2) [OF inv, of c] pc by (simp add: loc_def)
  have "(p, f) \<in> to_copy s c m lo \<longleftrightarrow> latest (frames s) p 1 (mx s c) = Some f \<and> nBackfill s < f \<and> f \<le> m \<and> p \<le> hNPage (chdr (conn s c))" for p f
    using latest_from_1 [of "frames s" p "lo + 1" "mx s c" f] latest_from [of "frames s" p "mx s c" f "lo + 1"] b(2)
    unfolding to_copy_def iterated_iff mem_Collect_eq prod.case by fastforce
  then have "copy_ok s (goto c (Copy m (to_copy s c m lo)) g) c m (to_copy s c m lo)"
    using l eq pc b unfolding copy_ok_def by (simp add: ckpt_ok_def)
  then show "loc s (goto c (Copy m (to_copy s c m lo)) g) c" using wal_invD(2) [OF inv, of c] pc by (simp add: loc_def)
  show "pair s (goto c (Copy m (to_copy s c m lo)) g) c d" if "d \<noteq> c" for d
    using wal_invD(3) [OF inv, of c d] reader_mark [OF inv, of d] pc that unfolding pair_def reader_def by fastforce
qed simp

text \<open>Changes of the database file by a connection that copies: nobody reads with lock 0, and readers
  and the committed content must not depend on the pages changed.\<close>

lemma db_step:
  assumes inv: "wal_inv (s, g)" and pc: "pcs g c = Copy m todo" and todo: "todo' \<subseteq> todo"
    and s': "aHdr0 s' = aHdr0 s" "nBackfill s' = nBackfill s" "aReadMark s' = aReadMark s" "frames s' = frames s" "slots s' = slots s" "conn s' = conn s"
    and img: "shown (frames s) (dbPage s') (nBackfill s + 1) (live s) (image g)"
    and rd: "\<And>d. reader_ok s g d \<Longrightarrow> m \<le> mx s d \<Longrightarrow> shown (frames s) (dbPage s') (minFrame (conn s d)) (mx s d) (snap g d)"
    and mine: "\<And>p f. latest (frames s) p 1 (mx s c) = Some f \<Longrightarrow> nBackfill s < f \<Longrightarrow> f \<le> m \<Longrightarrow> p \<le> hNPage (chdr (conn s c)) \<Longrightarrow>
      (p, f) \<in> todo' \<or> dbPage s' p = snd (frames s f)"
  shows "wal_inv (s', goto c (Copy m todo') g)" (is "wal_inv (_, ?g)")
proof (rule wal_invI [where c = c])
  have l: "copy_ok s g c m todo" using wal_invD(2) [OF inv, of c] pc by (simp add: loc_def)
  note ok = wal_invD(4) [OF inv]
  show "base s' ?g" using wal_invD(1) [OF inv] img unfolding base_def s' by simp
  have p: "pair s' ?g d e" if "d \<noteq> c" for d e
    using wal_invD(3) [OF inv, of d e] that pc unfolding pair_def reader_def s' by (auto split: if_splits)
  show "pair s' ?g d e" if "d \<noteq> c" for d e by (rule p [OF that])
  show "pair s' ?g d c" if "d \<noteq> c" for d by (rule p [OF that])
  show pc2: "pair s' ?g c d" if "d \<noteq> c" for d
    using wal_invD(3) [OF inv, of c d] pc that unfolding pair_def reader_def s' by (auto split: if_splits)
  have "copy_ok s' ?g c m todo'"
    using l todo mine unfolding copy_ok_def ckpt_ok_def s' by (auto dest: subsetD)
  then show "loc s' ?g c" using wal_invD(2) [OF inv, of c] pc unfolding loc_def s' by simp
  show "loc s' ?g d" if d: "d \<noteq> c" for d
  proof -
    have e: "holds_excl (slots s) 1 c" "holds_excl (slots s) 3 c" "cgen g c = gen g" using l by (simp_all add: copy_ok_def ckpt_ok_def)
    have nz: "\<not> zero_ok s g d" using jvm.apart [OF ok e(2) _ d] by (auto simp: zero_ok_def)
    have nc: "\<not> copy_ok s g d m' t" for m' t using jvm.unique_holder [OF ok e(1)] d by (auto simp: copy_ok_def ckpt_ok_def)
    have ro: "reader_ok s' ?g d" if r: "reader_ok s g d" "pcs g d = Open"
    proof -
      obtain i where "reader s g d i" using r unfolding reader_ok_def reader_def by blast
      then have "m \<le> mx s d" using wal_invD(3) [OF inv, of c d] e(3) pc by (auto simp: pair_def)
      then show ?thesis using that(1) rd [OF that(1)] unfolding reader_ok_def s' by simp
    qed
    show ?thesis using wal_invD(2) [OF inv, of d] nz nc ro d unfolding loc_def s' coh_def ckpt_ok_def
      by (auto split: pc.splits if_splits)
  qed
qed

lemma page_inv:
  assumes inv: "wal_inv (s, g)" and pc: "pcs g c = Copy m todo" and t: "(p, f) \<in> todo"
  shows "wal_inv (s\<lparr>dbPage := (dbPage s)(p := snd (frames s f)), dbSize := z\<rparr>, goto c (Copy m (todo - {(p, f)})) g)"
proof -
  have l: "copy_ok s g c m todo" using wal_invD(2) [OF inv, of c] pc by (simp add: loc_def)
  have f: "latest (frames s) p 1 (mx s c) = Some f" "nBackfill s < f" "f \<le> m" "mx s c \<le> live s"
    using l t by (auto simp: copy_ok_def ckpt_ok_def)
  let ?db = "(dbPage s)(p := snd (frames s f))"
  have keep: "shown (frames s) ?db lo hi img" if sh: "shown (frames s) (dbPage s) lo hi img" and "m \<le> hi" "lo \<le> nBackfill s + 1" for lo hi img
  proof -
    have "latest (frames s) p 1 m = Some f" using latest_down [OF f(1,3)] l by (simp add: copy_ok_def ckpt_ok_def)
    then obtain e where e: "latest (frames s) p 1 hi = Some e" "f \<le> e" using latest_up [of "frames s" p m f hi] \<open>m \<le> hi\<close> by blast
    have "\<not> e < lo" using e(2) f(2) \<open>lo \<le> nBackfill s + 1\<close> by simp
    then show ?thesis using sh e(1) unfolding shown_def by (fastforce split: option.splits)
  qed
  have "m \<le> live s" using l by (auto simp: copy_ok_def ckpt_ok_def)
  show ?thesis
  proof (rule db_step [OF inv pc])
    show "shown (frames s) (dbPage (s\<lparr>dbPage := ?db, dbSize := z\<rparr>)) (nBackfill s + 1) (live s) (image g)"
      using keep [OF wal_invD(10) [OF inv]] \<open>m \<le> live s\<close> by simp
    show "shown (frames s) (dbPage (s\<lparr>dbPage := ?db, dbSize := z\<rparr>)) (minFrame (conn s d)) (mx s d) (snap g d)" if "reader_ok s g d" "m \<le> mx s d" for d
      using keep [of "minFrame (conn s d)" "mx s d"] that by (simp add: reader_ok_def)
    show "(q, e) \<in> todo - {(p, f)} \<or> dbPage (s\<lparr>dbPage := ?db, dbSize := z\<rparr>) q = snd (frames s e)"
      if "latest (frames s) q 1 (mx s c) = Some e" "nBackfill s < e" "e \<le> m" "q \<le> hNPage (chdr (conn s c))" for q e
      using that l f(1) unfolding copy_ok_def by auto
  qed auto
qed

lemma truncate_inv:
  assumes inv: "wal_inv (s, g)" and pc: "pcs g c = Copy m {}" and m: "m = live s" and db: "\<forall>p \<le> hNPage (chdr (conn s c)). db p = dbPage s p"
  shows "wal_inv (s\<lparr>dbPage := db, dbSize := z\<rparr>, g)"
proof -
  have l: "copy_ok s g c m {}" using wal_invD(2) [OF inv, of c] pc by (simp add: loc_def)
  have mc: "mx s c = live s" using l m by (auto simp: copy_ok_def ckpt_ok_def)
  have np: "p \<le> hNPage (chdr (conn s c))" if "image g p \<noteq> None" for p
  proof -
    have "latest (frames s) p (mx s c + 1) (live s) = None" unfolding mc latest_None by auto
    then show ?thesis using l that by (auto simp: copy_ok_def ckpt_ok_def)
  qed
  have "wal_inv (s\<lparr>dbPage := db, dbSize := z\<rparr>, goto c (Copy m {}) g)"
  proof (rule db_step [OF inv pc])
    have "db p = dbPage s p" if "image g p = Some v" for p v using db np [of p] that by simp
    then show "shown (frames s) (dbPage (s\<lparr>dbPage := db, dbSize := z\<rparr>)) (nBackfill s + 1) (live s) (image g)"
      using shown_db [OF wal_invD(10) [OF inv], of db] by simp
    show "shown (frames s) (dbPage (s\<lparr>dbPage := db, dbSize := z\<rparr>)) (minFrame (conn s d)) (mx s d) (snap g d)" if r: "reader_ok s g d" "m \<le> mx s d" for d
    proof -
      have same: "latest (frames s) p (live s + 1) (mx s d) = None \<Longrightarrow> snap g d p = image g p" for p using r m by (simp add: reader_ok_def)
      have lo: "minFrame (conn s d) \<le> live s + 1" using r wal_invD(7) [OF inv] by (simp add: reader_ok_def)
      have sh: "shown (frames s) (dbPage s) (minFrame (conn s d)) (mx s d) (snap g d)" using r by (simp add: reader_ok_def)
      have db': "db p = v" if v: "snap g d p = Some v" "dbPage s p = v" "latest (frames s) p (live s + 1) (mx s d) = None" for p v
      proof -
        have "image g p = Some v" using same [OF v(3)] v(1) by simp
        then have "image g p \<noteq> None" by simp
        then show ?thesis using np [of p] db v(2) by blast
      qed
      have "shown (frames s) db (minFrame (conn s d)) (mx s d) (snap g d)"
        unfolding shown_def
      proof (intro allI impI)
        fix p v assume v: "snap g d p = Some v"
        show "case latest (frames s) p 1 (mx s d) of None \<Rightarrow> db p = v | Some f \<Rightarrow> snd (frames s f) = v \<and> (f < minFrame (conn s d) \<longrightarrow> db p = v)"
        proof (cases "latest (frames s) p 1 (mx s d)")
          case None
          then show ?thesis using db' [OF v shownD(2) [OF sh v None] latest_from_None [OF None]] by simp
        next
          case (Some f)
          have "latest (frames s) p (live s + 1) (mx s d) = None" if "f < minFrame (conn s d)"
            using latest_from [OF Some, of "live s + 1"] that lo by simp
          then show ?thesis using shownD(1) [OF sh v Some] db' [OF v] Some by auto
        qed
      qed
      then show ?thesis by simp
    qed
    show "(q, e) \<in> {} \<or> dbPage (s\<lparr>dbPage := db, dbSize := z\<rparr>) q = snd (frames s e)"
      if "latest (frames s) q 1 (mx s c) = Some e" "nBackfill s < e" "e \<le> m" "q \<le> hNPage (chdr (conn s c))" for q e
      using that l db unfolding copy_ok_def by auto
  qed auto
  moreover have "goto c (Copy m {}) g = g" using pc by (simp add: goto_def fun_upd_idem)
  ultimately show ?thesis by simp
qed

lemma publish_inv:
  assumes inv: "wal_inv (s, g)" and pc: "pcs g c = Copy m {}"
  shows "wal_inv (s\<lparr>nBackfill := m\<rparr>, goto c Idle g)" (is "wal_inv (?s, ?g)")
proof -
  have l: "copy_ok s g c m {}" using wal_invD(2) [OF inv, of c] pc by (simp add: loc_def)
  have e: "holds_excl (slots s) 1 c" "nBackfill s < m" "m \<le> mx s c" "mx s c \<le> live s" using l by (auto simp: copy_ok_def ckpt_ok_def)
  have sh: "shown (frames s) (dbPage s) (m + 1) (live s) (image g)"
    unfolding shown_def
  proof (intro allI impI)
    fix p v assume v: "image g p = Some v"
    note D = shownD [OF wal_invD(10) [OF inv] v]
    show "case latest (frames s) p 1 (live s) of None \<Rightarrow> dbPage s p = v | Some f \<Rightarrow> snd (frames s f) = v \<and> (f < m + 1 \<longrightarrow> dbPage s p = v)"
    proof (cases "latest (frames s) p 1 (live s)")
      case None
      then show ?thesis using D(2) by simp
    next
      case (Some f)
      have "dbPage s p = v" if "f \<le> m" "nBackfill s < f"
      proof -
        have "latest (frames s) p 1 (mx s c) = Some f" by (rule latest_down [OF Some]) (use that e in simp_all)
        moreover have "latest (frames s) p (mx s c + 1) (live s) = None" using latest_from [OF Some, of "mx s c + 1"] that e by simp
        ultimately show ?thesis using l v that D(1) [OF Some] by (auto simp: copy_ok_def ckpt_ok_def)
      qed
      then show ?thesis using D(1) [OF Some] Some by fastforce
    qed
  qed
  show ?thesis
  proof (rule wal_invI [where c = c])
    show "base ?s ?g" using wal_invD(1) [OF inv] sh e unfolding base_def by simp
    show "loc ?s ?g d" if d: "d \<noteq> c" for d
    proof -
      have nc: "\<not> ckpt_ok s g d n" for n using jvm.unique_holder [OF wal_invD(4) [OF inv] e(1)] d by (auto simp: ckpt_ok_def)
      have "reader_ok ?s ?g d" if "reader_ok s g d" using that e(2) unfolding reader_ok_def by auto
      then show ?thesis using wal_invD(2) [OF inv, of d] nc d e(2) unfolding loc_def coh_def zero_ok_def copy_ok_def
        by (auto split: pc.splits if_splits)
    qed
    show "loc ?s ?g c" using wal_invD(2) [OF inv, of c] by (simp add: loc_def)
    show "pair ?s ?g d e" and "pair ?s ?g d c" if "d \<noteq> c" for d e
      using wal_invD(3) [OF inv, of d e] that by (auto simp: pair_def reader_def split: pc.splits)
    show "pair ?s ?g c d" for d by (rule pair_trivial(1)) simp
  qed
qed

section \<open>Every step keeps the invariant\<close>

lemma mark_store_inv:
  assumes inv: "wal_inv (s, g)" and p: "pcs g c \<noteq> Open" "1 \<le> i" "i \<le> 4" "holds_excl (slots s) (3 + i) c"
  shows "wal_inv (store_mark i v s, g)"
proof (rule quiet_inv [OF inv])
  have "aReadMark (store_mark i v s) ! j = aReadMark s ! j" if "d \<noteq> c" "holds_shared (slots s) (3 + j) d" for d j
  proof -
    have "j \<noteq> i" using jvm.apart [OF wal_invD(4) [OF inv] p(4)] that by blast
    then show ?thesis by (simp add: store_mark_def)
  qed
  then show "quiet c s g (store_mark i v s) g"
    using wal_invD(4,5,6,9) [OF inv] by (simp add: quiet_def others_def store_mark_def)
  show "loc (store_mark i v s) g c" using wal_invD(2) [OF inv, of c] p(1)
    unfolding loc_def store_mark_def coh_def ckpt_ok_def copy_ok_def by (simp split: pc.splits)
  show "pair (store_mark i v s) g c d" "pair (store_mark i v s) g d c" for d
    using wal_invD(3) [OF inv, of c d] wal_invD(3) [OF inv, of d c] by (simp_all add: pair_def reader_def store_mark_def cong: pc.case_cong)
qed

lemma write_flag_inv:
  assumes inv: "wal_inv (s, g)" and p: "pcs g c = Open \<and> chdr (conn s c) = aHdr0 s \<or> pcs g c = Idle"
    and f: "\<And>w. chdr (f w) = chdr w \<and> readLock (f w) = readLock w \<and> minFrame (f w) = minFrame w \<and> exclusiveMode (f w) = exclusiveMode w"
    and l: "writeLock (f (conn s c)) \<noteq> 0 \<Longrightarrow> holds_excl (slots s) 0 c"
  shows "wal_inv (upd_conn c f s, g)"
proof (rule quiet_inv [OF inv])
  show "quiet c s g (upd_conn c f s) g" by (rule quiet_conn [OF inv]) (use f wal_invD(6) [OF inv] in auto)
  have "reader_ok (upd_conn c f s) g c" if "reader_ok s g c" "chdr (conn s c) = aHdr0 s"
    using that f unfolding reader_ok_def by simp
  then show "loc (upd_conn c f s) g c" using wal_invD(2) [OF inv, of c] p l f unfolding loc_def by (auto simp: zero_ok_def)
  show "pair (upd_conn c f s) g c d" "pair (upd_conn c f s) g d c" if "d \<noteq> c" for d
    by (rule pair_same [OF wal_invD(3) [OF inv]], use that f in simp_all)+
qed

lemma misc_inv:
  fixes c :: int
  assumes inv: "wal_inv (s, g)"
  shows "wal_inv (s\<lparr>nBackfillAttempted := a, io := r, interrupts := b, walSize := z\<rparr>, g)"
proof (rule quiet_inv [OF inv])
  let ?s = "s\<lparr>nBackfillAttempted := a, io := r, interrupts := b, walSize := z\<rparr>"
  show "quiet c s g ?s g" by (rule quiet_conn [OF inv]) (use wal_invD(6) [OF inv] in auto)
  show "loc ?s g c" by (rule loc_slots [OF wal_invD(2) [OF inv]]) simp_all
  show "pair ?s g c d" "pair ?s g d c" for d by (rule pair_same [OF wal_invD(3) [OF inv]], simp_all)+
qed

lemma switch_inv:
  assumes inv: "wal_inv (s, g)" and p: "pcs g c = Open" "chdr (conn s c) = aHdr0 s"
  shows "wal_inv (upd_conn c (\<lambda>w. w\<lparr>readLock := -1\<rparr>) s, goto c Hdr (g\<lparr>cgen := (cgen g)(c := gen g)\<rparr>))" (is "wal_inv (?s, ?g)")
proof (rule quiet_inv [OF inv])
  show "quiet c s g ?s ?g" by (rule quiet_conn [OF inv]) (use wal_invD(6) [OF inv] in auto)
  show "loc ?s ?g c" using p wal_invD(8,12) [OF inv] by (auto simp: loc_def coh_def)
  show "pair ?s ?g c d" "pair ?s ?g d c" for d by (rule pair_trivial(1), simp) (rule pair_trivial(2), simp)
qed

lemma wstep_inv: "wstep c st st' \<Longrightarrow> wal_inv st \<Longrightarrow> wal_inv st'"
proof (induction rule: wstep.induct)
  case (lock_shared i s g)
  then show ?case using request_inv [of s g i 1 6 c] wal_invD(6) [of s g c] by (simp add: walLockShared_def)
next
  case (lock_excl i n s g)
  then show ?case using request_inv [of s g i n 10 c] wal_invD(6) [of s g c] by (simp add: walLockExclusive_def)
next
  case (unlock_shared i s g)
  have "k = nat i" if "covers i 1 k" for k using that unlock_shared(1) unfolding covers_def by linarith
  then show ?case using unlock_shared request_inv [of s g i 1 5 c] wal_invD(6) [of s g c] by (auto simp: walUnlockShared_def)
next
  case (unlock_excl i n s g)
  then show ?case using request_inv [of s g i n 9 c] wal_invD(6) [of s g c] by (simp add: walUnlockExclusive_def)
next
  case (mark_store g i s v)
  then show ?case by (intro mark_store_inv)
next
  case (r_header g s s' b)
  show ?case by (rule header_loaded [OF r_header(3,1,2) refl]) simp
next
  case (r_zero g s)
  then show ?case using wal_invD(2) [of s g c] wal_invD(6) [of s g c] by (intro move_step) (auto simp: loc_def coh_def)
next
  case (r_zero_open g s)
  then show ?case by (intro zero_open)
next
  case (r_mark g i v s)
  then show ?case using wal_invD(2) [of s g c] wal_invD(6) [of s g c] by (intro move_step) (auto simp: loc_def coh_def)
next
  case (r_min g i v s)
  then show ?case using wal_invD(2) [of s g c] wal_invD(6) [of s g c] by (intro local_step) (auto simp: loc_def coh_def)
next
  case (r_open g i v s)
  then show ?case by (intro mark_open)
next
  case (abandon g s)
  then show ?case using wal_invD(2) [of s g c] wal_invD(6) [of s g c] by (intro move_step) (auto simp: loc_def)
next
  case (r_close g s)
  then show ?case using wal_invD(6) [of s g c] by (intro local_step) (auto simp: loc_def)
next
  case (w_begin s g)
  then show ?case by (intro write_flag_inv) auto
next
  case (w_salt g s salt)
  then show ?case by (intro salt_inv)
next
  case (w_append g s f p d)
  then show ?case by (intro append_inv)
next
  case (w_rewrite g s f p d)
  then show ?case by (intro rewrite_inv)
next
  case (w_commit g s m n ck sz)
  then show ?case by (intro commit_inv [where n = n]) simp_all
next
  case (w_undo g s)
  have "latest (frames s) p (live s + 1) (live s) = None" for p unfolding latest_None by auto
  then have "image g = overlay s g (live s)" by (intro ext) (simp add: overlay_def)
  then show ?case using w_undo wal_invD(8) [of s g] rollback_inv [of s g c "aHdr0 s" "image g" 0]
    by (simp add: sqlite3WalUndo_def)
next
  case (w_savepoint g s k ck)
  let ?h = "(chdr (conn s c))\<lparr>hMxFrame := k, hFrameCksum := ck\<rparr>"
  have "sgen g (hSalt ?h) = Some (gen g)" using w_savepoint wal_invD(13) [of s g c] writer_live(3) [of s g c] by simp
  then have "wal_inv (upd_conn c (\<lambda>w. w\<lparr>chdr := ?h, reCksum := reCksum (conn s c)\<rparr>) s, sees c (overlay s g k) g)"
    using w_savepoint by (intro rollback_inv) auto
  moreover have "upd_conn c (\<lambda>w. w\<lparr>chdr := ?h, reCksum := reCksum (conn s c)\<rparr>) s = set_hdr c (\<lambda>h. h\<lparr>hMxFrame := k, hFrameCksum := ck\<rparr>) s"
    by (simp add: set_hdr_def upd_conn_def)
  ultimately show ?case by simp
next
  case (w_end g s)
  then show ?case by (intro write_flag_inv) auto
next
  case (w_restart g s salt salt1)
  then show ?case by (intro restart_inv) auto
next
  case (w_switch g s)
  then show ?case by (intro switch_inv)
next
  case (c_start g s s' b)
  show ?case by (rule header_loaded [OF c_start(4,1,3) refl]) (use c_start(2) in \<open>simp add: tryHdr_ok(8) [OF c_start(3)]\<close>)
next
  case (c_load g i m s)
  then show ?case by (intro load_inv)
next
  case (c_next g i m y s)
  then show ?case by (intro next_inv) auto
next
  case (c_busy g i m y s)
  then show ?case by (intro next_inv) auto
next
  case (c_copy g m s lo)
  then show ?case by (intro copy_inv)
next
  case (c_page g m todo p f s z)
  then show ?case by (intro page_inv)
next
  case (c_truncate g m s db z)
  then show ?case by (intro truncate_inv) auto
next
  case (c_publish g m s)
  then show ?case by (intro publish_inv)
next
  case (misc s g a r b z)
  then show ?case by (intro misc_inv)
next
  case (c_flag g s b)
  then show ?case using wal_invD(2) [of s g c] wal_invD(6) [of s g c] by (intro idle_step) (auto simp: loc_def)
next
  case (c_forget g s)
  then show ?case using wal_invD(2) [of s g c] wal_invD(6) [of s g c] by (intro idle_step) (auto simp: loc_def)
next
  case (c_restart g s salt salt1)
  then show ?case by (intro restart_inv) auto
qed

section \<open>Reachable states\<close>

text \<open>A database in WAL mode with an empty log and no connection at work.\<close>

definition wal_start :: "wal_state \<Rightarrow> bool" where
  "wal_start st \<longleftrightarrow> (case st of (s, g) \<Rightarrow>
     slots s = new_shm_state \<and> length (aReadMark s) = 5 \<and> nBackfill s = 0 \<and> live s = 0 \<and>
     (\<forall>c. exclusiveMode (conn s c) = 0 \<and> writeLock (conn s c) = 0) \<and>
     g = \<lparr>gen = 0, sgen = [hSalt (aHdr0 s) \<mapsto> 0], image = cut (hNPage (aHdr0 s)) (Some \<circ> dbPage s), pcs = (\<lambda>_. Idle), cgen = (\<lambda>_. 0), snap = (\<lambda>_ _. None)\<rparr>)"

inductive wreach :: "wal_state \<Rightarrow> bool" where
  wr_start: "wal_start st \<Longrightarrow> wreach st"
| wr_step: "wreach st \<Longrightarrow> wstep c st st' \<Longrightarrow> wreach st'"

lemma wal_start_inv: "wal_start st \<Longrightarrow> wal_inv st"
  by (auto simp: wal_start_def wal_inv_def base_def loc_def pair_def shm_ok_new shown_def cut_def split: prod.splits if_splits)

lemma wreach_inv: "wreach st \<Longrightarrow> wal_inv st"
  by (induction rule: wreach.induct) (auto intro: wal_start_inv wstep_inv)

lemma reads_snapshot:
  assumes inv: "wal_inv (s, g)" and "pcs g c = Open" and v: "snap g c p = Some v"
  shows "read_page s c p = v"
proof (cases "readLock (conn s c) = 0")
  case True
  then show ?thesis using wal_invD(2) [OF inv, of c] assms by (simp add: loc_def zero_ok_def read_page_def)
next
  case False
  then have sh: "shown (frames s) (dbPage s) (minFrame (conn s c)) (mx s c) (snap g c)"
    using wal_invD(2) [OF inv, of c] assms(2) by (simp add: loc_def reader_ok_def)
  show ?thesis
  proof (cases "latest (frames s) p 1 (mx s c)")
    case None
    then show ?thesis using False shownD(2) [OF sh v None] latest_from_None [OF None] by (simp add: read_page_def)
  next
    case (Some f)
    then show ?thesis using False shownD(1) [OF sh v Some] latest_from [OF Some, of "minFrame (conn s c)"]
      by (simp add: read_page_def)
  qed
qed

lemma wstep_others: "wstep d st st' \<Longrightarrow> c \<noteq> d \<Longrightarrow> pcs (snd st') c = pcs (snd st) c \<and> snap (snd st') c = snap (snd st) c"
  by (induction rule: wstep.induct) (auto simp: restarted_def)

definition other_steps :: "int \<Rightarrow> wal_state \<Rightarrow> wal_state \<Rightarrow> bool" where
  "other_steps c = (\<lambda>a b. \<exists>d. d \<noteq> c \<and> wstep d a b)\<^sup>*\<^sup>*"

lemma other_steps_keep:
  "other_steps c st st' \<Longrightarrow> wal_inv st \<Longrightarrow> wal_inv st' \<and> pcs (snd st') c = pcs (snd st) c \<and> snap (snd st') c = snap (snd st) c"
  unfolding other_steps_def
proof (induction rule: rtranclp_induct)
  case (step y z)
  then obtain d where d: "d \<noteq> c" "wstep d y z" by blast
  from step have y: "wal_inv y" "pcs (snd y) c = pcs (snd st) c" "snap (snd y) c = snap (snd st) c" by blast+
  show ?case using wstep_inv [OF d(2) y(1)] wstep_others [OF d(2), of c] d(1) y(2,3) by simp
qed simp

lemma opens_image: "wstep c st st' \<Longrightarrow> pcs (snd st) c \<noteq> Open \<Longrightarrow> pcs (snd st') c = Open \<Longrightarrow> snap (snd st') c = image (snd st)"
  by (induction rule: wstep.induct) (auto simp: restarted_def)

text \<open>C1: Snapshot isolation. Under every interleaving of readers, writers, checkpoints and restarts of
  the log on the slot locks of the VFS, a connection that opens a read transaction reads, for as long
  as it stays open and whatever the other connections do in between, every page with the content that
  was committed when it opened.\<close>

theorem snapshot_isolation:
  assumes "wreach (s, g)" and "wstep c (s, g) (s1, g1)" and "pcs g c \<noteq> Open" and "pcs g1 c = Open"
    and "other_steps c (s1, g1) (s2, g2)" and "image g p = Some v"
  shows "read_page s2 c p = v"
proof -
  have "wal_inv (s1, g1)" using assms(1,2) wreach_inv wstep_inv by blast
  then have i: "wal_inv (s2, g2)" "pcs g2 c = Open" "snap g2 c = snap g1 c" using other_steps_keep [OF assms(5)] assms(4) by auto
  have "snap g2 c p = Some v" using opens_image [OF assms(2)] assms(3,4,6) i(3) by simp
  with i(1,2) show ?thesis by (rule reads_snapshot)
qed

text \<open>C2: A writer sees its own changes and otherwise the committed content, and what it commits is what
  every later snapshot shows: in any reachable state a connection in a transaction reads the
  content recorded for it, and a commit makes that content, cut to the new size, the committed one.\<close>

theorem commit_visible:
  assumes "wreach (s, g)" and "wstep c (s, g) (s1, g1)" and "image g1 \<noteq> image g"
  shows "pcs g c = Open \<and> holds_excl (slots s) 0 c \<and> (\<exists>n. image g1 = cut n (snap g c)) \<and>
    (\<forall>p v. snap g c p = Some v \<longrightarrow> read_page s c p = v)"
proof -
  have inv: "wal_inv (s, g)" by (rule wreach_inv [OF assms(1)])
  have "pcs g c = Open \<and> writeLock (conn s c) \<noteq> 0 \<and> (\<exists>n. image g1 = cut n (snap g c))"
    using assms(2,3) by cases (auto simp: restarted_def)
  then show ?thesis using wal_invD(12) [OF inv] reads_snapshot [OF inv] by blast
qed

section \<open>A run\<close>

text \<open>Connection 1 opens on the empty log, connection 2 then requests the write lock.\<close>

definition hdr_0 :: wal_hdr where
  "hdr_0 = sign_hdr (zero_hdr\<lparr>hNPage := 3\<rparr>)"

definition conn_0 :: wal_conn where
  "conn_0 = \<lparr>chdr = zero_hdr, readLock = -1, minFrame = 0, writeLock = 0, ckptLock = False, exclusiveMode = 0, readOnly = 0,
     ckptCount = 0, reCksum = 0, truncateOnCommit = False, iCallback = 0, connSzPage = 0\<rparr>"

definition sys_0 :: wal_sys where
  "sys_0 = \<lparr>aHdr0 = hdr_0, aHdr1 = hdr_0, nBackfill = 0, nBackfillAttempted = 0, aReadMark = [0, 0, 0, 0, 0], slots = new_shm_state,
     frames = (\<lambda>_. (0, 0)), walSize = 0, dbPage = (\<lambda>p. p + 40), dbSize = 0, conn = (\<lambda>_. conn_0), io = [], interrupts = []\<rparr>"

definition ghost_0 :: wal_ghost where
  "ghost_0 = \<lparr>gen = 0, sgen = [hSalt hdr_0 \<mapsto> 0], image = cut 3 (Some \<circ> (\<lambda>p. p + 40)), pcs = (\<lambda>_. Idle), cgen = (\<lambda>_. 0), snap = (\<lambda>_ _. None)\<rparr>"

lemma run_start: "wreach (sys_0, ghost_0)"
  by (rule wr_start) (simp add: wal_start_def sys_0_def ghost_0_def hdr_0_def zero_hdr_def conn_0_def)

lemma sign_accepted: "hdr_accepted (sign_hdr h) (sign_hdr h)"
  by (simp add: hdr_accepted_def sign_hdr_def Let_def hdr_bytes_def)

definition sys_1 :: wal_sys where
  "sys_1 = fst (walIndexTryHdr sys_0 2)"

definition sys_2 :: wal_sys where
  "sys_2 = fst (walLockShared sys_1 2 4)"

definition sys_3 :: wal_sys where
  "sys_3 = upd_conn 2 (\<lambda>w. w\<lparr>minFrame := 1\<rparr>) sys_2"

definition sys_4 :: wal_sys where
  "sys_4 = upd_conn 2 (\<lambda>w. w\<lparr>readLock := 1\<rparr>) sys_3"

definition sys_5 :: wal_sys where
  "sys_5 = upd_conn 2 (\<lambda>w. w\<lparr>writeLock := 1\<rparr>) (fst (walLockExclusive sys_4 2 0 1))"

definition ghost_1 :: "pc \<Rightarrow> wal_ghost" where
  "ghost_1 q = goto 2 q (ghost_0\<lparr>cgen := (cgen ghost_0)(2 := 0)\<rparr>)"

definition ghost_4 :: wal_ghost where
  "ghost_4 = goto 2 Open (sees 2 (image ghost_0) (ghost_1 (Min 1 0)))"

lemma sys_1_eq: "walIndexTryHdr sys_0 2 = (sys_1, False, True)" "sys_1 = upd_conn 2 (\<lambda>w. w\<lparr>chdr := hdr_0, connSzPage := 0\<rparr>) sys_0"
proof -
  have "hIsInit hdr_0 = 1" by (simp add: hdr_0_def sign_hdr_def Let_def)
  moreover have "hIsInit (chdr conn_0) = 0" by (simp add: conn_0_def zero_hdr_def)
  ultimately have "chdr conn_0 \<noteq> hdr_0" by auto
  moreover have "hSzPage hdr_0 = 0" by (simp add: hdr_0_def sign_hdr_def Let_def zero_hdr_def)
  moreover have "hdr_accepted hdr_0 hdr_0" unfolding hdr_0_def by (rule sign_accepted)
  ultimately have "walIndexTryHdr sys_0 2 = (upd_conn 2 (\<lambda>w. w\<lparr>chdr := hdr_0, connSzPage := 0\<rparr>) sys_0, False, True)"
    by (simp add: walIndexTryHdr_def sys_0_def page_size_def)
  then show "walIndexTryHdr sys_0 2 = (sys_1, False, True)" "sys_1 = upd_conn 2 (\<lambda>w. w\<lparr>chdr := hdr_0, connSzPage := 0\<rparr>) sys_0"
    by (simp_all add: sys_1_def)
qed

lemma hdr_0_mx: "hMxFrame hdr_0 = 0"
  by (simp add: hdr_0_def zero_hdr_def)

lemma sys_2_slots: "slots sys_2 = new_shm_state\<lparr>shared := (shared new_shm_state)[4 := {2}]\<rparr>"
  "conn sys_2 = conn sys_1" "aReadMark sys_2 = [0, 0, 0, 0, 0]" "aHdr0 sys_2 = hdr_0" "nBackfill sys_2 = 0"
  unfolding sys_2_def walLockShared_def sys_1_eq(2)
  by (simp_all add: slot_request_def slot_lock_def shm_lock_def sys_0_def conn_0_def new_shm_state_def slot_ok_def excl_busy_def upd_conn_def)

lemma run_opens: "wreach (sys_3, ghost_1 (Min 1 0))" "wstep 2 (sys_3, ghost_1 (Min 1 0)) (sys_4, ghost_4)" "pcs (ghost_1 (Min 1 0)) 2 = Min 1 0" "pcs ghost_4 2 = Open"
proof -
  have "wstep 2 (sys_0, ghost_0) (sys_1, goto 2 Hdr (ghost_0\<lparr>cgen := (cgen ghost_0)(2 := gen ghost_0)\<rparr>))"
    by (rule r_header [OF _ sys_1_eq(1)]) (simp add: ghost_0_def)
  then have r1: "wreach (sys_1, ghost_1 Hdr)" using wr_step [OF run_start] by (simp add: ghost_1_def ghost_0_def)
  have "wstep 2 (sys_1, ghost_1 Hdr) (sys_1, goto 2 (Mark 1 0) (ghost_1 Hdr))" by (rule r_mark) (simp_all add: ghost_1_def)
  moreover have "goto 2 q (ghost_1 q') = ghost_1 q" for q q' by (simp add: ghost_1_def goto_def)
  ultimately have r2: "wreach (sys_1, ghost_1 (Mark 1 0))" using wr_step [OF r1] by simp
  have "wstep 2 (sys_1, ghost_1 (Mark 1 0)) (sys_2, ghost_1 (Mark 1 0))" unfolding sys_2_def by (rule lock_shared) simp_all
  then have r3: "wreach (sys_2, ghost_1 (Mark 1 0))" by (rule wr_step [OF r2])
  have "holds_shared (slots sys_2) (3 + 1) 2" by (simp add: sys_2_slots holds_shared_def new_shm_state_def)
  then have "wstep 2 (sys_2, ghost_1 (Mark 1 0)) (upd_conn 2 (\<lambda>w. w\<lparr>minFrame := nBackfill sys_2 + 1\<rparr>) sys_2, goto 2 (Min 1 0) (ghost_1 (Mark 1 0)))"
    by (intro r_min) (simp_all add: ghost_1_def)
  then show "wreach (sys_3, ghost_1 (Min 1 0))" using wr_step [OF r3] by (simp add: sys_3_def sys_2_slots ghost_1_def goto_def)
  have "wstep 2 (sys_3, ghost_1 (Min 1 0)) (upd_conn 2 (\<lambda>w. w\<lparr>readLock := int 1\<rparr>) sys_3, goto 2 Open (sees 2 (image (ghost_1 (Min 1 0))) (ghost_1 (Min 1 0))))"
    by (rule r_open [where v = 0]) (simp_all add: ghost_1_def sys_3_def sys_2_slots sys_1_eq(2))
  then show "wstep 2 (sys_3, ghost_1 (Min 1 0)) (sys_4, ghost_4)" by (simp add: sys_4_def ghost_4_def ghost_1_def)
  show "pcs (ghost_1 (Min 1 0)) 2 = Min 1 0" "pcs ghost_4 2 = Open" by (simp_all add: ghost_1_def ghost_4_def)
qed

theorem snapshot_isolation_witness: "read_page (fst (walLockShared sys_4 1 3)) 2 3 = 43"
proof -
  have "wstep 1 (sys_4, ghost_4) (fst (walLockShared sys_4 1 3), ghost_4)" by (rule lock_shared) simp_all
  then have o: "other_steps 2 (sys_4, ghost_4) (fst (walLockShared sys_4 1 3), ghost_4)"
    unfolding other_steps_def by (intro r_into_rtranclp exI [of _ 1]) simp
  show ?thesis using snapshot_isolation [OF run_opens(1,2) _ run_opens(4) o, of 3 43] run_opens(3)
    by (simp add: ghost_1_def ghost_0_def cut_def)
qed

lemma run_commits:
  "\<exists>s g s1 g1. wreach (s, g) \<and> wstep 2 (s, g) (s1, g1) \<and> image g1 \<noteq> image g \<and> image g1 2 = Some 99 \<and> image g1 3 = Some 43"
proof -
  have r4: "wreach (sys_4, ghost_4)" using wr_step [OF run_opens(1,2)] .
  let ?s = "fst (walLockExclusive sys_4 2 0 1)"
  have q: "excl (slots ?s) = (excl new_shm_state)[0 := 2]" "conn ?s = conn sys_4" "aHdr0 ?s = hdr_0"
    unfolding walLockExclusive_def sys_4_def sys_3_def
    by (simp_all add: slot_request_def slot_lock_def shm_lock_def sys_2_slots sys_1_eq(2) sys_0_def conn_0_def new_shm_state_def slot_ok_def excl_busy_def upd_conn_def)
  have "wstep 2 (sys_4, ghost_4) (?s, ghost_4)"
    by (rule lock_excl) (auto simp: pinned_def ghost_4_def sys_4_def sys_3_def sys_2_slots sys_1_eq(2) sys_0_def conn_0_def covers_def)
  then have "wreach (?s, ghost_4)" by (rule wr_step [OF r4])
  moreover have "holds_excl (slots ?s) 0 2" by (simp add: q holds_excl_def new_shm_state_def)
  moreover have "chdr (conn ?s 2) = aHdr0 ?s" unfolding q by (simp add: sys_4_def sys_3_def sys_2_slots sys_1_eq(2))
  ultimately have r5: "wreach (sys_5, ghost_4)" unfolding sys_5_def by (intro wr_step [OF _ w_begin]) (simp_all add: run_opens(4))
  have f: "readLock (conn sys_5 2) = 1" "writeLock (conn sys_5 2) = 1" "hMxFrame (chdr (conn sys_5 2)) = 0" "aHdr0 sys_5 = hdr_0"
    unfolding sys_5_def upd_conn_fields q by (simp_all add: sys_4_def sys_3_def sys_2_slots sys_1_eq(2) hdr_0_mx)
  let ?t = "set_hdr 2 (\<lambda>h. h\<lparr>hMxFrame := 1\<rparr>) (write_frame 1 2 99 sys_5)"
  let ?g = "sees 2 ((snap ghost_4 2)(2 \<mapsto> 99)) ghost_4"
  have "wstep 2 (sys_5, ghost_4) (?t, ?g)" by (rule w_append) (simp_all add: f run_opens(4))
  then have r6: "wreach (?t, ?g)" by (rule wr_step [OF r5])
  let ?m = "cut 3 ((snap ghost_4 2)(2 \<mapsto> 99))"
  have w: "wstep 2 (?t, ?g) (walIndexWriteHdr (set_hdr 2 (\<lambda>h. h\<lparr>hNPage := 3, hChange := hChange h + 1, hFrameCksum := (0, 0), hSzPage := 4096\<rparr>) ?t) 2,
      sees 2 ?m (?g\<lparr>image := ?m\<rparr>))"
    by (rule w_commit) (simp_all add: f run_opens(4) hdr_0_mx)
  have m: "?m 2 = Some 99" "?m 3 = Some 43" "image ?g 2 = Some 42" by (simp_all add: cut_def ghost_4_def ghost_1_def ghost_0_def)
  then have "?m \<noteq> image ?g" by (metis option.inject numeral_eq_iff semiring_norm(89) verit_eq_simplify(14))
  then have n: "image (sees 2 ?m (?g\<lparr>image := ?m\<rparr>)) \<noteq> image ?g" unfolding ghost_fields by simp
  have "image (sees 2 ?m (?g\<lparr>image := ?m\<rparr>)) 2 = Some 99" "image (sees 2 ?m (?g\<lparr>image := ?m\<rparr>)) 3 = Some 43"
    unfolding ghost_fields using m by simp_all
  with r6 w n show ?thesis by blast
qed

theorem commit_visible_witness:
  "\<exists>s g s1 g1. wreach (s, g) \<and> wstep 2 (s, g) (s1, g1) \<and> image g1 2 = Some 99 \<and> holds_excl (slots s) 0 2 \<and> (\<exists>n. image g1 = cut n (snap g 2))"
proof -
  obtain s g s1 g1 where r: "wreach (s, g)" "wstep 2 (s, g) (s1, g1)" "image g1 \<noteq> image g" "image g1 2 = Some 99" using run_commits by blast
  with commit_visible [OF r(1-3)] show ?thesis by blast
qed

end
