(* ===== verification/Wal_Refine.thy ===== *)
theory Wal_Refine
  imports Wal_Protocol
begin

text \<open>
  The operations of \<^verbatim>\<open>Wal_Shm\<close> as runs of the protocol of \<^verbatim>\<open>Wal_Protocol\<close>: every attempt to begin a read
  transaction, the start of a write transaction and a checkpoint is a sequence of steps of its
  connection, so the properties of reachable states hold for what the operations return.
\<close>

section \<open>The operations are runs of the protocol\<close>

text \<open>A whole operation, run without interruption, is a sequence of steps of its connection.\<close>

definition own_steps :: "int \<Rightarrow> wal_state \<Rightarrow> wal_state \<Rightarrow> bool" where
  "own_steps c = (wstep c)\<^sup>*\<^sup>*"

lemma own_refl: "own_steps c st st"
  by (simp add: own_steps_def)

lemma own_trans: "own_steps c a b \<Longrightarrow> own_steps c b d \<Longrightarrow> own_steps c a d"
  unfolding own_steps_def by (rule rtranclp_trans)

lemma own_step: "wstep c a b \<Longrightarrow> own_steps c a b"
  by (simp add: own_steps_def)

lemma own_then: "own_steps c a b \<Longrightarrow> wstep c b d \<Longrightarrow> own_steps c a d"
  unfolding own_steps_def by (rule rtranclp.rtrancl_into_rtrancl)

lemma own_inv: "own_steps c a b \<Longrightarrow> wal_inv a \<Longrightarrow> wal_inv b"
  unfolding own_steps_def by (induction rule: rtranclp_induct) (auto intro: wstep_inv)

lemma own_reach: "own_steps c a b \<Longrightarrow> wreach a \<Longrightarrow> wreach b"
  unfolding own_steps_def by (induction rule: rtranclp_induct) (auto intro: wr_step)

lemma shared_grant:
  assumes "wal_inv (s, g)" "0 \<le> i" "i < 8" "walLockShared s c i = (s', SQLITE_OK)"
  shows "holds_shared (slots s') (nat i) c"
  using jvm.shared_granted [OF wal_invD(4) [OF assms(1)] assms(2,3), of c] assms(4) wal_invD(6) [OF assms(1), of c]
  by (auto simp: walLockShared_def slot_request_def split: prod.splits)

lemma excl_grant:
  assumes "wal_inv (s, g)" "0 \<le> c" "0 \<le> i" "i + n \<le> 8" "walLockExclusive s c i n = (s', SQLITE_OK)" "covers i n k"
  shows "holds_excl (slots s') k c"
  using jvm.excl_granted [OF wal_invD(4) [OF assms(1)] assms(2-4) _ assms(6)] assms(5) wal_invD(6) [OF assms(1), of c]
  by (auto simp: walLockExclusive_def slot_request_def split: prod.splits)

lemma lock_fields:
  "conn (fst (walLockShared s c i)) = conn s" "aHdr0 (fst (walLockShared s c i)) = aHdr0 s" "nBackfill (fst (walLockShared s c i)) = nBackfill s"
  "aReadMark (fst (walLockShared s c i)) = aReadMark s" "conn (fst (walLockExclusive s c i n)) = conn s" "aHdr0 (fst (walLockExclusive s c i n)) = aHdr0 s"
  "nBackfill (fst (walLockExclusive s c i n)) = nBackfill s" "aReadMark (fst (walLockExclusive s c i n)) = aReadMark s"
  "conn (walUnlockShared s c i) = conn s" "conn (walUnlockExclusive s c i n) = conn s" "aHdr0 (walUnlockExclusive s c i n) = aHdr0 s"
  "nBackfill (walUnlockExclusive s c i n) = nBackfill s"
  by (simp_all add: walLockShared_def walLockExclusive_def walUnlockShared_def walUnlockExclusive_def)

lemma goto_goto [simp]: "goto c q (goto c q' g) = goto c q g"
  by (simp add: goto_def)

text \<open>What an attempt to begin a read transaction leaves behind.\<close>

definition began :: "int \<Rightarrow> wal_state \<Rightarrow> wal_sys \<Rightarrow> int \<Rightarrow> bool" where
  "began c st s' rc \<longleftrightarrow> (\<exists>g'. own_steps c st (s', g') \<and> image g' = image (snd st) \<and>
     (if rc = SQLITE_OK then pcs g' c = Open \<and> snap g' c = image (snd st) else pcs g' c = Idle))"

lemma began_later: "own_steps c st (s1, g1) \<Longrightarrow> image g1 = image (snd st) \<Longrightarrow> began c (s1, g1) s' rc \<Longrightarrow> began c st s' rc"
  unfolding began_def using own_trans by fastforce

lemma tbr_lock_runs:
  assumes inv: "wal_inv (s, g)" and c: "0 \<le> c" and pc: "pcs g c = Mark i v" and r: "tbr_lock s c v i = (s', rc)"
  shows "began c (s, g) s' rc"
proof -
  have i: "1 \<le> i" "i \<le> 4" using wal_invD(2) [OF inv, of c] pc by (simp_all add: loc_def)
  obtain s1 r1 where l: "walLockShared s c (3 + int i) = (s1, r1)" by (cases "walLockShared s c (3 + int i)")
  have "wstep c (s, g) (fst (walLockShared s c (3 + int i)), g)" by (rule lock_shared) (use c i in simp_all)
  then have s1: "own_steps c (s, g) (s1, g)" using l by (simp add: own_step)
  have f: "conn s1 = conn s" "aHdr0 s1 = aHdr0 s" "nBackfill s1 = nBackfill s" "aReadMark s1 = aReadMark s" using lock_fields(1-4) [of s c "3 + int i"] l by simp_all
  show ?thesis
  proof (cases "r1 = SQLITE_OK")
    case False
    have "own_steps c (s, g) (s1, goto c Idle g)" by (rule own_then [OF s1 abandon]) (simp add: pc)
    moreover have "s' = s1" "rc \<noteq> SQLITE_OK" using r l False by (auto simp: tbr_lock_def split: if_splits)
    ultimately show ?thesis by (auto simp: began_def)
  next
    case True
    have h: "holds_shared (slots s1) (3 + i) c" using shared_grant [OF inv _ _ l [unfolded True]] i by (simp add: nat_add_distrib)
    let ?s = "upd_conn c (\<lambda>w. w\<lparr>minFrame := nBackfill s1 + 1\<rparr>) s1"
    have s2: "own_steps c (s, g) (?s, goto c (Min i v) g)" by (rule own_then [OF s1 r_min [OF pc h]])
    show ?thesis
    proof (cases "aReadMark s1 ! i \<noteq> v \<or> aHdr0 s1 \<noteq> chdr (conn s1 c)")
      case bad: True
      have "own_steps c (s, g) (?s, goto c Idle g)" using own_then [OF s2 abandon] by simp
      moreover have "wstep c (?s, goto c Idle g) (walUnlockShared ?s c (3 + int i), goto c Idle g)"
        by (rule unlock_shared) (use i in \<open>auto simp: pinned_def\<close>)
      ultimately have "own_steps c (s, g) (walUnlockShared ?s c (3 + int i), goto c Idle g)" by (rule own_then)
      moreover have "s' = walUnlockShared ?s c (3 + int i)" "rc = WAL_RETRY" using r l True bad by (auto simp: tbr_lock_def Let_def split: if_splits)
      ultimately show ?thesis by (auto simp: began_def)
    next
      case good: False
      have "wstep c (?s, goto c (Min i v) g) (upd_conn c (\<lambda>w. w\<lparr>readLock := int i\<rparr>) ?s, goto c Open (sees c (image (goto c (Min i v) g)) (goto c (Min i v) g)))"
        by (rule r_open) (use good in simp_all)
      from own_then [OF s2 this] show ?thesis using r l True good by (auto simp: began_def tbr_lock_def Let_def)
    qed
  qed
qed

lemma tbr_zero_runs:
  assumes inv: "wal_inv (s, g)" and c: "0 \<le> c" and pc: "pcs g c = Zero" and r: "tbr_zero s c = (s', res, rc)"
  shows "case res of Some rc \<Rightarrow> began c (s, g) s' rc | None \<Rightarrow> own_steps c (s, g) (s', g) \<and> conn s' = conn s \<and> rc = SQLITE_BUSY"
proof -
  obtain s1 r1 where l: "walLockShared s c 3 = (s1, r1)" by (cases "walLockShared s c 3")
  have "wstep c (s, g) (fst (walLockShared s c 3), g)" by (rule lock_shared) (use c in simp_all)
  then have s1: "own_steps c (s, g) (s1, g)" using l by (simp add: own_step)
  have f: "conn s1 = conn s" "aHdr0 s1 = aHdr0 s" using lock_fields(1,2) [of s c 3] l by simp_all
  have ab: "own_steps c (s, g) (s1, goto c Idle g)" by (rule own_then [OF s1 abandon]) (simp add: pc)
  show ?thesis
  proof (cases "r1 = SQLITE_OK")
    case False
    then have "res = (if r1 \<noteq> SQLITE_BUSY then Some r1 else None)" "s' = s1" "rc = r1" using r l by (auto simp: tbr_zero_def split: if_splits)
    then show ?thesis using s1 ab f False by (auto simp: began_def intro!: exI [of _ "goto c Idle g"])
  next
    case True
    have h: "holds_shared (slots s1) 3 c" using shared_grant [OF inv _ _ l [unfolded True]] by simp
    show ?thesis
    proof (cases "aHdr0 s1 = chdr (conn s1 c)")
      case good: True
      from own_then [OF s1 r_zero_open [OF pc h good]] show ?thesis using r l True good
        by (auto simp: tbr_zero_def began_def intro!: exI [of _ "goto c Open (sees c (image g) g)"])
    next
      case bad: False
      have "wstep c (s1, goto c Idle g) (walUnlockShared s1 c 3, goto c Idle g)" by (rule unlock_shared) (auto simp: pinned_def)
      from own_then [OF ab this] show ?thesis using r l True bad
        by (auto simp: tbr_zero_def began_def intro!: exI [of _ "goto c Idle g"])
    qed
  qed
qed

lemma tbr_claim_runs:
  assumes "wal_inv (s, g)" and c: "0 \<le> c" and pc: "pcs g c = Hdr \<or> pcs g c = Zero" and "set js \<subseteq> {1..4}"
    and "tbr_claim s c mxF rc js = (s', rc', r)"
  shows "own_steps c (s, g) (s', g) \<and> conn s' = conn s \<and> (case r of Some i \<Rightarrow> i \<in> set js | None \<Rightarrow> js = [] \<or> rc' \<noteq> SQLITE_OK)"
  using assms(1,4,5)
proof (induction js arbitrary: s rc)
  case (Cons i js)
  have i: "1 \<le> i" "i \<le> 4" using Cons.prems(2) by simp_all
  obtain s1 r1 where l: "walLockExclusive s c (3 + int i) 1 = (s1, r1)" by (cases "walLockExclusive s c (3 + int i) 1")
  have "wstep c (s, g) (fst (walLockExclusive s c (3 + int i) 1), g)"
    by (rule lock_excl) (use c i pc in \<open>auto simp: pinned_def covers_def\<close>)
  then have s1: "own_steps c (s, g) (s1, g)" using l by (simp add: own_step)
  have f: "conn s1 = conn s" using lock_fields(5) [of s c "3 + int i" 1] l by simp
  show ?case
  proof (cases "r1 = SQLITE_OK")
    case True
    have h: "holds_excl (slots s1) (3 + i) c" using excl_grant [OF Cons.prems(1) c _ _ l [unfolded True], of "3 + i"] i by (simp add: covers_def)
    have "wstep c (s1, g) (store_mark i mxF s1, g)" by (rule mark_store) (use i h pc in auto)
    moreover have "wstep c (store_mark i mxF s1, g) (walUnlockExclusive (store_mark i mxF s1) c (3 + int i) 1, g)"
      by (rule unlock_excl) (use i pc in \<open>auto simp: pinned_def covers_def\<close>)
    ultimately have "own_steps c (s, g) (walUnlockExclusive (store_mark i mxF s1) c (3 + int i) 1, g)" using s1 own_then by blast
    then show ?thesis using Cons.prems(3) l True f by (auto simp: lock_fields store_mark_def)
  next
    case False
    show ?thesis
    proof (cases "r1 = SQLITE_BUSY")
      case busy: True
      have "tbr_claim s1 c mxF r1 js = (s', rc', r)" using Cons.prems(3) l busy by simp
      from Cons.IH [OF own_inv [OF s1 Cons.prems(1)] _ this] Cons.prems(2) s1 f show ?thesis
        using own_trans busy Cons.prems(3) l by (cases js) (auto split: option.splits)
    qed (use Cons.prems(3) l s1 f False in auto)
  qed
qed (simp add: own_refl)

lemma tbr_choose_ok:
  "tbr_choose marks mxF js a = (v, i) \<Longrightarrow> fst a \<le> mxF \<Longrightarrow> v \<le> mxF \<and> (i = snd a \<or> i \<in> set js)"
  by (induction marks mxF js a rule: tbr_choose.induct) (auto split: if_splits)

lemma mark_runs:
  assumes inv: "wal_inv (s, g)" and c: "0 \<le> c" and pc: "pcs g c = Hdr \<or> pcs g c = Zero" and i: "1 \<le> i" "i \<le> 4" "v \<le> mx s c"
    and r: "tbr_lock s c v i = (s', rc)"
  shows "began c (s, g) s' rc"
proof -
  have "own_steps c (s, g) (s, goto c (Mark i v) g)" by (rule own_step [OF r_mark [OF pc i]])
  moreover have "began c (s, goto c (Mark i v) g) s' rc" by (rule tbr_lock_runs [OF own_inv [OF calculation inv] c _ r]) simp
  ultimately show ?thesis using began_later by fastforce
qed

lemma fails_runs: "pcs g c \<noteq> Open \<Longrightarrow> own_steps c st (s', g) \<Longrightarrow> image g = image (snd st) \<Longrightarrow> rc \<noteq> SQLITE_OK \<Longrightarrow> began c st s' rc"
  unfolding began_def by (intro exI [of _ "goto c Idle g"]) (simp add: own_then [OF _ abandon])

lemma tbr_marks_runs:
  assumes inv: "wal_inv (s, g)" and c: "0 \<le> c" and pc: "pcs g c = Hdr \<or> pcs g c = Zero" and r: "tbr_marks s c rc = (s', rc')"
  shows "began c (s, g) s' rc'"
proof -
  obtain v i where vi: "tbr_choose (aReadMark s) (mx s c) [1, 2, 3, 4] (0, 0) = (v, i)" by force
  have v: "v \<le> mx s c" "i \<le> 4" using tbr_choose_ok [OF vi] by auto
  have no: "pcs g c \<noteq> Open" using pc by auto
  obtain s1 r1 k where cl: "tbr_claim s c (mx s c) rc [1, 2, 3, 4] = (s1, r1, k)" using prod_cases3 by blast
  have q: "own_steps c (s, g) (s1, g)" "conn s1 = conn s" "case k of Some i \<Rightarrow> i \<in> {1, 2, 3, 4} | None \<Rightarrow> r1 \<noteq> SQLITE_OK"
    using tbr_claim_runs [OF inv c pc _ cl] by (auto split: option.splits)
  note i1 = own_inv [OF q(1) inv]
  show ?thesis
  proof (cases "\<not> readOnly (conn s c) div 2 mod 2 = 1 \<and> (v < mx s c \<or> i = 0)")
    case True
    show ?thesis
    proof (cases k)
      case (Some j)
      then have "began c (s1, g) s' rc'" using r vi cl True q by (intro mark_runs [OF i1 c pc, where i = j]) (auto simp: tbr_marks_def Let_def)
      then show ?thesis by (rule began_later [OF q(1), rotated]) simp
    next
      case None
      show ?thesis
      proof (cases "r1 = SQLITE_BUSY \<and> i \<noteq> 0")
        case True': True
        then have "began c (s1, g) s' rc'" using r vi cl True q v None by (intro mark_runs [OF i1 c pc]) (auto simp: tbr_marks_def Let_def)
        then show ?thesis by (rule began_later [OF q(1), rotated]) simp
      next
        case False
        then have "s' = s1" "rc' \<noteq> SQLITE_OK" using r vi cl True q None by (auto simp: tbr_marks_def Let_def split: if_splits)
        then show ?thesis using fails_runs [OF no q(1)] by simp
      qed
    qed
  next
    case False
    show ?thesis
    proof (cases "i = 0")
      case True
      then have "s' = s" "rc' \<noteq> SQLITE_OK" using r vi False by (auto simp: tbr_marks_def Let_def split: if_splits)
      then show ?thesis using fails_runs [OF no own_refl] by simp
    next
      case i0: False
      then have "tbr_lock s c v i = (s', rc')" using r vi False by (auto simp: tbr_marks_def Let_def)
      then show ?thesis using i0 v by (intro mark_runs [OF inv c pc]) auto
    qed
  qed
qed

lemma readHdr_accepted:
  assumes "hdr_accepted (aHdr0 s) (aHdr1 s)"
  shows "\<exists>s1 chg. walIndexTryHdr s c = (s1, False, chg) \<and>
    walIndexReadHdr recover s c = (s1, if hVersion (aHdr0 s) = 3007000 then SQLITE_OK else SQLITE_CANTOPEN, chg)"
  using assms by (auto simp: walIndexReadHdr_def walIndexTryHdr_def)

lemma tryBegin_runs:
  assumes inv: "wal_inv (s, g)" and c: "0 \<le> c" and pc: "pcs g c = Idle" and a: "hdr_accepted (aHdr0 s) (aHdr1 s)"
    and r: "walTryBeginRead recover s c False cnt = (s', rc, chg, cnt')"
  shows "began c (s, g) s' rc"
proof -
  obtain s1 ch where t: "walIndexTryHdr s c = (s1, False, ch)"
    "walIndexReadHdr recover s c = (s1, if hVersion (aHdr0 s) = 3007000 then SQLITE_OK else SQLITE_CANTOPEN, ch)"
    using readHdr_accepted [OF a] by blast
  let ?g = "goto c Hdr (g\<lparr>cgen := (cgen g)(c := gen g)\<rparr>)"
  have o: "own_steps c (s, g) (s1, ?g)" by (rule own_step [OF r_header [OF pc t(1)]])
  note i1 = own_inv [OF o inv]
  show ?thesis
  proof (cases "cnt + 1 > 100 \<or> hVersion (aHdr0 s) \<noteq> 3007000")
    case True
    then have "(s' = s \<or> s' = s1) \<and> rc \<noteq> SQLITE_OK" using r t(2) by (auto simp: walTryBeginRead_def tbr_header_def Let_def split: if_splits)
    then show ?thesis using fails_runs [OF _ own_refl [of c "(s, g)"]] fails_runs [OF _ o] pc by fastforce
  next
    case False
    note R = r [unfolded walTryBeginRead_def tbr_header_def Let_def t(2)]
    have "began c (s1, ?g) s' rc"
    proof (cases "nBackfill s1 = mx s1 c")
      case z: True
      obtain s2 res r2 where tz: "tbr_zero s1 c = (s2, res, r2)" using prod_cases3 by blast
      have o2: "own_steps c (s1, ?g) (s1, goto c Zero ?g)" by (rule own_step [OF r_zero]) (simp_all add: z)
      have q: "case res of Some rc \<Rightarrow> began c (s1, goto c Zero ?g) s2 rc | None \<Rightarrow> own_steps c (s1, goto c Zero ?g) (s2, goto c Zero ?g) \<and> conn s2 = conn s1 \<and> r2 = SQLITE_BUSY"
        by (rule tbr_zero_runs [OF own_inv [OF o2 i1] c _ tz]) simp
      show ?thesis
      proof (cases res)
        case (Some x)
        then have "s' = s2" "rc = x" using R False z tz by (auto simp: Let_def)
        then show ?thesis using began_later [OF o2] q Some by simp
      next
        case None
        then have m: "tbr_marks s2 c r2 = (s', rc)" using R False z tz by (auto split: prod.splits)
        have o3: "own_steps c (s1, ?g) (s2, goto c Zero ?g)" using own_trans [OF o2] q None by simp
        then have "began c (s2, goto c Zero ?g) s' rc" by (intro tbr_marks_runs [OF own_inv [OF o3 i1] c _ m]) simp
        then show ?thesis using began_later [OF o3] by simp
      qed
    next
      case nz: False
      then have "tbr_marks s1 c SQLITE_OK = (s', rc)" using R False by (auto split: prod.splits)
      then show ?thesis by (intro tbr_marks_runs [OF i1 c]) simp
    qed
    then show ?thesis using began_later [OF o] by simp
  qed
qed


text \<open>C6: Beginning a read transaction always returns: whatever other connections do to the shared state
  between two attempts, and whatever recovery does, the loop ends within its 101 attempts and its
  result is not the internal retry code. When it is still contended after 100 attempts the result is
  SQLITE_PROTOCOL.\<close>

theorem begin_read_returns:
  "\<exists>s' rc chg. sqlite3WalBeginReadTransaction recover env s c = Some (s', rc, chg) \<and> rc \<noteq> WAL_RETRY"
proof -
  have "\<exists>s' rc chg. begin_loop recover env u n s c cnt = Some (s', rc, chg) \<and> rc \<noteq> WAL_RETRY" if "101 \<le> n + cnt" "0 < n" for u n s cnt
    using that
  proof (induction n arbitrary: s cnt)
    case (Suc n)
    obtain s1 rc chg cnt1 where w: "walTryBeginRead recover s c u cnt = (s1, rc, chg, cnt1)" using prod_cases4 by blast
    have n1: "cnt1 = cnt + 1" "100 < cnt1 \<longrightarrow> rc \<noteq> WAL_RETRY" using w
      by (auto simp: walTryBeginRead_def Let_def split: prod.splits if_splits option.splits)
    show ?case
    proof (cases "rc = WAL_RETRY")
      case True
      then have "\<exists>s' rc chg. begin_loop recover env u n (env s1) c cnt1 = Some (s', rc, chg) \<and> rc \<noteq> WAL_RETRY"
        using n1 Suc.prems by (intro Suc.IH) auto
      then show ?thesis using w True by auto
    qed (simp add: w)
  qed simp
  then show ?thesis unfolding sqlite3WalBeginReadTransaction_def by simp
qed

lemma unlock_reset:
  "writeLock (conn s c) = 0 \<Longrightarrow>
     upd_conn c (\<lambda>w. w\<lparr>writeLock := 0\<rparr>) (walUnlockExclusive (upd_conn c (\<lambda>w. w\<lparr>writeLock := 1\<rparr>) s) c i n) = walUnlockExclusive s c i n"
  by (simp add: walUnlockExclusive_def slot_request_def upd_conn_def fun_upd_idem split: prod.splits)

lemma open_pins: "wal_inv (s, g) \<Longrightarrow> pcs g c = Open \<Longrightarrow> 0 \<le> readLock (conn s c)"
  using wal_invD(2) [of s g c] by (auto simp: loc_def reader_ok_def split: if_splits)

lemma current_snapshot:
  assumes "wal_inv (s, g)" "pcs g c = Open" "chdr (conn s c) = aHdr0 s" "writeLock (conn s c) = 0"
  shows "snap g c = image g"
proof (cases "readLock (conn s c) = 0")
  case True
  have "cgen g c = gen g" using salt_gen [OF assms(1), of c] assms(2,3) by simp
  then show ?thesis using wal_invD(2) [OF assms(1), of c] True assms(2,3) by (simp add: loc_def zero_ok_def)
next
  case False
  have "latest (frames s) p (live s + 1) (live s) = None" for p unfolding latest_None by auto
  then show ?thesis using wal_invD(2) [OF assms(1), of c] False assms(2,3) by (intro ext) (simp add: loc_def reader_ok_def)
qed


lemma run_begins:
  "walTryBeginRead recover sys_0 2 False 0 = (upd_conn 2 (\<lambda>w. w\<lparr>readLock := 0\<rparr>) (fst (walLockShared sys_1 2 3)), SQLITE_OK, True, 1)"
proof -
  have h: "hVersion hdr_0 = 3007000" by (simp add: hdr_0_def sign_hdr_def Let_def)
  have r: "walIndexReadHdr recover sys_0 2 = (sys_1, SQLITE_OK, True)"
    unfolding walIndexReadHdr_def sys_1_eq(1) Let_def by (simp add: sys_1_eq(2) h)
  have e: "nBackfill sys_1 = 0" "hMxFrame (chdr (conn sys_1 2)) = 0" by (simp_all add: sys_1_eq(2) sys_0_def hdr_0_mx)
  have l: "walLockShared sys_1 2 3 = (fst (walLockShared sys_1 2 3), SQLITE_OK)"
    unfolding walLockShared_def sys_1_eq(2)
    by (simp add: slot_request_def slot_lock_def shm_lock_def sys_0_def conn_0_def new_shm_state_def slot_ok_def excl_busy_def upd_conn_def)
  have "aHdr0 (fst (walLockShared sys_1 2 3)) = chdr (conn (fst (walLockShared sys_1 2 3)) 2)"
    unfolding lock_fields by (simp add: sys_1_eq(2) sys_0_def)
  then have "tbr_zero sys_1 2 = (upd_conn 2 (\<lambda>w. w\<lparr>readLock := 0\<rparr>) (fst (walLockShared sys_1 2 3)), Some SQLITE_OK, SQLITE_OK)"
    using l unfolding tbr_zero_def by (auto split: prod.splits)
  then show ?thesis by (simp add: walTryBeginRead_def tbr_header_def r e Let_def)
qed



end
