(* ===== verification/Wal_Checkpoint.thy ===== *)
theory Wal_Checkpoint
  imports Wal_Refine
begin

text \<open>
  Checkpoints as runs of the protocol: the whole of \<^verbatim>\<open>sqlite3WalCheckpoint\<close>, in every mode, is a
  sequence of steps of its connection. It leaves the committed content and every open snapshot as
  they are, whatever file operation fails and wherever it is interrupted.
\<close>

section \<open>Steps of a checkpoint\<close>

definition calm :: "int \<Rightarrow> wal_state \<Rightarrow> wal_state \<Rightarrow> bool" where
  "calm c st st' \<longleftrightarrow> own_steps c st st' \<and> image (snd st') = image (snd st) \<and> sgen (snd st') = sgen (snd st) \<and>
     aHdr0 (fst st') = aHdr0 (fst st) \<and> frames (fst st') = frames (fst st) \<and> conn (fst st') = conn (fst st) \<and>
     (\<forall>k \<le> 1. holds_excl (slots (fst st)) k c \<longrightarrow> holds_excl (slots (fst st')) k c)"

lemma calm_refl: "calm c st st"
  by (simp add: calm_def own_refl)

lemma calm_trans: "calm c a b \<Longrightarrow> calm c b d \<Longrightarrow> calm c a d"
  unfolding calm_def using own_trans by metis

lemma calm_inv: "calm c a b \<Longrightarrow> wal_inv a \<Longrightarrow> wal_inv b"
  unfolding calm_def using own_inv by blast

lemma calm_eq:
  assumes "calm c (s, g) (s', g')"
  shows "conn s' = conn s" "aHdr0 s' = aHdr0 s" "frames s' = frames s" "image g' = image g" "sgen g' = sgen g"
    "k \<le> 1 \<Longrightarrow> holds_excl (slots s) k c \<Longrightarrow> holds_excl (slots s') k c"
  using assms by (auto simp: calm_def)

lemma calm_step:
  assumes "wstep c (s, g) (s', g')" "image g' = image g" "sgen g' = sgen g" "aHdr0 s' = aHdr0 s" "frames s' = frames s" "conn s' = conn s"
    "slots s' = slots s"
  shows "calm c (s, g) (s', g')"
  using assms own_step by (simp add: calm_def)

definition between :: "pc \<Rightarrow> bool" where
  "between q \<longleftrightarrow> q = Idle \<or> (\<exists>i m. q = Scan i m) \<or> (\<exists>i m y. q = Load i m y)"

lemma between_intros [simp]: "between Idle" "between (Scan i m)" "between (Load i m y)"
  by (auto simp: between_def)

lemma between_free: "between (pcs g c) \<Longrightarrow> 3 \<le> k \<Longrightarrow> \<not> pinned (s, g) c k"
  by (auto simp: between_def pinned_def)

lemma request_frame [simp]:
  "frames (fst (slot_request s c i n f)) = frames s" "conn (fst (slot_request s c i n f)) = conn s" "aHdr0 (fst (slot_request s c i n f)) = aHdr0 s"
  by (simp_all add: slot_request_def split: prod.splits)

lemma request_calm:
  assumes inv: "wal_inv (s, g)" and r: "3 \<le> i" "i + n \<le> 8" and st: "wstep c (s, g) (fst (slot_request s c i n f), g)"
  shows "calm c (s, g) (fst (slot_request s c i n f), g)"
proof -
  have "holds_excl (slots (fst (slot_request s c i n f))) k c" if "k \<le> 1" "holds_excl (slots s) k c" for k
    using jvm.request_keeps_excl [OF wal_invD(4) [OF inv], of i n c c k f] that r by (cases "slot_lock (slots s) c i n f") (simp add: slot_request_def covers_def)
  then show ?thesis using own_step [OF st] by (simp add: calm_def)
qed

lemma lock_calm:
  assumes inv: "wal_inv (s, g)" and c: "0 \<le> c" and r: "3 \<le> i" "i + n \<le> 8" and b: "between (pcs g c)"
  shows "calm c (s, g) (fst (walLockExclusive s c i n), g)"
proof -
  have "wstep c (s, g) (fst (walLockExclusive s c i n), g)"
    by (rule lock_excl) (use c r between_free [OF b] in \<open>auto simp: covers_def\<close>)
  then show ?thesis using request_calm [OF inv r] wal_invD(6) [OF inv, of c] by (simp add: walLockExclusive_def)
qed

lemma unlock_calm:
  assumes inv: "wal_inv (s, g)" and r: "3 \<le> i" "i + n \<le> 8" and b: "between (pcs g c)"
  shows "calm c (s, g) (walUnlockExclusive s c i n, g)"
proof -
  have "wstep c (s, g) (walUnlockExclusive s c i n, g)"
    by (rule unlock_excl) (use r between_free [OF b] in \<open>auto simp: covers_def\<close>)
  then show ?thesis using request_calm [OF inv r] wal_invD(6) [OF inv, of c] by (simp add: walUnlockExclusive_def)
qed

lemma misc_calm: "calm c (s, g) (s\<lparr>nBackfillAttempted := a, io := r, interrupts := b, walSize := z\<rparr>, g)"
  by (rule calm_step [OF misc]) simp_all

lemma io_calm: "calm c (s, g) (fst (next_io s), g)"
  using misc_calm [where s = s and g = g and c = c and a = "nBackfillAttempted s" and r = "tl (io s)" and b = "interrupts s" and z = "walSize s"] calm_refl [of c "(s, g)"]
  by (cases "io s") (simp_all add: next_io_def)

lemma interrupt_calm: "calm c (s, g) (fst (next_interrupt s), g)"
  using misc_calm [where s = s and g = g and c = c and a = "nBackfillAttempted s" and r = "io s" and b = "tl (interrupts s)" and z = "walSize s"] calm_refl [of c "(s, g)"]
  by (cases "interrupts s") (simp_all add: next_interrupt_def)

lemma abandon_calm: "pcs g c \<noteq> Open \<Longrightarrow> calm c (s, g) (s, goto c Idle g)"
  by (rule calm_step [OF abandon]) simp_all

lemma busy_lock_calm:
  assumes "wal_inv (s, g)" "0 \<le> c" "3 \<le> i" "i + n \<le> 8" "between (pcs g c)" "walBusyLock env s c [] i n = (s', rc, xBusy)"
  shows "calm c (s, g) (s', g)" "xBusy = []" "rc = SQLITE_OK \<Longrightarrow> covers i n k \<Longrightarrow> holds_excl (slots s') k c"
    "nBackfill s' = nBackfill s"
proof -
  have l: "walLockExclusive s c i n = (s', rc)" "xBusy = []" using assms(6) by (auto split: prod.splits)
  show "calm c (s, g) (s', g)" using lock_calm [OF assms(1-5)] l by simp
  show "xBusy = []" by (rule l)
  show "holds_excl (slots s') k c" if "rc = SQLITE_OK" "covers i n k"
    using excl_grant [OF assms(1,2) _ assms(4), of s' k] l(1) that assms(3) by simp
  show "nBackfill s' = nBackfill s" using lock_fields(7) [of s c i n] l(1) by simp
qed

section \<open>The frames that are safe to copy\<close>

lemma safe_frame_calm:
  assumes "wal_inv (s, g)" "0 \<le> c" "pcs g c = Scan i m" "js = [i..<5]" "1 \<le> i" "i \<le> 5"
    and "safe_frame env s c [] m js = (s', xBusy, m', rc)"
  shows "\<exists>g'. calm c (s, g) (s', g') \<and> nBackfill s' = nBackfill s \<and> xBusy = [] \<and> (if rc = SQLITE_OK then pcs g' c = Scan 5 m' else pcs g' c = Idle)"
  using assms(1,3-7)
proof (induction js arbitrary: i s g m)
  case Nil
  then show ?case by (intro exI [of _ g]) (auto simp: calm_refl upt_eq_Nil_conv dest: sym)
next
  case (Cons j js)
  have j: "j = i" "i < 5" "js = [i + 1..<5]" using Cons.prems(3) by (auto simp: upt_rec [of i] split: if_splits)
  let ?y = "aReadMark s ! i" and ?g = "goto c (Load i m (aReadMark s ! i)) g"
  have l: "calm c (s, g) (s, ?g)" by (rule calm_step [OF c_load [OF Cons.prems(2)]]) (use j Cons.prems(4) in simp_all)
  note i1 = calm_inv [OF l Cons.prems(1)]
  have go: "\<exists>g'. calm c (s, g) (s', g') \<and> nBackfill s' = nBackfill s \<and> xBusy = [] \<and> (if rc = SQLITE_OK then pcs g' c = Scan 5 m' else pcs g' c = Idle)"
    if "calm c (s, g) (s2, g2)" "pcs g2 c = Scan (i + 1) m2" "safe_frame env s2 c [] m2 js = (s', xBusy, m', rc)" "nBackfill s2 = nBackfill s" for s2 g2 m2
    using Cons.IH [OF calm_inv [OF that(1) Cons.prems(1)] that(2) j(3) _ _ that(3)] calm_trans [OF that(1)] j(2) that(4) by fastforce
  show ?case
  proof (cases "m > ?y")
    case False
    have "calm c (s, ?g) (s, goto c (Scan (i + 1) m) ?g)" by (rule calm_step [OF c_next]) (use False in auto)
    from go [OF calm_trans [OF l this]] show ?thesis using Cons.prems(6) j(1) False by simp
  next
    case True
    obtain s1 r1 b1 where w: "walBusyLock env s c [] (3 + int i) 1 = (s1, r1, b1)" using prod_cases3 by blast
    have b: "calm c (s, ?g) (s1, ?g)" "b1 = []" "r1 = SQLITE_OK \<Longrightarrow> holds_excl (slots s1) (3 + i) c" "nBackfill s1 = nBackfill s"
      using busy_lock_calm [OF i1 assms(2) _ _ _ w] j(2) by (auto simp: covers_def)
    note l1 = calm_trans [OF l b(1)]
    consider "r1 = SQLITE_OK" | "r1 = SQLITE_BUSY" | "r1 \<noteq> SQLITE_OK" "r1 \<noteq> SQLITE_BUSY" by blast
    then show ?thesis
    proof cases
      case 1
      define v where "v = (if i = 1 then m else READMARK_NOT_USED)"
      note h = b(3) [OF 1]
      have "calm c (s1, ?g) (store_mark i v s1, ?g)"
        by (rule calm_step [OF mark_store]) (use h j(2) Cons.prems(4) in \<open>simp_all add: store_mark_def\<close>)
      moreover have "calm c (store_mark i v s1, ?g) (store_mark i v s1, goto c (Scan (i + 1) m) ?g)"
        by (rule calm_step [OF c_next]) (use h in \<open>auto simp: store_mark_def\<close>)
      ultimately have s2: "calm c (s, g) (store_mark i v s1, goto c (Scan (i + 1) m) ?g)" using l1 calm_trans by blast
      have "calm c (store_mark i v s1, goto c (Scan (i + 1) m) ?g) (walUnlockExclusive (store_mark i v s1) c (3 + int i) 1, goto c (Scan (i + 1) m) ?g)"
        by (rule unlock_calm [OF calm_inv [OF s2 Cons.prems(1)]]) (use j(2) in auto)
      from go [OF calm_trans [OF s2 this]] show ?thesis
        using Cons.prems(6) j(1) True w 1 b(2,4) by (simp add: v_def lock_fields store_mark_def Let_def)
    next
      case 2
      have "calm c (s1, ?g) (s1, goto c (Scan (i + 1) ?y) ?g)" by (rule calm_step [OF c_busy]) (use True in auto)
      from go [OF calm_trans [OF l1 this]] show ?thesis using Cons.prems(6) j(1) True w 2 b(4) by simp
    next
      case 3
      have "calm c (s1, ?g) (s1, goto c Idle ?g)" by (rule abandon_calm) simp
      then have "calm c (s, g) (s1, goto c Idle ?g)" by (rule calm_trans [OF l1])
      then show ?thesis using Cons.prems(6) j(1) True w 3 b(2,4) by (auto intro!: exI [of _ "goto c Idle ?g"])
    qed
  qed
qed

section \<open>Copying\<close>

lemma iterated_distinct: "distinct (iterated fs lo hi)"
  by (simp add: iterated_def distinct_map inj_on_def)

lemma copy_pages_calm:
  assumes "wal_inv (s, g)" "pcs g c = Copy m todo" "todo = {(p, f) \<in> set ps. nB < f \<and> f \<le> m \<and> p \<le> np}" "distinct ps"
    and "copy_pages s sz nB m np ps = (s', rc)"
  shows "\<exists>g'. calm c (s, g) (s', g') \<and> (if rc = SQLITE_OK then pcs g' c = Copy m {} else pcs g' c = Idle)"
  using assms
proof (induction ps arbitrary: s g todo)
  case Nil
  then show ?case by (intro exI [of _ g]) (auto simp: calm_refl)
next
  case (Cons pf ps)
  obtain p f where pf: "pf = (p, f)" by (cases pf)
  have fail: "\<exists>g'. calm c (s, g) (s', g') \<and> (if rc = SQLITE_OK then pcs g' c = Copy m {} else pcs g' c = Idle)"
    if "calm c (s, g) (s2, g)" "s' = s2" "rc \<noteq> SQLITE_OK" for s2
    using that calm_trans [OF that(1) abandon_calm] Cons.prems(2) by (intro exI [of _ "goto c Idle g"]) simp
  have go: "\<exists>g'. calm c (s, g) (s', g') \<and> (if rc = SQLITE_OK then pcs g' c = Copy m {} else pcs g' c = Idle)"
    if "calm c (s, g) (s2, g2)" "pcs g2 c = Copy m {(p, f) \<in> set ps. nB < f \<and> f \<le> m \<and> p \<le> np}" "copy_pages s2 sz nB m np ps = (s', rc)" for s2 g2
  proof -
    have "distinct ps" using Cons.prems(4) by simp
    from Cons.IH [OF calm_inv [OF that(1) Cons.prems(1)] that(2) refl this that(3)] show ?thesis using calm_trans [OF that(1)] by blast
  qed
  obtain s1 b where i: "next_interrupt s = (s1, b)" by (cases "next_interrupt s")
  have l1: "calm c (s, g) (s1, g)" using interrupt_calm [of c s g] i by simp
  obtain s2 r2 where io2: "next_io s1 = (s2, r2)" by (cases "next_io s1")
  have l2: "calm c (s, g) (s2, g)" using calm_trans [OF l1 io_calm] io2 by (metis fst_conv)
  obtain s3 r3 where io3: "next_io s2 = (s3, r3)" by (cases "next_io s2")
  have l3: "calm c (s, g) (s3, g)" using calm_trans [OF l2 io_calm] io3 by (metis fst_conv)
  note R = Cons.prems(5) [unfolded pf copy_pages.simps i prod.case]
  consider "b" | "\<not> b" "f \<le> nB \<or> f > m \<or> p > np" | "\<not> b" "\<not> (f \<le> nB \<or> f > m \<or> p > np)" by blast
  then show ?case
  proof cases
    case 1
    then show ?thesis using fail [OF l1] R by simp
  next
    case 2
    then have "todo = {(p, f) \<in> set ps. nB < f \<and> f \<le> m \<and> p \<le> np}" using Cons.prems(3) pf by auto
    then show ?thesis using go [OF l1] R 2 Cons.prems(2) by simp
  next
    case 3
    show ?thesis
    proof (cases "r2 = SQLITE_OK \<and> r3 = SQLITE_OK")
      case False
      then show ?thesis using fail [OF l2] fail [OF l3] R 3 io2 io3 by (auto split: if_splits)
    next
      case True
      let ?s = "s3\<lparr>dbPage := (dbPage s3)(p := snd (frames s3 f)), dbSize := max (dbSize s3) (p * sz)\<rparr>"
      have t: "todo - {(p, f)} = {(p, f) \<in> set ps. nB < f \<and> f \<le> m \<and> p \<le> np}" using Cons.prems(3,4) pf by auto
      have m: "(p, f) \<in> todo" using 3 Cons.prems(3) pf by auto
      have st: "calm c (s3, g) (?s, goto c (Copy m {(p, f) \<in> set ps. nB < f \<and> f \<le> m \<and> p \<le> np}) g)"
        by (rule calm_step [OF c_page [OF Cons.prems(2) m, unfolded t]]) simp_all
      show ?thesis by (rule go [OF calm_trans [OF l3 st]]) (use R 3 io2 io3 True in \<open>simp_all\<close>)
    qed
  qed
qed

lemma publish_calm:
  assumes "wal_inv (s, g)" "pcs g c = Copy m {}" "publish s c m = (s', rc)"
  shows "\<exists>g'. calm c (s, g) (s', g') \<and> pcs g' c = Idle"
proof -
  define s1 r1 where "s1 = fst (next_io s)" and "r1 = snd (next_io s)"
  have io: "next_io s = (s1, r1)" by (simp add: s1_def r1_def)
  have l1: "calm c (s, g) (s1, g)" unfolding s1_def by (rule io_calm)
  let ?t = "s1\<lparr>dbSize := hNPage (chdr (conn s1 c)) * walPagesize s1 c\<rparr>"
  have tr: "calm c (s1, g) (?t, g)" if "m = hMxFrame (aHdr0 s)"
    using calm_step [OF c_truncate [OF assms(2), where s = s1 and db = "dbPage s1" and z = "dbSize ?t"]] that calm_eq(2) [OF l1] by simp
  have fin: "\<exists>g'. calm c (s, g) (s', g') \<and> pcs g' c = Idle" if "calm c (s, g) (s2, g)" "s' = s2 \<or> s' = s2\<lparr>nBackfill := m\<rparr>" for s2
  proof -
    have "calm c (s2, g) (s2, goto c Idle g)" by (rule abandon_calm) (simp add: assms(2))
    moreover have "calm c (s2, g) (s2\<lparr>nBackfill := m\<rparr>, goto c Idle g)" by (rule calm_step [OF c_publish [OF assms(2)]]) simp_all
    ultimately show ?thesis using that calm_trans [OF that(1)] by (intro exI [of _ "goto c Idle g"]) auto
  qed
  show ?thesis
  proof (cases "m = hMxFrame (aHdr0 s)")
    case False
    then show ?thesis using fin [OF calm_refl] assms(3) by (auto simp: publish_def Let_def)
  next
    case True
    note l2 = calm_trans [OF l1 tr [OF True]] and l3 = calm_trans [OF calm_trans [OF l1 tr [OF True]] io_calm]
    show ?thesis using fin [OF l1] fin [OF l3] assms(3) True io by (auto simp: publish_def Let_def split: if_splits prod.splits)
  qed
qed

lemma backfill_calm:
  assumes inv: "wal_inv (s, g)" and pc: "pcs g c = Scan 5 m" and h: "holds_excl (slots s) 3 c" and n: "nBackfill s < m" "lo \<le> nBackfill s"
    and it: "ps = iterated (frames s) lo (hMxFrame (chdr (conn s c)))" "np = hNPage (chdr (conn s c))" and r: "backfill s c m np ps = (s', rc)"
  shows "\<exists>g'. calm c (s, g) (s', g') \<and> pcs g' c = Idle"
proof (cases "hSalt (aHdr0 s) = hSalt (chdr (conn s c))")
  case False
  have "calm c (s, g) (s, goto c Idle g)" by (rule abandon_calm) (simp add: pc)
  then show ?thesis using r False by (auto simp: backfill_def)
next
  case True
  let ?g = "goto c (Copy m (to_copy s c m lo)) g"
  have l0: "calm c (s, g) (s, ?g)" by (rule calm_step [OF c_copy [OF pc h True n]]) simp_all
  have t: "to_copy s c m lo = {(p, f) \<in> set ps. nBackfill s < f \<and> f \<le> m \<and> p \<le> np}" by (simp add: to_copy_def it)
  obtain s1 r1 where s1: "next_io (s\<lparr>nBackfillAttempted := m\<rparr>) = (s1, r1)" by (cases "next_io (s\<lparr>nBackfillAttempted := m\<rparr>)")
  have "calm c (s, ?g) (s\<lparr>nBackfillAttempted := m\<rparr>, ?g)"
    using misc_calm [where s = s and g = ?g and c = c and a = m and r = "io s" and b = "interrupts s" and z = "walSize s"] by simp
  from calm_trans [OF calm_trans [OF l0 this] io_calm] have l1: "calm c (s, g) (s1, ?g)" using s1 by (metis fst_conv)
  obtain s2 r2 where s2: "size_check s1 c np = (s2, r2)" by (cases "size_check s1 c np")
  have "s2 = fst (next_io s1)" using s2 by (auto simp: size_check_def split: prod.splits if_splits)
  then have l2: "calm c (s, g) (s2, ?g)" using calm_trans [OF l1 io_calm] by simp
  obtain s3 r3 where s3: "copy_pages s2 (walPagesize s2 c) (nBackfill s) m np ps = (s3, r3)"
    by (cases "copy_pages s2 (walPagesize s2 c) (nBackfill s) m np ps")
  obtain g3 where g3: "calm c (s2, ?g) (s3, g3)" "if r3 = SQLITE_OK then pcs g3 c = Copy m {} else pcs g3 c = Idle"
    using copy_pages_calm [OF calm_inv [OF l2 inv] _ t _ s3, of c] iterated_distinct it(1) by auto
  note l3 = calm_trans [OF l2 g3(1)]
  have ab: "\<exists>g'. calm c (s, g) (s', g') \<and> pcs g' c = Idle" if "calm c (s, g) (s', ?g)"
    using calm_trans [OF that abandon_calm] by (intro exI [of _ "goto c Idle ?g"]) simp
  note R = r [unfolded backfill_def Let_def s1 prod.case]
  show ?thesis
  proof (cases "r1 = SQLITE_OK \<and> r2 = SQLITE_OK")
    case False
    then show ?thesis using ab l1 l2 R True s2 by (auto split: if_splits)
  next
    case ok: True
    show ?thesis
    proof (cases "r3 = SQLITE_OK")
      case False
      then show ?thesis using l3 g3(2) R True s2 s3 ok by auto
    next
      case ok3: True
      then have "publish s3 c m = (s', rc)" using R True s2 s3 ok by auto
      then obtain g4 where "calm c (s3, g3) (s', g4)" "pcs g4 c = Idle"
        using publish_calm [OF calm_inv [OF l3 inv], of c m s' rc] g3(2) ok3 by fastforce
      then show ?thesis using calm_trans [OF l3] by blast
    qed
  qed
qed

lemma ckpt_copy_calm:
  assumes inv: "wal_inv (s, g)" and c: "0 \<le> c" and pc: "pcs g c = Scan 1 (hMxFrame (chdr (conn s c)))" and r: "ckpt_copy env s c [] = (s', xBusy, rc)"
  shows "\<exists>g'. calm c (s, g) (s', g') \<and> pcs g' c = Idle \<and> xBusy = []"
proof -
  let ?h = "chdr (conn s c)"
  obtain s1 b1 m r1 where sf: "safe_frame env s c [] (hMxFrame ?h) [1, 2, 3, 4] = (s1, b1, m, r1)" using prod_cases4 by blast
  have "[1, 2, 3, 4] = [1..<5::nat]" by (simp add: upt_rec)
  from safe_frame_calm [OF inv c pc this _ _ sf] obtain g1 where g1: "calm c (s, g) (s1, g1)" "nBackfill s1 = nBackfill s" "b1 = []"
      "if r1 = SQLITE_OK then pcs g1 c = Scan 5 m else pcs g1 c = Idle" by auto
  note R = r [unfolded ckpt_copy_def Let_def sf prod.case]
  have idle: "\<exists>g'. calm c (s, g) (s', g') \<and> pcs g' c = Idle" if "calm c (s, g) (s', g2)" "pcs g2 c \<noteq> Open" for g2
    using calm_trans [OF that(1) abandon_calm [OF that(2)]] by (intro exI [of _ "goto c Idle g2"]) simp
  show ?thesis
  proof (cases "r1 = SQLITE_OK \<and> nBackfill s1 < m")
    case False
    then have "s' = s1" "xBusy = []" using R g1(3) by (auto split: if_splits)
    then show ?thesis using idle [of g1] g1 by (auto split: if_splits)
  next
    case True
    then have pc1: "pcs g1 c = Scan 5 m" using g1(4) by simp
    obtain s2 r2 where s2: "next_io s1 = (s2, r2)" by (cases "next_io s1")
    have l2: "calm c (s, g) (s2, g1)" using calm_trans [OF g1(1) io_calm] s2 by (metis fst_conv)
    have n2: "nBackfill s2 = nBackfill s1" "frames s2 = frames s1" using s2 by (auto simp: next_io_def split: list.splits)
    obtain s3 r3 b3 where s3: "walBusyLock env s2 c [] 3 1 = (s3, r3, b3)" using prod_cases3 by blast
    note B = busy_lock_calm [OF calm_inv [OF l2 inv] c _ _ _ s3, unfolded pc1, simplified]
    note l3 = calm_trans [OF l2 B(1)]
    show ?thesis
    proof (cases "r2 = SQLITE_OK \<and> r3 = SQLITE_OK")
      case False
      then have "s' = s2 \<or> s' = s3" "xBusy = []" using R True s2 s3 B(2) g1(3) by (auto split: if_splits)
      then show ?thesis using idle [of g1] l2 l3 pc1 by auto
    next
      case ok: True
      let ?lo = "hash_iZero (walFramePage (nBackfill s1 + 1))"
      let ?ps = "iterated (frames s1) ?lo (hMxFrame ?h)"
      obtain s4 r4 where s4: "backfill s3 c m (hNPage ?h) ?ps = (s4, r4)" by (cases "backfill s3 c m (hNPage ?h) ?ps")
      have e: "conn s3 = conn s" "frames s3 = frames s1" "nBackfill s3 = nBackfill s1" using calm_eq [OF l3] calm_eq [OF g1(1)] B(4) n2 by simp_all
      have lo: "?lo \<le> nBackfill s1" using walFramePage_bounds(1) [of "nBackfill s1 + 1"] by simp
      have h3: "holds_excl (slots s3) 3 c" using B(3) ok by (simp add: covers_def)
      have "\<exists>g4. calm c (s3, g1) (s4, g4) \<and> pcs g4 c = Idle"
        by (rule backfill_calm [OF calm_inv [OF l3 inv] pc1 h3 _ _ _ _ s4]) (use True lo in \<open>simp_all add: e\<close>)
      then obtain g4 where g4: "calm c (s3, g1) (s4, g4)" "pcs g4 c = Idle" by blast
      note l4 = calm_trans [OF l3 g4(1)]
      have "calm c (s4, g4) (walUnlockExclusive s4 c 3 1, g4)" by (rule unlock_calm [OF calm_inv [OF l4 inv]]) (simp_all add: g4(2))
      moreover have "s' = walUnlockExclusive s4 c 3 1" "xBusy = []" using R True s2 s3 s4 ok B(2) g1(3) by auto
      ultimately show ?thesis using calm_trans [OF l4] g4(2) by auto
    qed
  qed
qed

section \<open>Whole checkpoints\<close>

lemma walCheckpoint_runs:
  assumes inv: "wal_inv (s, g)" and c: "0 \<le> c" and pc: "pcs g c = Scan 1 (hMxFrame (chdr (conn s c)))" and hdr: "chdr (conn s c) = aHdr0 s"
    and w: "eMode \<ge> SQLITE_CHECKPOINT_RESTART \<longrightarrow> holds_excl (slots s) 0 c" and salt: "sgen g (next_salt (hSalt (aHdr0 s)) salt1) = None"
    and r: "walCheckpoint env salt1 s c eMode [] = (s', rc)"
  shows "\<exists>g'. own_steps c (s, g) (s', g') \<and> pcs g' c = Idle \<and> image g' = image g"
proof -
  define p where "p = (if nBackfill s < hMxFrame (chdr (conn s c)) then ckpt_copy env s c [] else (s, [], SQLITE_OK))"
  obtain s1 b1 r1 where p1: "p = (s1, b1, r1)" using prod_cases3 by blast
  have "\<exists>g1. calm c (s, g) (s1, g1) \<and> pcs g1 c = Idle \<and> b1 = []"
  proof (cases "nBackfill s < hMxFrame (chdr (conn s c))")
    case True
    then show ?thesis using ckpt_copy_calm [OF inv c pc] p1 by (simp add: p_def)
  next
    case False
    have "calm c (s, g) (s, goto c Idle g)" by (rule abandon_calm) (simp add: pc)
    then show ?thesis using p1 False by (auto simp: p_def)
  qed
  then obtain g1 where g1: "calm c (s, g) (s1, g1)" "pcs g1 c = Idle" "b1 = []" by blast
  note i1 = calm_inv [OF g1(1) inv] and e1 = calm_eq [OF g1(1)]
  have h1: "holds_excl (slots s) 1 c" using wal_invD(2) [OF inv, of c] pc by (simp add: loc_def ckpt_ok_def)
  note R = r [unfolded walCheckpoint_def p_def [symmetric] p1 Let_def prod.case]
  have done_: "\<exists>g'. own_steps c (s, g) (s', g') \<and> pcs g' c = Idle \<and> image g' = image g" if "calm c (s, g) (s', g1)"
    using that g1(2) by (auto simp: calm_def)
  show ?thesis
  proof (cases "r1 = SQLITE_OK \<and> eMode \<ge> SQLITE_CHECKPOINT_RESTART \<and> hMxFrame (chdr (conn s1 c)) \<le> nBackfill s1")
    case False
    then have "s' = s1" using R by (auto split: if_splits)
    then show ?thesis using done_ g1(1) by simp
  next
    case True
    obtain s2 r2 b2 where s2: "walBusyLock env s1 c [] 4 4 = (s2, r2, b2)" using prod_cases3 by blast
    note B = busy_lock_calm [OF i1 c _ _ _ s2, unfolded g1(2), simplified]
    note l2 = calm_trans [OF g1(1) B(1)]
    note i2 = calm_inv [OF l2 inv] and e2 = calm_eq [OF l2]
    show ?thesis
    proof (cases "r2 = SQLITE_OK")
      case False
      then have "s' = s2" using R True s2 g1(3) by (auto split: if_splits)
      then show ?thesis using done_ l2 by simp
    next
      case ok: True
      have fin: "own_steps c (s, g) (walUnlockExclusive t c 4 4, g')" if "own_steps c (s, g) (t, g')" "pcs g' c = Idle" for t g'
        by (rule own_then [OF that(1) unlock_excl]) (use that(2) in \<open>auto simp: pinned_def covers_def\<close>)
      show ?thesis
      proof (cases "eMode = SQLITE_CHECKPOINT_TRUNCATE")
        case False
        then have "s' = walUnlockExclusive s2 c 4 4" using R True s2 g1(3) ok by (auto split: if_splits)
        then show ?thesis using fin [of s2 g1] l2 g1(2) by (auto simp: calm_def)
      next
        case tr: True
        let ?salt = "next_salt (hSalt (aHdr0 s)) salt1"
        have x: "holds_excl (slots s2) (3 + i) c" if "1 \<le> i" "i \<le> 4" for i using B(3) [OF ok, of "3 + i"] that by (simp add: covers_def)
        have "nBackfill s2 = hMxFrame (aHdr0 s2)" using True B(4) wal_invD(7) [OF i2] e2(2) e1(1) hdr by simp
        then have st: "wstep c (s2, g1) (walRestartHdr s2 c salt1, restarted c ?salt g1)"
          by (intro c_restart) (use g1(2) e2 w h1 hdr True x salt in \<open>auto simp: e1(5)\<close>)
        define t where "t = walRestartHdr s2 c salt1"
        have o2: "own_steps c (s, g) (t, restarted c ?salt g1)" unfolding t_def using own_then [OF _ st] l2 by (simp add: calm_def)
        have o3: "own_steps c (s, g) (fst (next_io t), restarted c ?salt g1)" using own_trans [OF o2] io_calm [of c t] by (simp add: calm_def)
        let ?u = "fst (next_io t)"
        have o4: "own_steps c (s, g) (?u\<lparr>walSize := 0\<rparr>, restarted c ?salt g1)"
          using own_trans [OF o3] misc_calm [where s = ?u and g = "restarted c ?salt g1" and c = c and a = "nBackfillAttempted ?u" and r = "io ?u" and b = "interrupts ?u" and z = 0]
          by (simp add: calm_def)
        have "s' = walUnlockExclusive ?u c 4 4 \<or> s' = walUnlockExclusive (?u\<lparr>walSize := 0\<rparr>) c 4 4"
          using R True s2 g1(3) ok tr by (auto simp: t_def split: if_splits prod.splits)
        then show ?thesis using fin [OF o3] fin [OF o4] g1(2) e1(4) by (intro exI [of _ "restarted c ?salt g1"]) (auto simp: restarted_def)
      qed
    qed
  qed
qed

lemma own_others: "own_steps c st st' \<Longrightarrow> d \<noteq> c \<Longrightarrow> pcs (snd st') d = pcs (snd st) d \<and> snap (snd st') d = snap (snd st) d"
  unfolding own_steps_def by (induction rule: rtranclp_induct) (auto dest: wstep_others)

lemma unlock_upd:
  "exclusiveMode (f (conn s c)) = exclusiveMode (conn s c) \<Longrightarrow> walUnlockExclusive (upd_conn c f s) c i n = upd_conn c f (walUnlockExclusive s c i n)"
  by (simp add: walUnlockExclusive_def slot_request_def upd_conn_def split: prod.splits)

lemma ckpt_end_runs:
  assumes pc: "pcs g c = Idle" and e: "\<forall>d. exclusiveMode (conn s d) = 0"
  shows "own_steps c (s, g) (ckpt_end chg s c, g)"
proof -
  define s1 where "s1 = (if chg then upd_conn c (\<lambda>w. w\<lparr>chdr := zero_hdr\<rparr>) s else s)"
  have o1: "own_steps c (s, g) (s1, g)" using own_step [OF c_forget [OF pc]] own_refl by (simp add: s1_def)
  have e1: "exclusiveMode (conn s1 c) = 0" using e by (simp add: s1_def)
  define f :: "wal_conn \<Rightarrow> wal_conn" where "f = (\<lambda>w. w\<lparr>writeLock := 0, reCksum := 0, truncateOnCommit := False\<rparr>)"
  have o2: "own_steps c (s, g) (sqlite3WalEndWriteTransaction s1 c, g)"
  proof (cases "writeLock (conn s1 c) = 0")
    case True
    then show ?thesis using o1 by (simp add: sqlite3WalEndWriteTransaction_def)
  next
    case False
    have "own_steps c (s, g) (upd_conn c f s1, g)" unfolding f_def by (rule own_then [OF o1 w_end]) (simp add: pc)
    moreover have "wstep c (upd_conn c f s1, g) (walUnlockExclusive (upd_conn c f s1) c 0 1, g)"
      by (rule unlock_excl) (use pc in \<open>auto simp: pinned_def f_def\<close>)
    ultimately have "own_steps c (s, g) (walUnlockExclusive (upd_conn c f s1) c 0 1, g)" by (rule own_then)
    moreover have "walUnlockExclusive (upd_conn c f s1) c 0 1 = upd_conn c f (walUnlockExclusive s1 c 0 1)"
      by (rule unlock_upd) (simp add: f_def)
    ultimately show ?thesis using False by (simp add: sqlite3WalEndWriteTransaction_def f_def)
  qed
  define s2 where "s2 = sqlite3WalEndWriteTransaction s1 c"
  have "wstep c (s2, g) (walUnlockExclusive s2 c 1 1, g)"
    by (rule unlock_excl) (use pc in \<open>auto simp: pinned_def covers_def\<close>)
  then have "own_steps c (s, g) (upd_conn c (\<lambda>w. w\<lparr>ckptLock := False\<rparr>) (walUnlockExclusive s2 c 1 1), g)"
    using own_then [OF own_then [OF o2 [folded s2_def]] c_flag [OF pc]] by blast
  then show ?thesis using o2 by (simp add: ckpt_end_def Let_def s1_def [symmetric] s2_def [symmetric])
qed

lemma ckpt_begin_runs:
  assumes inv: "wal_inv (s, g)" and c: "0 \<le> c" and pc: "pcs g c = Idle" and w: "writeLock (conn s c) = 0"
    and r: "ckpt_begin env s c eMode [] = (s', rc, eMode', xBusy)"
  shows "own_steps c (s, g) (s', g)" "xBusy = []" "aHdr0 s' = aHdr0 s" "aHdr1 s' = aHdr1 s"
    "rc = SQLITE_OK \<Longrightarrow> eMode' \<noteq> SQLITE_CHECKPOINT_NOOP \<Longrightarrow> holds_excl (slots s') 1 c"
    "rc = SQLITE_OK \<Longrightarrow> eMode' \<ge> SQLITE_CHECKPOINT_RESTART \<Longrightarrow> holds_excl (slots s') 0 c"
proof -
  obtain s1 r1 where l1: "walLockExclusive s c 1 1 = (s1, r1)" by (cases "walLockExclusive s c 1 1")
  have "wstep c (s, g) (fst (walLockExclusive s c 1 1), g)" by (rule lock_excl) (use c pc in \<open>auto simp: pinned_def covers_def\<close>)
  then have o1: "own_steps c (s, g) (s1, g)" using l1 by (simp add: own_step)
  have h1: "holds_excl (slots s1) 1 c" if "r1 = SQLITE_OK" using excl_grant [OF inv c _ _ l1 [unfolded that], of 1] by (simp add: covers_def)
  define t where "t = upd_conn c (\<lambda>w. w\<lparr>ckptLock := True\<rparr>) s1"
  have o2: "own_steps c (s, g) (t, g)" unfolding t_def by (rule own_then [OF o1 c_flag [OF pc]])
  note i2 = own_inv [OF o2 inv]
  obtain s2 r2 where l2: "walLockExclusive t c 0 1 = (s2, r2)" by (cases "walLockExclusive t c 0 1")
  have wt: "writeLock (conn t c) = 0" using lock_fields(5) [of s c 1 1] l1 w by (simp add: t_def)
  have "wstep c (t, g) (fst (walLockExclusive t c 0 1), g)" by (rule lock_excl) (use c pc wt in \<open>auto simp: pinned_def covers_def\<close>)
  then have o3: "own_steps c (s, g) (s2, g)" using l2 own_then [OF o2] by simp
  have h0: "holds_excl (slots s2) 0 c" if "r2 = SQLITE_OK" using excl_grant [OF i2 c _ _ l2 [unfolded that], of 0] by (simp add: covers_def)
  have k1: "holds_excl (slots s2) 1 c" if "r1 = SQLITE_OK"
    using jvm.excl_keeps [OF wal_invD(4) [OF i2], of 0 1 1 c c] h1 [OF that] l2 wal_invD(6) [OF i2, of c]
    by (cases "slot_lock (slots t) c 0 1 10") (auto simp: walLockExclusive_def slot_request_def t_def)
  have o4: "own_steps c (s, g) (upd_conn c (\<lambda>w. w\<lparr>writeLock := 1\<rparr>) s2, g)" if "r2 = SQLITE_OK"
    by (rule own_then [OF o3 w_begin]) (use h0 that pc in simp_all)
  have a: "aHdr1 (fst (walLockExclusive u c i n)) = aHdr1 u" for u i n
    by (simp add: walLockExclusive_def slot_request_def split: prod.splits)
  have f: "aHdr0 s1 = aHdr0 s" "aHdr1 s1 = aHdr1 s" "aHdr0 s2 = aHdr0 s" "aHdr1 s2 = aHdr1 s"
    using lock_fields(6) [of s c 1 1] lock_fields(6) [of t c 0 1] a [of s 1 1] a [of t 0 1] l1 l2 by (simp_all add: t_def upd_conn_def)
  note cases = r [unfolded ckpt_begin_def, simplified l1 t_def [symmetric] Let_def prod.case]
  show "own_steps c (s, g) (s', g)" "xBusy = []" "aHdr0 s' = aHdr0 s" "aHdr1 s' = aHdr1 s"
    "rc = SQLITE_OK \<Longrightarrow> eMode' \<noteq> SQLITE_CHECKPOINT_NOOP \<Longrightarrow> holds_excl (slots s') 1 c"
    "rc = SQLITE_OK \<Longrightarrow> eMode' \<ge> SQLITE_CHECKPOINT_RESTART \<Longrightarrow> holds_excl (slots s') 0 c"
    using cases l2 o1 o2 o3 o4 h0 h1 k1 f own_refl [of c "(s, g)"]
    by (auto simp: t_def upd_conn_def split: if_splits)
qed



end
