(* ===== verification/Btree_Cell.thy ===== *)
theory Btree_Cell
  imports Varint
begin

text \<open>
  B-tree pages and the cells on them (\<^verbatim>\<open>btree.c\<close>, \<^verbatim>\<open>btreeInt.h\<close>): the header flags, parsing a cell and
  computing its size. Memory is a function from offsets to bytes, a pointer into a page is an
  offset. Sizes are natural numbers with the wrap-around of the 16 and 32 bit variables written out.
\<close>

section \<open>Pages\<close>

type_synonym mem = "nat \<Rightarrow> u8"

abbreviation (input) SQLITE_CORRUPT :: int where "SQLITE_CORRUPT \<equiv> 11"

definition get2byte :: "mem \<Rightarrow> nat \<Rightarrow> nat" where
  "get2byte x i = 256 * unat (x i) + unat (x (i + 1))"

definition put2byte :: "mem \<Rightarrow> nat \<Rightarrow> nat \<Rightarrow> mem" where
  "put2byte p i v = p(i := of_nat (v div 256), i + 1 := of_nat v)"

definition get2byteNotZero :: "mem \<Rightarrow> nat \<Rightarrow> nat" where
  "get2byteNotZero x i = (get2byte x i + 65535) mod 65536 + 1"

definition get4byte :: "mem \<Rightarrow> nat \<Rightarrow> u32" where
  "get4byte x i = push_bit 24 (ucast (x i)) OR push_bit 16 (ucast (x (i + 1))) OR push_bit 8 (ucast (x (i + 2))) OR ucast (x (i + 3))"

definition put4byte :: "mem \<Rightarrow> nat \<Rightarrow> u32 \<Rightarrow> mem" where
  "put4byte p i v = p(i := ucast (drop_bit 24 v), i + 1 := ucast (drop_bit 16 v), i + 2 := ucast (drop_bit 8 v), i + 3 := ucast v)"

datatype cell_size_method = CellSizePtr | CellSizePtrIdxLeaf | CellSizePtrNoPayload | CellSizePtrTableLeaf

datatype parse_cell_method = ParseCellPtr | ParseCellPtrNoPayload | ParseCellPtrIndex

record BtShared =
  autoVacuum :: bool
  bt_max1bytePayload :: nat
  fastSecure :: bool
  bt_maxLocal :: nat
  bt_minLocal :: nat
  maxLeaf :: nat
  minLeaf :: nat
  pageSize :: nat
  usableSize :: nat
  cellSizeCk :: bool

record MemPage =
  isInit :: bool
  intKey :: bool
  intKeyLeaf :: bool
  pgno :: nat
  leaf :: bool
  hdrOffset :: nat
  childPtrSize :: nat
  max1bytePayload :: nat
  maxLocal :: nat
  minLocal :: nat
  cellOffset :: nat
  nFree :: int
  nCell :: nat
  maskPage :: nat
  ovfl :: "(nat \<times> bytes) list"
  aData :: mem
  xCellSize :: cell_size_method
  xParseCell :: parse_cell_method

record CellInfo =
  nKey :: int
  pPayload :: "nat option"
  nPayload :: nat
  nLocal :: nat
  nSize :: nat

abbreviation (input) PTF_INTKEY :: nat where "PTF_INTKEY \<equiv> 1"
abbreviation (input) PTF_ZERODATA :: nat where "PTF_ZERODATA \<equiv> 2"
abbreviation (input) PTF_LEAFDATA :: nat where "PTF_LEAFDATA \<equiv> 4"
abbreviation (input) PTF_LEAF :: nat where "PTF_LEAF \<equiv> 8"

definition decodeFlags :: "BtShared \<Rightarrow> MemPage \<Rightarrow> nat \<Rightarrow> MemPage \<times> int" where
  "decodeFlags pBt pPage flagByte =
     (let pPage = pPage\<lparr>max1bytePayload := bt_max1bytePayload pBt\<rparr> in
      if flagByte \<ge> PTF_ZERODATA + PTF_LEAF then
        (let pPage = pPage\<lparr>childPtrSize := 0, leaf := True\<rparr> in
         if flagByte = PTF_LEAFDATA + PTF_INTKEY + PTF_LEAF then
           (pPage\<lparr>intKeyLeaf := True, xCellSize := CellSizePtrTableLeaf, xParseCell := ParseCellPtr, intKey := True,
                  maxLocal := maxLeaf pBt, minLocal := minLeaf pBt\<rparr>, SQLITE_OK)
         else if flagByte = PTF_ZERODATA + PTF_LEAF then
           (pPage\<lparr>intKey := False, intKeyLeaf := False, xCellSize := CellSizePtrIdxLeaf, xParseCell := ParseCellPtrIndex,
                  maxLocal := bt_maxLocal pBt, minLocal := bt_minLocal pBt\<rparr>, SQLITE_OK)
         else
           (pPage\<lparr>intKey := False, intKeyLeaf := False, xCellSize := CellSizePtrIdxLeaf, xParseCell := ParseCellPtrIndex\<rparr>, SQLITE_CORRUPT))
      else
        (let pPage = pPage\<lparr>childPtrSize := 4, leaf := False\<rparr> in
         if flagByte = PTF_ZERODATA then
           (pPage\<lparr>intKey := False, intKeyLeaf := False, xCellSize := CellSizePtr, xParseCell := ParseCellPtrIndex,
                  maxLocal := bt_maxLocal pBt, minLocal := bt_minLocal pBt\<rparr>, SQLITE_OK)
         else if flagByte = PTF_LEAFDATA + PTF_INTKEY then
           (pPage\<lparr>intKeyLeaf := False, xCellSize := CellSizePtrNoPayload, xParseCell := ParseCellPtrNoPayload, intKey := True,
                  maxLocal := maxLeaf pBt, minLocal := minLeaf pBt\<rparr>, SQLITE_OK)
         else
           (pPage\<lparr>intKey := False, intKeyLeaf := False, xCellSize := CellSizePtr, xParseCell := ParseCellPtrIndex\<rparr>, SQLITE_CORRUPT)))"

section \<open>Parsing a cell\<close>

text \<open>The loop that reads the payload size, in the width of the variable it is read into.\<close>

function payload_loop :: "mem \<Rightarrow> nat \<Rightarrow> nat \<Rightarrow> 'a::len word \<Rightarrow> 'a word \<times> nat" where
  "payload_loop d pEnd pIter n =
     (let pIter = pIter + 1; n = push_bit 7 n OR ucast (d pIter AND 0x7f) in
      if d pIter \<ge> 0x80 \<and> pIter < pEnd then payload_loop d pEnd pIter n else (n, pIter))"
  by pat_completeness auto
termination by (relation "measure (\<lambda>(d, pEnd, pIter, n). pEnd - pIter)") (auto simp: Let_def)

declare payload_loop.simps [simp del]

definition payload_size :: "mem \<Rightarrow> nat \<Rightarrow> 'a::len word \<times> nat" where
  "payload_size d pIter =
     (if d pIter \<ge> 0x80
      then (let (n, p) = payload_loop d (pIter + 8) pIter (ucast (d pIter) AND 0x7f) in (n, p + 1))
      else (ucast (d pIter), pIter + 1))"

text \<open>The unrolled loop that reads the key; the value and the offset behind it.\<close>

definition key_unrolled :: "mem \<Rightarrow> nat \<Rightarrow> u64 \<times> nat" where
  "key_unrolled d p =
     (let iKey = ucast (d p) in
      if iKey < 0x80 then (iKey, p + 1)
      else let iKey = push_bit 7 iKey XOR ucast (d (p + 1)) in
      if d (p + 1) < 0x80 then (iKey XOR 0x4000, p + 2)
      else let iKey = push_bit 7 iKey XOR ucast (d (p + 2)) in
      if d (p + 2) < 0x80 then (iKey XOR 0x204000, p + 3)
      else let iKey = push_bit 7 iKey XOR 0x10204000 XOR ucast (d (p + 3)) in
      if d (p + 3) < 0x80 then (iKey, p + 4)
      else let iKey = push_bit 7 iKey XOR 0x4000 XOR ucast (d (p + 4)) in
      if d (p + 4) < 0x80 then (iKey, p + 5)
      else let iKey = push_bit 7 iKey XOR 0x4000 XOR ucast (d (p + 5)) in
      if d (p + 5) < 0x80 then (iKey, p + 6)
      else let iKey = push_bit 7 iKey XOR 0x4000 XOR ucast (d (p + 6)) in
      if d (p + 6) < 0x80 then (iKey, p + 7)
      else let iKey = push_bit 7 iKey XOR 0x4000 XOR ucast (d (p + 7)) in
      if d (p + 7) < 0x80 then (iKey, p + 8)
      else (push_bit 8 iKey XOR 0x8000 XOR ucast (d (p + 8)), p + 9))"

text \<open>\<^verbatim>\<open>minLocal + (n - minLocal) % (usableSize - 4)\<close> in 32 bits.\<close>

definition surplus_of :: "BtShared \<Rightarrow> MemPage \<Rightarrow> nat \<Rightarrow> nat" where
  "surplus_of pBt pPage n = minLocal pPage + (n + 2 ^ 32 - minLocal pPage) mod 2 ^ 32 mod (usableSize pBt - 4)"

definition btreeParseCellAdjustSizeForOverflow :: "BtShared \<Rightarrow> MemPage \<Rightarrow> nat \<Rightarrow> nat \<Rightarrow> CellInfo \<Rightarrow> CellInfo" where
  "btreeParseCellAdjustSizeForOverflow pBt pPage pCell payload pInfo =
     (let surplus = surplus_of pBt pPage (nPayload pInfo);
          local = (if surplus \<le> maxLocal pPage then surplus mod 2 ^ 16 else minLocal pPage mod 2 ^ 16)
      in pInfo\<lparr>nLocal := local, nSize := ((payload + local - pCell) mod 2 ^ 16 + 4) mod 2 ^ 16\<rparr>)"

definition btreePayloadToLocal :: "BtShared \<Rightarrow> MemPage \<Rightarrow> nat \<Rightarrow> nat" where
  "btreePayloadToLocal pBt pPage n =
     (if n \<le> maxLocal pPage then n
      else let surplus = minLocal pPage + (n - minLocal pPage) mod (usableSize pBt - 4)
           in if surplus \<le> maxLocal pPage then surplus else minLocal pPage)"

text \<open>The first nine bytes of a buffer, which is what \<^verbatim>\<open>getVarint\<close> may look at.\<close>

definition getVarint_at :: "mem \<Rightarrow> nat \<Rightarrow> u64 \<times> nat" where
  "getVarint_at d p = the (sqlite3GetVarint (map d [p..<p + 9]))"

definition btreeParseCellPtrNoPayload :: "mem \<Rightarrow> nat \<Rightarrow> CellInfo" where
  "btreeParseCellPtrNoPayload d pCell =
     \<lparr>nKey = sint (fst (getVarint_at d (pCell + 4))), pPayload = None, nPayload = 0, nLocal = 0,
      nSize = 4 + snd (getVarint_at d (pCell + 4))\<rparr>"

definition parse_tail :: "BtShared \<Rightarrow> MemPage \<Rightarrow> nat \<Rightarrow> int \<Rightarrow> nat \<Rightarrow> nat \<Rightarrow> CellInfo" where
  "parse_tail pBt pPage pCell key payload pIter =
     (let pInfo = \<lparr>nKey = key, pPayload = Some pIter, nPayload = payload, nLocal = 0, nSize = 0\<rparr> in
      if payload \<le> maxLocal pPage
      then let n = (payload mod 2 ^ 16 + (pIter - pCell) mod 2 ^ 16) mod 2 ^ 16
           in pInfo\<lparr>nSize := (if n < 4 then 4 else n), nLocal := payload mod 2 ^ 16\<rparr>
      else btreeParseCellAdjustSizeForOverflow pBt pPage pCell pIter pInfo)"

definition btreeParseCellPtr :: "BtShared \<Rightarrow> MemPage \<Rightarrow> mem \<Rightarrow> nat \<Rightarrow> CellInfo" where
  "btreeParseCellPtr pBt pPage d pCell =
     (let (n, pIter) = payload_size d pCell :: u64 \<times> nat;
          payload = unat (n AND 0xffffffff);
          (iKey, pIter) = key_unrolled d pIter
      in parse_tail pBt pPage pCell (sint iKey) payload pIter)"

definition btreeParseCellPtrIndex :: "BtShared \<Rightarrow> MemPage \<Rightarrow> mem \<Rightarrow> nat \<Rightarrow> CellInfo" where
  "btreeParseCellPtrIndex pBt pPage d pCell =
     (let (n, pIter) = payload_size d (pCell + childPtrSize pPage) :: u32 \<times> nat
      in parse_tail pBt pPage pCell (int (unat n)) (unat n) pIter)"

definition parse_cell :: "BtShared \<Rightarrow> MemPage \<Rightarrow> mem \<Rightarrow> nat \<Rightarrow> CellInfo" where
  "parse_cell pBt pPage d pCell =
     (case xParseCell pPage of
        ParseCellPtr \<Rightarrow> btreeParseCellPtr pBt pPage d pCell
      | ParseCellPtrNoPayload \<Rightarrow> btreeParseCellPtrNoPayload d pCell
      | ParseCellPtrIndex \<Rightarrow> btreeParseCellPtrIndex pBt pPage d pCell)"

definition findCell :: "MemPage \<Rightarrow> nat \<Rightarrow> nat" where
  "findCell pPage i = maskPage pPage AND get2byte (aData pPage) (cellOffset pPage + 2 * i)"

definition btreeParseCell :: "BtShared \<Rightarrow> MemPage \<Rightarrow> nat \<Rightarrow> CellInfo" where
  "btreeParseCell pBt pPage iCell = parse_cell pBt pPage (aData pPage) (findCell pPage iCell)"

section \<open>The size of a cell\<close>

definition size_overflow :: "BtShared \<Rightarrow> MemPage \<Rightarrow> nat \<Rightarrow> nat \<Rightarrow> nat" where
  "size_overflow pBt pPage n used =
     (let s = surplus_of pBt pPage n; s = (if s > maxLocal pPage then minLocal pPage else s)
      in (s + 4 + used mod 2 ^ 16) mod 2 ^ 32)"

definition cellSizePtr :: "BtShared \<Rightarrow> MemPage \<Rightarrow> mem \<Rightarrow> nat \<Rightarrow> nat" where
  "cellSizePtr pBt pPage d pCell =
     (let (n, pIter) = payload_size d (pCell + 4) :: u32 \<times> nat; n = unat n;
          n = (if n \<le> maxLocal pPage then n + (pIter - pCell) else size_overflow pBt pPage n (pIter - pCell))
      in n mod 2 ^ 16)"

definition cellSizePtrIdxLeaf :: "BtShared \<Rightarrow> MemPage \<Rightarrow> mem \<Rightarrow> nat \<Rightarrow> nat" where
  "cellSizePtrIdxLeaf pBt pPage d pCell =
     (let (n, pIter) = payload_size d pCell :: u32 \<times> nat; n = unat n;
          n = (if n \<le> maxLocal pPage then (let n = n + (pIter - pCell) in if n < 4 then 4 else n)
               else size_overflow pBt pPage n (pIter - pCell))
      in n mod 2 ^ 16)"

function skip_varint :: "mem \<Rightarrow> nat \<Rightarrow> nat \<Rightarrow> nat" where
  "skip_varint d pEnd pIter = (if d pIter AND 0x80 \<noteq> 0 \<and> pIter + 1 < pEnd then skip_varint d pEnd (pIter + 1) else pIter + 1)"
  by pat_completeness auto
termination by (relation "measure (\<lambda>(d, pEnd, pIter). pEnd - pIter)") auto

declare skip_varint.simps [simp del]

definition cellSizePtrNoPayload :: "mem \<Rightarrow> nat \<Rightarrow> nat" where
  "cellSizePtrNoPayload d pCell = (skip_varint d (pCell + 4 + 9) (pCell + 4) - pCell) mod 2 ^ 16"

text \<open>The chain of eight tests that steps over the key.\<close>

definition skip_key :: "mem \<Rightarrow> nat \<Rightarrow> nat" where
  "skip_key d p =
     (if d p AND 0x80 = 0 then p + 1
      else if d (p + 1) AND 0x80 = 0 then p + 2
      else if d (p + 2) AND 0x80 = 0 then p + 3
      else if d (p + 3) AND 0x80 = 0 then p + 4
      else if d (p + 4) AND 0x80 = 0 then p + 5
      else if d (p + 5) AND 0x80 = 0 then p + 6
      else if d (p + 6) AND 0x80 = 0 then p + 7
      else if d (p + 7) AND 0x80 = 0 then p + 8
      else p + 9)"

definition cellSizePtrTableLeaf :: "BtShared \<Rightarrow> MemPage \<Rightarrow> mem \<Rightarrow> nat \<Rightarrow> nat" where
  "cellSizePtrTableLeaf pBt pPage d pCell =
     (let (n, pIter) = payload_size d pCell :: u32 \<times> nat; n = unat n; pIter = skip_key d pIter;
          n = (if n \<le> maxLocal pPage then (let n = n + (pIter - pCell) in if n < 4 then 4 else n)
               else size_overflow pBt pPage n (pIter - pCell))
      in n mod 2 ^ 16)"

definition cell_size :: "BtShared \<Rightarrow> MemPage \<Rightarrow> mem \<Rightarrow> nat \<Rightarrow> nat" where
  "cell_size pBt pPage d pCell =
     (case xCellSize pPage of
        CellSizePtr \<Rightarrow> cellSizePtr pBt pPage d pCell
      | CellSizePtrIdxLeaf \<Rightarrow> cellSizePtrIdxLeaf pBt pPage d pCell
      | CellSizePtrNoPayload \<Rightarrow> cellSizePtrNoPayload d pCell
      | CellSizePtrTableLeaf \<Rightarrow> cellSizePtrTableLeaf pBt pPage d pCell)"

section \<open>Both ways to read a cell agree\<close>

lemma ge_0x80: "(0x80 :: u8) \<le> b \<longleftrightarrow> bit b 7"
  using u8_lt_0x80 [of b] by auto

lemma ucast_lt_0x80: "(ucast (b :: u8) :: u64) < 0x80 \<longleftrightarrow> \<not> bit b 7"
proof -
  have "(ucast b :: u64) < 0x80 \<longleftrightarrow> b < 0x80"
    using unat_u8_less [of b] by (simp add: word_less_nat_alt unsigned_ucast_eq take_bit_eq_mod)
  then show ?thesis by (simp add: u8_lt_0x80)
qed

lemma nine_bytes: "map d [p..<p + 9] = [d p, d (p + 1), d (p + 2), d (p + 3), d (p + 4), d (p + 5), d (p + 6), d (p + 7), d (p + 8)]"
  by (simp add: upt_conv_Cons numeral_eq_Suc)

text \<open>The unrolled key reader is \<^verbatim>\<open>getVarint\<close>, by the length of the run of continuation bytes.\<close>

definition reference_at :: "mem \<Rightarrow> nat \<Rightarrow> u64 \<times> nat" where
  "reference_at d p = (case the (varint_ref 0 0 (map d [p..<p + 9])) of (v, n) \<Rightarrow> (v, p + n))"

lemmas reference_unfold = reference_at_def nine_bytes key_unrolled_def Let_def u8_lt_0x80 ucast_lt_0x80

lemma key_run0: "\<lbrakk>\<not> bit (d p) 7\<rbrakk> \<Longrightarrow> key_unrolled d p = reference_at d p"
  by (simp add: reference_unfold)

lemma key_run1: "\<lbrakk>bit (d p) 7; \<not> bit (d (p + 1)) 7\<rbrakk> \<Longrightarrow> key_unrolled d p = reference_at d p"
  by (simp add: reference_unfold) (rule word_eq_by_bits, simp add: bitwise)

lemma key_run2: "\<lbrakk>bit (d p) 7; bit (d (p + 1)) 7; \<not> bit (d (p + 2)) 7\<rbrakk> \<Longrightarrow> key_unrolled d p = reference_at d p"
  by (simp add: reference_unfold) (rule word_eq_by_bits, simp add: bitwise)

lemma key_run3: "\<lbrakk>bit (d p) 7; bit (d (p + 1)) 7; bit (d (p + 2)) 7; \<not> bit (d (p + 3)) 7\<rbrakk> \<Longrightarrow> key_unrolled d p = reference_at d p"
  by (simp add: reference_unfold) (rule word_eq_by_bits, simp add: bitwise)

lemma key_run4: "\<lbrakk>bit (d p) 7; bit (d (p + 1)) 7; bit (d (p + 2)) 7; bit (d (p + 3)) 7; \<not> bit (d (p + 4)) 7\<rbrakk> \<Longrightarrow> key_unrolled d p = reference_at d p"
  by (simp add: reference_unfold) (rule word_eq_by_bits, simp add: bitwise)

lemma key_run5: "\<lbrakk>bit (d p) 7; bit (d (p + 1)) 7; bit (d (p + 2)) 7; bit (d (p + 3)) 7; bit (d (p + 4)) 7; \<not> bit (d (p + 5)) 7\<rbrakk> \<Longrightarrow> key_unrolled d p = reference_at d p"
  by (simp add: reference_unfold) (rule word_eq_by_bits, simp add: bitwise)

lemma key_run6: "\<lbrakk>bit (d p) 7; bit (d (p + 1)) 7; bit (d (p + 2)) 7; bit (d (p + 3)) 7; bit (d (p + 4)) 7; bit (d (p + 5)) 7; \<not> bit (d (p + 6)) 7\<rbrakk> \<Longrightarrow> key_unrolled d p = reference_at d p"
  by (simp add: reference_unfold) (rule word_eq_by_bits, simp add: bitwise)

lemma key_run7: "\<lbrakk>bit (d p) 7; bit (d (p + 1)) 7; bit (d (p + 2)) 7; bit (d (p + 3)) 7; bit (d (p + 4)) 7; bit (d (p + 5)) 7; bit (d (p + 6)) 7; \<not> bit (d (p + 7)) 7\<rbrakk> \<Longrightarrow> key_unrolled d p = reference_at d p"
  by (simp add: reference_unfold) (rule word_eq_by_bits, simp add: bitwise)

lemma key_run8: "\<lbrakk>bit (d p) 7; bit (d (p + 1)) 7; bit (d (p + 2)) 7; bit (d (p + 3)) 7; bit (d (p + 4)) 7; bit (d (p + 5)) 7; bit (d (p + 6)) 7; bit (d (p + 7)) 7\<rbrakk> \<Longrightarrow> key_unrolled d p = reference_at d p"
  by (simp add: reference_unfold) (rule word_eq_by_bits, simp add: bitwise)

lemma key_unrolled_getVarint: "key_unrolled d p = (fst (getVarint_at d p), p + snd (getVarint_at d p))"
proof -
  have "key_unrolled d p = reference_at d p"
  proof -
    have "\<not> bit (d p) 7 \<or> bit (d p) 7 \<and> \<not> bit (d (p + 1)) 7 \<or> bit (d p) 7 \<and> bit (d (p + 1)) 7 \<and> \<not> bit (d (p + 2)) 7 \<or> bit (d p) 7 \<and> bit (d (p + 1)) 7 \<and> bit (d (p + 2)) 7 \<and> \<not> bit (d (p + 3)) 7 \<or> bit (d p) 7 \<and> bit (d (p + 1)) 7 \<and> bit (d (p + 2)) 7 \<and> bit (d (p + 3)) 7 \<and> \<not> bit (d (p + 4)) 7 \<or> bit (d p) 7 \<and> bit (d (p + 1)) 7 \<and> bit (d (p + 2)) 7 \<and> bit (d (p + 3)) 7 \<and> bit (d (p + 4)) 7 \<and> \<not> bit (d (p + 5)) 7 \<or> bit (d p) 7 \<and> bit (d (p + 1)) 7 \<and> bit (d (p + 2)) 7 \<and> bit (d (p + 3)) 7 \<and> bit (d (p + 4)) 7 \<and> bit (d (p + 5)) 7 \<and> \<not> bit (d (p + 6)) 7 \<or> bit (d p) 7 \<and> bit (d (p + 1)) 7 \<and> bit (d (p + 2)) 7 \<and> bit (d (p + 3)) 7 \<and> bit (d (p + 4)) 7 \<and> bit (d (p + 5)) 7 \<and> bit (d (p + 6)) 7 \<and> \<not> bit (d (p + 7)) 7 \<or> bit (d p) 7 \<and> bit (d (p + 1)) 7 \<and> bit (d (p + 2)) 7 \<and> bit (d (p + 3)) 7 \<and> bit (d (p + 4)) 7 \<and> bit (d (p + 5)) 7 \<and> bit (d (p + 6)) 7 \<and> bit (d (p + 7)) 7"
      by argo
    then show ?thesis
      by (elim disjE conjE) (simp_all only: key_run0 key_run1 key_run2 key_run3 key_run4 key_run5 key_run6 key_run7 key_run8 not_False_eq_True)
  qed
  then show ?thesis by (simp add: reference_at_def getVarint_at_def getVarint_eq_ref case_prod_beta)
qed

lemma skip_key_eq: "skip_key d p = snd (key_unrolled d p)"
  by (simp add: skip_key_def key_unrolled_def Let_def u8_lt_0x80 ucast_lt_0x80 and_0x80)

text \<open>The payload size is read in 64 or 32 bits; the low half is the same.\<close>

lemma ucast_ucast_payload: "ucast (push_bit 7 n OR ucast (b :: u8) :: u64) = push_bit 7 (ucast n) OR (ucast b :: u32)"
  by (rule word_eq_by_bits, simp add: bitwise)

lemma payload_loop_stop: "\<not> (d (p + 1) \<ge> 0x80 \<and> p + 1 < e) \<Longrightarrow> payload_loop d e p n = (push_bit 7 n OR ucast (d (p + 1) AND 0x7f), p + 1)"
  by (subst payload_loop.simps) (auto simp: Let_def)

lemma payload_loop_low:
  "ucast n = (m :: u32) \<Longrightarrow> payload_loop d e p m = (ucast (fst (payload_loop d e p (n :: u64))), snd (payload_loop d e p n))"
proof (induction d e p n arbitrary: m rule: payload_loop.induct)
  case (1 d e p n)
  let ?n = "push_bit 7 n OR ucast (d (p + 1) AND 0x7f)"
  have m: "push_bit 7 m OR ucast (d (p + 1) AND 0x7f) = ucast ?n" using "1.prems" by (simp add: ucast_ucast_payload)
  show ?case
  proof (cases "d (p + 1) \<ge> 0x80 \<and> p + 1 < e")
    case True
    then show ?thesis using "1.IH" [OF refl refl True m [symmetric]] by (simp add: payload_loop.simps [of d e p] Let_def m)
  next
    case False
    then show ?thesis by (simp only: payload_loop_stop [of d p e, OF False] fst_conv snd_conv m)
  qed
qed

lemma payload_size_low: "payload_size d p = (ucast (fst (payload_size d p :: u64 \<times> nat)) :: u32, snd (payload_size d p :: u64 \<times> nat))"
proof -
  have "ucast (ucast (d p) AND 0x7f :: u64) = (ucast (d p) AND 0x7f :: u32)" "ucast (ucast (d p) :: u64) = (ucast (d p) :: u32)"
    by (rule word_eq_by_bits, simp add: bitwise)+
  then show ?thesis using payload_loop_low [OF refl, of d "p + 8" p "ucast (d p) AND 0x7f"]
    by (simp add: payload_size_def case_prod_beta)
qed

lemma unat_low: "unat (n AND 0xffffffff :: u64) = unat (ucast n :: u32)"
proof -
  have "n AND 0xffffffff = n AND mask 32" by (simp add: mask_eq_exp_minus_1)
  then show ?thesis by (simp add: unsigned_ucast_eq take_bit_eq_mask [symmetric] unsigned_take_bit_eq)
qed

text \<open>How far the readers go.\<close>

lemma payload_loop_end: "p < e \<Longrightarrow> p < snd (payload_loop d e p n) \<and> snd (payload_loop d e p n) \<le> e"
proof (induction d e p n rule: payload_loop.induct)
  case (1 d e p n)
  then show ?case by (force simp: payload_loop.simps [of d e p n] Let_def)
qed

lemma payload_size_end: "p < snd (payload_size d p :: 'a::len word \<times> nat) \<and> snd (payload_size d p :: 'a word \<times> nat) \<le> p + 9"
  using payload_loop_end [of p "p + 8" d "ucast (d p) AND 0x7f :: 'a word"] by (simp add: payload_size_def case_prod_beta)

lemma skip_key_end: "p < skip_key d p \<and> skip_key d p \<le> p + 9"
  by (simp add: skip_key_def)


text \<open>A page whose methods belong together and whose limits are in range, as \<^verbatim>\<open>decodeFlags\<close> leaves it.\<close>

definition bt_ok :: "BtShared \<Rightarrow> bool" where
  "bt_ok pBt \<longleftrightarrow> 480 \<le> usableSize pBt \<and> usableSize pBt \<le> pageSize pBt \<and> pageSize pBt \<le> 65536 \<and>
     bt_minLocal pBt \<le> bt_maxLocal pBt \<and> bt_maxLocal pBt + 35 \<le> usableSize pBt \<and>
     minLeaf pBt \<le> maxLeaf pBt \<and> maxLeaf pBt + 35 \<le> usableSize pBt"

definition methods_ok :: "BtShared \<Rightarrow> MemPage \<Rightarrow> bool" where
  "methods_ok pBt pPage \<longleftrightarrow>
     bt_ok pBt \<and> minLocal pPage \<le> maxLocal pPage \<and> maxLocal pPage + 35 \<le> usableSize pBt \<and>
     childPtrSize pPage = (if leaf pPage then 0 else 4) \<and>
     (case xCellSize pPage of
        CellSizePtrTableLeaf \<Rightarrow> xParseCell pPage = ParseCellPtr \<and> leaf pPage
      | CellSizePtrIdxLeaf \<Rightarrow> xParseCell pPage = ParseCellPtrIndex \<and> leaf pPage
      | CellSizePtr \<Rightarrow> xParseCell pPage = ParseCellPtrIndex \<and> \<not> leaf pPage
      | CellSizePtrNoPayload \<Rightarrow> xParseCell pPage = ParseCellPtrNoPayload \<and> \<not> leaf pPage)"

lemma decodeFlags_ok: "bt_ok pBt \<Longrightarrow> decodeFlags pBt pPage f = (pPage', SQLITE_OK) \<Longrightarrow> methods_ok pBt pPage'"
  by (simp add: decodeFlags_def Let_def split: if_split_asm; erule subst; simp add: methods_ok_def bt_ok_def)

lemma skip_varint_key: "skip_varint d (q + 9) q = skip_key d q"
proof -
  have step: "skip_varint d (q + 9) (q + k) = (if d (q + k) AND 0x80 = 0 then q + (k + 1) else skip_varint d (q + 9) (q + (k + 1)))" if "k < 8" for k
    using that by (subst skip_varint.simps) simp
  have s0: "skip_varint d (q + 9) q = (if d q AND 0x80 = 0 then q + 1 else skip_varint d (q + 9) (q + 1))"
    using step [of 0] by simp
  have s1: "skip_varint d (q + 9) (q + 1) = (if d (q + 1) AND 0x80 = 0 then q + 2 else skip_varint d (q + 9) (q + 2))"
    using step [of 1] by simp
  have s2: "skip_varint d (q + 9) (q + 2) = (if d (q + 2) AND 0x80 = 0 then q + 3 else skip_varint d (q + 9) (q + 3))"
    using step [of 2] by simp
  have s3: "skip_varint d (q + 9) (q + 3) = (if d (q + 3) AND 0x80 = 0 then q + 4 else skip_varint d (q + 9) (q + 4))"
    using step [of 3] by simp
  have s4: "skip_varint d (q + 9) (q + 4) = (if d (q + 4) AND 0x80 = 0 then q + 5 else skip_varint d (q + 9) (q + 5))"
    using step [of 4] by simp
  have s5: "skip_varint d (q + 9) (q + 5) = (if d (q + 5) AND 0x80 = 0 then q + 6 else skip_varint d (q + 9) (q + 6))"
    using step [of 5] by simp
  have s6: "skip_varint d (q + 9) (q + 6) = (if d (q + 6) AND 0x80 = 0 then q + 7 else skip_varint d (q + 9) (q + 7))"
    using step [of 6] by simp
  have s7: "skip_varint d (q + 9) (q + 7) = (if d (q + 7) AND 0x80 = 0 then q + 8 else skip_varint d (q + 9) (q + 8))"
    using step [of 7] by simp
  have last: "skip_varint d (q + 9) (q + 8) = q + 9" by (subst skip_varint.simps) simp
  show ?thesis unfolding skip_key_def s0 s1 s2 s3 s4 s5 s6 s7 last ..
qed

lemma getVarint_at_size: "4 + snd (getVarint_at d (p + 4)) = skip_varint d (p + 4 + 9) (p + 4) - p"
  using skip_varint_key [of d "p + 4"] by (simp add: skip_key_eq key_unrolled_getVarint)

lemma surplus_bound: "methods_ok pBt pPage \<Longrightarrow> n < 2 ^ 32 \<Longrightarrow> maxLocal pPage < n \<Longrightarrow>
    surplus_of pBt pPage n = minLocal pPage + (n - minLocal pPage) mod (usableSize pBt - 4)"
proof -
  assume a: "methods_ok pBt pPage" "n < 2 ^ 32" "maxLocal pPage < n"
  have "n + 2 ^ 32 - minLocal pPage = (n - minLocal pPage) + 2 ^ 32" using a by (simp add: methods_ok_def)
  then have "(n + 2 ^ 32 - minLocal pPage) mod 2 ^ 32 = (n - minLocal pPage) mod 2 ^ 32" by (simp only: mod_add_self2)
  also have "\<dots> = n - minLocal pPage" using a(2) by (intro mod_less) (rule le_less_trans [OF diff_le_self])
  finally show ?thesis by (simp only: surplus_of_def)
qed

lemma size_mod: "s \<le> maxLocal pPage \<Longrightarrow> methods_ok pBt pPage \<Longrightarrow> used \<le> 18 \<Longrightarrow>
    (s + 4 + used mod 2 ^ 16) mod 2 ^ 32 mod 2 ^ 16 = s + 4 + used \<and> s mod 2 ^ 16 = s \<and> s + 4 + used < 2 ^ 16"
  by (simp add: methods_ok_def bt_ok_def)

lemma size_tail:
  assumes ok: "methods_ok pBt pPage" and n: "n < 2 ^ 32" and u: "used \<le> 18" "p + used = q"
  shows "(if n \<le> maxLocal pPage then (if n + used < 4 then 4 else n + used) else size_overflow pBt pPage n used) mod 2 ^ 16 =
     nSize (parse_tail pBt pPage p key n q)"
proof (cases "n \<le> maxLocal pPage")
  case True
  then have "n + used < 2 ^ 16" using ok u by (simp add: methods_ok_def bt_ok_def)
  then show ?thesis using True unfolding u(2) [symmetric] by (simp add: parse_tail_def Let_def)
next
  case False
  define s where "s = (if surplus_of pBt pPage n > maxLocal pPage then minLocal pPage else surplus_of pBt pPage n)"
  have s: "s \<le> maxLocal pPage" using ok by (simp add: s_def methods_ok_def)
  have l: "(if surplus_of pBt pPage n \<le> maxLocal pPage then surplus_of pBt pPage n mod 2 ^ 16 else minLocal pPage mod 2 ^ 16) = s"
    using size_mod [OF s ok u(1)] by (auto simp: s_def not_le)
  have "nSize (parse_tail pBt pPage p key n q) = ((q + s - p) mod 2 ^ 16 + 4) mod 2 ^ 16"
    unfolding parse_tail_def btreeParseCellAdjustSizeForOverflow_def Let_def using False l by (simp split: if_splits)
  also have "\<dots> = s + 4 + used" using size_mod [OF s ok u(1)] u(2) by (auto simp: algebra_simps)
  finally show ?thesis using False size_mod [OF s ok u(1)] by (simp add: size_overflow_def Let_def s_def [symmetric])
qed

text \<open>Every size method returns the size that the parser of the same page computes.\<close>

lemma cell_size_parse: "methods_ok pBt pPage \<Longrightarrow> cell_size pBt pPage d p = nSize (parse_cell pBt pPage d p)"
proof -
  assume ok: "methods_ok pBt pPage"
  obtain n q where n: "(payload_size d (p + childPtrSize pPage) :: u32 \<times> nat) = (n, q)" by (cases "payload_size d (p + childPtrSize pPage) :: u32 \<times> nat")
  have q: "p + childPtrSize pPage < q" "q \<le> p + childPtrSize pPage + 9" using payload_size_end [of "p + childPtrSize pPage" d, where 'a = 32] n by simp_all
  have n32: "unat n < 2 ^ 32" using unat_u32_less [of n] by simp
  show ?thesis
  proof (cases "xCellSize pPage")
    case CellSizePtr
    then have c: "xParseCell pPage = ParseCellPtrIndex" "childPtrSize pPage = 4" using ok by (simp_all add: methods_ok_def)
    then have "\<not> unat n + (q - p) < 4" "q - p \<le> 18" "p + (q - p) = q" using q by simp_all
    from size_tail [OF ok n32 this(2,3), of "int (unat n)"] this(1) show ?thesis
      using CellSizePtr c n by (simp add: cell_size_def cellSizePtr_def parse_cell_def btreeParseCellPtrIndex_def Let_def split: if_splits)
  next
    case CellSizePtrIdxLeaf
    then have c: "xParseCell pPage = ParseCellPtrIndex" "childPtrSize pPage = 0" using ok by (simp_all add: methods_ok_def)
    then have "q - p \<le> 18" "p + (q - p) = q" using q by simp_all
    from size_tail [OF ok n32 this, of "int (unat n)"] show ?thesis
      using CellSizePtrIdxLeaf c n by (simp add: cell_size_def cellSizePtrIdxLeaf_def parse_cell_def btreeParseCellPtrIndex_def Let_def split: if_splits)
  next
    case CellSizePtrNoPayload
    then have c: "xParseCell pPage = ParseCellPtrNoPayload" using ok by (simp add: methods_ok_def)
    have "skip_key d (p + 4) \<le> p + 4 + 9" using skip_key_end by blast
    then show ?thesis using CellSizePtrNoPayload c getVarint_at_size [of d p] skip_varint_key [of d "p + 4"]
      by (simp add: cell_size_def cellSizePtrNoPayload_def parse_cell_def btreeParseCellPtrNoPayload_def)
  next
    case CellSizePtrTableLeaf
    then have c: "xParseCell pPage = ParseCellPtr" "childPtrSize pPage = 0" using ok by (simp_all add: methods_ok_def)
    obtain w q' where w: "(payload_size d p :: u64 \<times> nat) = (w, q')" by (cases "payload_size d p :: u64 \<times> nat")
    then have w': "ucast w = n" "q' = q" using n payload_size_low [of d p] c by simp_all
    have k: "snd (key_unrolled d q) = skip_key d q" by (simp add: skip_key_eq)
    have "skip_key d q - p \<le> 18" "p + (skip_key d q - p) = skip_key d q" using q skip_key_end [of q d] c by linarith+
    from size_tail [OF ok n32 this, of "sint (fst (key_unrolled d q))"] show ?thesis
      using CellSizePtrTableLeaf c n w w' k
      by (simp add: cell_size_def cellSizePtrTableLeaf_def parse_cell_def btreeParseCellPtr_def Let_def case_prod_beta unat_low split: if_splits)
  qed
qed

lemma parse_tail_local:
  assumes ok: "methods_ok pBt pPage" and n: "n < 2 ^ 32"
  shows "nLocal (parse_tail pBt pPage p key n q) = btreePayloadToLocal pBt pPage n"
proof (cases "n \<le> maxLocal pPage")
  case True
  then show ?thesis using ok by (simp add: parse_tail_def Let_def btreePayloadToLocal_def methods_ok_def bt_ok_def)
next
  case False
  then have s: "surplus_of pBt pPage n = minLocal pPage + (n - minLocal pPage) mod (usableSize pBt - 4)" using surplus_bound [OF ok n] by simp
  have "minLocal pPage < 2 ^ 16" "x \<le> maxLocal pPage \<Longrightarrow> x < 2 ^ 16" for x using ok by (simp_all add: methods_ok_def bt_ok_def)
  then show ?thesis using False
    by (simp add: parse_tail_def btreeParseCellAdjustSizeForOverflow_def btreePayloadToLocal_def s [symmetric] Let_def)
qed

lemma nPayload_tail: "nPayload (parse_tail pBt pPage p key n q) = n"
  by (simp add: parse_tail_def Let_def btreeParseCellAdjustSizeForOverflow_def)

lemma local_payload: "methods_ok pBt pPage \<Longrightarrow> xParseCell pPage \<noteq> ParseCellPtrNoPayload \<Longrightarrow>
    nLocal (parse_cell pBt pPage d p) = btreePayloadToLocal pBt pPage (nPayload (parse_cell pBt pPage d p))"
  using unat_u32_less
  by (cases "xParseCell pPage")
    (simp_all add: parse_cell_def btreeParseCellPtr_def btreeParseCellPtrIndex_def Let_def case_prod_beta nPayload_tail parse_tail_local unat_low)

section \<open>A cell is read from its own bytes\<close>

text \<open>The bytes in front of the payload: how many, and the payload size they give.\<close>

definition header_of :: "MemPage \<Rightarrow> mem \<Rightarrow> nat \<Rightarrow> nat \<times> nat" where
  "header_of pPage d p =
     (case xCellSize pPage of
        CellSizePtr \<Rightarrow> (let (n, q) = payload_size d (p + 4) :: u32 \<times> nat in (unat n, q))
      | CellSizePtrIdxLeaf \<Rightarrow> (let (n, q) = payload_size d p :: u32 \<times> nat in (unat n, q))
      | CellSizePtrNoPayload \<Rightarrow> (0, skip_key d (p + 4))
      | CellSizePtrTableLeaf \<Rightarrow> (let (n, q) = payload_size d p :: u32 \<times> nat in (unat n, skip_key d q)))"

definition size_from :: "BtShared \<Rightarrow> MemPage \<Rightarrow> nat \<Rightarrow> nat \<Rightarrow> nat" where
  "size_from pBt pPage n used =
     (if n \<le> maxLocal pPage then (if n + used < 4 then 4 else n + used) else size_overflow pBt pPage n used) mod 2 ^ 16"

lemma header_end: "p < snd (header_of pPage d p) \<and> snd (header_of pPage d p) \<le> p + 18 \<and> fst (header_of pPage d p) < 2 ^ 32"
  using payload_size_end [of "p + 4" d, where 'a = 32] payload_size_end [of p d, where 'a = 32] skip_key_end [of "p + 4" d]
    skip_key_end [of "snd (payload_size d p :: u32 \<times> nat)" d] unat_u32_less
  by (simp add: header_of_def case_prod_beta split: cell_size_method.split)

lemma cell_size_header:
  assumes "methods_ok pBt pPage"
  shows "cell_size pBt pPage d p = size_from pBt pPage (fst (header_of pPage d p)) (snd (header_of pPage d p) - p)"
proof (cases "xCellSize pPage")
  case CellSizePtr
  then have "p + 4 < snd (header_of pPage d p)" using payload_size_end [of "p + 4" d, where 'a = 32] by (simp add: header_of_def case_prod_beta)
  then show ?thesis using CellSizePtr by (auto simp: cell_size_def cellSizePtr_def header_of_def size_from_def Let_def case_prod_beta)
next
  case CellSizePtrNoPayload
  then show ?thesis using skip_key_end [of "p + 4" d] skip_varint_key [of d "p + 4"]
    by (auto simp: cell_size_def cellSizePtrNoPayload_def header_of_def size_from_def)
qed (auto simp: cell_size_def cellSizePtrIdxLeaf_def cellSizePtrTableLeaf_def header_of_def size_from_def Let_def case_prod_beta)

lemma size_from_bounds:
  assumes "methods_ok pBt pPage" "used \<le> 18"
  shows "used \<le> size_from pBt pPage n used \<and> 4 \<le> size_from pBt pPage n used \<and> size_from pBt pPage n used + 13 \<le> usableSize pBt"
proof (cases "n \<le> maxLocal pPage")
  case True
  then show ?thesis using assms by (simp add: size_from_def methods_ok_def bt_ok_def)
next
  case False
  define s where "s = (if surplus_of pBt pPage n > maxLocal pPage then minLocal pPage else surplus_of pBt pPage n)"
  have s: "s \<le> maxLocal pPage" using assms(1) by (simp add: s_def methods_ok_def)
  have "size_from pBt pPage n used = s + 4 + used" using False size_mod [OF s assms] by (simp add: size_from_def size_overflow_def Let_def s_def [symmetric])
  then show ?thesis using s assms by (simp add: methods_ok_def)
qed

lemma payload_loop_move:
  "p < e \<Longrightarrow> \<forall>k \<le> snd (payload_loop d e p n). d' (k + m) = d k \<Longrightarrow>
     payload_loop d' (e + m) (p + m) n = (fst (payload_loop d e p n), snd (payload_loop d e p n) + m)"
proof (induction d e p n rule: payload_loop.induct)
  case (1 d e p n)
  let ?n = "push_bit 7 n OR ucast (d (p + 1) AND 0x7f)"
  have "p + 1 \<le> snd (payload_loop d e p n)" using payload_loop_end [OF "1.prems"(1), of d n] by simp
  then have b: "d' (p + m + 1) = d (p + 1)" using "1.prems"(2) by (metis add.assoc add.commute)
  show ?case
  proof (cases "d (p + 1) \<ge> 0x80 \<and> p + 1 < e")
    case True
    then have s: "payload_loop d e p n = payload_loop d e (p + 1) ?n" by (simp add: payload_loop.simps [of d e p n] Let_def)
    have "payload_loop d' (e + m) (p + m) n = payload_loop d' (e + m) (p + m + 1) ?n"
      using True b by (simp add: payload_loop.simps [of d' "e + m" "p + m" n] Let_def)
    then show ?thesis using "1.IH" [OF refl refl True] True "1.prems"(2) by (simp add: s)
  next
    case False
    then have "\<not> (d' (p + m + 1) \<ge> 0x80 \<and> p + m + 1 < e + m)" using b by simp
    then show ?thesis using False b by (simp only: payload_loop_stop [of d p e] payload_loop_stop [of d' "p + m" "e + m"] not_False_eq_True) simp
  qed
qed

lemma payload_size_move:
  assumes "\<forall>k < snd (payload_size d p :: 'a::len word \<times> nat). d' (k + m) = d k"
  shows "payload_size d' (p + m) = (fst (payload_size d p :: 'a word \<times> nat), snd (payload_size d p :: 'a word \<times> nat) + m)"
proof -
  have b: "d' (p + m) = d p" using assms payload_size_end [of p d, where 'a = 'a] by simp
  show ?thesis
  proof (cases "d p \<ge> 0x80")
    case True
    then have "\<forall>k \<le> snd (payload_loop d (p + 8) p (ucast (d p) AND 0x7f :: 'a word)). d' (k + m) = d k"
      using assms by (simp add: payload_size_def case_prod_beta less_Suc_eq_le)
    from payload_loop_move [OF _ this] show ?thesis using True b by (simp add: payload_size_def case_prod_beta ac_simps)
  qed (use b in \<open>simp add: payload_size_def\<close>)
qed

lemma skip_key_move:
  assumes "\<forall>k < skip_key d p. d' (k + m) = d k"
  shows "skip_key d' (p + m) = skip_key d p + m"
proof -
  have b: "d' (p + m + j) = d (p + j)" if "p + j < skip_key d p" for j using assms that by (metis add.assoc add.commute)
  show ?thesis using b [of 0] b [of 1] b [of 2] b [of 3] b [of 4] b [of 5] b [of 6] b [of 7]
    unfolding skip_key_def by (simp split: if_splits)
qed

lemma header_move:
  assumes "\<forall>k < snd (header_of pPage d p). d' (k + m) = d k"
  shows "header_of pPage d' (p + m) = (fst (header_of pPage d p), snd (header_of pPage d p) + m)"
proof (cases "xCellSize pPage")
  case CellSizePtr
  then show ?thesis using payload_size_move [of d "p + 4" d' m, where 'a = 32] assms by (simp add: header_of_def case_prod_beta ac_simps)
next
  case CellSizePtrIdxLeaf
  then show ?thesis using payload_size_move [of d p d' m, where 'a = 32] assms by (simp add: header_of_def case_prod_beta)
next
  case CellSizePtrNoPayload
  then show ?thesis using skip_key_move [of d "p + 4" d' m] assms by (simp add: header_of_def ac_simps)
next
  case CellSizePtrTableLeaf
  let ?q = "snd (payload_size d p :: u32 \<times> nat)"
  have "\<forall>k < skip_key d ?q. d' (k + m) = d k" using assms CellSizePtrTableLeaf by (simp add: header_of_def case_prod_beta)
  moreover have "?q < skip_key d ?q" using skip_key_end by blast
  ultimately show ?thesis using CellSizePtrTableLeaf skip_key_move [of d ?q d' m] payload_size_move [of d p d' m, where 'a = 32]
    by (simp add: header_of_def case_prod_beta)
qed

text \<open>A well-formed cell: its size is what the page computes from its bytes, wherever they are.\<close>

definition mem_of :: "bytes \<Rightarrow> mem" where
  "mem_of c = (\<lambda>k. if k < length c then c ! k else 0)"

definition cell_ok :: "BtShared \<Rightarrow> MemPage \<Rightarrow> bytes \<Rightarrow> bool" where
  "cell_ok pBt pPage c \<longleftrightarrow> cell_size pBt pPage (mem_of c) 0 = length c"

lemma cell_size_bounds:
  assumes "methods_ok pBt pPage"
  shows "4 \<le> cell_size pBt pPage d p \<and> cell_size pBt pPage d p + 13 \<le> usableSize pBt \<and> snd (header_of pPage d p) \<le> p + cell_size pBt pPage d p"
  using size_from_bounds [OF assms, of "snd (header_of pPage d p) - p" "fst (header_of pPage d p)"] header_end [of p pPage d] cell_size_header [OF assms, of d p]
  by linarith

lemma cell_ok_size:
  assumes ok: "methods_ok pBt pPage" and c: "cell_ok pBt pPage c" and d: "\<forall>k < length c. d (p + k) = c ! k"
  shows "cell_size pBt pPage d p = length c"
proof -
  have "snd (header_of pPage (mem_of c) 0) \<le> length c" using cell_size_bounds [OF ok, of "mem_of c" 0] c by (simp add: cell_ok_def)
  then have "\<forall>k < snd (header_of pPage (mem_of c) 0). d (k + p) = mem_of c k" using d by (simp add: mem_of_def add.commute)
  from header_move [OF this] show ?thesis using c by (simp add: cell_ok_def cell_size_header [OF ok])
qed

lemma cell_ok_length: "methods_ok pBt pPage \<Longrightarrow> cell_ok pBt pPage c \<Longrightarrow> 4 \<le> length c \<and> length c + 13 \<le> usableSize pBt"
  using cell_size_bounds [of pBt pPage "mem_of c" 0] by (simp add: cell_ok_def)

section \<open>Properties\<close>

text \<open>C38: The routines that compute the size of a cell without parsing it return, for every content of the page,
  the size the parser of that page type computes; the payload kept on the page is the documented
  split between page and overflow pages; and the unrolled key reader is getVarint.\<close>

theorem cell_size_agrees:
  assumes "bt_ok pBt" and "decodeFlags pBt pPage flagByte = (pPage', SQLITE_OK)"
  shows "cell_size pBt pPage' d p = nSize (parse_cell pBt pPage' d p) \<and>
    (xParseCell pPage' \<noteq> ParseCellPtrNoPayload \<longrightarrow>
      nLocal (parse_cell pBt pPage' d p) = btreePayloadToLocal pBt pPage' (nPayload (parse_cell pBt pPage' d p))) \<and>
    4 \<le> cell_size pBt pPage' d p \<and> cell_size pBt pPage' d p + 13 \<le> usableSize pBt \<and>
    key_unrolled d p = (fst (getVarint_at d p), p + snd (getVarint_at d p))"
  using decodeFlags_ok [OF assms] cell_size_parse local_payload cell_size_bounds key_unrolled_getVarint by blast

definition bt_512 :: BtShared where
  "bt_512 = \<lparr>autoVacuum = False, bt_max1bytePayload = 102, fastSecure = False, bt_maxLocal = 102, bt_minLocal = 39,
     maxLeaf = 477, minLeaf = 39, pageSize = 512, usableSize = 512, cellSizeCk = False\<rparr>"

definition blank_page :: MemPage where
  "blank_page = \<lparr>isInit = False, intKey = False, intKeyLeaf = False, pgno = 2, leaf = False, hdrOffset = 0, childPtrSize = 0,
     max1bytePayload = 0, maxLocal = 0, minLocal = 0, cellOffset = 0, nFree = 0, nCell = 0, maskPage = 0, ovfl = [],
     aData = (\<lambda>i. 0), xCellSize = CellSizePtr, xParseCell = ParseCellPtrIndex\<rparr>"

theorem cell_size_agrees_witness:
  "let pPage = fst (decodeFlags bt_512 blank_page 13); d = (\<lambda>i. if i = 0 then 0x84 else 0)
   in cell_size bt_512 pPage d 0 = 46 \<and> nSize (parse_cell bt_512 pPage d 0) = 46"
proof -
  have "bt_ok bt_512" "snd (decodeFlags bt_512 blank_page 13) = SQLITE_OK"
    by (simp_all add: bt_ok_def bt_512_def decodeFlags_def)
  then have "decodeFlags bt_512 blank_page 13 = (fst (decodeFlags bt_512 blank_page 13), SQLITE_OK)" by (simp add: prod_eq_iff)
  from cell_size_agrees [OF \<open>bt_ok bt_512\<close> this, of "\<lambda>i. if i = 0 then 0x84 else 0" 0]
  have "cell_size bt_512 (fst (decodeFlags bt_512 blank_page 13)) (\<lambda>i. if i = 0 then 0x84 else 0) 0 =
      nSize (parse_cell bt_512 (fst (decodeFlags bt_512 blank_page 13)) (\<lambda>i. if i = 0 then 0x84 else 0) 0)" by blast
  moreover have "(payload_size (\<lambda>i. if i = 0 then 0x84 else 0) 0 :: u32 \<times> nat) = (0x200, 2)"
    by (simp add: payload_size_def payload_loop_stop [of "\<lambda>i. if i = 0 then 0x84 else 0" 0 8])
  then have "cell_size bt_512 (fst (decodeFlags bt_512 blank_page 13)) (\<lambda>i. if i = 0 then 0x84 else 0) 0 = 46"
    unfolding cell_size_def cellSizePtrTableLeaf_def decodeFlags_def bt_512_def blank_page_def Let_def
    by (simp add: skip_key_def) (simp add: size_overflow_def surplus_of_def)
  ultimately show ?thesis by (simp add: Let_def)
qed

end
