(* ===== verification/Ptrmap.thy ===== *)
theory Ptrmap
  imports Btree_Cell
begin

text \<open>
  The pointer map of an auto-vacuum database (\<^verbatim>\<open>btree.c\<close>): for every page its type and parent, five
  bytes each, on pointer-map pages spread over the file. The pager is the content of the pages, which of them are in use
  as b-tree pages, and the results of the coming requests (all successful when the list is used up).
\<close>

record pager_pages =
  content :: "nat \<Rightarrow> mem"
  in_use :: "nat \<Rightarrow> bool"
  results :: "int list"

definition next_rc :: "pager_pages \<Rightarrow> int \<times> pager_pages" where
  "next_rc pp = (case results pp of [] \<Rightarrow> (SQLITE_OK, pp) | r # rs \<Rightarrow> (r, pp\<lparr>results := rs\<rparr>))"

definition PENDING_BYTE_PAGE :: "BtShared \<Rightarrow> nat" where
  "PENDING_BYTE_PAGE pBt = 0x40000000 div pageSize pBt + 1"

definition ptrmapPageno :: "BtShared \<Rightarrow> nat \<Rightarrow> nat" where
  "ptrmapPageno pBt page =
     (if page < 2 then 0
      else let nPagesPerMapPage = usableSize pBt div 5 + 1;
               ret = (page - 2) div nPagesPerMapPage * nPagesPerMapPage + 2
           in if ret = PENDING_BYTE_PAGE pBt then ret + 1 else ret)"

text \<open>\<^verbatim>\<open>PTRMAP_PTROFFSET\<close>: a difference of page numbers in 32 bits, read as a signed integer.\<close>

definition PTRMAP_PTROFFSET :: "nat \<Rightarrow> nat \<Rightarrow> int" where
  "PTRMAP_PTROFFSET pgptrmap page = sint (word_of_int (5 * (int page - int pgptrmap - 1)) :: u32)"

definition ptrmapPut :: "BtShared \<Rightarrow> pager_pages \<Rightarrow> nat \<Rightarrow> u8 \<Rightarrow> u32 \<Rightarrow> int \<Rightarrow> pager_pages \<times> int" where
  "ptrmapPut pBt pp key eType parent pRC =
     (if pRC \<noteq> SQLITE_OK then (pp, pRC)
      else if key = 0 then (pp, SQLITE_CORRUPT)
      else
        let iPtrmap = ptrmapPageno pBt key; (rc, pp) = next_rc pp in
        if rc \<noteq> SQLITE_OK then (pp, rc)
        else if in_use pp iPtrmap then (pp, SQLITE_CORRUPT)
        else let offset = PTRMAP_PTROFFSET iPtrmap key in
        if offset < 0 then (pp, SQLITE_CORRUPT)
        else let pPtrmap = content pp iPtrmap; offset = nat offset in
        if eType \<noteq> pPtrmap offset \<or> get4byte pPtrmap (offset + 1) \<noteq> parent then
          (let (rc, pp) = next_rc pp in
           if rc = SQLITE_OK
           then (pp\<lparr>content := (content pp)(iPtrmap := put4byte (pPtrmap(offset := eType)) (offset + 1) parent)\<rparr>, SQLITE_OK)
           else (pp, rc))
        else (pp, SQLITE_OK))"

definition ptrmapGet :: "BtShared \<Rightarrow> pager_pages \<Rightarrow> nat \<Rightarrow> pager_pages \<times> int \<times> (u8 \<times> u32) option" where
  "ptrmapGet pBt pp key =
     (let iPtrmap = ptrmapPageno pBt key; (rc, pp) = next_rc pp in
      if rc \<noteq> SQLITE_OK then (pp, rc, None)
      else let pPtrmap = content pp iPtrmap; offset = PTRMAP_PTROFFSET iPtrmap key in
      if offset < 0 then (pp, SQLITE_CORRUPT, None)
      else let eType = pPtrmap (nat offset); parent = get4byte pPtrmap (nat offset + 1) in
      (pp, if eType < 1 \<or> eType > 5 then SQLITE_CORRUPT else SQLITE_OK, Some (eType, parent)))"

abbreviation (input) PTRMAP_OVERFLOW1 :: u8 where "PTRMAP_OVERFLOW1 \<equiv> 3"

text \<open>The entry of the first overflow page of a cell; \<open>past_end\<close> says whether the local part of the cell crosses the
  end of the page it is on.\<close>

definition ptrmapPutOvflPtr :: "BtShared \<Rightarrow> pager_pages \<Rightarrow> MemPage \<Rightarrow> bool \<Rightarrow> mem \<Rightarrow> nat \<Rightarrow> int \<Rightarrow> pager_pages \<times> int" where
  "ptrmapPutOvflPtr pBt pp pPage past_end d pCell pRC =
     (if pRC \<noteq> SQLITE_OK then (pp, pRC)
      else let info = parse_cell pBt pPage d pCell in
        if nLocal info < nPayload info then
          (if past_end then (pp, SQLITE_CORRUPT)
           else ptrmapPut pBt pp (unat (get4byte d (pCell + nSize info - 4))) PTRMAP_OVERFLOW1 (of_nat (pgno pPage)) pRC)
        else (pp, pRC))"

section \<open>What is put is read back\<close>

lemma get4byte_put4byte: "get4byte (put4byte d i v) i = v"
proof -
  have "push_bit 24 (ucast (ucast (drop_bit 24 v) :: u8)) OR push_bit 16 (ucast (ucast (drop_bit 16 v) :: u8)) OR push_bit 8 (ucast (ucast (drop_bit 8 v) :: u8)) OR ucast (ucast v :: u8) = v"
    by (rule word_eq_by_bits, simp add: bitwise)
  then show ?thesis by (simp add: get4byte_def put4byte_def)
qed

lemma put4byte_other: "k < i \<or> i + 4 \<le> k \<Longrightarrow> put4byte d i v k = d k"
  by (auto simp: put4byte_def)

lemma get4byte_other: "k + 4 \<le> i \<or> i + 4 \<le> k \<Longrightarrow> get4byte (put4byte d i v) k = get4byte d k"
  by (auto simp: get4byte_def put4byte_other)

text \<open>Entries do not overlap: the map page of a page number and the offset there determine it.\<close>

definition is_map_page :: "BtShared \<Rightarrow> nat \<Rightarrow> bool" where
  "is_map_page pBt page \<longleftrightarrow> ptrmapPageno pBt page = page"

definition mapped :: "BtShared \<Rightarrow> nat \<Rightarrow> bool" where
  "mapped pBt key \<longleftrightarrow> 2 \<le> key \<and> key < 2 ^ 32 \<and> key \<noteq> PENDING_BYTE_PAGE pBt \<and> \<not> is_map_page pBt key"

lemma map_page_before:
  assumes "bt_ok pBt" "mapped pBt key"
  shows "ptrmapPageno pBt key < key \<and> key - ptrmapPageno pBt key \<le> usableSize pBt div 5"
proof -
  define n where "n = usableSize pBt div 5 + 1"
  define r where "r = (key - 2) div n * n + 2"
  have n: "0 < n" by (simp add: n_def)
  have k: "2 \<le> key" using assms(2) by (simp add: mapped_def)
  have "key - 2 = (key - 2) div n * n + (key - 2) mod n" by simp
  then have m: "key = r + (key - 2) mod n" using k unfolding r_def by linarith
  have "(key - 2) mod n < n" using n by simp
  with m have "r \<le> key" "key < r + n" by linarith+
  moreover have p: "ptrmapPageno pBt key = (if r = PENDING_BYTE_PAGE pBt then r + 1 else r)"
    using k by (simp add: ptrmapPageno_def n_def r_def Let_def)
  moreover have "key \<noteq> ptrmapPageno pBt key" "key \<noteq> PENDING_BYTE_PAGE pBt" using assms(2) by (auto simp: mapped_def is_map_page_def)
  ultimately show ?thesis by (auto simp: n_def split: if_splits)
qed

lemma offset_value:
  assumes "bt_ok pBt" "mapped pBt key"
  obtains t where "key = ptrmapPageno pBt key + Suc t" "PTRMAP_PTROFFSET (ptrmapPageno pBt key) key = int (5 * t)" "5 * t + 5 \<le> usableSize pBt"
proof -
  note b = map_page_before [OF assms]
  define t where "t = key - ptrmapPageno pBt key - 1"
  define u where "u = usableSize pBt div 5"
  have u: "usableSize pBt \<le> 65536" "5 * u \<le> usableSize pBt" using assms(1) by (simp_all add: bt_ok_def u_def)
  have t: "key = ptrmapPageno pBt key + Suc t" "Suc t \<le> u" using b unfolding t_def u_def by linarith+
  from t(1) have "int key = int (ptrmapPageno pBt key) + int t + 1" by (metis of_nat_Suc of_nat_add add.assoc add.commute)
  then have "5 * (int key - int (ptrmapPageno pBt key) - 1) = int (5 * t)" by simp
  moreover have "5 * t + 5 \<le> usableSize pBt" using t(2) u(2) by linarith
  moreover have "sint (word_of_int (int (5 * t)) :: u32) = int (5 * t)"
    using calculation(2) u(1) by (simp only: int_word_sint) simp
  ultimately have "PTRMAP_PTROFFSET (ptrmapPageno pBt key) key = int (5 * t)" by (simp only: PTRMAP_PTROFFSET_def)
  then show ?thesis using t(1) \<open>5 * t + 5 \<le> usableSize pBt\<close> that by blast
qed

lemma entries_disjoint:
  assumes "bt_ok pBt" "mapped pBt k" "mapped pBt j" "k \<noteq> j" "ptrmapPageno pBt k = ptrmapPageno pBt j"
  shows "nat (PTRMAP_PTROFFSET (ptrmapPageno pBt k) k) + 5 \<le> nat (PTRMAP_PTROFFSET (ptrmapPageno pBt j) j) \<or>
    nat (PTRMAP_PTROFFSET (ptrmapPageno pBt j) j) + 5 \<le> nat (PTRMAP_PTROFFSET (ptrmapPageno pBt k) k)"
proof -
  obtain t where t: "k = ptrmapPageno pBt k + Suc t" "PTRMAP_PTROFFSET (ptrmapPageno pBt k) k = int (5 * t)" using offset_value [OF assms(1,2)] .
  obtain u where u: "j = ptrmapPageno pBt j + Suc u" "PTRMAP_PTROFFSET (ptrmapPageno pBt j) j = int (5 * u)" using offset_value [OF assms(1,3)] .
  have "t \<noteq> u" using t(1) u(1) assms(4,5) by metis
  then have "5 * t + 5 \<le> 5 * u \<or> 5 * u + 5 \<le> 5 * t" by linarith
  then show ?thesis unfolding t(2) u(2) nat_int .
qed

text \<open>The entry of a page, as the map holds it.\<close>

definition entry :: "BtShared \<Rightarrow> pager_pages \<Rightarrow> nat \<Rightarrow> u8 \<times> u32" where
  "entry pBt pp key =
     (let d = content pp (ptrmapPageno pBt key); i = nat (PTRMAP_PTROFFSET (ptrmapPageno pBt key) key) in (d i, get4byte d (i + 1)))"

lemma content_next_rc: "content (snd (next_rc pp)) = content pp" "in_use (snd (next_rc pp)) = in_use pp"
  by (auto simp: next_rc_def split: list.splits)

lemma ptrmapGet_entry:
  assumes "bt_ok pBt" "mapped pBt key" "results pp = []"
  shows "ptrmapGet pBt pp key = (pp, if fst (entry pBt pp key) \<in> {1..5} then SQLITE_OK else SQLITE_CORRUPT, Some (entry pBt pp key))"
proof -
  have "(t < 1 \<or> 5 < t) = (t \<notin> {1..5})" for t :: u8 by (simp only: atLeastAtMost_iff not_le [symmetric]) blast
  moreover have "0 \<le> PTRMAP_PTROFFSET (ptrmapPageno pBt key) key" using offset_value [OF assms(1,2)] by (metis of_nat_0_le_iff)
  ultimately show ?thesis using assms(3) by (simp add: ptrmapGet_def entry_def Let_def next_rc_def del: atLeastAtMost_iff)
qed

lemma entry_update:
  assumes ok: "bt_ok pBt" and k: "mapped pBt key" and j: "mapped pBt j"
    and d: "d = (content pp)(ptrmapPageno pBt key := put4byte ((content pp (ptrmapPageno pBt key))(nat (PTRMAP_PTROFFSET (ptrmapPageno pBt key) key) := t))
        (nat (PTRMAP_PTROFFSET (ptrmapPageno pBt key) key) + 1) v)"
  shows "entry pBt (pp\<lparr>content := d\<rparr>) j = (if j = key then (t, v) else entry pBt pp j)"
proof (cases "j = key")
  case True
  then show ?thesis by (simp add: entry_def Let_def d get4byte_put4byte put4byte_other)
next
  case False
  let ?i = "nat (PTRMAP_PTROFFSET (ptrmapPageno pBt j) j)" and ?o = "nat (PTRMAP_PTROFFSET (ptrmapPageno pBt key) key)"
  show ?thesis
  proof (cases "ptrmapPageno pBt j = ptrmapPageno pBt key")
    case same: True
    from entries_disjoint [OF ok k j False [symmetric] same [symmetric]] have o: "?o + 5 \<le> ?i \<or> ?i + 5 \<le> ?o" .
    then have "put4byte (m(?o := t)) (?o + 1) v ?i = m ?i" "get4byte (put4byte (m(?o := t)) (?o + 1) v) (?i + 1) = get4byte m (?i + 1)" for m
      by (auto simp: put4byte_other get4byte_other) (auto simp: get4byte_def)
    then show ?thesis using False same by (simp add: entry_def Let_def d)
  qed (use False in \<open>simp add: entry_def Let_def d\<close>)
qed

text \<open>C39: An entry of the pointer map that ptrmapPut writes without error is what ptrmapGet returns afterwards, and
  the entries of all other pages are unchanged; when an error is reported no entry changes.\<close>

theorem ptrmap_roundtrip:
  assumes "bt_ok pBt" and "mapped pBt key" and "mapped pBt j" and "ptrmapPut pBt pp key eType parent SQLITE_OK = (pp', rc)"
  shows "entry pBt pp' j = (if rc = SQLITE_OK \<and> j = key then (eType, parent) else entry pBt pp j) \<and>
    (rc = SQLITE_OK \<longrightarrow> eType \<in> {1..5} \<longrightarrow> results pp' = [] \<longrightarrow> ptrmapGet pBt pp' key = (pp', SQLITE_OK, Some (eType, parent)))"
proof -
  let ?m = "ptrmapPageno pBt key" and ?o = "PTRMAP_PTROFFSET (ptrmapPageno pBt key) key"
  have o: "0 \<le> ?o" using offset_value [OF assms(1,2)] by (metis of_nat_0_le_iff)
  obtain r1 p1 where n1: "next_rc pp = (r1, p1)" by (cases "next_rc pp")
  obtain r2 p2 where n2: "next_rc p1 = (r2, p2)" by (cases "next_rc p1")
  have c: "content p1 = content pp" "content p2 = content pp" using content_next_rc [of pp] content_next_rc [of p1] n1 n2 by simp_all
  have e: "entry pBt p1 j = entry pBt pp j" "entry pBt p2 j = entry pBt pp j" for j using c by (simp_all add: entry_def)
  have 1: "entry pBt pp' j = (if rc = SQLITE_OK \<and> j = key then (eType, parent) else entry pBt pp j)" if j: "mapped pBt j" for j
  proof -
    note upd = entry_update [OF assms(1,2) j refl, of p2 eType parent]
    have "key \<noteq> 0" using assms(2) by (auto simp: mapped_def)
    then show ?thesis using assms(4) n1 n2 o upd e c
      by (auto simp: ptrmapPut_def Let_def entry_def split: if_splits prod.splits)
  qed
  moreover have "rc = SQLITE_OK \<longrightarrow> eType \<in> {1..5} \<longrightarrow> results pp' = [] \<longrightarrow> ptrmapGet pBt pp' key = (pp', SQLITE_OK, Some (eType, parent))"
    using ptrmapGet_entry [OF assms(1,2), of pp'] 1 [OF assms(2)] by simp
  ultimately show ?thesis using assms(3) by blast
qed

theorem ptrmap_roundtrip_witness:
  "let pp = \<lparr>content = (\<lambda>p i. 0), in_use = (\<lambda>p. False), results = []\<rparr>; pp' = fst (ptrmapPut bt_512 pp 7 5 3 SQLITE_OK)
   in ptrmapGet bt_512 pp' 7 = (pp', SQLITE_OK, Some (5, 3)) \<and> entry bt_512 pp' 8 = (0, 0)"
proof -
  define pp :: pager_pages where "pp = \<lparr>content = (\<lambda>p i. 0), in_use = (\<lambda>p. False), results = []\<rparr>"
  have m: "mapped bt_512 7" "mapped bt_512 8" "bt_ok bt_512"
    by (simp_all add: mapped_def is_map_page_def ptrmapPageno_def PENDING_BYTE_PAGE_def bt_512_def bt_ok_def)
  have "next_rc pp = (SQLITE_OK, pp)" by (simp add: pp_def next_rc_def)
  moreover have o: "0 \<le> PTRMAP_PTROFFSET (ptrmapPageno bt_512 7) 7" using offset_value [OF m(3,1)] by (metis of_nat_0_le_iff)
  ultimately have rc: "snd (ptrmapPut bt_512 pp 7 5 3 SQLITE_OK) = SQLITE_OK" "results (fst (ptrmapPut bt_512 pp 7 5 3 SQLITE_OK)) = []"
    by (simp_all add: ptrmapPut_def Let_def pp_def)
  have p: "ptrmapPut bt_512 pp 7 5 3 SQLITE_OK = (fst (ptrmapPut bt_512 pp 7 5 3 SQLITE_OK), SQLITE_OK)" using rc(1) by (simp add: prod_eq_iff)
  have "entry bt_512 pp 8 = (0, 0)" by (simp add: entry_def pp_def get4byte_def Let_def)
  then show ?thesis using ptrmap_roundtrip [OF m(3,1,2) p] rc(2) by (simp add: Let_def pp_def [symmetric])
qed

end
