(* ===== verification/Btree_Page.thy ===== *)
theory Btree_Page
  imports Ptrmap
begin

text \<open>
  Space management on a b-tree page (\<^verbatim>\<open>btree.c\<close>): the cell content area, the list of free blocks, fragments,
  defragmentation, and inserting and removing cells.
\<close>

section \<open>Memory\<close>

definition memmove :: "mem \<Rightarrow> nat \<Rightarrow> mem \<Rightarrow> nat \<Rightarrow> nat \<Rightarrow> mem" where
  "memmove d dst s src n = (\<lambda>i. if dst \<le> i \<and> i < dst + n then s (src + (i - dst)) else d i)"

definition memset :: "mem \<Rightarrow> nat \<Rightarrow> u8 \<Rightarrow> nat \<Rightarrow> mem" where
  "memset d p v n = (\<lambda>i. if p \<le> i \<and> i < p + n then v else d i)"

section \<open>Defragmentation\<close>

text \<open>The loop over the cell pointers of the fast path.\<close>

fun shift_ptrs :: "nat \<Rightarrow> nat \<Rightarrow> nat \<Rightarrow> nat \<Rightarrow> nat list \<Rightarrow> mem \<Rightarrow> mem" where
  "shift_ptrs iFree iFree2 sz sz2 [] data = data"
| "shift_ptrs iFree iFree2 sz sz2 (pAddr # as) data =
     (let pc = get2byte data pAddr;
          data = (if pc < iFree then put2byte data pAddr (pc + sz)
                  else if pc < iFree2 then put2byte data pAddr (pc + sz2) else data)
      in shift_ptrs iFree iFree2 sz sz2 as data)"

text \<open>The fast path: at most two free blocks; \<^const>\<open>None\<close> when it does not apply.\<close>

definition defrag_fast :: "BtShared \<Rightarrow> MemPage \<Rightarrow> int \<Rightarrow> (mem \<times> nat \<times> int) option" where
  "defrag_fast pBt pPage nMaxFrag =
     (let data = aData pPage; hdr = hdrOffset pPage; usable = usableSize pBt in
      if int (unat (data (hdr + 7))) \<le> nMaxFrag then
        let iFree = get2byte data (hdr + 1) in
        if iFree > usable - 4 then Some (data, 0, SQLITE_CORRUPT)
        else if iFree = 0 then None
        else let iFree2 = get2byte data iFree in
        if iFree2 > usable - 4 then Some (data, 0, SQLITE_CORRUPT)
        else if iFree2 = 0 \<or> data iFree2 = 0 \<and> data (iFree2 + 1) = 0 then
          let sz = get2byte data (iFree + 2); ctop = get2byte data (hdr + 5) in
          if ctop \<ge> iFree then Some (data, 0, SQLITE_CORRUPT)
          else if iFree2 \<noteq> 0 \<and> iFree + sz > iFree2 then Some (data, 0, SQLITE_CORRUPT)
          else let sz2 = (if iFree2 \<noteq> 0 then get2byte data (iFree2 + 2) else 0) in
          if iFree2 \<noteq> 0 \<and> iFree2 + sz2 > usable then Some (data, 0, SQLITE_CORRUPT)
          else if iFree2 = 0 \<and> iFree + sz > usable then Some (data, 0, SQLITE_CORRUPT)
          else let data = (if iFree2 \<noteq> 0 then memmove data (iFree + sz + sz2) data (iFree + sz) (iFree2 - (iFree + sz)) else data);
                   sz = sz + sz2; cbrk = ctop + sz;
                   data = memmove data cbrk data ctop (iFree - ctop);
                   data = shift_ptrs iFree iFree2 sz sz2 (map (\<lambda>i. cellOffset pPage + 2 * i) [0..<nCell pPage]) data
               in Some (data, cbrk, SQLITE_OK)
        else None
      else None)"

text \<open>The loop that packs the cells at the end of the page, from a copy of the page.\<close>

fun pack_cells :: "BtShared \<Rightarrow> MemPage \<Rightarrow> mem \<Rightarrow> nat \<Rightarrow> nat list \<Rightarrow> mem \<Rightarrow> nat \<Rightarrow> mem \<times> nat \<times> int" where
  "pack_cells pBt pPage src iCellStart [] data cbrk = (data, cbrk, SQLITE_OK)"
| "pack_cells pBt pPage src iCellStart (pAddr # as) data cbrk =
     (let pc = get2byte data pAddr in
      if pc > usableSize pBt - 4 then (data, cbrk, SQLITE_CORRUPT)
      else let size = cell_size pBt pPage src pc in
      if cbrk < iCellStart + size \<or> pc + size > usableSize pBt then (data, cbrk, SQLITE_CORRUPT)
      else let cbrk = cbrk - size; data = put2byte data pAddr cbrk; data = memmove data cbrk src pc size
           in pack_cells pBt pPage src iCellStart as data cbrk)"

definition defrag_slow :: "BtShared \<Rightarrow> MemPage \<Rightarrow> mem \<times> nat \<times> int" where
  "defrag_slow pBt pPage =
     (let data = aData pPage; iCellStart = get2byte data (hdrOffset pPage + 5);
          (data, cbrk, rc) = (if nCell pPage > 0
            then pack_cells pBt pPage data iCellStart (map (\<lambda>i. cellOffset pPage + 2 * i) [0..<nCell pPage]) data (usableSize pBt)
            else (data, usableSize pBt, SQLITE_OK))
      in if rc = SQLITE_OK then (data(hdrOffset pPage + 7 := 0), cbrk, rc) else (data, cbrk, rc))"

definition defragmentPage :: "BtShared \<Rightarrow> MemPage \<Rightarrow> int \<Rightarrow> MemPage \<times> int" where
  "defragmentPage pBt pPage nMaxFrag =
     (let hdr = hdrOffset pPage; iCellFirst = cellOffset pPage + 2 * nCell pPage;
          (data, cbrk, rc) = (case defrag_fast pBt pPage nMaxFrag of Some r \<Rightarrow> r | None \<Rightarrow> defrag_slow pBt pPage)
      in if rc \<noteq> SQLITE_OK then (pPage\<lparr>aData := data\<rparr>, rc)
         else if int (unat (data (hdr + 7))) + int cbrk - int iCellFirst \<noteq> nFree pPage then (pPage\<lparr>aData := data\<rparr>, SQLITE_CORRUPT)
         else let data = put2byte data (hdr + 5) cbrk; data = data(hdr + 1 := 0, hdr + 2 := 0);
                  data = memset data iCellFirst 0 (cbrk - iCellFirst)
              in (pPage\<lparr>aData := data\<rparr>, SQLITE_OK))"

section \<open>Allocation\<close>

text \<open>The loop over the free blocks: the memory, the slot if one was found, and the result code.\<close>

function find_slot :: "nat \<Rightarrow> nat \<Rightarrow> nat \<Rightarrow> mem \<Rightarrow> nat \<Rightarrow> nat \<Rightarrow> mem \<times> nat option \<times> int" where
  "find_slot hdr usable nByte d iAddr pc =
     (if pc + nByte \<le> usable then
        let size = get2byte d (pc + 2) in
        if nByte \<le> size then
          let x = size - nByte in
          if x < 4 then
            (if d (hdr + 7) > 57 then (d, None, SQLITE_OK)
             else let d = d(iAddr := d pc, iAddr + 1 := d (pc + 1)); d = d(hdr + 7 := d (hdr + 7) + of_nat x) in (d, Some pc, SQLITE_OK))
          else if x + pc + nByte > usable then (d, None, SQLITE_CORRUPT)
          else (put2byte d (pc + 2) x, Some (pc + x), SQLITE_OK)
        else
          let iAddr = pc; pc = get2byte d iAddr in
          if pc \<le> iAddr then (d, None, if pc \<noteq> 0 then SQLITE_CORRUPT else SQLITE_OK)
          else find_slot hdr usable nByte d iAddr pc
      else (d, None, if pc > usable - 4 then SQLITE_CORRUPT else SQLITE_OK))"
  by pat_completeness auto
termination by (relation "measure (\<lambda>(hdr, usable, nByte, d, iAddr, pc). Suc usable - pc)") auto

declare find_slot.simps [simp del]

definition pageFindSlot :: "BtShared \<Rightarrow> MemPage \<Rightarrow> nat \<Rightarrow> MemPage \<times> nat option \<times> int" where
  "pageFindSlot pBt pPg nByte =
     (let hdr = hdrOffset pPg; (d, slot, rc) = find_slot hdr (usableSize pBt) nByte (aData pPg) (hdr + 1) (get2byte (aData pPg) (hdr + 1))
      in (pPg\<lparr>aData := d\<rparr>, slot, rc))"

text \<open>The allocation from the gap, after defragmentation when that is necessary.\<close>

definition allocate_gap :: "BtShared \<Rightarrow> MemPage \<Rightarrow> nat \<Rightarrow> nat \<Rightarrow> nat \<Rightarrow> MemPage \<times> nat \<times> int" where
  "allocate_gap pBt pPage nByte gap ctop =
     (let hdr = hdrOffset pPage;
          (pPage, rc) = (if gap + 2 + nByte > ctop then defragmentPage pBt pPage (min 4 (nFree pPage - (2 + int nByte))) else (pPage, SQLITE_OK))
      in if rc \<noteq> SQLITE_OK then (pPage, 0, rc)
         else let ctop = (if gap + 2 + nByte > ctop then get2byteNotZero (aData pPage) (hdr + 5) else ctop); ctop = ctop - nByte
              in (pPage\<lparr>aData := put2byte (aData pPage) (hdr + 5) ctop\<rparr>, ctop, SQLITE_OK))"

definition allocateSpace :: "BtShared \<Rightarrow> MemPage \<Rightarrow> nat \<Rightarrow> MemPage \<times> nat \<times> int" where
  "allocateSpace pBt pPage nByte =
     (let hdr = hdrOffset pPage; data = aData pPage; gap = cellOffset pPage + 2 * nCell pPage; ctop = get2byte data (hdr + 5) in
      if gap > ctop \<and> \<not> (ctop = 0 \<and> usableSize pBt = 65536) then (pPage, 0, SQLITE_CORRUPT)
      else if gap \<le> ctop \<and> ctop > usableSize pBt then (pPage, 0, SQLITE_CORRUPT)
      else let ctop = (if gap > ctop then 65536 else ctop) in
      if (data (hdr + 2) \<noteq> 0 \<or> data (hdr + 1) \<noteq> 0) \<and> gap + 2 \<le> ctop then
        (case pageFindSlot pBt pPage nByte of
           (pPage, Some g2, rc) \<Rightarrow> (pPage, g2, if g2 \<le> gap then SQLITE_CORRUPT else SQLITE_OK)
         | (pPage, None, rc) \<Rightarrow> if rc \<noteq> SQLITE_OK then (pPage, 0, rc) else allocate_gap pBt pPage nByte gap ctop)
      else allocate_gap pBt pPage nByte gap ctop)"

section \<open>Freeing\<close>

text \<open>The search for the place in the ascending list of free blocks: the address of the pointer and the block behind it.\<close>

function free_find :: "mem \<Rightarrow> nat \<Rightarrow> nat \<Rightarrow> (nat \<times> nat) option" where
  "free_find data iStart iPtr =
     (let iFreeBlk = get2byte data iPtr in
      if iFreeBlk < iStart then
        (if iFreeBlk \<le> iPtr then (if iFreeBlk = 0 then Some (iPtr, 0) else None) else free_find data iStart iFreeBlk)
      else Some (iPtr, iFreeBlk))"
  by pat_completeness auto
termination by (relation "measure (\<lambda>(d, s, p). s - p)") auto

declare free_find.simps [simp del]

text \<open>Merging with the free block behind and the one in front: the new start, size and end, the next
  free block and the number of fragment bytes that are joined.\<close>

definition merge_next :: "nat \<Rightarrow> mem \<Rightarrow> nat \<Rightarrow> nat \<Rightarrow> nat \<Rightarrow> (nat \<times> nat \<times> nat) option" where
  "merge_next usable data iStart iEnd iFreeBlk =
     (if iFreeBlk \<noteq> 0 \<and> iEnd + 3 \<ge> iFreeBlk then
        if iEnd > iFreeBlk then None
        else let e = iFreeBlk + get2byte data (iFreeBlk + 2) in
          if e > usable then None else Some (iFreeBlk - iEnd, e, get2byte data iFreeBlk)
      else Some (0, iEnd, iFreeBlk))"

definition merge_prev :: "nat \<Rightarrow> mem \<Rightarrow> nat \<Rightarrow> nat \<Rightarrow> nat \<Rightarrow> (nat \<times> nat) option" where
  "merge_prev hdr data iPtr iStart nFrag =
     (if iPtr > hdr + 1 \<and> iPtr + get2byte data (iPtr + 2) + 3 \<ge> iStart then
        let iPtrEnd = iPtr + get2byte data (iPtr + 2) in
        if iPtrEnd > iStart then None else Some (nFrag + (iStart - iPtrEnd), iPtr)
      else Some (nFrag, iStart))"

definition free_tail :: "BtShared \<Rightarrow> MemPage \<Rightarrow> mem \<Rightarrow> nat \<Rightarrow> nat \<Rightarrow> nat \<Rightarrow> nat \<Rightarrow> nat \<Rightarrow> MemPage \<times> int" where
  "free_tail pBt pPage data iPtr iStart iEnd iFreeBlk iOrigSize =
     (let hdr = hdrOffset pPage; iSize = iEnd - iStart; x = get2byte data (hdr + 5);
          data = (if fastSecure pBt then memset data iStart 0 iSize else data)
      in if iStart \<le> x then
           if iStart < x then (pPage\<lparr>aData := data\<rparr>, SQLITE_CORRUPT)
           else if iPtr \<noteq> hdr + 1 then (pPage\<lparr>aData := data\<rparr>, SQLITE_CORRUPT)
           else (pPage\<lparr>aData := put2byte (put2byte data (hdr + 1) iFreeBlk) (hdr + 5) iEnd, nFree := nFree pPage + int iOrigSize\<rparr>, SQLITE_OK)
         else (pPage\<lparr>aData := put2byte (put2byte (put2byte data iPtr iStart) iStart iFreeBlk) (iStart + 2) (iSize mod 65536),
                     nFree := nFree pPage + int iOrigSize\<rparr>, SQLITE_OK))"

definition freeSpace :: "BtShared \<Rightarrow> MemPage \<Rightarrow> nat \<Rightarrow> nat \<Rightarrow> MemPage \<times> int" where
  "freeSpace pBt pPage iStart iSize =
     (let data = aData pPage; hdr = hdrOffset pPage; iEnd = iStart + iSize in
      if data (hdr + 2) = 0 \<and> data (hdr + 1) = 0 then free_tail pBt pPage data (hdr + 1) iStart iEnd 0 iSize
      else (case free_find data iStart (hdr + 1) of
         None \<Rightarrow> (pPage, SQLITE_CORRUPT)
       | Some (iPtr, iFreeBlk) \<Rightarrow>
           if iFreeBlk > usableSize pBt - 4 then (pPage, SQLITE_CORRUPT)
           else (case merge_next (usableSize pBt) data iStart iEnd iFreeBlk of
              None \<Rightarrow> (pPage, SQLITE_CORRUPT)
            | Some (nFrag, iEnd, iFreeBlk) \<Rightarrow>
                (case merge_prev hdr data iPtr iStart nFrag of
                   None \<Rightarrow> (pPage, SQLITE_CORRUPT)
                 | Some (nFrag, iStart) \<Rightarrow>
                     if nFrag > unat (data (hdr + 7)) then (pPage, SQLITE_CORRUPT)
                     else free_tail pBt pPage (data(hdr + 7 := data (hdr + 7) - of_nat nFrag)) iPtr iStart iEnd iFreeBlk iSize))))"

section \<open>Opening a page\<close>

text \<open>The loop over the free blocks: the sum of their sizes, the last block with its size, and its successor;
  \<^const>\<open>None\<close> when a block lies beyond the end.\<close>

function sum_blocks :: "mem \<Rightarrow> nat \<Rightarrow> nat \<Rightarrow> nat \<Rightarrow> (nat \<times> nat \<times> nat \<times> nat) option" where
  "sum_blocks data iCellLast pc acc =
     (if pc > iCellLast then None
      else let next = get2byte data pc; size = get2byte data (pc + 2); acc = acc + size in
      if next \<le> pc + size + 3 then Some (acc, pc, size, next) else sum_blocks data iCellLast next acc)"
  by pat_completeness auto
termination by (relation "measure (\<lambda>(d, l, pc, a). Suc l - pc)") auto

declare sum_blocks.simps [simp del]

definition btreeComputeFreeSpace :: "BtShared \<Rightarrow> MemPage \<Rightarrow> MemPage \<times> int" where
  "btreeComputeFreeSpace pBt pPage =
     (let usable = usableSize pBt; hdr = hdrOffset pPage; data = aData pPage; ctop = get2byteNotZero data (hdr + 5);
          iCellFirst = hdr + 8 + childPtrSize pPage + 2 * nCell pPage; iCellLast = usable - 4;
          pc = get2byte data (hdr + 1); free = unat (data (hdr + 7)) + ctop;
          finish = (\<lambda>free. if free > usable \<or> free < iCellFirst then (pPage, SQLITE_CORRUPT)
                           else (pPage\<lparr>nFree := int ((free - iCellFirst) mod 65536)\<rparr>, SQLITE_OK))
      in if pc > 0 then
           if pc < ctop then (pPage, SQLITE_CORRUPT)
           else (case sum_blocks data iCellLast pc free of
              None \<Rightarrow> (pPage, SQLITE_CORRUPT)
            | Some (free, pc, sz, nxt) \<Rightarrow>
                if nxt > 0 then (pPage, SQLITE_CORRUPT)
                else if pc + sz > usable then (pPage, SQLITE_CORRUPT)
                else finish free)
         else finish free)"

definition btreeCellSizeCheck :: "BtShared \<Rightarrow> MemPage \<Rightarrow> int" where
  "btreeCellSizeCheck pBt pPage =
     (let iCellFirst = cellOffset pPage + 2 * nCell pPage; usable = usableSize pBt;
          iCellLast = (if leaf pPage then usable - 4 else usable - 5)
      in if list_all (\<lambda>i. let pc = get2byte (aData pPage) (cellOffset pPage + i * 2) in
              iCellFirst \<le> pc \<and> pc \<le> iCellLast \<and> pc + cell_size pBt pPage (aData pPage) pc \<le> usable) [0..<nCell pPage]
         then SQLITE_OK else SQLITE_CORRUPT)"

definition MX_CELL :: "BtShared \<Rightarrow> nat" where
  "MX_CELL pBt = (pageSize pBt - 8) div 6"

definition btreeInitPage :: "BtShared \<Rightarrow> MemPage \<Rightarrow> MemPage \<times> int" where
  "btreeInitPage pBt pPage =
     (let hdr = hdrOffset pPage; (pPage, rc) = decodeFlags pBt pPage (unat (aData pPage hdr)) in
      if rc \<noteq> SQLITE_OK then (pPage, SQLITE_CORRUPT)
      else
        let pPage = pPage\<lparr>maskPage := pageSize pBt - 1, ovfl := [], cellOffset := hdr + 8 + childPtrSize pPage,
                          nCell := get2byte (aData pPage) (hdr + 3)\<rparr> in
        if nCell pPage > MX_CELL pBt then (pPage, SQLITE_CORRUPT)
        else
          let pPage = pPage\<lparr>nFree := -1, isInit := True\<rparr> in
          (pPage, if cellSizeCk pBt then btreeCellSizeCheck pBt pPage else SQLITE_OK))"

definition zeroPage :: "BtShared \<Rightarrow> MemPage \<Rightarrow> nat \<Rightarrow> MemPage" where
  "zeroPage pBt pPage flags =
     (let data = aData pPage; hdr = hdrOffset pPage;
          data = (if fastSecure pBt then memset data hdr 0 (usableSize pBt - hdr) else data);
          data = data(hdr := of_nat flags);
          first = hdr + (if flags AND PTF_LEAF = 0 then 12 else 8);
          data = memset data (hdr + 1) 0 4;
          data = data(hdr + 7 := 0);
          data = put2byte data (hdr + 5) (usableSize pBt);
          (pPage, rc) = decodeFlags pBt (pPage\<lparr>aData := data, nFree := int ((usableSize pBt - first) mod 65536)\<rparr>) flags
      in pPage\<lparr>cellOffset := first, ovfl := [], maskPage := (pageSize pBt - 1) mod 65536, nCell := 0, isInit := True\<rparr>)"

section \<open>Cells\<close>

definition dropCell :: "BtShared \<Rightarrow> MemPage \<Rightarrow> nat \<Rightarrow> nat \<Rightarrow> int \<Rightarrow> MemPage \<times> int" where
  "dropCell pBt pPage idx sz pRC =
     (if pRC \<noteq> SQLITE_OK then (pPage, pRC)
      else
        let ptr = cellOffset pPage + 2 * idx; pc = get2byte (aData pPage) ptr; hdr = hdrOffset pPage in
        if pc + sz > usableSize pBt then (pPage, SQLITE_CORRUPT)
        else
          let (pPage, rc) = freeSpace pBt pPage pc sz in
          if rc \<noteq> SQLITE_OK then (pPage, rc)
          else
            let pPage = pPage\<lparr>nCell := nCell pPage - 1\<rparr>; data = aData pPage in
            if nCell pPage = 0 then
              (pPage\<lparr>aData := put2byte ((memset data (hdr + 1) 0 4)(hdr + 7 := 0)) (hdr + 5) (usableSize pBt),
                     nFree := int (usableSize pBt) - int (hdrOffset pPage) - int (childPtrSize pPage) - 8\<rparr>, SQLITE_OK)
            else
              (pPage\<lparr>aData := put2byte (memmove data ptr data (ptr + 2) (2 * (nCell pPage - idx))) (hdr + 3) (nCell pPage),
                     nFree := nFree pPage + 2\<rparr>, SQLITE_OK))"

text \<open>The common tail of \<^verbatim>\<open>insertCell\<close> and \<^verbatim>\<open>insertCellFast\<close>: the cell pointer and the cell count.\<close>

definition insert_ptr :: "MemPage \<Rightarrow> nat \<Rightarrow> nat \<Rightarrow> MemPage" where
  "insert_ptr pPage i idx =
     (let pIns = cellOffset pPage + 2 * i; hdr = hdrOffset pPage; data = aData pPage;
          data = memmove data (pIns + 2) data pIns (2 * (nCell pPage - i));
          data = put2byte data pIns idx;
          data = data(hdr + 4 := data (hdr + 4) + 1);
          data = (if data (hdr + 4) = 0 then data(hdr + 3 := data (hdr + 3) + 1) else data)
      in pPage\<lparr>aData := data, nCell := nCell pPage + 1\<rparr>)"

definition insertCell :: "BtShared \<Rightarrow> pager_pages \<Rightarrow> bool \<Rightarrow> MemPage \<Rightarrow> nat \<Rightarrow> bytes \<Rightarrow> u32 \<Rightarrow> MemPage \<times> pager_pages \<times> int" where
  "insertCell pBt pp past_end pPage i pCell iChild =
     (let sz = length pCell; child = map (put4byte (mem_of pCell) 0 iChild) [0..<sz] in
      if ovfl pPage \<noteq> [] \<or> int sz + 2 > nFree pPage then (pPage\<lparr>ovfl := ovfl pPage @ [(i mod 65536, child)]\<rparr>, pp, SQLITE_OK)
      else
        let (rc, pp) = next_rc pp in
        if rc \<noteq> SQLITE_OK then (pPage, pp, rc)
        else
          let (pPage, idx, rc) = allocateSpace pBt pPage sz in
          if rc \<noteq> SQLITE_OK then (pPage, pp, rc)
          else
            let pPage = pPage\<lparr>nFree := nFree pPage - int ((2 + sz) mod 65536)\<rparr>;
                data = put4byte (memmove (aData pPage) (idx + 4) (mem_of pCell) 4 (sz - 4)) idx iChild;
                pPage = insert_ptr (pPage\<lparr>aData := data\<rparr>) i idx
            in if autoVacuum pBt
               then (let (pp, rc2) = ptrmapPutOvflPtr pBt pp pPage past_end (mem_of pCell) 0 SQLITE_OK in (pPage, pp, rc2))
               else (pPage, pp, SQLITE_OK))"

definition insertCellFast :: "BtShared \<Rightarrow> pager_pages \<Rightarrow> bool \<Rightarrow> MemPage \<Rightarrow> nat \<Rightarrow> bytes \<Rightarrow> MemPage \<times> pager_pages \<times> int" where
  "insertCellFast pBt pp past_end pPage i pCell =
     (let sz = length pCell in
      if int sz + 2 > nFree pPage then (pPage\<lparr>ovfl := ovfl pPage @ [(i mod 65536, pCell)]\<rparr>, pp, SQLITE_OK)
      else
        let (rc, pp) = next_rc pp in
        if rc \<noteq> SQLITE_OK then (pPage, pp, rc)
        else
          let (pPage, idx, rc) = allocateSpace pBt pPage sz in
          if rc \<noteq> SQLITE_OK then (pPage, pp, rc)
          else
            let pPage = pPage\<lparr>nFree := nFree pPage - int ((2 + sz) mod 65536)\<rparr>;
                pPage = insert_ptr (pPage\<lparr>aData := memmove (aData pPage) idx (mem_of pCell) 0 sz\<rparr>) i idx
            in if autoVacuum pBt
               then (let (pp, rc2) = ptrmapPutOvflPtr pBt pp pPage past_end (mem_of pCell) 0 SQLITE_OK in (pPage, pp, rc2))
               else (pPage, pp, SQLITE_OK))"

end
