(* ===== verification/Btree_Space.thy ===== *)
theory Btree_Space
  imports Btree_Page "HOL-Library.Multiset"
begin

text \<open>
  The invariant of a b-tree page and that allocating and freeing keep it: cells, free blocks and reserved
  regions are disjoint, together with the fragment bytes they fill the content area, and the list
  of free blocks is ascending.
\<close>

section \<open>Two-byte integers in memory\<close>

lemma get2byte_less: "get2byte d i < 65536"
  using unat_u8_less [of "d i"] unat_u8_less [of "d (i + 1)"] by (simp add: get2byte_def)

lemma unat_of_nat_u8: "unat (of_nat n :: u8) = n mod 256"
  by (simp add: unat_of_nat)

lemma get2byte_put2byte: "v < 65536 \<Longrightarrow> get2byte (put2byte d i v) i = v"
  by (simp add: get2byte_def put2byte_def unat_of_nat_u8)

lemma put2byte_other: "k < i \<or> i + 2 \<le> k \<Longrightarrow> put2byte d i v k = d k"
  by (auto simp: put2byte_def)

lemma get2byte_cong: "d' i = d i \<Longrightarrow> d' (i + 1) = d (i + 1) \<Longrightarrow> get2byte d' i = get2byte d i"
  by (simp add: get2byte_def)

lemma get2byte_put2byte_other: "k + 2 \<le> i \<or> i + 2 \<le> k \<Longrightarrow> get2byte (put2byte d i v) k = get2byte d k"
  by (rule get2byte_cong) (auto simp: put2byte_other)

lemma get2byte_0: "get2byte d i = 0 \<longleftrightarrow> d i = 0 \<and> d (i + 1) = 0"
  by (auto simp: get2byte_def unat_eq_0)

lemma get2byteNotZero_put: "0 < v \<Longrightarrow> v \<le> 65536 \<Longrightarrow> get2byteNotZero (put2byte d i v) i = v"
proof (cases "v = 65536")
  case True
  then show ?thesis by (simp add: get2byteNotZero_def get2byte_def put2byte_def unat_of_nat_u8)
next
  case False
  moreover assume "0 < v" "v \<le> 65536"
  ultimately show ?thesis by (cases v) (simp_all add: get2byteNotZero_def get2byte_put2byte)
qed

lemma get2byteNotZero_less: "get2byteNotZero d i \<noteq> 65536 \<Longrightarrow> get2byte d i = get2byteNotZero d i"
  using get2byte_less [of d i] by (cases "get2byte d i") (simp_all add: get2byteNotZero_def)

lemma notZero_cong: "d' i = d i \<Longrightarrow> d' (i + 1) = d (i + 1) \<Longrightarrow> get2byteNotZero d' i = get2byteNotZero d i"
  by (simp add: get2byteNotZero_def get2byte_def)

lemma top_same: "d' (h + 5) = d (h + 5) \<Longrightarrow> d' (h + 6) = d (h + 6) \<Longrightarrow> get2byteNotZero d' (h + 5) = get2byteNotZero d (h + 5)"
  by (rule notZero_cong) (simp_all add: add.commute)

lemma get2byteNotZero_pos: "0 < get2byteNotZero d i" "get2byteNotZero d i \<le> 65536"
  by (simp_all add: get2byteNotZero_def Suc_le_eq)

section \<open>Disjoint regions\<close>

type_synonym region = "nat \<times> nat"

fun span :: "region \<Rightarrow> nat set" where
  "span (s, z) = {s..<s + z}"

definition cover :: "region list \<Rightarrow> nat set" where
  "cover rs = (\<Union>r \<in> set rs. span r)"

fun tot :: "region list \<Rightarrow> nat" where
  "tot [] = 0"
| "tot ((s, z) # rs) = z + tot rs"

fun tiles :: "region list \<Rightarrow> bool" where
  "tiles [] = True"
| "tiles (r # rs) \<longleftrightarrow> span r \<inter> cover rs = {} \<and> tiles rs"

lemma cover_simps [simp]: "cover [] = {}" "cover (r # rs) = span r \<union> cover rs" "cover (rs @ ss) = cover rs \<union> cover ss"
  by (auto simp: cover_def)

lemma finite_cover [simp]: "finite (cover rs)"
  by (induction rs rule: tot.induct) auto

lemma tot_append [simp]: "tot (rs @ ss) = tot rs + tot ss"
  by (induction rs rule: tot.induct) auto

lemma tiles_append [simp]: "tiles (rs @ ss) \<longleftrightarrow> tiles rs \<and> tiles ss \<and> cover rs \<inter> cover ss = {}"
  by (induction rs) auto

lemma card_cover: "tiles rs \<Longrightarrow> card (cover rs) = tot rs"
  by (induction rs rule: tot.induct) (auto simp: card_Un_disjoint)

text \<open>The regions fill an interval up to the fragment bytes.\<close>

definition layout :: "nat \<Rightarrow> nat \<Rightarrow> region list \<Rightarrow> nat \<Rightarrow> bool" where
  "layout ctop usable rs frag \<longleftrightarrow> tiles rs \<and> cover rs \<subseteq> {ctop..<usable} \<and> ctop \<le> usable \<and> tot rs + frag = usable - ctop"

lemma card_cover_le: "card (cover rs) \<le> tot rs"
proof (induction rs rule: tot.induct)
  case (2 s z rs)
  then show ?case using card_Un_le [of "{s..<s + z}" "cover rs"] by simp
qed simp

lemma tiles_iff_card: "tiles rs \<longleftrightarrow> card (cover rs) = tot rs"
proof (induction rs rule: tot.induct)
  case (2 s z rs)
  have "card ({s..<s + z} \<union> cover rs) + card ({s..<s + z} \<inter> cover rs) = z + card (cover rs)"
    using card_Un_Int [of "{s..<s + z}" "cover rs"] by simp
  moreover have "card ({s..<s + z} \<inter> cover rs) = 0 \<longleftrightarrow> {s..<s + z} \<inter> cover rs = {}" by simp
  ultimately show ?case using 2 card_cover_le [of rs] by (simp only: tiles.simps span.simps cover_simps tot.simps) linarith
qed simp

lemma tot_sum: "tot rs = sum_list (map snd rs)"
  by (induction rs rule: tot.induct) auto

lemma layout_mset: "mset rs = mset rs' \<Longrightarrow> layout ctop usable rs f \<longleftrightarrow> layout ctop usable rs' f"
proof -
  assume m: "mset rs = mset rs'"
  have "cover rs = cover rs'" using mset_eq_setD [OF m] by (simp add: cover_def)
  moreover have "mset (map snd rs) = mset (map snd rs')" using m by simp
  then have "tot rs = tot rs'" unfolding tot_sum by (metis sum_mset_sum_list)
  ultimately show ?thesis by (simp add: layout_def tiles_iff_card)
qed

lemma layout_replace:
  assumes "layout c u (X @ Y) f" "cover N \<subseteq> cover X" "tiles N" "tot N + g = tot X"
  shows "layout c u (N @ Y) (f + g)"
  using assms by (auto simp: layout_def)

lemma layout_join:
  assumes "layout c u (M @ Y) f" "span N \<inter> cover Y = {}" "span N \<subseteq> {c..<u}" "tot M + g = snd N" "g \<le> f"
  shows "layout c u (N # Y) (f - g)"
  using assms by (cases N) (auto simp: layout_def)

lemma layout_raise:
  assumes "layout c u (M @ Y) f" "cover Y \<subseteq> {e..<u}" "c \<le> e" "e \<le> u" "tot M + g = e - c" "g \<le> f"
  shows "layout e u Y (f - g)"
  using assms by (auto simp: layout_def)

text \<open>No region of at least four bytes fits between two others that are at most three bytes apart.\<close>

lemma gap_free:
  assumes "{a..<b} \<inter> {p..<p + l} = {}" "{c..<e} \<inter> {p..<p + l} = {}" "a < b" "c < e" "b \<le> c" "c \<le> b + 3" "(4::nat) \<le> l"
  shows "{b..<c} \<inter> {p..<p + l} = {}"
proof (rule ccontr)
  assume "{b..<c} \<inter> {p..<p + l} \<noteq> {}"
  then obtain x where "x \<in> {b..<c} \<inter> {p..<p + l}" by blast
  then have x: "b \<le> x" "x < c" "p \<le> x" "x < p + l" by simp_all
  have "b - 1 \<notin> {p..<p + l}" "c \<notin> {p..<p + l}" using assms by auto
  then have "b \<le> p" "p + l \<le> c" using x assms(3) by auto
  then show False using assms(6,7) by simp
qed

lemma layout_hole:
  assumes "layout ctop usable rs frag" "tiles (hs @ rs)" "cover hs \<subseteq> {ctop..<usable}"
  shows "tot hs \<le> frag"
proof -
  have "card (cover (hs @ rs)) \<le> card {ctop..<usable}" using assms by (intro card_mono) (auto simp: layout_def)
  then show ?thesis using card_cover [OF assms(2)] assms(1) by (simp add: layout_def)
qed

section \<open>The list of free blocks\<close>

fun links :: "mem \<Rightarrow> nat \<Rightarrow> region list \<Rightarrow> bool" where
  "links d a [] = True"
| "links d a ((s, z) # fs) \<longleftrightarrow> get2byte d a = s \<and> get2byte d (s + 2) = z \<and> links d s fs"

definition last_addr :: "nat \<Rightarrow> region list \<Rightarrow> nat" where
  "last_addr a fs = (if fs = [] then a else fst (last fs))"

definition first_block :: "region list \<Rightarrow> nat" where
  "first_block fs = (case fs of [] \<Rightarrow> 0 | (s, z) # _ \<Rightarrow> s)"

definition chain :: "mem \<Rightarrow> nat \<Rightarrow> region list \<Rightarrow> bool" where
  "chain d a fs \<longleftrightarrow> links d a fs \<and> get2byte d (last_addr a fs) = 0"

lemma last_addr_simps [simp]: "last_addr a [] = a" "last_addr a ((s, z) # fs) = last_addr s fs" "last_addr a (fs @ gs) = last_addr (last_addr a fs) gs"
  by (auto simp: last_addr_def)

lemma first_block_simps [simp]: "first_block [] = 0" "first_block ((s, z) # fs) = s"
  by (simp_all add: first_block_def)

lemma links_append [simp]: "links d a (fs @ gs) \<longleftrightarrow> links d a fs \<and> links d (last_addr a fs) gs"
  by (induction d a fs rule: links.induct) auto

lemma chain_append: "chain d a (fs @ gs) \<longleftrightarrow> links d a fs \<and> chain d (last_addr a fs) gs"
  by (auto simp: chain_def)

lemma chain_simps: "chain d a [] \<longleftrightarrow> get2byte d a = 0" "chain d a ((s, z) # fs) \<longleftrightarrow> get2byte d a = s \<and> get2byte d (s + 2) = z \<and> chain d s fs"
  by (auto simp: chain_def)

lemma chain_first: "chain d a fs \<Longrightarrow> get2byte d a = first_block fs"
  by (cases fs) (auto simp: chain_def)

fun ascending :: "nat \<Rightarrow> nat \<Rightarrow> region list \<Rightarrow> bool" where
  "ascending lo usable [] = True"
| "ascending lo usable ((s, z) # fs) \<longleftrightarrow> lo \<le> s \<and> 4 \<le> z \<and> s + z \<le> usable \<and> ascending (s + z + 4) usable fs"

lemma ascending_mono: "ascending lo usable fs \<Longrightarrow> lo' \<le> lo \<Longrightarrow> ascending lo' usable fs"
  by (cases fs) auto

definition end_of :: "nat \<Rightarrow> region list \<Rightarrow> nat" where
  "end_of lo fs = (if fs = [] then lo else fst (last fs) + snd (last fs) + 4)"

lemma end_of_simps [simp]: "end_of lo [] = lo" "end_of lo ((s, z) # fs) = end_of (s + z + 4) fs"
  by (auto simp: end_of_def)

lemma ascending_append [simp]: "ascending lo usable (fs @ gs) \<longleftrightarrow> ascending lo usable fs \<and> ascending (end_of lo fs) usable gs"
  by (induction fs arbitrary: lo rule: tot.induct) auto

lemma ascending_range: "ascending lo usable fs \<Longrightarrow> (s, z) \<in> set fs \<Longrightarrow> lo \<le> s \<and> 4 \<le> z \<and> s + z \<le> usable"
  by (induction lo usable fs rule: ascending.induct) auto

lemma end_of_ge: "ascending lo usable fs \<Longrightarrow> lo \<le> end_of lo fs"
  by (induction lo usable fs rule: ascending.induct) auto

lemma ascending_end: "ascending lo usable fs \<Longrightarrow> (s, z) \<in> set fs \<Longrightarrow> s + z + 4 \<le> end_of lo fs"
  by (induction lo usable fs rule: ascending.induct) (auto dest: end_of_ge)

lemma ascending_tiles: "ascending lo usable fs \<Longrightarrow> tiles fs \<and> cover fs \<subseteq> {lo..<usable}"
  by (induction lo usable fs rule: ascending.induct) force+

text \<open>Writing elsewhere keeps the list.\<close>

lemma links_cong:
  "links d a fs \<Longrightarrow> fs = [] \<or> (d' a = d a \<and> d' (a + 1) = d (a + 1)) \<Longrightarrow> \<forall>(s, z) \<in> set fs. \<forall>i < 4. d' (s + i) = d (s + i) \<Longrightarrow> links d' a fs"
proof (induction d a fs rule: links.induct)
  case (2 d a s z fs)
  then have "\<And>i. i < 4 \<Longrightarrow> d' (s + i) = d (s + i)" by simp
  from this [of 0] this [of 1] this [of 2] this [of 3]
  have s: "d' s = d s" "d' (s + 1) = d (s + 1)" "d' (s + 2) = d (s + 2)" "d' (s + 2 + 1) = d (s + 2 + 1)" by (simp_all add: eval_nat_numeral)
  have "links d' s fs" using 2 s by simp
  then show ?case using 2 s get2byte_cong [of d' a d] get2byte_cong [of d' "s + 2" d] by simp
qed simp

section \<open>The invariant\<close>

definition page_static :: "BtShared \<Rightarrow> MemPage \<Rightarrow> bool" where
  "page_static pBt pg \<longleftrightarrow> methods_ok pBt pg \<and> hdrOffset pg \<in> {0, 100} \<and> cellOffset pg = hdrOffset pg + 8 + childPtrSize pg"

abbreviation regs :: "(nat \<times> bytes) list \<Rightarrow> region list" where
  "regs \<equiv> map (\<lambda>(p, c). (p, length c))"

definition stored :: "mem \<Rightarrow> (nat \<times> bytes) list \<Rightarrow> bool" where
  "stored d cs \<longleftrightarrow> (\<forall>(p, c) \<in> set cs. \<forall>k < length c. d (p + k) = c ! k)"

text \<open>The content area holds the cells \<open>cs\<close>, reserved regions \<open>R\<close> and the free blocks \<open>fs\<close>.\<close>

definition space :: "BtShared \<Rightarrow> MemPage \<Rightarrow> (nat \<times> bytes) list \<Rightarrow> region list \<Rightarrow> nat \<Rightarrow> region list \<Rightarrow> bool" where
  "space pBt pg cs R ctop fs \<longleftrightarrow>
     page_static pBt pg \<and> ctop = get2byteNotZero (aData pg) (hdrOffset pg + 5) \<and> cellOffset pg + 2 * nCell pg \<le> ctop \<and>
     stored (aData pg) cs \<and> (\<forall>c \<in> snd ` set cs. cell_ok pBt pg c) \<and>
     chain (aData pg) (hdrOffset pg + 1) fs \<and> ascending (ctop + 1) (usableSize pBt) fs \<and>
     layout ctop (usableSize pBt) (regs cs @ R @ fs) (unat (aData pg (hdrOffset pg + 7)))"

lemma stored_cong: "stored d cs \<Longrightarrow> (\<And>i. i \<in> cover (regs cs) \<Longrightarrow> d' i = d i) \<Longrightarrow> stored d' cs"
proof -
  assume s: "stored d cs" and a: "\<And>i. i \<in> cover (regs cs) \<Longrightarrow> d' i = d i"
  have "d' (p + k) = c ! k" if "(p, c) \<in> set cs" "k < length c" for p c k
  proof -
    have "p + k \<in> cover (regs cs)" using that by (force simp: cover_def)
    then show ?thesis using a s that by (auto simp: stored_def)
  qed
  then show ?thesis by (auto simp: stored_def)
qed

lemma methods_aData [simp]: "methods_ok pBt (pg\<lparr>aData := d\<rparr>) = methods_ok pBt pg" "methods_ok pBt (pg\<lparr>nFree := n\<rparr>) = methods_ok pBt pg"
  "methods_ok pBt (pg\<lparr>nCell := k\<rparr>) = methods_ok pBt pg" "methods_ok pBt (pg\<lparr>ovfl := q\<rparr>) = methods_ok pBt pg"
  unfolding methods_ok_def by (simp_all cong: cell_size_method.case_cong)

lemma static_aData [simp]: "page_static pBt (pg\<lparr>aData := d\<rparr>) = page_static pBt pg" "page_static pBt (pg\<lparr>nFree := n\<rparr>) = page_static pBt pg"
  "page_static pBt (pg\<lparr>nCell := k\<rparr>) = page_static pBt pg" "page_static pBt (pg\<lparr>ovfl := q\<rparr>) = page_static pBt pg"
  by (simp_all add: page_static_def)

lemma surplus_cong: "minLocal pg' = minLocal pg \<Longrightarrow> surplus_of pBt pg' n = surplus_of pBt pg n"
  by (simp add: surplus_of_def)

lemma cell_size_cong:
  "xCellSize pg' = xCellSize pg \<Longrightarrow> maxLocal pg' = maxLocal pg \<Longrightarrow> minLocal pg' = minLocal pg \<Longrightarrow> cell_size pBt pg' d p = cell_size pBt pg d p"
proof -
  assume m: "maxLocal pg' = maxLocal pg" "minLocal pg' = minLocal pg" and x: "xCellSize pg' = xCellSize pg"
  have "size_overflow pBt pg' = size_overflow pBt pg" by (intro ext) (simp add: size_overflow_def surplus_of_def m Let_def)
  then show ?thesis by (simp only: cell_size_def cellSizePtr_def cellSizePtrIdxLeaf_def cellSizePtrTableLeaf_def m x)
qed

lemma cell_ok_aData [simp]: "cell_ok pBt (pg\<lparr>aData := d\<rparr>) c = cell_ok pBt pg c" "cell_ok pBt (pg\<lparr>nFree := n\<rparr>) c = cell_ok pBt pg c"
  "cell_ok pBt (pg\<lparr>nCell := k\<rparr>) c = cell_ok pBt pg c" "cell_ok pBt (pg\<lparr>ovfl := q\<rparr>) c = cell_ok pBt pg c"
  by (simp_all add: cell_ok_def cell_size_cong [of "pg\<lparr>aData := d\<rparr>" pg] cell_size_cong [of "pg\<lparr>nFree := n\<rparr>" pg]
      cell_size_cong [of "pg\<lparr>nCell := k\<rparr>" pg] cell_size_cong [of "pg\<lparr>ovfl := q\<rparr>" pg])

lemma usable_bounds: "page_static pBt pg \<Longrightarrow> 480 \<le> usableSize pBt \<and> usableSize pBt \<le> 65536 \<and> hdrOffset pg + 8 \<le> cellOffset pg \<and> cellOffset pg \<le> 112"
  by (auto simp: page_static_def methods_ok_def bt_ok_def)

section \<open>Allocation from the list of free blocks\<close>

definition slot_taken :: "nat \<Rightarrow> nat \<Rightarrow> mem \<Rightarrow> nat \<Rightarrow> region \<Rightarrow> nat \<Rightarrow> mem \<Rightarrow> bool" where
  "slot_taken hdr nByte d a f idx d' \<longleftrightarrow>
     (case f of (s, z) \<Rightarrow> nByte \<le> z \<and>
       (if z - nByte < 4
        then \<not> d (hdr + 7) > 57 \<and> idx = s \<and>
          d' = (let e = d(a := d s, a + 1 := d (s + 1)) in e(hdr + 7 := e (hdr + 7) + of_nat (z - nByte)))
        else idx = s + (z - nByte) \<and> d' = put2byte d (s + 2) (z - nByte)))"

lemma find_slot_spec:
  assumes "chain d iAddr fs" "ascending lo usable fs" "fs \<noteq> []" "find_slot hdr usable nByte d iAddr (first_block fs) = (d', slot, rc)"
  shows "rc = SQLITE_OK \<and> (slot = None \<and> d' = d \<or> (\<exists>A f B idx. slot = Some idx \<and> fs = A @ f # B \<and> slot_taken hdr nByte d (last_addr iAddr A) f idx d'))"
  using assms
proof (induction fs arbitrary: iAddr lo)
  case (Cons f fs)
  obtain s z where f: "f = (s, z)" by (cases f)
  have c: "get2byte d (s + 2) = z" "chain d s fs" "get2byte d s = first_block fs" using Cons.prems(1) chain_first [of d s fs] by (simp_all add: f chain_simps)
  have a: "4 \<le> z" "s + z \<le> usable" "ascending (s + z + 4) usable fs" using Cons.prems(2) f by simp_all
  note e = Cons.prems(4) [unfolded f first_block_simps find_slot.simps [of hdr usable nByte d iAddr s] c(1,3) Let_def]
  consider (far) "\<not> s + nByte \<le> usable" | (fits) "s + nByte \<le> usable" "nByte \<le> z" | (small) "s + nByte \<le> usable" "\<not> nByte \<le> z" by blast
  then show ?case
  proof cases
    case far
    then show ?thesis using e a by auto
  next
    case fits
    have n: "\<not> z - nByte + s + nByte > usable" using a fits by simp
    have "rc = SQLITE_OK \<and> (slot = None \<and> d' = d \<or> (\<exists>idx. slot = Some idx \<and> slot_taken hdr nByte d iAddr (s, z) idx d'))"
    proof (cases "z - nByte < 4")
      case True
      then show ?thesis using e fits by (cases "d (hdr + 7) > 57") (auto simp: slot_taken_def Let_def)
    next
      case False
      then show ?thesis using e fits n by (simp add: slot_taken_def)
    qed
    moreover have "f # fs = [] @ (s, z) # fs" "last_addr iAddr [] = iAddr" using f by simp_all
    ultimately show ?thesis by metis
  next
    case small
    show ?thesis
    proof (cases "fs = []")
      case True
      then show ?thesis using e small by simp
    next
      case False
      then have "s < first_block fs" using a(3) by (cases fs) auto
      then have r: "find_slot hdr usable nByte d s (first_block fs) = (d', slot, rc)" using e small by simp
      have "f # A @ g # B = (f # A) @ g # B" "last_addr iAddr (f # A) = last_addr s A" for A g B using f by simp_all
      then show ?thesis using Cons.IH [OF c(2) a(3) False r] by metis
    qed
  qed
qed simp

text \<open>Taking a slot: the free block disappears or shrinks, its end becomes the reserved region.\<close>

lemma static_facts:
  assumes "space pBt pg cs R ctop fs"
  shows "hdrOffset pg + 8 \<le> ctop" "ctop \<le> usableSize pBt" "usableSize pBt \<le> 65536" "480 \<le> usableSize pBt"
  using assms usable_bounds [of pBt pg] by (auto simp: space_def layout_def)

text \<open>Changing the list at one place.\<close>

lemma chain_move:
  assumes "chain d a B" "get2byte d' a' = first_block B" "\<forall>(s, z) \<in> set B. \<forall>i < 4. d' (s + i) = d (s + i)"
  shows "chain d' a' B"
proof (cases B)
  case (Cons f B')
  obtain s z where f: "f = (s, z)" by (cases f)
  have h: "d' (s + i) = d (s + i)" if "i < 4" for i using assms(3) that Cons f by simp
  have "links d' s B'"
  proof (rule links_cong)
    show "links d s B'" using assms(1) Cons f by (simp add: chain_def)
    show "B' = [] \<or> d' s = d s \<and> d' (s + 1) = d (s + 1)" using h [of 0] h [of 1] by simp
    show "\<forall>(s, z) \<in> set B'. \<forall>i < 4. d' (s + i) = d (s + i)" using assms(3) Cons by auto
  qed
  moreover have "get2byte d' (last_addr s B') = get2byte d (last_addr s B')"
  proof -
    have "(last_addr s B', snd (last (f # B'))) \<in> set (f # B')" using f by (cases "B' = []") (auto simp: last_addr_def)
    then have l: "d' (last_addr s B' + i) = d (last_addr s B' + i)" if "i < 4" for i using assms(3) that Cons by (metis (mono_tags, lifting) case_prodD)
    then show ?thesis using l [of 0] l [of 1] by (intro get2byte_cong) simp_all
  qed
  moreover have "get2byte d' (s + 2) = get2byte d (s + 2)" using h [of 2] h [of 3] by (intro get2byte_cong) (simp_all add: eval_nat_numeral)
  ultimately show ?thesis using assms(1,2) Cons f by (simp add: chain_def)
qed (use assms in \<open>simp add: chain_def\<close>)

lemma links_relink:
  assumes "links d a A" "ascending lo u A" "a + 2 \<le> lo"
    and "\<And>i. i \<notin> {last_addr a A, last_addr a A + 1} \<Longrightarrow> i \<notin> W \<Longrightarrow> d' i = d i"
    and "a \<notin> W" "a + 1 \<notin> W" "W \<inter> cover A = {}"
  shows "links d' a A"
  using assms
proof (induction d a A arbitrary: lo rule: links.induct)
  case (2 d a s z A)
  have asc: "lo \<le> s" "4 \<le> z" "ascending (s + z + 4) u A" using "2.prems"(2) by simp_all
  have l: "s \<le> last_addr s A"
  proof (cases "A = []")
    case False
    then have "(fst (last A), snd (last A)) \<in> set A" by simp
    from ascending_range [OF asc(3) this] show ?thesis using False by (simp add: last_addr_def)
  qed simp
  have in_s: "s \<in> cover ((s, z) # A)" "s + 1 \<in> cover ((s, z) # A)" "s + 2 \<in> cover ((s, z) # A)" "s + 3 \<in> cover ((s, z) # A)" using asc(2) by auto
  then have w: "s \<notin> W" "s + 1 \<notin> W" "s + 2 \<notin> W" "s + 3 \<notin> W" using "2.prems"(7) by blast+
  have far: "last_addr s A = s \<or> s + 4 \<le> last_addr s A"
  proof (cases "A = []")
    case False
    then have "(fst (last A), snd (last A)) \<in> set A" by simp
    from ascending_range [OF asc(3) this] show ?thesis using False by (simp add: last_addr_def)
  qed simp
  have "get2byte d' a = get2byte d a" using "2.prems"(3,5,6) asc(1) l by (intro get2byte_cong "2.prems"(4)) auto
  moreover have "get2byte d' (s + 2) = get2byte d (s + 2)" using w far by (intro get2byte_cong "2.prems"(4)) (auto simp: eval_nat_numeral)
  moreover have "links d' s A"
  proof (rule "2.IH")
    show "links d s A" using "2.prems"(1) by simp
    show "ascending (s + z + 4) u A" by (rule asc)
    show "s + 2 \<le> s + z + 4" by simp
    show "W \<inter> cover A = {}" using "2.prems"(7) by auto
    show "d' i = d i" if "i \<notin> {last_addr s A, last_addr s A + 1}" "i \<notin> W" for i using "2.prems"(4) [of i] that by simp
  qed (use w in auto)
  ultimately show ?case using "2.prems"(1) by simp
qed simp

text \<open>The addresses of the list: the header or a free block.\<close>

lemma last_addr_place: "ascending lo u A \<Longrightarrow> last_addr a A = a \<and> A = [] \<or> last_addr a A \<in> cover A \<and> last_addr a A + 1 \<in> cover A \<and> lo \<le> last_addr a A"
proof (cases "A = []")
  case False
  assume a: "ascending lo u A"
  obtain s z where l: "last A = (s, z)" by (cases "last A")
  then have m: "(s, z) \<in> set A" using False by (metis last_in_set)
  from ascending_range [OF a m] have "s \<in> span (s, z)" "s + 1 \<in> span (s, z)" "lo \<le> s" by simp_all
  moreover have "span (s, z) \<subseteq> cover A" using m by (auto simp only: cover_def)
  ultimately show ?thesis using False l by (auto simp only: last_addr_def fst_conv if_False)
qed simp

lemma block_bytes: "ascending lo u B \<Longrightarrow> (s, z) \<in> set B \<Longrightarrow> i < 4 \<Longrightarrow> s + i \<in> cover B"
  by (force simp: cover_def dest: ascending_range)

lemma space_upd:
  assumes "space pBt pg cs R ctop fs" "get2byteNotZero d' (hdrOffset pg + 5) = ctop'" "cellOffset pg + 2 * nCell pg \<le> ctop'"
    "\<And>i. i \<in> cover (regs cs) \<Longrightarrow> d' i = aData pg i" "chain d' (hdrOffset pg + 1) fs'" "ascending (ctop' + 1) (usableSize pBt) fs'"
    "layout ctop' (usableSize pBt) (regs cs @ R' @ fs') (unat (d' (hdrOffset pg + 7)))"
  shows "space pBt (pg\<lparr>aData := d'\<rparr>) cs R' ctop' fs'"
proof -
  have "stored (aData pg) cs" using assms(1) by (simp add: space_def)
  then have "stored d' cs" by (rule stored_cong) (rule assms(4))
  moreover have "page_static pBt pg" "\<forall>c \<in> snd ` set cs. cell_ok pBt pg c" using assms(1) by (simp_all add: space_def)
  ultimately show ?thesis using assms(2,3,5,6,7) unfolding space_def by simp
qed

text \<open>The parts of the invariant that the proofs below use.\<close>

lemma space_parts:
  assumes "space pBt pg cs R ctop fs"
  shows "ctop = get2byteNotZero (aData pg) (hdrOffset pg + 5)" "cellOffset pg + 2 * nCell pg \<le> ctop" "hdrOffset pg + 8 \<le> cellOffset pg"
    "chain (aData pg) (hdrOffset pg + 1) fs" "ascending (ctop + 1) (usableSize pBt) fs" "cover fs \<subseteq> {ctop + 1..<usableSize pBt}"
    "layout ctop (usableSize pBt) (regs cs @ R @ fs) (unat (aData pg (hdrOffset pg + 7)))"
    "cover (regs cs) \<inter> cover fs = {}" "cover (regs cs) \<subseteq> {ctop..<usableSize pBt}"
  using assms usable_bounds [of pBt pg] ascending_tiles [of "ctop + 1" "usableSize pBt" fs] by (auto simp: space_def layout_def)

lemma list_addr:
  assumes "space pBt pg cs R ctop (A @ C)"
  shows "last_addr (hdrOffset pg + 1) A = hdrOffset pg + 1 \<or> last_addr (hdrOffset pg + 1) A \<in> cover A \<and> last_addr (hdrOffset pg + 1) A + 1 \<in> cover A"
  using last_addr_place [of "ctop + 1" "usableSize pBt" A "hdrOffset pg + 1"] space_parts(5) [OF assms] by auto

lemma slot_shrink:
  assumes sp: "space pBt pg cs [] ctop (A @ (s, z) # B)" and x: "4 \<le> x" "z = x + nByte" "0 < nByte" and d': "d' = put2byte (aData pg) (s + 2) x"
  shows "space pBt (pg\<lparr>aData := d'\<rparr>) cs [(s + x, nByte)] ctop (A @ (s, x) # B)"
proof -
  let ?h = "hdrOffset pg" and ?d = "aData pg" and ?u = "usableSize pBt" and ?a = "last_addr (hdrOffset pg + 1) A"
  note P = space_parts [OF sp]
  have til: "tiles (A @ (s, z) # B)" using P(7) by (simp add: layout_def)
  have ch: "links ?d (?h + 1) A" "get2byte ?d ?a = s" "get2byte ?d (s + 2) = z" "chain ?d s B" using P(4) by (simp_all add: chain_append chain_simps)
  have x16: "x < 65536" using ch(3) get2byte_less [of ?d "s + 2"] x by simp
  have same: "d' i = ?d i" if "i \<notin> {s + 2, s + 3}" for i using that unfolding d' by (intro put2byte_other) auto
  have in_s: "s \<in> span (s, z)" "s + 1 \<in> span (s, z)" "s + 2 \<in> span (s, z)" "s + 3 \<in> span (s, z)" using x by simp_all
  then have lo: "ctop + 1 \<le> s" using P(6) by auto
  have notA: "s + 2 \<notin> cover A" "s + 3 \<notin> cover A" and notB: "s + 2 \<notin> cover B" "s + 3 \<notin> cover B" and notC: "s + 2 \<notin> cover (regs cs)" "s + 3 \<notin> cover (regs cs)"
  proof -
    have "span (s, z) \<inter> cover A = {}" "span (s, z) \<inter> cover B = {}" "span (s, z) \<inter> cover (regs cs) = {}" using til P(8) by auto
    then show "s + 2 \<notin> cover A" "s + 3 \<notin> cover A" "s + 2 \<notin> cover B" "s + 3 \<notin> cover B" "s + 2 \<notin> cover (regs cs)" "s + 3 \<notin> cover (regs cs)"
      using in_s by blast+
  qed
  have a: "get2byte d' ?a = s" using list_addr [OF sp] notA lo P(2,3) ch(2) get2byte_cong [of d' ?a ?d] same [of ?a] same [of "?a + 1"] by force
  have "links d' (?h + 1) A"
  proof (rule links_relink [OF ch(1), where W = "{s + 2, s + 3}"])
    show "ascending (ctop + 1) ?u A" using P(5) by simp
    show "?h + 1 + 2 \<le> ctop + 1" using P(2,3) by simp
  qed (use same notA lo P(2,3) in auto)
  moreover have "chain d' s B"
  proof (rule chain_move [OF ch(4)])
    show "get2byte d' s = first_block B" using chain_first [OF ch(4)] get2byte_cong [of d' s ?d] same [of s] same [of "s + 1"] by simp
    show "\<forall>(t, w) \<in> set B. \<forall>i < 4. d' (t + i) = ?d (t + i)"
      using block_bytes [of "s + z + 4" ?u B] P(5) notB same by (auto, metis)
  qed
  ultimately have "chain d' (?h + 1) (A @ (s, x) # B)" using a x16 by (simp add: chain_append chain_simps d' get2byte_put2byte)
  moreover have "ascending (ctop + 1) ?u (A @ (s, x) # B)" using P(5) x ascending_mono [of "s + z + 4" ?u B "s + x + 4"] by auto
  moreover have "layout ctop ?u ([(s + x, nByte), (s, x)] @ regs cs @ A @ B) (unat (?d (?h + 7)) + 0)"
    by (rule layout_replace [where X = "[(s, z)]"]) (use P(7) x layout_mset [of "regs cs @ A @ (s, z) # B" "[(s, z)] @ regs cs @ A @ B"] in auto)
  then have "layout ctop ?u (regs cs @ [(s + x, nByte)] @ A @ (s, x) # B) (unat (d' (?h + 7)))"
    using layout_mset [of "regs cs @ [(s + x, nByte)] @ A @ (s, x) # B" "[(s + x, nByte), (s, x)] @ regs cs @ A @ B"] same [of "?h + 7"] lo P(2,3) by simp
  moreover have "get2byteNotZero d' (?h + 5) = ctop" using P(1,2,3) lo get2byte_cong [of d' "?h + 5" ?d] same [of "?h + 5"] same [of "?h + 5 + 1"] by (simp add: get2byteNotZero_def)
  moreover have "d' i = ?d i" if "i \<in> cover (regs cs)" for i using same [of i] notC that by blast
  ultimately show ?thesis by (intro space_upd [OF sp _ P(2)])
qed

lemma slot_exact:
  assumes sp: "space pBt pg cs [] ctop (A @ (s, z) # B)" and x: "x < 4" "z = x + nByte" and f57: "\<not> aData pg (hdrOffset pg + 7) > 57"
    and d': "d' = (let e = (aData pg)(last_addr (hdrOffset pg + 1) A := aData pg s, last_addr (hdrOffset pg + 1) A + 1 := aData pg (s + 1))
        in e(hdrOffset pg + 7 := e (hdrOffset pg + 7) + of_nat x))"
  shows "space pBt (pg\<lparr>aData := d'\<rparr>) cs [(s, nByte)] ctop (A @ B) \<and> (\<forall>i. i \<notin> {hdrOffset pg + 1, hdrOffset pg + 2, hdrOffset pg + 7} \<union> cover A \<longrightarrow> d' i = aData pg i)"
proof -
  let ?h = "hdrOffset pg" and ?d = "aData pg" and ?u = "usableSize pBt" and ?a = "last_addr (hdrOffset pg + 1) A"
  note P = space_parts [OF sp]
  have til: "tiles (A @ (s, z) # B)" using P(7) by (simp add: layout_def)
  have ch: "links ?d (?h + 1) A" "get2byte ?d ?a = s" "chain ?d s B" using P(4) by (simp_all add: chain_append chain_simps)
  have z: "4 \<le> z" using P(5) by simp
  have A: "cover A \<subseteq> {ctop + 1..<?u}" "cover B \<subseteq> {ctop + 1..<?u}" using P(6) by auto
  have dis: "cover A \<inter> cover B = {}" "cover A \<inter> cover (regs cs) = {}" "cover B \<inter> cover (regs cs) = {}" using til P(8) by auto
  have a: "?a = ?h + 1 \<or> ?a \<in> cover A \<and> ?a + 1 \<in> cover A" by (rule list_addr [OF sp])
  have a7: "?a \<noteq> ?h + 7" "?a + 1 \<noteq> ?h + 7" using a A P(2,3) by auto
  have same: "d' i = ?d i" if "i \<notin> {?a, ?a + 1}" "i \<notin> {?h + 7}" for i using that by (simp add: d' Let_def)
  have new: "d' ?a = ?d s" "d' (?a + 1) = ?d (s + 1)" "d' (?h + 7) = ?d (?h + 7) + of_nat x" using a7 by (simp_all add: d' Let_def)
  have out: "d' i = ?d i" if "i \<notin> {?h + 1, ?h + 2, ?h + 7} \<union> cover A" for i using same [of i] that a by auto
  have "links d' (?h + 1) A"
  proof (rule links_relink [OF ch(1), where W = "{?h + 7}"])
    show "ascending (ctop + 1) ?u A" using P(5) by simp
    show "?h + 1 + 2 \<le> ctop + 1" using P(2,3) by simp
    show "{?h + 7} \<inter> cover A = {}" using A P(2,3) by auto
  qed (use same in auto)
  moreover have "chain d' ?a B"
  proof (rule chain_move [OF ch(3)])
    show "get2byte d' ?a = first_block B" using chain_first [OF ch(3)] new by (simp add: get2byte_def)
    have "d' j = ?d j" if j: "j \<in> cover B" for j
    proof -
      have "j \<notin> cover A" "ctop + 1 \<le> j" using j dis(1) A(2) by auto
      then show ?thesis using out [of j] P(2,3) by simp
    qed
    then show "\<forall>(t, w) \<in> set B. \<forall>i < 4. d' (t + i) = ?d (t + i)" using block_bytes [of "s + z + 4" ?u B] P(5) by auto
  qed
  ultimately have "chain d' (?h + 1) (A @ B)" by (simp add: chain_append)
  moreover have "ascending (ctop + 1) ?u (A @ B)" using P(5) ascending_mono [of "s + z + 4" ?u B "end_of (ctop + 1) A"] by auto
  moreover have "layout ctop ?u ([(s, nByte)] @ regs cs @ A @ B) (unat (?d (?h + 7)) + x)"
    by (rule layout_replace [where X = "[(s, z)]"]) (use P(7) x layout_mset [of "regs cs @ A @ (s, z) # B" "[(s, z)] @ regs cs @ A @ B"] in auto)
  moreover have "unat (d' (?h + 7)) = unat (?d (?h + 7)) + x"
    using f57 x(1) unfolding new(3) by (simp add: word_less_nat_alt unat_word_ariths unat_of_nat_u8)
  ultimately have "chain d' (?h + 1) (A @ B)" "ascending (ctop + 1) ?u (A @ B)" "layout ctop ?u (regs cs @ [(s, nByte)] @ A @ B) (unat (d' (?h + 7)))"
    using layout_mset [of "regs cs @ [(s, nByte)] @ A @ B" "[(s, nByte)] @ regs cs @ A @ B"] by simp_all
  moreover have "get2byteNotZero d' (?h + 5) = ctop"
  proof -
    have "?h + 5 \<notin> cover A" "?h + 6 \<notin> cover A" using A(1) P(2,3) by auto
    then show ?thesis using out [of "?h + 5"] out [of "?h + 6"] P(1) top_same [of d' ?h ?d] by simp
  qed
  moreover have "d' i = ?d i" if i: "i \<in> cover (regs cs)" for i
  proof -
    have "i \<notin> cover A" "ctop \<le> i" using i dis(2) P(9) by auto
    then show ?thesis using out [of i] P(2,3) by simp
  qed
  ultimately show ?thesis using out by (intro conjI space_upd [OF sp _ P(2)]) auto
qed

text \<open>A request served from the list of free blocks.\<close>

lemma find_slot_space:
  assumes sp: "space pBt pg cs [] ctop fs" and "fs \<noteq> []" and n: "0 < nByte"
    and f: "pageFindSlot pBt pg nByte = (pg', slot, rc)"
  shows "rc = SQLITE_OK \<and> (slot = None \<and> pg' = pg \<or>
    (\<exists>idx d' fs'. slot = Some idx \<and> pg' = pg\<lparr>aData := d'\<rparr> \<and> space pBt (pg\<lparr>aData := d'\<rparr>) cs [(idx, nByte)] ctop fs' \<and> ctop < idx \<and>
      (\<forall>i. i \<notin> {hdrOffset pg + 1, hdrOffset pg + 2, hdrOffset pg + 7} \<union> {ctop..<usableSize pBt} \<longrightarrow> d' i = aData pg i)))"
proof -
  note P = space_parts [OF sp]
  obtain d' where d': "find_slot (hdrOffset pg) (usableSize pBt) nByte (aData pg) (hdrOffset pg + 1) (first_block fs) = (d', slot, rc)" "pg' = pg\<lparr>aData := d'\<rparr>"
    using f chain_first [OF P(4)] by (auto simp: pageFindSlot_def Let_def split: prod.splits)
  have R: "rc = SQLITE_OK" "slot = None \<and> d' = aData pg \<or> (\<exists>A f B idx. slot = Some idx \<and> fs = A @ f # B \<and>
      slot_taken (hdrOffset pg) nByte (aData pg) (last_addr (hdrOffset pg + 1) A) f idx d')"
    using find_slot_spec [OF P(4,5) assms(2) d'(1)] by blast+
  from R(2) show ?thesis
  proof (elim disjE exE conjE)
    fix A f B idx
    assume s: "slot = Some idx" "fs = A @ f # B" and t: "slot_taken (hdrOffset pg) nByte (aData pg) (last_addr (hdrOffset pg + 1) A) f idx d'"
    obtain p z where pz: "f = (p, z)" by (cases f)
    have "(p, z) \<in> set fs" using s(2) pz by simp
    from ascending_range [OF P(5) this] have pz': "ctop < p" "p + z \<le> usableSize pBt" "4 \<le> z" by simp_all
    have "cover A \<subseteq> {ctop..<usableSize pBt}" using P(6) unfolding s(2) by auto
    note lo = pz'(1) this pz'(2,3)
    define x where "x = z - nByte"
    have z: "z = x + nByte" using t pz by (simp add: slot_taken_def x_def)
    show ?thesis
    proof (cases "x < 4")
      case True
      then have "space pBt (pg\<lparr>aData := d'\<rparr>) cs [(p, nByte)] ctop (A @ B) \<and>
          (\<forall>i. i \<notin> {hdrOffset pg + 1, hdrOffset pg + 2, hdrOffset pg + 7} \<union> cover A \<longrightarrow> d' i = aData pg i)"
        using t pz slot_exact [OF sp [unfolded s(2) pz] True z] by (auto simp: slot_taken_def x_def)
      moreover have "idx = p" using t True pz by (simp add: slot_taken_def x_def)
      ultimately show ?thesis using R(1) s(1) d'(2) lo by blast
    next
      case False
      then have i: "idx = p + x" "d' = put2byte (aData pg) (p + 2) x" using t pz by (simp_all add: slot_taken_def x_def)
      then have "space pBt (pg\<lparr>aData := d'\<rparr>) cs [(idx, nByte)] ctop (A @ (p, x) # B)"
        using slot_shrink [OF sp [unfolded s(2) pz] _ z n i(2)] False by simp
      moreover have "d' j = aData pg j" if "j \<notin> {ctop..<usableSize pBt}" for j using that lo unfolding i(2) by (intro put2byte_other) auto
      ultimately show ?thesis using R(1) s(1) d'(2) lo i(1) by auto
    qed
  qed (use R(1) d'(2) in simp)
qed

end
