(* ===== verification/Btree_Defrag.thy ===== *)
theory Btree_Defrag
  imports Btree_Space
begin

text \<open>Defragmentation moves the cells together without changing any of them.\<close>

definition ptrs_ok :: "mem \<Rightarrow> nat \<Rightarrow> (nat \<times> bytes) list \<Rightarrow> bool" where
  "ptrs_ok d off cs \<longleftrightarrow> (\<forall>i < length cs. get2byte d (off + 2 * i) = fst (cs ! i))"

lemma ptrs_ok_Cons: "ptrs_ok d off ((p, c) # cs) \<longleftrightarrow> get2byte d off = p \<and> ptrs_ok d (off + 2) cs"
  by (auto simp: ptrs_ok_def less_Suc_eq_0_disj)

lemma ptrs_ok_cong: "ptrs_ok d off cs \<Longrightarrow> (\<And>i. off \<le> i \<Longrightarrow> i < off + 2 * length cs \<Longrightarrow> d' i = d i) \<Longrightarrow> ptrs_ok d' off cs"
  by (auto simp: ptrs_ok_def get2byte_def)

section \<open>Packing the cells\<close>

fun packed :: "nat \<Rightarrow> (nat \<times> bytes) list \<Rightarrow> (nat \<times> bytes) list" where
  "packed cbrk [] = []"
| "packed cbrk ((p, c) # cs) = (cbrk - length c, c) # packed (cbrk - length c) cs"

lemma packed_snd: "map snd (packed cbrk cs) = map snd cs"
  by (induction cbrk cs rule: packed.induct) auto

lemma packed_length [simp]: "length (packed cbrk cs) = length cs"
  by (induction cbrk cs rule: packed.induct) auto

lemma packed_cover: "tot (regs cs) \<le> cbrk \<Longrightarrow> cover (regs (packed cbrk cs)) = {cbrk - tot (regs cs)..<cbrk} \<and> tiles (regs (packed cbrk cs))"
  by (induction cbrk cs rule: packed.induct) auto

lemma packed_tot: "tot (regs (packed cbrk cs)) = tot (regs cs)"
  by (induction cbrk cs rule: packed.induct) auto

lemma stored_simps [simp]: "stored d []" "stored d ((p, c) # cs) \<longleftrightarrow> (\<forall>k < length c. d (p + k) = c ! k) \<and> stored d cs"
  by (auto simp: stored_def)

lemma addr_Cons: "map (\<lambda>i. off + 2 * i) [0..<length (x # cs)] = off # map (\<lambda>i. off + 2 + 2 * i) [0..<length cs]"
  by (simp add: upt_conv_Cons map_Suc_upt [symmetric] del: upt_Suc)

lemma pack_cells_spec:
  assumes "methods_ok pBt pg" "\<forall>c \<in> snd ` set cs. cell_ok pBt pg c" "stored src cs" "\<forall>r \<in> set (regs cs). fst r + snd r \<le> usableSize pBt"
    "ptrs_ok data off cs" "off + 2 * length cs \<le> st" "st + tot (regs cs) \<le> cbrk" "cbrk \<le> usableSize pBt"
  shows "\<exists>data'. pack_cells pBt pg src st (map (\<lambda>i. off + 2 * i) [0..<length cs]) data cbrk = (data', cbrk - tot (regs cs), SQLITE_OK) \<and>
    ptrs_ok data' off (packed cbrk cs) \<and> stored data' (packed cbrk cs) \<and>
    (\<forall>i. i \<notin> {off..<off + 2 * length cs} \<union> {cbrk - tot (regs cs)..<cbrk} \<longrightarrow> data' i = data i)"
  using assms(2-)
proof (induction cs arbitrary: off data cbrk)
  case Nil
  then show ?case by (simp add: ptrs_ok_def)
next
  case (Cons x cs)
  obtain p c where x: "x = (p, c)" by (cases x)
  have c: "cell_ok pBt pg c" "\<forall>k < length c. src (p + k) = c ! k" "p + length c \<le> usableSize pBt" "get2byte data off = p" using Cons.prems x by (auto simp: ptrs_ok_Cons)
  have len: "4 \<le> length c" "cell_size pBt pg src p = length c" using cell_ok_length [OF assms(1) c(1)] cell_ok_size [OF assms(1) c(1,2)] by simp_all
  have u: "usableSize pBt \<le> 65536" using assms(1) by (simp add: methods_ok_def bt_ok_def)
  let ?b = "cbrk - length c"
  have b: "st + tot (regs cs) \<le> ?b" "?b + length c = cbrk" "?b < 65536" using Cons.prems(6,7) x len(1) u by auto
  define d1 where "d1 = memmove (put2byte data off ?b) ?b src p (length c)"
  have off: "off + 2 + 2 * length cs \<le> st" using Cons.prems(5) by simp
  have d1: "d1 i = data i" if "i \<notin> {off, off + 1} \<union> {?b..<cbrk}" for i using that b(2) by (auto simp: d1_def memmove_def put2byte_def)
  have "ptrs_ok d1 (off + 2) cs"
    by (rule ptrs_ok_cong [of data]) (use Cons.prems(4) x d1 b(1) off in \<open>auto simp: ptrs_ok_Cons\<close>)
  then obtain d2 where d2: "pack_cells pBt pg src st (map (\<lambda>i. off + 2 + 2 * i) [0..<length cs]) d1 ?b = (d2, ?b - tot (regs cs), SQLITE_OK)"
    "ptrs_ok d2 (off + 2) (packed ?b cs)" "stored d2 (packed ?b cs)" "\<And>i. i \<notin> {off + 2..<off + 2 + 2 * length cs} \<union> {?b - tot (regs cs)..<?b} \<Longrightarrow> d2 i = d1 i"
    using Cons.IH [of d1 "off + 2" ?b] Cons.prems(1,2,3,7) x b off by auto
  have "pack_cells pBt pg src st (off # map (\<lambda>i. off + 2 + 2 * i) [0..<length cs]) data cbrk = (d2, ?b - tot (regs cs), SQLITE_OK)"
    using c len b d2(1) by (simp add: d1_def)
  moreover have "get2byte d2 off = ?b"
  proof -
    have "d2 off = put2byte data off ?b off" "d2 (off + 1) = put2byte data off ?b (off + 1)" using d2(4) [of off] d2(4) [of "off + 1"] off b by (auto simp: d1_def memmove_def)
    then show ?thesis using get2byte_cong [of d2 off] get2byte_put2byte [OF b(3)] by metis
  qed
  moreover have "d2 (?b + k) = c ! k" if k: "k < length c" for k
  proof -
    have "\<not> ?b + k < off + 2 + 2 * length cs" "\<not> ?b + k < ?b" using off b(1) by linarith+
    then have "d2 (?b + k) = d1 (?b + k)" using d2(4) [of "?b + k"] by simp
    then show ?thesis using k c(2) by (simp add: d1_def memmove_def)
  qed
  moreover have "d2 i = data i" if "i \<notin> {off..<off + 2 * length (x # cs)} \<union> {cbrk - tot (regs (x # cs))..<cbrk}" for i
    using that d2(4) [of i] d1 [of i] b x by auto
  ultimately show ?case unfolding addr_Cons using d2(2,3) x by (intro exI [of _ d2]) (simp add: ptrs_ok_Cons)
qed

lemma cells_below:
  assumes sp: "space pBt pg cs R ctop fs" and n: "cs \<noteq> []"
  shows "4 \<le> tot (regs cs)" "get2byte (aData pg) (hdrOffset pg + 5) = ctop"
proof -
  note P = space_parts [OF sp] and F = static_facts [OF sp]
  have m: "methods_ok pBt pg" "\<forall>c \<in> snd ` set cs. cell_ok pBt pg c" using sp by (simp_all add: space_def page_static_def)
  show t: "4 \<le> tot (regs cs)"
  proof (cases cs)
    case (Cons x xs)
    then show ?thesis using m(2) cell_ok_length [OF m(1), of "snd x"] by (cases x) simp
  qed (use n in simp)
  have "ctop \<noteq> 65536" using t P(7) F(3) by (auto simp: layout_def)
  then show "get2byte (aData pg) (hdrOffset pg + 5) = ctop" using get2byteNotZero_less P(1) by simp
qed

lemma cells_within:
  assumes sp: "space pBt pg cs R ctop fs" and r: "r \<in> set (regs cs)"
  shows "4 \<le> snd r" "span r \<subseteq> cover (regs cs)" "ctop \<le> fst r" "fst r + snd r \<le> usableSize pBt"
proof -
  have m: "methods_ok pBt pg" "\<forall>c \<in> snd ` set cs. cell_ok pBt pg c" using sp by (simp_all add: space_def page_static_def)
  show "4 \<le> snd r" using cell_ok_length [OF m(1)] m(2) r by auto
  then have "fst r \<in> span r" "fst r + snd r - 1 \<in> span r" by (cases r; simp)+
  moreover show s: "span r \<subseteq> cover (regs cs)" using r by (auto simp only: cover_def)
  ultimately have "fst r \<in> {ctop..<usableSize pBt}" "fst r + snd r - 1 \<in> {ctop..<usableSize pBt}" using space_parts(9) [OF sp] by blast+
  then show "ctop \<le> fst r" "fst r + snd r \<le> usableSize pBt" by auto
qed

lemma defrag_slow_spec:
  assumes sp: "space pBt pg cs [] ctop fs" and n: "nCell pg = length cs" "cs \<noteq> []" and p: "ptrs_ok (aData pg) (cellOffset pg) cs"
  shows "\<exists>d'. defrag_slow pBt pg = (d', usableSize pBt - tot (regs cs), SQLITE_OK) \<and> d' (hdrOffset pg + 7) = 0 \<and>
    ptrs_ok d' (cellOffset pg) (packed (usableSize pBt) cs) \<and> stored d' (packed (usableSize pBt) cs) \<and>
    (\<forall>i. i < cellOffset pg \<longrightarrow> i \<noteq> hdrOffset pg + 7 \<longrightarrow> d' i = aData pg i)"
proof -
  note P = space_parts [OF sp] and F = static_facts [OF sp]
  have m: "methods_ok pBt pg" "\<forall>c \<in> snd ` set cs. cell_ok pBt pg c" "stored (aData pg) cs" using sp by (simp_all add: space_def page_static_def)
  have lay: "tot (regs cs) \<le> usableSize pBt - ctop" "cover (regs cs) \<subseteq> {ctop..<usableSize pBt}" using P(7) by (auto simp: layout_def)
  have r: "\<forall>r \<in> set (regs cs). fst r + snd r \<le> usableSize pBt" using cells_within [OF sp] by blast
  have top: "get2byte (aData pg) (hdrOffset pg + 5) = ctop" by (rule cells_below(2) [OF sp n(2)])
  have "cellOffset pg + 2 * length cs \<le> ctop" "ctop + tot (regs cs) \<le> usableSize pBt" using P(2) n(1) lay(1) F(2) by simp_all
  from pack_cells_spec [OF m r p this order_refl] obtain d' where d': "pack_cells pBt pg (aData pg) ctop (map (\<lambda>i. cellOffset pg + 2 * i) [0..<length cs]) (aData pg) (usableSize pBt) = (d', usableSize pBt - tot (regs cs), SQLITE_OK)"
    "ptrs_ok d' (cellOffset pg) (packed (usableSize pBt) cs)" "stored d' (packed (usableSize pBt) cs)"
    "\<And>i. i \<notin> {cellOffset pg..<cellOffset pg + 2 * length cs} \<union> {usableSize pBt - tot (regs cs)..<usableSize pBt} \<Longrightarrow> d' i = aData pg i"
    by blast
  have h: "hdrOffset pg + 7 < cellOffset pg" "cellOffset pg \<le> usableSize pBt - tot (regs cs)" using P(2,3) lay(1) F(2) by linarith+
  have "ptrs_ok (d'(hdrOffset pg + 7 := 0)) (cellOffset pg) (packed (usableSize pBt) cs)"
    by (rule ptrs_ok_cong [OF d'(2)]) (use h in auto)
  moreover have "stored (d'(hdrOffset pg + 7 := 0)) (packed (usableSize pBt) cs)"
    by (rule stored_cong [OF d'(3)]) (use h packed_cover [of cs "usableSize pBt"] lay(1) in auto)
  moreover have "defrag_slow pBt pg = (d'(hdrOffset pg + 7 := 0), usableSize pBt - tot (regs cs), SQLITE_OK)"
    using d'(1) n top by (simp add: defrag_slow_def Let_def)
  ultimately show ?thesis using d'(4) h by (intro exI [of _ "d'(hdrOffset pg + 7 := 0)"]) auto
qed

section \<open>Moving blocks of cells\<close>

text \<open>Where the fast path moves a byte.\<close>

definition mv :: "nat \<Rightarrow> nat \<Rightarrow> nat \<Rightarrow> nat \<Rightarrow> nat \<Rightarrow> nat" where
  "mv iFree iFree2 sz sz2 p = (if p < iFree then p + sz else if p < iFree2 then p + sz2 else p)"

lemma shift_ptrs_spec:
  "ptrs_ok data off cs \<Longrightarrow> \<forall>(p, c) \<in> set cs. mv f f2 sz sz2 p < 65536 \<Longrightarrow>
     ptrs_ok (shift_ptrs f f2 sz sz2 (map (\<lambda>i. off + 2 * i) [0..<length cs]) data) off (map (apfst (mv f f2 sz sz2)) cs) \<and>
     (\<forall>i. i \<notin> {off..<off + 2 * length cs} \<longrightarrow> shift_ptrs f f2 sz sz2 (map (\<lambda>i. off + 2 * i) [0..<length cs]) data i = data i)"
proof (induction cs arbitrary: off data)
  case Nil
  then show ?case by (simp add: ptrs_ok_def)
next
  case (Cons x cs)
  obtain p c where x: "x = (p, c)" by (cases x)
  have p: "get2byte data off = p" "ptrs_ok data (off + 2) cs" "mv f f2 sz sz2 p < 65536" using Cons.prems x by (auto simp: ptrs_ok_Cons)
  define d1 where "d1 = (if p < f then put2byte data off (p + sz) else if p < f2 then put2byte data off (p + sz2) else data)"
  have "get2byte d1 off = mv f f2 sz sz2 p" using p by (auto simp: d1_def mv_def get2byte_put2byte split: if_splits)
  moreover have "\<And>i. i \<notin> {off, off + 1} \<Longrightarrow> d1 i = data i" by (auto simp: d1_def put2byte_def)
  ultimately have d1: "get2byte d1 off = mv f f2 sz sz2 p" "\<And>i. i \<notin> {off, off + 1} \<Longrightarrow> d1 i = data i" by blast+
  let ?r = "shift_ptrs f f2 sz sz2 (map (\<lambda>i. off + 2 + 2 * i) [0..<length cs]) d1"
  have "ptrs_ok d1 (off + 2) cs" by (rule ptrs_ok_cong [OF p(2)]) (use d1(2) in auto)
  with Cons.IH [of d1 "off + 2"] Cons.prems(2) have IH: "ptrs_ok ?r (off + 2) (map (apfst (mv f f2 sz sz2)) cs)"
    "\<And>i. i \<notin> {off + 2..<off + 2 + 2 * length cs} \<Longrightarrow> ?r i = d1 i" by auto
  have e: "shift_ptrs f f2 sz sz2 (map (\<lambda>i. off + 2 * i) [0..<length (x # cs)]) data = ?r"
    unfolding addr_Cons using p(1) by (simp add: d1_def Let_def)
  have "get2byte ?r off = mv f f2 sz sz2 p" using d1(1) IH(2) [of off] IH(2) [of "off + 1"] get2byte_cong [of ?r off d1] by simp
  then show ?case unfolding e using IH d1(2) x by (auto simp: ptrs_ok_Cons)
qed

text \<open>One or two free blocks in the content area.\<close>

definition holes :: "nat \<Rightarrow> nat \<Rightarrow> nat \<Rightarrow> nat \<Rightarrow> nat \<Rightarrow> nat \<Rightarrow> bool" where
  "holes ctop u f z f2 z2 \<longleftrightarrow> ctop < f \<and> 4 \<le> z \<and> f + z \<le> u \<and> (f2 = 0 \<and> z2 = 0 \<or> f + z + 4 \<le> f2 \<and> 4 \<le> z2 \<and> f2 + z2 \<le> u)"

definition kept :: "nat \<Rightarrow> nat \<Rightarrow> nat \<Rightarrow> nat \<Rightarrow> nat \<Rightarrow> nat \<Rightarrow> nat set" where
  "kept ctop u f z f2 z2 = {ctop..<u} - {f..<f + z} - {f2..<f2 + z2}"

lemma mv_inj: "holes ctop u f z f2 z2 \<Longrightarrow> inj_on (mv f f2 (z + z2) z2) (kept ctop u f z f2 z2)"
  by (auto simp: inj_on_def mv_def holes_def kept_def split: if_splits)

lemma mv_range: "holes ctop u f z f2 z2 \<Longrightarrow> x \<in> kept ctop u f z f2 z2 \<Longrightarrow> mv f f2 (z + z2) z2 x \<in> {ctop + z + z2..<u}"
  by (auto simp: mv_def holes_def kept_def)

lemma mv_span:
  assumes h: "holes ctop u f z f2 z2" and s: "span (p, l) \<subseteq> kept ctop u f z f2 z2" and k: "k < l"
  shows "mv f f2 (z + z2) z2 (p + k) = mv f f2 (z + z2) z2 p + k"
proof -
  have "f \<notin> span (p, l)" "f2 \<notin> span (p, l) \<or> f2 = 0" using s h by (auto simp: kept_def holes_def)
  then show ?thesis using k by (auto simp: mv_def)
qed

lemma mv_image:
  assumes h: "holes ctop u f z f2 z2" and s: "span (p, l) \<subseteq> kept ctop u f z f2 z2" and l: "0 < l"
  shows "span (mv f f2 (z + z2) z2 p, l) = mv f f2 (z + z2) z2 ` span (p, l)"
proof -
  have a: "{q..<q + l} = (\<lambda>k. q + k) ` {0..<l}" for q by (simp add: image_add_atLeastLessThan add.commute)
  have "mv f f2 (z + z2) z2 ` span (p, l) = (\<lambda>k. mv f f2 (z + z2) z2 (p + k)) ` {0..<l}" by (simp only: span.simps a [of p] image_image)
  also have "\<dots> = (\<lambda>k. mv f f2 (z + z2) z2 p + k) ` {0..<l}" using mv_span [OF h s] by (intro image_cong) auto
  finally show ?thesis by (simp only: span.simps a)
qed

lemma mv_cover:
  assumes h: "holes ctop u f z f2 z2" and s: "cover rs \<subseteq> kept ctop u f z f2 z2" and l: "\<forall>r \<in> set rs. 0 < snd r"
  shows "cover (map (apfst (mv f f2 (z + z2) z2)) rs) = mv f f2 (z + z2) z2 ` cover rs"
  using s l
proof (induction rs)
  case (Cons r rs)
  then show ?case using mv_image [OF h, of "fst r" "snd r"] by (cases r) (simp add: image_Un del: span.simps)
qed simp

lemma tot_apfst [simp]: "tot (map (apfst g) rs) = tot rs"
  by (induction rs rule: tot.induct) auto

lemma mv_tiles:
  assumes h: "holes ctop u f z f2 z2" and s: "cover rs \<subseteq> kept ctop u f z f2 z2" and l: "\<forall>r \<in> set rs. 0 < snd r" and t: "tiles rs"
  shows "tiles (map (apfst (mv f f2 (z + z2) z2)) rs)"
  using t inj_on_subset [OF mv_inj [OF h] s] by (simp add: tiles_iff_card mv_cover [OF h s l] card_image)

lemma regs_apfst: "regs (map (apfst g) cs) = map (apfst g) (regs cs)"
  by auto

section \<open>The fast path\<close>

definition moved :: "mem \<Rightarrow> nat \<Rightarrow> nat \<Rightarrow> nat \<Rightarrow> nat \<Rightarrow> nat \<Rightarrow> mem" where
  "moved d ctop f z f2 z2 =
     (let d1 = (if f2 \<noteq> 0 then memmove d (f + z + z2) d (f + z) (f2 - (f + z)) else d) in memmove d1 (ctop + (z + z2)) d1 ctop (f - ctop))"

lemma moved_at: "holes ctop u f z f2 z2 \<Longrightarrow> x \<in> kept ctop u f z f2 z2 \<Longrightarrow> moved d ctop f z f2 z2 (mv f f2 (z + z2) z2 x) = d x"
  by (auto simp: moved_def memmove_def mv_def holes_def kept_def Let_def)

lemma moved_below: "holes ctop u f z f2 z2 \<Longrightarrow> i < ctop \<Longrightarrow> moved d ctop f z f2 z2 i = d i"
  by (auto simp: moved_def memmove_def holes_def Let_def)

lemma stored_moved:
  assumes h: "holes ctop u f z f2 z2" and s: "cover (regs cs) \<subseteq> kept ctop u f z f2 z2" and st: "stored d cs"
    and d': "\<And>i. ctop \<le> i \<Longrightarrow> d' i = moved d ctop f z f2 z2 i"
  shows "stored d' (map (apfst (mv f f2 (z + z2) z2)) cs)"
proof -
  let ?m = "mv f f2 (z + z2) z2"
  have "d' (?m p + k) = c ! k" if pc: "(p, c) \<in> set cs" and k: "k < length c" for p c k
  proof -
    have "span (p, length c) \<subseteq> cover (regs cs)" using pc by (force simp: cover_def)
    then have sub: "span (p, length c) \<subseteq> kept ctop u f z f2 z2" using s by blast
    then have in_k: "p + k \<in> kept ctop u f z f2 z2" using k by auto
    have e: "?m (p + k) = ?m p + k" by (rule mv_span [OF h sub k])
    moreover have "ctop \<le> ?m (p + k)" using mv_range [OF h in_k] by simp
    ultimately have "d' (?m p + k) = d (p + k)" using d' [of "?m p + k"] moved_at [OF h in_k, of d] by simp
    then show ?thesis using st pc k by (auto simp: stored_def)
  qed
  then show ?thesis by (auto simp: stored_def)
qed

lemma defrag_fast_holes:
  assumes sp: "space pBt pg cs [] ctop fs" and h: "holes ctop (usableSize pBt) f z f2 z2" and c: "cover fs = {f..<f + z} \<union> {f2..<f2 + z2}" "tot fs = z + z2"
    and n: "nCell pg = length cs" and p: "ptrs_ok (aData pg) (cellOffset pg) cs"
    and d': "d' = shift_ptrs f f2 (z + z2) z2 (map (\<lambda>i. cellOffset pg + 2 * i) [0..<nCell pg]) (moved (aData pg) ctop f z f2 z2)"
  shows "\<exists>cs'. map snd cs' = map snd cs \<and> ptrs_ok d' (cellOffset pg) cs' \<and> stored d' cs' \<and>
    layout (ctop + tot fs) (usableSize pBt) (regs cs') (unat (aData pg (hdrOffset pg + 7))) \<and> (\<forall>i < cellOffset pg. d' i = aData pg i)"
proof -
  define cs' where cs': "cs' = map (apfst (mv f f2 (z + z2) z2)) cs"
  have "map snd cs' = map snd cs" by (simp add: cs')
  note P = space_parts [OF sp]
  let ?u = "usableSize pBt" and ?m = "moved (aData pg) ctop f z f2 z2" and ?mv = "mv f f2 (z + z2) z2"
  have k: "cover (regs cs) \<subseteq> kept ctop ?u f z f2 z2" using P(8,9) c(1) by (auto simp: kept_def)
  have l: "\<forall>r \<in> set (regs cs). 0 < snd r" using cells_within(1) [OF sp] by force
  have gap: "cellOffset pg + 2 * length cs \<le> ctop" using P(2) n by simp
  have "ptrs_ok ?m (cellOffset pg) cs" by (rule ptrs_ok_cong [OF p]) (use moved_below [OF h] gap in simp)
  moreover have "\<forall>(p, c) \<in> set cs. ?mv p < 65536"
  proof -
    have "?mv p < 65536" if pc: "(p, c) \<in> set cs" for p c
    proof -
      have "(p, length c) \<in> set (regs cs)" using pc by force
      from cells_within(1,2) [OF sp this] have "p \<in> span (p, length c)" "span (p, length c) \<subseteq> cover (regs cs)" by auto
      then have "p \<in> cover (regs cs)" by blast
      then show ?thesis using mv_range [OF h] k static_facts(3) [OF sp] by force
    qed
    then show ?thesis by blast
  qed
  ultimately have sh: "ptrs_ok d' (cellOffset pg) cs'" "\<And>i. i \<notin> {cellOffset pg..<cellOffset pg + 2 * length cs} \<Longrightarrow> d' i = ?m i"
    using shift_ptrs_spec [of ?m "cellOffset pg" cs f f2 "z + z2" z2] n unfolding d' cs' by simp_all
  have "stored d' cs'" unfolding cs'
    by (rule stored_moved [OF h k]) (use sp sh(2) gap in \<open>auto simp: space_def\<close>)
  moreover have "layout (ctop + tot fs) ?u (regs cs') (unat (aData pg (hdrOffset pg + 7)))"
  proof -
    have "tiles (regs cs')" using mv_tiles [OF h k l] P(7) unfolding cs' regs_apfst by (simp add: layout_def)
    moreover have "cover (regs cs') \<subseteq> {ctop + tot fs..<?u}"
      unfolding cs' regs_apfst mv_cover [OF h k l] c(2) using mv_range [OF h] k by (auto simp: add.assoc)
    moreover have "tot (regs cs') = tot (regs cs)" unfolding cs' regs_apfst by (rule tot_apfst)
    ultimately show ?thesis using P(7) by (auto simp: layout_def)
  qed
  moreover have "d' i = aData pg i" if "i < cellOffset pg" for i using sh(2) [of i] moved_below [OF h, of i] gap that by simp
  ultimately show ?thesis using sh(1) \<open>map snd cs' = map snd cs\<close> by blast
qed

lemma defrag_fast_spec:
  assumes sp: "space pBt pg cs [] ctop fs" and n: "nCell pg = length cs" "cs \<noteq> []" and p: "ptrs_ok (aData pg) (cellOffset pg) cs"
  shows "defrag_fast pBt pg nMaxFrag = None \<or>
    (\<exists>d' cs'. defrag_fast pBt pg nMaxFrag = Some (d', ctop + tot fs, SQLITE_OK) \<and> int (unat (aData pg (hdrOffset pg + 7))) \<le> nMaxFrag \<and>
      map snd cs' = map snd cs \<and> ptrs_ok d' (cellOffset pg) cs' \<and> stored d' cs' \<and>
      layout (ctop + tot fs) (usableSize pBt) (regs cs') (unat (aData pg (hdrOffset pg + 7))) \<and> (\<forall>i < cellOffset pg. d' i = aData pg i))"
proof (cases "int (unat (aData pg (hdrOffset pg + 7))) \<le> nMaxFrag \<and> fs \<noteq> []")
  case True
  note P = space_parts [OF sp] and top = cells_below(2) [OF sp n(2)]
  obtain f z gs where fs: "fs = (f, z) # gs" using True by (cases fs) auto
  have f: "get2byte (aData pg) (hdrOffset pg + 1) = f" "get2byte (aData pg) (f + 2) = z" "chain (aData pg) f gs" using P(4) by (simp_all add: fs chain_simps)
  have a: "ctop < f" "4 \<le> z" "f + z \<le> usableSize pBt" using P(5) by (simp_all add: fs)
  consider "gs = []" | f2 z2 where "gs = [(f2, z2)]" | f2 z2 f3 z3 hs where "gs = (f2, z2) # (f3, z3) # hs"
    by (metis neq_Nil_conv surj_pair)
  then show ?thesis
  proof cases
    case 1
    have h: "holes ctop (usableSize pBt) f z 0 0" using a by (simp add: holes_def)
    have g: "get2byte (aData pg) f = 0" using f(3) 1 by (simp add: chain_simps)
    have e: "defrag_fast pBt pg nMaxFrag = Some (shift_ptrs f 0 (z + 0) 0 (map (\<lambda>i. cellOffset pg + 2 * i) [0..<nCell pg]) (moved (aData pg) ctop f z 0 0), ctop + tot fs, SQLITE_OK)"
      using True a f g top 1 unfolding fs by (simp add: defrag_fast_def Let_def moved_def)
    have "cover fs = {f..<f + z} \<union> {0..<0 + 0}" "tot fs = z + 0" by (auto simp: fs 1)
    from defrag_fast_holes [OF sp h this n(1) p refl] show ?thesis unfolding e using True by blast
  next
    case 2
    have h: "holes ctop (usableSize pBt) f z f2 z2" using a P(5) by (simp add: fs 2 holes_def)
    have g: "get2byte (aData pg) f = f2" "get2byte (aData pg) (f2 + 2) = z2" "aData pg f2 = 0 \<and> aData pg (f2 + 1) = 0"
      using f(3) 2 by (simp_all add: chain_simps get2byte_0)
    have e: "defrag_fast pBt pg nMaxFrag = Some (shift_ptrs f f2 (z + z2) z2 (map (\<lambda>i. cellOffset pg + 2 * i) [0..<nCell pg]) (moved (aData pg) ctop f z f2 z2), ctop + tot fs, SQLITE_OK)"
      using True a f g top h unfolding fs 2 by (auto simp: defrag_fast_def Let_def moved_def holes_def)
    have "cover fs = {f..<f + z} \<union> {f2..<f2 + z2}" "tot fs = z + z2" by (auto simp: fs 2)
    from defrag_fast_holes [OF sp h this n(1) p refl] show ?thesis unfolding e using True by blast
  next
    case 3
    have g: "get2byte (aData pg) f = f2" "get2byte (aData pg) f2 = f3" using f(3) 3 by (simp_all add: chain_simps)
    have "f2 + z2 \<le> usableSize pBt" "4 \<le> z2" "0 < f3" "0 < f2" using P(5) by (simp_all add: fs 3)
    then have "defrag_fast pBt pg nMaxFrag = None" using True a f g get2byte_0 [of "aData pg" f2] by (auto simp: defrag_fast_def Let_def)
    then show ?thesis by blast
  qed
next
  case False
  have "fs = [] \<Longrightarrow> get2byte (aData pg) (hdrOffset pg + 1) = 0" using space_parts(4) [OF sp] by (simp add: chain_simps)
  then have "defrag_fast pBt pg nMaxFrag = None" using False by (auto simp: defrag_fast_def Let_def)
  then show ?thesis by blast
qed

section \<open>Defragmenting a page\<close>

text \<open>The number of free bytes between the cell pointers and the end of the page.\<close>

definition free_bytes :: "BtShared \<Rightarrow> MemPage \<Rightarrow> (nat \<times> bytes) list \<Rightarrow> int" where
  "free_bytes pBt pg cs = int (usableSize pBt) - int (cellOffset pg + 2 * nCell pg) - int (tot (regs cs))"

lemma tot_snd: "map snd cs' = map snd cs \<Longrightarrow> tot (regs cs') = tot (regs cs)"
proof -
  assume "map snd cs' = map snd cs"
  then have "map length (map snd cs') = map length (map snd cs)" by (rule arg_cong)
  then have "map snd (regs cs') = map snd (regs cs)" by (simp add: comp_def case_prod_unfold)
  then show ?thesis by (simp only: tot_sum)
qed

lemma defrag_result:
  assumes sp: "space pBt pg cs [] ctop fs" and c: "map snd cs' = map snd cs" "stored d cs'" "ptrs_ok d (cellOffset pg) cs'"
    and lay: "layout cbrk (usableSize pBt) (regs cs') (unat (d (hdrOffset pg + 7)))" and n: "nCell pg = length cs" "cs \<noteq> []"
    and gap: "cellOffset pg + 2 * nCell pg \<le> cbrk" and same: "\<And>i. i < cellOffset pg \<Longrightarrow> i \<noteq> hdrOffset pg + 7 \<Longrightarrow> d i = aData pg i"
    and d': "d' = memset ((put2byte d (hdrOffset pg + 5) cbrk)(hdrOffset pg + 1 := 0, hdrOffset pg + 2 := 0)) (cellOffset pg + 2 * nCell pg) 0 (cbrk - (cellOffset pg + 2 * nCell pg))"
  shows "space pBt (pg\<lparr>aData := d'\<rparr>) cs' [] cbrk []" "ptrs_ok d' (cellOffset pg) cs'" "d' (hdrOffset pg + 7) = d (hdrOffset pg + 7)"
    "\<And>i. i < cellOffset pg \<Longrightarrow> i \<notin> {hdrOffset pg + 1, hdrOffset pg + 2, hdrOffset pg + 5, hdrOffset pg + 6, hdrOffset pg + 7} \<Longrightarrow> d' i = aData pg i"
proof -
  let ?h = "hdrOffset pg" and ?g = "cellOffset pg + 2 * nCell pg"
  note P = space_parts [OF sp] and F = static_facts [OF sp]
  have h: "?h + 8 \<le> cellOffset pg" "length cs' = length cs" using P(3) c(1) map_eq_imp_length_eq by auto
  have lo: "d' i = put2byte ((d)(?h + 1 := 0, ?h + 2 := 0)) (?h + 5) cbrk i" if "i < ?g \<or> cbrk \<le> i" for i
    using that by (auto simp: d' memset_def put2byte_def)
  have cbrk: "0 < cbrk" "cbrk \<le> 65536" using gap P(3) lay F(3) by (auto simp: layout_def)
  have top: "get2byteNotZero d' (?h + 5) = cbrk"
    using get2byteNotZero_put [OF cbrk, of "d(?h + 1 := 0, ?h + 2 := 0)" "?h + 5"] notZero_cong [of d' "?h + 5" "put2byte (d(?h + 1 := 0, ?h + 2 := 0)) (?h + 5) cbrk"] lo [of "?h + 5"] lo [of "?h + 5 + 1"] h by simp
  have out: "d' i = d i" if "i < ?g \<or> cbrk \<le> i" "i \<notin> {?h + 1, ?h + 2, ?h + 5, ?h + 6}" for i
    using lo [OF that(1)] that(2) by (auto simp: put2byte_def)
  show h7: "d' (?h + 7) = d (?h + 7)" using out [of "?h + 7"] h by simp
  show "ptrs_ok d' (cellOffset pg) cs'" by (rule ptrs_ok_cong [OF c(3)], rule out) (use h n(1) in auto)
  show "d' i = aData pg i" if "i < cellOffset pg" "i \<notin> {?h + 1, ?h + 2, ?h + 5, ?h + 6, ?h + 7}" for i
    using out [of i] same [of i] that by simp
  have "stored d' cs'"
  proof (rule stored_cong [OF c(2)])
    fix i assume "i \<in> cover (regs cs')"
    then have "cbrk \<le> i" using lay by (auto simp: layout_def)
    then show "d' i = d i" using out [of i] gap h(1) by simp
  qed
  moreover have "snd ` set cs' = snd ` set cs" using c(1) by (metis list.set_map)
  moreover have "get2byte d' (?h + 1) = 0" using lo [of "?h + 1"] lo [of "?h + 2"] h by (simp add: get2byte_0 put2byte_def)
  ultimately show "space pBt (pg\<lparr>aData := d'\<rparr>) cs' [] cbrk []"
    using sp top gap lay h7 unfolding space_def by (simp add: chain_simps)
qed

lemma defragmentPage_space:
  assumes sp: "space pBt pg cs [] ctop fs" and n: "nCell pg = length cs" "cs \<noteq> []" and p: "ptrs_ok (aData pg) (cellOffset pg) cs"
    and free: "nFree pg = free_bytes pBt pg cs"
  shows "\<exists>d' cs' cbrk. defragmentPage pBt pg nMaxFrag = (pg\<lparr>aData := d'\<rparr>, SQLITE_OK) \<and> space pBt (pg\<lparr>aData := d'\<rparr>) cs' [] cbrk [] \<and>
    map snd cs' = map snd cs \<and> ptrs_ok d' (cellOffset pg) cs' \<and> int (unat (d' (hdrOffset pg + 7))) \<le> max 0 nMaxFrag \<and>
    (\<forall>i < cellOffset pg. i \<notin> {hdrOffset pg + 1, hdrOffset pg + 2, hdrOffset pg + 5, hdrOffset pg + 6, hdrOffset pg + 7} \<longrightarrow> d' i = aData pg i)"
proof -
  let ?h = "hdrOffset pg" and ?g = "cellOffset pg + 2 * nCell pg" and ?u = "usableSize pBt"
  note P = space_parts [OF sp]
  have lay: "tot (regs cs) + tot fs + unat (aData pg (?h + 7)) = ?u - ctop" "ctop \<le> ?u" using P(7) by (simp_all add: layout_def)
  obtain d cbrk cs' where d: "(case defrag_fast pBt pg nMaxFrag of Some r \<Rightarrow> r | None \<Rightarrow> defrag_slow pBt pg) = (d, cbrk, SQLITE_OK)"
    "map snd cs' = map snd cs" "ptrs_ok d (cellOffset pg) cs'" "stored d cs'" "layout cbrk ?u (regs cs') (unat (d (?h + 7)))" "ctop \<le> cbrk"
    "\<And>i. i < cellOffset pg \<Longrightarrow> i \<noteq> ?h + 7 \<Longrightarrow> d i = aData pg i" "int (unat (d (?h + 7))) \<le> max 0 nMaxFrag"
  proof (cases "defrag_fast pBt pg nMaxFrag = None")
    case True
    obtain d where d: "defrag_slow pBt pg = (d, ?u - tot (regs cs), SQLITE_OK)" "d (?h + 7) = 0" "ptrs_ok d (cellOffset pg) (packed ?u cs)" "stored d (packed ?u cs)"
      "\<forall>i. i < cellOffset pg \<longrightarrow> i \<noteq> ?h + 7 \<longrightarrow> d i = aData pg i" using defrag_slow_spec [OF sp n p] by blast
    have "layout (?u - tot (regs cs)) ?u (regs (packed ?u cs)) (unat (d (?h + 7)))"
      using packed_cover [of cs ?u] packed_tot [of ?u cs] lay d(2) by (auto simp: layout_def)
    then show ?thesis using d True lay packed_snd by (intro that [of d "?u - tot (regs cs)" "packed ?u cs"]) auto
  next
    case False
    then obtain d cs' where d: "defrag_fast pBt pg nMaxFrag = Some (d, ctop + tot fs, SQLITE_OK)" "int (unat (aData pg (?h + 7))) \<le> nMaxFrag"
      "map snd cs' = map snd cs" "ptrs_ok d (cellOffset pg) cs'" "stored d cs'" "layout (ctop + tot fs) ?u (regs cs') (unat (aData pg (?h + 7)))"
      "\<forall>i < cellOffset pg. d i = aData pg i" using defrag_fast_spec [OF sp n p, of nMaxFrag] by (elim disjE exE conjE) simp_all
    moreover have "d (?h + 7) = aData pg (?h + 7)" using d(7) P(3) by simp
    ultimately show ?thesis by (intro that [of d "ctop + tot fs" cs']) auto
  qed
  have tot: "tot (regs cs') = tot (regs cs)" by (rule tot_snd [OF d(2)])
  have gap: "?g \<le> cbrk" using P(2) d(6) by simp
  have "tot (regs cs) + unat (d (?h + 7)) = ?u - cbrk" "cbrk \<le> ?u" using d(5) tot by (simp_all add: layout_def)
  then have chk: "int (unat (d (?h + 7))) + int cbrk - int ?g = nFree pg" unfolding free free_bytes_def by linarith
  define d' where "d' = memset ((put2byte d (?h + 5) cbrk)(?h + 1 := 0, ?h + 2 := 0)) ?g 0 (cbrk - ?g)"
  note R = defrag_result [OF sp d(2,4,3,5) n gap d(7) d'_def]
  have "defragmentPage pBt pg nMaxFrag = (pg\<lparr>aData := d'\<rparr>, SQLITE_OK)" using d(1) chk by (simp add: defragmentPage_def d'_def Let_def)
  moreover have "int (unat (d' (?h + 7))) \<le> max 0 nMaxFrag" using R(3) d(8) by simp
  ultimately show ?thesis using R(1,2,4) d(2) by blast
qed

end
