(* ===== verification/Btree_Free.thy ===== *)
theory Btree_Free
  imports Btree_Space
begin

text \<open>Freeing a region of a b-tree page: finding its place, merging it with its neighbours and linking it in.\<close>

lemma layout_fill:
  assumes "layout c u (M @ Y) f" "span N \<inter> cover Y = {}" "span N \<subseteq> {c..<u}" "tot M + g = snd N"
  shows "g \<le> f"
proof -
  obtain s z where N: "N = (s, z)" by (cases N)
  have "card (span N \<union> cover Y) = z + tot Y" using assms(1,2) card_cover [of Y] by (subst card_Un_disjoint) (auto simp: N layout_def)
  moreover have "card (span N \<union> cover Y) \<le> card {c..<u}" using assms(1,3) by (intro card_mono) (auto simp: layout_def)
  ultimately show ?thesis using assms(1,4) by (simp add: layout_def N)
qed

lemma free_find_spec:
  assumes "chain d a fs" "ascending lo u fs" "a < lo" "0 < p"
  shows "\<exists>A B. fs = A @ B \<and> (\<forall>(s, z) \<in> set A. s < p) \<and> (\<forall>(s, z) \<in> set B. p \<le> s) \<and> free_find d p a = Some (last_addr a A, first_block B)"
  using assms
proof (induction fs arbitrary: a lo)
  case Nil
  then show ?case by (simp add: free_find.simps [of d p a] chain_simps)
next
  case (Cons f fs)
  obtain s z where f: "f = (s, z)" by (cases f)
  have c: "get2byte d a = s" "chain d s fs" using Cons.prems(1) by (simp_all add: f chain_simps)
  have o: "lo \<le> s" "ascending (s + z + 4) u fs" using Cons.prems(2) f by simp_all
  show ?case
  proof (cases "s < p")
    case True
    obtain A B where AB: "fs = A @ B" "\<forall>(s, z) \<in> set A. s < p" "\<forall>(s, z) \<in> set B. p \<le> s" "free_find d p s = Some (last_addr s A, first_block B)"
      using Cons.IH [OF c(2) o(2) _ Cons.prems(4)] by auto
    have "free_find d p a = free_find d p s" using True c(1) o(1) Cons.prems(3) by (subst free_find.simps) (simp add: Let_def)
    then show ?thesis using AB True f by (intro exI [of _ "f # A"] exI [of _ B]) simp
  next
    case False
    then have "free_find d p a = Some (a, s)" using c(1) by (subst free_find.simps) (simp add: Let_def)
    moreover have "\<forall>(t, w) \<in> set (f # fs). p \<le> t"
    proof clarify
      fix t w assume "(t, w) \<in> set (f # fs)"
      then show "p \<le> t" using ascending_range [OF Cons.prems(2), of t w] ascending_range [OF o(2), of t w] False f by auto
    qed
    ultimately show ?thesis using f by (intro exI [of _ "[]"] exI [of _ "f # fs"]) simp
  qed
qed

text \<open>The free block behind.\<close>

lemma merge_next_spec:
  assumes "chain d a B" "ascending lo u B" "\<forall>(s, z) \<in> set B. e0 \<le> s" "0 < e0"
  obtains g e B1 M x where "merge_next u d p e0 (first_block B) = Some (g, e, first_block B1)" "B = M @ B1" "chain d x B1" "ascending (e + 4) u B1"
    "tot M + g = e - e0" "e0 \<le> e" "M = [] \<and> e = e0 \<or> (\<exists>s z. M = [(s, z)] \<and> e0 \<le> s \<and> s \<le> e0 + 3 \<and> e = s + z \<and> 4 \<le> z \<and> e \<le> u)"
proof (cases "B \<noteq> [] \<and> first_block B \<le> e0 + 3")
  case True
  then obtain s z B' where B: "B = (s, z) # B'" by (cases B) auto
  have c: "get2byte d s = first_block B'" "get2byte d (s + 2) = z" "chain d s B'" using assms(1) chain_first [of d s B'] by (simp_all add: B chain_simps)
  have o: "4 \<le> z" "s + z \<le> u" "ascending (s + z + 4) u B'" "e0 \<le> s" "s \<le> e0 + 3" using assms(2,3) True B by auto
  show ?thesis
  proof (rule that [of "s - e0" "s + z" B' "[(s, z)]" s])
    show "merge_next u d p e0 (first_block B) = Some (s - e0, s + z, first_block B')"
      using o c B assms(4) by (auto simp: merge_next_def Let_def)
  qed (use B o c in auto)
next
  case False
  show ?thesis
  proof (rule that [of 0 e0 B "[]" a])
    show "merge_next u d p e0 (first_block B) = Some (0, e0, first_block B)" using False by (cases B) (auto simp: merge_next_def)
    show "ascending (e0 + 4) u B" using False assms(2) by (cases B) auto
  qed (use assms in auto)
qed

text \<open>The free block in front.\<close>

lemma merge_prev_spec:
  assumes "links d h1 A" "ascending lo u A" "h + 1 = h1" "h1 < lo" "\<forall>(s, z) \<in> set A. s + z \<le> p" "lo \<le> p + 1"
  obtains g st A1 M where "merge_prev h d (last_addr h1 A) p g0 = Some (g0 + g, st)" "A = A1 @ M" "tot M + g = p - st" "st \<le> p"
    "M = [] \<and> st = p \<and> last_addr h1 A = last_addr h1 A1 \<and> (A1 = [] \<or> end_of lo A1 \<le> p) \<or>
      (\<exists>z. M = [(st, z)] \<and> 4 \<le> z \<and> st + z \<le> p \<and> p \<le> st + z + 3 \<and> last_addr h1 A = st \<and> get2byte d (last_addr h1 A1) = st \<and> end_of lo A1 \<le> st)"
proof (cases "A = []")
  case True
  then show ?thesis using assms(3) by (intro that [of 0 p "[]" "[]"]) (auto simp: merge_prev_def)
next
  case False
  obtain A1 s z where A: "A = A1 @ [(s, z)]" using False by (metis append_butlast_last_id surj_pair)
  have c: "get2byte d (last_addr h1 A1) = s" "get2byte d (s + 2) = z" using assms(1) A by simp_all
  have o: "end_of lo A1 \<le> s" "4 \<le> z" "s + z \<le> p" using assms(2,5) A by auto
  have "lo \<le> s" using ascending_range [OF assms(2), of s z] A by simp
  then have s: "h + 1 < s" using assms(3,4) by simp
  show ?thesis
  proof (cases "s + z + 3 \<ge> p")
    case True
    then have "merge_prev h d (last_addr h1 A) p g0 = Some (g0 + (p - (s + z)), s)" using c o s A by (simp add: merge_prev_def Let_def)
    then show ?thesis using True c o A by (intro that [of "p - (s + z)" s A1 "[(s, z)]"]) auto
  next
    case False
    then have "merge_prev h d (last_addr h1 A) p g0 = Some (g0, p)" using c A by (simp add: merge_prev_def Let_def)
    then show ?thesis using False A by (intro that [of 0 p A "[]"]) (auto simp: end_of_def)
  qed
qed

text \<open>The merged block touches nothing but the blocks it absorbs and fragment bytes.\<close>

lemma merged_disjoint:
  assumes Y: "\<And>y. y \<in> set Y \<Longrightarrow> 4 \<le> snd y \<and> span y \<inter> {p..<p + n} = {} \<and> span y \<inter> cover M0 = {} \<and> span y \<inter> cover M1 = {}" and n: "0 < n"
    and M0: "M0 = [] \<and> st = p \<or> (\<exists>z. M0 = [(st, z)] \<and> 4 \<le> z \<and> st + z \<le> p \<and> p \<le> st + z + 3)"
    and M1: "M1 = [] \<and> e = p + n \<or> (\<exists>s z. M1 = [(s, z)] \<and> p + n \<le> s \<and> s \<le> p + n + 3 \<and> e = s + z \<and> 4 \<le> z \<and> e \<le> u)"
  shows "{st..<e} \<inter> cover Y = {}"
proof -
  have "{st..<e} \<inter> span y = {}" if y: "y \<in> set Y" for y
  proof -
    obtain q l where q: "y = (q, l)" by (cases y)
    have d: "4 \<le> l" "{p..<p + n} \<inter> {q..<q + l} = {}" "cover M0 \<inter> {q..<q + l} = {}" "cover M1 \<inter> {q..<q + l} = {}" using Y [OF y] q by auto
    have "{st..<p} \<inter> {q..<q + l} = {}"
    proof (cases "M0 = []")
      case False
      then obtain z where z: "M0 = [(st, z)]" "4 \<le> z" "st + z \<le> p" "p \<le> st + z + 3" using M0 by blast
      have "{st + z..<p} \<inter> {q..<q + l} = {}" using gap_free [of st "st + z" q l p "p + n"] d z n by simp
      moreover have "{st..<p} = {st..<st + z} \<union> {st + z..<p}" using z by auto
      ultimately show ?thesis using d(3) z(1) by auto
    qed (use M0 in simp)
    moreover have "{p + n..<e} \<inter> {q..<q + l} = {}"
    proof (cases "M1 = []")
      case False
      then obtain s z where z: "M1 = [(s, z)]" "p + n \<le> s" "s \<le> p + n + 3" "e = s + z" "4 \<le> z" using M1 by blast
      have "{p + n..<s} \<inter> {q..<q + l} = {}" using gap_free [of p "p + n" q l s "s + z"] d z n by simp
      moreover have "{p + n..<e} = {p + n..<s} \<union> {s..<s + z}" using z by auto
      ultimately show ?thesis using d(4) z(1) by auto
    qed (use M1 in simp)
    moreover have "{st..<e} = {st..<p} \<union> {p..<p + n} \<union> {p + n..<e}" using M0 M1 by auto
    ultimately show ?thesis using d(2) q by auto
  qed
  then show ?thesis by (auto simp: cover_def)
qed

definition merged :: "BtShared \<Rightarrow> MemPage \<Rightarrow> (nat \<times> bytes) list \<Rightarrow> nat \<Rightarrow> region list \<Rightarrow> region list \<Rightarrow> nat \<Rightarrow> nat \<Rightarrow> nat \<Rightarrow> bool" where
  "merged pBt pg cs ctop A B st e g \<longleftrightarrow>
     links (aData pg) (hdrOffset pg + 1) A \<and> ascending (ctop + 1) (usableSize pBt) A \<and> (A = [] \<or> end_of (ctop + 1) A \<le> st) \<and>
     (\<exists>x. chain (aData pg) x B) \<and> ascending (e + 4) (usableSize pBt) B \<and>
     ctop \<le> st \<and> st + 4 \<le> e \<and> e \<le> usableSize pBt \<and> {st..<e} \<inter> cover (regs cs @ A @ B) = {} \<and> g \<le> unat (aData pg (hdrOffset pg + 7)) \<and>
     (\<exists>M. layout ctop (usableSize pBt) (M @ regs cs @ A @ B) (unat (aData pg (hdrOffset pg + 7))) \<and> tot M + g = e - st)"

text \<open>Where the free blocks lie relative to the freed region.\<close>

lemma freed_neighbours:
  assumes sp: "space pBt pg cs [(p, n)] ctop (A @ B)" and n: "4 \<le> n" and AB: "\<forall>(s, z) \<in> set A. s < p" "\<forall>(s, z) \<in> set B. p \<le> s"
  shows "\<forall>(s, z) \<in> set A. s + z \<le> p" "\<forall>(s, z) \<in> set B. p + n \<le> s"
proof -
  note P = space_parts [OF sp]
  have dis: "p \<notin> {s..<s + z}" "s \<notin> {p..<p + n}" if "(s, z) \<in> set (A @ B)" for s z
  proof -
    have "span (s, z) \<subseteq> cover (A @ B)" using that by (auto simp only: cover_def)
    moreover have "cover (A @ B) \<inter> {p..<p + n} = {}" using P(7) by (auto simp: layout_def)
    moreover have "4 \<le> z" using ascending_range [OF P(5) that] by simp
    moreover have "p \<in> {p..<p + n}" "4 \<le> z \<Longrightarrow> s \<in> span (s, z)" using n by simp_all
    ultimately show "p \<notin> {s..<s + z}" "s \<notin> {p..<p + n}" by (simp_all only: span.simps) blast+
  qed
  show "\<forall>(s, z) \<in> set A. s + z \<le> p" using AB(1) dis by force
  show "\<forall>(s, z) \<in> set B. p + n \<le> s" using AB(2) dis by force
qed

lemma freeSpace_eq:
  assumes sp: "space pBt pg cs [(p, n)] ctop (A @ B)"
    and f: "free_find (aData pg) p (hdrOffset pg + 1) = Some (last_addr (hdrOffset pg + 1) A, first_block B)"
    and N: "merge_next (usableSize pBt) (aData pg) p (p + n) (first_block B) = Some (g1, e, b)"
    and V: "merge_prev (hdrOffset pg) (aData pg) (last_addr (hdrOffset pg + 1) A) p g1 = Some (g, st)"
    and g: "g \<le> unat (aData pg (hdrOffset pg + 7))"
  shows "freeSpace pBt pg p n =
    free_tail pBt pg ((aData pg)(hdrOffset pg + 7 := aData pg (hdrOffset pg + 7) - of_nat g)) (last_addr (hdrOffset pg + 1) A) st e b n"
proof (cases "A @ B = []")
  case True
  then have "get2byte (aData pg) (hdrOffset pg + 1) = 0" using space_parts(4) [OF sp] by (simp add: chain_simps)
  then have z: "aData pg (hdrOffset pg + 1) = 0" "aData pg (hdrOffset pg + 2) = 0" by (simp_all add: get2byte_0)
  have "g = 0" "st = p" "e = p + n" "b = 0" "last_addr (hdrOffset pg + 1) A = hdrOffset pg + 1" using N V True by (auto simp: merge_next_def merge_prev_def)
  then show ?thesis using z by (simp add: freeSpace_def Let_def)
next
  case False
  note P = space_parts [OF sp]
  obtain s z C where C: "A @ B = (s, z) # C" using False by (cases "A @ B") auto
  have "get2byte (aData pg) (hdrOffset pg + 1) \<noteq> 0" using chain_first [OF P(4)] P(5) C by auto
  then have z: "\<not> (aData pg (hdrOffset pg + 2) = 0 \<and> aData pg (hdrOffset pg + 1) = 0)" by (auto simp: get2byte_0)
  have "\<not> first_block B > usableSize pBt - 4"
  proof (cases B)
    case (Cons y B')
    obtain t w where "y = (t, w)" by (cases y)
    then show ?thesis using ascending_range [OF P(5), of t w] Cons by auto
  qed simp
  then show ?thesis unfolding freeSpace_def Let_def if_not_P [OF z] f option.case prod.case using N V g by simp
qed

lemma space_sizes: "space pBt pg cs R ctop fs \<Longrightarrow> y \<in> set (regs cs) \<or> y \<in> set fs \<Longrightarrow> 4 \<le> snd y"
  using cell_ok_length [of pBt pg] ascending_range [of "ctop + 1" "usableSize pBt" fs "fst y" "snd y"]
  by (auto simp: space_def page_static_def)

lemma free_merged:
  assumes sp: "space pBt pg cs [(p, n)] ctop fs" and n: "4 \<le> n"
  obtains A B st e g iPtr where "merged pBt pg cs ctop A B st e g"
    "iPtr = last_addr (hdrOffset pg + 1) A \<or> iPtr = st \<and> ctop < st \<and> get2byte (aData pg) (last_addr (hdrOffset pg + 1) A) = st"
    "freeSpace pBt pg p n = free_tail pBt pg ((aData pg)(hdrOffset pg + 7 := aData pg (hdrOffset pg + 7) - of_nat g)) iPtr st e (first_block B) n"
proof -
  let ?h = "hdrOffset pg" and ?d = "aData pg" and ?u = "usableSize pBt"
  note P = space_parts [OF sp]
  have pn: "ctop \<le> p" "p + n \<le> ?u" "0 < p" using P(7) n P(2,3) by (auto simp: layout_def)
  have lt: "?h + 1 < ctop + 1" "ctop + 1 \<le> p + 1" "0 < p + n" using P(2,3) pn by simp_all
  obtain A' B' where AB: "fs = A' @ B'" "\<forall>(s, z) \<in> set A'. s < p" "\<forall>(s, z) \<in> set B'. p \<le> s" "free_find ?d p (?h + 1) = Some (last_addr (?h + 1) A', first_block B')"
    using free_find_spec [OF P(4,5) lt(1) pn(3)] by auto
  note sp' = sp [unfolded AB(1)]
  note nb = freed_neighbours [OF sp' n AB(2,3)]
  have ch: "links ?d (?h + 1) A'" "chain ?d (last_addr (?h + 1) A') B'" using P(4) AB(1) by (simp_all add: chain_append)
  have asc: "ascending (ctop + 1) ?u A'" "ascending (end_of (ctop + 1) A') ?u B'" using P(5) AB(1) by simp_all
  obtain g1 e B M1 x where N: "merge_next ?u ?d p (p + n) (first_block B') = Some (g1, e, first_block B)" "B' = M1 @ B" "chain ?d x B" "ascending (e + 4) ?u B"
    "tot M1 + g1 = e - (p + n)" "p + n \<le> e" and M1: "M1 = [] \<and> e = p + n \<or> (\<exists>s z. M1 = [(s, z)] \<and> p + n \<le> s \<and> s \<le> p + n + 3 \<and> e = s + z \<and> 4 \<le> z \<and> e \<le> ?u)"
    by (rule merge_next_spec [OF ch(2) asc(2) nb(2) lt(3), of p])
  obtain g2 st A M0 where V: "merge_prev ?h ?d (last_addr (?h + 1) A') p g1 = Some (g1 + g2, st)" "A' = A @ M0" "tot M0 + g2 = p - st" "st \<le> p"
    and M0: "M0 = [] \<and> st = p \<and> last_addr (?h + 1) A' = last_addr (?h + 1) A \<and> (A = [] \<or> end_of (ctop + 1) A \<le> p) \<or>
      (\<exists>z. M0 = [(st, z)] \<and> 4 \<le> z \<and> st + z \<le> p \<and> p \<le> st + z + 3 \<and> last_addr (?h + 1) A' = st \<and> get2byte ?d (last_addr (?h + 1) A) = st \<and> end_of (ctop + 1) A \<le> st)"
    by (rule merge_prev_spec [OF ch(1) asc(1) refl lt(1) nb(1) lt(2), of g1])
  have st: "M0 \<noteq> [] \<Longrightarrow> ctop < st" "ctop \<le> st"
  proof -
    show 1: "ctop < st" if m: "M0 \<noteq> []"
    proof -
      obtain z where "M0 = [(st, z)]" using M0 m by blast
      then have "(st, z) \<in> set A'" using V(2) by simp
      from ascending_range [OF asc(1) this] show ?thesis by simp
    qed
    show "ctop \<le> st" using 1 M0 pn(1) by (cases "M0 = []") auto
  qed
  have lay: "layout ctop ?u (((p, n) # M0 @ M1) @ regs cs @ A @ B) (unat (?d (?h + 7)))"
    using P(7) layout_mset [of "regs cs @ [(p, n)] @ fs" "((p, n) # M0 @ M1) @ regs cs @ A @ B"] AB(1) N(2) V(2) by (simp add: ac_simps)
  have Y: "{st..<e} \<inter> cover (regs cs @ A @ B) = {}"
  proof (rule merged_disjoint [where ?M0.0 = M0 and ?M1.0 = M1 and u = ?u])
    fix y assume y: "y \<in> set (regs cs @ A @ B)"
    then have "y \<in> set (regs cs) \<or> y \<in> set fs" using AB(1) N(2) V(2) by auto
    then have "4 \<le> snd y" by (rule space_sizes [OF sp])
    moreover have "span y \<subseteq> cover (regs cs @ A @ B)" using y by (auto simp only: cover_def)
    moreover have "cover (regs cs @ A @ B) \<inter> cover ((p, n) # M0 @ M1) = {}" using lay by (auto simp only: layout_def tiles_append)
    ultimately show "4 \<le> snd y \<and> span y \<inter> {p..<p + n} = {} \<and> span y \<inter> cover M0 = {} \<and> span y \<inter> cover M1 = {}" by (simp only: cover_simps span.simps) blast
  qed (use n M0 M1 in auto)
  have e: "st + 4 \<le> e" "e \<le> ?u" using V(4) N(6) n M1 pn(2) by auto
  have t: "tot ((p, n) # M0 @ M1) + (g1 + g2) = e - st" using N(5,6) V(3,4) by simp
  have g: "g1 + g2 \<le> unat (?d (?h + 7))" using layout_fill [OF lay, of "(st, e - st)"] Y st(2) e t by auto
  have "\<exists>M. layout ctop ?u (M @ regs cs @ A @ B) (unat (?d (?h + 7))) \<and> tot M + (g1 + g2) = e - st" using lay t by blast
  moreover have "links ?d (?h + 1) A" "ascending (ctop + 1) ?u A" "A = [] \<or> end_of (ctop + 1) A \<le> st" using ch(1) asc(1) V(2) M0 by auto
  ultimately have "merged pBt pg cs ctop A B st e (g1 + g2)"
    unfolding merged_def using N(3,4) st(2) e Y g by blast
  moreover have "last_addr (?h + 1) A' = last_addr (?h + 1) A \<or> last_addr (?h + 1) A' = st \<and> ctop < st \<and> get2byte ?d (last_addr (?h + 1) A) = st"
    using M0 st(1) by auto
  ultimately show ?thesis using freeSpace_eq [OF sp' AB(4) N(1) V(1) g] that by blast
qed

section \<open>Linking the block in\<close>

lemma unat_less_frag: "g \<le> unat (w :: u8) \<Longrightarrow> unat (w - of_nat g) = unat w - g"
proof -
  assume g: "g \<le> unat w"
  have "unat (of_nat g :: u8) = g" using g unat_u8_less [of w] by (simp add: unat_of_nat_u8)
  then show ?thesis using g by (simp add: unat_sub word_le_nat_alt)
qed

definition wiped :: "BtShared \<Rightarrow> MemPage \<Rightarrow> nat \<Rightarrow> nat \<Rightarrow> nat \<Rightarrow> mem" where
  "wiped pBt pg g st e =
     (let d = (aData pg)(hdrOffset pg + 7 := aData pg (hdrOffset pg + 7) - of_nat g) in if fastSecure pBt then memset d st 0 (e - st) else d)"

lemma wiped_other: "i \<notin> {st..<e} \<Longrightarrow> i \<noteq> hdrOffset pg + 7 \<Longrightarrow> wiped pBt pg g st e i = aData pg i"
  by (auto simp: wiped_def memset_def Let_def)

lemma wiped_frag: "hdrOffset pg + 7 < st \<Longrightarrow> wiped pBt pg g st e (hdrOffset pg + 7) = aData pg (hdrOffset pg + 7) - of_nat g"
  by (auto simp: wiped_def memset_def Let_def)

lemma first_block_less: "ascending lo u B \<Longrightarrow> u \<le> 65536 \<Longrightarrow> first_block B < 65536"
  by (cases B) (auto, force?)

lemma free_top:
  assumes sp: "space pBt pg cs R ctop fs" and m: "merged pBt pg cs ctop [] B ctop e g"
    and d': "d' = put2byte (put2byte (wiped pBt pg g ctop e) (hdrOffset pg + 1) (first_block B)) (hdrOffset pg + 5) e"
  shows "space pBt (pg\<lparr>aData := d'\<rparr>) cs [] e B"
proof -
  let ?h = "hdrOffset pg" and ?u = "usableSize pBt" and ?w = "wiped pBt pg g ctop e"
  note P = space_parts [OF sp] and F = static_facts [OF sp]
  obtain x M where M: "chain (aData pg) x B" "ascending (e + 4) ?u B" "ctop + 4 \<le> e" "e \<le> ?u" "{ctop..<e} \<inter> cover (regs cs @ B) = {}"
    "g \<le> unat (aData pg (?h + 7))" "layout ctop ?u (M @ regs cs @ B) (unat (aData pg (?h + 7)))" "tot M + g = e - ctop"
    using m by (auto simp: merged_def)
  have out: "d' i = aData pg i" if "i \<notin> {?h + 1, ?h + 2, ?h + 5, ?h + 6, ?h + 7}" "i \<notin> {ctop..<e}" for i
    using that by (auto simp: d' put2byte_def wiped_other)
  have Y: "cover (regs cs @ B) \<subseteq> {e..<?u}"
  proof
    fix i assume i: "i \<in> cover (regs cs @ B)"
    have "cover (regs cs @ B) \<subseteq> {ctop..<?u}" using M(7) by (simp add: layout_def)
    then have "i \<in> {ctop..<?u}" "i \<notin> {ctop..<e}" using i M(5) by blast+
    then show "i \<in> {e..<?u}" by simp
  qed
  have far: "d' i = aData pg i" if "i \<in> cover (regs cs @ B)" for i
    using out [of i] that Y M(3) F(1) by fastforce
  have "get2byte d' (?h + 1) = first_block B"
    using first_block_less [OF M(2) F(3)] by (simp add: d' get2byte_put2byte_other get2byte_put2byte)
  then have "chain d' (?h + 1) B"
    using chain_move [OF M(1)] far block_bytes [OF M(2)] by force
  moreover have "layout e ?u (regs cs @ [] @ B) (unat (d' (?h + 7)))"
  proof -
    have "d' (?h + 7) = aData pg (?h + 7) - of_nat g" using wiped_frag [of pg ctop pBt g e] F(1) by (simp add: d' put2byte_def)
    then show ?thesis using layout_raise [OF M(7) Y] M unat_less_frag [OF M(6)] by simp
  qed
  moreover have "get2byteNotZero d' (?h + 5) = e" using M(3,4) F(3) by (simp add: d' get2byteNotZero_put)
  moreover have "ascending (e + 1) ?u B" using ascending_mono [OF M(2)] by simp
  ultimately show ?thesis using P(2) M(3) far by (intro space_upd [OF sp]) auto
qed

lemma free_link:
  assumes sp: "space pBt pg cs R ctop fs" and m: "merged pBt pg cs ctop A B st e g" and lt: "ctop < st"
    and iPtr: "iPtr = last_addr (hdrOffset pg + 1) A \<or> iPtr = st \<and> ctop < st \<and> get2byte (aData pg) (last_addr (hdrOffset pg + 1) A) = st"
    and d': "d' = put2byte (put2byte (put2byte (wiped pBt pg g st e) iPtr st) st (first_block B)) (st + 2) ((e - st) mod 65536)"
  shows "space pBt (pg\<lparr>aData := d'\<rparr>) cs [] ctop (A @ (st, e - st) # B) \<and>
    (\<forall>i. i \<notin> {hdrOffset pg + 1, hdrOffset pg + 2, hdrOffset pg + 7} \<union> {ctop..<usableSize pBt} \<longrightarrow> d' i = aData pg i)"
proof -
  let ?h = "hdrOffset pg" and ?u = "usableSize pBt" and ?w = "wiped pBt pg g st e" and ?a = "last_addr (hdrOffset pg + 1) A"
  note P = space_parts [OF sp] and F = static_facts [OF sp]
  obtain x M where M: "links (aData pg) (?h + 1) A" "ascending (ctop + 1) ?u A" "A = [] \<or> end_of (ctop + 1) A \<le> st"
    "chain (aData pg) x B" "ascending (e + 4) ?u B" "st + 4 \<le> e" "e \<le> ?u" "{st..<e} \<inter> cover (regs cs @ A @ B) = {}"
    "g \<le> unat (aData pg (?h + 7))" "layout ctop ?u (M @ regs cs @ A @ B) (unat (aData pg (?h + 7)))" "tot M + g = e - st"
    using m by (auto simp: merged_def)
  have a: "?a = ?h + 1 \<or> ?a \<in> cover A \<and> ?a + 1 \<in> cover A" using last_addr_place [OF M(2), of "?h + 1"] by auto
  have lay: "cover (regs cs @ A @ B) \<subseteq> {ctop..<?u}" "cover A \<inter> cover B = {}" "cover A \<inter> cover (regs cs) = {}" using M(10) by (auto simp: layout_def)
  have A: "cover A \<subseteq> {ctop + 1..<?u}" using ascending_tiles [OF M(2)] by simp
  have a_out: "?a \<notin> {st..<e}" "?a + 1 \<notin> {st..<e}" "?a \<noteq> ?h + 7" "?a + 1 \<noteq> ?h + 7" using a A M(8) lt F(1) by auto
  have out: "d' i = aData pg i" if "i \<notin> {?a, ?a + 1}" "i \<notin> {?h + 7} \<union> {st..<e}" for i
    using that iPtr M(6) by (auto simp: d' put2byte_def wiped_other)
  have ptr: "get2byte d' ?a = st"
  proof -
    have "st < 65536" "get2byte d' ?a = get2byte (put2byte ?w iPtr st) ?a" using a_out M(6,7) F(3) unfolding d'
      by (auto intro!: get2byte_cong simp: put2byte_def)
    then show ?thesis using iPtr a_out M(6) get2byte_put2byte [of st ?w] by (auto intro!: get2byte_cong simp: put2byte_def wiped_other)
  qed
  have links: "links d' (?h + 1) A"
  proof (rule links_relink [OF M(1,2), where W = "{?h + 7} \<union> {st..<e}"])
    show "?h + 1 + 2 \<le> ctop + 1" using F(1) by simp
    show "({?h + 7} \<union> {st..<e}) \<inter> cover A = {}" using A M(8) F(1) by auto
  qed (use out lt F(1) in auto)
  have B: "d' j = aData pg j" if j: "j \<in> cover B \<or> j \<in> cover (regs cs)" for j
  proof -
    have "ctop \<le> j" "j \<notin> {st..<e}" "j \<notin> cover A" using j lay M(8) by auto
    then show ?thesis using out [of j] a F(1) by auto
  qed
  have "chain d' st B"
  proof (rule chain_move [OF M(4)])
    show "get2byte d' st = first_block B" using first_block_less [OF M(5) F(3)] by (simp add: d' get2byte_put2byte_other get2byte_put2byte)
    show "\<forall>(s, z) \<in> set B. \<forall>i < 4. d' (s + i) = aData pg (s + i)" using block_bytes [OF M(5)] B by blast
  qed
  moreover have "get2byte d' (st + 2) = e - st" using M(6,7) lt F by (simp add: d' get2byte_put2byte)
  ultimately have "chain d' (?h + 1) (A @ (st, e - st) # B)" using links ptr by (simp add: chain_append chain_simps)
  moreover have "ascending (ctop + 1) ?u (A @ (st, e - st) # B)" using M(2,3,5,6,7) lt by auto
  moreover have "layout ctop ?u (regs cs @ [] @ A @ (st, e - st) # B) (unat (d' (?h + 7)))"
  proof -
    have "d' (?h + 7) = aData pg (?h + 7) - of_nat g" using wiped_frag [of pg st pBt g e] F(1) lt a_out iPtr by (auto simp: d' put2byte_def)
    moreover have "layout ctop ?u ((st, e - st) # regs cs @ A @ B) (unat (aData pg (?h + 7)) - g)"
      using M(6,7,9,11) lt M(8) by (intro layout_join [OF M(10)]) auto
    ultimately show ?thesis using unat_less_frag [OF M(9)]
        layout_mset [of "(st, e - st) # regs cs @ A @ B" "regs cs @ [] @ A @ (st, e - st) # B"] by simp
  qed
  moreover have "get2byteNotZero d' (?h + 5) = ctop"
    using top_same [of d' ?h "aData pg"] out [of "?h + 5"] out [of "?h + 6"] a A lt F(1) P(1) by fastforce
  ultimately have "space pBt (pg\<lparr>aData := d'\<rparr>) cs [] ctop (A @ (st, e - st) # B)" using B by (intro space_upd [OF sp _ P(2)]) auto
  moreover have "d' i = aData pg i" if "i \<notin> {?h + 1, ?h + 2, ?h + 7} \<union> {ctop..<?u}" for i
    using out [of i] that a A lt M(6,7) by auto
  ultimately show ?thesis by blast
qed

text \<open>Freeing a reserved region always succeeds.\<close>

lemma freeSpace_space:
  assumes sp: "space pBt pg cs [(p, n)] ctop fs" and n: "4 \<le> n"
  shows "\<exists>d' ctop' fs'. freeSpace pBt pg p n = (pg\<lparr>aData := d', nFree := nFree pg + int n\<rparr>, SQLITE_OK) \<and>
    space pBt (pg\<lparr>aData := d'\<rparr>) cs [] ctop' fs' \<and>
    (\<forall>i. i \<notin> {hdrOffset pg + 1, hdrOffset pg + 2, hdrOffset pg + 5, hdrOffset pg + 6, hdrOffset pg + 7} \<union> {ctop..<usableSize pBt} \<longrightarrow> d' i = aData pg i)"
proof -
  let ?h = "hdrOffset pg"
  note P = space_parts [OF sp] and F = static_facts [OF sp]
  obtain A B st e g iPtr where m: "merged pBt pg cs ctop A B st e g"
    and i: "iPtr = last_addr (?h + 1) A \<or> iPtr = st \<and> ctop < st \<and> get2byte (aData pg) (last_addr (?h + 1) A) = st"
    and f: "freeSpace pBt pg p n = free_tail pBt pg ((aData pg)(?h + 7 := aData pg (?h + 7) - of_nat g)) iPtr st e (first_block B) n"
    by (rule free_merged [OF sp n])
  have st: "ctop \<le> st" "st + 4 \<le> e" "e \<le> usableSize pBt" using m by (simp_all add: merged_def)
  have x: "get2byte ((aData pg)(?h + 7 := aData pg (?h + 7) - of_nat g)) (?h + 5) = ctop"
    using get2byteNotZero_less [of "aData pg" "?h + 5"] P(1) st F(3) get2byte_cong [of "(aData pg)(?h + 7 := aData pg (?h + 7) - of_nat g)" "?h + 5" "aData pg"] by simp
  note f' = f [unfolded free_tail_def Let_def x wiped_def [of pBt pg g st e, unfolded Let_def, symmetric]]
  show ?thesis
  proof (cases "st = ctop")
    case True
    have "A = []" using m True ascending_range [of "ctop + 1" "usableSize pBt" A] end_of_ge [of "ctop + 1" "usableSize pBt" A] by (auto simp: merged_def)
    moreover have "iPtr = ?h + 1" using i True calculation by simp
    ultimately have "freeSpace pBt pg p n = (pg\<lparr>aData := put2byte (put2byte (wiped pBt pg g ctop e) (?h + 1) (first_block B)) (?h + 5) e, nFree := nFree pg + int n\<rparr>, SQLITE_OK)"
      using f' True by simp
    moreover have "merged pBt pg cs ctop [] B ctop e g" using m True \<open>A = []\<close> by simp
    moreover have "put2byte (put2byte (wiped pBt pg g ctop e) (?h + 1) (first_block B)) (?h + 5) e i = aData pg i"
      if "i \<notin> {?h + 1, ?h + 2, ?h + 5, ?h + 6, ?h + 7} \<union> {ctop..<usableSize pBt}" for i
      using that st(3) by (auto simp: put2byte_def wiped_other)
    ultimately show ?thesis using free_top [OF sp _ refl] by blast
  next
    case False
    then have lt: "ctop < st" "\<not> st \<le> ctop" using st(1) by simp_all
    from free_link [OF sp m lt(1) i refl] f' lt(2) show ?thesis by auto
  qed
qed

end
