(* ===== verification/Btree_Alloc.thy ===== *)
theory Btree_Alloc
  imports Btree_Defrag Btree_Free
begin

text \<open>
  Allocation on a b-tree page: a request that fits into the free bytes of the page is always
  served, from a free block, from the gap, or from the gap after defragmentation.
\<close>

section \<open>Allocation from the gap\<close>

lemma notZero_max: "get2byteNotZero d i = 65536 \<Longrightarrow> get2byte d i = 0"
  using get2byte_less [of d i] by (cases "get2byte d i") (simp_all add: get2byteNotZero_def)

lemma gap_space:
  assumes sp: "space pBt pg cs [] ctop fs" and n: "0 < nByte" and g: "cellOffset pg + 2 * nCell pg + nByte \<le> ctop"
    and d': "d' = put2byte (aData pg) (hdrOffset pg + 5) (ctop - nByte)"
  shows "space pBt (pg\<lparr>aData := d'\<rparr>) cs [(ctop - nByte, nByte)] (ctop - nByte) fs"
proof -
  let ?h = "hdrOffset pg" and ?c = "ctop - nByte"
  note P = space_parts [OF sp] and F = static_facts [OF sp]
  have h: "?h + 8 \<le> ctop" "?h + 8 \<le> ?c" using P(3) g by simp_all
  have same: "d' i = aData pg i" if "i < ?h + 5 \<or> ?h + 7 \<le> i" for i using that unfolding d' by (intro put2byte_other) auto
  have "get2byteNotZero d' (?h + 5) = ?c" unfolding d' by (rule get2byteNotZero_put) (use h F in auto)
  moreover have "chain d' (?h + 1) fs"
  proof (rule chain_move [OF P(4)])
    show "get2byte d' (?h + 1) = first_block fs" using chain_first [OF P(4)] get2byte_cong [of d' "?h + 1" "aData pg"] same by simp
    have "?h + 7 \<le> s + i" if sz: "(s, z) \<in> set fs" for s z i using ascending_range [OF P(5) sz] h(1) by simp
    then show "\<forall>(s, z) \<in> set fs. \<forall>i < 4. d' (s + i) = aData pg (s + i)" using same by blast
  qed
  moreover have "ascending (?c + 1) (usableSize pBt) fs" by (rule ascending_mono [OF P(5)]) simp
  moreover have "layout ?c (usableSize pBt) (regs cs @ [(?c, nByte)] @ fs) (unat (d' (?h + 7)))"
  proof -
    have "cover (regs cs) \<inter> {?c..<?c + nByte} = {}" "cover fs \<inter> {?c..<?c + nByte} = {}"
      using P(6,9) g by auto
    moreover have "{ctop + 1..<usableSize pBt} \<subseteq> {?c..<usableSize pBt}" "{ctop..<usableSize pBt} \<subseteq> {?c..<usableSize pBt}" by auto
    then have "cover (regs cs) \<subseteq> {?c..<usableSize pBt}" "cover fs \<subseteq> {?c..<usableSize pBt}" using P(6,9) by blast+
    ultimately show ?thesis using P(7) same [of "?h + 7"] g by (auto simp: layout_def)
  qed
  moreover have "d' i = aData pg i" if "i \<in> cover (regs cs)" for i
  proof -
    have "ctop \<le> i" using that P(9) by auto
    then show ?thesis using same [of i] h by simp
  qed
  ultimately show ?thesis using g by (intro space_upd [OF sp]) auto
qed

text \<open>What the invariant and a served request promise.\<close>

definition page_rep :: "BtShared \<Rightarrow> MemPage \<Rightarrow> (nat \<times> bytes) list \<Rightarrow> bool" where
  "page_rep pBt pg cs \<longleftrightarrow>
     (\<exists>ctop fs. space pBt pg cs [] ctop fs \<and> (cs = [] \<longrightarrow> ctop = usableSize pBt)) \<and> nCell pg = length cs \<and>
     ptrs_ok (aData pg) (cellOffset pg) cs \<and> get2byte (aData pg) (hdrOffset pg + 3) = nCell pg \<and> nFree pg = free_bytes pBt pg cs"

definition served :: "BtShared \<Rightarrow> MemPage \<Rightarrow> (nat \<times> bytes) list \<Rightarrow> nat \<Rightarrow> mem \<Rightarrow> nat \<Rightarrow> bool" where
  "served pBt pg cs nByte d' idx \<longleftrightarrow>
     (\<exists>cs' ctop' fs'. space pBt (pg\<lparr>aData := d'\<rparr>) cs' [(idx, nByte)] ctop' fs' \<and> map snd cs' = map snd cs \<and> ptrs_ok d' (cellOffset pg) cs' \<and>
        cellOffset pg + 2 * nCell pg + 2 \<le> ctop' \<and> ctop' \<le> idx) \<and>
     (\<forall>i < cellOffset pg. i \<notin> {hdrOffset pg + 1, hdrOffset pg + 2, hdrOffset pg + 5, hdrOffset pg + 6, hdrOffset pg + 7} \<longrightarrow> d' i = aData pg i)"

lemma served_gap:
  assumes sp: "space pBt pg cs [] ctop fs" and p: "ptrs_ok (aData pg) (cellOffset pg) cs" "nCell pg = length cs"
    and n: "0 < nByte" and g: "cellOffset pg + 2 * nCell pg + 2 + nByte \<le> ctop"
  shows "served pBt pg cs nByte (put2byte (aData pg) (hdrOffset pg + 5) (ctop - nByte)) (ctop - nByte)"
proof -
  let ?d = "put2byte (aData pg) (hdrOffset pg + 5) (ctop - nByte)"
  have same: "?d i = aData pg i" if "i < hdrOffset pg + 5 \<or> hdrOffset pg + 7 \<le> i" for i using that by (intro put2byte_other) auto
  have "ptrs_ok ?d (cellOffset pg) cs" by (rule ptrs_ok_cong [OF p(1)], rule same) (use space_parts(3) [OF sp] in auto)
  moreover have "space pBt (pg\<lparr>aData := ?d\<rparr>) cs [(ctop - nByte, nByte)] (ctop - nByte) fs" using gap_space [OF sp n _ refl] g by simp
  moreover have "?d i = aData pg i" if "i \<notin> {hdrOffset pg + 5, hdrOffset pg + 6}" for i using that by (auto simp: put2byte_def)
  ultimately show ?thesis using g unfolding served_def by (intro conjI exI [of _ cs] exI [of _ "ctop - nByte"] exI [of _ fs]) auto
qed

lemma served_trans:
  assumes s: "served pBt (pg\<lparr>aData := d\<rparr>) cs' nByte d' idx" and c: "map snd cs' = map snd cs"
    and d: "\<forall>i < cellOffset pg. i \<notin> {hdrOffset pg + 1, hdrOffset pg + 2, hdrOffset pg + 5, hdrOffset pg + 6, hdrOffset pg + 7} \<longrightarrow> d i = aData pg i"
  shows "served pBt pg cs nByte d' idx"
  using s d unfolding served_def c by simp

lemma allocate_gap_served:
  assumes sp: "space pBt pg cs [] ctop fs" and n: "nCell pg = length cs" and p: "ptrs_ok (aData pg) (cellOffset pg) cs"
    and e: "cs = [] \<longrightarrow> ctop = usableSize pBt" and free: "nFree pg = free_bytes pBt pg cs" and fit: "0 < nByte" "int nByte + 2 \<le> nFree pg"
  shows "\<exists>d' idx. allocate_gap pBt pg nByte (cellOffset pg + 2 * nCell pg) ctop = (pg\<lparr>aData := d'\<rparr>, idx, SQLITE_OK) \<and> served pBt pg cs nByte d' idx"
proof (cases "cellOffset pg + 2 * nCell pg + 2 + nByte > ctop")
  case False
  then have "served pBt pg cs nByte (put2byte (aData pg) (hdrOffset pg + 5) (ctop - nByte)) (ctop - nByte)" by (intro served_gap [OF sp p n fit(1)]) simp
  moreover have "allocate_gap pBt pg nByte (cellOffset pg + 2 * nCell pg) ctop =
      (pg\<lparr>aData := put2byte (aData pg) (hdrOffset pg + 5) (ctop - nByte)\<rparr>, ctop - nByte, SQLITE_OK)"
    using False by (simp add: allocate_gap_def Let_def)
  ultimately show ?thesis by blast
next
  case True
  have ne: "cs \<noteq> []" using True e free fit(2) by (auto simp: free_bytes_def)
  obtain d cs' cbrk where d: "defragmentPage pBt pg (min 4 (nFree pg - (2 + int nByte))) = (pg\<lparr>aData := d\<rparr>, SQLITE_OK)"
    "space pBt (pg\<lparr>aData := d\<rparr>) cs' [] cbrk []" "map snd cs' = map snd cs" "ptrs_ok d (cellOffset pg) cs'"
    "int (unat (d (hdrOffset pg + 7))) \<le> max 0 (min 4 (nFree pg - (2 + int nByte)))"
    "\<forall>i < cellOffset pg. i \<notin> {hdrOffset pg + 1, hdrOffset pg + 2, hdrOffset pg + 5, hdrOffset pg + 6, hdrOffset pg + 7} \<longrightarrow> d i = aData pg i"
    using defragmentPage_space [OF sp n ne p free, of "min 4 (nFree pg - (2 + int nByte))"] by blast
  have lay: "tot (regs cs') + unat (d (hdrOffset pg + 7)) = usableSize pBt - cbrk" "cbrk \<le> usableSize pBt"
    using space_parts(7) [OF d(2)] by (simp_all add: layout_def)
  have "tot (regs cs') = tot (regs cs)" using tot_snd [OF d(3)] .
  then have g: "cellOffset pg + 2 * nCell pg + 2 + nByte \<le> cbrk" using lay d(5) free fit(2) unfolding free_bytes_def by linarith
  have l: "length cs' = length cs" using d(3) map_eq_imp_length_eq by blast
  have top: "get2byteNotZero d (hdrOffset pg + 5) = cbrk" using space_parts(1) [OF d(2)] by simp
  have "served pBt (pg\<lparr>aData := d\<rparr>) cs' nByte (put2byte d (hdrOffset pg + 5) (cbrk - nByte)) (cbrk - nByte)"
    using served_gap [OF d(2) _ _ fit(1)] d(4) n l g by simp
  then have "served pBt pg cs nByte (put2byte d (hdrOffset pg + 5) (cbrk - nByte)) (cbrk - nByte)" by (rule served_trans [OF _ d(3,6)])
  moreover have "allocate_gap pBt pg nByte (cellOffset pg + 2 * nCell pg) ctop =
      (pg\<lparr>aData := put2byte d (hdrOffset pg + 5) (cbrk - nByte)\<rparr>, cbrk - nByte, SQLITE_OK)"
    using True d(1) top by (simp add: allocate_gap_def Let_def)
  ultimately show ?thesis by blast
qed

lemma allocateSpace_served:
  assumes rep: "page_rep pBt pg cs" and fit: "0 < nByte" "int nByte + 2 \<le> nFree pg"
  shows "\<exists>d' idx. allocateSpace pBt pg nByte = (pg\<lparr>aData := d'\<rparr>, idx, SQLITE_OK) \<and> served pBt pg cs nByte d' idx"
proof -
  let ?g = "cellOffset pg + 2 * nCell pg" and ?h = "hdrOffset pg"
  obtain ctop fs where sp: "space pBt pg cs [] ctop fs" and e: "cs = [] \<longrightarrow> ctop = usableSize pBt" and n: "nCell pg = length cs"
    and p: "ptrs_ok (aData pg) (cellOffset pg) cs" and free: "nFree pg = free_bytes pBt pg cs"
    using rep by (auto simp: page_rep_def)
  note P = space_parts [OF sp] and F = static_facts [OF sp]
  have G: "\<exists>d' idx. allocate_gap pBt pg nByte ?g ctop = (pg\<lparr>aData := d'\<rparr>, idx, SQLITE_OK) \<and> served pBt pg cs nByte d' idx"
    by (rule allocate_gap_served [OF sp n p e free fit])
  have blk: "(aData pg (?h + 2) \<noteq> 0 \<or> aData pg (?h + 1) \<noteq> 0) \<longleftrightarrow> fs \<noteq> []"
  proof -
    have "get2byte (aData pg) (?h + 1) = 0 \<longleftrightarrow> fs = []" using chain_first [OF P(4)] P(5) by (cases fs) auto
    then show ?thesis by (auto simp: get2byte_0 eval_nat_numeral)
  qed
  define body where "body = (if fs \<noteq> [] \<and> ?g + 2 \<le> ctop then
        (case pageFindSlot pBt pg nByte of
           (pg, Some g2, rc) \<Rightarrow> (pg, g2, if g2 \<le> ?g then SQLITE_CORRUPT else SQLITE_OK)
         | (pg, None, rc) \<Rightarrow> if rc \<noteq> SQLITE_OK then (pg, 0, rc) else allocate_gap pBt pg nByte ?g ctop)
      else allocate_gap pBt pg nByte ?g ctop)"
  have "allocateSpace pBt pg nByte = body"
  proof (cases "ctop = 65536")
    case True
    then have "get2byte (aData pg) (?h + 5) = 0" "usableSize pBt = 65536" using P(1) F notZero_max [of "aData pg" "?h + 5"] by auto
    then show ?thesis using P(3) blk unfolding body_def True by (simp add: allocateSpace_def Let_def)
  next
    case False
    then have "get2byte (aData pg) (?h + 5) = ctop" using get2byteNotZero_less P(1) by simp
    then show ?thesis using P(2) F blk by (simp add: allocateSpace_def body_def Let_def)
  qed
  moreover have "\<exists>d' idx. body = (pg\<lparr>aData := d'\<rparr>, idx, SQLITE_OK) \<and> served pBt pg cs nByte d' idx"
  proof (cases "fs \<noteq> [] \<and> ?g + 2 \<le> ctop")
    case True
    obtain pg' slot rc where f: "pageFindSlot pBt pg nByte = (pg', slot, rc)" by (metis prod_cases3)
    from find_slot_space [OF sp _ fit(1) f] True
    have rc: "rc = SQLITE_OK" and "slot = None \<and> pg' = pg \<or>
      (\<exists>idx d' fs'. slot = Some idx \<and> pg' = pg\<lparr>aData := d'\<rparr> \<and> space pBt (pg\<lparr>aData := d'\<rparr>) cs [(idx, nByte)] ctop fs' \<and> ctop < idx \<and>
        (\<forall>i. i \<notin> {?h + 1, ?h + 2, ?h + 7} \<union> {ctop..<usableSize pBt} \<longrightarrow> d' i = aData pg i))" by blast+
    from this(2) show ?thesis
    proof (elim disjE exE conjE)
      assume "slot = None" "pg' = pg"
      then show ?thesis using True f rc G by (simp add: body_def)
    next
      fix idx d' fs'
      assume s: "slot = Some idx" "pg' = pg\<lparr>aData := d'\<rparr>" and sp': "space pBt (pg\<lparr>aData := d'\<rparr>) cs [(idx, nByte)] ctop fs'" and i: "ctop < idx"
        and same: "\<forall>i. i \<notin> {?h + 1, ?h + 2, ?h + 7} \<union> {ctop..<usableSize pBt} \<longrightarrow> d' i = aData pg i"
      have "ptrs_ok d' (cellOffset pg) cs" by (rule ptrs_ok_cong [OF p]) (use same P(2,3) n in auto)
      moreover have "\<forall>i < cellOffset pg. i \<notin> {?h + 1, ?h + 2, ?h + 5, ?h + 6, ?h + 7} \<longrightarrow> d' i = aData pg i" using same P(2) by auto
      ultimately have "served pBt pg cs nByte d' idx" unfolding served_def using sp' True i by (intro conjI exI [of _ cs] exI [of _ ctop] exI [of _ fs']) auto
      moreover have "body = (pg\<lparr>aData := d'\<rparr>, idx, SQLITE_OK)" using True f s i P(2) by (simp add: body_def)
      ultimately show ?thesis by blast
    qed
  next
    case False
    then show ?thesis using G unfolding body_def by (simp only: if_not_P not_False_eq_True if_False)
  qed
  ultimately show ?thesis by simp
qed

end
