(* ===== verification/Btree_Rep.thy ===== *)
theory Btree_Rep
  imports Btree_Alloc
begin

text \<open>
  A b-tree page as a list of cells: every operation on the page is the operation on the list, and
  the free bytes are what the cells leave.
\<close>

section \<open>Changing the cell pointers\<close>

lemma space_nFree [simp]: "space pBt (pg\<lparr>nFree := x\<rparr>) cs R ctop fs = space pBt pg cs R ctop fs" "space pBt (pg\<lparr>ovfl := q\<rparr>) cs R ctop fs = space pBt pg cs R ctop fs"
  by (simp_all add: space_def)

lemma count_same: "d' (h + 3) = d (h + 3) \<Longrightarrow> d' (h + 4) = d (h + 4) \<Longrightarrow> get2byte d' (h + 3) = get2byte d (h + 3)"
  by (rule get2byte_cong) (simp_all add: add.commute)

lemma space_header:
  assumes sp: "space pBt pg cs R ctop fs" and n: "cellOffset pg + 2 * n \<le> ctop"
    and d': "\<And>i. i \<in> {hdrOffset pg + 1, hdrOffset pg + 2, hdrOffset pg + 5, hdrOffset pg + 6, hdrOffset pg + 7} \<or> ctop \<le> i \<Longrightarrow> d' i = aData pg i"
  shows "space pBt (pg\<lparr>aData := d', nCell := n\<rparr>) cs R ctop fs"
proof -
  note P = space_parts [OF sp]
  have "stored d' cs" by (rule stored_cong [of "aData pg"]) (use sp P(9) d' in \<open>auto simp: space_def\<close>)
  moreover have "get2byteNotZero d' (hdrOffset pg + 5) = ctop" using top_same [of d' "hdrOffset pg" "aData pg"] d' P(1) by simp
  moreover have "chain d' (hdrOffset pg + 1) fs"
  proof (rule chain_move [OF P(4)])
    show "get2byte d' (hdrOffset pg + 1) = first_block fs"
      using chain_first [OF P(4)] get2byte_cong [of d' "hdrOffset pg + 1" "aData pg"] d' [of "hdrOffset pg + 1"] d' [of "hdrOffset pg + 2"] by simp
    have "ctop \<le> s + i" if sz: "(s, z) \<in> set fs" for s z i using ascending_range [OF P(5) sz] by simp
    then show "\<forall>(s, z) \<in> set fs. \<forall>i < 4. d' (s + i) = aData pg (s + i)" using d' by blast
  qed
  moreover have "d' (hdrOffset pg + 7) = aData pg (hdrOffset pg + 7)" using d' by simp
  moreover have "page_static pBt pg" "\<forall>c \<in> snd ` set cs. cell_ok pBt pg c" using sp by (simp_all add: space_def)
  ultimately show ?thesis using n P(5,7) unfolding space_def by simp
qed

lemma ptrs_ok_insert:
  assumes p: "ptrs_ok d off cs" and i: "i \<le> length cs" and idx: "idx < 65536"
    and d': "\<And>k. k < off + 2 * i \<Longrightarrow> off \<le> k \<Longrightarrow> d' k = d k" "get2byte d' (off + 2 * i) = idx"
      "\<And>k. off + 2 * i + 2 \<le> k \<Longrightarrow> k < off + 2 * length cs + 2 \<Longrightarrow> d' k = d (k - 2)"
  shows "ptrs_ok d' off (take i cs @ (idx, c) # drop i cs)"
  unfolding ptrs_ok_def
proof (intro allI impI)
  fix k assume k: "k < length (take i cs @ (idx, c) # drop i cs)"
  consider "k < i" | "k = i" | j where "k = Suc j" "i \<le> j" "j < length cs" using k i by (cases k) force+
  then show "get2byte d' (off + 2 * k) = fst ((take i cs @ (idx, c) # drop i cs) ! k)"
  proof cases
    case 1
    then have "get2byte d' (off + 2 * k) = get2byte d (off + 2 * k)" by (intro get2byte_cong d'(1)) auto
    then show ?thesis using p i 1 by (simp add: ptrs_ok_def nth_append)
  next
    case 2
    then show ?thesis using d'(2) i by (simp add: nth_append)
  next
    case 3
    then have "d' (off + 2 * k) = d (off + 2 * j)" "d' (off + 2 * k + 1) = d (off + 2 * j + 1)" using d'(3) [of "off + 2 * k"] d'(3) [of "off + 2 * k + 1"] by simp_all
    then have "get2byte d' (off + 2 * k) = get2byte d (off + 2 * j)" by (simp add: get2byte_def)
    then show ?thesis using p i 3 by (simp add: ptrs_ok_def nth_append)
  qed
qed

lemma ptrs_ok_remove:
  assumes p: "ptrs_ok d off (A @ x # B)"
    and d': "\<And>k. off \<le> k \<Longrightarrow> k < off + 2 * length A \<Longrightarrow> d' k = d k"
      "\<And>k. off + 2 * length A \<le> k \<Longrightarrow> k < off + 2 * length (A @ B) \<Longrightarrow> d' k = d (k + 2)"
  shows "ptrs_ok d' off (A @ B)"
  unfolding ptrs_ok_def
proof (intro allI impI)
  fix k assume k: "k < length (A @ B)"
  show "get2byte d' (off + 2 * k) = fst ((A @ B) ! k)"
  proof (cases "k < length A")
    case True
    then have "get2byte d' (off + 2 * k) = get2byte d (off + 2 * k)" by (intro get2byte_cong d'(1)) auto
    also have "\<dots> = fst ((A @ x # B) ! k)" using p True by (simp add: ptrs_ok_def)
    finally show ?thesis using True by (simp add: nth_append)
  next
    case False
    then have "d' (off + 2 * k) = d (off + 2 * k + 2)" "d' (off + 2 * k + 1) = d (off + 2 * k + 1 + 2)" using k by (intro d'(2); simp)+
    then have "get2byte d' (off + 2 * k) = get2byte d (off + 2 * Suc k)" by (simp add: get2byte_def)
    also have "\<dots> = fst ((A @ x # B) ! Suc k)" using p [unfolded ptrs_ok_def, rule_format, of "Suc k"] k by simp
    finally show ?thesis using False by (simp add: nth_append Suc_diff_le)
  qed
qed

section \<open>Inserting a cell\<close>

lemma space_insert:
  assumes sp: "space pBt pg cs [(idx, length c)] ctop fs" and c: "cell_ok pBt pg c" and d: "\<And>k. k < length c \<Longrightarrow> d (idx + k) = c ! k"
    "\<And>j. j \<notin> {idx..<idx + length c} \<Longrightarrow> d j = aData pg j"
  shows "space pBt (pg\<lparr>aData := d\<rparr>) (take i cs @ (idx, c) # drop i cs) [] ctop fs"
proof -
  note P = space_parts [OF sp]
  let ?cs = "take i cs @ (idx, c) # drop i cs" and ?h = "hdrOffset pg"
  have m: "methods_ok pBt pg" using sp by (simp add: space_def page_static_def)
  have len: "4 \<le> length c" using cell_ok_length [OF m c] by simp
  have lay: "tiles (regs cs @ [(idx, length c)] @ fs)" "span (idx, length c) \<subseteq> {ctop..<usableSize pBt}" using P(7) by (auto simp: layout_def)
  then have dis: "{idx..<idx + length c} \<inter> cover (regs cs) = {}" "{idx..<idx + length c} \<inter> cover fs = {}" "ctop \<le> idx" using len by auto
  have lo: "d j = aData pg j" if "j < ctop" for j using d(2) [of j] that dis(3) by auto
  have s: "set ?cs = insert (idx, c) (set cs)" by (metis append_take_drop_id list.simps(15) set_append Un_insert_right)
  have st: "stored (aData pg) cs" "page_static pBt pg" "\<forall>c \<in> snd ` set cs. cell_ok pBt pg c" using sp by (simp_all add: space_def)
  have "stored d cs"
  proof (rule stored_cong [OF st(1)])
    fix j assume "j \<in> cover (regs cs)"
    then have "j \<notin> {idx..<idx + length c}" using dis(1) by blast
    then show "d j = aData pg j" by (rule d(2))
  qed
  then have "stored d ?cs" using d(1) unfolding stored_def s by auto
  moreover have "\<forall>x \<in> snd ` set ?cs. cell_ok pBt pg x" unfolding s using st(3) c by auto
  moreover have h: "get2byteNotZero d (?h + 5) = ctop" "d (?h + 7) = aData pg (?h + 7)" using top_same [of d ?h "aData pg"] lo P(1,2,3) by simp_all
  moreover have "chain d (?h + 1) fs"
  proof (rule chain_move [OF P(4)])
    show "get2byte d (?h + 1) = first_block fs" using chain_first [OF P(4)] get2byte_cong [of d "?h + 1" "aData pg"] lo P(2,3) by simp
    show "\<forall>(s, z) \<in> set fs. \<forall>i < 4. d (s + i) = aData pg (s + i)"
      using block_bytes [OF P(5)] dis(2) d(2) by (auto, metis disjoint_iff)
  qed
  moreover have "mset (regs cs) = mset (regs (take i cs)) + mset (regs (drop i cs))" by (simp only: mset_append [symmetric] map_append [symmetric] append_take_drop_id)
  then have "mset (regs ?cs @ [] @ fs) = mset (regs cs @ [(idx, length c)] @ fs)" by (simp add: ac_simps)
  from layout_mset [OF this] have "layout ctop (usableSize pBt) (regs ?cs @ [] @ fs) (unat (d (?h + 7)))" using P(7) by (simp only: h(2))
  ultimately show ?thesis using st(2) P(2,5) unfolding space_def by simp
qed

lemma get2byte_34: "get2byte d (h + 3) = 256 * unat (d (h + 3)) + unat (d (h + 4))"
  by (simp add: get2byte_def add.commute)

lemma count_step:
  assumes "get2byte d (h + 3) < 65535" "d' = d(h + 4 := d (h + 4) + 1)"
  shows "get2byte (if d' (h + 4) = 0 then d'(h + 3 := d' (h + 3) + 1) else d') (h + 3) = get2byte d (h + 3) + 1"
proof -
  have u: "unat (d (h + 4) + 1) = (unat (d (h + 4)) + 1) mod 256" "unat (d (h + 3) + 1) = (unat (d (h + 3)) + 1) mod 256"
    by (simp_all add: unat_word_ariths)
  have l: "unat (d (h + 4)) < 256" "unat (d (h + 3)) < 256" using unat_u8_less by blast+
  show ?thesis
  proof (cases "d (h + 4) + 1 = 0")
    case True
    then have "unat (d (h + 4)) = 255" using u(1) l(1) by (cases "unat (d (h + 4)) = 255") simp_all
    then show ?thesis using True assms u(2) l(2) by (simp add: get2byte_34)
  next
    case False
    then have "unat (d (h + 4)) \<noteq> 255" using u(1) unat_eq_0 [of "d (h + 4) + 1"] by auto
    then show ?thesis using False assms u(1) l(1) by (simp add: get2byte_34)
  qed
qed

lemma tot_insert: "tot (regs (take i cs @ (idx, c) # drop i cs)) = tot (regs cs) + length c"
proof -
  have "tot (regs (take i cs @ drop i cs)) = tot (regs cs)" by simp
  then show ?thesis by (simp only: map_append tot_append list.map case_prod_conv tot.simps)
qed

lemma insert_ptr_rep:
  assumes sp: "space pBt pg cs [(idx, length c)] ctop fs" and c: "cell_ok pBt pg c"
    and p: "ptrs_ok (aData pg) (cellOffset pg) cs" "nCell pg = length cs" "get2byte (aData pg) (hdrOffset pg + 3) = nCell pg"
    and g: "cellOffset pg + 2 * nCell pg + 2 \<le> ctop" "ctop \<le> idx" and i: "i \<le> length cs" and nf: "nFree pg = free_bytes pBt pg cs - (2 + int (length c))"
    and d: "\<And>k. k < length c \<Longrightarrow> d (idx + k) = c ! k" "\<And>j. j \<notin> {idx..<idx + length c} \<Longrightarrow> d j = aData pg j"
  shows "page_rep pBt (insert_ptr (pg\<lparr>aData := d\<rparr>) i idx) (take i cs @ (idx, c) # drop i cs)"
proof -
  let ?h = "hdrOffset pg" and ?n = "length cs" and ?o = "cellOffset pg" and ?cs = "take i cs @ (idx, c) # drop i cs"
  note P = space_parts [OF sp] and F = static_facts [OF sp]
  have len: "4 \<le> length c" using cell_ok_length [OF _ c] sp by (simp add: space_def page_static_def)
  have "span (idx, length c) \<subseteq> {ctop..<usableSize pBt}" using P(7) by (auto simp: layout_def)
  then have idx: "idx < 65536" "idx + length c \<le> usableSize pBt" using len F(3) by auto
  have n: "?n < 65535" using g(1) p(2) F(2,3) by linarith
  have lo: "d j = aData pg j" if "j < ctop" for j using d(2) [of j] that g(2) by auto
  define d1 where "d1 = put2byte (memmove d (?o + 2 * i + 2) d (?o + 2 * i) (2 * (?n - i))) (?o + 2 * i) idx"
  define d2 where "d2 = d1(?h + 4 := d1 (?h + 4) + 1)"
  define d3 where "d3 = (if d2 (?h + 4) = 0 then d2(?h + 3 := d2 (?h + 3) + 1) else d2)"
  have e: "insert_ptr (pg\<lparr>aData := d\<rparr>) i idx = pg\<lparr>aData := d3, nCell := ?n + 1\<rparr>"
    by (simp add: insert_ptr_def Let_def p(2) d1_def d2_def d3_def)
  have h: "?h + 8 \<le> ?o" by (rule P(3))
  have d3: "d3 j = d1 j" if "j \<notin> {?h + 3, ?h + 4}" for j using that by (simp add: d3_def d2_def)
  have d1: "d1 j = d j" if "j < ?o + 2 * i \<or> ?o + 2 * ?n + 2 \<le> j" for j using that i by (auto simp: d1_def put2byte_def memmove_def)
  have "get2byte d1 (?h + 3) = ?n" using count_same [of d1 ?h "aData pg"] d1 [of "?h + 3"] d1 [of "?h + 4"] lo [of "?h + 3"] lo [of "?h + 4"] h g p(2,3) by simp
  then have cnt: "get2byte d3 (?h + 3) = ?n + 1" using count_step [of d1 ?h d2] n by (simp add: d3_def d2_def)
  have "ptrs_ok d (cellOffset pg) cs" by (rule ptrs_ok_cong [OF p(1)]) (use lo g p(2) in auto)
  then have "ptrs_ok d3 ?o ?cs"
  proof (rule ptrs_ok_insert [OF _ i idx(1)])
    show "d3 k = d k" if "k < ?o + 2 * i" "?o \<le> k" for k using that d3 [of k] d1 [of k] h by simp
    have "get2byte d3 (?o + 2 * i) = get2byte d1 (?o + 2 * i)" using h by (intro get2byte_cong d3) auto
    then show "get2byte d3 (?o + 2 * i) = idx" using idx(1) by (simp add: d1_def get2byte_put2byte)
    show "d3 k = d (k - 2)" if k: "?o + 2 * i + 2 \<le> k" "k < ?o + 2 * ?n + 2" for k
    proof -
      have "d3 k = d1 k" using d3 [of k] h k by simp
      also have "\<dots> = memmove d (?o + 2 * i + 2) d (?o + 2 * i) (2 * (?n - i)) k" unfolding d1_def using k by (intro put2byte_other) simp
      also have "k < ?o + 2 * i + 2 + 2 * (?n - i)" "?o + 2 * i + (k - (?o + 2 * i + 2)) = k - 2" using k i by simp_all
      then have "memmove d (?o + 2 * i + 2) d (?o + 2 * i) (2 * (?n - i)) k = d (k - 2)" using k(1) by (simp only: memmove_def if_True simp_thms)
      finally show ?thesis .
    qed
  qed
  moreover have "space pBt (pg\<lparr>aData := d3, nCell := ?n + 1\<rparr>) ?cs [] ctop fs"
  proof -
    have "d3 j = d j" if j: "j \<in> {?h + 1, ?h + 2, ?h + 5, ?h + 6, ?h + 7} \<or> ctop \<le> j" for j
    proof -
      have "j \<notin> {?h + 3, ?h + 4}" "j < ?o \<or> ?o + 2 * ?n + 2 \<le> j" using j h g p(2) by auto
      then show ?thesis using d3 [of j] d1 [of j] by auto
    qed
    then show ?thesis using space_header [OF space_insert [OF sp c d], of "?n + 1" d3 i] g p(2) by simp
  qed
  moreover have "nFree pg = free_bytes pBt (pg\<lparr>aData := d3, nCell := ?n + 1\<rparr>) ?cs"
    using nf p(2) by (simp add: free_bytes_def tot_insert del: map_append)
  moreover have "length ?cs = ?n + 1" using i by simp
  ultimately show ?thesis using cnt unfolding e page_rep_def by auto
qed

section \<open>The abstraction\<close>

text \<open>The page holds the list of cells; the room that is left is what the cells, with two bytes for each pointer, do not use.\<close>

definition page_ok :: "BtShared \<Rightarrow> MemPage \<Rightarrow> bytes list \<Rightarrow> bool" where
  "page_ok pBt pg cells \<longleftrightarrow> (\<exists>cs. page_rep pBt pg cs \<and> map snd cs = cells)"

definition room :: "BtShared \<Rightarrow> MemPage \<Rightarrow> bytes list \<Rightarrow> int" where
  "room pBt pg cells = int (usableSize pBt) - int (cellOffset pg) - (\<Sum>c\<leftarrow>cells. int (length c) + 2)"

definition ins :: "nat \<Rightarrow> 'a \<Rightarrow> 'a list \<Rightarrow> 'a list" where
  "ins i c cells = take i cells @ c # drop i cells"

definition del :: "nat \<Rightarrow> 'a list \<Rightarrow> 'a list" where
  "del i cells = take i cells @ drop (Suc i) cells"

lemma map_ins: "map f (take i cs @ x # drop i cs) = ins i (f x) (map f cs)"
  by (simp add: ins_def take_map drop_map)

lemma tot_room: "int (tot (regs cs)) + 2 * int (length cs) = (\<Sum>c\<leftarrow>map snd cs. int (length c) + 2)"
  by (induction cs) auto

lemma page_ok_room: "page_ok pBt pg cells \<Longrightarrow> nFree pg = room pBt pg cells"
proof -
  assume "page_ok pBt pg cells"
  then obtain cs where "page_rep pBt pg cs" "map snd cs = cells" by (auto simp: page_ok_def)
  then show ?thesis using tot_room [of cs] by (simp add: page_rep_def free_bytes_def room_def)
qed

lemma page_ok_count: "page_ok pBt pg cells \<Longrightarrow> nCell pg = length cells"
  by (auto simp: page_ok_def page_rep_def)

lemma page_ok_ovfl [simp]: "page_ok pBt (pg\<lparr>ovfl := q\<rparr>) cells = page_ok pBt pg cells"
  by (simp add: page_ok_def page_rep_def free_bytes_def)

lemma page_ok_methods: "page_ok pBt pg cells \<Longrightarrow> methods_ok pBt pg"
  by (auto simp: page_ok_def page_rep_def space_def page_static_def)

text \<open>What the operations on cells never change: the kind of the page with its limits, and the flag byte.\<close>

definition shape :: "MemPage \<Rightarrow> MemPage" where
  "shape pg = pg\<lparr>aData := (\<lambda>i. 0), nFree := 0, nCell := 0, ovfl := []\<rparr>"

definition flag_byte :: "MemPage \<Rightarrow> u8" where
  "flag_byte pg = aData pg (hdrOffset pg)"

lemma shape_upd [simp]: "shape (pg\<lparr>aData := d\<rparr>) = shape pg" "shape (pg\<lparr>nFree := n\<rparr>) = shape pg" "shape (pg\<lparr>nCell := k\<rparr>) = shape pg" "shape (pg\<lparr>ovfl := q\<rparr>) = shape pg"
  by (simp_all add: shape_def)

lemma insert_ptr_shape: "shape (insert_ptr pg i idx) = shape pg"
  by (simp add: insert_ptr_def Let_def)

lemma insert_ptr_flag: "hdrOffset pg + 8 \<le> cellOffset pg \<Longrightarrow> flag_byte (insert_ptr pg i idx) = flag_byte pg"
  by (simp add: insert_ptr_def flag_byte_def Let_def memmove_def put2byte_def)

text \<open>The common part of the two insertions: the allocation succeeds and the page then holds the cell.\<close>

lemma insert_common:
  assumes ok: "page_ok pBt pg cells" and c: "cell_ok pBt pg c" and i: "i \<le> length cells" and fit: "int (length c) + 2 \<le> room pBt pg cells"
  obtains d idx where "allocateSpace pBt pg (length c) = (pg\<lparr>aData := d\<rparr>, idx, SQLITE_OK)"
    "d (hdrOffset pg) = aData pg (hdrOffset pg)" "hdrOffset pg + 8 \<le> cellOffset pg" "hdrOffset pg < idx"
    "\<And>d'. (\<And>k. k < length c \<Longrightarrow> d' (idx + k) = c ! k) \<Longrightarrow> (\<And>j. j \<notin> {idx..<idx + length c} \<Longrightarrow> d' j = d j) \<Longrightarrow>
      page_ok pBt (insert_ptr (pg\<lparr>nFree := nFree pg - (2 + int (length c)), aData := d'\<rparr>) i idx) (ins i c cells)"
proof -
  obtain cs where rep: "page_rep pBt pg cs" and cs: "map snd cs = cells" using ok by (auto simp: page_ok_def)
  have len: "0 < length c" using cell_ok_length [OF page_ok_methods [OF ok] c] by linarith
  obtain d idx where a: "allocateSpace pBt pg (length c) = (pg\<lparr>aData := d\<rparr>, idx, SQLITE_OK)" and s: "served pBt pg cs (length c) d idx"
    using allocateSpace_served [OF rep len] fit page_ok_room [OF ok] by auto
  obtain cs' ctop fs where sp: "space pBt (pg\<lparr>aData := d\<rparr>) cs' [(idx, length c)] ctop fs" and m: "map snd cs' = map snd cs" and p: "ptrs_ok d (cellOffset pg) cs'"
    and g: "cellOffset pg + 2 * nCell pg + 2 \<le> ctop" "ctop \<le> idx"
    and h: "\<forall>i < cellOffset pg. i \<notin> {hdrOffset pg + 1, hdrOffset pg + 2, hdrOffset pg + 5, hdrOffset pg + 6, hdrOffset pg + 7} \<longrightarrow> d i = aData pg i"
    using s by (auto simp: served_def)
  let ?pg = "pg\<lparr>aData := d, nFree := nFree pg - (2 + int (length c))\<rparr>"
  have r: "nCell pg = length cs'" "get2byte (aData pg) (hdrOffset pg + 3) = nCell pg" "nFree pg = free_bytes pBt pg cs'"
    using rep map_eq_imp_length_eq [OF m] tot_snd [OF m] by (simp_all add: page_rep_def free_bytes_def)
  have h8: "hdrOffset pg + 8 \<le> cellOffset pg" using space_parts(3) [OF sp] by simp
  have cnt: "get2byte d (hdrOffset pg + 3) = nCell pg" using count_same [of d "hdrOffset pg" "aData pg"] h h8 r(2) by simp
  have "page_rep pBt (insert_ptr (?pg\<lparr>aData := d'\<rparr>) i idx) (take i cs' @ (idx, c) # drop i cs')"
    if d': "\<And>k. k < length c \<Longrightarrow> d' (idx + k) = c ! k" "\<And>j. j \<notin> {idx..<idx + length c} \<Longrightarrow> d' j = d j" for d'
  proof (rule insert_ptr_rep [where ctop = ctop and fs = fs])
    show "i \<le> length cs'" using i cs m map_eq_imp_length_eq [OF m] by auto
    show "nFree ?pg = free_bytes pBt ?pg cs' - (2 + int (length c))" using r(3) by (simp add: free_bytes_def)
  qed (use sp c p r(1) cnt g d' in simp_all)
  moreover have "map snd (take i cs' @ (idx, c) # drop i cs') = ins i c cells" unfolding map_ins m cs by simp
  ultimately have "page_ok pBt (insert_ptr (pg\<lparr>nFree := nFree pg - (2 + int (length c)), aData := d'\<rparr>) i idx) (ins i c cells)"
    if d': "\<And>k. k < length c \<Longrightarrow> d' (idx + k) = c ! k" "\<And>j. j \<notin> {idx..<idx + length c} \<Longrightarrow> d' j = d j" for d'
    unfolding page_ok_def by (intro exI [of _ "take i cs' @ (idx, c) # drop i cs'"] conjI) (use d' in simp_all)
  moreover have "d (hdrOffset pg) = aData pg (hdrOffset pg)" "hdrOffset pg < idx" using h h8 g by simp_all
  ultimately show thesis using that [OF a _ h8] by blast
qed

text \<open>A cell with its child pointer written over the first four bytes.\<close>

lemma payload_size_from: "(\<And>k. p \<le> k \<Longrightarrow> d' k = d k) \<Longrightarrow> (payload_size d' p :: 'a::len word \<times> nat) = payload_size d p"
  using payload_size_move [of "\<lambda>k. d (k + p)" 0 d p, where 'a = 'a] payload_size_move [of "\<lambda>k. d (k + p)" 0 d' p, where 'a = 'a] by simp

lemma skip_key_from: "(\<And>k. p \<le> k \<Longrightarrow> d' k = d k) \<Longrightarrow> skip_key d' p = skip_key d p"
  using skip_key_move [of "\<lambda>k. d (k + p)" 0 d p] skip_key_move [of "\<lambda>k. d (k + p)" 0 d' p] by simp

definition with_child :: "u32 \<Rightarrow> bytes \<Rightarrow> bytes" where
  "with_child iChild c = map (put4byte (mem_of c) 0 iChild) [0..<length c]"

lemma with_child_length [simp]: "length (with_child x c) = length c"
  by (simp add: with_child_def)

lemma cell_ok_child:
  assumes m: "methods_ok pBt pg" and l: "\<not> leaf pg" and c: "cell_ok pBt pg c"
  shows "cell_ok pBt pg (with_child iChild c)"
proof -
  let ?d = "mem_of (with_child iChild c)" and ?e = "mem_of c"
  have e: "?d k = ?e k" if "4 \<le> k" for k using that by (simp add: mem_of_def with_child_def put4byte_def)
  have "header_of pg ?d 0 = header_of pg ?e 0"
    using m l payload_size_from [of 4 ?d ?e, where 'a = 32] skip_key_from [of 4 ?d ?e] e
    by (auto simp: header_of_def methods_ok_def split: cell_size_method.splits)
  then show ?thesis using c by (simp add: cell_ok_def cell_size_header [OF m])
qed

section \<open>Removing a cell\<close>

lemma reset_bytes:
  assumes "0 < u" "u \<le> 65536"
  shows "get2byte (put2byte ((memset d (Suc h) 0 4)(h + 7 := 0)) (h + 5) u) (Suc h) = 0"
    "get2byte (put2byte ((memset d (Suc h) 0 4)(h + 7 := 0)) (h + 5) u) (h + 3) = 0"
    "get2byteNotZero (put2byte ((memset d (Suc h) 0 4)(h + 7 := 0)) (h + 5) u) (h + 5) = u"
    "put2byte ((memset d (Suc h) 0 4)(h + 7 := 0)) (h + 5) u (h + 7) = 0"
    "put2byte ((memset d (Suc h) 0 4)(h + 7 := 0)) (h + 5) u h = d h"
  by (simp add: get2byte_0 memset_def put2byte_def; fail | rule get2byteNotZero_put [OF assms])+

lemma empty_rep:
  assumes "page_static pBt pg" "nCell pg = 0" "get2byte (aData pg) (hdrOffset pg + 1) = 0" "get2byte (aData pg) (hdrOffset pg + 3) = 0"
    "get2byteNotZero (aData pg) (hdrOffset pg + 5) = usableSize pBt" "aData pg (hdrOffset pg + 7) = 0" "nFree pg = int (usableSize pBt) - int (cellOffset pg)"
  shows "page_rep pBt pg []"
proof -
  have "space pBt pg [] [] (usableSize pBt) []" using assms usable_bounds [OF assms(1)] by (simp add: space_def stored_def chain_simps layout_def)
  then show ?thesis using assms by (auto simp: page_rep_def ptrs_ok_def free_bytes_def)
qed

lemma space_reserve:
  assumes sp: "space pBt pg (A @ (p, c) # B) [] ctop fs"
  shows "space pBt pg (A @ B) [(p, length c)] ctop fs"
proof -
  note P = space_parts [OF sp]
  have "mset (regs (A @ (p, c) # B) @ [] @ fs) = mset (regs (A @ B) @ [(p, length c)] @ fs)" by simp
  from layout_mset [OF this] have "layout ctop (usableSize pBt) (regs (A @ B) @ [(p, length c)] @ fs) (unat (aData pg (hdrOffset pg + 7)))"
    using P(7) by (simp only:)
  then show ?thesis using sp P(5) unfolding space_def by (simp add: stored_def image_Un)
qed

lemma freed:
  assumes rep: "page_rep pBt pg (A @ (p, c) # B)"
  obtains d ctop fs where "freeSpace pBt pg p (length c) = (pg\<lparr>aData := d, nFree := nFree pg + int (length c)\<rparr>, SQLITE_OK)"
    "space pBt (pg\<lparr>aData := d\<rparr>) (A @ B) [] ctop fs" "cellOffset pg + 2 * nCell pg \<le> ctop" "p + length c \<le> usableSize pBt" "page_static pBt pg"
    "\<And>i. i < cellOffset pg + 2 * nCell pg \<Longrightarrow> i \<notin> {hdrOffset pg + 1, hdrOffset pg + 2, hdrOffset pg + 5, hdrOffset pg + 6, hdrOffset pg + 7} \<Longrightarrow> d i = aData pg i"
proof -
  obtain ctop fs where sp: "space pBt pg (A @ (p, c) # B) [] ctop fs" using rep by (auto simp: page_rep_def)
  have len: "4 \<le> length c" "p + length c \<le> usableSize pBt" using cells_within(1,4) [OF sp, of "(p, length c)"] by auto
  obtain d ctop' fs' where d: "freeSpace pBt pg p (length c) = (pg\<lparr>aData := d, nFree := nFree pg + int (length c)\<rparr>, SQLITE_OK)"
    "space pBt (pg\<lparr>aData := d\<rparr>) (A @ B) [] ctop' fs'"
    "\<forall>i. i \<notin> {hdrOffset pg + 1, hdrOffset pg + 2, hdrOffset pg + 5, hdrOffset pg + 6, hdrOffset pg + 7} \<union> {ctop..<usableSize pBt} \<longrightarrow> d i = aData pg i"
    using freeSpace_space [OF space_reserve [OF sp] len(1)] by blast
  moreover have "cellOffset pg + 2 * nCell pg \<le> ctop'" using space_parts(2) [OF d(2)] by simp
  moreover have "page_static pBt pg" using sp by (simp add: space_def)
  ultimately show thesis using len(2) space_parts(2) [OF sp] by (intro that [of d ctop' fs']) auto
qed

lemma dropCell_rep:
  assumes rep: "page_rep pBt pg (A @ (p, c) # B)"
  shows "\<exists>pg'. dropCell pBt pg (length A) (length c) SQLITE_OK = (pg', SQLITE_OK) \<and> page_rep pBt pg' (A @ B) \<and> ovfl pg' = ovfl pg \<and> shape pg' = shape pg \<and> flag_byte pg' = flag_byte pg"
proof -
  let ?h = "hdrOffset pg" and ?o = "cellOffset pg" and ?n = "length (A @ B)"
  from freed [OF rep] obtain d ctop fs where d: "freeSpace pBt pg p (length c) = (pg\<lparr>aData := d, nFree := nFree pg + int (length c)\<rparr>, SQLITE_OK)"
    and sp: "space pBt (pg\<lparr>aData := d\<rparr>) (A @ B) [] ctop fs" and g: "?o + 2 * nCell pg \<le> ctop" and u: "p + length c \<le> usableSize pBt" and st: "page_static pBt pg"
    and same: "\<And>i. i < ?o + 2 * nCell pg \<Longrightarrow> i \<notin> {?h + 1, ?h + 2, ?h + 5, ?h + 6, ?h + 7} \<Longrightarrow> d i = aData pg i" by blast
  have n: "nCell pg = Suc ?n" and ptr: "ptrs_ok (aData pg) ?o (A @ (p, c) # B)" and free: "nFree pg = free_bytes pBt pg (A @ (p, c) # B)"
    using rep by (auto simp: page_rep_def)
  have pc: "get2byte (aData pg) (?o + 2 * length A) = p" using ptr [unfolded ptrs_ok_def, rule_format, of "length A"] by (simp add: nth_append)
  have h: "?h + 8 \<le> ?o" using usable_bounds [OF st] by simp
  show ?thesis
  proof (cases "?n = 0")
    case True
    have u0: "0 < usableSize pBt" "usableSize pBt \<le> 65536" using usable_bounds [OF st] by simp_all
    let ?d = "put2byte ((memset d (?h + 1) 0 4)(?h + 7 := 0)) (?h + 5) (usableSize pBt)"
    have "dropCell pBt pg (length A) (length c) SQLITE_OK = (pg\<lparr>nCell := 0, aData := ?d, nFree := int (usableSize pBt) - int ?h - int (childPtrSize pg) - 8\<rparr>, SQLITE_OK)"
      using True pc u d n by (simp add: dropCell_def Let_def)
    moreover have "page_rep pBt (pg\<lparr>nCell := 0, aData := ?d, nFree := int (usableSize pBt) - int ?h - int (childPtrSize pg) - 8\<rparr>) []"
      using st by (intro empty_rep) (simp_all add: reset_bytes [OF u0] page_static_def)
    moreover have "?d ?h = aData pg ?h" using reset_bytes(5) [OF u0, of d ?h] same [of ?h] h by simp
    ultimately show ?thesis using True by (simp add: flag_byte_def)
  next
    case False
    define d' where "d' = put2byte (memmove d (?o + 2 * length A) d (?o + 2 * length A + 2) (2 * (?n - length A))) (?h + 3) ?n"
    have "dropCell pBt pg (length A) (length c) SQLITE_OK = (pg\<lparr>nCell := ?n, aData := d', nFree := nFree pg + int (length c) + 2\<rparr>, SQLITE_OK)"
      using False pc u d n by (auto simp: dropCell_def d'_def Let_def)
    moreover have "page_rep pBt (pg\<lparr>nCell := ?n, aData := d', nFree := nFree pg + int (length c) + 2\<rparr>) (A @ B)"
    proof -
      have d': "d' i = d i" if "i < ?o + 2 * length A \<or> ?o + 2 * ?n \<le> i" "i \<notin> {?h + 3, ?h + 4}" for i
        using that by (auto simp: d'_def put2byte_def memmove_def)
      have "ptrs_ok d ?o (A @ (p, c) # B)" by (rule ptrs_ok_cong [OF ptr], rule same) (use n h in auto)
      then have "ptrs_ok d' ?o (A @ B)"
      proof (rule ptrs_ok_remove)
        show "d' k = d k" if "?o \<le> k" "k < ?o + 2 * length A" for k using d' [of k] that h by simp
        show "d' k = d (k + 2)" if k: "?o + 2 * length A \<le> k" "k < ?o + 2 * ?n" for k
        proof -
          have "d' k = memmove d (?o + 2 * length A) d (?o + 2 * length A + 2) (2 * (?n - length A)) k"
            unfolding d'_def using k h by (intro put2byte_other) auto
          also have "\<dots> = d (k + 2)" using k by (simp add: memmove_def)
          finally show ?thesis .
        qed
      qed
      moreover have "space pBt (pg\<lparr>aData := d', nCell := ?n\<rparr>) (A @ B) [] ctop fs"
      proof -
        have "d' i = d i" if i: "i \<in> {?h + 1, ?h + 2, ?h + 5, ?h + 6, ?h + 7} \<or> ctop \<le> i" for i
        proof -
          have "i < ?o + 2 * length A \<or> ?o + 2 * ?n \<le> i" "i \<notin> {?h + 3, ?h + 4}" using i g n h by auto
          then show ?thesis by (rule d')
        qed
        then show ?thesis using space_header [OF sp, of ?n d'] g n by simp
      qed
      moreover have "get2byte d' (?h + 3) = ?n" unfolding d'_def by (rule get2byte_put2byte) (use g n static_facts(2,3) [OF sp] in linarith)
      ultimately show ?thesis using False free n by (auto simp: page_rep_def free_bytes_def space_def)
    qed
    moreover have "d' ?h = aData pg ?h" using same [of ?h] h by (simp add: d'_def put2byte_def memmove_def)
    ultimately show ?thesis by (simp add: flag_byte_def)
  qed
qed

section \<open>The operations on the list of cells\<close>

lemma insertCellFast_ok:
  assumes ok: "page_ok pBt pg cells" and c: "cell_ok pBt pg c" and i: "i \<le> length cells" and fit: "int (length c) + 2 \<le> room pBt pg cells"
    and w: "next_rc pp = (SQLITE_OK, pp1)" and r: "insertCellFast pBt pp past_end pg i c = (pg', pp', rc)"
  shows "page_ok pBt pg' (ins i c cells) \<and> ovfl pg' = ovfl pg \<and> shape pg' = shape pg \<and> flag_byte pg' = flag_byte pg \<and> (\<not> autoVacuum pBt \<longrightarrow> rc = SQLITE_OK \<and> pp' = pp1)"
proof -
  have len: "length c + 13 \<le> usableSize pBt" "usableSize pBt \<le> 65536"
    using cell_ok_length [OF page_ok_methods [OF ok] c] page_ok_methods [OF ok] by (simp_all add: methods_ok_def bt_ok_def)
  obtain d idx where a: "allocateSpace pBt pg (length c) = (pg\<lparr>aData := d\<rparr>, idx, SQLITE_OK)"
    and hd: "d (hdrOffset pg) = aData pg (hdrOffset pg)" "hdrOffset pg + 8 \<le> cellOffset pg" "hdrOffset pg < idx"
    and rep: "\<And>d'. (\<And>k. k < length c \<Longrightarrow> d' (idx + k) = c ! k) \<Longrightarrow> (\<And>j. j \<notin> {idx..<idx + length c} \<Longrightarrow> d' j = d j) \<Longrightarrow>
      page_ok pBt (insert_ptr (pg\<lparr>nFree := nFree pg - (2 + int (length c)), aData := d'\<rparr>) i idx) (ins i c cells)"
    by (rule insert_common [OF ok c i fit]) blast
  have "page_ok pBt (insert_ptr (pg\<lparr>nFree := nFree pg - (2 + int (length c)), aData := memmove d idx (mem_of c) 0 (length c)\<rparr>) i idx) (ins i c cells)"
    by (rule rep) (auto simp: memmove_def mem_of_def)
  moreover have "pg' = insert_ptr (pg\<lparr>nFree := nFree pg - (2 + int (length c)), aData := memmove d idx (mem_of c) 0 (length c)\<rparr>) i idx" "\<not> autoVacuum pBt \<longrightarrow> rc = SQLITE_OK \<and> pp' = pp1"
    using r a w fit len page_ok_room [OF ok] by (auto simp: insertCellFast_def Let_def split: if_splits prod.splits)
  moreover have "flag_byte (pg\<lparr>nFree := nFree pg - (2 + int (length c)), aData := memmove d idx (mem_of c) 0 (length c)\<rparr>) = flag_byte pg"
    using hd by (simp add: flag_byte_def memmove_def)
  moreover have "ovfl (insert_ptr p i idx) = ovfl p" for p by (simp add: insert_ptr_def Let_def)
  ultimately show ?thesis using hd by (simp add: insert_ptr_shape insert_ptr_flag)
qed

lemma insertCell_ok:
  assumes ok: "page_ok pBt pg cells" and c: "cell_ok pBt pg c" and l: "\<not> leaf pg" and i: "i \<le> length cells" and fit: "int (length c) + 2 \<le> room pBt pg cells"
    and w: "next_rc pp = (SQLITE_OK, pp1)" "ovfl pg = []" and r: "insertCell pBt pp past_end pg i c iChild = (pg', pp', rc)"
  shows "page_ok pBt pg' (ins i (with_child iChild c) cells) \<and> ovfl pg' = [] \<and> shape pg' = shape pg \<and> flag_byte pg' = flag_byte pg \<and> (\<not> autoVacuum pBt \<longrightarrow> rc = SQLITE_OK \<and> pp' = pp1)"
proof -
  let ?c = "with_child iChild c"
  have len: "4 \<le> length c" "length c + 13 \<le> usableSize pBt" "usableSize pBt \<le> 65536"
    using cell_ok_length [OF page_ok_methods [OF ok] c] page_ok_methods [OF ok] by (simp_all add: methods_ok_def bt_ok_def)
  have ok': "cell_ok pBt pg ?c" by (rule cell_ok_child [OF page_ok_methods [OF ok] l c])
  obtain d idx where a: "allocateSpace pBt pg (length c) = (pg\<lparr>aData := d\<rparr>, idx, SQLITE_OK)"
    and hd: "d (hdrOffset pg) = aData pg (hdrOffset pg)" "hdrOffset pg + 8 \<le> cellOffset pg" "hdrOffset pg < idx"
    and rep: "\<And>d'. (\<And>k. k < length c \<Longrightarrow> d' (idx + k) = ?c ! k) \<Longrightarrow> (\<And>j. j \<notin> {idx..<idx + length c} \<Longrightarrow> d' j = d j) \<Longrightarrow>
      page_ok pBt (insert_ptr (pg\<lparr>nFree := nFree pg - (2 + int (length c)), aData := d'\<rparr>) i idx) (ins i ?c cells)"
    using fit by (elim insert_common [OF ok ok' i, unfolded with_child_length, rotated]) blast
  let ?d = "put4byte (memmove d (idx + 4) (mem_of c) 4 (length c - 4)) idx iChild"
  have "page_ok pBt (insert_ptr (pg\<lparr>nFree := nFree pg - (2 + int (length c)), aData := ?d\<rparr>) i idx) (ins i ?c cells)"
  proof (rule rep)
    show "?d (idx + k) = ?c ! k" if k: "k < length c" for k
    proof (cases "k < 4")
      case True
      then have "k = 0 \<or> k = 1 \<or> k = 2 \<or> k = 3" by auto
      then show ?thesis using k by (auto simp: put4byte_def with_child_def)
    next
      case False
      then show ?thesis using k by (auto simp: put4byte_def with_child_def memmove_def mem_of_def)
    qed
    show "?d j = d j" if "j \<notin> {idx..<idx + length c}" for j using that len by (auto simp: put4byte_def memmove_def)
  qed
  moreover have "pg' = insert_ptr (pg\<lparr>nFree := nFree pg - (2 + int (length c)), aData := ?d\<rparr>) i idx" "\<not> autoVacuum pBt \<longrightarrow> rc = SQLITE_OK \<and> pp' = pp1"
    using r a w fit len page_ok_room [OF ok] by (auto simp: insertCell_def Let_def split: if_splits prod.splits)
  moreover have "flag_byte (pg\<lparr>nFree := nFree pg - (2 + int (length c)), aData := ?d\<rparr>) = flag_byte pg"
    using hd by (simp add: flag_byte_def memmove_def put4byte_def)
  moreover have "ovfl (insert_ptr p i idx) = ovfl p" for p by (simp add: insert_ptr_def Let_def)
  ultimately show ?thesis using w(2) hd by (simp add: insert_ptr_shape insert_ptr_flag)
qed

lemma dropCell_ok:
  assumes ok: "page_ok pBt pg cells" and i: "i < length cells"
  shows "\<exists>pg'. dropCell pBt pg i (length (cells ! i)) SQLITE_OK = (pg', SQLITE_OK) \<and> page_ok pBt pg' (del i cells) \<and> ovfl pg' = ovfl pg \<and> shape pg' = shape pg \<and> flag_byte pg' = flag_byte pg"
proof -
  obtain cs where rep: "page_rep pBt pg cs" and cs: "map snd cs = cells" using ok by (auto simp: page_ok_def)
  have n: "i < length cs" using i cs by auto
  then have e: "cs = take i cs @ (fst (cs ! i), cells ! i) # drop (Suc i) cs" using cs by (auto simp: id_take_nth_drop [OF n, symmetric])
  from dropCell_rep [of pBt pg "take i cs" "fst (cs ! i)" "cells ! i" "drop (Suc i) cs"] obtain pg' where
    "dropCell pBt pg i (length (cells ! i)) SQLITE_OK = (pg', SQLITE_OK)" "page_rep pBt pg' (take i cs @ drop (Suc i) cs)" "ovfl pg' = ovfl pg"
    "shape pg' = shape pg" "flag_byte pg' = flag_byte pg"
    using rep e n by (metis length_take min.absorb4)
  moreover have "map snd (take i cs @ drop (Suc i) cs) = del i cells" by (simp add: del_def cs [symmetric] take_map drop_map)
  ultimately show ?thesis unfolding page_ok_def by blast
qed

lemma zeroPage_ok:
  assumes bt: "bt_ok pBt" and h: "hdrOffset pg \<in> {0, 100}" and f: "flags \<in> {2, 5, 10, 13}"
  shows "page_ok pBt (zeroPage pBt pg flags) [] \<and> ovfl (zeroPage pBt pg flags) = []"
proof -
  have u: "0 < usableSize pBt" "usableSize pBt \<le> 65536" using bt by (auto simp: bt_ok_def)
  have "page_rep pBt (zeroPage pBt pg flags) []"
  proof (rule empty_rep)
    show "page_static pBt (zeroPage pBt pg flags)" using bt h f
      by (auto simp: page_static_def zeroPage_def decodeFlags_def methods_ok_def bt_ok_def Let_def)
  qed (use f bt h in \<open>auto simp: zeroPage_def decodeFlags_def Let_def reset_bytes [OF u] bt_ok_def\<close>)
  moreover have "ovfl (zeroPage pBt pg flags) = []" by (simp add: zeroPage_def Let_def case_prod_beta)
  ultimately show ?thesis by (auto simp: page_ok_def)
qed

end
