(* ===== verification/Btree_Open.thy ===== *)
theory Btree_Open
  imports Btree_Rep
begin

text \<open>
  Opening a page that was written before: the header and the list of free blocks give back the
  state that the operations on cells kept.
\<close>

section \<open>Adding up the free blocks\<close>

lemma sum_blocks_chain:
  "chain d a fs \<Longrightarrow> ascending lo usable fs \<Longrightarrow> fs \<noteq> [] \<Longrightarrow>
     sum_blocks d (usable - 4) (first_block fs) acc = Some (acc + tot fs, fst (last fs), snd (last fs), 0)"
proof (induction fs arbitrary: a lo acc rule: tot.induct)
  case (2 s z fs)
  have c: "get2byte d (s + 2) = z" "chain d s fs" "get2byte d s = first_block fs" using "2.prems"(1) chain_first [of d s fs] by (simp_all add: chain_simps)
  have a: "4 \<le> z" "s + z \<le> usable" "ascending (s + z + 4) usable fs" using "2.prems"(2) by simp_all
  show ?case
  proof (cases "fs = []")
    case True
    then show ?thesis using c a by (simp add: sum_blocks.simps [of d "usable - 4" s])
  next
    case False
    then obtain t w gs where fs: "fs = (t, w) # gs" by (cases fs) auto
    have "\<not> s > usable - 4" using a by simp
    with fs have "sum_blocks d (usable - 4) s acc = sum_blocks d (usable - 4) (first_block fs) (acc + z)"
      using c a by (simp add: sum_blocks.simps [of d "usable - 4" s] Let_def)
    then show ?thesis using "2.IH" [OF c(2) a(3) False, of "acc + z"] False by simp
  qed
qed simp

lemma btreeComputeFreeSpace_space:
  assumes sp: "space pBt pg cs [] ctop fs"
  shows "btreeComputeFreeSpace pBt pg = (pg\<lparr>nFree := free_bytes pBt pg cs\<rparr>, SQLITE_OK)"
proof -
  let ?h = "hdrOffset pg" and ?f = "cellOffset pg + 2 * nCell pg" and ?u = "usableSize pBt" and ?frag = "unat (aData pg (hdrOffset pg + 7))"
  note P = space_parts [OF sp] and F = static_facts [OF sp]
  have first: "?h + 8 + childPtrSize pg + 2 * nCell pg = ?f" using sp by (simp add: space_def page_static_def)
  have lay: "tot (regs cs) + tot fs + ?frag = ?u - ctop" "ctop \<le> ?u" using P(7) by (simp_all add: layout_def)
  define fr where "fr = ?frag + ctop + tot fs"
  have fr: "fr \<le> ?u" "?f \<le> fr" "8 \<le> ?f" using lay P(2,3) by (simp_all add: fr_def)
  have eq: "int ((fr - ?f) mod 65536) = free_bytes pBt pg cs"
  proof -
    have "fr - ?f < 65536" using fr F(3) by linarith
    then have "int ((fr - ?f) mod 65536) = int fr - int ?f" using fr(2) by (simp add: of_nat_diff)
    also have "int fr = int ?u - int (tot (regs cs))" using lay unfolding fr_def by linarith
    finally show ?thesis by (simp add: free_bytes_def)
  qed
  have top: "get2byteNotZero (aData pg) (?h + 5) = ctop" using P(1) by simp
  note D = btreeComputeFreeSpace_def [of pBt pg, unfolded Let_def first top chain_first [OF P(4)]]
  show ?thesis
  proof (cases "fs = []")
    case True
    then have "fr = ?frag + ctop" by (simp add: fr_def)
    then show ?thesis unfolding D using True fr eq by simp
  next
    case False
    have l: "(fst (last fs), snd (last fs)) \<in> set fs" using False by simp
    obtain t w gs where fs: "fs = (t, w) # gs" using False by (cases fs) auto
    have "0 < first_block fs" "\<not> first_block fs < ctop" using P(5) fs by simp_all
    moreover have "fst (last fs) + snd (last fs) \<le> ?u" using ascending_range [OF P(5) l] by simp
    ultimately show ?thesis unfolding D sum_blocks_chain [OF P(4,5) False, of "?frag + ctop"] fr_def [symmetric] using fr eq by simp
  qed
qed

section \<open>The checks on opening\<close>

lemma cell_min: "methods_ok pBt pg \<Longrightarrow> \<not> leaf pg \<Longrightarrow> 5 \<le> cell_size pBt pg d p"
proof -
  assume m: "methods_ok pBt pg" "\<not> leaf pg"
  have "p + 4 < snd (header_of pg d p)"
    using m payload_size_end [of "p + 4" d, where 'a = 32] skip_key_end [of "p + 4" d]
    by (auto simp: header_of_def methods_ok_def case_prod_beta split: cell_size_method.splits)
  then show ?thesis using cell_size_bounds [OF m(1), of d p] by linarith
qed

lemma btreeCellSizeCheck_ok:
  assumes sp: "space pBt pg cs [] ctop fs" and p: "ptrs_ok (aData pg) (cellOffset pg) cs" "nCell pg = length cs"
  shows "btreeCellSizeCheck pBt pg = SQLITE_OK"
proof -
  have m: "methods_ok pBt pg" using sp by (simp add: space_def page_static_def)
  have "cellOffset pg + 2 * nCell pg \<le> q \<and> q \<le> (if leaf pg then usableSize pBt - 4 else usableSize pBt - 5) \<and> q + cell_size pBt pg (aData pg) q \<le> usableSize pBt"
    if i: "i < nCell pg" and q: "q = get2byte (aData pg) (cellOffset pg + i * 2)" for i q
  proof -
    obtain r c where rc: "cs ! i = (r, c)" by (cases "cs ! i")
    have "q = r" using p i rc unfolding q by (simp add: ptrs_ok_def mult.commute)
    moreover have mem: "(r, c) \<in> set cs" using nth_mem [of i cs] rc i p(2) by simp
    then have reg: "(r, length c) \<in> set (regs cs)" by force
    have "cell_size pBt pg (aData pg) r = length c"
      by (rule cell_ok_size [OF m]) (use sp mem in \<open>force simp: space_def stored_def\<close>)+
    moreover have "5 \<le> length c" if "\<not> leaf pg" using cell_min [OF m that, of "aData pg" r] calculation(2) by simp
    ultimately show ?thesis using cells_within(1,3,4) [OF sp reg] space_parts(2) [OF sp] by auto
  qed
  then show ?thesis by (simp add: btreeCellSizeCheck_def Let_def list_all_iff)
qed

text \<open>Pages that agree in the fields the invariant reads.\<close>

lemma space_cong:
  assumes sp: "space pBt pg cs R ctop fs" and e: "aData pg' = aData pg" "hdrOffset pg' = hdrOffset pg" "cellOffset pg' = cellOffset pg" "nCell pg' = nCell pg"
    "childPtrSize pg' = childPtrSize pg" "leaf pg' = leaf pg" "maxLocal pg' = maxLocal pg" "minLocal pg' = minLocal pg"
    "xCellSize pg' = xCellSize pg" "xParseCell pg' = xParseCell pg"
  shows "space pBt pg' cs R ctop fs"
proof -
  have "methods_ok pBt pg' = methods_ok pBt pg" using e by (simp only: methods_ok_def)
  moreover have "cell_ok pBt pg' c = cell_ok pBt pg c" for c by (simp add: cell_ok_def cell_size_cong [OF e(9,7,8)])
  ultimately show ?thesis using sp space_parts(5,7) [OF sp] e by (simp add: space_def page_static_def)
qed

definition flags_ok :: "BtShared \<Rightarrow> MemPage \<Rightarrow> bool" where
  "flags_ok pBt pg \<longleftrightarrow> decodeFlags pBt (shape pg) (unat (flag_byte pg)) = (shape pg, SQLITE_OK)"

text \<open>What \<^verbatim>\<open>decodeFlags\<close> sets depends only on the flag byte.\<close>

lemma decodeFlags_cong:
  assumes "decodeFlags pBt pg f = (pg, SQLITE_OK)"
  obtains pg' where "decodeFlags pBt pg0 f = (pg', SQLITE_OK)" "aData pg' = aData pg0" "hdrOffset pg' = hdrOffset pg0"
    "childPtrSize pg' = childPtrSize pg" "leaf pg' = leaf pg" "maxLocal pg' = maxLocal pg" "minLocal pg' = minLocal pg"
    "xCellSize pg' = xCellSize pg" "xParseCell pg' = xParseCell pg"
proof -
  have ok: "snd (decodeFlags pBt pg f) = SQLITE_OK" and pg: "fst (decodeFlags pBt pg f) = pg" using assms by simp_all
  let ?q = "fst (decodeFlags pBt pg f)"
  have f: "f \<in> {2, 5, 10, 13}" using ok by (simp add: decodeFlags_def Let_def split: if_splits)
  then have "childPtrSize (fst (decodeFlags pBt pg0 f)) = childPtrSize ?q \<and> leaf (fst (decodeFlags pBt pg0 f)) = leaf ?q \<and>
      maxLocal (fst (decodeFlags pBt pg0 f)) = maxLocal ?q \<and> minLocal (fst (decodeFlags pBt pg0 f)) = minLocal ?q \<and>
      xCellSize (fst (decodeFlags pBt pg0 f)) = xCellSize ?q \<and> xParseCell (fst (decodeFlags pBt pg0 f)) = xParseCell ?q \<and>
      aData (fst (decodeFlags pBt pg0 f)) = aData pg0 \<and> hdrOffset (fst (decodeFlags pBt pg0 f)) = hdrOffset pg0 \<and> snd (decodeFlags pBt pg0 f) = SQLITE_OK"
    by (auto simp: decodeFlags_def Let_def)
  then show thesis unfolding pg using that [of "fst (decodeFlags pBt pg0 f)"] by (simp add: prod_eq_iff)
qed

lemma zeroPage_flags:
  assumes bt: "bt_ok pBt" and f: "flags \<in> {2, 5, 10, 13}"
  shows "flags_ok pBt (zeroPage pBt pg flags)"
proof -
  have u: "0 < usableSize pBt" "usableSize pBt \<le> 65536" using bt by (auto simp: bt_ok_def)
  have "unat (flag_byte (zeroPage pBt pg flags)) = flags"
    using f by (auto simp: flag_byte_def zeroPage_def decodeFlags_def Let_def reset_bytes [OF u])
  moreover have "decodeFlags pBt (shape (zeroPage pBt pg flags)) flags = (shape (zeroPage pBt pg flags), SQLITE_OK)"
    using f by (auto simp: decodeFlags_def zeroPage_def shape_def Let_def intro!: MemPage.equality)
  ultimately show ?thesis by (simp add: flags_ok_def)
qed

text \<open>A page is opened by \<^verbatim>\<open>btreeInitPage\<close>; its free space is computed when it is first needed.\<close>

definition open_page :: "BtShared \<Rightarrow> MemPage \<Rightarrow> MemPage \<times> int" where
  "open_page pBt pg = (case btreeInitPage pBt pg of (pg', rc) \<Rightarrow> if rc = SQLITE_OK then btreeComputeFreeSpace pBt pg' else (pg', rc))"

lemma page_ok_open:
  assumes ok: "page_ok pBt pg cells" and f: "flags_ok pBt pg" and d: "aData pg0 = aData pg" "hdrOffset pg0 = hdrOffset pg"
  shows "\<exists>pg'. open_page pBt pg0 = (pg', SQLITE_OK) \<and> page_ok pBt pg' cells \<and> ovfl pg' = [] \<and> aData pg' = aData pg \<and> maskPage pg' = pageSize pBt - 1"
proof -
  obtain cs ctop fs where sp: "space pBt pg cs [] ctop fs" and e: "cs = [] \<longrightarrow> ctop = usableSize pBt" and n: "nCell pg = length cs"
    and p: "ptrs_ok (aData pg) (cellOffset pg) cs" "get2byte (aData pg) (hdrOffset pg + 3) = nCell pg" and cs: "map snd cs = cells"
    using ok by (auto simp: page_ok_def page_rep_def)
  have st: "cellOffset pg = hdrOffset pg + 8 + childPtrSize pg" "usableSize pBt \<le> pageSize pBt"
    using sp by (simp_all add: space_def page_static_def methods_ok_def bt_ok_def)
  obtain q where q: "decodeFlags pBt pg0 (unat (flag_byte pg)) = (q, SQLITE_OK)" "aData q = aData pg0" "hdrOffset q = hdrOffset pg0"
    "childPtrSize q = childPtrSize pg" "leaf q = leaf pg" "maxLocal q = maxLocal pg" "minLocal q = minLocal pg"
    "xCellSize q = xCellSize pg" "xParseCell q = xParseCell pg"
    by (rule decodeFlags_cong [OF f [unfolded flags_ok_def], of pg0]) (simp add: shape_def)
  define q1 where "q1 = q\<lparr>maskPage := pageSize pBt - 1, ovfl := [], cellOffset := cellOffset pg, nCell := nCell pg, nFree := -1, isInit := True\<rparr>"
  have sp1: "space pBt q1 cs [] ctop fs" by (rule space_cong [OF sp]) (simp_all add: q1_def q d)
  have mx: "\<not> nCell pg > MX_CELL pBt"
  proof -
    have "4 * length cs \<le> tot (regs cs)"
    proof -
      have "\<forall>r \<in> set (regs cs). 4 \<le> snd r" using cells_within(1) [OF sp] by blast
      then show ?thesis by (induction cs) auto
    qed
    then have "6 * nCell pg + 8 \<le> pageSize pBt" using space_parts(2,3,7) [OF sp] n st by (auto simp: layout_def)
    then show ?thesis by (simp add: MX_CELL_def not_less less_eq_div_iff_mult_less_eq)
  qed
  have "flag_byte pg = aData pg0 (hdrOffset pg0)" by (simp add: flag_byte_def d)
  then have "btreeInitPage pBt pg0 = (q1, if cellSizeCk pBt then btreeCellSizeCheck pBt q1 else SQLITE_OK)"
    using q d st p(2) mx by (simp add: btreeInitPage_def q1_def Let_def)
  then have "btreeInitPage pBt pg0 = (q1, SQLITE_OK)" using btreeCellSizeCheck_ok [OF sp1] p n by (simp add: q1_def q d)
  then have "open_page pBt pg0 = (q1\<lparr>nFree := free_bytes pBt q1 cs\<rparr>, SQLITE_OK)" using btreeComputeFreeSpace_space [OF sp1] by (simp add: open_page_def)
  moreover have "page_rep pBt (q1\<lparr>nFree := free_bytes pBt q1 cs\<rparr>) cs"
  proof -
    have "nCell q1 = nCell pg" "aData q1 = aData pg" "cellOffset q1 = cellOffset pg" "hdrOffset q1 = hdrOffset pg" by (simp_all add: q1_def q d)
    then show ?thesis unfolding page_rep_def using sp1 e n p by (auto simp: free_bytes_def)
  qed
  ultimately show ?thesis using cs by (auto simp: page_ok_def q1_def q d)
qed

end
