(* ===== verification/Btree_History.thy ===== *)
theory Btree_History
  imports Btree_Open
begin

text \<open>
  Histories of a b-tree page: any sequence of insertions and removals of cells acts as on a list,
  and the page can be opened again at any time.
\<close>

section \<open>The interface of a page\<close>

text \<open>A run stops at the first error; a sequence is legal when each operation is, in the list that is then held.\<close>

fun run_ops :: "('p \<Rightarrow> 'o \<Rightarrow> 'p \<times> int) \<Rightarrow> 'p \<Rightarrow> 'o list \<Rightarrow> 'p \<times> int" where
  "run_ops step p [] = (p, SQLITE_OK)"
| "run_ops step p (x # xs) = (let (p', rc) = step p x in if rc \<noteq> SQLITE_OK then (p', rc) else run_ops step p' xs)"

fun legal_ops :: "('c list \<Rightarrow> 'o \<Rightarrow> bool) \<Rightarrow> ('c list \<Rightarrow> 'o \<Rightarrow> 'c list) \<Rightarrow> 'c list \<Rightarrow> 'o list \<Rightarrow> bool" where
  "legal_ops legal effect cs [] = True"
| "legal_ops legal effect cs (x # xs) \<longleftrightarrow> legal cs x \<and> legal_ops legal effect (effect cs x) xs"

locale cell_page =
  fixes holds :: "'p \<Rightarrow> 'c list \<Rightarrow> bool" and kind :: "'p \<Rightarrow> 's" and legal :: "'s \<Rightarrow> 'c list \<Rightarrow> 'o \<Rightarrow> bool"
    and effect :: "'c list \<Rightarrow> 'o \<Rightarrow> 'c list" and step :: "'p \<Rightarrow> 'o \<Rightarrow> 'p \<times> int"
  assumes step_ok: "holds p cs \<Longrightarrow> legal (kind p) cs x \<Longrightarrow> fst (step p x) = p' \<Longrightarrow> snd (step p x) = SQLITE_OK \<and> holds p' (effect cs x) \<and> kind p' = kind p"
begin

lemma history:
  "holds p cs \<Longrightarrow> legal_ops (legal (kind p)) effect cs xs \<Longrightarrow>
     \<exists>p'. run_ops step p xs = (p', SQLITE_OK) \<and> holds p' (foldl effect cs xs) \<and> kind p' = kind p"
proof (induction xs arbitrary: p cs)
  case (Cons x xs)
  then have s: "snd (step p x) = SQLITE_OK" "holds (fst (step p x)) (effect cs x)" "kind (fst (step p x)) = kind p"
    using step_ok [OF Cons.prems(1) _ refl, of x] by simp_all
  then show ?case using Cons.IH [OF s(2)] Cons.prems(2) by (simp add: case_prod_beta)
qed simp

end

section \<open>Cells of a page\<close>

lemma and_mask_small: "p < 2 ^ k \<Longrightarrow> (2 ^ k - 1) AND p = (p :: nat)"
  using take_bit_nat_eq_self [of p k] by (simp add: take_bit_eq_mask mask_eq_exp_minus_1 and.commute)

text \<open>The mask of the page keeps every offset of a cell.\<close>

definition mask_ok :: "BtShared \<Rightarrow> MemPage \<Rightarrow> bool" where
  "mask_ok pBt pg \<longleftrightarrow> (\<forall>p < usableSize pBt. maskPage pg AND p = p)"

lemma mask_ok_power: "pageSize pBt = 2 ^ k \<Longrightarrow> usableSize pBt \<le> pageSize pBt \<Longrightarrow> maskPage pg = pageSize pBt - 1 \<Longrightarrow> mask_ok pBt pg"
  unfolding mask_ok_def using and_mask_small [of _ k] by (metis less_le_trans)

definition cell_at :: "MemPage \<Rightarrow> nat \<Rightarrow> bytes \<Rightarrow> bool" where
  "cell_at pg i c \<longleftrightarrow> (\<forall>k < length c. aData pg (findCell pg i + k) = c ! k)"

lemma page_ok_cell:
  assumes ok: "page_ok pBt pg cells" and m: "mask_ok pBt pg" and i: "i < length cells"
  shows "cell_at pg i (cells ! i)" "cell_size pBt pg (aData pg) (findCell pg i) = length (cells ! i)"
proof -
  obtain cs ctop fs where sp: "space pBt pg cs [] ctop fs" and p: "ptrs_ok (aData pg) (cellOffset pg) cs" and cs: "map snd cs = cells"
    using ok by (auto simp: page_ok_def page_rep_def)
  have n: "i < length cs" using i cs by auto
  obtain q where q: "cs ! i = (q, cells ! i)" using n cs by (cases "cs ! i") auto
  have mem: "(q, cells ! i) \<in> set cs" using nth_mem [OF n] q by simp
  then have "(q, length (cells ! i)) \<in> set (regs cs)" by force
  from cells_within(1,4) [OF sp this] have "q < usableSize pBt" by simp
  then have f: "findCell pg i = q" using p n q m by (simp add: findCell_def ptrs_ok_def mask_ok_def)
  show a: "cell_at pg i (cells ! i)" using sp mem unfolding cell_at_def f by (auto simp: space_def stored_def)
  have "cell_ok pBt pg (cells ! i)" using sp mem by (force simp: space_def)
  then show "cell_size pBt pg (aData pg) (findCell pg i) = length (cells ! i)"
    using cell_ok_size [OF page_ok_methods [OF ok]] a by (simp add: cell_at_def)
qed

section \<open>Histories\<close>

datatype cell_op = Insert nat bytes | InsertChild nat bytes u32 | Drop nat

text \<open>The callers of \<^verbatim>\<open>dropCell\<close> pass the size that the page computes for the cell.\<close>

fun page_step :: "BtShared \<Rightarrow> MemPage \<times> pager_pages \<Rightarrow> cell_op \<Rightarrow> (MemPage \<times> pager_pages) \<times> int" where
  "page_step pBt (pg, pp) (Insert i c) = (let (pg', pp', rc) = insertCellFast pBt pp False pg i c in ((pg', pp'), rc))"
| "page_step pBt (pg, pp) (InsertChild i c x) = (let (pg', pp', rc) = insertCell pBt pp False pg i c x in ((pg', pp'), rc))"
| "page_step pBt (pg, pp) (Drop i) = (let (pg', rc) = dropCell pBt pg i (cell_size pBt pg (aData pg) (findCell pg i)) SQLITE_OK in ((pg', pp), rc))"

fun cell_effect :: "bytes list \<Rightarrow> cell_op \<Rightarrow> bytes list" where
  "cell_effect cells (Insert i c) = ins i c cells"
| "cell_effect cells (InsertChild i c x) = ins i (with_child x c) cells"
| "cell_effect cells (Drop i) = del i cells"

fun legal_op :: "BtShared \<Rightarrow> MemPage \<Rightarrow> bytes list \<Rightarrow> cell_op \<Rightarrow> bool" where
  "legal_op pBt pg cells (Insert i c) \<longleftrightarrow> cell_ok pBt pg c \<and> i \<le> length cells \<and> int (length c) + 2 \<le> room pBt pg cells"
| "legal_op pBt pg cells (InsertChild i c x) \<longleftrightarrow> \<not> leaf pg \<and> cell_ok pBt pg c \<and> i \<le> length cells \<and> int (length c) + 2 \<le> room pBt pg cells"
| "legal_op pBt pg cells (Drop i) \<longleftrightarrow> i < length cells"

lemma shape_cell: "cell_ok pBt (shape pg) c = cell_ok pBt pg c"
  by (simp add: shape_def)

lemma legal_shape: "legal_op pBt (shape pg) cells x = legal_op pBt pg cells x"
  by (cases x) (simp_all add: shape_def room_def)

lemma mask_shape: "shape pg' = shape pg \<Longrightarrow> mask_ok pBt pg' = mask_ok pBt pg"
  by (drule arg_cong [of _ _ maskPage]) (simp add: shape_def mask_ok_def)

text \<open>The page between two operations: well-formed, no cell set aside, and no failing write to come.\<close>

definition holds_cells :: "BtShared \<Rightarrow> MemPage \<times> pager_pages \<Rightarrow> bytes list \<Rightarrow> bool" where
  "holds_cells pBt s cells \<longleftrightarrow>
     page_ok pBt (fst s) cells \<and> flags_ok pBt (fst s) \<and> mask_ok pBt (fst s) \<and> ovfl (fst s) = [] \<and> results (snd s) = [] \<and> \<not> autoVacuum pBt"

interpretation cp: cell_page "holds_cells pBt" "\<lambda>s. shape (fst s)" "legal_op pBt" cell_effect "page_step pBt" for pBt
proof
  fix s :: "MemPage \<times> pager_pages" and cells x s'
  assume h: "holds_cells pBt s cells" and l: "legal_op pBt (shape (fst s)) cells x" and s': "fst (page_step pBt s x) = s'"
  obtain pg pp where s: "s = (pg, pp)" by (cases s)
  have ok: "page_ok pBt pg cells" "flags_ok pBt pg" "mask_ok pBt pg" "ovfl pg = []" "results pp = []" "\<not> autoVacuum pBt"
    using h by (simp_all add: holds_cells_def s)
  have w: "next_rc pp = (SQLITE_OK, pp)" using ok(5) by (simp add: next_rc_def)
  have l': "legal_op pBt pg cells x" using l by (simp add: s legal_shape)
  have fin: "snd (page_step pBt s x) = SQLITE_OK \<and> holds_cells pBt s' (cell_effect cells x) \<and> shape (fst s') = shape (fst s)"
    if "page_step pBt s x = ((pg', pp), SQLITE_OK)" "page_ok pBt pg' (cell_effect cells x)" "ovfl pg' = []" "shape pg' = shape pg" "flag_byte pg' = flag_byte pg" for pg'
    using that ok s s' mask_shape [OF that(4)] by (auto simp: holds_cells_def flags_ok_def)
  show "snd (page_step pBt s x) = SQLITE_OK \<and> holds_cells pBt s' (cell_effect cells x) \<and> shape (fst s') = shape (fst s)"
  proof (cases x)
    case (Insert i c)
    obtain pg' pp' rc where r: "insertCellFast pBt pp False pg i c = (pg', pp', rc)" by (metis prod_cases3)
    have "page_ok pBt pg' (ins i c cells)" "ovfl pg' = ovfl pg" "shape pg' = shape pg" "flag_byte pg' = flag_byte pg" "rc = SQLITE_OK" "pp' = pp"
      using insertCellFast_ok [OF ok(1) _ _ _ w r] l' ok(6) by (simp_all add: Insert)
    then show ?thesis using r by (intro fin [of pg']) (simp_all add: Insert s ok)
  next
    case (InsertChild i c ch)
    obtain pg' pp' rc where r: "insertCell pBt pp False pg i c ch = (pg', pp', rc)" by (metis prod_cases3)
    have "page_ok pBt pg' (ins i (with_child ch c) cells)" "ovfl pg' = []" "shape pg' = shape pg" "flag_byte pg' = flag_byte pg" "rc = SQLITE_OK" "pp' = pp"
      using insertCell_ok [OF ok(1) _ _ _ _ w ok(4) r] l' ok(6) by (simp_all add: InsertChild)
    then show ?thesis using r by (intro fin [of pg']) (simp_all add: InsertChild s)
  next
    case (Drop i)
    then have i: "i < length cells" using l' by simp
    obtain pg' where "dropCell pBt pg i (length (cells ! i)) SQLITE_OK = (pg', SQLITE_OK)" "page_ok pBt pg' (del i cells)" "ovfl pg' = ovfl pg"
      "shape pg' = shape pg" "flag_byte pg' = flag_byte pg" using dropCell_ok [OF ok(1) i] by blast
    then show ?thesis using page_ok_cell(2) [OF ok(1,3) i] by (intro fin [of pg']) (simp_all add: Drop s ok)
  qed
qed

lemma zeroPage_holds:
  assumes "bt_ok pBt" "\<not> autoVacuum pBt" "pageSize pBt = 2 ^ k" "hdrOffset pg \<in> {0, 100}" "flags \<in> {2, 5, 10, 13}" "results pp = []"
  shows "holds_cells pBt (zeroPage pBt pg flags, pp) []"
proof -
  have "pageSize pBt \<le> 65536" "0 < pageSize pBt" "usableSize pBt \<le> pageSize pBt" using assms(1) by (simp_all add: bt_ok_def)
  then have "maskPage (zeroPage pBt pg flags) = pageSize pBt - 1" by (simp add: zeroPage_def Let_def case_prod_beta)
  then have "mask_ok pBt (zeroPage pBt pg flags)" using mask_ok_power [OF assms(3)] assms(1) by (simp add: bt_ok_def)
  then show ?thesis using zeroPage_ok [OF assms(1,4,5)] zeroPage_flags [OF assms(1,5)] assms(2,6) by (simp add: holds_cells_def)
qed

section \<open>Properties\<close>

text \<open>C11: Starting from an empty page of any of the four types, every legal sequence of insertions (of a cell, or of a cell with
  a child pointer) and removals succeeds and leaves a well-formed page: cells, free blocks, fragments and
  the gap never overlap, the cell pointers lead to exactly the bytes of the cells of the list on which the same
  operations were done, and the counts of cells and of free bytes are exact.\<close>

theorem page_history:
  assumes "bt_ok pBt" "\<not> autoVacuum pBt" "pageSize pBt = 2 ^ k" "hdrOffset pg \<in> {0, 100}" "flags \<in> {2, 5, 10, 13}" "results pp = []"
    "legal_ops (legal_op pBt (shape (zeroPage pBt pg flags))) cell_effect [] ops"
  shows "\<exists>pg' pp'. run_ops (page_step pBt) (zeroPage pBt pg flags, pp) ops = ((pg', pp'), SQLITE_OK) \<and>
    (let cells = foldl cell_effect [] ops in
     page_ok pBt pg' cells \<and> nCell pg' = length cells \<and> nFree pg' = room pBt pg' cells \<and> (\<forall>i < length cells. cell_at pg' i (cells ! i)))"
proof -
  have "holds_cells pBt (zeroPage pBt pg flags, pp) []" by (rule zeroPage_holds [OF assms(1-6)])
  from cp.history [OF this, of ops] assms(7) obtain s where s: "run_ops (page_step pBt) (zeroPage pBt pg flags, pp) ops = (s, SQLITE_OK)" "holds_cells pBt s (foldl cell_effect [] ops)"
    by auto
  then have ok: "page_ok pBt (fst s) (foldl cell_effect [] ops)" "mask_ok pBt (fst s)" by (simp_all add: holds_cells_def)
  show ?thesis
    by (intro exI [of _ "fst s"] exI [of _ "snd s"]) (use s(1) ok page_ok_cell(1) [OF ok] page_ok_count [OF ok(1)] page_ok_room [OF ok(1)] in simp)
qed


text \<open>C13: dropCell, with the size the page computes for the cell, removes the cell from the list the page holds, gives
  its bytes and its pointer back to the free bytes and never reports corruption; with an earlier error it does nothing.\<close>

theorem page_drop_refines:
  assumes "page_ok pBt pg cells" "mask_ok pBt pg" "i < length cells"
  shows "(\<exists>pg'. dropCell pBt pg i (cell_size pBt pg (aData pg) (findCell pg i)) SQLITE_OK = (pg', SQLITE_OK) \<and> page_ok pBt pg' (del i cells) \<and>
      ovfl pg' = ovfl pg \<and> nFree pg' = nFree pg + int (length (cells ! i)) + 2) \<and>
    (rc \<noteq> SQLITE_OK \<longrightarrow> dropCell pBt pg i sz rc = (pg, rc))"
proof -
  obtain pg' where d: "dropCell pBt pg i (length (cells ! i)) SQLITE_OK = (pg', SQLITE_OK)" "page_ok pBt pg' (del i cells)" "ovfl pg' = ovfl pg" "shape pg' = shape pg"
    using dropCell_ok [OF assms(1,3)] by blast
  have "cellOffset pg' = cellOffset pg" using arg_cong [OF d(4), of cellOffset] by (simp add: shape_def)
  moreover have "(\<Sum>c\<leftarrow>cells. int (length c) + 2) = (\<Sum>c\<leftarrow>del i cells. int (length c) + 2) + int (length (cells ! i)) + 2"
    using arg_cong [OF id_take_nth_drop [OF assms(3)], of "\<lambda>xs. \<Sum>c\<leftarrow>xs. int (length c) + 2"] by (simp add: del_def)
  ultimately have "nFree pg' = nFree pg + int (length (cells ! i)) + 2" using page_ok_room [OF assms(1)] page_ok_room [OF d(2)] by (simp add: room_def)
  then show ?thesis using d page_ok_cell(2) [OF assms] by (auto simp: dropCell_def [of _ _ _ sz rc])
qed

text \<open>C14: A well-formed page that was written can be opened again into any page object: the flag byte gives its type back, the
  checks of the cell count and of the cell sizes pass, the free bytes computed from the header and the list of
  free blocks are exact, and the page holds the same cells.\<close>

theorem page_reopen:
  assumes "page_ok pBt pg cells" "flags_ok pBt pg" "aData pg0 = aData pg" "hdrOffset pg0 = hdrOffset pg"
  shows "\<exists>pg1 pg2. btreeInitPage pBt pg0 = (pg1, SQLITE_OK) \<and> btreeComputeFreeSpace pBt pg1 = (pg2, SQLITE_OK) \<and>
    page_ok pBt pg2 cells \<and> nFree pg2 = room pBt pg2 cells \<and> aData pg2 = aData pg \<and> ovfl pg2 = []"
proof -
  obtain pg2 where o: "open_page pBt pg0 = (pg2, SQLITE_OK)" and p: "page_ok pBt pg2 cells" "ovfl pg2 = []" "aData pg2 = aData pg"
    using page_ok_open [OF assms] by blast
  obtain pg1 rc where i: "btreeInitPage pBt pg0 = (pg1, rc)" by (cases "btreeInitPage pBt pg0")
  then have "rc = SQLITE_OK" "btreeComputeFreeSpace pBt pg1 = (pg2, SQLITE_OK)" using o by (auto simp: open_page_def split: if_splits)
  then show ?thesis using i p page_ok_room [OF p(1)] by blast
qed

section \<open>Examples\<close>

definition demo_page :: MemPage where
  "demo_page = zeroPage bt_512 blank_page 13"

definition no_pages :: pager_pages where
  "no_pages = \<lparr>content = (\<lambda>p i. 0), in_use = (\<lambda>p. False), results = []\<rparr>"

lemma demo_cell: "cell_ok bt_512 demo_page [2, 1, 7, 8]" "cell_ok bt_512 demo_page [3, 2, 1, 2, 3]"
  by (simp_all add: cell_ok_def cell_size_def cellSizePtrTableLeaf_def demo_page_def zeroPage_def decodeFlags_def bt_512_def blank_page_def
      mem_of_def payload_size_def skip_key_def Let_def)

lemma demo_room: "room bt_512 (shape demo_page) cells = 504 - (\<Sum>c\<leftarrow>cells. int (length c) + 2)" "room bt_512 demo_page cells = 504 - (\<Sum>c\<leftarrow>cells. int (length c) + 2)"
  by (simp_all add: room_def shape_def demo_page_def zeroPage_def decodeFlags_def bt_512_def blank_page_def Let_def)

lemma demo_bt: "bt_ok bt_512" "\<not> autoVacuum bt_512" "pageSize bt_512 = 2 ^ 9" "hdrOffset blank_page \<in> {0, 100}" "(13::nat) \<in> {2, 5, 10, 13}" "results no_pages = []"
  by (simp_all add: bt_ok_def bt_512_def blank_page_def no_pages_def)

lemma demo_holds: "page_ok bt_512 demo_page []" "ovfl demo_page = []" "flags_ok bt_512 demo_page" "mask_ok bt_512 demo_page"
  using zeroPage_holds [OF demo_bt] by (simp_all add: holds_cells_def demo_page_def)

theorem page_history_witness:
  "\<exists>pg' pp'. run_ops (page_step bt_512) (demo_page, no_pages) [Insert 0 [2, 1, 7, 8], Insert 1 [3, 2, 1, 2, 3], Drop 0] = ((pg', pp'), SQLITE_OK) \<and>
     page_ok bt_512 pg' [[3, 2, 1, 2, 3]] \<and> nCell pg' = 1"
proof -
  have e: "foldl cell_effect [] [Insert 0 [2, 1, 7, 8], Insert 1 [3, 2, 1, 2, 3], Drop 0] = [[3, 2, 1, 2, 3]]" by (simp add: ins_def del_def)
  have "legal_ops (legal_op bt_512 (shape demo_page)) cell_effect [] [Insert 0 [2, 1, 7, 8], Insert 1 [3, 2, 1, 2, 3], Drop 0]"
    using demo_cell by (simp add: shape_cell ins_def del_def demo_room)
  from page_history [OF demo_bt this [unfolded demo_page_def]] show ?thesis unfolding e demo_page_def by (auto simp: Let_def)
qed


lemma demo_one: "holds_cells bt_512 (fst (insertCellFast bt_512 no_pages False demo_page 0 [2, 1, 7, 8]), no_pages) [[2, 1, 7, 8]]"
proof -
  obtain pg' pp' rc where r: "insertCellFast bt_512 no_pages False demo_page 0 [2, 1, 7, 8] = (pg', pp', rc)" by (metis prod_cases3)
  have w: "next_rc no_pages = (SQLITE_OK, no_pages)" by (simp add: no_pages_def next_rc_def)
  have i: "page_ok bt_512 pg' [[2, 1, 7, 8]] \<and> ovfl pg' = [] \<and> shape pg' = shape demo_page \<and> flag_byte pg' = flag_byte demo_page"
    using insertCellFast_ok [OF demo_holds(1) demo_cell(1) _ _ w r] demo_holds(2) by (simp add: demo_room ins_def)
  then show ?thesis using r demo_holds(3,4) mask_shape [of pg' demo_page] demo_bt(2,6) by (simp add: holds_cells_def flags_ok_def)
qed

theorem page_drop_refines_witness:
  "let pg = fst (insertCellFast bt_512 no_pages False demo_page 0 [2, 1, 7, 8]) in
   \<exists>pg'. dropCell bt_512 pg 0 (cell_size bt_512 pg (aData pg) (findCell pg 0)) SQLITE_OK = (pg', SQLITE_OK) \<and> page_ok bt_512 pg' []"
  using page_drop_refines [of bt_512 "fst (insertCellFast bt_512 no_pages False demo_page 0 [2, 1, 7, 8])" "[[2, 1, 7, 8]]" 0] demo_one
  by (auto simp: holds_cells_def del_def Let_def)

theorem page_reopen_witness:
  "let pg = fst (insertCellFast bt_512 no_pages False demo_page 0 [2, 1, 7, 8]) in
   \<exists>pg1 pg2. btreeInitPage bt_512 (blank_page\<lparr>hdrOffset := hdrOffset pg, aData := aData pg\<rparr>) = (pg1, SQLITE_OK) \<and>
     btreeComputeFreeSpace bt_512 pg1 = (pg2, SQLITE_OK) \<and> page_ok bt_512 pg2 [[2, 1, 7, 8]]"
  using page_reopen [of bt_512 "fst (insertCellFast bt_512 no_pages False demo_page 0 [2, 1, 7, 8])" "[[2, 1, 7, 8]]"
      "blank_page\<lparr>hdrOffset := hdrOffset (fst (insertCellFast bt_512 no_pages False demo_page 0 [2, 1, 7, 8])), aData := aData (fst (insertCellFast bt_512 no_pages False demo_page 0 [2, 1, 7, 8]))\<rparr>"] demo_one
  by (auto simp: holds_cells_def Let_def)

end
