(* ===== verification/Ieee.thy ===== *)
theory Ieee
  imports Prelude
begin

text \<open>
  Double-precision numbers as their 64 bits: which are not a number, their exact value, the
  comparisons and conversions of C, and the comparison of an integer with a double in \<^verbatim>\<open>vdbeaux.c\<close>.
\<close>

unbundle bit_operations_syntax

section \<open>Values\<close>

definition IsNaN :: "u64 \<Rightarrow> bool" where
  "IsNaN x \<longleftrightarrow> x AND 0x7ff0000000000000 = 0x7ff0000000000000 \<and> x AND 0x000fffffffffffff \<noteq> 0"

definition sqlite3IsNaN :: "u64 \<Rightarrow> bool" where
  "sqlite3IsNaN x = IsNaN x"

text \<open>The magnitude of a double in units of \<open>2\<^sup>-\<^sup>1\<^sup>0\<^sup>7\<^sup>4\<close>, from its exponent and fraction. An infinity gets the next value behind the finite ones.\<close>

definition magnitude :: "nat \<Rightarrow> nat" where
  "magnitude n = (let e = n div 2 ^ 52; m = n mod 2 ^ 52 in if e = 0 then m else (2 ^ 52 + m) * 2 ^ (e - 1))"

definition d_units :: "u64 \<Rightarrow> int" where
  "d_units r = (let n = magnitude (unat r mod 2 ^ 63) in if 2 ^ 63 \<le> unat r then - int n else int n)"

abbreviation unit_one :: int where "unit_one \<equiv> 2 ^ 1074"

definition d_less :: "u64 \<Rightarrow> u64 \<Rightarrow> bool" where
  "d_less a b \<longleftrightarrow> \<not> IsNaN a \<and> \<not> IsNaN b \<and> d_units a < d_units b"

section \<open>Conversions\<close>

text \<open>\<^verbatim>\<open>(i64)r\<close> discards the fraction.\<close>

definition d_to_i64 :: "u64 \<Rightarrow> int" where
  "d_to_i64 r = (if d_units r < 0 then - (- d_units r div unit_one) else d_units r div unit_one)"

fun bit_length :: "nat \<Rightarrow> nat" where
  "bit_length n = (if n = 0 then 0 else Suc (bit_length (n div 2)))"

declare bit_length.simps [simp del]

text \<open>\<^verbatim>\<open>(double)i\<close> rounds to the nearest double, to the even one between two.\<close>

definition nat_to_d :: "nat \<Rightarrow> nat" where
  "nat_to_d n =
     (let k = bit_length n in
      if n = 0 then 0
      else if k \<le> 53 then (1022 + k) * 2 ^ 52 + (n * 2 ^ (53 - k) - 2 ^ 52)
      else
        let q = n div 2 ^ (k - 53); r = n mod 2 ^ (k - 53); half = 2 ^ (k - 54);
            q = (if r > half \<or> r = half \<and> odd q then q + 1 else q)
        in (1022 + k) * 2 ^ 52 + (q - 2 ^ 52))"

definition i64_to_d :: "int \<Rightarrow> u64" where
  "i64_to_d i = of_nat (if i < 0 then 2 ^ 63 + nat_to_d (nat (- i)) else nat_to_d (nat i))"

definition sqlite3IntFloatCompare :: "int \<Rightarrow> u64 \<Rightarrow> int" where
  "sqlite3IntFloatCompare i r =
     (if sqlite3IsNaN r then 1
      else if d_units r < - 9223372036854775808 * unit_one then 1
      else if d_units r \<ge> 9223372036854775808 * unit_one then -1
      else
        let y = d_to_i64 r in
        if i < y then -1 else if i > y then 1
        else if d_less (i64_to_d i) r then -1 else if d_less r (i64_to_d i) then 1 else 0)"

section \<open>Exact conversions\<close>

lemma bit_length_bounds: "0 < n \<Longrightarrow> 2 ^ (bit_length n - 1) \<le> n \<and> n < 2 ^ bit_length n \<and> 0 < bit_length n"
proof (induction n rule: bit_length.induct)
  case (1 n)
  show ?case
  proof (cases "n div 2 = 0")
    case True
    then have "n = 1" using "1.prems" by auto
    then show ?thesis by (simp add: bit_length.simps [of "Suc 0"] bit_length.simps [of 0])
  next
    case False
    let ?k = "bit_length (n div 2)"
    have IH: "2 ^ (?k - 1) \<le> n div 2" "n div 2 < 2 ^ ?k" "0 < ?k" using "1.IH" False "1.prems" by auto
    have "bit_length n = Suc ?k" using "1.prems" by (simp add: bit_length.simps [of n])
    moreover have "2 ^ ?k = 2 * (2 ^ (?k - 1) :: nat)" using IH(3) by (cases ?k) auto
    moreover have "2 * (n div 2) \<le> n" "n < 2 * (n div 2) + 2" by simp_all
    ultimately show ?thesis using IH by (simp del: bit_length.simps) linarith
  qed
qed

lemma bit_length_eq: "2 ^ k \<le> n \<Longrightarrow> n < 2 ^ Suc k \<Longrightarrow> bit_length n = Suc k"
proof -
  assume a: "2 ^ k \<le> n" "n < 2 ^ Suc k"
  have "0 < n" using a(1) by (rule less_le_trans [rotated]) simp
  note b = bit_length_bounds [OF this]
  have "2 ^ k < (2 :: nat) ^ bit_length n" using a(1) b by linarith
  then have "k < bit_length n" by simp
  moreover have "(2 :: nat) ^ (bit_length n - 1) < 2 ^ Suc k" using a(2) b by linarith
  then have "bit_length n - 1 < Suc k" by (simp only: power_strict_increasing_iff)
  ultimately show ?thesis by simp
qed

lemma magnitude_normal: "m < 2 ^ 52 \<Longrightarrow> 0 < e \<Longrightarrow> magnitude (e * 2 ^ 52 + m) = (2 ^ 52 + m) * 2 ^ (e - 1)"
  by (simp add: magnitude_def Let_def)

text \<open>A number with at most 53 significant bits is converted exactly.\<close>

lemma nat_to_d_exact:
  assumes m: "2 ^ 52 \<le> m" "m < 2 ^ 53" and n: "n * 2 ^ a = m * 2 ^ b" and ab: "a = 0 \<or> b = 0" "a \<le> 52"
  shows "magnitude (nat_to_d n) = n * 2 ^ 1074 \<and> nat_to_d n = (1075 + b - a) * 2 ^ 52 + (m - 2 ^ 52)"
proof (cases "b = 0")
  case True
  then have nm: "n * 2 ^ a = m" using n by simp
  have p: "(2 :: nat) ^ 52 = 2 ^ (52 - a) * 2 ^ a" "(2 :: nat) ^ 53 = 2 ^ (53 - a) * 2 ^ a" "(2 :: nat) ^ 1074 = 2 ^ (1074 - a) * 2 ^ a"
    using ab(2) by (simp_all only: power_add [symmetric] le_add_diff_inverse2)
  have "2 ^ (52 - a) \<le> n" "n < 2 ^ Suc (52 - a)" using m unfolding nm [symmetric] p(1,2) using ab(2) by (simp_all add: Suc_diff_le [symmetric] del: power_Suc)
  then have k: "bit_length n = Suc (52 - a)" by (rule bit_length_eq)
  have "n \<noteq> 0" using m(1) nm by (cases n) auto
  then have e: "nat_to_d n = (1075 - a) * 2 ^ 52 + (m - 2 ^ 52)" using k ab(2) nm by (simp add: nat_to_d_def Let_def)
  have "magnitude (nat_to_d n) = (2 ^ 52 + (m - 2 ^ 52)) * 2 ^ (1075 - a - 1)" unfolding e by (rule magnitude_normal) (use m ab(2) in auto)
  also have "\<dots> = m * 2 ^ (1074 - a)" using m(1) by simp
  also have "\<dots> = n * 2 ^ 1074" unfolding nm [symmetric] p(3) by (simp add: ac_simps)
  finally show ?thesis using e True by simp
next
  case False
  then have a: "a = 0" using ab(1) by simp
  then have nm: "n = m * 2 ^ b" using n by simp
  have "2 ^ (52 + b) \<le> n" "n < 2 ^ Suc (52 + b)" using m by (simp_all add: nm power_add)
  then have k: "bit_length n = Suc (52 + b)" by (rule bit_length_eq)
  have "n \<noteq> 0" using m(1) nm by auto
  then have e: "nat_to_d n = (1075 + b) * 2 ^ 52 + (m - 2 ^ 52)" using k False by (simp add: nat_to_d_def Let_def nm)
  have "magnitude (nat_to_d n) = (2 ^ 52 + (m - 2 ^ 52)) * 2 ^ (1075 + b - 1)" unfolding e by (rule magnitude_normal) (use m in auto)
  also have "\<dots> = m * 2 ^ (1074 + b)" using m(1) by simp
  also have "\<dots> = n * 2 ^ 1074" by (simp add: nm power_add)
  finally show ?thesis using e a by simp
qed

lemma magnitude_0: "magnitude 0 = 0"
  by (simp add: magnitude_def)

lemma nat_to_d_small: "n < 2 ^ 53 \<Longrightarrow> magnitude (nat_to_d n) = n * 2 ^ 1074"
proof (cases "n = 0")
  case True
  then show ?thesis by (simp add: nat_to_d_def magnitude_0)
next
  case False
  assume n: "n < 2 ^ 53"
  let ?k = "bit_length n"
  have b: "2 ^ (?k - 1) \<le> n" "n < 2 ^ ?k" "0 < ?k" using bit_length_bounds [of n] False by auto
  have "(2 :: nat) ^ (?k - 1) < 2 ^ 53" using b(1) n by (rule le_less_trans)
  then have "?k - 1 < 53" by (simp only: power_strict_increasing_iff one_less_numeral_iff semiring_norm)
  then have k: "?k \<le> 53" by simp
  have p: "(2 :: nat) ^ 52 = 2 ^ (?k - 1) * 2 ^ (53 - ?k)" "(2 :: nat) ^ 53 = 2 ^ ?k * 2 ^ (53 - ?k)" using b(3) k by (simp_all only: power_add [symmetric]) simp_all
  have "2 ^ 52 \<le> n * 2 ^ (53 - ?k)" "n * 2 ^ (53 - ?k) < 2 ^ 53" unfolding p using b by simp_all
  then show ?thesis by (rule nat_to_d_exact [THEN conjunct1, of _ _ "53 - ?k" 0]) (use b(3) in auto)
qed

text \<open>The integral part of a double is converted exactly.\<close>

lemma magnitude_trunc: "magnitude (nat_to_d (magnitude R div 2 ^ 1074)) = (magnitude R div 2 ^ 1074) * 2 ^ 1074"
proof -
  let ?e = "R div 2 ^ 52" and ?m = "R mod 2 ^ 52"
  have m: "?m < 2 ^ 52" by simp
  show ?thesis
  proof (cases "?e \<ge> 1075")
    case True
    have "(2 :: nat) ^ (?e - 1) = 2 ^ (?e - 1075) * 2 ^ 1074" using True by (simp only: power_add [symmetric]) simp
    then have "magnitude R = ((2 ^ 52 + ?m) * 2 ^ (?e - 1075)) * 2 ^ 1074" using True by (simp add: magnitude_def Let_def)
    then have "magnitude R div 2 ^ 1074 = (2 ^ 52 + ?m) * 2 ^ (?e - 1075)" by simp
    moreover have "magnitude (nat_to_d ((2 ^ 52 + ?m) * 2 ^ (?e - 1075))) = ((2 ^ 52 + ?m) * 2 ^ (?e - 1075)) * 2 ^ 1074"
      by (rule nat_to_d_exact [THEN conjunct1, of "2 ^ 52 + ?m" _ 0 "?e - 1075"]) (use m in simp_all)
    ultimately show ?thesis by (simp only:)
  next
    case False
    have "magnitude R < 2 ^ 53 * 2 ^ 1073"
    proof (cases "?e = 0")
      case True
      then show ?thesis using less_trans [OF m, of "2 ^ 53 * 2 ^ 1073"] by (simp add: magnitude_def Let_def)
    next
      case False
      have "(2 ^ 52 + ?m) * 2 ^ (?e - 1) < 2 ^ 53 * (2 :: nat) ^ (?e - 1)" using m by simp
      also have "\<dots> \<le> 2 ^ 53 * 2 ^ 1073" using \<open>\<not> ?e \<ge> 1075\<close> by (intro mult_le_mono2 power_increasing) auto
      finally show ?thesis using False by (simp add: magnitude_def Let_def)
    qed
    then have "magnitude R < 2 ^ 53 * 2 ^ 1074" by (rule less_le_trans) simp
    then have "magnitude R div 2 ^ 1074 < 2 ^ 53" by (rule less_mult_imp_div_less)
    then show ?thesis by (rule nat_to_d_small)
  qed
qed

lemma nat_to_d_bound: "n \<le> 2 ^ 63 \<Longrightarrow> nat_to_d n < 1088 * 2 ^ 52"
proof (cases "n = 0")
  case True
  then show ?thesis by (simp add: nat_to_d_def)
next
  case False
  assume n: "n \<le> 2 ^ 63"
  let ?k = "bit_length n"
  have b: "2 ^ (?k - 1) \<le> n" "n < 2 ^ ?k" "0 < ?k" using bit_length_bounds [of n] False by auto
  have "(2 :: nat) ^ (?k - 1) \<le> 2 ^ 63" using b(1) n by (rule le_trans)
  then have k: "?k \<le> 64" by (simp only: power_increasing_iff one_less_numeral_iff semiring_norm)
  show ?thesis
  proof (cases "?k \<le> 53")
    case True
    then have "(2 :: nat) ^ 53 = 2 ^ ?k * 2 ^ (53 - ?k)" by (simp only: power_add [symmetric]) simp
    then have "n * 2 ^ (53 - ?k) < 2 ^ 53" using b(2) by (simp only: mult_less_cancel2) simp
    moreover have "nat_to_d n = (1022 + ?k) * 2 ^ 52 + (n * 2 ^ (53 - ?k) - 2 ^ 52)" using True False by (simp add: nat_to_d_def Let_def)
    ultimately show ?thesis using k by simp
  next
    case False
    then have "(2 :: nat) ^ ?k = 2 ^ 53 * 2 ^ (?k - 53)" by (simp only: power_add [symmetric]) simp
    then have "n div 2 ^ (?k - 53) < 2 ^ 53" using b(2) by (intro less_mult_imp_div_less) simp
    moreover have "nat_to_d n \<le> (1022 + ?k) * 2 ^ 52 + (n div 2 ^ (?k - 53) + 1 - 2 ^ 52)" using False \<open>n \<noteq> 0\<close> by (auto simp: nat_to_d_def Let_def diff_le_mono2)
    ultimately show ?thesis using k by simp
  qed
qed

lemma IsNaN_iff: "IsNaN x \<longleftrightarrow> unat x div 2 ^ 52 mod 2048 = 2047 \<and> unat x mod 2 ^ 52 \<noteq> 0"
proof -
  have e: "x AND 0x7ff0000000000000 = push_bit 52 (take_bit 11 (drop_bit 52 x))" by (rule word_eq_by_bits, simp add: bitwise)
  have m: "x AND 0x000fffffffffffff = take_bit 52 x" by (simp add: take_bit_eq_mask mask_eq_exp_minus_1)
  have t: "unat (take_bit 11 (drop_bit 52 x)) = unat x div 2 ^ 52 mod 2048" "unat (take_bit 52 x) = unat x mod 2 ^ 52"
    by (simp_all only: unsigned_take_bit_eq unat_drop_bit_eq) (simp_all add: take_bit_eq_mod drop_bit_eq_div)
  have "push_bit 52 (take_bit 11 (drop_bit 52 x)) = 0x7ff0000000000000 \<longleftrightarrow> take_bit 11 (drop_bit 52 x) = 0x7ff"
  proof -
    have "drop_bit 52 (push_bit 52 (take_bit 11 (drop_bit 52 x))) = take_bit 11 (drop_bit 52 x)" by (rule word_eq_by_bits, simp add: bitwise)
    moreover have "drop_bit 52 (0x7ff0000000000000 :: u64) = 0x7ff" "push_bit 52 (0x7ff :: u64) = 0x7ff0000000000000" by simp_all
    ultimately show ?thesis by metis
  qed
  also have "\<dots> \<longleftrightarrow> unat (take_bit 11 (drop_bit 52 x)) = 2047" by (simp add: word_unat_eq_iff)
  finally have "push_bit 52 (take_bit 11 (drop_bit 52 x)) = 0x7ff0000000000000 \<longleftrightarrow> unat x div 2 ^ 52 mod 2048 = 2047" unfolding t(1) .
  moreover have "take_bit 52 x = 0 \<longleftrightarrow> unat x mod 2 ^ 52 = 0" unfolding t(2) [symmetric] by (simp only: unat_eq_zero)
  ultimately show ?thesis unfolding IsNaN_def e m by simp
qed

text \<open>The conversion of an integer in range is a number with the magnitude of \<^const>\<open>nat_to_d\<close>.\<close>

lemma i64_to_d_units:
  assumes i: "in_i64 i" and n: "n = nat \<bar>i\<bar>"
  shows "d_units (i64_to_d i) = (if i < 0 then - int (magnitude (nat_to_d n)) else int (magnitude (nat_to_d n)))" "\<not> IsNaN (i64_to_d i)"
proof -
  have "n \<le> 2 ^ 63" using i by (auto simp: n in_i64_def c_const nat_le_iff)
  from nat_to_d_bound [OF this] have b: "nat_to_d n < 1088 * 2 ^ 52" .
  then have u: "unat (i64_to_d i) = (if i < 0 then 2 ^ 63 else 0) + nat_to_d n" by (auto simp: i64_to_d_def n unat_of_nat)
  then show "d_units (i64_to_d i) = (if i < 0 then - int (magnitude (nat_to_d n)) else int (magnitude (nat_to_d n)))"
    using b by (simp add: d_units_def Let_def)
  have "nat_to_d n div 2 ^ 52 < 1088" using b by (rule less_mult_imp_div_less)
  moreover have "(2 ^ 63 + nat_to_d n) div 2 ^ 52 = 2048 + nat_to_d n div 2 ^ 52" by simp
  ultimately show "\<not> IsNaN (i64_to_d i)" by (auto simp: IsNaN_iff u)
qed

lemma trunc_exact:
  assumes i: "in_i64 i" and y: "i = d_to_i64 r"
  shows "d_units (i64_to_d i) = i * unit_one"
proof -
  let ?R = "unat r mod 2 ^ 63"
  define N where "N = magnitude ?R div 2 ^ 1074"
  have "d_units r = int (magnitude ?R) \<or> d_units r = - int (magnitude ?R)" by (simp add: d_units_def Let_def)
  then have "i = int N \<or> i = - int N" unfolding y d_to_i64_def N_def by (auto simp: zdiv_int)
  then have "nat \<bar>i\<bar> = N" by auto
  moreover have "magnitude (nat_to_d N) = N * 2 ^ 1074" unfolding N_def by (rule magnitude_trunc)
  then have "int (magnitude (nat_to_d N)) = int N * unit_one" by simp
  ultimately show ?thesis using i64_to_d_units(1) [OF i refl] \<open>i = int N \<or> i = - int N\<close> by (auto simp del: power_numeral)
qed

text \<open>Truncation towards zero and comparison with an integer.\<close>

lemma trunc_compare:
  fixes U :: int
  assumes U: "0 < U" and t: "t = (if x < 0 then - (- x div U) else x div U)"
  shows "i < t \<Longrightarrow> i * U < x" "t < i \<Longrightarrow> x < i * U"
proof -
  have q: "a div U * U \<le> a" "a < (a div U + 1) * U" for a
  proof -
    have "a = a div U * U + a mod U" "a mod U < U" "0 \<le> a mod U" using U by simp_all
    then show "a div U * U \<le> a" "a < (a div U + 1) * U" unfolding distrib_right by linarith+
  qed
  { assume "i < t"
    then have "(i + 1) * U \<le> t * U" using U by (intro mult_right_mono) auto
    then show "i * U < x" using q(1) [of x] q(2) [of "- x"] U t by (cases "x < 0") (simp_all add: algebra_simps) }
  { assume "t < i"
    then have "(t + 1) * U \<le> i * U" using U by (intro mult_right_mono) auto
    then show "x < i * U" using q(2) [of x] q(1) [of "- x"] U t by (cases "x < 0") (simp_all add: algebra_simps) }
qed

lemma int_float_compare_units:
  assumes "in_i64 i"
  shows "sqlite3IntFloatCompare i r = (if IsNaN r then 1 else sgn (i * unit_one - d_units r))"
proof (cases "IsNaN r")
  case False
  have c: "sqlite3IntFloatCompare i r = sgn (i * U - d_units r)" if U: "U = unit_one" for U
  proof -
    have U0: "0 < U" by (simp add: U)
    have lo: "- 9223372036854775808 * U \<le> i * U" "i * U < 9223372036854775808 * U" using assms U0 mult_right_mono [of "- 9223372036854775808" i U] by (simp_all add: in_i64_def c_const)
    note D = sqlite3IntFloatCompare_def [of i r, folded U, unfolded sqlite3IsNaN_def Let_def]
    consider "d_units r < - 9223372036854775808 * U" | "d_units r \<ge> 9223372036854775808 * U"
      | (low) "\<not> d_units r < - 9223372036854775808 * U" "\<not> d_units r \<ge> 9223372036854775808 * U" "i < d_to_i64 r"
      | (high) "\<not> d_units r < - 9223372036854775808 * U" "\<not> d_units r \<ge> 9223372036854775808 * U" "d_to_i64 r < i"
      | (same) "\<not> d_units r < - 9223372036854775808 * U" "\<not> d_units r \<ge> 9223372036854775808 * U" "i = d_to_i64 r"
      by linarith
    then show ?thesis
    proof cases
      case low
      then show ?thesis using trunc_compare(1) [OF U0 d_to_i64_def [folded U] low(3)] False unfolding D U [symmetric] by (simp add: sgn_if)
    next
      case high
      then show ?thesis using trunc_compare(2) [OF U0 d_to_i64_def [folded U] high(3)] False unfolding D U [symmetric] by (simp add: sgn_if)
    next
      case same
      then show ?thesis using trunc_exact [OF assms same(3)] i64_to_d_units(2) [OF assms refl] False
        unfolding D U [symmetric] by (simp add: d_less_def sgn_if)
    qed (use False lo in \<open>simp_all add: D sgn_if\<close>)
  qed
  then show ?thesis using False by simp
qed (simp add: sqlite3IntFloatCompare_def sqlite3IsNaN_def)

section \<open>Properties\<close>

text \<open>C19: The comparison of a 64-bit integer with a double is exact: no rounding of the integer decides it. Only a double
  that is not a number counts as smaller than every integer.\<close>

theorem int_float_compare_exact:
  assumes "in_i64 i"
  shows "sqlite3IntFloatCompare i r = (if IsNaN r then 1 else sgn (i * unit_one - d_units r))"
  using assms by (rule int_float_compare_units)

theorem int_float_compare_exact_witness: "sqlite3IntFloatCompare 9007199254740993 0x4340000000000000 = 1"
proof -
  have "\<not> IsNaN 0x4340000000000000" by (simp add: IsNaN_iff)
  moreover have "d_units 0x4340000000000000 = 2 ^ 53 * unit_one" by (simp add: d_units_def magnitude_def)
  ultimately show ?thesis using int_float_compare_exact [of 9007199254740993 "0x4340000000000000"] by (simp add: in_i64_def c_const sgn_if)
qed

end
