(* ===== verification/Record_Format.thy ===== *)
theory Record_Format
  imports Btree_Cell Ieee
begin

text \<open>
  The record format (\<^verbatim>\<open>vdbe.c\<close>, \<^verbatim>\<open>vdbeaux.c\<close>): \<^verbatim>\<open>OP_MakeRecord\<close> packs a row of values into bytes, a header of
  serial types followed by the data, and \<^verbatim>\<open>sqlite3VdbeRecordUnpack\<close> reads it back. Affinities are applied before.
  A record is read from memory that goes on behind it.
\<close>

section \<open>Values\<close>

text \<open>A \<^verbatim>\<open>Mem\<close> by its flags: null (with the flag of an unchanged column), integer, integer that stands for a real, real,
  text, and blob with an optional tail of zeros.\<close>

datatype memval = MNull bool | MInt int | MIntReal int | MReal u64 | MStr bytes | MBlob bytes "nat option"

definition sqlite3SmallTypeSizes :: "nat list" where
  "sqlite3SmallTypeSizes = [
     0, 1, 2, 3, 4, 6, 8, 8, 0, 0,
     0, 0, 0, 0, 1, 1, 2, 2, 3, 3,
     4, 4, 5, 5, 6, 6, 7, 7, 8, 8,
     9, 9, 10, 10, 11, 11, 12, 12, 13, 13,
     14, 14, 15, 15, 16, 16, 17, 17, 18, 18,
     19, 19, 20, 20, 21, 21, 22, 22, 23, 23,
     24, 24, 25, 25, 26, 26, 27, 27, 28, 28,
     29, 29, 30, 30, 31, 31, 32, 32, 33, 33,
     34, 34, 35, 35, 36, 36, 37, 37, 38, 38,
     39, 39, 40, 40, 41, 41, 42, 42, 43, 43,
     44, 44, 45, 45, 46, 46, 47, 47, 48, 48,
     49, 49, 50, 50, 51, 51, 52, 52, 53, 53,
     54, 54, 55, 55, 56, 56, 57, 57]"

definition sqlite3VdbeSerialTypeLen :: "nat \<Rightarrow> nat" where
  "sqlite3VdbeSerialTypeLen t = (if t \<ge> 128 then (t - 12) div 2 else sqlite3SmallTypeSizes ! t)"

definition sqlite3VdbeOneByteSerialTypeLen :: "nat \<Rightarrow> nat" where
  "sqlite3VdbeOneByteSerialTypeLen t = sqlite3SmallTypeSizes ! t"

section \<open>Packing\<close>

text \<open>The serial type of an integer and the number of its data bytes.\<close>

definition int_type :: "bool \<Rightarrow> int \<Rightarrow> nat \<times> nat" where
  "int_type fmt4 i =
     (let uu = (if i < 0 then - i - 1 else i) in
      if uu \<le> 127 then (if i AND 1 = i \<and> fmt4 then (8 + nat uu, 0) else (1, 1))
      else if uu \<le> 32767 then (2, 2) else if uu \<le> 8388607 then (3, 3) else if uu \<le> 2147483647 then (4, 4)
      else if uu \<le> 140737488355327 then (5, 6) else (6, 8))"

text \<open>One field of the loop that computes the sizes, from the last field to the first: the value, its serial type, and what it adds to
  \<^verbatim>\<open>nHdr\<close>, \<^verbatim>\<open>nData\<close> and \<^verbatim>\<open>nZero\<close>; \<^const>\<open>None\<close> when memory runs out.\<close>

fun size_field :: "bool \<Rightarrow> nat \<Rightarrow> outcomes \<Rightarrow> memval \<Rightarrow> (memval \<times> nat \<times> nat \<times> nat \<times> nat) option \<times> outcomes" where
  "size_field fmt4 nData m (MNull z) = (Some (MNull z, if z then 10 else 0, 1, 0, 0), m)"
| "size_field fmt4 nData m (MInt i) = (Some (MInt i, fst (int_type fmt4 i), 1, snd (int_type fmt4 i), 0), m)"
| "size_field fmt4 nData m (MIntReal i) =
     (if fst (int_type fmt4 i) = 6 then (Some (MReal (i64_to_d i), 7, 1, 8, 0), m)
      else (Some (MIntReal i, fst (int_type fmt4 i), 1, snd (int_type fmt4 i), 0), m))"
| "size_field fmt4 nData m (MReal r) = (Some (MReal r, 7, 1, 8, 0), m)"
| "size_field fmt4 nData m (MStr z) =
     (let t = (length z * 2 + 13) mod 2 ^ 32 in (Some (MStr z, t, sqlite3VarintLen (of_nat t), length z, 0), m))"
| "size_field fmt4 nData m (MBlob z None) =
     (let t = (length z * 2 + 12) mod 2 ^ 32 in (Some (MBlob z None, t, sqlite3VarintLen (of_nat t), length z, 0), m))"
| "size_field fmt4 nData m (MBlob z (Some k)) =
     (let t = (length z * 2 + 12 + k * 2) mod 2 ^ 32 in
      if nData \<noteq> 0 then
        (let (ok, m) = malloc m in
         if \<not> ok then (None, m) else (Some (MBlob (z @ replicate k 0) None, t, sqlite3VarintLen (of_nat t), length z + k, 0), m))
      else (Some (MBlob z (Some k), t, sqlite3VarintLen (of_nat t), length z, k), m))"

text \<open>The loop itself, on the fields in reverse order.\<close>

fun size_fields :: "bool \<Rightarrow> outcomes \<Rightarrow> memval list \<Rightarrow> (memval \<times> nat) list \<Rightarrow> nat \<Rightarrow> nat \<Rightarrow> nat \<Rightarrow> ((memval \<times> nat) list \<times> nat \<times> nat \<times> nat) option \<times> outcomes" where
  "size_fields fmt4 m [] done_fields nHdr nData nZero = (Some (done_fields, nHdr, nData, nZero), m)"
| "size_fields fmt4 m (v # vs) done_fields nHdr nData nZero =
     (case size_field fmt4 nData m v of
        (None, m) \<Rightarrow> (None, m)
      | (Some (v', t, h, d, z), m) \<Rightarrow> size_fields fmt4 m vs ((v', t) # done_fields) (nHdr + h) (nData + d) (nZero + z))"

definition header_size :: "nat \<Rightarrow> nat" where
  "header_size nHdr =
     (if nHdr \<le> 126 then nHdr + 1
      else let nVarint = sqlite3VarintLen (of_nat nHdr); nHdr = nHdr + nVarint
           in if nVarint < sqlite3VarintLen (of_nat nHdr) then nHdr + 1 else nHdr)"

text \<open>The bytes of an integer, stored from the last to the first.\<close>

fun store_be :: "nat \<Rightarrow> u64 \<Rightarrow> bytes \<Rightarrow> bytes" where
  "store_be 0 v p = p"
| "store_be (Suc n) v p = store_be n (drop_bit 8 v) (ucast (v AND 0xff) # p)"

fun value_bits :: "memval \<Rightarrow> u64" where
  "value_bits (MReal r) = r"
| "value_bits (MInt i) = word_of_int i"
| "value_bits (MIntReal i) = word_of_int i"
| "value_bits _ = 0"

fun content_of :: "memval \<Rightarrow> bytes" where
  "content_of (MStr z) = z"
| "content_of (MBlob z k) = z"
| "content_of _ = []"

text \<open>One field of the loop that writes the record: what goes to the header and to the data.\<close>

definition write_field :: "memval \<times> nat \<Rightarrow> bytes \<times> bytes" where
  "write_field f =
     (case f of (v, t) \<Rightarrow>
        if t \<le> 7 then ([of_nat t], if t = 0 then [] else store_be (sqlite3SmallTypeSizes ! t) (value_bits v) [])
        else if t < 0x80 then ([of_nat t], if t \<ge> 14 then content_of v else [])
        else (fst (sqlite3PutVarint (of_nat t)), content_of v))"

definition write_header_size :: "nat \<Rightarrow> bytes" where
  "write_header_size nHdr = (if nHdr < 0x80 then [of_nat nHdr] else fst (sqlite3PutVarint (of_nat nHdr)))"

text \<open>The record with the number of zeros behind it, or the two errors.\<close>

datatype record_result = Record bytes nat | RecordTooBig | RecordNoMem

definition OP_MakeRecord :: "bool \<Rightarrow> nat \<Rightarrow> nat \<Rightarrow> outcomes \<Rightarrow> memval list \<Rightarrow> record_result \<times> outcomes" where
  "OP_MakeRecord fmt4 lim szMalloc m vals =
     (case size_fields fmt4 m (rev vals) [] 0 0 0 of
        (None, m) \<Rightarrow> (RecordNoMem, m)
      | (Some (fs, nHdr, nData, nZero), m) \<Rightarrow>
          let nHdr = header_size nHdr; nByte = nHdr + nData;
              z = write_header_size nHdr @ concat (map (fst \<circ> write_field) fs) @ concat (map (snd \<circ> write_field) fs) in
          if nByte + nZero \<le> szMalloc then (Record z nZero, m)
          else if nByte + nZero > lim then (RecordTooBig, m)
          else if nByte \<le> szMalloc then (Record z nZero, m)
          else let (ok, m) = malloc m in if ok then (Record z nZero, m) else (RecordNoMem, m))"

section \<open>Unpacking\<close>

definition ONE_BYTE_INT :: "mem \<Rightarrow> nat \<Rightarrow> int" where
  "ONE_BYTE_INT x p = sint (x p)"

definition TWO_BYTE_INT :: "mem \<Rightarrow> nat \<Rightarrow> int" where
  "TWO_BYTE_INT x p = (256 * sint (x p)) OR uint (x (p + 1))"

definition THREE_BYTE_INT :: "mem \<Rightarrow> nat \<Rightarrow> int" where
  "THREE_BYTE_INT x p = (65536 * sint (x p)) OR push_bit 8 (uint (x (p + 1))) OR uint (x (p + 2))"

definition FOUR_BYTE_UINT :: "mem \<Rightarrow> nat \<Rightarrow> u32" where
  "FOUR_BYTE_UINT x p = push_bit 24 (ucast (x p)) OR push_bit 16 (ucast (x (p + 1))) OR push_bit 8 (ucast (x (p + 2))) OR ucast (x (p + 3))"

definition FOUR_BYTE_INT :: "mem \<Rightarrow> nat \<Rightarrow> int" where
  "FOUR_BYTE_INT x p = (16777216 * sint (x p)) OR push_bit 16 (uint (x (p + 1))) OR push_bit 8 (uint (x (p + 2))) OR uint (x (p + 3))"

definition eight_bytes :: "mem \<Rightarrow> nat \<Rightarrow> u64" where
  "eight_bytes buf p = push_bit 32 (ucast (FOUR_BYTE_UINT buf p)) + ucast (FOUR_BYTE_UINT buf (p + 4))"

definition serialGet :: "mem \<Rightarrow> nat \<Rightarrow> nat \<Rightarrow> memval" where
  "serialGet buf p t = (let x = eight_bytes buf p in if t = 6 then MInt (sint x) else if IsNaN x then MNull False else MReal x)"

definition serialGet7 :: "mem \<Rightarrow> nat \<Rightarrow> memval \<times> u64 \<times> bool" where
  "serialGet7 buf p = (let x = eight_bytes buf p in if IsNaN x then (MNull False, x, True) else (MReal x, x, False))"

definition sqlite3VdbeSerialGet :: "mem \<Rightarrow> nat \<Rightarrow> nat \<Rightarrow> memval" where
  "sqlite3VdbeSerialGet buf p t =
     (if t = 10 then MNull True
      else if t = 11 \<or> t = 0 then MNull False
      else if t = 1 then MInt (ONE_BYTE_INT buf p)
      else if t = 2 then MInt (TWO_BYTE_INT buf p)
      else if t = 3 then MInt (THREE_BYTE_INT buf p)
      else if t = 4 then MInt (FOUR_BYTE_INT buf p)
      else if t = 5 then MInt (uint (FOUR_BYTE_UINT buf (p + 2)) + 2 ^ 32 * TWO_BYTE_INT buf p)
      else if t = 6 \<or> t = 7 then serialGet buf p t
      else if t = 8 \<or> t = 9 then MInt (int t - 8)
      else let n = (t - 12) div 2; z = map buf [p..<p + n] in if odd t then MStr z else MBlob z None)"

definition getVarint32_at :: "mem \<Rightarrow> nat \<Rightarrow> nat \<times> nat" where
  "getVarint32_at d p = (let (v, n) = the (getVarint32 (map d [p..<p + 9])) in (unat v, n))"

lemma varint_ref_some: "k \<le> 8 \<Longrightarrow> 9 \<le> k + length bs \<Longrightarrow> \<exists>v n. varint_ref k acc bs = Some (v, n) \<and> k < n \<and> n \<le> 9"
  by (induction k acc bs rule: varint_ref.induct) (auto simp: Suc_le_eq)

lemma getVarint32_at_pos: "getVarint32_at d p = (v, n) \<Longrightarrow> 0 < n \<and> n \<le> 9"
  using varint_ref_some [of 0 "map d [p..<p + 9]" 0] by (auto simp: getVarint32_at_def getVarint32_saturates getVarint_eq_ref)

text \<open>The loop over the header: the values and the offset behind the data.\<close>

function unpack_loop :: "mem \<Rightarrow> nat \<Rightarrow> nat \<Rightarrow> nat \<Rightarrow> nat \<Rightarrow> nat \<Rightarrow> memval list \<Rightarrow> memval list \<times> nat" where
  "unpack_loop aKey nKey1 nField szHdr idx d vs =
     (if idx < szHdr \<and> d \<le> nKey1 then
        let (t, n) = getVarint32_at aKey idx; v = sqlite3VdbeSerialGet aKey d t; d = d + sqlite3VdbeSerialTypeLen t; vs = vs @ [v]
        in if length vs \<ge> nField then (vs, d) else unpack_loop aKey nKey1 nField szHdr (idx + n) d vs
      else (vs, d))"
  by pat_completeness auto
termination
  by (relation "measure (\<lambda>(aKey, nKey1, nField, szHdr, idx, d, vs). szHdr - idx)") (auto dest!: getVarint32_at_pos [OF sym])

declare unpack_loop.simps [simp del]

definition sqlite3VdbeRecordUnpack :: "mem \<Rightarrow> nat \<Rightarrow> nat \<Rightarrow> memval list" where
  "sqlite3VdbeRecordUnpack aKey nKey1 nField =
     (let (szHdr, idx) = getVarint32_at aKey 0; (vs, d) = unpack_loop aKey nKey1 nField szHdr idx szHdr []
      in if d > nKey1 \<and> vs \<noteq> [] then butlast vs @ [MNull False] else vs)"

section \<open>Bytes of integers\<close>

lemma uint_byte: "k < 8 \<Longrightarrow> uint (ucast (drop_bit (8 * k) (word_of_int i :: u64)) :: u8) = i div 256 ^ k mod 256"
proof -
  assume k: "k < 8"
  have "uint (ucast (drop_bit (8 * k) (word_of_int i :: u64)) :: u8) = (i mod 2 ^ 64) div 2 ^ (8 * k) mod 2 ^ 8"
    by (simp only: unsigned_ucast_eq unsigned_drop_bit_eq unsigned_of_int) (simp add: take_bit_eq_mod drop_bit_eq_div)
  also have "\<dots> = i div 2 ^ (8 * k) mod 2 ^ 8"
  proof -
    have "8 \<le> 64 - 8 * k" using k by linarith
    have "drop_bit (8 * k) (take_bit 64 i) = take_bit (64 - 8 * k) (drop_bit (8 * k) i)" by (simp add: drop_bit_take_bit)
    then have "take_bit 8 (drop_bit (8 * k) (take_bit 64 i)) = take_bit 8 (drop_bit (8 * k) i)" using \<open>8 \<le> 64 - 8 * k\<close> by (simp add: min_absorb1)
    then show ?thesis by (simp only: take_bit_eq_mod drop_bit_eq_div)
  qed
  also have "(2 :: int) ^ (8 * k) = 256 ^ k" by (simp add: power_mult)
  finally show ?thesis by simp
qed

lemma sint_byte: "sint (b :: u8) = (uint b + 128) mod 256 - 128"
  by (simp add: sint_uint signed_take_bit_eq_take_bit_shift take_bit_eq_mod)

lemma sint_top:
  assumes "k < 8" "- 128 \<le> i div 256 ^ k" "i div 256 ^ k < 128"
  shows "sint (ucast (drop_bit (8 * k) (word_of_int i :: u64)) :: u8) = i div 256 ^ k"
proof -
  have "(i div 256 ^ k mod 256 + 128) mod 256 = (i div 256 ^ k + 128) mod 256" by (simp add: mod_add_left_eq)
  also have "\<dots> = i div 256 ^ k + 128" using assms by (intro mod_pos_pos_trivial) auto
  finally show ?thesis by (simp add: sint_byte uint_byte [OF assms(1)])
qed

lemma store_be_eq: "store_be n v p = map (\<lambda>k. ucast (drop_bit (8 * (n - 1 - k)) v)) [0..<n] @ p"
proof (induction n arbitrary: v p)
  case (Suc n)
  have "ucast (v AND 0xff) = (ucast v :: u8)" by (rule word_eq_by_bits, simp add: bitwise)
  moreover have "map (\<lambda>k. ucast (drop_bit (8 * (n - 1 - k)) (drop_bit 8 v))) [0..<n] = (map (\<lambda>k. ucast (drop_bit (8 * (n - k)) v)) [0..<n] :: bytes)"
    by (rule map_cong) (auto simp: drop_bit_drop_bit Suc_diff_Suc [symmetric] add.commute simp del: Suc_diff_Suc)
  ultimately show ?case using Suc.IH [of "drop_bit 8 v" "ucast (v AND 0xff) # p"] by simp
qed simp

lemma int_or_add: "0 \<le> b \<Longrightarrow> b < 2 ^ n \<Longrightarrow> (2 ^ n * a) OR b = 2 ^ n * a + (b :: int)"
proof -
  assume b: "0 \<le> b" "b < 2 ^ n"
  then have t: "take_bit n b = b" by (simp add: take_bit_int_eq_self)
  have "2 ^ n * a = push_bit n a" by (simp add: push_bit_eq_mult ac_simps)
  moreover have "push_bit n a + take_bit n b = push_bit n a OR take_bit n b"
    by (rule disjunctive_add) (auto simp: bit_simps)
  ultimately show ?thesis using t by simp
qed

text \<open>The value of big-endian bytes.\<close>

definition be_val :: "bytes \<Rightarrow> int" where
  "be_val bs = foldl (\<lambda>a b. 256 * a + uint b) 0 bs"

lemma be_val_snoc: "be_val (bs @ [b]) = 256 * be_val bs + uint b"
  by (simp add: be_val_def)

lemma store_be_append: "store_be n v p = store_be n v [] @ p"
  by (simp add: store_be_eq)

lemma store_be_snoc: "store_be (Suc n) v [] = store_be n (drop_bit 8 v) [] @ [ucast v]"
proof -
  have "ucast (v AND 0xff) = (ucast v :: u8)" by (rule word_eq_by_bits, simp add: bitwise)
  then show ?thesis using store_be_append [of n "drop_bit 8 v" "[ucast (v AND 0xff)]"] by simp
qed

lemma store_be_Cons: "store_be (Suc n) v [] = ucast (drop_bit (8 * n) v) # store_be n v []"
  by (simp add: store_be_eq upt_conv_Cons map_Suc_upt [symmetric] del: upt_Suc)

lemma store_be_length [simp]: "length (store_be n v p) = n + length p"
  by (simp add: store_be_eq)

lemma be_val_store: "be_val (store_be n v []) = uint v mod 256 ^ n"
proof (induction n arbitrary: v)
  case (Suc n)
  have "uint (ucast v :: u8) = uint v mod 256" by (simp add: unsigned_ucast_eq take_bit_eq_mod)
  moreover have "uint (drop_bit 8 v) = uint v div 256" by (simp add: drop_bit_eq_div uint_div)
  ultimately show ?case using Suc.IH [of "drop_bit 8 v"] zmod_zmult2_eq [of "256 ^ n" "uint v" 256] unfolding store_be_snoc be_val_snoc by simp
qed (simp add: be_val_def)

lemma uint_mod: "n \<le> 8 \<Longrightarrow> uint (word_of_int i :: u64) mod 256 ^ n = i mod 256 ^ n"
proof -
  assume n: "n \<le> 8"
  have "(256 :: int) ^ n dvd 2 ^ 64" using le_imp_power_dvd [OF n, of "256 :: int"] by simp
  then show ?thesis by (simp add: unsigned_of_int take_bit_eq_mod mod_mod_cancel)
qed

text \<open>The first byte carries the sign.\<close>

lemma signed_bytes:
  assumes "n < 8" "- 128 * 256 ^ n \<le> i" "i < 128 * 256 ^ n"
  shows "256 ^ n * sint (hd (store_be (Suc n) (word_of_int i) [])) + be_val (store_be n (word_of_int i) []) = i"
proof -
  have "- 128 * 256 ^ n div 256 ^ n = (- 128 :: int)" by (rule nonzero_mult_div_cancel_right) simp
  then have "- 128 \<le> i div 256 ^ n" using zdiv_mono1 [OF assms(2), of "256 ^ n"] by (metis zero_less_numeral zero_less_power)
  moreover have "i div 256 ^ n < 128"
  proof (rule ccontr)
    assume "\<not> i div 256 ^ n < 128"
    then have "128 * 256 ^ n \<le> i div 256 ^ n * 256 ^ n" by (intro mult_right_mono) auto
    also have "\<dots> \<le> i" by (simp add: minus_mod_eq_div_mult [symmetric])
    finally show False using assms(3) by simp
  qed
  ultimately have "sint (hd (store_be (Suc n) (word_of_int i) [])) = i div 256 ^ n" unfolding store_be_Cons using sint_top [OF assms(1)] by simp
  then show ?thesis using uint_mod [of n i] assms(1) by (simp add: be_val_store)
qed

section \<open>Reading the bytes back\<close>

definition holds_at :: "mem \<Rightarrow> nat \<Rightarrow> bytes \<Rightarrow> bool" where
  "holds_at d p bs \<longleftrightarrow> (\<forall>k < length bs. d (p + k) = bs ! k)"

lemma holds_at_simps [simp]: "holds_at d p []" "holds_at d p (b # bs) \<longleftrightarrow> d p = b \<and> holds_at d (Suc p) bs"
  by (auto simp: holds_at_def less_Suc_eq_0_disj)

lemma holds_at_append [simp]: "holds_at d p (as @ bs) \<longleftrightarrow> holds_at d p as \<and> holds_at d (p + length as) bs"
  by (induction as arbitrary: p) auto

lemma be_val_simps: "be_val [a] = uint a" "be_val [a, b] = 256 * uint a + uint b" "be_val [a, b, c] = 65536 * uint a + 256 * uint b + uint c"
  "be_val [a, b, c, e] = 16777216 * uint a + 65536 * uint b + 256 * uint c + uint e"
  by (simp_all add: be_val_def)

lemma u8_range: "0 \<le> uint (b :: u8)" "uint b < 256"
  using uint_bounded [of b] by simp_all

lemma read_signed:
  "TWO_BYTE_INT x p = 256 * sint (x p) + be_val [x (p + 1)]"
  "THREE_BYTE_INT x p = 65536 * sint (x p) + be_val [x (p + 1), x (p + 2)]"
  "FOUR_BYTE_INT x p = 16777216 * sint (x p) + be_val [x (p + 1), x (p + 2), x (p + 3)]"
proof -
  note r = u8_range [of "x (p + 1)"] u8_range [of "x (p + 2)"] u8_range [of "x (p + 3)"]
  have s: "push_bit 8 a = 2 ^ 8 * a" "push_bit 16 a = 2 ^ 16 * a" for a :: int by (simp_all add: push_bit_eq_mult)
  have i: "push_bit 8 (uint (x (p + 1))) OR uint (x (p + 2)) = 256 * uint (x (p + 1)) + uint (x (p + 2))"
    "push_bit 8 (uint (x (p + 2))) OR uint (x (p + 3)) = 256 * uint (x (p + 2)) + uint (x (p + 3))"
    unfolding s using r int_or_add [of "uint (x (p + 2))" 8 "uint (x (p + 1))"] int_or_add [of "uint (x (p + 3))" 8 "uint (x (p + 2))"] by simp_all
  have j: "push_bit 16 (uint (x (p + 1))) OR (256 * uint (x (p + 2)) + uint (x (p + 3))) = 65536 * uint (x (p + 1)) + 256 * uint (x (p + 2)) + uint (x (p + 3))"
    unfolding s using r int_or_add [of "256 * uint (x (p + 2)) + uint (x (p + 3))" 16 "uint (x (p + 1))"] by simp
  show "TWO_BYTE_INT x p = 256 * sint (x p) + be_val [x (p + 1)]"
    using r int_or_add [of "uint (x (p + 1))" 8 "sint (x p)"] by (simp add: TWO_BYTE_INT_def be_val_simps)
  show "THREE_BYTE_INT x p = 65536 * sint (x p) + be_val [x (p + 1), x (p + 2)]"
    using r int_or_add [of "256 * uint (x (p + 1)) + uint (x (p + 2))" 16 "sint (x p)"] unfolding THREE_BYTE_INT_def or.assoc i by (simp add: be_val_simps)
  show "FOUR_BYTE_INT x p = 16777216 * sint (x p) + be_val [x (p + 1), x (p + 2), x (p + 3)]"
    using r int_or_add [of "65536 * uint (x (p + 1)) + 256 * uint (x (p + 2)) + uint (x (p + 3))" 24 "sint (x p)"]
    unfolding FOUR_BYTE_INT_def or.assoc i j by (simp add: be_val_simps)
qed

lemma read_unsigned: "uint (FOUR_BYTE_UINT x p) = be_val [x p, x (p + 1), x (p + 2), x (p + 3)]"
proof -
  note r = u8_range [of "x p"] u8_range [of "x (p + 1)"] u8_range [of "x (p + 2)"] u8_range [of "x (p + 3)"]
  have u: "uint (push_bit n (ucast b :: u32)) = 2 ^ n * uint b" if "n \<le> 24" for n and b :: u8
  proof -
    have "2 ^ n * uint b < 2 ^ n * 2 ^ 8" using u8_range [of b] by simp
    also have "\<dots> \<le> 2 ^ 32" using power_increasing [of "n + 8" 32 "2 :: int"] that by (simp add: power_add)
    finally have "2 ^ n * uint b < 2 ^ 32" .
    then show ?thesis using u8_range [of b] by (simp only: unsigned_push_bit_eq unsigned_ucast_eq) (simp add: push_bit_eq_mult take_bit_eq_mod ac_simps)
  qed
  have c: "uint (ucast b :: u32) = uint (b :: u8)" for b by (simp add: unsigned_ucast_eq take_bit_eq_mod) (use u8_range [of b] in simp)
  show ?thesis unfolding FOUR_BYTE_UINT_def unsigned_or_eq using r
      int_or_add [of "uint (x (p + 3))" 8 "uint (x (p + 2))"] int_or_add [of "256 * uint (x (p + 2)) + uint (x (p + 3))" 16 "uint (x (p + 1))"]
      int_or_add [of "65536 * uint (x (p + 1)) + (256 * uint (x (p + 2)) + uint (x (p + 3)))" 24 "uint (x p)"]
    by (simp add: u c or.assoc be_val_simps)
qed

lemma holds_map: "holds_at d p bs \<Longrightarrow> map d [p..<p + length bs] = bs"
  by (rule nth_equalityI) (auto simp: holds_at_def)

lemma seq_bytes:
  "map d [p..<p + 8] = [d p, d (p + 1), d (p + 2), d (p + 3), d (p + 4), d (p + 5), d (p + 6), d (p + 7)]"
  "map d [Suc p..<Suc p + 5] = [d (p + 1), d (p + 2), d (p + 3), d (p + 4), d (p + 5)]"
  "map d [Suc p..<Suc p + 3] = [d (p + 1), d (p + 2), d (p + 3)]"
  "map d [Suc p..<Suc p + 2] = [d (p + 1), d (p + 2)]"
  by (simp_all add: upt_conv_Cons numeral_eq_Suc)

lemma signed_at:
  assumes "holds_at d p (store_be (Suc n) (word_of_int i) [])" "n < 8" "- 128 * 256 ^ n \<le> i" "i < 128 * 256 ^ n"
  shows "256 ^ n * sint (d p) + be_val (map d [Suc p..<Suc p + n]) = i"
proof -
  have "d p = hd (store_be (Suc n) (word_of_int i) [])" "holds_at d (Suc p) (store_be n (word_of_int i) [])"
    using assms(1) unfolding store_be_Cons by simp_all
  then show ?thesis using signed_bytes [OF assms(2-4)] holds_map [of d "Suc p" "store_be n (word_of_int i) []"] by simp
qed

lemma eight_at: "holds_at d p (store_be 8 v []) \<Longrightarrow> eight_bytes d p = v"
proof -
  assume h: "holds_at d p (store_be 8 v [])"
  let ?a = "FOUR_BYTE_UINT d p" and ?b = "FOUR_BYTE_UINT d (p + 4)"
  have r: "0 \<le> uint ?a" "uint ?a < 2 ^ 32" "0 \<le> uint ?b" "uint ?b < 2 ^ 32" using uint_bounded [of ?a] uint_bounded [of ?b] by simp_all
  have "uint (push_bit 32 (ucast ?a :: u64)) = 2 ^ 32 * uint ?a" using r
    by (simp only: unsigned_push_bit_eq unsigned_ucast_eq) (simp add: push_bit_eq_mult take_bit_eq_mod)
  moreover have "uint (ucast ?b :: u64) = uint ?b" using r by (simp only: unsigned_ucast_eq) (simp add: take_bit_eq_mod)
  ultimately have "uint (eight_bytes d p) = 2 ^ 32 * uint ?a + uint ?b" using r by (simp add: eight_bytes_def uint_word_ariths)
  also have "\<dots> = be_val (map d [p..<p + 8])" unfolding read_unsigned seq_bytes by (simp add: be_val_def ac_simps)
  also have "\<dots> = uint v" using holds_map [OF h] uint_bounded [of v] by (simp add: be_val_store)
  finally show ?thesis by (simp only: word_uint_eq_iff)
qed

lemma small_size: "t < 128 \<Longrightarrow> sqlite3VdbeSerialTypeLen t = sqlite3SmallTypeSizes ! t"
  by (simp add: sqlite3VdbeSerialTypeLen_def)

lemma type_sizes: "sqlite3VdbeSerialTypeLen 0 = 0" "sqlite3VdbeSerialTypeLen (Suc 0) = 1" "sqlite3VdbeSerialTypeLen 1 = 1" "sqlite3VdbeSerialTypeLen 2 = 2" "sqlite3VdbeSerialTypeLen 3 = 3" "sqlite3VdbeSerialTypeLen 4 = 4"
  "sqlite3VdbeSerialTypeLen 5 = 6" "sqlite3VdbeSerialTypeLen 6 = 8" "sqlite3VdbeSerialTypeLen 7 = 8" "sqlite3VdbeSerialTypeLen 8 = 0" "sqlite3VdbeSerialTypeLen 9 = 0" "sqlite3VdbeSerialTypeLen 10 = 0"
  by (simp_all add: small_size sqlite3SmallTypeSizes_def)

lemma get_int:
  assumes i: "in_i64 i" and h: "holds_at d p (store_be (snd (int_type f i)) (word_of_int i) [])"
  shows "sqlite3VdbeSerialGet d p (fst (int_type f i)) = MInt i" "sqlite3VdbeSerialTypeLen (fst (int_type f i)) = snd (int_type f i)" "fst (int_type f i) < 10"
proof -
  define u where "u = (if i < 0 then - i - 1 else i)"
  have "u \<le> 127 \<or> u > 127 \<and> u \<le> 32767 \<or> u > 32767 \<and> u \<le> 8388607 \<or> u > 8388607 \<and> u \<le> 2147483647 \<or>
      u > 2147483647 \<and> u \<le> 140737488355327 \<or> u > 140737488355327" by linarith
  then consider (const) "i = 0 \<or> i = 1" "f" | (one) "u \<le> 127" "\<not> ((i = 0 \<or> i = 1) \<and> f)" | (two) "u > 127" "u \<le> 32767" | (three) "u > 32767" "u \<le> 8388607"
    | (four) "u > 8388607" "u \<le> 2147483647" | (six) "u > 2147483647" "u \<le> 140737488355327" | (eight) "u > 140737488355327"
    by blast
  then have "sqlite3VdbeSerialGet d p (fst (int_type f i)) = MInt i \<and> sqlite3VdbeSerialTypeLen (fst (int_type f i)) = snd (int_type f i) \<and> fst (int_type f i) < 10"
  proof cases
    case const
    then have "i = 0 \<and> int_type f i = (8, 0) \<or> i = 1 \<and> int_type f i = (9, 0)" by (auto simp: int_type_def)
    then show ?thesis by (elim disjE conjE) (simp_all add: sqlite3VdbeSerialGet_def type_sizes)
  next
    case one
    have "i AND 1 = i \<longleftrightarrow> i = 0 \<or> i = 1" by (auto simp: and_one_eq)
    then have t: "int_type f i = (1, 1)" using one by (auto simp: int_type_def u_def)
    from signed_at [of d p 0 i] have "sint (d p) = i" using h one t by (auto simp: be_val_def u_def split: if_splits)
    then show ?thesis by (simp add: t sqlite3VdbeSerialGet_def ONE_BYTE_INT_def type_sizes)
  next
    case two
    then have t: "int_type f i = (2, 2)" by (simp add: int_type_def u_def)
    from signed_at [of d p 1 i] have "TWO_BYTE_INT d p = i" using h two t by (auto simp: read_signed numeral_2_eq_2 u_def split: if_splits)
    then show ?thesis by (simp add: t sqlite3VdbeSerialGet_def type_sizes)
  next
    case three
    then have t: "int_type f i = (3, 3)" by (simp add: int_type_def u_def)
    have "256 ^ 2 * sint (d p) + be_val (map d [Suc p..<Suc p + 2]) = i" by (rule signed_at) (use h three t in \<open>auto simp: numeral_3_eq_3 numeral_2_eq_2 u_def split: if_splits\<close>)
    then have "THREE_BYTE_INT d p = i" unfolding seq_bytes read_signed by simp
    then show ?thesis by (simp add: t sqlite3VdbeSerialGet_def type_sizes)
  next
    case four
    then have t: "int_type f i = (4, 4)" by (simp add: int_type_def u_def)
    have "256 ^ 3 * sint (d p) + be_val (map d [Suc p..<Suc p + 3]) = i" by (rule signed_at) (use h four t in \<open>auto simp: eval_nat_numeral u_def split: if_splits\<close>)
    then have "FOUR_BYTE_INT d p = i" unfolding seq_bytes read_signed by simp
    then show ?thesis by (simp add: t sqlite3VdbeSerialGet_def type_sizes)
  next
    case six
    then have t: "int_type f i = (5, 6)" by (simp add: int_type_def u_def)
    have "256 ^ 5 * sint (d p) + be_val (map d [Suc p..<Suc p + 5]) = i" by (rule signed_at) (use h six t in \<open>auto simp: eval_nat_numeral u_def split: if_splits\<close>)
    moreover have a: "p + 2 + 1 = p + 3" "p + 2 + 2 = p + 4" "p + 2 + 3 = p + 5" by simp_all
    ultimately have "uint (FOUR_BYTE_UINT d (p + 2)) + 2 ^ 32 * TWO_BYTE_INT d p = i" unfolding seq_bytes read_signed read_unsigned a by (simp add: be_val_def)
    then show ?thesis by (simp add: t sqlite3VdbeSerialGet_def type_sizes)
  next
    case eight
    then have t: "int_type f i = (6, 8)" by (simp add: int_type_def u_def)
    then have "eight_bytes d p = word_of_int i" using h eight_at by simp
    moreover have "sint (word_of_int i :: u64) = i" using i by (simp add: signed_of_int signed_take_bit_int_eq_self in_i64_def c_const)
    ultimately show ?thesis by (simp add: t sqlite3VdbeSerialGet_def serialGet_def type_sizes)
  qed
  then show "sqlite3VdbeSerialGet d p (fst (int_type f i)) = MInt i" "sqlite3VdbeSerialTypeLen (fst (int_type f i)) = snd (int_type f i)" "fst (int_type f i) < 10"
    by blast+
qed

section \<open>Fields\<close>

text \<open>What a value becomes in a record: its serial type, its bytes and what is read back.\<close>

fun blob_size :: "memval \<Rightarrow> nat" where
  "blob_size (MStr z) = length z"
| "blob_size (MBlob z None) = length z"
| "blob_size (MBlob z (Some k)) = length z + k"
| "blob_size _ = 0"

fun value_ok :: "memval \<Rightarrow> bool" where
  "value_ok (MInt i) = in_i64 i"
| "value_ok (MIntReal i) = in_i64 i"
| "value_ok v \<longleftrightarrow> blob_size v * 2 + 13 < 2 ^ 32"

fun type_of :: "bool \<Rightarrow> memval \<Rightarrow> nat" where
  "type_of f (MNull z) = (if z then 10 else 0)"
| "type_of f (MInt i) = fst (int_type f i)"
| "type_of f (MIntReal i) = (if fst (int_type f i) = 6 then 7 else fst (int_type f i))"
| "type_of f (MReal r) = 7"
| "type_of f (MStr z) = length z * 2 + 13"
| "type_of f (MBlob z k) = blob_size (MBlob z k) * 2 + 12"

fun data_of :: "bool \<Rightarrow> memval \<Rightarrow> bytes" where
  "data_of f (MNull z) = []"
| "data_of f (MInt i) = store_be (snd (int_type f i)) (word_of_int i) []"
| "data_of f (MIntReal i) = (if fst (int_type f i) = 6 then store_be 8 (i64_to_d i) [] else store_be (snd (int_type f i)) (word_of_int i) [])"
| "data_of f (MReal r) = store_be 8 r []"
| "data_of f (MStr z) = z"
| "data_of f (MBlob z None) = z"
| "data_of f (MBlob z (Some k)) = z @ replicate k 0"

fun decoded :: "bool \<Rightarrow> memval \<Rightarrow> memval" where
  "decoded f (MNull z) = MNull z"
| "decoded f (MInt i) = MInt i"
| "decoded f (MIntReal i) = (if fst (int_type f i) = 6 then MReal (i64_to_d i) else MInt i)"
| "decoded f (MReal r) = (if IsNaN r then MNull False else MReal r)"
| "decoded f (MStr z) = MStr z"
| "decoded f (MBlob z None) = MBlob z None"
| "decoded f (MBlob z (Some k)) = MBlob (z @ replicate k 0) None"

lemma sizes_check: "list_all (\<lambda>t. 12 \<le> t \<longrightarrow> sqlite3SmallTypeSizes ! t = (t - 12) div 2) [0..<128]"
  by (simp add: sqlite3SmallTypeSizes_def upt_rec)

lemma type_len_big: "12 \<le> t \<Longrightarrow> sqlite3VdbeSerialTypeLen t = (t - 12) div 2"
  using sizes_check by (auto simp: sqlite3VdbeSerialTypeLen_def list_all_iff)

lemma int_type_range: "int_type f i \<in> {(8, 0), (9, 0), (1, 1), (2, 2), (3, 3), (4, 4), (5, 6), (6, 8)}"
proof -
  have "i AND 1 = i \<longleftrightarrow> i = 0 \<or> i = 1" by (auto simp: and_one_eq)
  then show ?thesis by (auto simp: int_type_def Let_def)
qed

lemma int_type_len: "sqlite3VdbeSerialTypeLen (fst (int_type f i)) = snd (int_type f i)" "fst (int_type f i) < 10" "fst (int_type f i) \<noteq> 7"
  "fst (int_type f i) \<ge> 8 \<Longrightarrow> snd (int_type f i) = 0"
  using int_type_range [of f i] by (auto simp: type_sizes)

lemma type_of_len: "sqlite3VdbeSerialTypeLen (type_of f v) = length (data_of f v)"
proof (cases v)
  case (MBlob z k)
  then show ?thesis by (cases k) (simp_all add: type_len_big)
qed (simp_all add: type_sizes int_type_len type_len_big)

lemma get_data: "value_ok v \<Longrightarrow> holds_at d p (data_of f v) \<Longrightarrow> sqlite3VdbeSerialGet d p (type_of f v) = decoded f v"
proof (cases v)
  case (MNull z)
  then show ?thesis by (simp add: sqlite3VdbeSerialGet_def)
next
  case (MInt i)
  assume "value_ok v" "holds_at d p (data_of f v)"
  then show ?thesis using get_int(1) MInt by simp
next
  case (MIntReal i)
  assume v: "value_ok v" "holds_at d p (data_of f v)"
  show ?thesis
  proof (cases "fst (int_type f i) = 6")
    case True
    then have "eight_bytes d p = i64_to_d i" using v eight_at MIntReal by simp
    moreover have "\<not> IsNaN (i64_to_d i)" using v i64_to_d_units(2) MIntReal by simp
    ultimately show ?thesis using True MIntReal by (simp add: sqlite3VdbeSerialGet_def serialGet_def)
  next
    case False
    then show ?thesis using get_int(1) v MIntReal by simp
  qed
next
  case (MReal r)
  assume "holds_at d p (data_of f v)"
  then show ?thesis using MReal eight_at by (simp add: sqlite3VdbeSerialGet_def serialGet_def)
next
  case (MStr z)
  assume "holds_at d p (data_of f v)"
  then show ?thesis using MStr holds_map [of d p z] by (simp add: sqlite3VdbeSerialGet_def Let_def)
next
  case (MBlob z k)
  assume h: "holds_at d p (data_of f v)"
  define w where "w = data_of f v"
  have "sqlite3VdbeSerialGet d p (length w * 2 + 12) = MBlob w None" using holds_map [of d p w] h by (simp add: sqlite3VdbeSerialGet_def Let_def w_def)
  moreover have "type_of f v = length w * 2 + 12" "decoded f v = MBlob w None" using MBlob by (cases k; simp add: w_def)+
  ultimately show ?thesis by simp
qed

section \<open>Sizes of varints\<close>

lemma varint_bytes: "length (fst (sqlite3PutVarint v)) = snd (sqlite3PutVarint v)" "snd (sqlite3PutVarint v) \<le> 9" "1 \<le> snd (sqlite3PutVarint v)"
  using putVarint64_length [of v] by (simp_all add: putVarint_fast_path)

lemma unat_of: "n < 2 ^ 64 \<Longrightarrow> unat (of_nat n :: u64) = n"
  by (simp add: unat_of_nat)

lemma varintLen_bytes: "n < 2 ^ 63 \<Longrightarrow> sqlite3VarintLen (of_nat n) = length (fst (sqlite3PutVarint (of_nat n)))"
  by (simp add: varintLen_cases putVarint64_length putVarint_fast_path word_less_nat_alt unat_of_nat)

lemma put_small: "t < 128 \<Longrightarrow> fst (sqlite3PutVarint (of_nat t)) = [of_nat t]"
proof -
  assume t: "t < 128"
  have "(of_nat t :: u64) AND 0x7f = take_bit 7 (of_nat t)" by (simp add: take_bit_eq_mask mask_eq_exp_minus_1)
  also have "\<dots> = of_nat t" using t by (simp only: take_bit_of_nat) (simp add: take_bit_eq_mod)
  finally have "(of_nat t :: u64) AND 0x7f = of_nat t" .
  moreover have "(of_nat t :: u64) \<le> 0x7f" using t by (simp add: word_le_nat_alt unat_of_nat)
  moreover have "unat (ucast (of_nat t :: u64) :: u8) = t" using t by (simp only: unsigned_ucast_eq unsigned_of_nat) (simp add: take_bit_eq_mod)
  then have "(ucast (of_nat t :: u64) :: u8) = of_nat t" by (metis word_unat_eq_iff of_nat_unat ucast_id)
  ultimately show ?thesis by (simp add: sqlite3PutVarint_def)
qed

lemma varintLen_le: "n < 2 ^ 63 \<Longrightarrow> n < 2 ^ (7 * k) \<Longrightarrow> 1 \<le> k \<Longrightarrow> sqlite3VarintLen (of_nat n) \<le> k"
  using length_putVarint_buf [of k "of_nat n"] by (simp add: sqlite3VarintLen_def varintLen_buf drop_bit_0_iff unat_of_nat)

lemma varintLen_gt: "n < 2 ^ 63 \<Longrightarrow> 2 ^ (7 * k) \<le> n \<Longrightarrow> k < sqlite3VarintLen (of_nat n)"
  using length_putVarint_buf_gt [of k "of_nat n"] by (simp add: sqlite3VarintLen_def varintLen_buf drop_bit_0_iff unat_of_nat)

lemma varintLen_pos: "1 \<le> sqlite3VarintLen v"
  using putVarint64_length(2) [of v] by (simp add: varintLen_cases)

lemma varintLen_values:
  assumes "n < 2 ^ 35"
  shows "sqlite3VarintLen (of_nat n) =
    (if n < 128 then 1 else if n < 16384 then 2 else if n < 2097152 then 3 else if n < 268435456 then 4 else 5)"
  using assms varintLen_le [of n 1] varintLen_le [of n 2] varintLen_le [of n 3] varintLen_le [of n 4] varintLen_le [of n 5]
    varintLen_gt [of n 0] varintLen_gt [of n 1] varintLen_gt [of n 2] varintLen_gt [of n 3] varintLen_gt [of n 4] varintLen_pos [of "of_nat n"] by (cases "n = 0") auto

text \<open>The header size counts the varint that holds it.\<close>

lemma header_size_counts:
  assumes "N < 2 ^ 31"
  shows "header_size N = N + length (fst (sqlite3PutVarint (of_nat (header_size N))))" "header_size N < 2 ^ 32"
proof -
  have b: "header_size N \<le> N + 6" using varintLen_values [of N] assms by (auto simp: header_size_def Let_def)
  show "header_size N < 2 ^ 32" using b assms by simp
  have "header_size N = N + sqlite3VarintLen (of_nat (header_size N))"
  proof (cases "N \<le> 126")
    case False
    define l where "l = sqlite3VarintLen (of_nat N)"
    have l: "l = (if N < 128 then 1 else if N < 16384 then 2 else if N < 2097152 then 3 else if N < 268435456 then 4 else 5)"
      using varintLen_values [of N] assms by (simp add: l_def)
    have h: "header_size N = (if l < sqlite3VarintLen (of_nat (N + l)) then N + l + 1 else N + l)" using False by (simp add: header_size_def Let_def l_def)
    have "N + l + 1 < 2 ^ 35" using l assms by auto
    then show ?thesis unfolding h using varintLen_values [of "N + l"] varintLen_values [of "N + l + 1"] l by (auto split: if_splits)
  qed (use varintLen_values [of "N + 1"] in \<open>simp add: header_size_def\<close>)
  then show "header_size N = N + length (fst (sqlite3PutVarint (of_nat (header_size N))))" using varintLen_bytes [of "header_size N"] b assms by simp
qed

lemma getVarint32_holds:
  assumes "v < 2 ^ 32" "holds_at d p (fst (sqlite3PutVarint (of_nat v)))"
  shows "getVarint32_at d p = (v, length (fst (sqlite3PutVarint (of_nat v))))"
proof -
  let ?w = "of_nat v :: u64" and ?b = "fst (sqlite3PutVarint (of_nat v))"
  have n: "length ?b \<le> 9" using varint_bytes [of ?w] by simp
  then have "[p..<p + 9] = [p..<p + length ?b] @ [p + length ?b..<p + 9]" using upt_add_eq_append [of p "p + length ?b" "9 - length ?b"] by simp
  then have "map d [p..<p + 9] = ?b @ map d [p + length ?b..<p + 9]" using holds_map [OF assms(2)] by simp
  then have "sqlite3GetVarint (map d [p..<p + 9]) = Some (?w, length ?b)"
    using putVarint64_roundtrip [of ?w "map d [p + length ?b..<p + 9]"] by (simp add: putVarint_fast_path putVarint64_length)
  moreover have "?w \<le> 0xffffffff" using assms(1) by (simp add: word_le_nat_alt unat_of_nat)
  moreover have "unat (ucast ?w :: u32) = v" using assms(1) by (simp add: unat_of_nat unsigned_ucast_eq take_bit_eq_mod)
  ultimately show ?thesis by (simp add: getVarint32_at_def getVarint32_saturates)
qed

section \<open>The packing loop\<close>

lemma type_of_bound: "value_ok v \<Longrightarrow> type_of f v < 2 ^ 32"
proof (cases v)
  case (MBlob z k)
  assume "value_ok v"
  then show ?thesis using MBlob by (cases k) simp_all
qed (use order.strict_trans [OF int_type_len(2) [of f], of "2 ^ 32"] in auto)

lemma write_small: "content_of v = [] \<Longrightarrow> t < 10 \<Longrightarrow> snd (write_field (v, t)) = (if t \<le> 7 then store_be (sqlite3VdbeSerialTypeLen t) (value_bits v) [] else [])"
  by (auto simp: write_field_def small_size type_sizes [unfolded small_size, simplified] simp flip: small_size)

lemma write_int: "content_of v = [] \<Longrightarrow> snd (write_field (v, fst (int_type f i))) = store_be (snd (int_type f i)) (value_bits v) []"
  using int_type_len [of f i] by (auto simp: write_small)

lemma write_nochange: "snd (write_field (MNull True, 10)) = []"
  by (simp add: write_field_def)

lemma one_byte: "fst (sqlite3PutVarint 0) = [0]" "fst (sqlite3PutVarint 7) = [7]" "fst (sqlite3PutVarint 10) = [10]"
  using put_small [of 0] put_small [of 7] put_small [of 10] by simp_all

lemma write_content: "12 \<le> t \<Longrightarrow> length (content_of v) \<le> (t - 12) div 2 \<Longrightarrow> snd (write_field (v, t)) = content_of v"
  by (auto simp: write_field_def)

lemma size_field_correct:
  assumes "value_ok v" "size_field f nData m v = (Some (v', t, h, n, z), m')"
  shows "t = type_of f v" "fst (write_field (v', t)) = fst (sqlite3PutVarint (of_nat t))" "h = length (fst (write_field (v', t)))"
    "n = length (snd (write_field (v', t)))" "data_of f v = snd (write_field (v', t)) @ replicate z 0" "nData \<noteq> 0 \<Longrightarrow> z = 0"
proof -
  have w1: "fst (write_field (u, t)) = fst (sqlite3PutVarint (of_nat t))" for u t by (simp add: write_field_def put_small)
  have "t = type_of f v \<and> h = length (fst (sqlite3PutVarint (of_nat t))) \<and> n = length (snd (write_field (v', t))) \<and>
      data_of f v = snd (write_field (v', t)) @ replicate z 0 \<and> (nData \<noteq> 0 \<longrightarrow> z = 0)"
  proof (cases v)
    case (MBlob w k)
    then show ?thesis using assms type_of_bound [OF assms(1), of f] by (cases k) (auto simp: varintLen_bytes write_content Let_def simp del: of_nat_add of_nat_mult split: if_splits prod.splits)
  next
    case (MStr w)
    then show ?thesis using assms by (auto simp: varintLen_bytes write_content Let_def simp del: of_nat_add of_nat_mult)
  qed (use assms one_byte in \<open>auto simp: put_small [OF order.strict_trans [OF int_type_len(2)]] write_int write_small write_nochange type_sizes split: if_splits\<close>)
  then show "t = type_of f v" "fst (write_field (v', t)) = fst (sqlite3PutVarint (of_nat t))" "h = length (fst (write_field (v', t)))"
    "n = length (snd (write_field (v', t)))" "data_of f v = snd (write_field (v', t)) @ replicate z 0" "nData \<noteq> 0 \<Longrightarrow> z = 0"
    using w1 by auto
qed


text \<open>What the sizing loop has computed for the fields it has passed.\<close>

definition sized :: "bool \<Rightarrow> memval list \<Rightarrow> (memval \<times> nat) list \<Rightarrow> nat \<Rightarrow> nat \<Rightarrow> nat \<Rightarrow> bool" where
  "sized f vals fs nHdr nData nZero \<longleftrightarrow>
     concat (map (fst \<circ> write_field) fs) = concat (map (\<lambda>v. fst (sqlite3PutVarint (of_nat (type_of f v)))) vals) \<and>
     nHdr = length (concat (map (fst \<circ> write_field) fs)) \<and> nData = length (concat (map (snd \<circ> write_field) fs)) \<and>
     concat (map (data_of f) vals) = concat (map (snd \<circ> write_field) fs) @ replicate nZero 0"

lemma sized_Cons:
  assumes "sized f vals fs nHdr nData nZero" "value_ok v" "size_field f nData m v = (Some (v', t, h, n, z), m')"
  shows "sized f (v # vals) ((v', t) # fs) (nHdr + h) (nData + n) (nZero + z)"
proof (cases "nData = 0")
  case True
  then have "concat (map (snd \<circ> write_field) fs) = []" using assms(1) by (simp only: sized_def length_0_conv [symmetric])
  then show ?thesis using assms(1) size_field_correct [OF assms(2,3)] unfolding sized_def add.commute [of nZero] replicate_add by (simp del: concat_eq_Nil_conv)
next
  case False
  then show ?thesis using assms(1) size_field_correct [OF assms(2,3)] by (simp add: sized_def)
qed

lemma size_fields_sized:
  "size_fields f m vs fs nHdr nData nZero = (Some (fs', nHdr', nData', nZero'), m') \<Longrightarrow> sized f vals fs nHdr nData nZero \<Longrightarrow> list_all value_ok vs \<Longrightarrow>
   sized f (rev vs @ vals) fs' nHdr' nData' nZero'"
proof (induction f m vs fs nHdr nData nZero arbitrary: vals rule: size_fields.induct)
  case (2 f m v vs fs nHdr nData nZero)
  then show ?case using sized_Cons [OF "2.prems"(2)] by (auto split: prod.splits option.splits)
qed simp

lemma size_fields_total: "\<exists>r. size_fields f [] vs fs nHdr nData nZero = (Some r, [])"
proof (induction vs arbitrary: fs nHdr nData nZero)
  case (Cons v vs)
  have "\<exists>r. size_field f nData [] v = (Some r, [])" by (cases "(f, nData, [] :: outcomes, v)" rule: size_field.cases) (auto simp: malloc_def Let_def)
  then show ?case using Cons.IH by (auto split: prod.splits)
qed simp

text \<open>The number of bytes of a record and its header.\<close>

definition header_types :: "bool \<Rightarrow> memval list \<Rightarrow> bytes" where
  "header_types f vals = concat (map (\<lambda>v. fst (sqlite3PutVarint (of_nat (type_of f v)))) vals)"

definition record_image :: "bool \<Rightarrow> memval list \<Rightarrow> bytes" where
  "record_image f vals =
     (let n = header_size (length (header_types f vals))
      in fst (sqlite3PutVarint (of_nat n)) @ header_types f vals @ concat (map (data_of f) vals))"

lemma header_bytes: "write_header_size n = fst (sqlite3PutVarint (of_nat n))"
  by (simp add: write_header_size_def put_small)

lemma record_image_of:
  assumes "list_all value_ok vals" "OP_MakeRecord f lim sz m vals = (Record r z, m')"
  shows "r @ replicate z 0 = record_image f vals"
proof -
  obtain fs nHdr nData nZero m1 where s: "size_fields f m (rev vals) [] 0 0 0 = (Some (fs, nHdr, nData, nZero), m1)"
    using assms(2) by (auto simp: OP_MakeRecord_def split: prod.splits option.splits)
  have "sized f [] [] 0 0 0" by (simp add: sized_def)
  from size_fields_sized [OF s this] have "sized f vals fs nHdr nData nZero" using assms(1) by (simp add: list_all_rev)
  moreover have "r = write_header_size (header_size nHdr) @ concat (map (fst \<circ> write_field) fs) @ concat (map (snd \<circ> write_field) fs)" "z = nZero"
    using assms(2) by (auto simp: OP_MakeRecord_def s Let_def split: if_splits prod.splits)
  ultimately show ?thesis by (simp add: record_image_def header_types_def sized_def header_bytes)
qed

section \<open>The unpacking loop\<close>

lemma unpack_loop_image:
  assumes "list_all value_ok vals" "holds_at d idx (header_types f vals)" "holds_at d p (concat (map (data_of f) vals))"
    "szHdr = idx + length (header_types f vals)" "p + length (concat (map (data_of f) vals)) \<le> nKey1" "length vs + length vals \<le> nF"
  shows "fst (unpack_loop d nKey1 nF szHdr idx p vs) = vs @ map (decoded f) vals \<and> snd (unpack_loop d nKey1 nF szHdr idx p vs) \<le> nKey1"
  using assms
proof (induction vals arbitrary: idx p vs)
  case Nil
  then show ?case by (simp add: header_types_def unpack_loop.simps)
next
  case (Cons v vals)
  let ?t = "type_of f v" and ?b = "fst (sqlite3PutVarint (of_nat (type_of f v)))"
  have t: "getVarint32_at d idx = (?t, length ?b)" using Cons.prems using type_of_bound [of v f] by (intro getVarint32_holds) (simp_all add: header_types_def)
  have g: "sqlite3VdbeSerialGet d p ?t = decoded f v" using Cons.prems by (intro get_data) auto
  have "0 < length ?b" using varint_bytes [of "of_nat ?t"] by simp
  then have "idx < szHdr" "p \<le> nKey1" using Cons.prems by (auto simp: header_types_def)
  then have u: "unpack_loop d nKey1 nF szHdr idx p vs =
      (if Suc (length vs) \<ge> nF then (vs @ [decoded f v], p + length (data_of f v))
       else unpack_loop d nKey1 nF szHdr (idx + length ?b) (p + length (data_of f v)) (vs @ [decoded f v]))"
    by (subst unpack_loop.simps) (simp add: t g type_of_len)
  show ?case
  proof (cases "Suc (length vs) \<ge> nF")
    case True
    then have "vals = []" using Cons.prems by (cases vals) simp_all
    then show ?thesis unfolding u using Cons.prems True by simp
  next
    case False
    then show ?thesis unfolding u using Cons.IH [of "idx + length ?b" "p + length (data_of f v)" "vs @ [decoded f v]"] Cons.prems by (simp add: header_types_def)
  qed
qed

lemma unpack_image:
  assumes "list_all value_ok vals" "length (header_types f vals) < 2 ^ 31" "holds_at d 0 (record_image f vals)" "length vals \<le> nF"
    "length (record_image f vals) \<le> nKey1"
  shows "sqlite3VdbeRecordUnpack d nKey1 nF = map (decoded f) vals"
proof -
  define N where "N = header_size (length (header_types f vals))"
  define b where "b = fst (sqlite3PutVarint (of_nat N))"
  have N: "N = length (header_types f vals) + length b" "N < 2 ^ 32" using header_size_counts [OF assms(2)] by (simp_all add: N_def b_def)
  have i: "record_image f vals = b @ header_types f vals @ concat (map (data_of f) vals)" by (simp add: record_image_def b_def N_def)
  then have h: "holds_at d 0 b" "holds_at d (length b) (header_types f vals)" "holds_at d N (concat (map (data_of f) vals))"
    using assms(3) by (auto simp: N add.commute)
  have g: "getVarint32_at d 0 = (N, length b)" using getVarint32_holds N(2) h(1) by (simp add: b_def)
  have "N + length (concat (map (data_of f) vals)) \<le> nKey1" using assms(5) i N(1) by simp
  then have "fst (unpack_loop d nKey1 nF N (length b) N []) = map (decoded f) vals" "snd (unpack_loop d nKey1 nF N (length b) N []) \<le> nKey1"
    using unpack_loop_image [OF assms(1) h(2,3), of N nKey1 "[]" nF] assms(4) N(1) by simp_all
  then show ?thesis by (simp add: sqlite3VdbeRecordUnpack_def g case_prod_unfold Let_def)
qed

lemma header_size_ge: "n \<le> header_size n"
  by (simp add: header_size_def Let_def)

lemma record_size:
  assumes "list_all value_ok vals" "OP_MakeRecord f lim sz m vals = (Record r z, m')" "lim < 2 ^ 31" "sz < 2 ^ 31"
  shows "length (header_types f vals) < 2 ^ 31"
proof -
  obtain fs nHdr nData nZero m1 where s: "size_fields f m (rev vals) [] 0 0 0 = (Some (fs, nHdr, nData, nZero), m1)"
    using assms(2) by (auto simp: OP_MakeRecord_def split: prod.splits option.splits)
  have "sized f [] [] 0 0 0" by (simp add: sized_def)
  from size_fields_sized [OF s this] have "sized f vals fs nHdr nData nZero" using assms(1) by (simp add: list_all_rev)
  then have "nHdr = length (header_types f vals)" by (simp add: sized_def header_types_def)
  moreover have "header_size nHdr \<le> sz \<or> header_size nHdr \<le> lim" using assms(2) by (auto simp: OP_MakeRecord_def s Let_def split: if_splits prod.splits)
  ultimately show ?thesis using header_size_ge [of nHdr] assms(3,4) by auto
qed

lemma make_record_total:
  assumes "list_all value_ok vals" "length (record_image f vals) \<le> lim" "lim < 2 ^ 31"
  shows "\<exists>r z. OP_MakeRecord f lim sz [] vals = (Record r z, [])"
proof -
  obtain fs nHdr nData nZero where s: "size_fields f [] (rev vals) [] 0 0 0 = (Some (fs, nHdr, nData, nZero), [])"
    using size_fields_total [of f "rev vals" "[]" 0 0 0] by auto
  have "sized f [] [] 0 0 0" by (simp add: sized_def)
  from size_fields_sized [OF s this] have z: "sized f vals fs nHdr nData nZero" using assms(1) by (simp add: list_all_rev)
  then have n: "nHdr = length (header_types f vals)" "nData + nZero = length (concat (map (data_of f) vals))" by (simp_all add: sized_def header_types_def)
  have "nHdr < 2 ^ 31" using assms(2,3) n by (simp add: record_image_def Let_def)
  then have "header_size nHdr + nData + nZero = length (record_image f vals)" using header_size_counts(1) [of nHdr] n by (simp add: record_image_def Let_def)
  then show ?thesis using assms(2) by (simp add: OP_MakeRecord_def s Let_def malloc_def)
qed

section \<open>Properties\<close>


lemma sample_size: "length (record_image True [MInt 1, MInt (- 2), MReal 0x4000000000000000, MStr [65, 66], MBlob [7] (Some 3)]) = 21"
proof -
  have "int_type True 1 = (9, 0)" "int_type True (- 2) = (1, 1)" by (simp_all add: int_type_def)
  moreover have "length (fst (sqlite3PutVarint (of_nat t))) = 1" if "t \<in> {1, 6, 7, 9, 17, 20}" for t using that put_small [of t] by auto
  from this [of 1] this [of 6] this [of 7] this [of 9] this [of 17] this [of 20] have "length (fst (sqlite3PutVarint 1)) = 1" "length (fst (sqlite3PutVarint 6)) = 1"
    "length (fst (sqlite3PutVarint 7)) = 1" "length (fst (sqlite3PutVarint 9)) = 1" "length (fst (sqlite3PutVarint 17)) = 1" "length (fst (sqlite3PutVarint 20)) = 1" by simp_all
  ultimately show ?thesis by (simp add: record_image_def header_types_def header_size_def)
qed


text \<open>Packing succeeds on every row whose record is within the length limit while memory lasts, and its bytes are the header size,
  the serial types and the data; what it returns is never a part of them.\<close>

theorem record_layout:
  assumes "list_all value_ok vals" "length (record_image f vals) \<le> lim" "lim < 2 ^ 31"
  shows "\<exists>r z. OP_MakeRecord f lim sz [] vals = (Record r z, []) \<and> r @ replicate z 0 = record_image f vals"
  using make_record_total [OF assms] record_image_of [OF assms(1)] by blast

end
