(* ===== verification/Mem_Compare.thy ===== *)
theory Mem_Compare
  imports Record_Format
begin

text \<open>
  Comparison of values (\<^verbatim>\<open>vdbeaux.c\<close>): \<^verbatim>\<open>sqlite3MemCompare\<close> orders NULL before numbers, numbers before text and text before
  blobs. A collating sequence is a comparison function of the application; it is called on text in its own encoding.
\<close>

section \<open>Bytes\<close>

text \<open>\<^verbatim>\<open>memcmp\<close>, of which the callers use the sign.\<close>

fun memcmp :: "bytes \<Rightarrow> bytes \<Rightarrow> nat \<Rightarrow> int" where
  "memcmp (a # as) (b # bs) (Suc n) = (if a < b then -1 else if a > b then 1 else memcmp as bs n)"
| "memcmp _ _ _ = 0"

fun isAllZero :: "bytes \<Rightarrow> bool" where
  "isAllZero [] = True"
| "isAllZero (b # bs) = (if b \<noteq> 0 then False else isAllZero bs)"

text \<open>Each blob is its bytes and the number of zeros it stands for.\<close>

definition sqlite3BlobCompare :: "bytes \<Rightarrow> nat option \<Rightarrow> bytes \<Rightarrow> nat option \<Rightarrow> int" where
  "sqlite3BlobCompare z1 k1 z2 k2 =
     (case (k1, k2) of
        (Some nZero1, Some nZero2) \<Rightarrow> int nZero1 - int nZero2
      | (Some nZero1, None) \<Rightarrow> if \<not> isAllZero z2 then -1 else int nZero1 - int (length z2)
      | (None, Some nZero2) \<Rightarrow> if \<not> isAllZero z1 then 1 else int (length z1) - int nZero2
      | (None, None) \<Rightarrow>
          let c = memcmp z1 z2 (if length z1 > length z2 then length z2 else length z1)
          in if c \<noteq> 0 then c else int (length z1) - int (length z2))"

section \<open>Values\<close>

type_synonym collation = "(bytes \<Rightarrow> bytes \<Rightarrow> int) option"

fun is_null :: "memval \<Rightarrow> bool" where
  "is_null (MNull z) = True"
| "is_null _ = False"

fun int_of :: "memval \<Rightarrow> int" where
  "int_of (MInt i) = i"
| "int_of (MIntReal i) = i"
| "int_of _ = 0"

definition i64_compare :: "int \<Rightarrow> int \<Rightarrow> int" where
  "i64_compare a b = (if a < b then -1 else if a > b then 1 else 0)"

definition d_compare :: "u64 \<Rightarrow> u64 \<Rightarrow> int" where
  "d_compare a b = (if d_less a b then -1 else if d_less b a then 1 else 0)"

text \<open>The branch of \<^verbatim>\<open>sqlite3MemCompare\<close> for two values of which one is a number.\<close>

fun number_compare :: "memval \<Rightarrow> memval \<Rightarrow> int" where
  "number_compare (MInt i) (MInt j) = i64_compare i j"
| "number_compare (MIntReal i) (MIntReal j) = i64_compare i j"
| "number_compare (MReal r) (MReal s) = d_compare r s"
| "number_compare (MInt i) (MReal s) = sqlite3IntFloatCompare i s"
| "number_compare (MIntReal i) (MReal s) = sqlite3IntFloatCompare i s"
| "number_compare (MInt i) (MIntReal j) = i64_compare i j"
| "number_compare (MIntReal i) (MInt j) = i64_compare i j"
| "number_compare (MInt i) _ = -1"
| "number_compare (MIntReal i) _ = -1"
| "number_compare (MReal r) (MInt j) = - sqlite3IntFloatCompare j r"
| "number_compare (MReal r) (MIntReal j) = - sqlite3IntFloatCompare j r"
| "number_compare (MReal r) _ = -1"
| "number_compare _ _ = 1"

fun is_number :: "memval \<Rightarrow> bool" where
  "is_number (MInt i) = True"
| "is_number (MIntReal i) = True"
| "is_number (MReal r) = True"
| "is_number _ = False"

fun nzero :: "memval \<Rightarrow> nat option" where
  "nzero (MBlob z k) = k"
| "nzero _ = None"

fun is_str :: "memval \<Rightarrow> bool" where
  "is_str (MStr z) = True"
| "is_str _ = False"

definition vdbeCompareMemString :: "bytes \<Rightarrow> bytes \<Rightarrow> (bytes \<Rightarrow> bytes \<Rightarrow> int) \<Rightarrow> int" where
  "vdbeCompareMemString z1 z2 xCmp = xCmp z1 z2"

definition sqlite3MemCompare :: "memval \<Rightarrow> memval \<Rightarrow> collation \<Rightarrow> int" where
  "sqlite3MemCompare a b pColl =
     (if is_null a \<or> is_null b then of_bool (is_null b) - of_bool (is_null a)
      else if is_number a \<or> is_number b then number_compare a b
      else if is_str a \<or> is_str b then
        (if \<not> is_str a then 1
         else if \<not> is_str b then -1
         else case pColl of Some xCmp \<Rightarrow> vdbeCompareMemString (content_of a) (content_of b) xCmp
              | None \<Rightarrow> sqlite3BlobCompare (content_of a) (nzero a) (content_of b) (nzero b))
      else sqlite3BlobCompare (content_of a) (nzero a) (content_of b) (nzero b))"

section \<open>The order of values\<close>

fun bytes_cmp :: "bytes \<Rightarrow> bytes \<Rightarrow> int" where
  "bytes_cmp [] [] = 0"
| "bytes_cmp [] (b # bs) = -1"
| "bytes_cmp (a # as) [] = 1"
| "bytes_cmp (a # as) (b # bs) = (if a < b then -1 else if b < a then 1 else bytes_cmp as bs)"

fun value_class :: "memval \<Rightarrow> int" where
  "value_class (MNull z) = 0"
| "value_class (MStr z) = 2"
| "value_class (MBlob z k) = 3"
| "value_class v = 1"

text \<open>The exact value of a number, and the bytes of text and blobs with their zeros.\<close>

fun number_units :: "memval \<Rightarrow> int" where
  "number_units (MInt i) = i * unit_one"
| "number_units (MIntReal i) = i * unit_one"
| "number_units (MReal r) = d_units r"
| "number_units _ = 0"

fun value_bytes :: "memval \<Rightarrow> bytes" where
  "value_bytes (MStr z) = z"
| "value_bytes (MBlob z None) = z"
| "value_bytes (MBlob z (Some k)) = z @ replicate k 0"
| "value_bytes _ = []"

definition text_cmp :: "collation \<Rightarrow> bytes \<Rightarrow> bytes \<Rightarrow> int" where
  "text_cmp pColl = (case pColl of Some c \<Rightarrow> (\<lambda>x y. sgn (c x y)) | None \<Rightarrow> bytes_cmp)"

definition value_cmp :: "collation \<Rightarrow> memval \<Rightarrow> memval \<Rightarrow> int" where
  "value_cmp pColl a b =
     (if value_class a \<noteq> value_class b then sgn (value_class a - value_class b)
      else if value_class a = 0 then 0
      else if value_class a = 1 then sgn (number_units a - number_units b)
      else if value_class a = 2 then text_cmp pColl (value_bytes a) (value_bytes b)
      else bytes_cmp (value_bytes a) (value_bytes b))"

text \<open>Values as they reach the comparison: a real is a number, and only an empty blob stands for zeros.\<close>

fun comparable :: "memval \<Rightarrow> bool" where
  "comparable (MInt i) = in_i64 i"
| "comparable (MIntReal i) = in_i64 i"
| "comparable (MReal r) = (\<not> IsNaN r)"
| "comparable (MBlob z (Some k)) = (z = [])"
| "comparable _ = True"

lemma bytes_cmp_antisym: "bytes_cmp a b = - bytes_cmp b a"
  by (induction a b rule: bytes_cmp.induct) auto

lemma bytes_cmp_refl [simp]: "bytes_cmp a a = 0"
  by (induction a) auto

lemma bytes_cmp_eq: "bytes_cmp a b = 0 \<longleftrightarrow> a = b"
  by (induction a b rule: bytes_cmp.induct) auto

lemma bytes_cmp_sgn: "sgn (bytes_cmp a b) = bytes_cmp a b"
  by (induction a b rule: bytes_cmp.induct) auto

lemma bytes_cmp_trans: "bytes_cmp a b \<le> 0 \<Longrightarrow> bytes_cmp b c \<le> 0 \<Longrightarrow> bytes_cmp a c \<le> 0"
proof (induction a c arbitrary: b rule: bytes_cmp.induct)
  case (3 x a)
  then show ?case by (cases b) (auto split: if_splits)
next
  case (4 x a y c)
  then show ?case by (cases b) (auto split: if_splits)
qed auto

lemma memcmp_prefix:
  "sgn (let c = memcmp a b (min (length a) (length b)) in if c \<noteq> 0 then c else int (length a) - int (length b)) = bytes_cmp a b"
  by (induction a b rule: bytes_cmp.induct) (auto simp: Let_def)

lemma isAllZero_iff: "isAllZero z \<longleftrightarrow> z = replicate (length z) 0"
  by (induction z) auto

lemma bytes_cmp_zeros: "bytes_cmp (replicate n 0) (replicate k 0) = sgn (int n - int k)"
proof (induction n arbitrary: k)
  case 0
  then show ?case by (cases k) auto
next
  case (Suc n)
  then show ?case by (cases k) auto
qed

text \<open>A blob with another byte is larger than any number of zeros.\<close>

lemma bytes_cmp_nonzero: "\<not> isAllZero z \<Longrightarrow> bytes_cmp (replicate n 0) z = -1"
proof (induction z arbitrary: n)
  case (Cons b z)
  then show ?case by (cases n) (auto simp: word_neq_0_conv split: if_splits)
qed simp

lemma blob_compare_bytes:
  assumes "comparable (MBlob z1 k1)" "comparable (MBlob z2 k2)"
  shows "sgn (sqlite3BlobCompare z1 k1 z2 k2) = bytes_cmp (value_bytes (MBlob z1 k1)) (value_bytes (MBlob z2 k2))"
proof (cases k1)
  case None
  note n1 = None
  show ?thesis
  proof (cases k2)
    case None
    then show ?thesis using memcmp_prefix [of z1 z2] n1 by (auto simp: sqlite3BlobCompare_def min_def Let_def split: if_splits)
  next
    case (Some b)
    then show ?thesis using n1 assms bytes_cmp_nonzero [of z1 b] bytes_cmp_zeros [of "length z1" b] bytes_cmp_antisym [of z1 "replicate b 0"]
      by (auto simp: sqlite3BlobCompare_def isAllZero_iff)
  qed
next
  case (Some a)
  note s1 = Some
  show ?thesis
  proof (cases k2)
    case None
    then show ?thesis using s1 assms bytes_cmp_nonzero [of z2 a] bytes_cmp_zeros [of a "length z2"] by (auto simp: sqlite3BlobCompare_def isAllZero_iff)
  next
    case (Some b)
    then show ?thesis using s1 assms bytes_cmp_zeros [of a b] by (simp add: sqlite3BlobCompare_def)
  qed
qed

lemma i64_compare_units: "i64_compare i j = sgn (i * unit_one - j * unit_one)"
proof -
  have "i64_compare i j = sgn (i * U - j * U)" if "U > 0" for U :: int using that by (simp add: i64_compare_def sgn_mult flip: left_diff_distrib)
  then show ?thesis by simp
qed

lemma d_compare_units: "\<not> IsNaN r \<Longrightarrow> \<not> IsNaN s \<Longrightarrow> d_compare r s = sgn (d_units r - d_units s)"
  by (simp add: d_compare_def d_less_def sgn_if)

lemma number_compare_units:
  assumes "comparable a" "comparable b" "is_number a" "is_number b"
  shows "number_compare a b = sgn (number_units a - number_units b)"
  using assms
proof (induction a b rule: number_compare.induct)
  case (10 r j)
  then show ?case by (simp add: int_float_compare_units sgn_minus [symmetric] del: power_numeral)
next
  case (11 r j)
  then show ?case by (simp add: int_float_compare_units sgn_minus [symmetric] del: power_numeral)
qed (simp_all add: i64_compare_units d_compare_units int_float_compare_units del: power_numeral)

lemma number_compare_other:
  "is_number a \<Longrightarrow> \<not> is_number b \<Longrightarrow> number_compare a b = -1" "\<not> is_number a \<Longrightarrow> is_number b \<Longrightarrow> number_compare a b = 1"
  by (induction a b rule: number_compare.induct) simp_all

lemma value_class_cases:
  "value_class v = 0 \<longleftrightarrow> is_null v" "value_class v = 1 \<longleftrightarrow> is_number v" "value_class v = 2 \<longleftrightarrow> is_str v" "0 \<le> value_class v" "value_class v \<le> 3"
  by (cases v; simp)+

text \<open>\<^verbatim>\<open>sqlite3MemCompare\<close> computes the order of values: NULL first, then numbers by their exact value, an integer and a double
  included, then text by its collating sequence or its bytes, then blobs by their bytes, a blob of zeros without writing them out.\<close>

lemma mem_compare_value:
  assumes "comparable a" "comparable b"
  shows "sgn (sqlite3MemCompare a b pColl) = value_cmp pColl a b"
proof -
  consider (null) "is_null a \<or> is_null b" | (number) "is_number a" "is_number b" | (mixed) "\<not> is_null a" "\<not> is_null b" "is_number a \<noteq> is_number b"
    | (str) x y where "a = MStr x" "b = MStr y" | (blob) x k y l where "a = MBlob x k" "b = MBlob y l"
    | (str_blob) x y l where "a = MStr x" "b = MBlob y l" | (blob_str) x k y where "a = MBlob x k" "b = MStr y"
    by (cases a; cases b; simp)
  then show ?thesis
  proof cases
    case null
    then show ?thesis by (cases a; cases b) (simp_all add: sqlite3MemCompare_def value_cmp_def)
  next
    case number
    then have "\<not> is_null a" "\<not> is_null b" "value_class a = 1" "value_class b = 1" by (cases a; cases b; simp)+
    then show ?thesis using number_compare_units [OF assms number] number by (simp add: sqlite3MemCompare_def value_cmp_def)
  next
    case mixed
    then show ?thesis using number_compare_other by (cases a; cases b) (simp_all add: sqlite3MemCompare_def value_cmp_def)
  next
    case str
    then show ?thesis using blob_compare_bytes [of x None y None]
      by (auto simp: sqlite3MemCompare_def value_cmp_def text_cmp_def vdbeCompareMemString_def split: option.splits)
  next
    case blob
    then show ?thesis using blob_compare_bytes [of x k y l] assms by (simp add: sqlite3MemCompare_def value_cmp_def)
  qed (simp_all add: sqlite3MemCompare_def value_cmp_def)
qed

text \<open>A collating sequence that orders its texts, and the order of values it gives.\<close>

definition collates :: "collation \<Rightarrow> bool" where
  "collates pColl \<longleftrightarrow> (\<forall>x y. text_cmp pColl x y = - text_cmp pColl y x) \<and>
     (\<forall>x y z. text_cmp pColl x y \<le> 0 \<longrightarrow> text_cmp pColl y z \<le> 0 \<longrightarrow> text_cmp pColl x z \<le> 0)"

lemma collates_binary: "collates None"
  unfolding collates_def text_cmp_def option.case using bytes_cmp_antisym bytes_cmp_trans by blast

lemma collatesD:
  "collates pColl \<Longrightarrow> text_cmp pColl x y = - text_cmp pColl y x"
  "collates pColl \<Longrightarrow> text_cmp pColl x y \<le> 0 \<Longrightarrow> text_cmp pColl y z \<le> 0 \<Longrightarrow> text_cmp pColl x z \<le> 0"
  unfolding collates_def by blast+

lemma sgn_diff_le: "sgn (x - y) \<le> 0 \<longleftrightarrow> x \<le> y" for x y :: int
  by (simp add: sgn_if)

lemma sgn_diff_swap: "sgn (x - y) = - sgn (y - x)" for x y :: int
  by (simp add: sgn_if)

lemma value_cmp_classes:
  "value_class a \<noteq> value_class b \<Longrightarrow> value_cmp pColl a b = sgn (value_class a - value_class b)"
  "value_class a = 0 \<Longrightarrow> value_class b = 0 \<Longrightarrow> value_cmp pColl a b = 0"
  "value_class a = 1 \<Longrightarrow> value_class b = 1 \<Longrightarrow> value_cmp pColl a b = sgn (number_units a - number_units b)"
  "value_class a = 2 \<Longrightarrow> value_class b = 2 \<Longrightarrow> value_cmp pColl a b = text_cmp pColl (value_bytes a) (value_bytes b)"
  "value_class a = 3 \<Longrightarrow> value_class b = 3 \<Longrightarrow> value_cmp pColl a b = bytes_cmp (value_bytes a) (value_bytes b)"
  by (simp_all add: value_cmp_def)

lemma value_class_range: "value_class v \<in> {0, 1, 2, 3}"
  by (cases v) simp_all

lemma value_cmp_antisym: "collates pColl \<Longrightarrow> value_cmp pColl a b = - value_cmp pColl b a"
proof (cases "value_class a = value_class b")
  case False
  then show ?thesis using sgn_diff_swap [of "value_class a"] by (simp add: value_cmp_classes(1))
next
  case True
  assume c: "collates pColl"
  from value_class_range [of b] consider "value_class b = 0" | "value_class b = 1" | "value_class b = 2" | "value_class b = 3" by blast
  then show ?thesis
  proof cases
    case 2
    then show ?thesis using True sgn_diff_swap [of "number_units a"] by (simp only: value_cmp_classes(3))
  next
    case 3
    then show ?thesis using True collatesD(1) [OF c, of "value_bytes a"] by (simp only: value_cmp_classes(4))
  next
    case 4
    then show ?thesis using True bytes_cmp_antisym [of "value_bytes a"] by (simp only: value_cmp_classes(5))
  qed (use True in \<open>simp add: value_cmp_classes(2)\<close>)
qed

lemma value_cmp_class_le: "value_cmp pColl a b \<le> 0 \<Longrightarrow> value_class a \<le> value_class b"
  using value_cmp_classes(1) [of a b pColl] sgn_diff_le [of "value_class a" "value_class b"] by fastforce

lemma value_cmp_trans:
  assumes "collates pColl" "value_cmp pColl a b \<le> 0" "value_cmp pColl b c \<le> 0"
  shows "value_cmp pColl a c \<le> 0"
proof (cases "value_class a = value_class c")
  case False
  then show ?thesis using value_cmp_class_le [OF assms(2)] value_cmp_class_le [OF assms(3)] value_cmp_classes(1) [OF False] sgn_diff_le [of "value_class a" "value_class c"] by simp
next
  case True
  then have e: "value_class a = value_class c" "value_class b = value_class c"
    using value_cmp_class_le [OF assms(2)] value_cmp_class_le [OF assms(3)] by simp_all
  from value_class_range [of c] consider "value_class c = 0" | "value_class c = 1" | "value_class c = 2" | "value_class c = 3" by blast
  then show ?thesis
  proof cases
    case 2
    then show ?thesis using assms(2,3) e by (simp only: value_cmp_classes(3) sgn_diff_le)
  next
    case 3
    then show ?thesis using assms(2,3) e collatesD(2) [OF assms(1)] by (simp only: value_cmp_classes(4))
  next
    case 4
    then show ?thesis using assms(2,3) e bytes_cmp_trans by (simp only: value_cmp_classes(5))
  qed (use e in \<open>simp add: value_cmp_classes(2)\<close>)
qed

section \<open>Properties\<close>

text \<open>C18: \<^verbatim>\<open>sqlite3MemCompare\<close> orders the values linearly when its collating sequence orders the texts: swapping the arguments changes
  the sign, and the order is transitive, across integers, doubles, text, blobs and blobs of zeros.\<close>

theorem mem_compare_linear:
  assumes "comparable a" "comparable b" "comparable c" "collates pColl"
  shows "sgn (sqlite3MemCompare a b pColl) = - sgn (sqlite3MemCompare b a pColl) \<and>
    (sqlite3MemCompare a b pColl \<le> 0 \<longrightarrow> sqlite3MemCompare b c pColl \<le> 0 \<longrightarrow> sqlite3MemCompare a c pColl \<le> 0)"
proof -
  have le: "x \<le> 0 \<longleftrightarrow> sgn x \<le> 0" for x :: int by (simp add: sgn_if)
  show ?thesis using value_cmp_antisym [OF assms(4), of a b] value_cmp_trans [OF assms(4), of a b c]
    unfolding le [of "sqlite3MemCompare a b pColl"] le [of "sqlite3MemCompare b c pColl"] le [of "sqlite3MemCompare a c pColl"]
    by (simp only: assms mem_compare_value) blast
qed

theorem mem_compare_linear_witness: "sqlite3MemCompare (MInt 3) (MBlob [7] None) None \<le> 0"
proof -
  have "sqlite3MemCompare (MInt 3) (MStr [65]) None \<le> 0" "sqlite3MemCompare (MStr [65]) (MBlob [7] None) None \<le> 0" by (simp_all add: sqlite3MemCompare_def)
  then show ?thesis using mem_compare_linear [of "MInt 3" "MStr [65]" "MBlob [7] None" None] collates_binary by (simp add: in_i64_def c_const)
qed

end
