(* ===== verification/Record_Compare.thy ===== *)
theory Record_Compare
  imports Mem_Compare
begin

text \<open>
  Comparison of a packed record with an unpacked key (\<^verbatim>\<open>vdbeaux.c\<close>): the general routine \<^verbatim>\<open>sqlite3VdbeRecordCompareWithSkip\<close>, the fast
  ones for a first field that is an integer or text, and \<^verbatim>\<open>sqlite3VdbeFindCompare\<close>, which chooses.
\<close>

section \<open>Keys\<close>

abbreviation (input) KEYINFO_ORDER_DESC :: nat where "KEYINFO_ORDER_DESC \<equiv> 0x01"
abbreviation (input) KEYINFO_ORDER_BIGNULL :: nat where "KEYINFO_ORDER_BIGNULL \<equiv> 0x02"

record KeyInfo =
  nAllField :: nat
  aSortFlags :: "nat list"
  aColl :: "collation list"

text \<open>The union \<^verbatim>\<open>u\<close> with the length \<^verbatim>\<open>n\<close> of its text is kept as \<^verbatim>\<open>u_i\<close> and \<^verbatim>\<open>u_z\<close>.\<close>

record UnpackedRecord =
  pKeyInfo :: KeyInfo
  aMem :: "memval list"
  u_i :: int
  u_z :: bytes
  nField :: nat
  default_rc :: int
  errCode :: int
  r1 :: int
  r2 :: int
  eqSeen :: bool

definition vdbeRecordDecodeInt :: "nat \<Rightarrow> mem \<Rightarrow> nat \<Rightarrow> int" where
  "vdbeRecordDecodeInt t aKey p =
     (if t = 0 \<or> t = 1 then ONE_BYTE_INT aKey p
      else if t = 2 then TWO_BYTE_INT aKey p
      else if t = 3 then THREE_BYTE_INT aKey p
      else if t = 4 then sint (FOUR_BYTE_UINT aKey p)
      else if t = 5 then uint (FOUR_BYTE_UINT aKey (p + 2)) + 2 ^ 32 * TWO_BYTE_INT aKey p
      else if t = 6 then sint (push_bit 32 (ucast (FOUR_BYTE_UINT aKey p)) OR ucast (FOUR_BYTE_UINT aKey (p + 4)) :: u64)
      else int t - 8)"

section \<open>The general routine\<close>

text \<open>One field: the comparison \<^verbatim>\<open>rc\<close> and the serial type read, or \<^const>\<open>None\<close> when the record is corrupt.\<close>

definition compare_field :: "UnpackedRecord \<Rightarrow> mem \<Rightarrow> nat \<Rightarrow> nat \<Rightarrow> nat \<Rightarrow> nat \<Rightarrow> (int \<times> nat) option" where
  "compare_field p aKey1 nKey1 idx1 d1 i =
     (case aMem p ! i of
        MNull _ \<Rightarrow>
          let t = unat (aKey1 idx1)
          in if t = 0 \<or> t = 10 \<or> t = 7 \<and> snd (snd (serialGet7 aKey1 d1)) then Some (0, t) else Some (1, t)
      | MReal r \<Rightarrow>
          let t = unat (aKey1 idx1) in
          if t \<ge> 10 then Some (if t = 10 then -1 else 1, t)
          else if t = 0 then Some (-1, t)
          else if t = 7 then
            (case serialGet7 aKey1 d1 of (m, x, nan) \<Rightarrow> Some (if nan then -1 else if d_less x r then -1 else if d_less r x then 1 else 0, t))
          else Some (sqlite3IntFloatCompare (int_of (sqlite3VdbeSerialGet aKey1 d1 t)) r, t)
      | MStr z \<Rightarrow>
          let t = fst (getVarint32_at aKey1 idx1) in
          if t < 12 then Some (-1, t)
          else if even t then Some (1, t)
          else
            let n = (t - 12) div 2 in
            if d1 + n > nKey1 \<or> nAllField (pKeyInfo p) \<le> i then None
            else
              (case aColl (pKeyInfo p) ! i of
                 Some xCmp \<Rightarrow> Some (vdbeCompareMemString (map aKey1 [d1..<d1 + n]) z xCmp, t)
               | None \<Rightarrow>
                   let rc = memcmp (map aKey1 [d1..<d1 + n]) z (min n (length z))
                   in Some (if rc = 0 then int n - int (length z) else rc, t))
      | MBlob z k \<Rightarrow>
          let t = fst (getVarint32_at aKey1 idx1) in
          if t < 12 \<or> odd t then Some (-1, t)
          else
            let nStr = (t - 12) div 2 in
            if d1 + nStr > nKey1 then None
            else
              (case k of
                 Some nZero \<Rightarrow> Some (if \<not> isAllZero (map aKey1 [d1..<d1 + nStr]) then 1 else int nStr - int nZero, t)
               | None \<Rightarrow>
                   let rc = memcmp (map aKey1 [d1..<d1 + nStr]) z (min nStr (length z))
                   in Some (if rc = 0 then int nStr - int (length z) else rc, t))
      | v \<Rightarrow>
          let t = unat (aKey1 idx1) in
          if t \<ge> 10 then Some (if t = 10 then -1 else 1, t)
          else if t = 0 then Some (-1, t)
          else if t = 7 then Some (- sqlite3IntFloatCompare (int_of v) (fst (snd (serialGet7 aKey1 d1))), t)
          else
            let lhs = vdbeRecordDecodeInt t aKey1 d1; rhs = int_of v
            in Some (if lhs < rhs then -1 else if lhs > rhs then 1 else 0, t))"

definition sort_result :: "nat \<Rightarrow> bool \<Rightarrow> int \<Rightarrow> int" where
  "sort_result sortFlags null rc =
     (if sortFlags \<noteq> 0 \<and> (sortFlags AND KEYINFO_ORDER_BIGNULL = 0 \<or> (sortFlags AND KEYINFO_ORDER_DESC \<noteq> 0) \<noteq> null) then - rc else rc)"

function compare_loop :: "UnpackedRecord \<Rightarrow> mem \<Rightarrow> nat \<Rightarrow> nat \<Rightarrow> nat \<Rightarrow> nat \<Rightarrow> nat \<Rightarrow> int \<times> UnpackedRecord" where
  "compare_loop p aKey1 nKey1 szHdr1 idx1 d1 i =
     (case compare_field p aKey1 nKey1 idx1 d1 i of
        None \<Rightarrow> (0, p\<lparr>errCode := SQLITE_CORRUPT\<rparr>)
      | Some (rc, t) \<Rightarrow>
          if rc \<noteq> 0 then (sort_result (aSortFlags (pKeyInfo p) ! i) (t = 0 \<or> is_null (aMem p ! i)) rc, p)
          else if i + 1 = nField p then (default_rc p, p\<lparr>eqSeen := True\<rparr>)
          else if d1 + sqlite3VdbeSerialTypeLen t > nKey1 then (default_rc p, p\<lparr>eqSeen := True\<rparr>)
          else if idx1 + sqlite3VarintLen (of_nat t) \<ge> szHdr1 then (0, p\<lparr>errCode := SQLITE_CORRUPT\<rparr>)
          else compare_loop p aKey1 nKey1 szHdr1 (idx1 + sqlite3VarintLen (of_nat t)) (d1 + sqlite3VdbeSerialTypeLen t) (i + 1))"
  by pat_completeness auto
termination
  by (relation "measure (\<lambda>(p, aKey1, nKey1, szHdr1, idx1, d1, i). szHdr1 - idx1)")
    (simp_all add: varintLen_pos [unfolded Suc_le_eq One_nat_def] diff_less_mono2 less_le_trans)

declare compare_loop.simps [simp del]

definition sqlite3VdbeRecordCompareWithSkip :: "nat \<Rightarrow> mem \<Rightarrow> UnpackedRecord \<Rightarrow> bool \<Rightarrow> int \<times> UnpackedRecord" where
  "sqlite3VdbeRecordCompareWithSkip nKey1 aKey1 pPKey2 bSkip =
     (let (szHdr1, idx1, d1, i) =
        (if bSkip then
           (let (s1, n) = getVarint32_at aKey1 1; szHdr1 = unat (aKey1 0) in (szHdr1, 1 + n, szHdr1 + sqlite3VdbeSerialTypeLen s1, 1))
         else let (szHdr1, idx1) = getVarint32_at aKey1 0 in (szHdr1, idx1, szHdr1, 0))
      in if d1 > nKey1 then (0, pPKey2\<lparr>errCode := SQLITE_CORRUPT\<rparr>)
         else compare_loop pPKey2 aKey1 nKey1 szHdr1 idx1 d1 i)"

definition sqlite3VdbeRecordCompare :: "nat \<Rightarrow> mem \<Rightarrow> UnpackedRecord \<Rightarrow> int \<times> UnpackedRecord" where
  "sqlite3VdbeRecordCompare nKey1 pKey1 pPKey2 = sqlite3VdbeRecordCompareWithSkip nKey1 pKey1 pPKey2 False"

section \<open>The fast routines\<close>

text \<open>The first field when it is an integer.\<close>

definition first_int :: "mem \<Rightarrow> nat \<Rightarrow> nat \<Rightarrow> int option" where
  "first_int k p t =
     (if t = 1 then Some (ONE_BYTE_INT k p)
      else if t = 2 then Some (TWO_BYTE_INT k p)
      else if t = 3 then Some (THREE_BYTE_INT k p)
      else if t = 4 then Some (sint (FOUR_BYTE_UINT k p))
      else if t = 5 then Some (uint (FOUR_BYTE_UINT k (p + 2)) + 2 ^ 32 * TWO_BYTE_INT k p)
      else if t = 6 then Some (sint (push_bit 32 (ucast (FOUR_BYTE_UINT k p)) OR ucast (FOUR_BYTE_UINT k (p + 4)) :: u64))
      else if t = 8 then Some 0
      else if t = 9 then Some 1
      else None)"

definition vdbeRecordCompareInt :: "nat \<Rightarrow> mem \<Rightarrow> UnpackedRecord \<Rightarrow> int \<times> UnpackedRecord" where
  "vdbeRecordCompareInt nKey1 pKey1 pPKey2 =
     (let aKey = unat (pKey1 0 AND 0x3F); serial_type = unat (pKey1 1) in
      case first_int pKey1 aKey serial_type of
        None \<Rightarrow> sqlite3VdbeRecordCompare nKey1 pKey1 pPKey2
      | Some lhs \<Rightarrow>
          let v = u_i pPKey2 in
          if v > lhs then (r1 pPKey2, pPKey2)
          else if v < lhs then (r2 pPKey2, pPKey2)
          else if nField pPKey2 > 1 then sqlite3VdbeRecordCompareWithSkip nKey1 pKey1 pPKey2 True
          else (default_rc pPKey2, pPKey2\<lparr>eqSeen := True\<rparr>))"

text \<open>The serial type is an \<^verbatim>\<open>int\<close>: the first byte with its sign, or the varint when that is negative.\<close>

definition vdbeRecordCompareString :: "nat \<Rightarrow> mem \<Rightarrow> UnpackedRecord \<Rightarrow> int \<times> UnpackedRecord" where
  "vdbeRecordCompareString nKey1 aKey1 pPKey2 =
     (let s = sint (aKey1 1);
          serial_type = (if s < 0 then sint (of_nat (fst (getVarint32_at aKey1 1)) :: u32) else s) in
      if serial_type < 12 then (r1 pPKey2, pPKey2)
      else if even serial_type then (r2 pPKey2, pPKey2)
      else
        let szHdr = unat (aKey1 0); nStr = nat ((serial_type - 12) div 2); n = length (u_z pPKey2) in
        if szHdr + nStr > nKey1 then (0, pPKey2\<lparr>errCode := SQLITE_CORRUPT\<rparr>)
        else
          let res = memcmp (map aKey1 [szHdr..<szHdr + nStr]) (u_z pPKey2) (min n nStr) in
          if res > 0 then (r2 pPKey2, pPKey2)
          else if res < 0 then (r1 pPKey2, pPKey2)
          else if nStr = n then
            (if nField pPKey2 > 1 then sqlite3VdbeRecordCompareWithSkip nKey1 aKey1 pPKey2 True
             else (default_rc pPKey2, pPKey2\<lparr>eqSeen := True\<rparr>))
          else if nStr > n then (r2 pPKey2, pPKey2)
          else (r1 pPKey2, pPKey2))"

text \<open>The routine chosen for a key, and the key with the fields that routine reads.\<close>

definition sqlite3VdbeFindCompare :: "UnpackedRecord \<Rightarrow> (nat \<Rightarrow> mem \<Rightarrow> UnpackedRecord \<Rightarrow> int \<times> UnpackedRecord) \<times> UnpackedRecord" where
  "sqlite3VdbeFindCompare p =
     (if nAllField (pKeyInfo p) \<le> 13 then
        let sf = aSortFlags (pKeyInfo p) ! 0 in
        if sf \<noteq> 0 \<and> sf AND KEYINFO_ORDER_BIGNULL \<noteq> 0 then (sqlite3VdbeRecordCompare, p)
        else
          let p = (if sf \<noteq> 0 then p\<lparr>r1 := 1, r2 := -1\<rparr> else p\<lparr>r1 := -1, r2 := 1\<rparr>) in
          (case aMem p ! 0 of
             MInt i \<Rightarrow> (vdbeRecordCompareInt, p\<lparr>u_i := i\<rparr>)
           | MStr z \<Rightarrow> if aColl (pKeyInfo p) ! 0 = None then (vdbeRecordCompareString, p\<lparr>u_z := z\<rparr>) else (sqlite3VdbeRecordCompare, p)
           | _ \<Rightarrow> (sqlite3VdbeRecordCompare, p))
      else (sqlite3VdbeRecordCompare, p))"

section \<open>Fields of a packed record\<close>

lemma signed_mod:
  fixes u :: int
  assumes "0 \<le> u" "u < 2 * h"
  shows "(u + h) mod (2 * h) - h = (if u < h then u else u - 2 * h)"
proof (cases "u < h")
  case False
  have "(u + h) mod (2 * h) = (u - h + 2 * h) mod (2 * h)" by (simp add: add.commute)
  also have "\<dots> = (u - h) mod (2 * h)" by (rule mod_add_self2)
  also have "\<dots> = u - h" using assms False by simp
  finally show ?thesis using False by simp
qed (use assms in simp)

lemma sint_four: "sint (FOUR_BYTE_UINT x p) = FOUR_BYTE_INT x p"
proof -
  let ?u = "uint (FOUR_BYTE_UINT x p)" and ?b = "be_val [x (p + 1), x (p + 2), x (p + 3)]"
  note r = u8_range [of "x p"]
  have b: "0 \<le> ?b" "?b < 16777216" using u8_range [of "x (p + 1)"] u8_range [of "x (p + 2)"] u8_range [of "x (p + 3)"] by (simp_all add: be_val_simps)
  have u: "?u = 16777216 * uint (x p) + ?b" by (simp add: read_unsigned be_val_simps)
  have "sint (FOUR_BYTE_UINT x p) = (?u + 2147483648) mod (2 * 2147483648) - 2147483648"
    by (simp add: sint_uint signed_take_bit_eq_take_bit_shift take_bit_eq_mod)
  also have "\<dots> = (if ?u < 2147483648 then ?u else ?u - 4294967296)" using signed_mod [of ?u 2147483648] u b r by simp
  finally have "sint (FOUR_BYTE_UINT x p) = (if ?u < 2147483648 then ?u else ?u - 4294967296)" .
  moreover have "sint (x p) = (if uint (x p) < 128 then uint (x p) else uint (x p) - 256)" unfolding sint_byte using signed_mod [of "uint (x p)" 128] r by simp
  ultimately show ?thesis using b r u unfolding read_signed by (cases "uint (x p) < 128") simp_all
qed

lemma eight_or: "push_bit 32 (ucast (FOUR_BYTE_UINT x p)) OR ucast (FOUR_BYTE_UINT x (p + 4)) = eight_bytes x p"
proof -
  have "(push_bit 32 a :: u64) AND ucast (b :: u32) = 0" for a b by (rule word_eq_by_bits, simp add: bitwise)
  then show ?thesis by (simp add: eight_bytes_def disjunctive_add_eq_or)
qed

lemma decode_int_get: "t \<in> {1, 2, 3, 4, 5, 6, 8, 9} \<Longrightarrow> sqlite3VdbeSerialGet k p t = MInt (vdbeRecordDecodeInt t k p)"
  by (auto simp: sqlite3VdbeSerialGet_def vdbeRecordDecodeInt_def sint_four eight_or serialGet_def)

lemma first_int_decode: "first_int k p t = (if t \<in> {1, 2, 3, 4, 5, 6, 8, 9} then Some (vdbeRecordDecodeInt t k p) else None)"
  by (auto simp: first_int_def vdbeRecordDecodeInt_def)

text \<open>What the routines see of a field: its serial type in the header at \<open>idx\<close> and its data at \<open>d1\<close>.\<close>

fun data_at :: "mem \<Rightarrow> nat \<Rightarrow> nat \<Rightarrow> nat \<Rightarrow> memval \<Rightarrow> bool" where
  "data_at k b d1 t (MNull z) \<longleftrightarrow> t = 0 \<and> b = 0"
| "data_at k b d1 t (MInt j) \<longleftrightarrow> t \<in> {1, 2, 3, 4, 5, 6, 8, 9} \<and> b = t \<and> vdbeRecordDecodeInt t k d1 = j \<and> in_i64 j"
| "data_at k b d1 t (MReal x) \<longleftrightarrow> t = 7 \<and> b = 7 \<and> eight_bytes k d1 = x \<and> \<not> IsNaN x"
| "data_at k b d1 t (MStr z) \<longleftrightarrow> t = length z * 2 + 13 \<and> 13 \<le> b \<and> map k [d1..<d1 + length z] = z"
| "data_at k b d1 t (MBlob z None) \<longleftrightarrow> t = length z * 2 + 12 \<and> 12 \<le> b \<and> map k [d1..<d1 + length z] = z"
| "data_at k b d1 t _ \<longleftrightarrow> False"

definition storable :: "memval \<Rightarrow> bool" where
  "storable v \<longleftrightarrow> value_ok v \<and> v \<noteq> MNull True \<and> (\<forall>r. v = MReal r \<longrightarrow> \<not> IsNaN r)"

lemma getVarint32_byte: "d p < 0x80 \<Longrightarrow> getVarint32_at d p = (unat (d p), 1)"
  using unat_u8_less [of "d p"] by (simp add: getVarint32_at_def getVarint32_def upt_conv_Cons unsigned_ucast_eq take_bit_eq_mod)

lemma first_byte:
  assumes "t < 2 ^ 32" "holds_at d p (fst (sqlite3PutVarint (of_nat t)))"
  shows "fst (getVarint32_at d p) = t" "t < 128 \<Longrightarrow> unat (d p) = t" "128 \<le> t \<Longrightarrow> 128 \<le> unat (d p)"
proof -
  show g: "fst (getVarint32_at d p) = t" using getVarint32_holds [OF assms] by simp
  show "t < 128 \<Longrightarrow> unat (d p) = t" using assms(2) by (simp add: put_small unat_of_nat)
  show "128 \<le> unat (d p)" if "128 \<le> t"
  proof (rule ccontr)
    assume "\<not> 128 \<le> unat (d p)"
    then have "d p < 0x80" by (simp add: word_less_nat_alt)
    from getVarint32_byte [of d p, OF this] g have "unat (d p) = t" by simp
    then show False using \<open>\<not> 128 \<le> unat (d p)\<close> that by simp
  qed
qed

lemma data_at_stored:
  assumes v: "storable v" and b: "b = unat (k idx)" and h: "holds_at k idx (fst (sqlite3PutVarint (of_nat (type_of f v))))" "holds_at k d1 (data_of f v)"
  shows "data_at k b d1 (type_of f v) (decoded f v)"
proof -
  have ok: "value_ok v" using v by (simp add: storable_def)
  note fb = first_byte [OF type_of_bound [OF ok, of f] h(1)]
  have int_at: "data_at k b d1 (fst (int_type f i)) (MInt i)"
    if "in_i64 i" "holds_at k d1 (store_be (snd (int_type f i)) (word_of_int i) [])" "type_of f v = fst (int_type f i)" for i
  proof -
    have t: "fst (int_type f i) \<in> {1, 2, 3, 4, 5, 6, 8, 9}" using int_type_range [of f i] by auto
    then show ?thesis using get_int(1) [OF that(1,2)] decode_int_get [OF t, of k d1] fb(2) b that(1,3) by auto
  qed
  show ?thesis
  proof (cases v)
    case (MNull z)
    then show ?thesis using v b fb by (simp add: storable_def)
  next
    case (MInt i)
    then show ?thesis using int_at [of i] ok h by simp
  next
    case (MIntReal i)
    then show ?thesis using int_at [of i] ok h fb b eight_at [of k d1 "i64_to_d i"] i64_to_d_units(2) [of i] by auto
  next
    case (MReal r)
    then show ?thesis using v b h fb eight_at [of k d1 r] by (simp add: storable_def)
  next
    case (MStr z)
    then show ?thesis using b h fb holds_map [of k d1 z] by (cases "type_of f v < 128") auto
  next
    case (MBlob z l)
    define w where "w = data_of f v"
    have w: "type_of f v = length w * 2 + 12" "decoded f v = MBlob w None" using MBlob by (cases l; simp add: w_def)+
    then show ?thesis using b h fb holds_map [of k d1 w] by (cases "type_of f v < 128") (auto simp: w_def [symmetric])
  qed
qed

lemma memcmp_sgn: "n = length a \<Longrightarrow> sgn (if memcmp a b (min n (length b)) = 0 then int n - int (length b) else memcmp a b (min n (length b))) = bytes_cmp a b"
  using memcmp_prefix [of a b] by (auto simp: Let_def split: if_splits)

lemma compare_field_value:
  assumes d: "data_at k (unat (k idx)) d1 t u" "fst (getVarint32_at k idx) = t" and w: "comparable (aMem p ! i)"
    and n: "d1 + sqlite3VdbeSerialTypeLen t \<le> nKey1" "i < nAllField (pKeyInfo p)"
  shows "\<exists>rc s. compare_field p k nKey1 idx d1 i = Some (rc, s) \<and> sgn rc = value_cmp (aColl (pKeyInfo p) ! i) u (aMem p ! i) \<and>
    (s = 0 \<longleftrightarrow> is_null u) \<and> (rc = 0 \<longrightarrow> s = t)"
proof (cases "aMem p ! i")
  case (MNull x)
  then show ?thesis using d by (cases u rule: value_bytes.cases) (auto simp: compare_field_def value_cmp_def serialGet7_def)
next
  case (MInt j)
  then show ?thesis using d w sgn_diff_swap [of "d_units (eight_bytes k d1)" "j * unit_one"]
    by (cases u rule: value_bytes.cases) (auto simp: compare_field_def value_cmp_def serialGet7_def int_float_compare_units i64_compare_units [unfolded i64_compare_def] simp del: power_numeral)
next
  case (MIntReal j)
  then show ?thesis using d w sgn_diff_swap [of "d_units (eight_bytes k d1)" "j * unit_one"]
    by (cases u rule: value_bytes.cases) (auto simp: compare_field_def value_cmp_def serialGet7_def int_float_compare_units i64_compare_units [unfolded i64_compare_def] simp del: power_numeral)
next
  case (MReal j)
  then show ?thesis using d w decode_int_get [of t k d1]
    by (cases u rule: value_bytes.cases) (auto simp: compare_field_def value_cmp_def serialGet7_def int_float_compare_units d_compare_units [unfolded d_compare_def] simp del: power_numeral)
next
  case (MStr z)
  show ?thesis
  proof (cases u rule: value_bytes.cases)
    case (1 y)
    then show ?thesis using d n MStr memcmp_sgn [of "length y" y z] by (auto simp: compare_field_def value_cmp_def text_cmp_def vdbeCompareMemString_def type_len_big Let_def split: option.splits)
  qed (use d n MStr in \<open>auto simp: compare_field_def value_cmp_def\<close>)
next
  case (MBlob z l)
  show ?thesis
  proof (cases u rule: value_bytes.cases)
    case (2 y)
    show ?thesis
    proof (cases l)
      case None
      then show ?thesis using 2 d n MBlob memcmp_sgn [of "length y" y z] by (auto simp: compare_field_def value_cmp_def type_len_big Let_def)
    next
      case (Some c)
      then show ?thesis using 2 d n MBlob w bytes_cmp_nonzero [of y c] bytes_cmp_antisym [of y "replicate c 0"] bytes_cmp_zeros [of "length y" c]
        by (auto simp: compare_field_def value_cmp_def type_len_big isAllZero_iff Let_def)
    qed
  qed (use d n MBlob in \<open>auto simp: compare_field_def value_cmp_def\<close>)
qed

section \<open>Rows in order\<close>

text \<open>The direction of a column: with \<^verbatim>\<open>BIGNULL\<close> a NULL is larger than every other value, and \<^verbatim>\<open>DESC\<close> reverses the order.\<close>

definition directed :: "nat \<Rightarrow> bool \<Rightarrow> int \<Rightarrow> int" where
  "directed flags null c =
     (let c = (if flags AND KEYINFO_ORDER_BIGNULL \<noteq> 0 \<and> null then - c else c)
      in if flags AND KEYINFO_ORDER_DESC \<noteq> 0 then - c else c)"

fun rows_cmp :: "UnpackedRecord \<Rightarrow> nat \<Rightarrow> memval list \<Rightarrow> int" where
  "rows_cmp p i [] = 0"
| "rows_cmp p i (a # as) =
     (if nField p \<le> i then 0
      else let c = value_cmp (aColl (pKeyInfo p) ! i) a (aMem p ! i)
           in if c \<noteq> 0 then directed (aSortFlags (pKeyInfo p) ! i) (is_null a \<or> is_null (aMem p ! i)) c else rows_cmp p (Suc i) as)"

text \<open>The result for a row: the first column that differs decides; equal rows give the default, and a row with fewer columns than the key is corrupt.\<close>

definition key_result :: "UnpackedRecord \<Rightarrow> nat \<Rightarrow> memval list \<Rightarrow> int \<times> UnpackedRecord" where
  "key_result p i vals =
     (if rows_cmp p i vals \<noteq> 0 then (rows_cmp p i vals, p)
      else if nField p \<le> i + length vals then (default_rc p, p\<lparr>eqSeen := True\<rparr>)
      else (0, p\<lparr>errCode := SQLITE_CORRUPT\<rparr>))"

definition key_ok :: "UnpackedRecord \<Rightarrow> bool" where
  "key_ok p \<longleftrightarrow> 0 < nField p \<and> nField p \<le> nAllField (pKeyInfo p) \<and>
     (\<forall>i < nField p. comparable (aMem p ! i) \<and> aSortFlags (pKeyInfo p) ! i \<le> 3)"

abbreviation (input) sgn_of :: "int \<times> UnpackedRecord \<Rightarrow> int \<times> UnpackedRecord" where
  "sgn_of \<equiv> apfst sgn"

lemma sort_result_directed: "flags \<le> 3 \<Longrightarrow> sort_result flags null c = directed flags null c"
proof -
  assume "flags \<le> 3"
  then consider "flags = 0" | "flags = 1" | "flags = 2" | "flags = 3" by linarith
  then show ?thesis by cases (auto simp: sort_result_def directed_def)
qed

lemma directed_sgn: "sgn (directed flags null c) = directed flags null (sgn c)" "directed flags null c = 0 \<longleftrightarrow> c = 0"
  by (simp_all add: directed_def Let_def sgn_minus)

lemma header_types_Cons: "header_types f (v # vals) = fst (sqlite3PutVarint (of_nat (type_of f v))) @ header_types f vals"
  by (simp add: header_types_def)

lemma header_types_pos: "vals \<noteq> [] \<Longrightarrow> 0 < length (header_types f vals)"
  using varint_bytes by (cases vals) (auto simp: header_types_Cons Suc_le_eq)

lemma compare_loop_rows:
  assumes "list_all storable vals" "vals \<noteq> []" "key_ok p" "i < nField p" "holds_at k idx (header_types f vals)" "holds_at k d1 (concat (map (data_of f) vals))"
    "szHdr = idx + length (header_types f vals)" "d1 + length (concat (map (data_of f) vals)) \<le> nKey1"
  shows "sgn_of (compare_loop p k nKey1 szHdr idx d1 i) = sgn_of (key_result p i (map (decoded f) vals))"
  using assms
proof (induction vals arbitrary: idx d1 i)
  case (Cons v vals)
  let ?t = "type_of f v" and ?b = "fst (sqlite3PutVarint (of_nat (type_of f v)))" and ?c = "value_cmp (aColl (pKeyInfo p) ! i) (decoded f v) (aMem p ! i)"
  have v: "storable v" "value_ok v" using Cons.prems(1) by (simp_all add: storable_def)
  have h: "holds_at k idx ?b" "holds_at k d1 (data_of f v)" "holds_at k (idx + length ?b) (header_types f vals)"
    "holds_at k (d1 + length (data_of f v)) (concat (map (data_of f) vals))" using Cons.prems by (simp_all add: header_types_def)
  have t: "?t < 2 ^ 32" "sqlite3VarintLen (of_nat ?t) = length ?b" using type_of_bound [OF v(2), of f] varintLen_bytes [of ?t] by simp_all
  have ok: "comparable (aMem p ! i)" "aSortFlags (pKeyInfo p) ! i \<le> 3" "i < nAllField (pKeyInfo p)" using Cons.prems(3,4) by (auto simp: key_ok_def)
  have a: "data_at k (unat (k idx)) d1 ?t (decoded f v)" by (rule data_at_stored [OF v(1) refl h(1,2)])
  have e: "d1 + sqlite3VdbeSerialTypeLen ?t \<le> nKey1" using Cons.prems(8) by (simp add: type_of_len)
  from compare_field_value [OF a first_byte(1) [OF t(1) h(1)] ok(1) e ok(3)] obtain rc s where f: "compare_field p k nKey1 idx d1 i = Some (rc, s)" "sgn rc = ?c" "s = 0 \<longleftrightarrow> is_null (decoded f v)" "rc = 0 \<Longrightarrow> s = ?t" by auto
  show ?case
  proof (cases "rc = 0")
    case False
    then have "?c \<noteq> 0" using f(2) by (metis sgn_0_0)
    let ?n = "is_null (decoded f v) \<or> is_null (aMem p ! i)"
    have "compare_loop p k nKey1 szHdr idx d1 i = (directed (aSortFlags (pKeyInfo p) ! i) ?n rc, p)"
      using False f(1,3) ok(2) by (simp add: compare_loop.simps [of p] sort_result_directed)
    moreover have "rows_cmp p i (map (decoded f) (v # vals)) = directed (aSortFlags (pKeyInfo p) ! i) ?n ?c" using \<open>?c \<noteq> 0\<close> Cons.prems(4) by simp
    moreover have "sgn ?c = ?c" by (metis f(2) sgn_sgn)
    ultimately show ?thesis using \<open>?c \<noteq> 0\<close> f(2) by (simp only: key_result_def directed_sgn apfst_conv) (simp add: directed_sgn)
  next
    case True
    then have "?c = 0" using f(2) by simp
    show ?thesis
    proof (cases "Suc i = nField p")
      case last: True
      then have "rows_cmp p i (map (decoded f) (v # vals)) = 0" using \<open>?c = 0\<close> by (cases vals) simp_all
      then show ?thesis using last True f(1) by (simp add: compare_loop.simps [of p] key_result_def)
    next
      case False
      then have i: "Suc i < nField p" using Cons.prems(4) by simp
      have k: "key_result p i (map (decoded f) (v # vals)) = key_result p (Suc i) (map (decoded f) vals)" using \<open>?c = 0\<close> i by (simp add: key_result_def)
      have "\<not> d1 + sqlite3VdbeSerialTypeLen ?t > nKey1" using Cons.prems(8) by (simp add: type_of_len)
      then have l: "compare_loop p k nKey1 szHdr idx d1 i =
          (if idx + length ?b \<ge> szHdr then (0, p\<lparr>errCode := SQLITE_CORRUPT\<rparr>)
           else compare_loop p k nKey1 szHdr (idx + length ?b) (d1 + length (data_of f v)) (Suc i))"
        using True f False t by (simp add: compare_loop.simps [of p k nKey1 szHdr idx] type_of_len)
      show ?thesis
      proof (cases "vals = []")
        case True
        then show ?thesis unfolding l k using Cons.prems(7) i by (simp add: header_types_def key_result_def)
      next
        case False
        then have "\<not> idx + length ?b \<ge> szHdr" using Cons.prems(7) header_types_pos [OF False, of f] by (simp add: header_types_Cons)
        then show ?thesis unfolding l k using Cons.IH [OF _ False Cons.prems(3) i h(3,4)] Cons.prems by (simp add: header_types_Cons)
      qed
    qed
  qed
qed simp

text \<open>The record in memory, with its header of \<open>N\<close> bytes.\<close>

definition packed_at :: "bool \<Rightarrow> mem \<Rightarrow> nat \<Rightarrow> memval list \<Rightarrow> bool" where
  "packed_at f k n vals \<longleftrightarrow> vals \<noteq> [] \<and> list_all storable vals \<and> holds_at k 0 (record_image f vals) \<and> n = length (record_image f vals) \<and> n \<le> 1000000000"

lemma packed_layout:
  assumes "packed_at f k n vals"
  obtains N b where "getVarint32_at k 0 = (N, b)" "N = b + length (header_types f vals)" "holds_at k b (header_types f vals)"
    "holds_at k N (concat (map (data_of f) vals))" "N + length (concat (map (data_of f) vals)) = n" "length (header_types f vals) \<le> 126 \<Longrightarrow> unat (k 0) = N \<and> b = 1 \<and> N < 128"
proof -
  define N where "N = header_size (length (header_types f vals))"
  define b where "b = fst (sqlite3PutVarint (of_nat N))"
  have i: "record_image f vals = b @ header_types f vals @ concat (map (data_of f) vals)" by (simp add: record_image_def b_def N_def)
  then have "length (header_types f vals) < 2 ^ 31" using assms by (simp add: packed_at_def)
  from header_size_counts [OF this] have N: "N = length (header_types f vals) + length b" "N < 2 ^ 32" by (simp_all add: N_def b_def)
  have h: "holds_at k 0 b" "holds_at k (length b) (header_types f vals)" "holds_at k N (concat (map (data_of f) vals))" "N + length (concat (map (data_of f) vals)) = n"
    using assms i by (auto simp: packed_at_def N(1) add.commute)
  show ?thesis
  proof (rule that [of N "length b"])
    show "getVarint32_at k 0 = (N, length b)" using getVarint32_holds N(2) h(1) by (simp add: b_def)
    have "length (header_types f vals) \<le> 126 \<Longrightarrow> N < 128" by (simp add: N_def header_size_def)
    then show "length (header_types f vals) \<le> 126 \<Longrightarrow> unat (k 0) = N \<and> length b = 1 \<and> N < 128"
      using first_byte(2) [OF N(2)] h(1) put_small [of N] by (simp add: b_def)
  qed (use h N in simp_all)
qed

lemma record_compare_rows:
  assumes "packed_at f k n vals" "key_ok p"
  shows "sgn_of (sqlite3VdbeRecordCompare n k p) = sgn_of (key_result p 0 (map (decoded f) vals))"
proof -
  from packed_layout [OF assms(1)] obtain N b where N: "getVarint32_at k 0 = (N, b)" "N = b + length (header_types f vals)" "holds_at k b (header_types f vals)"
    "holds_at k N (concat (map (data_of f) vals))" "N + length (concat (map (data_of f) vals)) = n" by metis
  have "sgn_of (compare_loop p k n N b N 0) = sgn_of (key_result p 0 (map (decoded f) vals))"
    by (rule compare_loop_rows) (use assms N in \<open>auto simp: packed_at_def key_ok_def\<close>)
  moreover have "\<not> N > n" using N(5) by simp
  ultimately show ?thesis by (simp add: sqlite3VdbeRecordCompare_def sqlite3VdbeRecordCompareWithSkip_def N(1))
qed

text \<open>The tail of a record whose first field is equal to the key's.\<close>

lemma compare_skip_rows:
  assumes "packed_at f k n (v # vals)" "key_ok p" "vals \<noteq> []" "1 < nField p" "length (header_types f (v # vals)) \<le> 126"
  shows "sgn_of (sqlite3VdbeRecordCompareWithSkip n k p True) = sgn_of (key_result p 1 (map (decoded f) vals))"
proof -
  from packed_layout [OF assms(1)] obtain N b where N: "getVarint32_at k 0 = (N, b)" "N = b + length (header_types f (v # vals))" "holds_at k b (header_types f (v # vals))"
    "holds_at k N (concat (map (data_of f) (v # vals)))" "N + length (concat (map (data_of f) (v # vals))) = n" "length (header_types f (v # vals)) \<le> 126 \<Longrightarrow> unat (k 0) = N \<and> b = 1 \<and> N < 128" by metis
  have b: "b = 1" "unat (k 0) = N" using N(6) assms(5) by simp_all
  let ?b = "fst (sqlite3PutVarint (of_nat (type_of f v)))"
  have "value_ok v" using assms(1) by (simp add: packed_at_def storable_def)
  then have t: "getVarint32_at k 1 = (type_of f v, length ?b)" using getVarint32_holds type_of_bound N(3) by (simp add: header_types_def b)
  have "sgn_of (compare_loop p k n N (1 + length ?b) (N + length (data_of f v)) 1) = sgn_of (key_result p 1 (map (decoded f) vals))"
    by (rule compare_loop_rows) (use assms N b in \<open>auto simp: packed_at_def key_ok_def header_types_def\<close>)
  then show ?thesis using N(5) by (simp add: sqlite3VdbeRecordCompareWithSkip_def t [unfolded One_nat_def] b type_of_len)
qed

lemma key_result_Cons:
  assumes "key_ok p"
  shows "key_result p 0 (a # as) =
    (let c = value_cmp (aColl (pKeyInfo p) ! 0) a (aMem p ! 0) in
     if c \<noteq> 0 then (directed (aSortFlags (pKeyInfo p) ! 0) (is_null a \<or> is_null (aMem p ! 0)) c, p) else key_result p 1 as)"
  using assms by (simp add: key_result_def key_ok_def directed_sgn Let_def)

text \<open>The key as \<^verbatim>\<open>sqlite3VdbeFindCompare\<close> leaves it for a fast routine.\<close>

definition fast_key :: "UnpackedRecord \<Rightarrow> bool" where
  "fast_key p \<longleftrightarrow> (if aSortFlags (pKeyInfo p) ! 0 \<noteq> 0 then aSortFlags (pKeyInfo p) ! 0 = 1 \<and> r1 p = 1 \<and> r2 p = -1 else r1 p = -1 \<and> r2 p = 1)"

lemma fast_directed: "fast_key p \<Longrightarrow> directed (aSortFlags (pKeyInfo p) ! 0) nl (-1) = r1 p" "fast_key p \<Longrightarrow> directed (aSortFlags (pKeyInfo p) ! 0) nl 1 = r2 p"
  by (auto simp: fast_key_def directed_def split: if_splits)

lemma key_result_tail:
  assumes "packed_at f k n (v # vals)" "key_ok p" "nField p \<le> Suc (length vals)" "length (header_types f (v # vals)) \<le> 126"
  shows "sgn_of (if nField p > 1 then sqlite3VdbeRecordCompareWithSkip n k p True else (default_rc p, p\<lparr>eqSeen := True\<rparr>)) = sgn_of (key_result p 1 (map (decoded f) vals))"
proof (cases "nField p > 1")
  case True
  then have "vals \<noteq> []" using assms(3) by auto
  then show ?thesis using True compare_skip_rows [OF assms(1,2) _ True assms(4)] by simp
next
  case False
  then have "rows_cmp p 1 (map (decoded f) vals) = 0" by (cases vals) simp_all
  then show ?thesis using False by (simp add: key_result_def)
qed

lemma varint5: "value_ok v \<Longrightarrow> length (fst (sqlite3PutVarint (of_nat (type_of f v)))) \<le> 5"
  using varintLen_values [of "type_of f v"] varintLen_bytes [of "type_of f v"] type_of_bound [of v f] by (auto split: if_splits)

lemma header_types_bound: "list_all storable vals \<Longrightarrow> length (header_types f vals) \<le> 5 * length vals"
proof (induction vals)
  case (Cons v vals)
  then show ?case using varint5 [of v f] by (simp add: header_types_Cons storable_def)
qed (simp add: header_types_def)

text \<open>The first field of a record with at most 13.\<close>

lemma packed_first:
  assumes "packed_at f k n (v # vals)" "Suc (length vals) \<le> 13"
  obtains N where "unat (k 0) = N" "N = 1 + length (header_types f (v # vals))" "N \<le> 66" "data_at k (unat (k 1)) N (type_of f v) (decoded f v)"
    "fst (getVarint32_at k 1) = type_of f v" "N + length (data_of f v) \<le> n" "length (header_types f (v # vals)) \<le> 126"
proof -
  have s: "list_all storable (v # vals)" using assms(1) by (simp add: packed_at_def)
  have l: "length (header_types f (v # vals)) \<le> 65" using header_types_bound [OF s, of f] assms(2) by simp
  from packed_layout [OF assms(1)] obtain N b where N: "N = b + length (header_types f (v # vals))" "holds_at k b (header_types f (v # vals))"
    "holds_at k N (concat (map (data_of f) (v # vals)))" "N + length (concat (map (data_of f) (v # vals))) = n"
    "length (header_types f (v # vals)) \<le> 126 \<Longrightarrow> unat (k 0) = N \<and> b = 1 \<and> N < 128" by metis
  then have b: "unat (k 0) = N" "b = 1" using l by simp_all
  have h: "holds_at k 1 (fst (sqlite3PutVarint (of_nat (type_of f v))))" "holds_at k N (data_of f v)" using N(2,3) b by (simp_all add: header_types_Cons)
  have "data_at k (unat (k 1)) N (type_of f v) (decoded f v)" by (rule data_at_stored [OF _ refl h]) (use s in simp)
  moreover have "fst (getVarint32_at k 1) = type_of f v" by (rule first_byte(1) [OF _ h(1)]) (use s type_of_bound [of v f] in \<open>simp add: storable_def\<close>)
  ultimately show ?thesis using that [of N] N b l by simp
qed

lemma low_bits: "unat (w AND 0x3F) = unat w mod 64" for w :: u8
proof -
  have "w AND 0x3F = take_bit 6 w" by (simp add: take_bit_eq_mask mask_eq_exp_minus_1)
  then show ?thesis by (simp add: unsigned_take_bit_eq) (simp add: take_bit_eq_mod)
qed

lemma compare_int_rows:
  assumes "packed_at f k n vals" "key_ok p" "nField p \<le> length vals" "length vals \<le> 13" "fast_key p" "aMem p ! 0 = MInt (u_i p)"
  shows "sgn_of (vdbeRecordCompareInt n k p) = sgn_of (key_result p 0 (map (decoded f) vals))"
proof (cases vals)
  case Nil
  then show ?thesis using assms(1) by (simp add: packed_at_def)
next
  case (Cons v vs)
  note pk = assms(1) [unfolded Cons]
  have "Suc (length vs) \<le> 13" using assms(4) Cons by simp
  from packed_first [OF pk this] obtain N where N: "unat (k 0) = N" "N = 1 + length (header_types f (v # vs))"
    "data_at k (unat (k 1)) N (type_of f v) (decoded f v)" "length (header_types f (v # vs)) \<le> 126" by metis
  show ?thesis
  proof (cases "\<exists>j. decoded f v = MInt j")
    case True
    then obtain j where j: "decoded f v = MInt j" by blast
    then have t: "type_of f v \<in> {1, 2, 3, 4, 5, 6, 8, 9}" "unat (k 1) = type_of f v" "vdbeRecordDecodeInt (type_of f v) k N = j" using N(3) by auto
    have "length (header_types f (v # vs)) \<le> 61" using header_types_bound [of vs f] pk assms(4) Cons t(1) put_small [of "type_of f v"] by (auto simp: header_types_Cons packed_at_def)
    then have "unat (k 0 AND 0x3F) = N" using N(1,2) by (simp add: low_bits)
    then have c: "vdbeRecordCompareInt n k p = (if u_i p > j then (r1 p, p) else if u_i p < j then (r2 p, p)
        else if nField p > 1 then sqlite3VdbeRecordCompareWithSkip n k p True else (default_rc p, p\<lparr>eqSeen := True\<rparr>))"
      using t by (simp add: vdbeRecordCompareInt_def first_int_decode Let_def)
    have v: "value_cmp (aColl (pKeyInfo p) ! 0) (MInt j) (MInt (u_i p)) = (if j < u_i p then -1 else if j > u_i p then 1 else 0)"
      by (simp add: value_cmp_classes(3) i64_compare_units [unfolded i64_compare_def, symmetric] del: power_numeral)
    show ?thesis unfolding c using key_result_tail [OF pk assms(2) _ N(4)] assms(3) fast_directed [OF assms(5)]
      by (simp add: key_result_Cons [OF assms(2)] Cons j assms(6) v)
  next
    case False
    then have "unat (k 1) \<notin> {1, 2, 3, 4, 5, 6, 8, 9}" using N(3) by (cases "decoded f v" rule: value_bytes.cases) auto
    then have "vdbeRecordCompareInt n k p = sqlite3VdbeRecordCompare n k p" by (simp add: vdbeRecordCompareInt_def first_int_decode Let_def)
    then show ?thesis using record_compare_rows [OF assms(1,2)] by simp
  qed
qed

lemma sint_byte_cases: "sint b = (if uint b < 128 then uint b else uint b - 256)" for b :: u8
  unfolding sint_byte using signed_mod [of "uint b" 128] u8_range [of b] by simp

text \<open>The serial type as a signed number is the one storable, below 2 to the 31.\<close>

lemma serial_int:
  assumes "fst (getVarint32_at k 1) = t" "t < 2 ^ 31"
  shows "(if sint (k 1) < 0 then sint (of_nat (fst (getVarint32_at k 1)) :: u32) else sint (k 1)) = int t"
proof (cases "uint (k 1) < 128")
  case True
  then have "k 1 < 0x80" by (simp add: word_less_def)
  from getVarint32_byte [of k 1, OF this] have "unat (k 1) = t" using assms(1) by simp
  then have "uint (k 1) = int t" by (metis uint_nat)
  then show ?thesis using True by (simp add: sint_byte_cases)
next
  case False
  then have "sint (k 1) < 0" using u8_range [of "k 1"] by (simp add: sint_byte_cases)
  moreover have "sint (of_nat t :: u32) = int t" using assms(2) by (simp add: signed_of_nat signed_take_bit_int_eq_self)
  ultimately show ?thesis using assms(1) by simp
qed

lemma value_cmp_range: "value_cmp None a b \<in> {-1, 0, 1}"
  using bytes_cmp_sgn [of "value_bytes a" "value_bytes b"] by (auto simp: value_cmp_def text_cmp_def sgn_if split: if_splits)

lemma string_result:
  "(let res = memcmp y z (min (length z) (length y)) in
    if res > 0 then A else if res < 0 then B else if length y = length z then T else if length y > length z then A else B) =
   (let c = bytes_cmp y z in if c = -1 then B else if c = 1 then A else T)"
proof -
  define m where "m = memcmp y z (min (length y) (length z))"
  have "bytes_cmp y z = sgn (if m = 0 then int (length y) - int (length z) else m)" unfolding m_def by (rule memcmp_sgn [OF refl, symmetric])
  then show ?thesis unfolding min.commute [of "length z"] m_def [symmetric] by (auto simp: Let_def sgn_if)
qed

lemma compare_string_rows:
  assumes "packed_at f k n vals" "key_ok p" "nField p \<le> length vals" "length vals \<le> 13" "fast_key p" "aMem p ! 0 = MStr (u_z p)" "aColl (pKeyInfo p) ! 0 = None"
  shows "sgn_of (vdbeRecordCompareString n k p) = sgn_of (key_result p 0 (map (decoded f) vals))"
proof (cases vals)
  case Nil
  then show ?thesis using assms(1) by (simp add: packed_at_def)
next
  case (Cons v vs)
  note pk = assms(1) [unfolded Cons]
  have "Suc (length vs) \<le> 13" using assms(4) Cons by simp
  from packed_first [OF pk this] obtain N where N: "unat (k 0) = N" "data_at k (unat (k 1)) N (type_of f v) (decoded f v)" "fst (getVarint32_at k 1) = type_of f v"
    "N + length (data_of f v) \<le> n" "length (header_types f (v # vs)) \<le> 126" by metis
  define st where "st = (if sint (k 1) < 0 then sint (of_nat (fst (getVarint32_at k 1)) :: u32) else sint (k 1))"
  have len: "12 \<le> type_of f v \<Longrightarrow> (type_of f v - 12) div 2 = length (data_of f v)" using type_of_len [of f v] by (simp add: type_len_big)
  have n: "n \<le> 1000000000" using pk by (simp add: packed_at_def)
  have "type_of f v < 2 ^ 31" using len N(4) n by (cases "12 \<le> type_of f v") auto
  then have st: "st = int (type_of f v)" unfolding st_def by (rule serial_int [OF N(3)])
  have big: "\<not> N + (type_of f v - 12) div 2 > n" if "12 \<le> type_of f v" using N(4) len [OF that] by simp
  have i: "nat ((int t - 12) div 2) = (t - 12) div 2" if "12 \<le> t" for t using that by (simp add: nat_div_distrib nat_diff_distrib)
  have c: "vdbeRecordCompareString n k p =
     (if type_of f v < 12 then (r1 p, p) else if even (type_of f v) then (r2 p, p)
      else let nStr = (type_of f v - 12) div 2; res = memcmp (map k [N..<N + nStr]) (u_z p) (min (length (u_z p)) nStr) in
        if res > 0 then (r2 p, p) else if res < 0 then (r1 p, p)
        else if nStr = length (u_z p) then if nField p > 1 then sqlite3VdbeRecordCompareWithSkip n k p True else (default_rc p, p\<lparr>eqSeen := True\<rparr>)
        else if nStr > length (u_z p) then (r2 p, p) else (r1 p, p))"
    unfolding vdbeRecordCompareString_def Let_def st_def [symmetric] st N(1) using big i [of "type_of f v"] by (cases "12 \<le> type_of f v") simp_all
  have K: "sgn_of (key_result p 0 (map (decoded f) vals)) = sgn_of (let c = value_cmp None (decoded f v) (MStr (u_z p)) in
      if c = -1 then (r1 p, p) else if c = 1 then (r2 p, p) else if nField p > 1 then sqlite3VdbeRecordCompareWithSkip n k p True else (default_rc p, p\<lparr>eqSeen := True\<rparr>))"
    using key_result_tail [OF pk assms(2) _ N(5)] assms(3) fast_directed [OF assms(5)] value_cmp_range [of "decoded f v" "MStr (u_z p)"]
    by (auto simp: key_result_Cons [OF assms(2)] Cons assms(6,7) Let_def)
  show ?thesis
  proof (cases "decoded f v" rule: value_bytes.cases)
    case (1 y)
    then have t: "type_of f v = length y * 2 + 13" "map k [N..<N + length y] = y" using N(2) by simp_all
    have e: "value_cmp None (decoded f v) (MStr (u_z p)) = bytes_cmp y (u_z p)" using 1 by (simp add: value_cmp_def text_cmp_def)
    show ?thesis unfolding K e string_result [symmetric] by (simp add: c t Let_def)
  qed (use K c N(2) in \<open>auto simp: value_cmp_def\<close>)
qed

lemma find_compare_rows:
  assumes "packed_at f k n vals" "key_ok p" "nField p \<le> length vals" "length vals \<le> nAllField (pKeyInfo p)" "sqlite3VdbeFindCompare p = (xCmp, q)"
  shows "sgn_of (xCmp n k q) = sgn_of (key_result q 0 (map (decoded f) vals))"
proof -
  let ?sf = "aSortFlags (pKeyInfo p) ! 0"
  have sf: "?sf \<le> 3" using assms(2) by (simp add: key_ok_def)
  have q: "key_ok q" "nField q = nField p" using assms(2,5)
    by (auto simp: sqlite3VdbeFindCompare_def key_ok_def Let_def split: if_splits memval.splits)
  consider (general) "xCmp = sqlite3VdbeRecordCompare" | (int) "xCmp = vdbeRecordCompareInt" "aMem q ! 0 = MInt (u_i q)" "fast_key q" "nAllField (pKeyInfo p) \<le> 13"
    | (str) "xCmp = vdbeRecordCompareString" "aMem q ! 0 = MStr (u_z q)" "aColl (pKeyInfo q) ! 0 = None" "fast_key q" "nAllField (pKeyInfo p) \<le> 13"
  proof (cases "nAllField (pKeyInfo p) \<le> 13 \<and> \<not> (?sf \<noteq> 0 \<and> ?sf AND KEYINFO_ORDER_BIGNULL \<noteq> 0)")
    case False
    then show ?thesis using assms(5) general by (auto simp: sqlite3VdbeFindCompare_def Let_def split: if_splits)
  next
    case True
    define p' where "p' = (if ?sf \<noteq> 0 then p\<lparr>r1 := 1, r2 := -1\<rparr> else p\<lparr>r1 := -1, r2 := 1\<rparr>)"
    consider "?sf = 0" | "?sf = 1" | "?sf = 2" | "?sf = 3" using sf by linarith
    then have "?sf = 0 \<or> ?sf = 1" using True by cases simp_all
    then have fk: "fast_key p'" "fast_key (p'\<lparr>u_i := i\<rparr>)" "fast_key (p'\<lparr>u_z := z\<rparr>)" for i z by (auto simp: fast_key_def p'_def)
    have "sqlite3VdbeFindCompare p = (case aMem p' ! 0 of
             MInt i \<Rightarrow> (vdbeRecordCompareInt, p'\<lparr>u_i := i\<rparr>)
           | MStr z \<Rightarrow> if aColl (pKeyInfo p') ! 0 = None then (vdbeRecordCompareString, p'\<lparr>u_z := z\<rparr>) else (sqlite3VdbeRecordCompare, p')
           | _ \<Rightarrow> (sqlite3VdbeRecordCompare, p'))"
      using True \<open>?sf = 0 \<or> ?sf = 1\<close> by (elim disjE) (auto simp: sqlite3VdbeFindCompare_def p'_def Let_def split: memval.split)
    then show ?thesis using assms(5) True fk general int str by (cases "aMem p' ! 0") (auto split: if_splits)
  qed
  then show ?thesis
  proof cases
    case general
    then show ?thesis using record_compare_rows [OF assms(1) q(1)] by simp
  next
    case int
    then show ?thesis using compare_int_rows [OF assms(1) q(1)] assms(3,4) q(2) by simp
  next
    case str
    then show ?thesis using compare_string_rows [OF assms(1) q(1)] assms(3,4) q(2) by simp
  qed
qed

lemma find_compare_key:
  assumes "sqlite3VdbeFindCompare p = (xCmp, q)"
  shows "pKeyInfo q = pKeyInfo p" "aMem q = aMem p" "nField q = nField p" "default_rc q = default_rc p"
  using assms by (auto simp: sqlite3VdbeFindCompare_def Let_def split: if_splits memval.splits)

lemma rows_cmp_cong: "pKeyInfo q = pKeyInfo p \<Longrightarrow> aMem q = aMem p \<Longrightarrow> nField q = nField p \<Longrightarrow> rows_cmp q i vals = rows_cmp p i vals"
  by (induction q i vals rule: rows_cmp.induct) (simp_all add: Let_def)

lemma make_record_packed:
  assumes "list_all storable vals" "vals \<noteq> []" "OP_MakeRecord f lim sz m vals = (Record r z, m')" "length r + z \<le> 1000000000" "holds_at k 0 (r @ replicate z 0)"
  shows "packed_at f k (length r + z) vals"
proof -
  have "list_all value_ok vals" using assms(1) by (auto simp: list_all_iff storable_def)
  from record_image_of [OF this assms(3)] have "r @ replicate z 0 = record_image f vals" .
  moreover from this have "length r + z = length (record_image f vals)" by (metis length_append length_replicate)
  ultimately show ?thesis using assms by (simp add: packed_at_def)
qed

section \<open>A row and keys for it\<close>

definition sample_row :: "memval list" where "sample_row = [MInt 5, MStr [65]]"

definition sample_key :: "memval list \<Rightarrow> UnpackedRecord" where
  "sample_key vals = \<lparr>pKeyInfo = \<lparr>nAllField = 3, aSortFlags = [0, 1, 0], aColl = [None, None, None]\<rparr>, aMem = vals, u_i = 0, u_z = [], nField = length vals,
     default_rc = 1, errCode = 0, r1 = 0, r2 = 0, eqSeen = False\<rparr>"

lemma sample_record:
  obtains r z where "OP_MakeRecord True 1000 0 [] sample_row = (Record r z, [])" "length r + z \<le> 1000000000"
    "holds_at (\<lambda>i. if i < length r then r ! i else 0) 0 (r @ replicate z 0)"
proof -
  have v: "list_all value_ok sample_row" by (simp add: sample_row_def in_i64_def c_const)
  have "int_type True 5 = (1, 1)" by (simp add: int_type_def)
  moreover have "length (fst (sqlite3PutVarint (of_nat 1))) = 1" "length (fst (sqlite3PutVarint (of_nat 15))) = 1" "length (fst (sqlite3PutVarint (of_nat 3))) = 1"
    using put_small [of 1] put_small [of 15] put_small [of 3] by simp_all
  then have "length (fst (sqlite3PutVarint 1)) = 1" "length (fst (sqlite3PutVarint 15)) = 1" "length (fst (sqlite3PutVarint 3)) = 1" by simp_all
  ultimately have l: "length (record_image True sample_row) = 5" by (simp add: record_image_def header_types_def header_size_def sample_row_def)
  from make_record_total [OF v, of True 1000 0] l obtain r z where m: "OP_MakeRecord True 1000 0 [] sample_row = (Record r z, [])" by auto
  moreover from record_image_of [OF v m] l have "length r + z = 5" by (metis length_append length_replicate)
  ultimately show ?thesis using that [of r z] by (auto simp: holds_at_def nth_append)
qed

lemma sample_ok: "list_all storable sample_row" "sample_row \<noteq> []" "list_all comparable vals \<Longrightarrow> vals \<noteq> [] \<Longrightarrow> length vals \<le> 3 \<Longrightarrow> key_ok (sample_key vals)"
proof -
  show "list_all storable sample_row" "sample_row \<noteq> []" by (simp_all add: sample_row_def storable_def in_i64_def c_const)
  have "([0, 1, 0] :: nat list) ! i \<le> 3" if "i < 3" for i using that by (auto simp: less_Suc_eq numeral_3_eq_3)
  then show "list_all comparable vals \<Longrightarrow> vals \<noteq> [] \<Longrightarrow> length vals \<le> 3 \<Longrightarrow> key_ok (sample_key vals)" by (auto simp: key_ok_def sample_key_def list_all_length)
qed

section \<open>Properties\<close>

text \<open>C15: Comparing the bytes of a packed row with an unpacked key gives the order of their columns: the first column that differs decides, by
  the order of values with the collating sequence, the direction and the place of NULL of that column; equal columns give the key's default and
  are recorded in it. The row is not unpacked, integers are compared at the width they are stored with and zeros without writing them out.\<close>

theorem record_compare_lexicographic:
  assumes "list_all storable vals" "vals \<noteq> []" "OP_MakeRecord f lim sz m vals = (Record r z, m')" "length r + z \<le> 1000000000"
    "holds_at k 0 (r @ replicate z 0)" "key_ok p"
  shows "apfst sgn (sqlite3VdbeRecordCompare (length r + z) k p) = apfst sgn (key_result p 0 (map (decoded f) vals))"
  using record_compare_rows [OF make_record_packed [OF assms(1-5)] assms(6)] .

theorem record_compare_lexicographic_witness:
  "\<exists>r z. OP_MakeRecord True 1000 0 [] sample_row = (Record r z, []) \<and>
     apfst sgn (sqlite3VdbeRecordCompare (length r + z) (\<lambda>i. if i < length r then r ! i else 0) (sample_key [MReal 0x4014000000000000, MStr [66]])) =
       (1, sample_key [MReal 0x4014000000000000, MStr [66]])"
proof -
  let ?p = "sample_key [MReal 0x4014000000000000, MStr [66]]"
  from sample_record obtain r z where r: "OP_MakeRecord True 1000 0 [] sample_row = (Record r z, [])" "length r + z \<le> 1000000000"
    "holds_at (\<lambda>i. if i < length r then r ! i else 0) 0 (r @ replicate z 0)" .
  have k: "key_ok ?p" by (rule sample_ok(3)) (simp_all add: IsNaN_iff)
  have "d_units 0x4014000000000000 = 5 * unit_one" by (simp add: d_units_def magnitude_def)
  then have "rows_cmp ?p 0 (map (decoded True) sample_row) = 1"
    by (simp add: sample_key_def sample_row_def value_cmp_def text_cmp_def directed_def Let_def)
  then show ?thesis using record_compare_lexicographic [OF sample_ok(1,2) r k] r(1) by (auto simp: key_result_def)
qed

text \<open>C16: The routine that \<^verbatim>\<open>sqlite3VdbeFindCompare\<close> chooses for a key computes the same order on every row with at least the columns of the key:
  the ones that read an integer or a text of the first column directly, and skip it when it is equal, agree with the general one.\<close>

theorem find_compare_agrees:
  assumes "list_all storable vals" "vals \<noteq> []" "OP_MakeRecord f lim sz m vals = (Record r z, m')" "length r + z \<le> 1000000000"
    "holds_at k 0 (r @ replicate z 0)" "key_ok p" "nField p \<le> length vals" "length vals \<le> nAllField (pKeyInfo p)" "sqlite3VdbeFindCompare p = (xCmp, q)"
  shows "apfst sgn (xCmp (length r + z) k q) = apfst sgn (sqlite3VdbeRecordCompare (length r + z) k q) \<and>
    sgn (fst (xCmp (length r + z) k q)) = sgn (fst (key_result p 0 (map (decoded f) vals)))"
proof -
  note pk = make_record_packed [OF assms(1-5)] and q = find_compare_key [OF assms(9)]
  have "key_ok q" using assms(6) q by (simp add: key_ok_def)
  moreover have "fst (key_result q 0 (map (decoded f) vals)) = fst (key_result p 0 (map (decoded f) vals))"
    using rows_cmp_cong [OF q(1-3)] q by (simp add: key_result_def)
  ultimately show ?thesis using find_compare_rows [OF pk assms(6-9)] record_compare_rows [OF pk, of q] by (metis fst_apfst)
qed

theorem find_compare_agrees_witness:
  "\<exists>r z. OP_MakeRecord True 1000 0 [] sample_row = (Record r z, []) \<and>
     sgn (fst (vdbeRecordCompareInt (length r + z) (\<lambda>i. if i < length r then r ! i else 0) (sample_key [MInt 5, MStr [66]]\<lparr>r1 := -1, r2 := 1, u_i := 5\<rparr>))) = 1"
proof -
  let ?p = "sample_key [MInt 5, MStr [66]]"
  from sample_record obtain r z where r: "OP_MakeRecord True 1000 0 [] sample_row = (Record r z, [])" "length r + z \<le> 1000000000"
    "holds_at (\<lambda>i. if i < length r then r ! i else 0) 0 (r @ replicate z 0)" .
  have k: "key_ok ?p" by (rule sample_ok(3)) (simp_all add: in_i64_def c_const)
  have f: "sqlite3VdbeFindCompare ?p = (vdbeRecordCompareInt, ?p\<lparr>r1 := -1, r2 := 1, u_i := 5\<rparr>)" by (simp add: sqlite3VdbeFindCompare_def sample_key_def)
  have n: "nField ?p \<le> length sample_row" "length sample_row \<le> nAllField (pKeyInfo ?p)" by (simp_all add: sample_key_def sample_row_def)
  have "rows_cmp ?p 0 (map (decoded True) sample_row) = 1"
    by (simp add: sample_key_def sample_row_def value_cmp_def text_cmp_def directed_def Let_def)
  then show ?thesis using find_compare_agrees [OF sample_ok(1,2) r k n f] r(1) by (auto simp: key_result_def)
qed



end
