(* ===== verification/Spec2Isabelle.thy ===== *)
theory Spec2Isabelle
  imports Util_Int Varint Pager_Lock Conn_Channel Wal_Frame Wal_Iterator Num_Text Hash_Table Bitvec Rowset Like Wal_Checkpoint Btree_History Record_Compare
begin

text \<open>
  Verification of sqlol: SQLite compiled to WebAssembly and run on the JVM with several connections.

  \<^bold>\<open>The program.\<close> Every connection is a worker thread of one WebAssembly instance
  (\<^verbatim>\<open>wasm-lib/extras/conn_worker.c\<close>) that a Kotlin client drives through a few words of shared memory
  (\<^verbatim>\<open>SqliteWalPool.kt\<close>). SQLite (\<^verbatim>\<open>sqlite-amalgamation/sqlite3.c\<close>) opens its files through a VFS shim
  (\<^verbatim>\<open>wasm-lib/os_jvm.c\<close>) that sends locks and shared-memory requests to the host
  (\<^verbatim>\<open>JvmVfsLocks.kt\<close>, \<^verbatim>\<open>ShmArena.kt\<close>, \<^verbatim>\<open>JvmVfsRuntime.kt\<close>). What makes many connections safe is the
  chain host locks, shim, pager locks and write-ahead log; it is the core of this development.

  \<^bold>\<open>Host and shim.\<close>
  \<^item> \<^verbatim>\<open>Jvm_Locks\<close>: \<^verbatim>\<open>JvmVfsLocks\<close>. The lock level per connection of a file and the eight slots of a
    wal-index, with the index error of the slot arrays as an error value. A slot request is decided exactly by the
    locks of the other handles and changes nothing when it fails.
  \<^item> \<^verbatim>\<open>Os_Jvm\<close>: the methods of \<^verbatim>\<open>os_jvm.c\<close> over the host state, and \<^verbatim>\<open>ShmArena\<close> with 32-bit addresses.
    Reachable states of the VFS keep slots exclusive; mapped regions are disjoint and stable as long
    as the arena is not overrun, which nothing in the code prevents.
  \<^item> \<^verbatim>\<open>Pager_Lock\<close>: \<^verbatim>\<open>pagerLockDb\<close>, \<^verbatim>\<open>pagerUnlockDb\<close>, \<^verbatim>\<open>pager_wait_on_lock\<close> and the busy handler. At most
    one pager of a file is above SHARED; waiting is bounded by the timeout.

  \<^bold>\<open>Connection workers.\<close> \<^verbatim>\<open>Conn_Worker\<close> (two-address channel) and \<^verbatim>\<open>Conn_Channel\<close> (single word) have one
  step function per thread, between two accesses to shared memory; \<^verbatim>\<open>sqlite3_exec\<close> is an argument.
  Replies are those of the sequential execution, runs of the two-address channel end; a stop request
  can be lost and the single-word channel can deadlock without timeouts.

  \<^bold>\<open>Write-ahead log.\<close>
  \<^item> \<^verbatim>\<open>Wal_Frame\<close>: checksums, frames and recovery on the bytes of the log.
  \<^item> \<^verbatim>\<open>Wal_Index\<close>: the hash tables of the wal-index (\<^verbatim>\<open>walIndexAppend\<close>, \<^verbatim>\<open>walFindFrame\<close>).
  \<^item> \<^verbatim>\<open>Wal_Iterator\<close>: the merge sort and the iterator that give a checkpoint its order.
  \<^item> \<^verbatim>\<open>Wal_Shm\<close>: the shared header in two copies, read marks, and the operations that begin and end
    transactions, restart the log and checkpoint it, with every error branch; the results of file
    operations are a list the operations consume.
  \<^item> \<^verbatim>\<open>Wal_Protocol\<close>: a step relation that splits the operations wherever another connection can come
    between, its invariant, and snapshot isolation under every interleaving. The locale
    \<^verbatim>\<open>slot_locking\<close> states what the log needs of the locks; it is interpreted on the model of the host.
  \<^item> \<^verbatim>\<open>Wal_Refine\<close>, \<^verbatim>\<open>Wal_Checkpoint\<close>: the operations of \<^verbatim>\<open>Wal_Shm\<close> are runs of that relation.

  \<^bold>\<open>B-tree pages.\<close> The memory of a page is a function from offsets to bytes.
  \<^item> \<^verbatim>\<open>Btree_Cell\<close>: page types, the parsers of cells and the routines that only compute sizes; they agree
    on every content.
  \<^item> \<^verbatim>\<open>Ptrmap\<close>: the pointer map of auto-vacuum databases over a pager that can fail.
  \<^item> \<^verbatim>\<open>Btree_Page\<close>: the operations of \<^verbatim>\<open>btree.c\<close> on one page, with every corruption test: free blocks,
    fragments, defragmentation, inserting and removing cells, opening and clearing.
  \<^item> \<^verbatim>\<open>Btree_Space\<close>: the invariant. Cells, free blocks and reserved regions are disjoint and fill the content area up to
    the fragment bytes. \<^verbatim>\<open>Btree_Free\<close>, \<^verbatim>\<open>Btree_Defrag\<close> and \<^verbatim>\<open>Btree_Alloc\<close> show that the operations keep it
    and never take a corruption branch; a request that fits into the free bytes is always served.
  \<^item> \<^verbatim>\<open>Btree_Rep\<close>, \<^verbatim>\<open>Btree_Open\<close>, \<^verbatim>\<open>Btree_History\<close>: a page is a list of cells; inserting, removing and opening
    refine the operations on the list, for single operations and (locale \<^verbatim>\<open>cell_page\<close>) for histories.

  \<^bold>\<open>Records.\<close>
  \<^item> \<^verbatim>\<open>Ieee\<close>: doubles as 64-bit words, their exact value in units of the smallest one, and the comparison with integers.
  \<^item> \<^verbatim>\<open>Record_Format\<close>: the packing loop of \<^verbatim>\<open>OP_MakeRecord\<close> and \<^verbatim>\<open>sqlite3VdbeRecordUnpack\<close>. A row that fits the length
    limit is packed unless memory runs out, and unpacking gives its values back.
  \<^item> \<^verbatim>\<open>Mem_Compare\<close>: \<^verbatim>\<open>sqlite3MemCompare\<close> is a linear order of values.
  \<^item> \<^verbatim>\<open>Record_Compare\<close>: comparing a packed row with a key, by the general routine and the two fast ones, is the
    lexicographic order of the columns; a row that is too short is reported as corrupt.

  \<^bold>\<open>Foundations of sqlite3.c.\<close> \<^verbatim>\<open>Util_Int\<close> (checked arithmetic, LogEst), \<^verbatim>\<open>Varint\<close>, \<^verbatim>\<open>Ctype\<close>
  (characters, case-insensitive comparison), \<^verbatim>\<open>Num_Text\<close> (integers and hexadecimal text),
  \<^verbatim>\<open>Utf\<close> (UTF-8 and UTF-16), \<^verbatim>\<open>Like\<close> (the pattern matcher against the language of a pattern),
  \<^verbatim>\<open>Hash_Table\<close> (locale \<^verbatim>\<open>dictionary\<close>), \<^verbatim>\<open>Bitvec\<close> (locale \<^verbatim>\<open>index_set\<close>) and \<^verbatim>\<open>Rowset\<close>, the last three with
  allocation failure. \<^verbatim>\<open>Prelude\<close> holds word and list lemmas and C integer arithmetic.

  \<^bold>\<open>Bounds and fuel.\<close> Machine integers are words where the code relies on their width, natural
  numbers where the code asserts or documents that no overflow occurs (frame and page numbers). The only fuel is in the retry loop of a read
  transaction: 101 attempts, proved to be enough because the code gives up after 100. Busy handlers
  are lists of answers. The steps of \<^verbatim>\<open>Wal_Protocol\<close> have no bound.

  \<^bold>\<open>Assumptions.\<close> Memory is sequentially consistent between the steps (the code uses barriers and
  atomic operations). A salt that restarts the log has not been used before (the code increments one
  half and draws the other at random). Page contents are abstract in \<^verbatim>\<open>Wal_Shm\<close>. Histories of a b-tree page have no pager error and no
  auto-vacuum; the theorems on single operations include both. Collating sequences are any functions that order texts; only the sign
  of a comparison is used. Values packed into an index are not the internal marker of an unchanged column.

  \<^bold>\<open>Not modelled.\<close> The SQL compiler, planner and virtual machine (affinities and \<^verbatim>\<open>OP_Column\<close> included), b-tree balancing, cursors and overflow chains, rollback journals, floating
  point text, Windows and Unix VFS, the shell; \<^verbatim>\<open>helpers.c\<close> only links imports.
\<close>

end
